(* ===== verification/Prelude.thy ===== *)
theory Prelude
  imports Main "HOL-Library.Word" "HOL-Library.State_Monad"
begin

unbundle bit_operations_syntax

text \<open>
  What every component shares: the machine types, the part of the C run-time the sources call
  (\<open>malloc\<close>, \<open>realloc\<close>, \<open>free\<close>, \<open>memcpy\<close>, \<open>strlen\<close>, loads and stores through a pointer), the
  weakest-precondition calculus the component proofs run on, and facts about NUL-terminated
  strings.

  A computation is a value of HOL-Library's state monad over a \<open>world\<close>:
  \<^item> \<open>avail\<close>: the outcomes of the coming allocation requests, one per request, in order. \<open>None\<close> is
    a request that fails, \<open>Some j\<close> one that succeeds with a block whose byte \<open>i\<close> holds the
    indeterminate value \<open>j i\<close>; when the list is used up every further request fails. A theorem
    for every world therefore covers every pattern of allocation failures and every content of
    fresh memory;
  \<^item> \<open>live\<close>: how many blocks are allocated, so that leaks and double frees change a number;
  \<^item> \<open>faults\<close>: how many accesses outside a block there were (undefined behaviour in C): a safe run
    leaves the number as it was.
  A pointer to a block is the block's content, \<open>None\<close> for the null pointer; an operation that
  changes the object behind a handle returns the changed object. Logging macros are left out:
  they touch no state of the program.
\<close>

type_synonym u8 = "8 word"
type_synonym u16 = "16 word"
type_synonym u32 = "32 word"

lemma unat_u8: "unat (c :: u8) < 256"
  using unsigned_less [of c, where ?'a = nat] by simp

lemma unat_u16: "unat (c :: u16) < 65536"
  using unsigned_less [of c, where ?'a = nat] by simp

lemma unat_u32: "unat (c :: u32) < 4294967296"
  using unsigned_less [of c, where ?'a = nat] by simp

lemma u8_eqI:
  fixes a b :: u8
  assumes "bit a 0 = bit b 0" "bit a 1 = bit b 1" "bit a 2 = bit b 2" "bit a 3 = bit b 3"
    "bit a 4 = bit b 4" "bit a 5 = bit b 5" "bit a 6 = bit b 6" "bit a 7 = bit b 7"
  shows "a = b"
proof (rule bit_word_eqI)
  fix n :: nat
  assume "n < LENGTH(8)"
  then have "n = 0 \<or> n = 1 \<or> n = 2 \<or> n = 3 \<or> n = 4 \<or> n = 5 \<or> n = 6 \<or> n = 7" by simp linarith
  then show "bit a n = bit b n" using assms by (elim disjE) simp_all
qed

lemma not_bit_u8 [simp]: "8 \<le> n \<Longrightarrow> \<not> bit (a :: u8) n"
  using bit_imp_le_length [of a n] by auto

record world =
  avail :: "(nat \<Rightarrow> u8) option list"
  live :: int
  faults :: nat

type_synonym 'a cm = "(world, 'a) state"

abbreviation ret :: "'a \<Rightarrow> 'a cm" where
  "ret \<equiv> State_Monad.return"

named_theorems wp_simps "weakest preconditions as equations"
named_theorems wp_intros "weakest preconditions of allocating operations, as rules"

section \<open>Sizes and status codes\<close>

text \<open>\<open>size_t\<close> is 32 bits wide on the target: a size is a \<open>nat\<close>, and every sum the code computes
  is reduced with \<open>szt\<close>.\<close>

definition SIZE_MOD :: nat where
  "SIZE_MOD = 4294967296"

definition szt :: "nat \<Rightarrow> nat" where
  "szt n = n mod SIZE_MOD"

lemma szt_id [simp]: "n < SIZE_MOD \<Longrightarrow> szt n = n"
  by (simp add: szt_def)

lemma szt_less [simp]: "szt n < SIZE_MOD"
  by (simp add: szt_def SIZE_MOD_def)

text \<open>\<open>__FAILURE__\<close> is a source line number or 1: callers only compare it with 0.\<close>

definition FAILURE :: int where
  "FAILURE = 1"

lemma FAILURE_neq_0 [simp]: "FAILURE \<noteq> 0" "0 \<noteq> FAILURE"
  by (simp_all add: FAILURE_def)

section \<open>The C run-time\<close>

definition c_assert :: "bool \<Rightarrow> unit cm" where
  "c_assert b = State (\<lambda>w. ((), if b then w else w\<lparr>faults := faults w + 1\<rparr>))"

definition request :: "((nat \<Rightarrow> u8) option) cm" where
  "request = State (\<lambda>w. case avail w of [] \<Rightarrow> (None, w) | a # as \<Rightarrow> (a, w\<lparr>avail := as\<rparr>))"

text \<open>What the next request will give, and that the next \<open>k\<close> requests all succeed.\<close>

definition next_alloc :: "world \<Rightarrow> (nat \<Rightarrow> u8) option" where
  "next_alloc w = (case avail w of [] \<Rightarrow> None | a # _ \<Rightarrow> a)"

definition plenty :: "nat \<Rightarrow> world \<Rightarrow> bool" where
  "plenty k w \<longleftrightarrow> k \<le> length (avail w) \<and> (\<forall>i < k. avail w ! i \<noteq> None)"

definition count_block :: "int \<Rightarrow> unit cm" where
  "count_block d = State (\<lambda>w. ((), w\<lparr>live := live w + d\<rparr>))"

definition c_malloc :: "nat \<Rightarrow> u8 list option cm" where
  "c_malloc n = do {
     a \<leftarrow> request;
     (case a of
        None \<Rightarrow> ret None
      | Some j \<Rightarrow> do { count_block 1; ret (Some (map j [0..<n])) })
   }"

text \<open>\<open>malloc (sizeof (T))\<close> for a struct whose fields the caller assigns: only success matters.\<close>

definition c_new :: "bool cm" where
  "c_new = do {
     a \<leftarrow> request;
     (case a of None \<Rightarrow> ret False | Some j \<Rightarrow> do { count_block 1; ret True })
   }"

text \<open>\<open>realloc (NULL, n)\<close> is \<open>malloc (n)\<close>. A failing \<open>realloc\<close> leaves the old block as it is; the
  result of resizing a block to 0 bytes is implementation-defined and counted as a fault.\<close>

definition c_realloc :: "u8 list option \<Rightarrow> nat \<Rightarrow> u8 list option cm" where
  "c_realloc p n =
     (case p of
        None \<Rightarrow> c_malloc n
      | Some old \<Rightarrow> do {
          c_assert (n \<noteq> 0);
          a \<leftarrow> request;
          ret (map_option (\<lambda>j. take n old @ map j [length old..<n]) a) })"

definition c_free :: "'a option \<Rightarrow> unit cm" where
  "c_free p = (case p of None \<Rightarrow> ret () | Some _ \<Rightarrow> count_block (-1))"

text \<open>The bytes a pointer gives access to: none for the null pointer.\<close>

definition blk :: "'a list option \<Rightarrow> 'a list" where
  "blk p = (case p of None \<Rightarrow> [] | Some b \<Rightarrow> b)"

lemma blk_simps [simp]: "blk None = []" "blk (Some b) = b"
  by (simp_all add: blk_def)

definition put :: "'a list \<Rightarrow> nat \<Rightarrow> 'a list \<Rightarrow> 'a list" where
  "put d i xs = take i d @ xs @ drop (i + length xs) d"

text \<open>\<open>memcpy (dst + doff, src + soff, n)\<close>.\<close>

definition c_memcpy :: "u8 list \<Rightarrow> nat \<Rightarrow> u8 list \<Rightarrow> nat \<Rightarrow> nat \<Rightarrow> u8 list cm" where
  "c_memcpy dst doff src soff n = do {
     c_assert (doff + n \<le> length dst \<and> soff + n \<le> length src);
     ret (if doff + n \<le> length dst \<and> soff + n \<le> length src
          then put dst doff (take n (drop soff src)) else dst)
   }"

definition c_store :: "u8 list \<Rightarrow> nat \<Rightarrow> u8 \<Rightarrow> u8 list cm" where
  "c_store dst i v = do { c_assert (i < length dst); ret (dst[i := v]) }"

text \<open>A run of stores \<open>dst[pos++] = x\<close>.\<close>

fun c_stores :: "u8 list \<Rightarrow> nat \<Rightarrow> u8 list \<Rightarrow> u8 list cm" where
  "c_stores dst i [] = ret dst"
| "c_stores dst i (x # xs) = do { d \<leftarrow> c_store dst i x; c_stores d (Suc i) xs }"

definition c_load :: "u8 list \<Rightarrow> nat \<Rightarrow> u8 cm" where
  "c_load src i = do { c_assert (i < length src); ret (if i < length src then src ! i else 0) }"

section \<open>NUL-terminated strings\<close>

text \<open>A \<open>char*\<close> is a block of bytes; the string it holds ends before the first zero byte.\<close>

definition c_str :: "u8 list \<Rightarrow> u8 list" where
  "c_str s = takeWhile (\<lambda>c. c \<noteq> 0) s"

definition is_cstr :: "u8 list \<Rightarrow> bool" where
  "is_cstr s \<longleftrightarrow> 0 \<in> set s"

definition c_strlen :: "u8 list \<Rightarrow> nat cm" where
  "c_strlen s = do { c_assert (is_cstr s); ret (length (c_str s)) }"

text \<open>\<open>strcmp\<close>: only the sign of the result is specified.\<close>

fun c_strcmp_bytes :: "u8 list \<Rightarrow> u8 list \<Rightarrow> int" where
  "c_strcmp_bytes [] [] = 0"
| "c_strcmp_bytes [] (y # ys) = -1"
| "c_strcmp_bytes (x # xs) [] = 1"
| "c_strcmp_bytes (x # xs) (y # ys) =
     (if x < y then -1 else if y < x then 1 else c_strcmp_bytes xs ys)"

definition c_strcmp :: "u8 list \<Rightarrow> u8 list \<Rightarrow> int cm" where
  "c_strcmp s t = do { c_assert (is_cstr s \<and> is_cstr t); ret (c_strcmp_bytes (c_str s) (c_str t)) }"

text \<open>A call of \<open>vsnprintf (dst + off, n, ...)\<close> that formats the text \<open>txt\<close> (\<open>None\<close>: the call
  fails with a negative result): at most \<open>n - 1\<close> characters and a terminator are written. With
  \<open>n = 0\<close> nothing is written and the result is the length of the text.\<close>

definition c_vsnprintf :: "u8 list \<Rightarrow> nat \<Rightarrow> nat \<Rightarrow> u8 list option \<Rightarrow> (int \<times> u8 list) cm" where
  "c_vsnprintf dst off n txt =
     (case txt of
        None \<Rightarrow> ret (-1, dst)
      | Some t \<Rightarrow>
          if n = 0 then ret (int (length t), dst)
          else do { d \<leftarrow> c_stores dst off (take (n - 1) t @ [0]); ret (int (length t), d) })"

text \<open>A string literal.\<close>

definition clit :: "string \<Rightarrow> u8 list" where
  "clit s = map of_char s @ [0]"

lemma c_str_nozero [simp]: "0 \<notin> set (c_str s)"
  by (auto simp: c_str_def dest: set_takeWhileD)

lemma c_str_append_zero [simp]: "0 \<notin> set a \<Longrightarrow> c_str (a @ 0 # b) = a"
  by (induction a) (auto simp: c_str_def)

lemma is_cstr_append_zero [simp]: "is_cstr (a @ 0 # b)"
  by (simp add: is_cstr_def)

lemma is_cstr_split: "is_cstr s \<Longrightarrow> \<exists>b. s = c_str s @ 0 # b"
proof (induction s)
  case (Cons x s)
  then show ?case by (cases "x = 0") (auto simp: c_str_def is_cstr_def)
qed (simp add: is_cstr_def)

lemma length_c_str_le: "length (c_str s) \<le> length s"
  by (simp add: c_str_def length_takeWhile_le)

lemma length_c_str_less [simp]: "is_cstr s \<Longrightarrow> length (c_str s) < length s"
  by (induction s) (auto simp: c_str_def is_cstr_def)

lemma take_length_c_str [simp]: "take (length (c_str s)) s = c_str s"
  unfolding c_str_def by (rule takeWhile_eq_take [symmetric])

lemma take_n_c_str: "n \<le> length (c_str s) \<Longrightarrow> take n s = take n (c_str s)"
  by (metis take_length_c_str min.absorb1 take_take)

lemma nth_length_c_str [simp]:
  assumes "is_cstr s"
  shows "s ! length (c_str s) = 0"
  using nth_length_takeWhile [of "\<lambda>c. c \<noteq> 0" s] length_c_str_less [OF assms]
  by (simp add: c_str_def)

lemma take_Suc_length_c_str [simp]:
  assumes "is_cstr s"
  shows "take (Suc (length (c_str s))) s = c_str s @ [0]"
  using assms by (simp add: take_Suc_conv_app_nth)

lemma c_str_id: "0 \<notin> set s \<Longrightarrow> c_str s = s"
  by (auto simp: c_str_def takeWhile_eq_all_conv)

lemma is_cstr_clit [simp]: "is_cstr (clit s)"
  by (simp add: clit_def)

section \<open>Overwriting part of a block\<close>

lemma length_put [simp]: "i + length xs \<le> length d \<Longrightarrow> length (put d i xs) = length d"
  by (simp add: put_def)

lemma put_0: "put d 0 xs = xs @ drop (length xs) d"
  by (simp add: put_def)

lemma put_all [simp]: "length xs = length d \<Longrightarrow> put d 0 xs = xs"
  by (simp add: put_def)

lemma put_append [simp]: "length a = i \<Longrightarrow> put (a @ b) i xs = a @ put b 0 xs"
  by (auto simp: put_def)

lemma put_Nil [simp]: "put d i [] = d"
  by (simp add: put_def)

lemma take_put: "i + length xs \<le> length d \<Longrightarrow> take (i + length xs) (put d i xs) = take i d @ xs"
  by (simp add: put_def)

lemma put_tail: "length d = i + length xs \<Longrightarrow> put d i xs = take i d @ xs"
  by (simp add: put_def)

lemma list_update_eq_put: "i < length d \<Longrightarrow> d[i := v] = put d i [v]"
  by (simp add: put_def upd_conv_take_nth_drop)

lemma drop_put [simp]: "i + length xs \<le> n \<Longrightarrow> i + length xs \<le> length d \<Longrightarrow> drop n (put d i xs) = drop n d"
  by (simp add: put_def)

lemma put_put_adjacent:
  assumes "i + length xs + length ys \<le> length d"
  shows "put (put d i xs) (i + length xs) ys = put d i (xs @ ys)"
  using assms by (simp add: put_def ac_simps min.absorb2)

lemma length_2E:
  assumes "length xs = 2"
  obtains a b where "xs = [a, b]"
  using assms by (auto simp: length_Suc_conv numeral_2_eq_2)

lemma length_3E:
  assumes "length xs = 3"
  obtains a b c where "xs = [a, b, c]"
  using assms by (auto simp: length_Suc_conv numeral_3_eq_3)

section \<open>Weakest preconditions\<close>

definition wp :: "'a cm \<Rightarrow> ('a \<Rightarrow> world \<Rightarrow> bool) \<Rightarrow> world \<Rightarrow> bool" where
  "wp m Q w = (case run_state m w of (r, w') \<Rightarrow> Q r w')"

lemma wpD: "wp m Q w \<Longrightarrow> run_state m w = (r, w') \<Longrightarrow> Q r w'"
  by (simp add: wp_def)

lemma wp_mono: "wp m P w \<Longrightarrow> (\<And>r w'. P r w' \<Longrightarrow> Q r w') \<Longrightarrow> wp m Q w"
  by (auto simp: wp_def)

lemma wp_ret [simp, wp_simps]: "wp (ret x) Q w = Q x w"
  by (simp add: wp_def)

lemma wp_ret_eta [simp]: "wp (ret x) Q = Q x"
  by (rule ext) simp

lemma wp_bind [simp, wp_simps]: "wp (State_Monad.bind m f) Q w = wp m (\<lambda>x. wp (f x) Q) w"
  by (auto simp: wp_def split: prod.splits)

lemma wp_bind_eta: "wp (State_Monad.bind m f) Q = wp m (\<lambda>x. wp (f x) Q)"
  by (rule ext) simp

lemma wp_if [wp_simps]: "wp (if b then m else n) Q w = (if b then wp m Q w else wp n Q w)"
  by simp

lemma wp_case_prod [wp_simps]: "wp (case p of (a, b) \<Rightarrow> f a b) Q w = (case p of (a, b) \<Rightarrow> wp (f a b) Q w)"
  by (cases p) simp

lemma wp_prod_fun: "(\<lambda>p. wp (case p of (a, b) \<Rightarrow> f a b) Q) = (\<lambda>(a, b). wp (f a b) Q)"
  by (simp add: fun_eq_iff)

lemma wp_case_option [wp_simps]:
  "wp (case x of None \<Rightarrow> m | Some a \<Rightarrow> f a) Q w = (case x of None \<Rightarrow> wp m Q w | Some a \<Rightarrow> wp (f a) Q w)"
  by (cases x) simp_all

lemma wp_assert [simp, wp_simps]: "b \<Longrightarrow> wp (c_assert b) Q w = Q () w"
  by (simp add: wp_def c_assert_def)

lemma wp_count_block [simp, wp_simps]: "wp (count_block d) Q w = Q () (w\<lparr>live := live w + d\<rparr>)"
  by (simp add: wp_def count_block_def)

lemma wp_memcpy [simp, wp_simps]:
  "doff + n \<le> length dst \<Longrightarrow> soff + n \<le> length src \<Longrightarrow>
   wp (c_memcpy dst doff src soff n) Q w = Q (put dst doff (take n (drop soff src))) w"
  by (simp add: c_memcpy_def)

lemma wp_store [simp, wp_simps]: "i < length d \<Longrightarrow> wp (c_store d i v) Q w = Q (d[i := v]) w"
  by (simp add: c_store_def)

lemma list_update_put: "i + Suc (length xs) \<le> length d \<Longrightarrow> put (d[i := x]) (Suc i) xs = put d i (x # xs)"
  by (simp add: put_def upd_conv_take_nth_drop take_Suc_conv_app_nth min_def add.commute)

lemma wp_stores [simp, wp_simps]:
  "i + length xs \<le> length d \<Longrightarrow> wp (c_stores d i xs) Q w = Q (put d i xs) w"
  by (induction xs arbitrary: d i) (simp_all add: list_update_put)

lemma wp_load [simp, wp_simps]: "i < length s \<Longrightarrow> wp (c_load s i) Q w = Q (s ! i) w"
  by (simp add: c_load_def)

lemma wp_strlen [simp, wp_simps]: "is_cstr s \<Longrightarrow> wp (c_strlen s) Q w = Q (length (c_str s)) w"
  by (simp add: c_strlen_def)

lemma wp_strcmp [simp, wp_simps]:
  "is_cstr s \<Longrightarrow> is_cstr t \<Longrightarrow> wp (c_strcmp s t) Q w = Q (c_strcmp_bytes (c_str s) (c_str t)) w"
  by (simp add: c_strcmp_def)

lemma c_strcmp_eq_0 [simp]: "c_strcmp_bytes xs ys = 0 \<longleftrightarrow> xs = ys"
  by (induction xs ys rule: c_strcmp_bytes.induct) auto

lemma wp_free [simp, wp_simps]:
  "wp (c_free None) Q w = Q () w"
  "wp (c_free (Some x)) Q w = Q () (w\<lparr>live := live w - 1\<rparr>)"
  by (simp_all add: c_free_def)

text \<open>Allocations are used through rules that forget which outcome the world had in store.\<close>

lemma wp_request:
  assumes "\<And>w'. avail w' = tl (avail w) \<Longrightarrow> live w' = live w \<Longrightarrow> faults w' = faults w \<Longrightarrow>
             Q (next_alloc w) w'"
  shows "wp request Q w"
  using assms by (auto simp: wp_def request_def next_alloc_def split: list.splits)

lemma wp_malloc [wp_intros]:
  assumes "\<And>w'. next_alloc w = None \<Longrightarrow> avail w' = tl (avail w) \<Longrightarrow> live w' = live w \<Longrightarrow>
             faults w' = faults w \<Longrightarrow> Q None w'"
    and "\<And>bs w'. length bs = n \<Longrightarrow> next_alloc w \<noteq> None \<Longrightarrow> avail w' = tl (avail w) \<Longrightarrow>
             live w' = live w + 1 \<Longrightarrow> faults w' = faults w \<Longrightarrow> Q (Some bs) w'"
  shows "wp (c_malloc n) Q w"
  unfolding c_malloc_def wp_bind
  by (rule wp_request) (auto simp: assms split: option.splits)

lemma wp_new [wp_intros]:
  assumes "\<And>w'. next_alloc w = None \<Longrightarrow> avail w' = tl (avail w) \<Longrightarrow> live w' = live w \<Longrightarrow>
             faults w' = faults w \<Longrightarrow> Q False w'"
    and "\<And>w'. next_alloc w \<noteq> None \<Longrightarrow> avail w' = tl (avail w) \<Longrightarrow> live w' = live w + 1 \<Longrightarrow>
             faults w' = faults w \<Longrightarrow> Q True w'"
  shows "wp c_new Q w"
  unfolding c_new_def wp_bind
  by (rule wp_request) (auto simp: assms split: option.splits)

lemma wp_realloc_Some:
  assumes "n \<noteq> 0"
    and "\<And>w'. next_alloc w = None \<Longrightarrow> avail w' = tl (avail w) \<Longrightarrow> live w' = live w \<Longrightarrow>
             faults w' = faults w \<Longrightarrow> Q None w'"
    and "\<And>ys w'. length ys = n - length old \<Longrightarrow> next_alloc w \<noteq> None \<Longrightarrow> avail w' = tl (avail w) \<Longrightarrow>
             live w' = live w \<Longrightarrow> faults w' = faults w \<Longrightarrow> Q (Some (take n old @ ys)) w'"
  shows "wp (c_realloc (Some old) n) Q w"
  unfolding c_realloc_def option.case wp_bind wp_assert [OF assms(1)]
  by (rule wp_request) (auto simp: assms(2,3) map_option_case split: option.splits)

text \<open>One rule for both kinds of pointer: the new block starts with the old bytes that fit.\<close>

lemma wp_realloc [wp_intros]:
  assumes "n \<noteq> 0"
    and "\<And>w'. next_alloc w = None \<Longrightarrow> avail w' = tl (avail w) \<Longrightarrow> live w' = live w \<Longrightarrow>
             faults w' = faults w \<Longrightarrow> Q None w'"
    and "\<And>ys w'. length ys = n - length (blk p) \<Longrightarrow> next_alloc w \<noteq> None \<Longrightarrow>
             avail w' = tl (avail w) \<Longrightarrow> live w' = live w + (if p = None then 1 else 0) \<Longrightarrow>
             faults w' = faults w \<Longrightarrow> Q (Some (take n (blk p) @ ys)) w'"
  shows "wp (c_realloc p n) Q w"
proof (cases p)
  case None
  have "wp (c_malloc n) Q w"
    by (rule wp_malloc) (use assms None in \<open>force simp: blk_def\<close>)+
  with None show ?thesis by (simp add: c_realloc_def)
next
  case (Some old)
  have "wp (c_realloc (Some old) n) Q w"
    by (rule wp_realloc_Some) (use assms Some in \<open>force simp: blk_def\<close>)+
  with Some show ?thesis by simp
qed

text \<open>Growing a block of which only the first \<open>m\<close> bytes matter by \<open>k\<close> bytes.\<close>

lemma wp_realloc_grow:
  assumes "m \<le> length (blk p)" "m + k \<noteq> 0"
    and "\<And>w'. next_alloc w = None \<Longrightarrow> avail w' = tl (avail w) \<Longrightarrow> live w' = live w \<Longrightarrow>
             faults w' = faults w \<Longrightarrow> Q None w'"
    and "\<And>zs w'. length zs = k \<Longrightarrow> next_alloc w \<noteq> None \<Longrightarrow>
             avail w' = tl (avail w) \<Longrightarrow> live w' = live w + (if p = None then 1 else 0) \<Longrightarrow>
             faults w' = faults w \<Longrightarrow> Q (Some (take m (blk p) @ zs)) w'"
  shows "wp (c_realloc p (m + k)) Q w"
proof (rule wp_realloc, goal_cases)
  case (3 ys w')
  have "length (take k (drop m (blk p)) @ ys) = k"
    using 3(1) assms(1) by (simp add: min_def)
  from assms(4) [OF this 3(2-5)] show ?case
    by (simp add: take_add)
qed (use assms(2) in \<open>simp_all add: assms(3)\<close>)

lemma plenty_0 [simp]: "plenty 0 w"
  by (simp add: plenty_def)

lemma plenty_eval: "plenty k w \<longleftrightarrow> k \<le> length (avail w) \<and> list_all (\<lambda>a. a \<noteq> None) (take k (avail w))"
  by (auto simp: plenty_def list_all_length)

lemma plenty_next: "plenty (Suc k) w \<Longrightarrow> next_alloc w \<noteq> None"
  by (auto simp: plenty_def next_alloc_def split: list.splits)

lemma plenty_tl: "plenty (Suc k) w \<Longrightarrow> avail w' = tl (avail w) \<Longrightarrow> plenty k w'"
  by (cases "avail w") (auto simp: plenty_def nth_Cons split: nat.splits)

lemma plenty_SucI: "next_alloc w \<noteq> None \<Longrightarrow> avail w' = tl (avail w) \<Longrightarrow> plenty k w' \<Longrightarrow> plenty (Suc k) w"
  by (cases "avail w") (auto simp: plenty_def next_alloc_def nth_Cons split: nat.splits)

lemma not_plenty_next: "next_alloc w = None \<Longrightarrow> 0 < k \<Longrightarrow> \<not> plenty k w"
  using plenty_next [of "k - 1" w] by auto

lemma not_plenty_tl: "avail w' = tl (avail w) \<Longrightarrow> \<not> plenty (k - 1) w' \<Longrightarrow> 0 < k \<Longrightarrow> \<not> plenty k w"
  using plenty_tl [of "k - 1" w w'] by auto

lemma not_plenty_drop:
  assumes "next_alloc w' = None" "avail w' = drop k (avail w)" "k < n"
  shows "\<not> plenty n w"
proof
  assume "plenty n w"
  then have "k < length (avail w)" "avail w ! k \<noteq> None" using assms(3) by (auto simp: plenty_def)
  moreover from this have "drop k (avail w) = avail w ! k # drop (Suc k) (avail w)"
    by (simp add: Cons_nth_drop_Suc)
  ultimately show False using assms(1,2) by (simp add: next_alloc_def)
qed

text \<open>A run that fails for lack of memory: some request among the next \<open>k\<close> fails.\<close>

lemmas starved = not_plenty_next not_plenty_tl

lemma plenty_le: "plenty k w \<Longrightarrow> n \<le> k \<Longrightarrow> plenty n w"
  by (auto simp: plenty_def)

text \<open>\<open>used k w w'\<close>: at most \<open>k\<close> requests were made between the two worlds.\<close>

definition used :: "nat \<Rightarrow> world \<Rightarrow> world \<Rightarrow> bool" where
  "used k w w' \<longleftrightarrow> (\<exists>c \<le> k. avail w' = drop c (avail w))"

lemma used_refl [simp]: "avail w' = avail w \<Longrightarrow> used k w w'"
  by (auto simp: used_def intro: exI [of _ 0])

lemma used_tl: "avail w' = tl (avail w) \<Longrightarrow> 0 < k \<Longrightarrow> used k w w'"
  by (auto simp: used_def drop_Suc intro!: exI [of _ 1])

lemma used_more: "used k w w' \<Longrightarrow> k \<le> n \<Longrightarrow> used n w w'"
  unfolding used_def by (meson le_trans)

lemma used_live [simp]: "used k w (w'\<lparr>live := x\<rparr>) = used k w w'"
  by (simp add: used_def)

lemma used_drop: "avail w' = drop c (avail w) \<Longrightarrow> c \<le> k \<Longrightarrow> used k w w'"
  by (auto simp: used_def)

lemma used_trans:
  assumes "used a w w1" "used b w1 w2" "a + b \<le> k"
  shows "used k w w2"
proof -
  obtain c d where "c \<le> a" "d \<le> b" "avail w1 = drop c (avail w)" "avail w2 = drop d (avail w1)"
    using assms(1,2) by (auto simp: used_def)
  then have "avail w2 = drop (d + c) (avail w)" "d + c \<le> k" using assms(3) by simp_all
  then show ?thesis by (rule used_drop)
qed

lemma used_starved:
  assumes "used a w w'" "\<not> plenty b w'" "a + b \<le> k"
  shows "\<not> plenty k w"
proof
  assume p: "plenty k w"
  obtain c where c: "c \<le> a" "avail w' = drop c (avail w)" using assms(1) by (auto simp: used_def)
  have "k \<le> length (avail w)" using p by (simp add: plenty_def)
  then have "b \<le> length (avail w')" using c assms(3) by simp
  moreover have "avail w' ! i \<noteq> None" if "i < b" for i
  proof -
    have "c + i < k" "c + i \<le> length (avail w)" using p that c(1) assms(3) by (simp_all add: plenty_def)
    then show ?thesis using p c(2) by (simp add: plenty_def)
  qed
  ultimately show False using assms(2) by (simp add: plenty_def)
qed

end
