(* ===== verification/Component.thy ===== *)
theory Component
  imports Prelude
begin

text \<open>
  The contract every container of the utility library keeps, as a locale: operations on a handle
  that either do what their specification says or leave the abstract value alone, that touch no
  byte outside a block, and that account for every block they take or give back. What a client
  gains from it - correctness of any sequence of calls, and that creating, using and destroying an
  object leaks nothing - is proved here once; \<open>Buffer\<close>, \<open>Strings\<close> and \<open>MapTable\<close> interpret the locales with
  their operations.
\<close>

section \<open>Sequences of calls\<close>

text \<open>The calls are made one after the other on the same object; the statuses are collected.\<close>

fun run_ops :: "('op \<Rightarrow> 'h \<Rightarrow> ('r \<times> 'h) cm) \<Rightarrow> 'op list \<Rightarrow> 'h \<Rightarrow> ('r list \<times> 'h) cm" where
  "run_ops exec [] h = ret ([], h)"
| "run_ops exec (op # ops) h = do {
     (r, h') \<leftarrow> exec op h;
     (rs, h'') \<leftarrow> run_ops exec ops h';
     ret (r # rs, h'')
   }"

text \<open>The abstract run: \<open>spec op r a a'\<close> says that the call \<open>op\<close> may report \<open>r\<close> and turn the abstract value
  \<open>a\<close> into \<open>a'\<close>.\<close>

fun spec_run :: "('op \<Rightarrow> 'r \<Rightarrow> 'a \<Rightarrow> 'a \<Rightarrow> bool) \<Rightarrow> 'op list \<Rightarrow> 'r list \<Rightarrow> 'a \<Rightarrow> 'a \<Rightarrow> bool" where
  "spec_run spec [] [] a a' = (a' = a)"
| "spec_run spec (op # ops) (r # rs) a a' = (\<exists>a1. spec op r a a1 \<and> spec_run spec ops rs a1 a')"
| "spec_run spec _ _ a a' = False"

section \<open>The contract\<close>

text \<open>\<open>oom op r a\<close>: reporting \<open>r\<close> for the call \<open>op\<close> on \<open>a\<close> means that memory was short.\<close>

locale c_component =
  fixes exec :: "'op \<Rightarrow> 'h option \<Rightarrow> ('r \<times> 'h option) cm"
    and wf :: "'h \<Rightarrow> bool"
    and abs :: "'h \<Rightarrow> 'a"
    and size_of :: "'h \<Rightarrow> nat"
    and blocks :: "'h option \<Rightarrow> int"
    and args_ok :: "'op \<Rightarrow> bool"
    and growth :: "'op \<Rightarrow> nat"
    and need :: "'op \<Rightarrow> nat"
    and spec :: "'op \<Rightarrow> 'r \<Rightarrow> 'a \<Rightarrow> 'a \<Rightarrow> bool"
    and oom :: "'op \<Rightarrow> 'r \<Rightarrow> 'a \<Rightarrow> bool"
  assumes step: "wf h \<Longrightarrow> args_ok op \<Longrightarrow> size_of h + growth op < SIZE_MOD \<Longrightarrow>
    wp (exec op (Some h)) (\<lambda>(r, h1) w'. \<exists>h'. h1 = Some h' \<and> wf h' \<and> size_of h' \<le> size_of h + growth op \<and>
       faults w' = faults w \<and> live w' - live w = blocks (Some h') - blocks (Some h) \<and>
       spec op r (abs h) (abs h') \<and> (oom op r (abs h) \<longrightarrow> \<not> plenty (need op) w)) w"
begin

lemma run_bounded:
  "wf h \<Longrightarrow> \<forall>op \<in> set ops. args_ok op \<Longrightarrow> size_of h + sum_list (map growth ops) < SIZE_MOD \<Longrightarrow>
   wp (run_ops exec ops (Some h)) (\<lambda>(rs, h1) w'. \<exists>h'. h1 = Some h' \<and> wf h' \<and>
     size_of h' \<le> size_of h + sum_list (map growth ops) \<and> faults w' = faults w \<and>
     live w' - live w = blocks (Some h') - blocks (Some h) \<and>
     spec_run spec ops rs (abs h) (abs h')) w"
proof (induction ops arbitrary: h w)
  case (Cons op ops)
  have "wp (exec op (Some h)) (\<lambda>(r, h1) w1. \<exists>h'. h1 = Some h' \<and>
      wp (run_ops exec ops (Some h')) (\<lambda>(rs, h2) w'. \<exists>h''. h2 = Some h'' \<and> wf h'' \<and>
        size_of h'' \<le> size_of h + sum_list (map growth (op # ops)) \<and> faults w' = faults w \<and>
        live w' - live w = blocks (Some h'') - blocks (Some h) \<and>
        spec_run spec (op # ops) (r # rs) (abs h) (abs h'')) w1) w"
  proof (rule wp_mono [OF step], goal_cases)
    case (4 rh w1)
    then obtain r h' where rh: "rh = (r, Some h')" "wf h'" "size_of h' \<le> size_of h + growth op"
      "faults w1 = faults w" "live w1 - live w = blocks (Some h') - blocks (Some h)"
      "spec op r (abs h) (abs h')"
      by (auto split: if_splits)
    then show ?case
      using Cons.prems by (fastforce intro!: wp_mono [OF Cons.IH [of h' w1]])
  qed (use Cons.prems in simp_all)
  then show ?case
    by (auto elim!: wp_mono simp del: spec_run.simps split: prod.splits)
qed simp

lemma run_correct:
  "wf h \<Longrightarrow> \<forall>op \<in> set ops. args_ok op \<Longrightarrow> size_of h + sum_list (map growth ops) < SIZE_MOD \<Longrightarrow>
   wp (run_ops exec ops (Some h)) (\<lambda>(rs, h1) w'. \<exists>h'. h1 = Some h' \<and> wf h' \<and> faults w' = faults w \<and>
     live w' - live w = blocks (Some h') - blocks (Some h) \<and>
     spec_run spec ops rs (abs h) (abs h')) w"
  by (rule wp_mono [OF run_bounded]) auto

text \<open>With enough memory no call is refused for lack of it.\<close>

lemma step_total:
  assumes "wf h" "args_ok op" "size_of h + growth op < SIZE_MOD" "plenty (need op) w"
  shows "wp (exec op (Some h)) (\<lambda>(r, h1) _. \<exists>h'. h1 = Some h' \<and> spec op r (abs h) (abs h') \<and> \<not> oom op r (abs h)) w"
  by (rule wp_mono [OF step]) (use assms in auto)

end

text \<open>An object one can create and destroy.\<close>

locale c_owned = c_component exec wf abs size_of blocks args_ok growth need spec oom
  for exec :: "'op \<Rightarrow> 'h option \<Rightarrow> ('r \<times> 'h option) cm"
    and wf :: "'h \<Rightarrow> bool"
    and abs :: "'h \<Rightarrow> 'a"
    and size_of :: "'h \<Rightarrow> nat"
    and blocks :: "'h option \<Rightarrow> int"
    and args_ok :: "'op \<Rightarrow> bool"
    and growth :: "'op \<Rightarrow> nat"
    and need :: "'op \<Rightarrow> nat"
    and spec :: "'op \<Rightarrow> 'r \<Rightarrow> 'a \<Rightarrow> 'a \<Rightarrow> bool"
    and oom :: "'op \<Rightarrow> 'r \<Rightarrow> 'a \<Rightarrow> bool" +
  fixes create :: "'h option cm"
    and create_need :: nat
    and destroy :: "'h option \<Rightarrow> unit cm"
    and initial :: 'a
  assumes create: "wp create (\<lambda>h w'. faults w' = faults w \<and>
      (case h of None \<Rightarrow> live w' = live w \<and> \<not> plenty create_need w
       | Some x \<Rightarrow> live w' = live w + blocks h \<and> wf x \<and> abs x = initial \<and> size_of x = 0)) w"
    and destroy: "(\<forall>x. h = Some x \<longrightarrow> wf x) \<Longrightarrow>
      wp (destroy h) (\<lambda>_ w'. live w' = live w - blocks h \<and> faults w' = faults w) w"
begin

text \<open>\<open>h = create (); ...; destroy (h)\<close>: the statuses reported in between are those of some abstract
  run from the initial value, no access is out of bounds, and every block is given back.\<close>

lemma lifecycle:
  assumes "\<forall>op \<in> set ops. args_ok op" "sum_list (map growth ops) < SIZE_MOD"
  shows "wp (do { h \<leftarrow> create; if h = None then ret None
                  else do { (rs, h') \<leftarrow> run_ops exec ops h; destroy h'; ret (Some rs) } })
     (\<lambda>out w'. live w' = live w \<and> faults w' = faults w \<and>
        (case out of None \<Rightarrow> \<not> plenty create_need w | Some rs \<Rightarrow> \<exists>a. spec_run spec ops rs initial a)) w"
  unfolding wp_bind
proof (rule wp_mono [OF create], goal_cases)
  case (1 h w1)
  show ?case
  proof (cases h)
    case (Some x)
    with 1 have x: "live w1 = live w + blocks (Some x)" "faults w1 = faults w" "wf x" "abs x = initial"
      "size_of x = 0" by auto
    have "wp (run_ops exec ops (Some x)) (\<lambda>(rs, h') w2.
        wp (destroy h') (\<lambda>_ w'. live w' = live w \<and> faults w' = faults w \<and>
          (\<exists>a. spec_run spec ops rs initial a)) w2) w1"
    proof (rule wp_mono [OF run_correct], goal_cases)
      case (4 rh w2)
      then obtain rs h' where "rh = (rs, Some h')" "wf h'" "faults w2 = faults w1"
        "live w2 - live w1 = blocks (Some h') - blocks (Some x)"
        "spec_run spec ops rs (abs x) (abs h')" by auto
      then show ?case
        using x by (auto intro!: wp_mono [OF destroy [of "Some h'" w2]])
    qed (use x assms in simp_all)
    then show ?thesis
      by (simp add: Some) (fastforce split: prod.splits elim!: wp_mono)
  qed (use 1 in simp)
qed

end

end
