(* ===== verification/Buffer.thy ===== *)
theory Buffer
  imports Component
begin

text \<open>
  The byte buffer of the Azure C utility library (\<open>c-utility/src/buffer.c\<close>). A \<open>BUFFER_HANDLE\<close> is
  \<open>BUFFER option\<close>, \<open>None\<close> for \<open>NULL\<close>; an operation that writes through its handle returns the
  changed object beside its status. A source pointer is the block it points into; an output
  pointer is a flag that says whether it is non-null. \<open>handle1 == handle2\<close> is an argument of
  \<open>BUFFER_append\<close> and \<open>BUFFER_prepend\<close>.
\<close>

record BUFFER =
  buffer :: "u8 list option"
  bsize :: nat

section \<open>The operations, in the order of the source\<close>

definition BUFFER_new :: "BUFFER option cm" where
  "BUFFER_new = do {
     temp \<leftarrow> c_new;
     ret (if temp then Some \<lparr>buffer = None, bsize = 0\<rparr> else None)
   }"

definition BUFFER_safemalloc :: "BUFFER \<Rightarrow> nat \<Rightarrow> (int \<times> BUFFER) cm" where
  "BUFFER_safemalloc handleptr n = do {
     p \<leftarrow> c_malloc (if n = 0 then 1 else n);
     (case p of
        None \<Rightarrow> ret (FAILURE, handleptr\<lparr>buffer := None\<rparr>)
      | Some bs \<Rightarrow> ret (0, handleptr\<lparr>buffer := Some bs, bsize := n\<rparr>))
   }"

definition BUFFER_create :: "u8 list option \<Rightarrow> nat \<Rightarrow> BUFFER option cm" where
  "BUFFER_create source n =
     (case source of
        None \<Rightarrow> ret None
      | Some src \<Rightarrow> do {
          ok \<leftarrow> c_new;
          if \<not> ok then ret None
          else do {
            (r, b) \<leftarrow> BUFFER_safemalloc \<lparr>buffer = None, bsize = 0\<rparr> n;
            if r \<noteq> 0 then do { c_free (Some b); ret None }
            else do {
              bs \<leftarrow> c_memcpy (blk (buffer b)) 0 src 0 n;
              ret (Some (b\<lparr>buffer := Some bs\<rparr>))
            }
          }
        })"

definition BUFFER_delete :: "BUFFER option \<Rightarrow> unit cm" where
  "BUFFER_delete handle =
     (case handle of
        None \<Rightarrow> ret ()
      | Some b \<Rightarrow> do {
          (if buffer b \<noteq> None then c_free (buffer b) else ret ());
          c_free (Some b)
        })"

definition BUFFER_build :: "BUFFER option \<Rightarrow> u8 list option \<Rightarrow> nat \<Rightarrow> (int \<times> BUFFER option) cm" where
  "BUFFER_build handle source n =
     (case handle of
        None \<Rightarrow> ret (FAILURE, handle)
      | Some b \<Rightarrow>
          if n = 0 then do {
            c_free (buffer b);
            ret (0, Some (b\<lparr>buffer := None, bsize := 0\<rparr>))
          }
          else (case source of
                  None \<Rightarrow> ret (FAILURE, handle)
                | Some src \<Rightarrow> do {
                    newBuffer \<leftarrow> c_realloc (buffer b) n;
                    (case newBuffer of
                       None \<Rightarrow> ret (FAILURE, handle)
                     | Some nb \<Rightarrow> do {
                         bs \<leftarrow> c_memcpy nb 0 src 0 n;
                         ret (0, Some (b\<lparr>buffer := Some bs, bsize := n\<rparr>))
                       })
                  }))"

definition BUFFER_append_build :: "BUFFER option \<Rightarrow> u8 list option \<Rightarrow> nat \<Rightarrow> (int \<times> BUFFER option) cm" where
  "BUFFER_append_build handle source n =
     (case (handle, source) of
        (Some b, Some src) \<Rightarrow>
          if n = 0 then ret (FAILURE, handle)
          else (case buffer b of
                  None \<Rightarrow> do {
                    (r, b') \<leftarrow> BUFFER_safemalloc b n;
                    if r \<noteq> 0 then ret (FAILURE, Some b')
                    else do {
                      bs \<leftarrow> c_memcpy (blk (buffer b')) 0 src 0 n;
                      ret (0, Some (b'\<lparr>buffer := Some bs\<rparr>))
                    }
                  }
                | Some _ \<Rightarrow> do {
                    temp \<leftarrow> c_realloc (buffer b) (szt (bsize b + n));
                    (case temp of
                       None \<Rightarrow> ret (FAILURE, handle)
                     | Some t \<Rightarrow> do {
                         bs \<leftarrow> c_memcpy t (bsize b) src 0 n;
                         ret (0, Some (b\<lparr>buffer := Some bs, bsize := szt (bsize b + n)\<rparr>))
                       })
                  })
      | _ \<Rightarrow> ret (FAILURE, handle))"

definition BUFFER_pre_build :: "BUFFER option \<Rightarrow> nat \<Rightarrow> (int \<times> BUFFER option) cm" where
  "BUFFER_pre_build handle n =
     (case handle of
        None \<Rightarrow> ret (FAILURE, handle)
      | Some b \<Rightarrow>
          if n = 0 then ret (FAILURE, handle)
          else if buffer b \<noteq> None then ret (FAILURE, handle)
          else do {
            p \<leftarrow> c_malloc n;
            (case p of
               None \<Rightarrow> ret (FAILURE, Some (b\<lparr>buffer := None\<rparr>))
             | Some bs \<Rightarrow> ret (0, Some (b\<lparr>buffer := Some bs, bsize := n\<rparr>)))
          })"

text \<open>The second component is what is written to \<open>*content\<close> (\<open>None\<close>: nothing).\<close>

definition BUFFER_content :: "BUFFER option \<Rightarrow> bool \<Rightarrow> int \<times> u8 list option option" where
  "BUFFER_content handle content =
     (case handle of
        None \<Rightarrow> (FAILURE, None)
      | Some b \<Rightarrow> if \<not> content then (FAILURE, None) else (0, Some (buffer b)))"

definition BUFFER_unbuild :: "BUFFER option \<Rightarrow> (int \<times> BUFFER option) cm" where
  "BUFFER_unbuild handle =
     (case handle of
        None \<Rightarrow> ret (FAILURE, handle)
      | Some b \<Rightarrow>
          if buffer b \<noteq> None then do {
            c_free (buffer b);
            ret (0, Some (b\<lparr>buffer := None, bsize := 0\<rparr>))
          }
          else ret (FAILURE, handle))"

definition BUFFER_enlarge :: "BUFFER option \<Rightarrow> nat \<Rightarrow> (int \<times> BUFFER option) cm" where
  "BUFFER_enlarge handle enlargeSize =
     (case handle of
        None \<Rightarrow> ret (FAILURE, handle)
      | Some b \<Rightarrow>
          if enlargeSize = 0 then ret (FAILURE, handle)
          else do {
            temp \<leftarrow> c_realloc (buffer b) (szt (bsize b + enlargeSize));
            (case temp of
               None \<Rightarrow> ret (FAILURE, handle)
             | Some t \<Rightarrow>
                 ret (0, Some (b\<lparr>buffer := Some t, bsize := szt (bsize b + enlargeSize)\<rparr>)))
          })"

definition BUFFER_shrink :: "BUFFER option \<Rightarrow> nat \<Rightarrow> bool \<Rightarrow> (int \<times> BUFFER option) cm" where
  "BUFFER_shrink handle decreaseSize fromEnd =
     (case handle of
        None \<Rightarrow> ret (FAILURE, handle)
      | Some b \<Rightarrow>
          if decreaseSize = 0 then ret (FAILURE, handle)
          else if decreaseSize > bsize b then ret (FAILURE, handle)
          else let alloc_size = bsize b - decreaseSize in
            if alloc_size = 0 then do {
              c_free (buffer b);
              ret (0, Some (b\<lparr>buffer := None, bsize := 0\<rparr>))
            }
            else do {
              tmp \<leftarrow> c_malloc alloc_size;
              (case tmp of
                 None \<Rightarrow> ret (FAILURE, handle)
               | Some t \<Rightarrow>
                   if fromEnd then do {
                     bs \<leftarrow> c_memcpy t 0 (blk (buffer b)) 0 alloc_size;
                     c_free (buffer b);
                     ret (0, Some (b\<lparr>buffer := Some bs, bsize := alloc_size\<rparr>))
                   }
                   else do {
                     bs \<leftarrow> c_memcpy t 0 (blk (buffer b)) decreaseSize alloc_size;
                     c_free (buffer b);
                     ret (0, Some (b\<lparr>buffer := Some bs, bsize := alloc_size\<rparr>))
                   })
            })"

definition BUFFER_size :: "BUFFER option \<Rightarrow> bool \<Rightarrow> int \<times> nat option" where
  "BUFFER_size handle out =
     (case handle of
        None \<Rightarrow> (FAILURE, None)
      | Some b \<Rightarrow> if \<not> out then (FAILURE, None) else (0, Some (bsize b)))"

definition BUFFER_append :: "bool \<Rightarrow> BUFFER option \<Rightarrow> BUFFER option \<Rightarrow> (int \<times> BUFFER option) cm" where
  "BUFFER_append same handle1 handle2 =
     (case (handle1, handle2) of
        (Some b1, Some b2) \<Rightarrow>
          if same then ret (FAILURE, handle1)
          else if buffer b1 = None then ret (FAILURE, handle1)
          else if buffer b2 = None then ret (FAILURE, handle1)
          else if bsize b2 = 0 then ret (0, handle1)
          else do {
            temp \<leftarrow> c_realloc (buffer b1) (szt (bsize b1 + bsize b2));
            (case temp of
               None \<Rightarrow> ret (FAILURE, handle1)
             | Some t \<Rightarrow> do {
                 bs \<leftarrow> c_memcpy t (bsize b1) (blk (buffer b2)) 0 (bsize b2);
                 ret (0, Some (b1\<lparr>buffer := Some bs, bsize := szt (bsize b1 + bsize b2)\<rparr>))
               })
          }
      | _ \<Rightarrow> ret (FAILURE, handle1))"

definition BUFFER_prepend :: "bool \<Rightarrow> BUFFER option \<Rightarrow> BUFFER option \<Rightarrow> (int \<times> BUFFER option) cm" where
  "BUFFER_prepend same handle1 handle2 =
     (case (handle1, handle2) of
        (Some b1, Some b2) \<Rightarrow>
          if same then ret (FAILURE, handle1)
          else if buffer b1 = None then ret (FAILURE, handle1)
          else if buffer b2 = None then ret (FAILURE, handle1)
          else if bsize b2 = 0 then ret (0, handle1)
          else do {
            temp \<leftarrow> c_malloc (szt (bsize b1 + bsize b2));
            (case temp of
               None \<Rightarrow> ret (FAILURE, handle1)
             | Some t \<Rightarrow> do {
                 t1 \<leftarrow> c_memcpy t 0 (blk (buffer b2)) 0 (bsize b2);
                 t2 \<leftarrow> c_memcpy t1 (bsize b2) (blk (buffer b1)) 0 (bsize b1);
                 c_free (buffer b1);
                 ret (0, Some (b1\<lparr>buffer := Some t2, bsize := szt (bsize b1 + bsize b2)\<rparr>))
               })
          }
      | _ \<Rightarrow> ret (FAILURE, handle1))"

text \<open>The loop of \<open>BUFFER_fill\<close>: \<open>for (index = 0; index < size; index++) buffer[index] = fill_char\<close>.\<close>

function BUFFER_fill_loop :: "u8 list \<Rightarrow> nat \<Rightarrow> nat \<Rightarrow> u8 \<Rightarrow> u8 list cm" where
  "BUFFER_fill_loop bs index n fill_char =
     (if index < n then do {
        bs' \<leftarrow> c_store bs index fill_char;
        BUFFER_fill_loop bs' (Suc index) n fill_char
      }
      else ret bs)"
  by pat_completeness auto
termination
  by (relation "measure (\<lambda>(bs, index, n, c). n - index)") auto

definition BUFFER_fill :: "BUFFER option \<Rightarrow> u8 \<Rightarrow> (int \<times> BUFFER option) cm" where
  "BUFFER_fill handle fill_char =
     (case handle of
        None \<Rightarrow> ret (FAILURE, handle)
      | Some b \<Rightarrow> do {
          bs \<leftarrow> BUFFER_fill_loop (blk (buffer b)) 0 (bsize b) fill_char;
          ret (0, Some (b\<lparr>buffer := map_option (\<lambda>_. bs) (buffer b)\<rparr>))
        })"

definition BUFFER_u_char :: "BUFFER option \<Rightarrow> u8 list option" where
  "BUFFER_u_char handle =
     (case handle of
        None \<Rightarrow> None
      | Some b \<Rightarrow> if bsize b = 0 then None else buffer b)"

definition BUFFER_length :: "BUFFER option \<Rightarrow> nat" where
  "BUFFER_length handle = (case handle of None \<Rightarrow> 0 | Some b \<Rightarrow> bsize b)"

definition BUFFER_clone :: "BUFFER option \<Rightarrow> BUFFER option cm" where
  "BUFFER_clone handle =
     (case handle of
        None \<Rightarrow> ret None
      | Some suppliedBuff \<Rightarrow> do {
          ok \<leftarrow> c_new;
          if ok then do {
            (r, b) \<leftarrow> BUFFER_safemalloc \<lparr>buffer = None, bsize = 0\<rparr> (bsize suppliedBuff);
            if r \<noteq> 0 then ret None
            else do {
              bs \<leftarrow> c_memcpy (blk (buffer b)) 0 (blk (buffer suppliedBuff)) 0 (bsize suppliedBuff);
              ret (Some (b\<lparr>buffer := Some bs, bsize := bsize suppliedBuff\<rparr>))
            }
          }
          else ret None
        })"

section \<open>Well-formed buffers and what they hold\<close>

definition buf_wf :: "BUFFER \<Rightarrow> bool" where
  "buf_wf b \<longleftrightarrow> bsize b \<le> length (blk (buffer b)) \<and> bsize b < SIZE_MOD"

definition buf_bytes :: "BUFFER \<Rightarrow> u8 list" where
  "buf_bytes b = take (bsize b) (blk (buffer b))"

text \<open>How many blocks a handle owns: the struct and, when there is one, the data block.\<close>

definition buf_blocks :: "BUFFER option \<Rightarrow> int" where
  "buf_blocks h = (case h of None \<Rightarrow> 0 | Some b \<Rightarrow> if buffer b = None then 1 else 2)"

lemma buf_blocks_simps [simp]:
  "buf_blocks None = 0"
  "buf_blocks (Some b) = (if buffer b = None then 1 else 2)"
  by (simp_all add: buf_blocks_def)

lemma length_buf_bytes [simp]: "buf_wf b \<Longrightarrow> length (buf_bytes b) = bsize b"
  by (simp add: buf_bytes_def buf_wf_def)

lemma buf_wf_exact [simp]: "length bs < SIZE_MOD \<Longrightarrow> buf_wf \<lparr>buffer = Some bs, bsize = length bs\<rparr>"
  by (simp add: buf_wf_def)

lemma buf_wf_None: "buf_wf b \<Longrightarrow> buffer b = None \<Longrightarrow> bsize b = 0"
  by (simp add: buf_wf_def)

text \<open>A buffer whose data block is exactly as long as its size: what every growing operation leaves.\<close>

definition mkbuf :: "u8 list \<Rightarrow> BUFFER" where
  "mkbuf bs = \<lparr>buffer = Some bs, bsize = length bs\<rparr>"

lemma BUFFER_update_all:
  "(b :: BUFFER)\<lparr>buffer := x, bsize := n\<rparr> = \<lparr>buffer = x, bsize = n\<rparr>"
  by (cases b) simp

lemma BUFFER_null [simp]: "buffer b = None \<Longrightarrow> (b :: BUFFER)\<lparr>buffer := None\<rparr> = b"
  by (cases b) simp

lemma mkbuf_simps [simp]:
  "buffer (mkbuf bs) = Some bs" "bsize (mkbuf bs) = length bs" "buf_bytes (mkbuf bs) = bs"
  "buf_wf (mkbuf bs) \<longleftrightarrow> length bs < SIZE_MOD"
  by (auto simp: mkbuf_def buf_bytes_def buf_wf_def)

lemma mkbuf_eq [simp]: "mkbuf bs = mkbuf cs \<longleftrightarrow> bs = cs"
  by (auto simp: mkbuf_def)

section \<open>Weakest preconditions of the operations\<close>

lemma wp_BUFFER_new [wp_intros]:
  assumes "\<And>w'. next_alloc w = None \<Longrightarrow> avail w' = tl (avail w) \<Longrightarrow> live w' = live w \<Longrightarrow>
             faults w' = faults w \<Longrightarrow> Q None w'"
    and "\<And>w'. next_alloc w \<noteq> None \<Longrightarrow> avail w' = tl (avail w) \<Longrightarrow> live w' = live w + 1 \<Longrightarrow>
             faults w' = faults w \<Longrightarrow> Q (Some \<lparr>buffer = None, bsize = 0\<rparr>) w'"
  shows "wp BUFFER_new Q w"
  unfolding BUFFER_new_def wp_bind by (rule wp_new) (auto intro: assms)

lemma wp_BUFFER_safemalloc [wp_intros]:
  assumes "\<And>w'. next_alloc w = None \<Longrightarrow> avail w' = tl (avail w) \<Longrightarrow> live w' = live w \<Longrightarrow>
             faults w' = faults w \<Longrightarrow> Q (FAILURE, b\<lparr>buffer := None\<rparr>) w'"
    and "\<And>bs w'. length bs = max 1 n \<Longrightarrow> next_alloc w \<noteq> None \<Longrightarrow> avail w' = tl (avail w) \<Longrightarrow>
             live w' = live w + 1 \<Longrightarrow> faults w' = faults w \<Longrightarrow>
             Q (0, b\<lparr>buffer := Some bs, bsize := n\<rparr>) w'"
  shows "wp (BUFFER_safemalloc b n) Q w"
  unfolding BUFFER_safemalloc_def wp_bind
  by (rule wp_malloc) (simp_all add: assms split: if_splits)

lemma wp_BUFFER_delete [simp, wp_simps]:
  "wp (BUFFER_delete h) Q w = Q () (w\<lparr>live := live w - buf_blocks h\<rparr>)"
  by (cases h) (auto simp: BUFFER_delete_def)

lemma wp_BUFFER_enlarge [wp_intros]:
  assumes "buf_wf b" "n \<noteq> 0" "bsize b + n < SIZE_MOD"
    and "\<And>w'. next_alloc w = None \<Longrightarrow> avail w' = tl (avail w) \<Longrightarrow> live w' = live w \<Longrightarrow>
             faults w' = faults w \<Longrightarrow> Q (FAILURE, Some b) w'"
    and "\<And>ys w'. length ys = n \<Longrightarrow> next_alloc w \<noteq> None \<Longrightarrow> avail w' = tl (avail w) \<Longrightarrow>
             live w' = live w + (2 - buf_blocks (Some b)) \<Longrightarrow> faults w' = faults w \<Longrightarrow>
             Q (0, Some (mkbuf (buf_bytes b @ ys))) w'"
  shows "wp (BUFFER_enlarge (Some b) n) Q w"
proof -
  have le: "bsize b \<le> length (blk (buffer b))" and bytes: "take (bsize b) (blk (buffer b)) = buf_bytes b"
    using assms(1) by (simp_all add: buf_wf_def buf_bytes_def)
  show ?thesis
    unfolding BUFFER_enlarge_def using assms le
    by (auto intro!: wp_realloc_grow simp: bytes mkbuf_def BUFFER_update_all split: if_splits)
qed

lemma wp_BUFFER_pre_build [wp_intros]:
  assumes "buffer b = None" "n \<noteq> 0"
    and "\<And>w'. next_alloc w = None \<Longrightarrow> avail w' = tl (avail w) \<Longrightarrow> live w' = live w \<Longrightarrow>
             faults w' = faults w \<Longrightarrow> Q (FAILURE, Some b) w'"
    and "\<And>ys w'. length ys = n \<Longrightarrow> next_alloc w \<noteq> None \<Longrightarrow> avail w' = tl (avail w) \<Longrightarrow>
             live w' = live w + 1 \<Longrightarrow> faults w' = faults w \<Longrightarrow> Q (0, Some (mkbuf ys)) w'"
  shows "wp (BUFFER_pre_build (Some b) n) Q w"
  unfolding BUFFER_pre_build_def using assms
  by (auto intro!: wp_malloc simp: mkbuf_def BUFFER_update_all)

lemma wp_BUFFER_build [wp_intros]:
  assumes "n \<noteq> 0" "n \<le> length src"
    and "\<And>w'. next_alloc w = None \<Longrightarrow> avail w' = tl (avail w) \<Longrightarrow> live w' = live w \<Longrightarrow>
             faults w' = faults w \<Longrightarrow> Q (FAILURE, Some b) w'"
    and "\<And>w'. next_alloc w \<noteq> None \<Longrightarrow> avail w' = tl (avail w) \<Longrightarrow>
             live w' = live w + (2 - buf_blocks (Some b)) \<Longrightarrow> faults w' = faults w \<Longrightarrow>
             Q (0, Some (mkbuf (take n src))) w'"
  shows "wp (BUFFER_build (Some b) (Some src) n) Q w"
  unfolding BUFFER_build_def using assms
  by (cases "buffer b") (auto intro!: wp_realloc simp: mkbuf_def BUFFER_update_all min.absorb2)

lemma wp_BUFFER_append_build [wp_intros]:
  assumes "buf_wf b" "n \<noteq> 0" "n \<le> length src" "bsize b + n < SIZE_MOD"
    and "\<And>w'. next_alloc w = None \<Longrightarrow> avail w' = tl (avail w) \<Longrightarrow> live w' = live w \<Longrightarrow>
             faults w' = faults w \<Longrightarrow> Q (FAILURE, Some b) w'"
    and "\<And>w'. next_alloc w \<noteq> None \<Longrightarrow> avail w' = tl (avail w) \<Longrightarrow>
             live w' = live w + (2 - buf_blocks (Some b)) \<Longrightarrow> faults w' = faults w \<Longrightarrow>
             Q (0, Some (mkbuf (buf_bytes b @ take n src))) w'"
  shows "wp (BUFFER_append_build (Some b) (Some src) n) Q w"
proof (cases "buffer b")
  case None
  then have "buf_bytes b = []"
    by (simp add: buf_bytes_def)
  with None show ?thesis
    unfolding BUFFER_append_build_def using assms
    by (auto intro!: wp_BUFFER_safemalloc simp: mkbuf_def BUFFER_update_all)
next
  case (Some old)
  have le: "bsize b \<le> length old" and bytes: "take (bsize b) old = buf_bytes b"
    using assms(1) Some by (simp_all add: buf_wf_def buf_bytes_def)
  show ?thesis
    unfolding BUFFER_append_build_def using assms le Some
    by (auto intro!: wp_realloc_grow simp: bytes mkbuf_def BUFFER_update_all min.absorb2)
qed

text \<open>\<open>BUFFER_append\<close> does what \<open>BUFFER_append_build\<close> does with the other buffer's block.\<close>

lemma BUFFER_append_eq:
  assumes "buffer b1 \<noteq> None" "buffer b2 \<noteq> None" "bsize b2 \<noteq> 0"
  shows "BUFFER_append False (Some b1) (Some b2) =
    BUFFER_append_build (Some b1) (buffer b2) (bsize b2)"
  using assms by (auto simp: BUFFER_append_def BUFFER_append_build_def)

lemma wp_BUFFER_append [wp_intros]:
  assumes "buf_wf b1" "buf_wf b2" "buffer b1 \<noteq> None" "buffer b2 \<noteq> None" "bsize b2 \<noteq> 0"
    and "bsize b1 + bsize b2 < SIZE_MOD"
    and "\<And>w'. next_alloc w = None \<Longrightarrow> avail w' = tl (avail w) \<Longrightarrow> live w' = live w \<Longrightarrow>
             faults w' = faults w \<Longrightarrow> Q (FAILURE, Some b1) w'"
    and "\<And>w'. next_alloc w \<noteq> None \<Longrightarrow> avail w' = tl (avail w) \<Longrightarrow> live w' = live w \<Longrightarrow>
             faults w' = faults w \<Longrightarrow> Q (0, Some (mkbuf (buf_bytes b1 @ buf_bytes b2))) w'"
  shows "wp (BUFFER_append False (Some b1) (Some b2)) Q w"
proof -
  obtain src where src: "buffer b2 = Some src" using assms(4) by blast
  have le: "bsize b2 \<le> length src" and bytes: "take (bsize b2) src = buf_bytes b2"
    using assms(2) src by (simp_all add: buf_wf_def buf_bytes_def)
  show ?thesis
    unfolding BUFFER_append_eq [OF assms(3-5)] unfolding src
    by (rule wp_BUFFER_append_build) (use assms le bytes in auto)
qed

lemma wp_BUFFER_prepend [wp_intros]:
  assumes "buf_wf b1" "buf_wf b2" "buffer b1 \<noteq> None" "buffer b2 \<noteq> None" "bsize b2 \<noteq> 0"
    and "bsize b1 + bsize b2 < SIZE_MOD"
    and "\<And>w'. next_alloc w = None \<Longrightarrow> avail w' = tl (avail w) \<Longrightarrow> live w' = live w \<Longrightarrow>
             faults w' = faults w \<Longrightarrow> Q (FAILURE, Some b1) w'"
    and "\<And>w'. next_alloc w \<noteq> None \<Longrightarrow> avail w' = tl (avail w) \<Longrightarrow> live w' = live w \<Longrightarrow>
             faults w' = faults w \<Longrightarrow> Q (0, Some (mkbuf (buf_bytes b2 @ buf_bytes b1))) w'"
  shows "wp (BUFFER_prepend False (Some b1) (Some b2)) Q w"
proof -
  obtain p1 p2 where p: "buffer b1 = Some p1" "buffer b2 = Some p2" using assms(3,4) by blast
  have le: "bsize b1 \<le> length p1" "bsize b2 \<le> length p2"
    and bytes: "take (bsize b1) p1 = buf_bytes b1" "take (bsize b2) p2 = buf_bytes b2"
    using assms(1,2) p by (simp_all add: buf_wf_def buf_bytes_def)
  have put: "put (put t 0 (buf_bytes b2)) (bsize b2) (buf_bytes b1) = buf_bytes b2 @ buf_bytes b1"
    if "length t = bsize b1 + bsize b2" for t
    using that assms(1,2) by (simp add: put_0)
  show ?thesis
    unfolding BUFFER_prepend_def using assms le bytes p
    by (auto intro!: wp_malloc simp: put mkbuf_def BUFFER_update_all add.commute)
qed

lemma wp_BUFFER_shrink [wp_intros]:
  assumes "buf_wf b" "n \<noteq> 0" "n < bsize b"
    and "\<And>w'. next_alloc w = None \<Longrightarrow> avail w' = tl (avail w) \<Longrightarrow> live w' = live w \<Longrightarrow>
             faults w' = faults w \<Longrightarrow> Q (FAILURE, Some b) w'"
    and "\<And>w'. next_alloc w \<noteq> None \<Longrightarrow> avail w' = tl (avail w) \<Longrightarrow> live w' = live w \<Longrightarrow>
             faults w' = faults w \<Longrightarrow>
             Q (0, Some (mkbuf (if fromEnd then take (bsize b - n) (buf_bytes b)
                                else drop n (buf_bytes b)))) w'"
  shows "wp (BUFFER_shrink (Some b) n fromEnd) Q w"
proof -
  obtain p where p: "buffer b = Some p"
    using assms(1,3) by (cases "buffer b") (auto simp: buf_wf_def)
  have le: "bsize b \<le> length p" using assms(1) p by (simp add: buf_wf_def)
  have bytes: "buf_bytes b = take (bsize b) p" using p by (simp add: buf_bytes_def)
  show ?thesis
    unfolding BUFFER_shrink_def using assms le p
    by (auto intro!: wp_malloc simp: Let_def bytes mkbuf_def BUFFER_update_all take_drop min.absorb2)
qed

declare BUFFER_fill_loop.simps [simp del]

lemma wp_BUFFER_fill_loop [simp]:
  "i \<le> n \<Longrightarrow> n \<le> length bs \<Longrightarrow>
   wp (BUFFER_fill_loop bs i n c) Q w = Q (take i bs @ replicate (n - i) c @ drop n bs) w"
proof (induction bs i n c rule: BUFFER_fill_loop.induct)
  case (1 bs i n c)
  show ?case
  proof (cases "i < n")
    case True
    have "take i bs @ c # replicate (n - Suc i) c = take i bs @ replicate (n - i) c"
      using True by (simp add: Suc_diff_Suc flip: replicate_Suc)
    then have "take (Suc i) (bs[i := c]) @ replicate (n - Suc i) c @ drop n (bs[i := c]) =
        take i bs @ replicate (n - i) c @ drop n bs"
      using True 1 by (simp add: take_Suc_conv_app_nth)
    with True 1 show ?thesis
      by (simp add: BUFFER_fill_loop.simps [of bs i n c] flip: append_assoc)
  next
    case False
    with 1 show ?thesis by (simp add: BUFFER_fill_loop.simps [of bs n n c])
  qed
qed

lemma wp_BUFFER_fill:
  assumes "buf_wf b"
  shows "wp (BUFFER_fill (Some b) c) Q w =
    Q (0, Some (b\<lparr>buffer := map_option (\<lambda>bs. replicate (bsize b) c @ drop (bsize b) bs) (buffer b)\<rparr>)) w"
  using assms by (cases "buffer b") (simp_all add: BUFFER_fill_def buf_wf_def)

lemma wp_BUFFER_create [wp_intros]:
  assumes "n \<le> length src" "n < SIZE_MOD"
    and "\<And>w'. \<not> plenty 2 w \<Longrightarrow> live w' = live w \<Longrightarrow> faults w' = faults w \<Longrightarrow> Q None w'"
    and "\<And>b w'. buf_wf b \<Longrightarrow> buffer b \<noteq> None \<Longrightarrow> buf_bytes b = take n src \<Longrightarrow>
             avail w' = drop 2 (avail w) \<Longrightarrow> live w' = live w + 2 \<Longrightarrow> faults w' = faults w \<Longrightarrow>
             Q (Some b) w'"
  shows "wp (BUFFER_create (Some src) n) Q w"
  unfolding BUFFER_create_def using assms
  by (auto intro!: wp_new wp_BUFFER_safemalloc
      simp: buf_wf_def buf_bytes_def put_0 min.absorb2 starved drop_Suc numeral_2_eq_2)

text \<open>\<open>BUFFER_clone\<close> forgets to free the struct when the data block cannot be allocated, so in
  that branch one block stays behind.\<close>

lemma wp_BUFFER_clone [wp_intros]:
  assumes "buf_wf b"
    and "\<And>w'. next_alloc w = None \<Longrightarrow> avail w' = tl (avail w) \<Longrightarrow> live w' = live w \<Longrightarrow>
           faults w' = faults w \<Longrightarrow> Q None w'"
    and "\<And>w' w''. next_alloc w \<noteq> None \<Longrightarrow> avail w' = tl (avail w) \<Longrightarrow> next_alloc w' = None \<Longrightarrow>
           avail w'' = tl (avail w') \<Longrightarrow> live w'' = live w + 1 \<Longrightarrow> faults w'' = faults w \<Longrightarrow> Q None w''"
    and "\<And>b' w'. buf_wf b' \<Longrightarrow> buffer b' \<noteq> None \<Longrightarrow> buf_bytes b' = buf_bytes b \<Longrightarrow>
             avail w' = drop 2 (avail w) \<Longrightarrow> live w' = live w + 2 \<Longrightarrow> faults w' = faults w \<Longrightarrow>
             Q (Some b') w'"
  shows "wp (BUFFER_clone (Some b)) Q w"
  unfolding BUFFER_clone_def using assms
  by (auto intro!: wp_new wp_BUFFER_safemalloc
      simp: buf_wf_def buf_bytes_def put_0 min.absorb2 drop_Suc numeral_2_eq_2)

section \<open>The contract of the mutating operations\<close>

text \<open>A call on one buffer, with its arguments, and a sequence of calls.\<close>

datatype buf_op =
    Build "u8 list option" nat
  | AppendBuild "u8 list option" nat
  | PreBuild nat
  | Unbuild
  | Enlarge nat
  | Shrink nat bool
  | Append bool "BUFFER option"
  | Prepend bool "BUFFER option"
  | Fill u8

fun buf_exec :: "buf_op \<Rightarrow> BUFFER option \<Rightarrow> (int \<times> BUFFER option) cm" where
  "buf_exec (Build src n) h = BUFFER_build h src n"
| "buf_exec (AppendBuild src n) h = BUFFER_append_build h src n"
| "buf_exec (PreBuild n) h = BUFFER_pre_build h n"
| "buf_exec Unbuild h = BUFFER_unbuild h"
| "buf_exec (Enlarge n) h = BUFFER_enlarge h n"
| "buf_exec (Shrink n fromEnd) h = BUFFER_shrink h n fromEnd"
| "buf_exec (Append same h2) h = BUFFER_append same h h2"
| "buf_exec (Prepend same h2) h = BUFFER_prepend same h h2"
| "buf_exec (Fill c) h = BUFFER_fill h c"

text \<open>The caller's side of the contract: a source holds as many bytes as the call says, a second
  buffer is well-formed.\<close>

fun buf_args_ok :: "buf_op \<Rightarrow> bool" where
  "buf_args_ok (Build src n) = (src \<noteq> None \<longrightarrow> n \<le> length (blk src))"
| "buf_args_ok (AppendBuild src n) = (src \<noteq> None \<longrightarrow> n \<le> length (blk src))"
| "buf_args_ok (Append same h2) = (case h2 of None \<Rightarrow> True | Some b2 \<Rightarrow> buf_wf b2)"
| "buf_args_ok (Prepend same h2) = (case h2 of None \<Rightarrow> True | Some b2 \<Rightarrow> buf_wf b2)"
| "buf_args_ok _ = True"

text \<open>By how much a call can make the buffer longer.\<close>

fun buf_growth :: "buf_op \<Rightarrow> nat" where
  "buf_growth (Build src n) = n"
| "buf_growth (AppendBuild src n) = n"
| "buf_growth (PreBuild n) = n"
| "buf_growth (Enlarge n) = n"
| "buf_growth (Append same h2) = BUFFER_length h2"
| "buf_growth (Prepend same h2) = BUFFER_length h2"
| "buf_growth _ = 0"

text \<open>The abstract buffer: no data block, or a list of bytes. \<open>buf_pre\<close> says which calls the
  component accepts, \<open>buf_post\<close> what an accepted call does.\<close>

definition buf_abs :: "BUFFER \<Rightarrow> u8 list option" where
  "buf_abs b = map_option (take (bsize b)) (buffer b)"

fun buf_pre :: "buf_op \<Rightarrow> u8 list option \<Rightarrow> bool" where
  "buf_pre (Build src n) a = (n = 0 \<or> src \<noteq> None)"
| "buf_pre (AppendBuild src n) a = (src \<noteq> None \<and> n \<noteq> 0)"
| "buf_pre (PreBuild n) a = (n \<noteq> 0 \<and> a = None)"
| "buf_pre Unbuild a = (a \<noteq> None)"
| "buf_pre (Enlarge n) a = (n \<noteq> 0)"
| "buf_pre (Shrink n fromEnd) a = (n \<noteq> 0 \<and> n \<le> length (blk a))"
| "buf_pre (Append same h2) a =
     (\<not> same \<and> a \<noteq> None \<and> (case h2 of None \<Rightarrow> False | Some b2 \<Rightarrow> buffer b2 \<noteq> None))"
| "buf_pre (Prepend same h2) a =
     (\<not> same \<and> a \<noteq> None \<and> (case h2 of None \<Rightarrow> False | Some b2 \<Rightarrow> buffer b2 \<noteq> None))"
| "buf_pre (Fill c) a = True"

fun buf_post :: "buf_op \<Rightarrow> u8 list option \<Rightarrow> u8 list option \<Rightarrow> bool" where
  "buf_post (Build src n) a a' = (a' = (if n = 0 then None else Some (take n (blk src))))"
| "buf_post (AppendBuild src n) a a' = (a' = Some (blk a @ take n (blk src)))"
| "buf_post (PreBuild n) a a' = (a' \<noteq> None \<and> length (blk a') = n)"
| "buf_post Unbuild a a' = (a' = None)"
| "buf_post (Enlarge n) a a' =
     (a' \<noteq> None \<and> length (blk a') = length (blk a) + n \<and> take (length (blk a)) (blk a') = blk a)"
| "buf_post (Shrink n fromEnd) a a' =
     (a' = (if n = length (blk a) then None
            else Some (if fromEnd then take (length (blk a) - n) (blk a) else drop n (blk a))))"
| "buf_post (Append same h2) a a' =
     (a' = Some (blk a @ (case h2 of None \<Rightarrow> [] | Some b2 \<Rightarrow> buf_bytes b2)))"
| "buf_post (Prepend same h2) a a' =
     (a' = Some ((case h2 of None \<Rightarrow> [] | Some b2 \<Rightarrow> buf_bytes b2) @ blk a))"
| "buf_post (Fill c) a a' = (a' = map_option (map (\<lambda>_. c)) a)"

lemma buf_abs_simps [simp]:
  "buf_abs (mkbuf bs) = Some bs"
  "buf_abs \<lparr>buffer = None, bsize = n\<rparr> = None"
  "blk (buf_abs b) = buf_bytes b"
  "buf_abs b = None \<longleftrightarrow> buffer b = None"
  by (auto simp: buf_abs_def buf_bytes_def blk_def split: option.splits)

lemma buf_abs_Some: "buffer b \<noteq> None \<Longrightarrow> buf_abs b = Some (buf_bytes b)"
  by (auto simp: buf_abs_def buf_bytes_def)

text \<open>What one call does: it keeps the buffer well-formed, touches no byte outside a block, accounts
  for every block it takes or gives back, and either does what \<open>buf_post\<close> says or leaves the buffer
  as it was; it refuses an accepted call only when the allocator refuses.\<close>

definition buf_step_ok :: "buf_op \<Rightarrow> BUFFER \<Rightarrow> world \<Rightarrow> int \<times> BUFFER option \<Rightarrow> world \<Rightarrow> bool" where
  "buf_step_ok op b w = (\<lambda>(r, h) w'. \<exists>b'. h = Some b' \<and> buf_wf b' \<and> bsize b' \<le> bsize b + buf_growth op \<and>
     faults w' = faults w \<and> live w' - live w = buf_blocks (Some b') - buf_blocks (Some b) \<and>
     (if r = 0 then buf_pre op (buf_abs b) \<and> buf_post op (buf_abs b) (buf_abs b')
      else b' = b \<and> (buf_pre op (buf_abs b) \<longrightarrow> next_alloc w = None)))"

text \<open>A failed call and a call that changes nothing.\<close>

lemma buf_step_failed:
  "buf_wf b \<Longrightarrow> \<not> buf_pre op (buf_abs b) \<or> next_alloc w = None \<Longrightarrow> live w' = live w \<Longrightarrow> faults w' = faults w \<Longrightarrow>
   buf_step_ok op b w (FAILURE, Some b) w'"
  by (auto simp: buf_step_ok_def)

lemma buf_step_done:
  assumes "buf_wf b'" "bsize b' \<le> bsize b + buf_growth op" "buf_pre op (buf_abs b)"
    "buf_post op (buf_abs b) (buf_abs b')" "faults w' = faults w"
    "live w' = live w + (buf_blocks (Some b') - buf_blocks (Some b))"
  shows "buf_step_ok op b w (0, Some b') w'"
  using assms by (simp add: buf_step_ok_def)

lemmas buf_step_intros = buf_step_failed buf_step_done

lemma BUFFER_build_step:
  assumes "buf_wf b" "src \<noteq> None \<longrightarrow> n \<le> length (blk src)" "bsize b + n < SIZE_MOD"
  shows "wp (BUFFER_build (Some b) src n) (buf_step_ok (Build src n) b w) w"
proof -
  consider "n = 0" | "n \<noteq> 0" "src = None" | s where "n \<noteq> 0" "src = Some s" by blast
  then show ?thesis
  proof cases
    case 1
    then show ?thesis
      using assms by (cases "buffer b")
        (auto intro!: buf_step_done simp: BUFFER_build_def BUFFER_update_all buf_wf_def)
  next
    case 2
    then show ?thesis
      using assms by (auto intro!: buf_step_failed simp: BUFFER_build_def)
  next
    case 3
    then show ?thesis
      using assms by (auto intro!: wp_BUFFER_build buf_step_intros simp: min.absorb2)
  qed
qed

lemma BUFFER_append_build_step:
  assumes "buf_wf b" "src \<noteq> None \<longrightarrow> n \<le> length (blk src)" "bsize b + n < SIZE_MOD"
  shows "wp (BUFFER_append_build (Some b) src n) (buf_step_ok (AppendBuild src n) b w) w"
proof (cases "n = 0 \<or> src = None")
  case True
  then show ?thesis
    using assms by (auto intro!: buf_step_failed simp: BUFFER_append_build_def split: option.splits)
next
  case False
  then show ?thesis
    using assms by (auto intro!: wp_BUFFER_append_build buf_step_intros simp: min.absorb2)
qed

lemma BUFFER_pre_build_step:
  assumes "buf_wf b" "bsize b + n < SIZE_MOD"
  shows "wp (BUFFER_pre_build (Some b) n) (buf_step_ok (PreBuild n) b w) w"
proof (cases "n = 0 \<or> buffer b \<noteq> None")
  case True
  then show ?thesis
    using assms by (auto intro!: buf_step_failed simp: BUFFER_pre_build_def)
next
  case False
  then show ?thesis
    using assms by (auto intro!: wp_BUFFER_pre_build buf_step_intros)
qed

lemma BUFFER_unbuild_step:
  assumes "buf_wf b"
  shows "wp (BUFFER_unbuild (Some b)) (buf_step_ok Unbuild b w) w"
  using assms by (cases "buffer b") (auto intro!: buf_step_intros
      simp: BUFFER_unbuild_def BUFFER_update_all buf_wf_def SIZE_MOD_def)

lemma BUFFER_enlarge_step:
  assumes "buf_wf b" "bsize b + n < SIZE_MOD"
  shows "wp (BUFFER_enlarge (Some b) n) (buf_step_ok (Enlarge n) b w) w"
proof (cases "n = 0")
  case True
  then show ?thesis
    using assms by (auto intro!: buf_step_failed simp: BUFFER_enlarge_def)
next
  case False
  then show ?thesis
    using assms by (auto intro!: wp_BUFFER_enlarge buf_step_intros)
qed

lemma BUFFER_shrink_step:
  assumes "buf_wf b"
  shows "wp (BUFFER_shrink (Some b) n fromEnd) (buf_step_ok (Shrink n fromEnd) b w) w"
proof -
  consider "n = 0 \<or> bsize b < n" | "n \<noteq> 0" "n = bsize b" | "n \<noteq> 0" "n < bsize b" by linarith
  then show ?thesis
  proof cases
    case 1
    then show ?thesis
      using assms by (auto intro!: buf_step_failed simp: BUFFER_shrink_def)
  next
    case 2
    then show ?thesis
      using assms by (cases "buffer b")
        (auto intro!: buf_step_done simp: BUFFER_shrink_def BUFFER_update_all buf_wf_def SIZE_MOD_def)
  next
    case 3
    then have "buffer b \<noteq> None"
      using assms by (cases "buffer b") (auto simp: buf_wf_def)
    with 3 show ?thesis
      using assms
      by (auto intro!: wp_BUFFER_shrink buf_step_intros simp: buf_wf_def min.absorb2)
  qed
qed

text \<open>\<open>BUFFER_append\<close> and \<open>BUFFER_prepend\<close> share their guards: a refused call, an empty second buffer,
  and the call that does the work.\<close>

lemma buf_join_cases:
  assumes "case h2 of None \<Rightarrow> True | Some b2 \<Rightarrow> buf_wf b2"
  obtains "same \<or> buffer b = None \<or> (case h2 of None \<Rightarrow> True | Some b2 \<Rightarrow> buffer b2 = None)"
  | b2 where "\<not> same" "buffer b \<noteq> None" "h2 = Some b2" "buf_wf b2" "buffer b2 \<noteq> None" "bsize b2 = 0"
  | b2 where "\<not> same" "buffer b \<noteq> None" "h2 = Some b2" "buf_wf b2" "buffer b2 \<noteq> None" "bsize b2 \<noteq> 0"
  using assms by (cases h2; cases "buffer b") force+

lemma BUFFER_append_step:
  assumes "buf_wf b" "case h2 of None \<Rightarrow> True | Some b2 \<Rightarrow> buf_wf b2"
    and "bsize b + BUFFER_length h2 < SIZE_MOD"
  shows "wp (BUFFER_append same (Some b) h2) (buf_step_ok (Append same h2) b w) w"
  using assms(2)
proof (cases rule: buf_join_cases [where same = same and b = b])
  case 1
  then show ?thesis
    using assms by (auto intro!: buf_step_failed simp: BUFFER_append_def split: option.splits)
next
  case (2 b2)
  then show ?thesis
    using assms by (auto intro!: buf_step_done simp: BUFFER_append_def buf_bytes_def buf_abs_Some)
next
  case (3 b2)
  then show ?thesis
    using assms by (auto intro!: wp_BUFFER_append buf_step_intros simp: BUFFER_length_def)
qed

lemma BUFFER_prepend_step:
  assumes "buf_wf b" "case h2 of None \<Rightarrow> True | Some b2 \<Rightarrow> buf_wf b2"
    and "bsize b + BUFFER_length h2 < SIZE_MOD"
  shows "wp (BUFFER_prepend same (Some b) h2) (buf_step_ok (Prepend same h2) b w) w"
  using assms(2)
proof (cases rule: buf_join_cases [where same = same and b = b])
  case 1
  then show ?thesis
    using assms by (auto intro!: buf_step_failed simp: BUFFER_prepend_def split: option.splits)
next
  case (2 b2)
  then show ?thesis
    using assms by (auto intro!: buf_step_done simp: BUFFER_prepend_def buf_bytes_def buf_abs_Some)
next
  case (3 b2)
  then show ?thesis
    using assms by (auto intro!: wp_BUFFER_prepend buf_step_intros simp: BUFFER_length_def)
qed

lemma BUFFER_fill_step:
  assumes "buf_wf b"
  shows "wp (BUFFER_fill (Some b) c) (buf_step_ok (Fill c) b w) w"
  using assms by (cases "buffer b")
    (auto intro!: buf_step_done simp: wp_BUFFER_fill buf_abs_def buf_wf_def map_replicate_const)

lemmas buf_steps = BUFFER_build_step BUFFER_append_build_step BUFFER_pre_build_step
  BUFFER_unbuild_step BUFFER_enlarge_step BUFFER_shrink_step BUFFER_append_step
  BUFFER_prepend_step BUFFER_fill_step

lemma buf_exec_ok:
  assumes "buf_wf b" "buf_args_ok op" "bsize b + buf_growth op < SIZE_MOD"
  shows "wp (buf_exec op (Some b)) (buf_step_ok op b w) w"
  using assms by (cases op) (simp_all add: buf_steps)

text \<open>A call either succeeds, and then it was acceptable and did its work, or it fails and changes
  nothing; an acceptable call fails only for lack of memory.\<close>

definition buf_spec :: "buf_op \<Rightarrow> int \<Rightarrow> u8 list option \<Rightarrow> u8 list option \<Rightarrow> bool" where
  "buf_spec op r a a' = (if r = 0 then buf_pre op a \<and> buf_post op a a' else a' = a)"

definition buf_oom :: "buf_op \<Rightarrow> int \<Rightarrow> u8 list option \<Rightarrow> bool" where
  "buf_oom op r a \<longleftrightarrow> r \<noteq> 0 \<and> buf_pre op a"

interpretation buf: c_owned buf_exec buf_wf buf_abs bsize buf_blocks buf_args_ok buf_growth
  "\<lambda>_. 1" buf_spec buf_oom BUFFER_new 2 BUFFER_delete None
proof (unfold_locales, goal_cases)
  case (1 h op w)
  have starved1: "next_alloc w = None \<Longrightarrow> \<not> plenty 1 w" by (simp add: not_plenty_next)
  show ?case
    by (rule wp_mono [OF buf_exec_ok [OF 1]])
      (use starved1 in \<open>auto simp: buf_step_ok_def buf_spec_def buf_oom_def simp del: buf_blocks_simps split: if_splits\<close>)
next
  case (2 w)
  show ?case
    by (rule wp_BUFFER_new) (simp_all add: buf_wf_def SIZE_MOD_def not_plenty_next)
qed simp

section \<open>Properties\<close>

text \<open>C5. Any sequence of calls on a well-formed buffer, whatever the allocator does and whatever
  fresh memory holds: the buffer stays well-formed, no access leaves a block, the number of
  allocated blocks changes by exactly what the buffer gained or lost, a call that reports success
  was acceptable and did to the buffer's bytes what its specification says, and a call that reports
  failure left them as they were.\<close>

theorem buffer_calls_refine:
  assumes "buf_wf b" "\<forall>op \<in> set ops. buf_args_ok op" "bsize b + sum_list (map buf_growth ops) < SIZE_MOD"
  shows "wp (run_ops buf_exec ops (Some b)) (\<lambda>(rs, h) w'. \<exists>b'. h = Some b' \<and> buf_wf b' \<and>
           faults w' = faults w \<and> live w' - live w = buf_blocks (Some b') - buf_blocks (Some b) \<and>
           spec_run buf_spec ops rs (buf_abs b) (buf_abs b')) w"
  using assms by (rule buf.run_correct)

theorem buffer_calls_refine_witness:
  "wp (run_ops buf_exec [Build (Some [1, 2, 3]) 2, AppendBuild (Some [7]) 1, Shrink 1 False, Unbuild]
         (Some \<lparr>buffer = None, bsize = 0\<rparr>))
     (\<lambda>(rs, h) w'. \<exists>b'. h = Some b' \<and> buf_wf b' \<and> faults w' = 0 \<and>
        live w' - 1 = buf_blocks (Some b') - buf_blocks (Some \<lparr>buffer = None, bsize = 0\<rparr>) \<and>
        spec_run buf_spec
          [Build (Some [1, 2, 3]) 2, AppendBuild (Some [7]) 1, Shrink 1 False, Unbuild] rs
          (buf_abs \<lparr>buffer = None, bsize = 0\<rparr>) (buf_abs b'))
     \<lparr>avail = [Some (\<lambda>_. 0), None, Some (\<lambda>_. 9)], live = 1, faults = 0\<rparr>"
  by (rule wp_mono [OF buffer_calls_refine]) (simp_all add: buf_wf_def SIZE_MOD_def)

text \<open>With memory available a call on a well-formed buffer succeeds exactly when its
  specification accepts it.\<close>

lemma buffer_call_total:
  assumes "buf_wf b" "buf_args_ok op" "bsize b + buf_growth op < SIZE_MOD" "plenty 1 w"
  shows "wp (buf_exec op (Some b)) (\<lambda>(r, _) _. r = 0 \<longleftrightarrow> buf_pre op (buf_abs b)) w"
  by (rule wp_mono [OF buf.step_total [OF assms]]) (auto simp: buf_spec_def buf_oom_def split: if_splits)

text \<open>Creating a buffer, any calls on it and deleting it gives every block back.\<close>

lemma buffer_lifecycle:
  assumes "\<forall>op \<in> set ops. buf_args_ok op" "sum_list (map buf_growth ops) < SIZE_MOD"
  shows "wp (do { h \<leftarrow> BUFFER_new; if h = None then ret None
                  else do { (rs, h') \<leftarrow> run_ops buf_exec ops h; BUFFER_delete h'; ret (Some rs) } })
     (\<lambda>out w'. live w' = live w \<and> faults w' = faults w \<and>
        (case out of None \<Rightarrow> \<not> plenty 2 w
         | Some rs \<Rightarrow> \<exists>a. spec_run buf_spec ops rs None a)) w"
  using assms by (rule buf.lifecycle)

text \<open>\<open>BUFFER_clone\<close> gives a buffer of its own with the same bytes or \<open>NULL\<close>; when the struct is
  allocated and the data block is not, \<open>NULL\<close> is returned and the struct stays allocated: the
  function does not free it.\<close>

lemma BUFFER_clone_copy_or_leak:
  assumes "buf_wf b"
  shows "wp (BUFFER_clone (Some b)) (\<lambda>h w'. faults w' = faults w \<and>
     (case h of
        Some b' \<Rightarrow> buf_wf b' \<and> buf_bytes b' = buf_bytes b \<and> live w' = live w + buf_blocks h
      | None \<Rightarrow> live w' = live w + (if next_alloc w = None then 0 else 1))) w"
  using assms by (auto intro!: wp_BUFFER_clone)

end
