(* ===== verification/Strings.thy ===== *)
theory Strings
  imports Component
begin

text \<open>
  The heap string of the Azure C utility library (\<open>c-utility/src/strings.c\<close>). A \<open>STRING_HANDLE\<close> is
  \<open>STRING option\<close>; the field \<open>str_s\<close> is the whole block behind \<open>char* s\<close>, terminator included. A
  \<open>const char*\<close> argument is the block it points to. The two \<open>sprintf\<close> functions take what
  \<open>vsnprintf\<close> makes of the format and its arguments, once for the measuring and once for the writing
  call; whether a pointer argument equals the string's own block is a flag.
\<close>

record STRING =
  str_s :: "u8 list"

section \<open>The operations, in the order of the source\<close>

definition hexToASCII :: "u8 list" where
  "hexToASCII = map of_char ''0123456789ABCDEF''"

definition STRING_new :: "STRING option cm" where
  "STRING_new = do {
     ok \<leftarrow> c_new;
     if ok then do {
       p \<leftarrow> c_malloc 1;
       (case p of
          Some b \<Rightarrow> do { b' \<leftarrow> c_store b 0 0; ret (Some \<lparr>str_s = b'\<rparr>) }
        | None \<Rightarrow> do { c_free (Some ()); ret None })
     }
     else ret None
   }"

definition STRING_clone :: "STRING option \<Rightarrow> STRING option cm" where
  "STRING_clone handle =
     (case handle of
        None \<Rightarrow> ret None
      | Some source \<Rightarrow> do {
          ok \<leftarrow> c_new;
          if ok then do {
            sourceLen \<leftarrow> c_strlen (str_s source);
            p \<leftarrow> c_malloc (szt (sourceLen + 1));
            (case p of
               None \<Rightarrow> do { c_free (Some ()); ret None }
             | Some b \<Rightarrow> do {
                 b' \<leftarrow> c_memcpy b 0 (str_s source) 0 (szt (sourceLen + 1));
                 ret (Some \<lparr>str_s = b'\<rparr>)
               })
          }
          else ret None
        })"

definition STRING_construct :: "u8 list option \<Rightarrow> STRING option cm" where
  "STRING_construct psz =
     (case psz of
        None \<Rightarrow> ret None
      | Some z \<Rightarrow> do {
          ok \<leftarrow> c_new;
          if ok then do {
            len \<leftarrow> c_strlen z;
            let nLen = szt (len + 1);
            p \<leftarrow> c_malloc nLen;
            (case p of
               Some b \<Rightarrow> do { b' \<leftarrow> c_memcpy b 0 z 0 nLen; ret (Some \<lparr>str_s = b'\<rparr>) }
             | None \<Rightarrow> do { c_free (Some ()); ret None })
          }
          else ret None
        })"

text \<open>\<open>format\<close>: the format pointer is not null; \<open>out1\<close>, \<open>out2\<close>: what the two \<open>vsnprintf\<close> calls format.\<close>

definition STRING_construct_sprintf ::
    "bool \<Rightarrow> u8 list option \<Rightarrow> u8 list option \<Rightarrow> STRING option cm" where
  "STRING_construct_sprintf format out1 out2 =
     (if format then do {
        (len, buf) \<leftarrow> c_vsnprintf [] 0 0 out1;
        if len > 0 then do {
          ok \<leftarrow> c_new;
          if ok then do {
            p \<leftarrow> c_malloc (nat len + 1);
            (case p of
               Some b \<Rightarrow> do {
                 (r, b') \<leftarrow> c_vsnprintf b 0 (nat len + 1) out2;
                 if r < 0 then do { c_free (Some b'); c_free (Some ()); ret None }
                 else ret (Some \<lparr>str_s = b'\<rparr>)
               }
             | None \<Rightarrow> do { c_free (Some ()); ret None })
          }
          else ret None
        }
        else if len = 0 then STRING_new
        else ret None
      }
      else ret None)"

definition STRING_new_with_memory :: "u8 list option \<Rightarrow> STRING option cm" where
  "STRING_new_with_memory memory =
     (case memory of
        None \<Rightarrow> ret None
      | Some m \<Rightarrow> do { ok \<leftarrow> c_new; ret (if ok then Some \<lparr>str_s = m\<rparr> else None) })"

definition STRING_new_quoted :: "u8 list option \<Rightarrow> STRING option cm" where
  "STRING_new_quoted source =
     (case source of
        None \<Rightarrow> ret None
      | Some src \<Rightarrow> do {
          ok \<leftarrow> c_new;
          if ok then do {
            sourceLength \<leftarrow> c_strlen src;
            p \<leftarrow> c_malloc (szt (sourceLength + 3));
            (case p of
               Some b \<Rightarrow> do {
                 b1 \<leftarrow> c_store b 0 34;
                 b2 \<leftarrow> c_memcpy b1 1 src 0 sourceLength;
                 b3 \<leftarrow> c_store b2 (sourceLength + 1) 34;
                 b4 \<leftarrow> c_store b3 (sourceLength + 2) 0;
                 ret (Some \<lparr>str_s = b4\<rparr>)
               }
             | None \<Rightarrow> do { c_free (Some ()); ret None })
          }
          else ret None
        })"

text \<open>\<open>STRING_new_JSON\<close>: the counting loop (it stops at the first byte from 128 on, with the index
  reached) and the loop that writes the escaped characters.\<close>

fun JSON_count :: "u8 list \<Rightarrow> nat \<Rightarrow> nat \<Rightarrow> nat \<Rightarrow> nat \<times> nat \<times> nat" where
  "JSON_count [] i nControlCharacters nEscapeCharacters = (i, nControlCharacters, nEscapeCharacters)"
| "JSON_count (c # cs) i nControlCharacters nEscapeCharacters =
     (if 128 \<le> c then (i, nControlCharacters, nEscapeCharacters)
      else if c \<le> 0x1F then JSON_count cs (Suc i) (nControlCharacters + 1) nEscapeCharacters
      else if c = 34 \<or> c = 92 \<or> c = 47
        then JSON_count cs (Suc i) nControlCharacters (nEscapeCharacters + 1)
      else JSON_count cs (Suc i) nControlCharacters nEscapeCharacters)"

definition JSON_escape :: "u8 \<Rightarrow> u8 list" where
  "JSON_escape c =
     (if c \<le> 0x1F then
        [92, 117, 48, 48, hexToASCII ! unat (drop_bit 4 (c AND 0xF0)), hexToASCII ! unat (c AND 0x0F)]
      else if c = 34 then [92, 34]
      else if c = 92 then [92, 92]
      else if c = 47 then [92, 47]
      else [c])"

fun JSON_write :: "u8 list \<Rightarrow> u8 list \<Rightarrow> nat \<Rightarrow> (u8 list \<times> nat) cm" where
  "JSON_write [] s pos = ret (s, pos)"
| "JSON_write (c # cs) s pos = do {
     s' \<leftarrow> c_stores s pos (JSON_escape c);
     JSON_write cs s' (pos + length (JSON_escape c))
   }"

definition STRING_new_JSON :: "u8 list option \<Rightarrow> STRING option cm" where
  "STRING_new_JSON source =
     (case source of
        None \<Rightarrow> ret None
      | Some src \<Rightarrow> do {
          vlen \<leftarrow> c_strlen src;
          let (i, nControlCharacters, nEscapeCharacters) = JSON_count (take vlen src) 0 0 0;
          if i < vlen then ret None
          else do {
            ok \<leftarrow> c_new;
            if \<not> ok then ret None
            else do {
              p \<leftarrow> c_malloc (szt (vlen + 5 * nControlCharacters + nEscapeCharacters + 3));
              (case p of
                 None \<Rightarrow> do { c_free (Some ()); ret None }
               | Some b \<Rightarrow> do {
                   b1 \<leftarrow> c_store b 0 34;
                   (b2, pos) \<leftarrow> JSON_write (take vlen src) b1 1;
                   b3 \<leftarrow> c_store b2 pos 34;
                   b4 \<leftarrow> c_store b3 (pos + 1) 0;
                   ret (Some \<lparr>str_s = b4\<rparr>)
                 })
            }
          }
        })"

definition STRING_concat :: "STRING option \<Rightarrow> u8 list option \<Rightarrow> (int \<times> STRING option) cm" where
  "STRING_concat handle s2 =
     (case (handle, s2) of
        (Some s1, Some z) \<Rightarrow> do {
          s1Length \<leftarrow> c_strlen (str_s s1);
          s2Length \<leftarrow> c_strlen z;
          temp \<leftarrow> c_realloc (Some (str_s s1)) (szt (s1Length + s2Length + 1));
          (case temp of
             None \<Rightarrow> ret (FAILURE, handle)
           | Some t \<Rightarrow> do {
               t' \<leftarrow> c_memcpy t s1Length z 0 (szt (s2Length + 1));
               ret (0, Some (s1\<lparr>str_s := t'\<rparr>))
             })
        }
      | _ \<Rightarrow> ret (FAILURE, handle))"

definition STRING_concat_with_STRING :: "STRING option \<Rightarrow> STRING option \<Rightarrow> (int \<times> STRING option) cm" where
  "STRING_concat_with_STRING s1 s2 =
     (case (s1, s2) of
        (Some dest, Some src) \<Rightarrow> do {
          s1Length \<leftarrow> c_strlen (str_s dest);
          s2Length \<leftarrow> c_strlen (str_s src);
          temp \<leftarrow> c_realloc (Some (str_s dest)) (szt (s1Length + s2Length + 1));
          (case temp of
             None \<Rightarrow> ret (FAILURE, s1)
           | Some t \<Rightarrow> do {
               t' \<leftarrow> c_memcpy t s1Length (str_s src) 0 (szt (s2Length + 1));
               ret (0, Some (dest\<lparr>str_s := t'\<rparr>))
             })
        }
      | _ \<Rightarrow> ret (FAILURE, s1))"

text \<open>\<open>same\<close>: \<open>s1->s == s2\<close>.\<close>

definition STRING_copy :: "bool \<Rightarrow> STRING option \<Rightarrow> u8 list option \<Rightarrow> (int \<times> STRING option) cm" where
  "STRING_copy same handle s2 =
     (case (handle, s2) of
        (Some s1, Some z) \<Rightarrow>
          if \<not> same then do {
            s2Length \<leftarrow> c_strlen z;
            temp \<leftarrow> c_realloc (Some (str_s s1)) (szt (s2Length + 1));
            (case temp of
               None \<Rightarrow> ret (FAILURE, handle)
             | Some t \<Rightarrow> do {
                 t' \<leftarrow> c_memcpy t 0 z 0 (szt (s2Length + 1));
                 ret (0, Some (s1\<lparr>str_s := t'\<rparr>))
               })
          }
          else ret (0, handle)
      | _ \<Rightarrow> ret (FAILURE, handle))"

definition STRING_copy_n :: "STRING option \<Rightarrow> u8 list option \<Rightarrow> nat \<Rightarrow> (int \<times> STRING option) cm" where
  "STRING_copy_n handle s2 n =
     (case (handle, s2) of
        (Some s1, Some z) \<Rightarrow> do {
          len \<leftarrow> c_strlen z;
          let s2Length = (if len > n then n else len);
          temp \<leftarrow> c_realloc (Some (str_s s1)) (szt (s2Length + 1));
          (case temp of
             None \<Rightarrow> ret (FAILURE, handle)
           | Some t \<Rightarrow> do {
               t1 \<leftarrow> c_memcpy t 0 z 0 s2Length;
               t2 \<leftarrow> c_store t1 s2Length 0;
               ret (0, Some (s1\<lparr>str_s := t2\<rparr>))
             })
        }
      | _ \<Rightarrow> ret (FAILURE, handle))"

definition STRING_sprintf ::
    "STRING option \<Rightarrow> bool \<Rightarrow> u8 list option \<Rightarrow> u8 list option \<Rightarrow> (int \<times> STRING option) cm" where
  "STRING_sprintf handle format out1 out2 =
     (case handle of
        None \<Rightarrow> ret (FAILURE, handle)
      | Some s1 \<Rightarrow>
          if \<not> format then ret (FAILURE, handle)
          else do {
            (s2Length, buf) \<leftarrow> c_vsnprintf [0] 0 0 out1;
            if s2Length < 0 then ret (FAILURE, handle)
            else if s2Length = 0 then ret (0, handle)
            else do {
              s1Length \<leftarrow> c_strlen (str_s s1);
              temp \<leftarrow> c_realloc (Some (str_s s1)) (szt (s1Length + nat s2Length + 1));
              (case temp of
                 Some t \<Rightarrow> do {
                   (r, t') \<leftarrow> c_vsnprintf t s1Length (szt (s1Length + nat s2Length + 1)) out2;
                   if r < 0 then do {
                     t'' \<leftarrow> c_store t' s1Length 0;
                     ret (FAILURE, Some (s1\<lparr>str_s := t''\<rparr>))
                   }
                   else ret (0, Some (s1\<lparr>str_s := t'\<rparr>))
                 }
               | None \<Rightarrow> ret (FAILURE, handle))
            }
          })"

definition STRING_quote :: "STRING option \<Rightarrow> (int \<times> STRING option) cm" where
  "STRING_quote handle =
     (case handle of
        None \<Rightarrow> ret (FAILURE, handle)
      | Some s1 \<Rightarrow> do {
          s1Length \<leftarrow> c_strlen (str_s s1);
          temp \<leftarrow> c_realloc (Some (str_s s1)) (szt (s1Length + 2 + 1));
          (case temp of
             None \<Rightarrow> ret (FAILURE, handle)
           | Some t \<Rightarrow> do {
               t1 \<leftarrow> c_memcpy t 1 t 0 s1Length;
               t2 \<leftarrow> c_store t1 0 34;
               t3 \<leftarrow> c_store t2 (s1Length + 1) 34;
               t4 \<leftarrow> c_store t3 (s1Length + 2) 0;
               ret (0, Some (s1\<lparr>str_s := t4\<rparr>))
             })
        })"

definition STRING_empty :: "STRING option \<Rightarrow> (int \<times> STRING option) cm" where
  "STRING_empty handle =
     (case handle of
        None \<Rightarrow> ret (FAILURE, handle)
      | Some s1 \<Rightarrow> do {
          temp \<leftarrow> c_realloc (Some (str_s s1)) 1;
          (case temp of
             None \<Rightarrow> ret (FAILURE, handle)
           | Some t \<Rightarrow> do { t' \<leftarrow> c_store t 0 0; ret (0, Some (s1\<lparr>str_s := t'\<rparr>)) })
        })"

definition STRING_delete :: "STRING option \<Rightarrow> unit cm" where
  "STRING_delete handle =
     (case handle of
        None \<Rightarrow> ret ()
      | Some value \<Rightarrow> do { c_free (Some (str_s value)); c_free (Some value) })"

definition STRING_c_str :: "STRING option \<Rightarrow> u8 list option" where
  "STRING_c_str handle = (case handle of Some st \<Rightarrow> Some (str_s st) | None \<Rightarrow> None)"

definition STRING_length :: "STRING option \<Rightarrow> nat cm" where
  "STRING_length handle = (case handle of None \<Rightarrow> ret 0 | Some value \<Rightarrow> c_strlen (str_s value))"

definition STRING_construct_n :: "u8 list option \<Rightarrow> nat \<Rightarrow> STRING option cm" where
  "STRING_construct_n psz n =
     (case psz of
        None \<Rightarrow> ret None
      | Some z \<Rightarrow> do {
          len \<leftarrow> c_strlen z;
          if n > len then ret None
          else do {
            ok \<leftarrow> c_new;
            if ok then do {
              p \<leftarrow> c_malloc (szt (len + 1));
              (case p of
                 Some b \<Rightarrow> do {
                   b1 \<leftarrow> c_memcpy b 0 z 0 n;
                   b2 \<leftarrow> c_store b1 n 0;
                   ret (Some \<lparr>str_s = b2\<rparr>)
                 }
               | None \<Rightarrow> do { c_free (Some ()); ret None })
            }
            else ret None
          }
        })"

definition STRING_compare :: "STRING option \<Rightarrow> STRING option \<Rightarrow> int cm" where
  "STRING_compare s1 s2 =
     (case (s1, s2) of
        (None, None) \<Rightarrow> ret 0
      | (None, Some _) \<Rightarrow> ret 1
      | (Some _, None) \<Rightarrow> ret (-1)
      | (Some value1, Some value2) \<Rightarrow> c_strcmp (str_s value1) (str_s value2))"

definition STRING_from_byte_array :: "u8 list option \<Rightarrow> nat \<Rightarrow> STRING option cm" where
  "STRING_from_byte_array source n =
     (if source = None \<and> n > 0 then ret None
      else do {
        ok \<leftarrow> c_new;
        if \<not> ok then ret None
        else do {
          p \<leftarrow> c_malloc (szt (n + 1));
          (case p of
             None \<Rightarrow> do { c_free (Some ()); ret None }
           | Some b \<Rightarrow> do {
               b1 \<leftarrow> c_memcpy b 0 (blk source) 0 n;
               b2 \<leftarrow> c_store b1 n 0;
               ret (Some \<lparr>str_s = b2\<rparr>)
             })
        }
      })"

function STRING_replace_loop :: "u8 list \<Rightarrow> nat \<Rightarrow> nat \<Rightarrow> u8 \<Rightarrow> u8 \<Rightarrow> u8 list cm" where
  "STRING_replace_loop s index n target replace =
     (if index < n then do {
        c \<leftarrow> c_load s index;
        s' \<leftarrow> (if c = target then c_store s index replace else ret s);
        STRING_replace_loop s' (Suc index) n target replace
      }
      else ret s)"
  by pat_completeness auto
termination
  by (relation "measure (\<lambda>(s, index, n, t, r). n - index)") auto

definition STRING_replace :: "STRING option \<Rightarrow> u8 \<Rightarrow> u8 \<Rightarrow> (int \<times> STRING option) cm" where
  "STRING_replace handle target replace =
     (case handle of
        None \<Rightarrow> ret (FAILURE, handle)
      | Some str_value \<Rightarrow>
          if target = replace then ret (0, handle)
          else do {
            len \<leftarrow> c_strlen (str_s str_value);
            s' \<leftarrow> STRING_replace_loop (str_s str_value) 0 len target replace;
            ret (0, Some (str_value\<lparr>str_s := s'\<rparr>))
          })"

section \<open>Well-formed strings and what they hold\<close>

definition str_wf :: "STRING \<Rightarrow> bool" where
  "str_wf st \<longleftrightarrow> is_cstr (str_s st)"

definition str_val :: "STRING \<Rightarrow> u8 list" where
  "str_val st = c_str (str_s st)"

definition str_blocks :: "STRING option \<Rightarrow> int" where
  "str_blocks h = (case h of None \<Rightarrow> 0 | Some _ \<Rightarrow> 2)"

text \<open>A string in a block of just the right length.\<close>

definition mkstr :: "u8 list \<Rightarrow> STRING" where
  "mkstr t = \<lparr>str_s = t @ [0]\<rparr>"

lemma str_blocks_simps [simp]: "str_blocks None = 0" "str_blocks (Some st) = 2"
  by (simp_all add: str_blocks_def)

lemma mkstr_simps [simp]:
  "str_s (mkstr t) = t @ [0]" "str_wf (mkstr t)" "0 \<notin> set t \<Longrightarrow> str_val (mkstr t) = t"
  by (simp_all add: mkstr_def str_wf_def str_val_def)

lemma STRING_update [simp]: "(st :: STRING)\<lparr>str_s := t @ [0]\<rparr> = mkstr t"
  by (cases st) (simp add: mkstr_def)

lemma str_val_nozero [simp]: "0 \<notin> set (str_val st)"
  by (simp add: str_val_def)

section \<open>Weakest preconditions of the operations\<close>

text \<open>Resizing a string's block to hold its text and \<open>k\<close> more bytes.\<close>

lemma wp_realloc_str:
  assumes "is_cstr z" "n = length (c_str z) + k" "k \<noteq> 0"
    and "\<And>w'. next_alloc w = None \<Longrightarrow> avail w' = tl (avail w) \<Longrightarrow> live w' = live w \<Longrightarrow>
             faults w' = faults w \<Longrightarrow> Q None w'"
    and "\<And>zs w'. length zs = k \<Longrightarrow> next_alloc w \<noteq> None \<Longrightarrow> avail w' = tl (avail w) \<Longrightarrow>
             live w' = live w \<Longrightarrow> faults w' = faults w \<Longrightarrow> Q (Some (c_str z @ zs)) w'"
  shows "wp (c_realloc (Some z) n) Q w"
  unfolding assms(2) by (rule wp_realloc_grow) (use assms length_c_str_le in auto)

lemma wp_STRING_delete [simp, wp_simps]:
  "wp (STRING_delete h) Q w = Q () (w\<lparr>live := live w - str_blocks h\<rparr>)"
  by (cases h) (auto simp: STRING_delete_def)

lemma wp_STRING_new [wp_intros]:
  assumes "\<And>w'. \<not> plenty 2 w \<Longrightarrow> live w' = live w \<Longrightarrow> faults w' = faults w \<Longrightarrow> Q None w'"
    and "\<And>w'. avail w' = drop 2 (avail w) \<Longrightarrow> live w' = live w + 2 \<Longrightarrow> faults w' = faults w \<Longrightarrow>
             Q (Some (mkstr [])) w'"
  shows "wp STRING_new Q w"
proof -
  have "\<lparr>str_s = bs[0 := 0]\<rparr> = mkstr []" if "length bs = 1" for bs :: "u8 list"
    using that by (cases bs) (auto simp: mkstr_def)
  then show ?thesis
    unfolding STRING_new_def using assms
    by (auto intro!: wp_new wp_malloc simp: starved drop_Suc numeral_2_eq_2)
qed

lemma wp_STRING_construct [wp_intros]:
  assumes "is_cstr z" "length (c_str z) + 1 < SIZE_MOD"
    and "\<And>w'. \<not> plenty 2 w \<Longrightarrow> live w' = live w \<Longrightarrow> faults w' = faults w \<Longrightarrow> Q None w'"
    and "\<And>w'. avail w' = drop 2 (avail w) \<Longrightarrow> live w' = live w + 2 \<Longrightarrow> faults w' = faults w \<Longrightarrow>
             Q (Some (mkstr (c_str z))) w'"
  shows "wp (STRING_construct (Some z)) Q w"
  unfolding STRING_construct_def using assms
  by (auto intro!: wp_new wp_malloc
      simp: Suc_le_eq starved drop_Suc numeral_2_eq_2 simp flip: mkstr_def)

lemma wp_STRING_clone [wp_intros]:
  assumes "str_wf st" "length (str_val st) + 1 < SIZE_MOD"
    and "\<And>w'. \<not> plenty 2 w \<Longrightarrow> live w' = live w \<Longrightarrow> faults w' = faults w \<Longrightarrow> Q None w'"
    and "\<And>w'. avail w' = drop 2 (avail w) \<Longrightarrow> live w' = live w + 2 \<Longrightarrow> faults w' = faults w \<Longrightarrow>
             Q (Some (mkstr (str_val st))) w'"
  shows "wp (STRING_clone (Some st)) Q w"
proof -
  have "STRING_clone (Some st) = STRING_construct (Some (str_s st))"
    unfolding STRING_clone_def STRING_construct_def Let_def by simp
  then show ?thesis
    using assms by (auto intro!: wp_STRING_construct simp: str_wf_def str_val_def)
qed

lemma wp_STRING_concat [wp_intros]:
  assumes "str_wf st" "is_cstr z" "length (str_val st) + length (c_str z) + 1 < SIZE_MOD"
    and "\<And>w'. next_alloc w = None \<Longrightarrow> avail w' = tl (avail w) \<Longrightarrow> live w' = live w \<Longrightarrow>
             faults w' = faults w \<Longrightarrow> Q (FAILURE, Some st) w'"
    and "\<And>w'. next_alloc w \<noteq> None \<Longrightarrow> avail w' = tl (avail w) \<Longrightarrow> live w' = live w \<Longrightarrow>
             faults w' = faults w \<Longrightarrow> Q (0, Some (mkstr (str_val st @ c_str z))) w'"
  shows "wp (STRING_concat (Some st) (Some z)) Q w"
proof -
  have "is_cstr (str_s st)" using assms(1) by (simp add: str_wf_def)
  then show ?thesis
    unfolding STRING_concat_def using assms
    by (auto intro!: wp_realloc_str [where k = "Suc (length (c_str z))"]
        simp: str_val_def Suc_le_eq simp flip: append_assoc)
qed

lemma wp_STRING_concat_with_STRING [wp_intros]:
  assumes "str_wf st" "str_wf st2" "length (str_val st) + length (str_val st2) + 1 < SIZE_MOD"
    and "\<And>w'. next_alloc w = None \<Longrightarrow> avail w' = tl (avail w) \<Longrightarrow> live w' = live w \<Longrightarrow>
             faults w' = faults w \<Longrightarrow> Q (FAILURE, Some st) w'"
    and "\<And>w'. next_alloc w \<noteq> None \<Longrightarrow> avail w' = tl (avail w) \<Longrightarrow> live w' = live w \<Longrightarrow>
             faults w' = faults w \<Longrightarrow> Q (0, Some (mkstr (str_val st @ str_val st2))) w'"
  shows "wp (STRING_concat_with_STRING (Some st) (Some st2)) Q w"
proof -
  have "STRING_concat_with_STRING (Some st) (Some st2) = STRING_concat (Some st) (Some (str_s st2))"
    unfolding STRING_concat_with_STRING_def STRING_concat_def by simp
  then show ?thesis
    using assms by (auto intro!: wp_STRING_concat simp: str_wf_def [of st2] str_val_def [of st2])
qed

lemma wp_STRING_copy [wp_intros]:
  assumes "str_wf st" "is_cstr z" "length (c_str z) + 1 < SIZE_MOD"
    and "\<And>w'. next_alloc w = None \<Longrightarrow> avail w' = tl (avail w) \<Longrightarrow> live w' = live w \<Longrightarrow>
             faults w' = faults w \<Longrightarrow> Q (FAILURE, Some st) w'"
    and "\<And>w'. next_alloc w \<noteq> None \<Longrightarrow> avail w' = tl (avail w) \<Longrightarrow> live w' = live w \<Longrightarrow>
             faults w' = faults w \<Longrightarrow> Q (0, Some (mkstr (c_str z))) w'"
  shows "wp (STRING_copy False (Some st) (Some z)) Q w"
  unfolding STRING_copy_def using assms
  by (auto intro!: wp_realloc simp: Suc_le_eq)

lemma wp_STRING_copy_n [wp_intros]:
  assumes "str_wf st" "is_cstr z" "length (c_str z) + 1 < SIZE_MOD"
    and "\<And>w'. next_alloc w = None \<Longrightarrow> avail w' = tl (avail w) \<Longrightarrow> live w' = live w \<Longrightarrow>
             faults w' = faults w \<Longrightarrow> Q (FAILURE, Some st) w'"
    and "\<And>w'. next_alloc w \<noteq> None \<Longrightarrow> avail w' = tl (avail w) \<Longrightarrow> live w' = live w \<Longrightarrow>
             faults w' = faults w \<Longrightarrow> Q (0, Some (mkstr (take n (c_str z)))) w'"
  shows "wp (STRING_copy_n (Some st) (Some z) n) Q w"
proof -
  let ?m = "min n (length (c_str z))"
  have m: "(if n < length (c_str z) then n else length (c_str z)) = ?m" by simp
  have le: "?m \<le> length z" using length_c_str_le [of z] by linarith
  have chars: "take ?m z = take n (c_str z)"
    using take_n_c_str [of ?m z] by (simp add: min_def)
  have block: "(put t 0 (take n (c_str z)))[?m := 0] = take n (c_str z) @ [0]"
    if "length t = Suc ?m" for t :: "u8 list"
    using that by (simp add: list_update_eq_put put_0 put_tail min.commute) (simp add: min_def)
  show ?thesis
    unfolding STRING_copy_n_def using assms le
    by (auto intro!: wp_realloc simp: m chars block Let_def)
qed

lemma wp_STRING_sprintf [wp_intros]:
  assumes "str_wf st" "0 \<notin> set t" "length (str_val st) + length t + 1 < SIZE_MOD"
    and "t = [] \<Longrightarrow> Q (0, Some st) w"
    and "\<And>w'. t \<noteq> [] \<Longrightarrow> next_alloc w = None \<Longrightarrow> avail w' = tl (avail w) \<Longrightarrow> live w' = live w \<Longrightarrow>
             faults w' = faults w \<Longrightarrow> Q (FAILURE, Some st) w'"
    and "\<And>w'. t \<noteq> [] \<Longrightarrow> next_alloc w \<noteq> None \<Longrightarrow> avail w' = tl (avail w) \<Longrightarrow> live w' = live w \<Longrightarrow>
             faults w' = faults w \<Longrightarrow> Q (0, Some (mkstr (str_val st @ t))) w'"
  shows "wp (STRING_sprintf (Some st) True (Some t) (Some t)) Q w"
proof -
  have "is_cstr (str_s st)" using assms(1) by (simp add: str_wf_def)
  then show ?thesis
    unfolding STRING_sprintf_def c_vsnprintf_def using assms
    by (auto intro!: wp_realloc_str [where k = "Suc (length t)"]
        simp: str_val_def simp flip: append_assoc)
qed

lemma wp_STRING_empty [wp_intros]:
  assumes "\<And>w'. next_alloc w = None \<Longrightarrow> avail w' = tl (avail w) \<Longrightarrow> live w' = live w \<Longrightarrow>
             faults w' = faults w \<Longrightarrow> Q (FAILURE, Some st) w'"
    and "\<And>w'. next_alloc w \<noteq> None \<Longrightarrow> avail w' = tl (avail w) \<Longrightarrow> live w' = live w \<Longrightarrow>
             faults w' = faults w \<Longrightarrow> Q (0, Some (mkstr [])) w'"
  shows "wp (STRING_empty (Some st)) Q w"
proof -
  have one: "t[0 := 0] = [] @ [0]" if "length t = 1" for t :: "u8 list"
    using that by (cases t) auto
  have "Q (0, Some (st\<lparr>str_s := (take 1 (str_s st) @ ys)[0 := 0]\<rparr>)) w'"
    if "length ys = 1 - length (str_s st)" "next_alloc w \<noteq> None" "avail w' = tl (avail w)"
      "live w' = live w" "faults w' = faults w" for ys w'
  proof -
    have "length (take 1 (str_s st) @ ys) = 1" using that(1) by simp
    from one [OF this] show ?thesis
      using assms(2) [OF that(2-5)] by (simp only: STRING_update)
  qed
  then show ?thesis
    unfolding STRING_empty_def using assms(1)
    by (auto intro!: wp_realloc)
qed

lemma wp_STRING_quote [wp_intros]:
  assumes "str_wf st" "length (str_val st) + 3 < SIZE_MOD"
    and "\<And>w'. next_alloc w = None \<Longrightarrow> avail w' = tl (avail w) \<Longrightarrow> live w' = live w \<Longrightarrow>
             faults w' = faults w \<Longrightarrow> Q (FAILURE, Some st) w'"
    and "\<And>w'. next_alloc w \<noteq> None \<Longrightarrow> avail w' = tl (avail w) \<Longrightarrow> live w' = live w \<Longrightarrow>
             faults w' = faults w \<Longrightarrow> Q (0, Some (mkstr (34 # str_val st @ [34]))) w'"
  shows "wp (STRING_quote (Some st)) Q w"
proof -
  let ?z = "str_s st" let ?n = "length (c_str ?z)"
  have wf: "is_cstr ?z" using assms(1) by (simp add: str_wf_def)
  have moved: "(put (c_str ?z @ zs) (Suc 0) (c_str ?z))[0 := 34, Suc ?n := 34, Suc (Suc ?n) := 0]
      = (34 # c_str ?z @ [34]) @ [0]" if len3: "length zs = 3" for zs
  proof -
    obtain a b c where zs: "zs = [a, b, c]"
      using len3 by (auto simp: numeral_3_eq_3 length_Suc_conv)
    have hd: "take (Suc 0) (c_str ?z @ zs) = [hd (c_str ?z @ zs)]"
      using len3 by (cases "c_str ?z @ zs") auto
    have "drop (Suc ?n) (c_str ?z @ zs) = [b, c]"
      by (simp add: zs)
    then show ?thesis
      unfolding put_def hd by (simp add: list_update_append)
  qed
  have quoted: "st\<lparr>str_s := 34 # c_str ?z @ [34, 0]\<rparr> = mkstr (34 # c_str ?z @ [34])"
    using STRING_update [of "34 # c_str ?z @ [34]" st] by simp
  show ?thesis
    unfolding STRING_quote_def using assms wf
    by (auto intro!: wp_realloc_str [where k = 3] simp: moved quoted str_val_def)
qed

declare STRING_replace_loop.simps [simp del]

lemma wp_STRING_replace_loop [simp]:
  "i \<le> n \<Longrightarrow> n \<le> length s \<Longrightarrow>
   wp (STRING_replace_loop s i n a b) Q w =
     Q (take i s @ map (\<lambda>c. if c = a then b else c) (take (n - i) (drop i s)) @ drop n s) w"
proof (induction s i n a b rule: STRING_replace_loop.induct)
  case (1 s i n a b)
  show ?case
  proof (cases "i < n")
    case True
    let ?c = "if s ! i = a then b else s ! i"
    have split: "take (n - i) (drop i s) = s ! i # take (n - Suc i) (drop (Suc i) s)"
      using True 1 by (simp add: Suc_diff_Suc Cons_nth_drop_Suc [symmetric] flip: take_Suc_Cons)
    have "wp (STRING_replace_loop s i n a b) Q w = wp (STRING_replace_loop (s[i := ?c]) (Suc i) n a b) Q w"
      using True 1 by (simp add: STRING_replace_loop.simps [of s i n a b])
    also have "\<dots> = Q (take (Suc i) (s[i := ?c]) @
        map (\<lambda>c. if c = a then b else c) (take (n - Suc i) (drop (Suc i) (s[i := ?c]))) @ drop n (s[i := ?c])) w"
      using True 1 by simp
    finally show ?thesis
      using True 1 by (simp add: split take_Suc_conv_app_nth)
  next
    case False
    with 1 show ?thesis by (simp add: STRING_replace_loop.simps [of s n n a b])
  qed
qed

lemma wp_STRING_replace [wp_intros]:
  assumes "str_wf st"
    and "\<And>st'. str_wf st' \<Longrightarrow> str_val st' = c_str (map (\<lambda>c. if c = a then b else c) (str_val st)) \<Longrightarrow>
             Q (0, Some st') w"
  shows "wp (STRING_replace (Some st) a b) Q w"
proof (cases "a = b")
  case True
  then show ?thesis
    using assms by (simp add: STRING_replace_def c_str_id if_distrib cong: if_cong)
next
  case False
  let ?z = "str_s st" and ?f = "\<lambda>c. if c = a then b else c"
  have wf: "is_cstr ?z" using assms(1) by (simp add: str_wf_def)
  obtain r where z: "?z = c_str ?z @ 0 # r" using is_cstr_split [OF wf] by blast
  have rest: "drop (length (c_str ?z)) ?z = 0 # r" by (subst (2) z) simp
  have cut: "c_str (xs @ 0 # r) = c_str xs" for xs
    by (induction xs) (auto simp: c_str_def)
  have "Q (0, Some (st\<lparr>str_s := map ?f (c_str ?z) @ 0 # r\<rparr>)) w"
    by (rule assms(2)) (simp_all add: str_wf_def str_val_def cut)
  then show ?thesis
    unfolding STRING_replace_def using False wf length_c_str_le [of ?z]
    by (simp add: rest)
qed

lemma wp_STRING_construct_n [wp_intros]:
  assumes "is_cstr z" "length (c_str z) + 1 < SIZE_MOD" "n \<le> length (c_str z)"
    and "\<And>w'. \<not> plenty 2 w \<Longrightarrow> live w' = live w \<Longrightarrow> faults w' = faults w \<Longrightarrow> Q None w'"
    and "\<And>st w'. str_wf st \<Longrightarrow> str_val st = take n (c_str z) \<Longrightarrow> avail w' = drop 2 (avail w) \<Longrightarrow>
             live w' = live w + 2 \<Longrightarrow> faults w' = faults w \<Longrightarrow> Q (Some st) w'"
  shows "wp (STRING_construct_n (Some z) n) Q w"
proof -
  have zn: "take n z = take n (c_str z)" using assms(3) by (rule take_n_c_str)
  have le: "n \<le> length z" using assms(3) length_c_str_le [of z] by linarith
  have block: "\<exists>r. (put t 0 (take n (c_str z)))[n := 0] = take n (c_str z) @ 0 # r"
    if len: "length t = Suc (length (c_str z))" for t :: "u8 list"
  proof -
    have "length (take n (c_str z)) = n" using assms(3) by simp
    moreover obtain u r where "drop n t = u # r" using len assms(3) by (cases "drop n t") auto
    ultimately show ?thesis by (simp add: put_0 list_update_append)
  qed
  have nz: "0 \<notin> set (take n (c_str z))"
    using c_str_nozero [of z] by (meson in_set_takeD)
  have made: "Q (Some \<lparr>str_s = (put t 0 (take n (c_str z)))[n := 0]\<rparr>) w'"
    if "length t = Suc (length (c_str z))" "avail w' = drop 2 (avail w)" "live w' = live w + 2"
      "faults w' = faults w" for t w'
    using block [OF that(1)] assms(5) [OF _ _ that(2-4)] nz
    by (auto simp: str_wf_def str_val_def)
  show ?thesis
    unfolding STRING_construct_n_def using assms(1-4) le
    by (auto intro!: wp_new wp_malloc made simp: zn starved drop_Suc numeral_2_eq_2)
qed

lemma wp_STRING_from_byte_array [wp_intros]:
  assumes "n \<le> length (blk src)" "n + 1 < SIZE_MOD" "src = None \<Longrightarrow> n = 0"
    and "\<And>w'. \<not> plenty 2 w \<Longrightarrow> live w' = live w \<Longrightarrow> faults w' = faults w \<Longrightarrow> Q None w'"
    and "\<And>w'. avail w' = drop 2 (avail w) \<Longrightarrow> live w' = live w + 2 \<Longrightarrow> faults w' = faults w \<Longrightarrow>
             Q (Some (mkstr (take n (blk src)))) w'"
  shows "wp (STRING_from_byte_array src n) Q w"
proof -
  have block: "(put t 0 xs)[n := 0] = xs @ [0]"
    if "length t = Suc n" "length xs = n" for t xs :: "u8 list"
    using that by (simp add: list_update_eq_put put_0 put_tail)
  have "t[0 := 0] = [0]" if "length t = Suc 0" for t :: "u8 list"
    using that by (cases t) auto
  note block = block this
  show ?thesis
    unfolding STRING_from_byte_array_def using assms
    by (auto intro!: wp_new wp_malloc
        simp: block starved drop_Suc numeral_2_eq_2 mkstr_def split: option.splits)
qed

lemma wp_STRING_new_quoted [wp_intros]:
  assumes "is_cstr z" "length (c_str z) + 3 < SIZE_MOD"
    and "\<And>w'. \<not> plenty 2 w \<Longrightarrow> live w' = live w \<Longrightarrow> faults w' = faults w \<Longrightarrow> Q None w'"
    and "\<And>w'. avail w' = drop 2 (avail w) \<Longrightarrow> live w' = live w + 2 \<Longrightarrow> faults w' = faults w \<Longrightarrow>
             Q (Some (mkstr (34 # c_str z @ [34]))) w'"
  shows "wp (STRING_new_quoted (Some z)) Q w"
proof -
  let ?n = "length (c_str z)"
  have block: "\<lparr>str_s = (put (t[0 := 34]) (Suc 0) (c_str z))[Suc ?n := 34, Suc (Suc ?n) := 0]\<rparr>
      = mkstr (34 # c_str z @ [34])" if len: "length t = ?n + 3" for t :: "u8 list"
  proof -
    obtain u t' where t: "t = u # t'" "length t' = ?n + 2" using len by (cases t) auto
    obtain a b where ab: "drop ?n t' = [a, b]"
      using length_2E [of "drop ?n t'"] t(2) by auto
    show ?thesis
      by (simp add: t put_def ab mkstr_def list_update_append)
  qed
  show ?thesis
    unfolding STRING_new_quoted_def using assms length_c_str_le [of z]
    by (auto intro!: wp_new wp_malloc simp: block starved drop_Suc numeral_2_eq_2)
qed

lemma wp_STRING_new_with_memory [wp_intros]:
  assumes "\<And>w'. next_alloc w = None \<Longrightarrow> live w' = live w \<Longrightarrow> faults w' = faults w \<Longrightarrow> Q None w'"
    and "\<And>w'. avail w' = tl (avail w) \<Longrightarrow> live w' = live w + 1 \<Longrightarrow> faults w' = faults w \<Longrightarrow>
             Q (Some \<lparr>str_s = z\<rparr>) w'"
  shows "wp (STRING_new_with_memory (Some z)) Q w"
  unfolding STRING_new_with_memory_def using assms by (auto intro!: wp_new)

lemma wp_STRING_construct_sprintf [wp_intros]:
  assumes "0 \<notin> set t" "length t + 1 < SIZE_MOD"
    and "\<And>w'. \<not> plenty 2 w \<Longrightarrow> live w' = live w \<Longrightarrow> faults w' = faults w \<Longrightarrow> Q None w'"
    and "\<And>w'. avail w' = drop 2 (avail w) \<Longrightarrow> live w' = live w + 2 \<Longrightarrow> faults w' = faults w \<Longrightarrow>
             Q (Some (mkstr t)) w'"
  shows "wp (STRING_construct_sprintf True (Some t) (Some t)) Q w"
proof (cases t)
  case Nil
  then show ?thesis
    using assms by (auto intro!: wp_STRING_new simp: STRING_construct_sprintf_def c_vsnprintf_def)
next
  case (Cons c cs)
  then have "0 < int (length t)" by simp
  then show ?thesis
    unfolding STRING_construct_sprintf_def c_vsnprintf_def using assms
    by (auto intro!: wp_new wp_malloc simp: starved drop_Suc numeral_2_eq_2 simp flip: mkstr_def)
qed

section \<open>JSON strings\<close>

text \<open>What the counting loop finds in a text of 7-bit characters is the length of the escaped text.\<close>

lemma length_JSON_escape:
  "length (JSON_escape c) = (if c \<le> 0x1F then 6 else if c = 34 \<or> c = 92 \<or> c = 47 then 2 else 1)"
  by (simp add: JSON_escape_def)

lemma JSON_count_ascii:
  assumes "\<forall>c \<in> set cs. c < 128"
  shows "JSON_count cs i k m = (i + length cs, k + length (filter (\<lambda>c. c \<le> 0x1F) cs),
           m + length (filter (\<lambda>c. \<not> c \<le> 0x1F \<and> (c = 34 \<or> c = 92 \<or> c = 47)) cs))"
  using assms
proof (induction cs arbitrary: i k m)
  case (Cons c cs)
  from Cons.prems have "\<not> 128 \<le> c" by (simp add: not_le)
  with Cons.prems Cons.IH show ?case by (simp del: not_le)
qed simp

lemma length_JSON_text:
  "length (concat (map JSON_escape cs)) = length cs + 5 * length (filter (\<lambda>c. c \<le> 0x1F) cs) +
     length (filter (\<lambda>c. \<not> c \<le> 0x1F \<and> (c = 34 \<or> c = 92 \<or> c = 47)) cs)"
  by (induction cs) (simp_all add: length_JSON_escape)

lemma JSON_count_stops:
  "\<exists>c \<in> set cs. 128 \<le> c \<Longrightarrow> fst (JSON_count cs i k m) < i + length cs"
proof (induction cs arbitrary: i k m)
  case (Cons c cs)
  show ?case
  proof (cases "128 \<le> c")
    case False
    with Cons.prems have "\<exists>c \<in> set cs. 128 \<le> c" by auto
    note IH = Cons.IH [OF this, of "Suc i"]
    from False IH show ?thesis by simp
  qed simp
qed simp

lemma wp_JSON_write [simp]:
  "pos + length (concat (map JSON_escape cs)) \<le> length s \<Longrightarrow>
   wp (JSON_write cs s pos) Q w =
     Q (put s pos (concat (map JSON_escape cs)), pos + length (concat (map JSON_escape cs))) w"
proof (induction cs arbitrary: s pos)
  case (Cons c cs)
  have "put (put s pos (JSON_escape c)) (pos + length (JSON_escape c)) (concat (map JSON_escape cs)) =
    put s pos (JSON_escape c @ concat (map JSON_escape cs))"
    using Cons.prems by (intro put_put_adjacent) simp
  then show ?case using Cons by (simp add: add.assoc)
qed simp

lemma wp_STRING_new_JSON [wp_intros]:
  assumes "is_cstr z" "\<forall>c \<in> set (c_str z). c < 128"
    and "length (concat (map JSON_escape (c_str z))) + 3 < SIZE_MOD"
    and "\<And>w'. \<not> plenty 2 w \<Longrightarrow> live w' = live w \<Longrightarrow> faults w' = faults w \<Longrightarrow> Q None w'"
    and "\<And>w'. avail w' = drop 2 (avail w) \<Longrightarrow> live w' = live w + 2 \<Longrightarrow> faults w' = faults w \<Longrightarrow>
             Q (Some (mkstr (34 # concat (map JSON_escape (c_str z)) @ [34]))) w'"
  shows "wp (STRING_new_JSON (Some z)) Q w"
proof -
  define e where "e = concat (map JSON_escape (c_str z))"
  let ?n = "length e"
  obtain x y where count: "JSON_count (c_str z) 0 0 0 = (length (c_str z), x, y)"
    and xy: "length (c_str z) + 5 * x + y = ?n"
    using JSON_count_ascii [OF assms(2), of 0 0 0] length_JSON_text [of "c_str z"]
    by (simp add: e_def)
  have block: "\<lparr>str_s = (put (t[0 := 34]) (Suc 0) e)[Suc ?n := 34, Suc (Suc ?n) := 0]\<rparr>
      = mkstr (34 # e @ [34])" if len: "length t = ?n + 3" for t :: "u8 list"
  proof -
    obtain u t' where t: "t = u # t'" "length t' = ?n + 2" using len by (cases t) auto
    obtain a b where ab: "drop ?n t' = [a, b]"
      using length_2E [of "drop ?n t'"] t(2) by auto
    show ?thesis
      by (simp add: t put_def ab mkstr_def list_update_append)
  qed
  show ?thesis
    unfolding STRING_new_JSON_def using assms
    by (auto intro!: wp_new wp_malloc
        simp: count xy block starved drop_Suc numeral_2_eq_2 simp flip: e_def)
qed

lemma wp_STRING_new_JSON_rejected:
  assumes "is_cstr z" "\<exists>c \<in> set (c_str z). 128 \<le> c"
  shows "wp (STRING_new_JSON (Some z)) Q w = Q None w"
  using assms(1) JSON_count_stops [OF assms(2), of 0 0 0]
  by (cases "JSON_count (c_str z) 0 0 0") (simp add: STRING_new_JSON_def)

text \<open>A reader of JSON string literals (RFC 8259, section 7), for the characters below 128: the
  specification the escaped text is checked against.\<close>

definition hex_digit :: "u8 \<Rightarrow> nat option" where
  "hex_digit c =
     (if 48 \<le> c \<and> c \<le> 57 then Some (unat c - 48)
      else if 65 \<le> c \<and> c \<le> 70 then Some (unat c - 55)
      else if 97 \<le> c \<and> c \<le> 102 then Some (unat c - 87)
      else None)"

definition hex4 :: "u8 \<Rightarrow> u8 \<Rightarrow> u8 \<Rightarrow> u8 \<Rightarrow> nat option" where
  "hex4 a b c d =
     (case (hex_digit a, hex_digit b, hex_digit c, hex_digit d) of
        (Some x, Some y, Some z, Some u) \<Rightarrow> Some (x * 4096 + y * 256 + z * 16 + u)
      | _ \<Rightarrow> None)"

definition json_simple_escape :: "u8 \<Rightarrow> u8 option" where
  "json_simple_escape c =
     (if c = 34 \<or> c = 92 \<or> c = 47 then Some c
      else if c = 98 then Some 8 else if c = 102 then Some 12 else if c = 110 then Some 10
      else if c = 114 then Some 13 else if c = 116 then Some 9 else None)"

text \<open>The characters up to the closing quote, and what follows it.\<close>

fun json_chars :: "nat \<Rightarrow> u8 list \<Rightarrow> (u8 list \<times> u8 list) option" where
  "json_chars 0 s = None"
| "json_chars (Suc fuel) [] = None"
| "json_chars (Suc fuel) (c # s) =
     (if c = 34 then Some ([], s)
      else if c \<le> 0x1F then None
      else if c \<noteq> 92 then map_option (map_prod ((#) c) id) (json_chars fuel s)
      else (case s of
              [] \<Rightarrow> None
            | e # s1 \<Rightarrow>
                if e = 117 then
                  (case s1 of
                     h1 # h2 # h3 # h4 # s2 \<Rightarrow>
                       (case hex4 h1 h2 h3 h4 of
                          Some v \<Rightarrow> if v < 128 then map_option (map_prod ((#) (of_nat v)) id) (json_chars fuel s2)
                                    else None
                        | None \<Rightarrow> None)
                   | _ \<Rightarrow> None)
                else (case json_simple_escape e of
                        Some v \<Rightarrow> map_option (map_prod ((#) v) id) (json_chars fuel s1)
                      | None \<Rightarrow> None)))"

definition json_string :: "u8 list \<Rightarrow> u8 list option" where
  "json_string s =
     (case s of
        [] \<Rightarrow> None
      | q # cs \<Rightarrow>
          if q = 34 then
            (case json_chars (length cs) cs of Some (v, []) \<Rightarrow> Some v | _ \<Rightarrow> None)
          else None)"

lemma control_chars:
  assumes "(c :: u8) \<le> 0x1F"
  shows "c \<in> set (map of_nat [0..<32])"
  using assms by (auto simp: word_le_nat_alt intro!: image_eqI [of _ _ "unat c"])

lemma json_chars_escape:
  assumes "c < 128"
  shows "json_chars (Suc fuel) (JSON_escape c @ s) = map_option (map_prod ((#) c) id) (json_chars fuel s)"
proof (cases "c \<le> 0x1F")
  case True
  have "\<forall>c \<in> set (map (of_nat :: nat \<Rightarrow> u8) [0..<32]). hex4 48 48 (hexToASCII ! unat (drop_bit 4 (c AND 0xF0)))
          (hexToASCII ! unat (c AND 0x0F)) = Some (unat c)"
    by code_simp
  moreover have "c \<in> set (map of_nat [0..<32])" using True by (rule control_chars)
  ultimately have "hex4 48 48 (hexToASCII ! unat (drop_bit 4 (c AND 0xF0))) (hexToASCII ! unat (c AND 0x0F))
      = Some (unat c)" by blast
  moreover have "unat c < 128" using assms by (simp add: word_less_nat_alt)
  ultimately show ?thesis using True by (simp add: JSON_escape_def)
next
  case False
  then show ?thesis by (simp add: JSON_escape_def json_simple_escape_def)
qed

lemma json_chars_text:
  "\<forall>c \<in> set cs. c < 128 \<Longrightarrow> length cs < fuel \<Longrightarrow>
   json_chars fuel (concat (map JSON_escape cs) @ 34 # s) = Some (cs, s)"
proof (induction cs arbitrary: fuel)
  case Nil
  then show ?case by (cases fuel) auto
next
  case (Cons c cs)
  obtain k where k: "fuel = Suc k" using Cons.prems(2) by (cases fuel) auto
  have c: "c < 128" using Cons.prems(1) by simp
  have IH: "json_chars k (concat (map JSON_escape cs) @ 34 # s) = Some (cs, s)"
    using Cons.prems k by (intro Cons.IH) auto
  show ?case
    unfolding k using json_chars_escape [OF c, of k "concat (map JSON_escape cs) @ 34 # s"]
    by (simp only: list.map concat.simps append_assoc IH) simp
qed

lemma json_string_text:
  assumes "\<forall>c \<in> set cs. c < 128"
  shows "json_string (34 # concat (map JSON_escape cs) @ [34]) = Some cs"
proof -
  have "length cs < length (concat (map JSON_escape cs) @ [34 :: u8])"
    by (simp add: length_JSON_text)
  from json_chars_text [OF assms this] show ?thesis
    by (simp add: json_string_def)
qed

lemma JSON_text_nozero: "0 \<notin> set (concat (map JSON_escape cs))"
proof -
  have "0 \<notin> set (JSON_escape c)" for c
  proof (cases "c \<le> 0x1F")
    case True
    have "\<forall>c \<in> set (map (of_nat :: nat \<Rightarrow> u8) [0..<32]). 0 \<notin> set (JSON_escape c)"
      by code_simp
    then show ?thesis using control_chars [OF True] by blast
  next
    case False
    then have "c \<noteq> 0" by auto
    with False show ?thesis by (simp add: JSON_escape_def)
  qed
  then show ?thesis by simp
qed

section \<open>The contract of the mutating operations\<close>

datatype str_op =
    Concat "u8 list option"
  | ConcatString "STRING option"
  | Copy bool "u8 list option"
  | CopyN "u8 list option" nat
  | Sprintf bool "u8 list option" "u8 list option"
  | Quote
  | Empty
  | Replace u8 u8

fun str_exec :: "str_op \<Rightarrow> STRING option \<Rightarrow> (int \<times> STRING option) cm" where
  "str_exec (Concat s2) h = STRING_concat h s2"
| "str_exec (ConcatString s2) h = STRING_concat_with_STRING h s2"
| "str_exec (Copy same s2) h = STRING_copy same h s2"
| "str_exec (CopyN s2 n) h = STRING_copy_n h s2 n"
| "str_exec (Sprintf format out1 out2) h = STRING_sprintf h format out1 out2"
| "str_exec Quote h = STRING_quote h"
| "str_exec Empty h = STRING_empty h"
| "str_exec (Replace target replace) h = STRING_replace h target replace"

text \<open>The caller's side: pointers are null or lead to NUL-terminated strings; the writing call of
  \<open>vsnprintf\<close> formats the text the measuring call measured, or fails.\<close>

fun cstr_arg :: "u8 list option \<Rightarrow> bool" where
  "cstr_arg None = True"
| "cstr_arg (Some z) = (is_cstr z \<and> length (c_str z) + 1 < SIZE_MOD)"

fun str_args_ok :: "str_op \<Rightarrow> bool" where
  "str_args_ok (Concat s2) = cstr_arg s2"
| "str_args_ok (ConcatString s2) = (case s2 of None \<Rightarrow> True | Some st \<Rightarrow> str_wf st)"
| "str_args_ok (Copy same s2) = cstr_arg s2"
| "str_args_ok (CopyN s2 n) = cstr_arg s2"
| "str_args_ok (Sprintf format out1 out2) =
     (case out1 of None \<Rightarrow> True | Some t \<Rightarrow> 0 \<notin> set t \<and> (out2 = None \<or> out2 = Some t))"
| "str_args_ok _ = True"

definition arg_text :: "u8 list option \<Rightarrow> u8 list" where
  "arg_text s = (case s of None \<Rightarrow> [] | Some z \<Rightarrow> c_str z)"

definition handle_text :: "STRING option \<Rightarrow> u8 list" where
  "handle_text h = (case h of None \<Rightarrow> [] | Some st \<Rightarrow> str_val st)"

text \<open>By how much a call can lengthen the string, the terminator's byte included.\<close>

fun str_growth :: "str_op \<Rightarrow> nat" where
  "str_growth (Concat s2) = length (arg_text s2) + 1"
| "str_growth (ConcatString s2) = length (handle_text s2) + 1"
| "str_growth (Copy same s2) = length (arg_text s2) + 1"
| "str_growth (CopyN s2 n) = length (arg_text s2) + 1"
| "str_growth (Sprintf format out1 out2) = length (blk out1) + 1"
| "str_growth Quote = 3"
| "str_growth _ = 0"

fun str_pre :: "str_op \<Rightarrow> u8 list \<Rightarrow> bool" where
  "str_pre (Concat s2) a = (s2 \<noteq> None)"
| "str_pre (ConcatString s2) a = (s2 \<noteq> None)"
| "str_pre (Copy same s2) a = (s2 \<noteq> None)"
| "str_pre (CopyN s2 n) a = (s2 \<noteq> None)"
| "str_pre (Sprintf format out1 out2) a = (format \<and> out1 \<noteq> None \<and> (out1 = Some [] \<or> out2 \<noteq> None))"
| "str_pre _ a = True"

fun str_post :: "str_op \<Rightarrow> u8 list \<Rightarrow> u8 list \<Rightarrow> bool" where
  "str_post (Concat s2) a a' = (a' = a @ arg_text s2)"
| "str_post (ConcatString s2) a a' = (a' = a @ handle_text s2)"
| "str_post (Copy same s2) a a' = (a' = (if same then a else arg_text s2))"
| "str_post (CopyN s2 n) a a' = (a' = take n (arg_text s2))"
| "str_post (Sprintf format out1 out2) a a' = (a' = a @ blk out1)"
| "str_post Quote a a' = (a' = 34 # a @ [34])"
| "str_post Empty a a' = (a' = [])"
| "str_post (Replace target replace) a a' =
     (a' = c_str (map (\<lambda>c. if c = target then replace else c) a))"

definition str_size :: "STRING \<Rightarrow> nat" where
  "str_size st = length (str_val st)"

definition str_spec :: "str_op \<Rightarrow> int \<Rightarrow> u8 list \<Rightarrow> u8 list \<Rightarrow> bool" where
  "str_spec op r a a' = (if r = 0 then str_pre op a \<and> str_post op a a' else a' = a)"

definition str_oom :: "str_op \<Rightarrow> int \<Rightarrow> u8 list \<Rightarrow> bool" where
  "str_oom op r a \<longleftrightarrow> r \<noteq> 0 \<and> str_pre op a"

definition str_step_ok :: "str_op \<Rightarrow> STRING \<Rightarrow> world \<Rightarrow> int \<times> STRING option \<Rightarrow> world \<Rightarrow> bool" where
  "str_step_ok op st w = (\<lambda>(r, h1) w'. \<exists>h'. h1 = Some h' \<and> str_wf h' \<and>
     str_size h' \<le> str_size st + str_growth op \<and>
     faults w' = faults w \<and> live w' - live w = str_blocks (Some h') - str_blocks (Some st) \<and>
     str_spec op r (str_val st) (str_val h') \<and> (str_oom op r (str_val st) \<longrightarrow> \<not> plenty 1 w))"

lemma str_step_failed:
  "str_wf st \<Longrightarrow> str_wf st' \<Longrightarrow> str_val st' = str_val st \<Longrightarrow>
   \<not> str_pre op (str_val st) \<or> next_alloc w = None \<Longrightarrow> live w' = live w \<Longrightarrow> faults w' = faults w \<Longrightarrow>
   str_step_ok op st w (FAILURE, Some st') w'"
  using not_plenty_next [of w 1] by (auto simp: str_step_ok_def str_size_def str_spec_def str_oom_def)

lemma str_step_done:
  "str_wf st' \<Longrightarrow> length (str_val st') \<le> length (str_val st) + str_growth op \<Longrightarrow> str_pre op (str_val st) \<Longrightarrow>
   str_post op (str_val st) (str_val st') \<Longrightarrow> live w' = live w \<Longrightarrow> faults w' = faults w \<Longrightarrow>
   str_step_ok op st w (0, Some st') w'"
  by (simp add: str_step_ok_def str_size_def str_spec_def str_oom_def)

lemmas str_step_intros = str_step_failed str_step_done

text \<open>A \<open>sprintf\<close> whose writing call fails puts the terminator back where it was.\<close>

lemma STRING_sprintf_second_fails:
  assumes "str_wf st" "t \<noteq> []" "length (str_val st) + length t + 1 < SIZE_MOD"
  shows "wp (STRING_sprintf (Some st) True (Some t) None) (str_step_ok (Sprintf True (Some t) None) st w) w"
proof -
  have wf: "is_cstr (str_s st)" using assms(1) by (simp add: str_wf_def)
  have restored: "str_wf (st\<lparr>str_s := (str_val st @ zs)[length (str_val st) := 0]\<rparr>) \<and>
      str_val (st\<lparr>str_s := (str_val st @ zs)[length (str_val st) := 0]\<rparr>) = str_val st"
    if "length zs = Suc (length t)" for zs
    using that by (cases zs) (auto simp: str_wf_def str_val_def)
  show ?thesis
    unfolding STRING_sprintf_def c_vsnprintf_def using assms wf
    by (auto intro!: wp_realloc_str [where k = "Suc (length t)"] str_step_failed
        simp: restored simp flip: str_val_def)
qed

lemma STRING_sprintf_step:
  assumes "str_wf st" "str_args_ok (Sprintf format out1 out2)" "length (str_val st) + length (blk out1) + 1 < SIZE_MOD"
  shows "wp (STRING_sprintf (Some st) format out1 out2) (str_step_ok (Sprintf format out1 out2) st w) w"
proof -
  consider "\<not> format \<or> out1 = None" | "format" "out1 = Some []"
    | t where "format" "out1 = Some t" "t \<noteq> []" "out2 = None"
    | t where "format" "out1 = Some t" "t \<noteq> []" "out2 = Some t" "0 \<notin> set t"
    using assms(2) by (cases out1) auto
  then show ?thesis
  proof cases
    case 1
    then show ?thesis using assms(1)
      by (cases format) (auto simp: STRING_sprintf_def c_vsnprintf_def intro!: str_step_failed)
  next
    case 2
    then show ?thesis using assms(1)
      by (auto simp: STRING_sprintf_def c_vsnprintf_def intro!: str_step_done)
  next
    case 3
    then show ?thesis using assms by (simp add: STRING_sprintf_second_fails)
  next
    case 4
    then show ?thesis using assms by (auto intro!: wp_STRING_sprintf str_step_intros)
  qed
qed

lemma STRING_concat_step:
  assumes "str_wf st" "cstr_arg s2" "length (str_val st) + length (arg_text s2) + 1 < SIZE_MOD"
  shows "wp (STRING_concat (Some st) s2) (str_step_ok (Concat s2) st w) w"
proof (cases s2)
  case None
  then show ?thesis using assms(1) by (auto simp: STRING_concat_def intro!: str_step_failed)
next
  case (Some z)
  then show ?thesis using assms by (auto intro!: wp_STRING_concat str_step_intros simp: arg_text_def)
qed

lemma STRING_concat_with_STRING_step:
  assumes "str_wf st" "case s2 of None \<Rightarrow> True | Some st2 \<Rightarrow> str_wf st2"
    "length (str_val st) + length (handle_text s2) + 1 < SIZE_MOD"
  shows "wp (STRING_concat_with_STRING (Some st) s2) (str_step_ok (ConcatString s2) st w) w"
proof (cases s2)
  case None
  then show ?thesis using assms(1) by (auto simp: STRING_concat_with_STRING_def intro!: str_step_failed)
next
  case (Some z)
  then show ?thesis
    using assms by (auto intro!: wp_STRING_concat_with_STRING str_step_intros simp: handle_text_def)
qed

lemma STRING_copy_step:
  assumes "str_wf st" "cstr_arg s2"
  shows "wp (STRING_copy same (Some st) s2) (str_step_ok (Copy same s2) st w) w"
proof (cases s2)
  case None
  then show ?thesis using assms(1) by (auto simp: STRING_copy_def intro!: str_step_failed)
next
  case (Some z)
  show ?thesis
  proof (cases same)
    case True
    then show ?thesis using assms Some by (auto intro!: str_step_done simp: STRING_copy_def)
  next
    case False
    then show ?thesis using assms Some by (auto intro!: wp_STRING_copy str_step_intros simp: arg_text_def)
  qed
qed

lemma STRING_copy_n_step:
  assumes "str_wf st" "cstr_arg s2"
  shows "wp (STRING_copy_n (Some st) s2 n) (str_step_ok (CopyN s2 n) st w) w"
proof (cases s2)
  case None
  then show ?thesis using assms(1) by (auto simp: STRING_copy_n_def intro!: str_step_failed)
next
  case (Some z)
  moreover have "0 \<notin> set (take n (c_str z))"
    using c_str_nozero [of z] by (meson in_set_takeD)
  ultimately show ?thesis
    using assms by (auto intro!: wp_STRING_copy_n str_step_intros simp: arg_text_def)
qed

lemma str_exec_ok:
  assumes "str_wf st" "str_args_ok op" "str_size st + str_growth op < SIZE_MOD"
  shows "wp (str_exec op (Some st)) (str_step_ok op st w) w"
proof (cases op)
  case Quote
  then show ?thesis
    using assms by (auto intro!: wp_STRING_quote str_step_intros simp: str_size_def)
next
  case Empty
  then show ?thesis
    using assms by (auto intro!: wp_STRING_empty str_step_intros)
next
  case (Replace a b)
  then show ?thesis
    using assms length_c_str_le [of "map (\<lambda>c. if c = a then b else c) (str_val st)"]
    by (auto intro!: wp_STRING_replace str_step_done)
qed (use assms in \<open>simp_all add: STRING_concat_step STRING_concat_with_STRING_step STRING_copy_step
    STRING_copy_n_step STRING_sprintf_step str_size_def del: str_args_ok.simps(5)\<close>)

interpretation str: c_owned str_exec str_wf str_val str_size str_blocks str_args_ok str_growth
  "\<lambda>_. 1" str_spec str_oom STRING_new 2 STRING_delete "[]"
proof (unfold_locales, goal_cases)
  case (1 h op w)
  show ?case
    using str_exec_ok [OF 1, of w] by (simp only: str_step_ok_def)
next
  case (2 w)
  show ?case
    by (rule wp_STRING_new) (simp_all add: str_size_def)
qed simp

section \<open>Properties\<close>

text \<open>C6. Any sequence of calls on a well-formed string, whatever the allocator does: the block stays
  NUL-terminated, no access leaves it, no block is gained or lost, a call that reports success did to
  the text what its specification says, and a call that reports failure left the text as it was.\<close>

theorem string_calls_refine:
  assumes "str_wf st" "\<forall>op \<in> set ops. str_args_ok op" "str_size st + sum_list (map str_growth ops) < SIZE_MOD"
  shows "wp (run_ops str_exec ops (Some st)) (\<lambda>(rs, h) w'. \<exists>st'. h = Some st' \<and> str_wf st' \<and>
           faults w' = faults w \<and> live w' - live w = str_blocks (Some st') - str_blocks (Some st) \<and>
           spec_run str_spec ops rs (str_val st) (str_val st')) w"
  using assms by (rule str.run_correct)

theorem string_calls_refine_witness:
  "wp (run_ops str_exec [Concat (Some (clit ''b/c'')), Replace 47 46, Quote, CopyN (Some (clit ''xyz'')) 2]
         (Some (mkstr [97])))
     (\<lambda>(rs, h) w'. \<exists>st'. h = Some st' \<and> str_wf st' \<and> faults w' = 0 \<and>
        live w' - 2 = str_blocks (Some st') - str_blocks (Some (mkstr [97])) \<and>
        spec_run str_spec
          [Concat (Some (clit ''b/c'')), Replace 47 46, Quote, CopyN (Some (clit ''xyz'')) 2] rs
          (str_val (mkstr [97])) (str_val st'))
     \<lparr>avail = [Some (\<lambda>_. 5), None, Some (\<lambda>_. 9)], live = 2, faults = 0\<rparr>"
  by (rule wp_mono [OF string_calls_refine])
    (simp_all add: SIZE_MOD_def str_size_def arg_text_def, simp_all add: clit_def c_str_def)

text \<open>Creating a string, any calls on it and deleting it gives every block back.\<close>

lemma string_lifecycle:
  assumes "\<forall>op \<in> set ops. str_args_ok op" "sum_list (map str_growth ops) < SIZE_MOD"
  shows "wp (do { h \<leftarrow> STRING_new; if h = None then ret None
                  else do { (rs, h') \<leftarrow> run_ops str_exec ops h; STRING_delete h'; ret (Some rs) } })
     (\<lambda>out w'. live w' = live w \<and> faults w' = faults w \<and>
        (case out of None \<Rightarrow> \<not> plenty 2 w
         | Some rs \<Rightarrow> \<exists>a. spec_run str_spec ops rs [] a)) w"
  using assms by (rule str.lifecycle)

text \<open>\<open>STRING_new_JSON\<close> on a text of 7-bit characters gives a JSON string literal that a JSON
  reader reads back as exactly that text, or \<open>NULL\<close> when memory is short; nothing leaks and no byte
  outside the block is written, so the length the counting loop computed is right.\<close>

lemma STRING_new_JSON_roundtrip:
  assumes "is_cstr z" "\<forall>c \<in> set (c_str z). c < 128" "6 * length (c_str z) + 3 < SIZE_MOD"
  shows "wp (STRING_new_JSON (Some z)) (\<lambda>h w'. faults w' = faults w \<and> live w' = live w + str_blocks h \<and>
     (case h of None \<Rightarrow> \<not> plenty 2 w
      | Some st \<Rightarrow> str_wf st \<and> json_string (str_val st) = Some (c_str z))) w"
proof (rule wp_STRING_new_JSON)
  have "length (concat (map JSON_escape cs)) \<le> 6 * length cs" for cs
    by (induction cs) (simp_all add: length_JSON_escape)
  from this [of "c_str z"] show "length (concat (map JSON_escape (c_str z))) + 3 < SIZE_MOD"
    using assms(3) by linarith
qed (use assms JSON_text_nozero [of "c_str z"] json_string_text in auto)

end
