(* ===== verification/Crt.thy ===== *)
theory Crt
  imports Prelude
begin

text \<open>
  The bounded string functions and the number printers of \<open>c-utility/src/crt_abstractions.c\<close>, and
  the number printers of \<open>cores/esp32/stdlib_noniso.c\<close>. A destination is the block behind the pointer
  (\<open>None\<close> for \<open>NULL\<close>); its declared size is a separate argument, as in the source. The conversions to
  floating point and \<open>strtoull_s\<close> are not modelled.
\<close>

definition EINVAL :: int where "EINVAL = 22"
definition ENOMEM :: int where "ENOMEM = 12"
definition ERANGE :: int where "ERANGE = 34"
definition STRUNCATE :: int where "STRUNCATE = 80"

definition TRUNCATE :: nat where
  "TRUNCATE = SIZE_MOD - 1"

section \<open>Copying and concatenating\<close>

text \<open>\<open>strncpy (dst + off, src, n)\<close> of the C library: \<open>n\<close> bytes are written, the text cut or padded
  with zeros.\<close>

definition c_strncpy :: "u8 list \<Rightarrow> nat \<Rightarrow> u8 list \<Rightarrow> nat \<Rightarrow> u8 list cm" where
  "c_strncpy dst off src n = do {
     c_assert (is_cstr src \<or> n \<le> length src);
     c_stores dst off (take n (c_str src) @ replicate (n - length (c_str src)) 0)
   }"

text \<open>The scanning loop of \<open>strcat_s\<close>: \<open>for (i = 0; (i < dstSizeInBytes) && (dst[i] != 0); i++)\<close>.\<close>

function strcat_scan :: "u8 list \<Rightarrow> nat \<Rightarrow> nat \<Rightarrow> nat cm" where
  "strcat_scan dst i n =
     (if i < n then do {
        c \<leftarrow> c_load dst i;
        if c \<noteq> 0 then strcat_scan dst (Suc i) n else ret i
      }
      else ret i)"
  by pat_completeness auto
termination
  by (relation "measure (\<lambda>(dst, i, n). n - i)") auto

definition strcat_s :: "u8 list option \<Rightarrow> nat \<Rightarrow> u8 list option \<Rightarrow> (int \<times> u8 list option) cm" where
  "strcat_s dst dstSizeInBytes src =
     (case dst of
        None \<Rightarrow> ret (EINVAL, None)
      | Some d \<Rightarrow> (case src of
          None \<Rightarrow> do { d' \<leftarrow> c_store d 0 0; ret (EINVAL, Some d') }
        | Some s \<Rightarrow>
            if dstSizeInBytes = 0 then do { d' \<leftarrow> c_store d 0 0; ret (ERANGE, Some d') }
            else do {
              dstStrLen \<leftarrow> strcat_scan d 0 dstSizeInBytes;
              if dstSizeInBytes = dstStrLen then ret (EINVAL, Some d)
              else do {
                d1 \<leftarrow> c_strncpy d dstStrLen s (dstSizeInBytes - dstStrLen);
                c \<leftarrow> c_load d1 (dstSizeInBytes - 1);
                if c \<noteq> 0 then do { d2 \<leftarrow> c_store d1 0 0; ret (ERANGE, Some d2) }
                else ret (0, Some d1)
              }
            }))"

definition strncpy_s :: "u8 list option \<Rightarrow> nat \<Rightarrow> u8 list option \<Rightarrow> nat \<Rightarrow> (int \<times> u8 list option) cm" where
  "strncpy_s dst dstSizeInBytes src maxCount =
     (case dst of
        None \<Rightarrow> ret (EINVAL, None)
      | Some d \<Rightarrow> (case src of
          None \<Rightarrow> do { d' \<leftarrow> c_store d 0 0; ret (EINVAL, Some d') }
        | Some s \<Rightarrow>
            if dstSizeInBytes = 0 then ret (EINVAL, Some d)
            else do {
              len \<leftarrow> c_strlen s;
              if maxCount \<noteq> TRUNCATE then do {
                let srcLength = (if len > maxCount then maxCount else len);
                if szt (srcLength + 1) > dstSizeInBytes then do {
                  d' \<leftarrow> c_store d 0 0; ret (ERANGE, Some d')
                }
                else do {
                  d1 \<leftarrow> c_strncpy d 0 s srcLength;
                  d2 \<leftarrow> c_store d1 srcLength 0;
                  ret (0, Some d2)
                }
              }
              else do {
                let truncationFlag = (szt (len + 1) > dstSizeInBytes);
                let srcLength = (if truncationFlag then dstSizeInBytes - 1 else len);
                d1 \<leftarrow> c_strncpy d 0 s srcLength;
                d2 \<leftarrow> c_store d1 srcLength 0;
                ret (if truncationFlag then STRUNCATE else 0, Some d2)
              }
            }))"

definition strcpy_s :: "u8 list option \<Rightarrow> nat \<Rightarrow> u8 list option \<Rightarrow> (int \<times> u8 list option) cm" where
  "strcpy_s dst dstSizeInBytes src =
     (case dst of
        None \<Rightarrow> ret (EINVAL, None)
      | Some d \<Rightarrow> (case src of
          None \<Rightarrow> do { d' \<leftarrow> c_store d 0 0; ret (EINVAL, Some d') }
        | Some s \<Rightarrow>
            if dstSizeInBytes = 0 then do { d' \<leftarrow> c_store d 0 0; ret (ERANGE, Some d') }
            else do {
              neededBuffer \<leftarrow> c_strlen s;
              if szt (neededBuffer + 1) > dstSizeInBytes then do {
                d' \<leftarrow> c_store d 0 0; ret (ERANGE, Some d')
              }
              else do {
                d' \<leftarrow> c_memcpy d 0 s 0 (szt (neededBuffer + 1));
                ret (0, Some d')
              }
            }))"

text \<open>\<open>destination\<close>: the pointer is not null. The second component is what is stored in
  \<open>*destination\<close>; \<open>None\<close>: nothing is.\<close>

definition mallocAndStrcpy_s :: "bool \<Rightarrow> u8 list option \<Rightarrow> (int \<times> u8 list option option) cm" where
  "mallocAndStrcpy_s destination source =
     (case source of
        None \<Rightarrow> ret (EINVAL, None)
      | Some s \<Rightarrow>
          if \<not> destination then ret (EINVAL, None)
          else do {
            l \<leftarrow> c_strlen s;
            temp \<leftarrow> c_malloc (szt (l + 1));
            (case temp of
               None \<Rightarrow> ret (ENOMEM, None)
             | Some t \<Rightarrow> do {
                 (copied_result, d) \<leftarrow> strcpy_s (Some t) (szt (l + 1)) (Some s);
                 if copied_result < 0 then do { c_free d; ret (copied_result, Some None) }
                 else ret (0, Some d)
               })
          })"

section \<open>Printing numbers\<close>

text \<open>The digit loop of \<open>unsignedIntToString\<close> and \<open>size_tToString\<close>, least significant digit first, and
  the loop that reverses the digits.\<close>

function decimal_digits :: "u8 list \<Rightarrow> nat \<Rightarrow> nat \<Rightarrow> nat \<Rightarrow> (u8 list \<times> nat \<times> nat) cm" where
  "decimal_digits destination destinationSize pos value = do {
     d \<leftarrow> c_store destination pos (of_nat (48 + value mod 10));
     if value div 10 > 0 \<and> Suc pos < destinationSize - 1
     then decimal_digits d destinationSize (Suc pos) (value div 10)
     else ret (d, Suc pos, value div 10)
   }"
  by pat_completeness auto
termination
  by (relation "measure (\<lambda>(d, n, pos, value). value)") auto

function decimal_reverse :: "u8 list \<Rightarrow> nat \<Rightarrow> nat \<Rightarrow> u8 list cm" where
  "decimal_reverse destination pos w =
     (if w \<le> (pos - 1) div 2 then do {
        temp \<leftarrow> c_load destination w;
        c \<leftarrow> c_load destination (pos - 1 - w);
        d1 \<leftarrow> c_store destination w c;
        d2 \<leftarrow> c_store d1 (pos - 1 - w) temp;
        decimal_reverse d2 pos (Suc w)
      }
      else ret destination)"
  by pat_completeness auto
termination
  by (relation "measure (\<lambda>(d, pos, w). Suc pos - w)") auto

definition unsignedIntToString :: "u8 list option \<Rightarrow> nat \<Rightarrow> u32 \<Rightarrow> (int \<times> u8 list option) cm" where
  "unsignedIntToString destination destinationSize value =
     (case destination of
        None \<Rightarrow> ret (FAILURE, None)
      | Some dst \<Rightarrow>
          if destinationSize < 2 then ret (FAILURE, Some dst)
          else do {
            (d, pos, v) \<leftarrow> decimal_digits dst destinationSize 0 (unat value);
            if v = 0 then do {
              d1 \<leftarrow> c_store d pos 0;
              d2 \<leftarrow> decimal_reverse d1 pos 0;
              ret (0, Some d2)
            }
            else ret (FAILURE, Some d)
          })"

text \<open>\<open>size_t\<close> and \<open>unsigned int\<close> have the same width: the function is the same text again.\<close>

definition size_tToString :: "u8 list option \<Rightarrow> nat \<Rightarrow> u32 \<Rightarrow> (int \<times> u8 list option) cm" where
  "size_tToString destination destinationSize value =
     (case destination of
        None \<Rightarrow> ret (FAILURE, None)
      | Some dst \<Rightarrow>
          if destinationSize < 2 then ret (FAILURE, Some dst)
          else do {
            (d, pos, v) \<leftarrow> decimal_digits dst destinationSize 0 (unat value);
            if v = 0 then do {
              d1 \<leftarrow> c_store d pos 0;
              d2 \<leftarrow> decimal_reverse d1 pos 0;
              ret (0, Some d2)
            }
            else ret (FAILURE, Some d)
          })"

section \<open>\<open>stdlib_noniso.c\<close>\<close>

text \<open>\<open>reverse (begin, end)\<close> on offsets into one block; \<open>is\<close> and \<open>ie\<close> as in the source, \<open>ie\<close> one past
  the element so that an empty range needs no negative offset.\<close>

function reverse_loop :: "u8 list \<Rightarrow> nat \<Rightarrow> nat \<Rightarrow> u8 list cm" where
  "reverse_loop s is ie1 =
     (if Suc is < ie1 then do {
        tmp \<leftarrow> c_load s (ie1 - 1);
        c \<leftarrow> c_load s is;
        s1 \<leftarrow> c_store s (ie1 - 1) c;
        s2 \<leftarrow> c_store s1 is tmp;
        reverse_loop s2 (Suc is) (ie1 - 1)
      }
      else ret s)"
  by pat_completeness auto
termination
  by (relation "measure (\<lambda>(s, is, ie1). ie1 - is)") auto

definition reverse :: "u8 list \<Rightarrow> nat \<Rightarrow> nat \<Rightarrow> u8 list cm" where
  "reverse s begin_off end_off = reverse_loop s begin_off end_off"

definition digit_chars :: "u8 list" where
  "digit_chars = map of_char ''0123456789abcdef''"

text \<open>The digit loop of \<open>ultoa\<close>, and of \<open>ltoa\<close> while the quotient is not negative.\<close>

function noniso_digits :: "nat \<Rightarrow> u8 list \<Rightarrow> nat \<Rightarrow> nat \<Rightarrow> (u8 list \<times> nat) cm" where
  "noniso_digits base result out quot =
     (if base < 2 then ret (result, out)
      else do {
        r \<leftarrow> c_store result out (digit_chars ! (quot mod base));
        if quot div base \<noteq> 0 then noniso_digits base r (Suc out) (quot div base)
        else ret (r, Suc out)
      })"
  by pat_completeness auto
termination
  by (relation "measure (\<lambda>(base, r, out, q). q)") (auto simp: not_less div_greater_zero_iff intro!: div_less_dividend)

definition ultoa :: "u32 \<Rightarrow> u8 list \<Rightarrow> int \<Rightarrow> u8 list cm" where
  "ultoa value result base =
     (if base < 2 \<or> base > 16 then c_store result 0 0
      else do {
        (r, out) \<leftarrow> noniso_digits (nat base) result 0 (unat value);
        r1 \<leftarrow> reverse r 0 out;
        c_store r1 out 0
      })"

text \<open>\<open>abs (LONG_MIN)\<close> is not representable: the call is undefined there, which counts as a fault.\<close>

definition ltoa :: "u32 \<Rightarrow> u8 list \<Rightarrow> int \<Rightarrow> u8 list cm" where
  "ltoa value result base =
     (if base < 2 \<or> base > 16 then c_store result 0 0
      else do {
        c_assert (sint value \<noteq> - (2 ^ 31));
        (r, out) \<leftarrow> noniso_digits (nat base) result 0 (nat \<bar>sint value\<bar>);
        (r1, out1) \<leftarrow> (if sint value < 0 then do { r' \<leftarrow> c_store r out 45; ret (r', Suc out) }
                       else ret (r, out));
        r2 \<leftarrow> reverse r1 0 out1;
        c_store r2 out1 0
      })"

section \<open>Weakest preconditions\<close>

declare strcat_scan.simps [simp del] decimal_digits.simps [simp del] decimal_reverse.simps [simp del]
  reverse_loop.simps [simp del] noniso_digits.simps [simp del]

lemma wp_strncpy [simp, wp_simps]:
  assumes "is_cstr src" "off + n \<le> length dst"
  shows "wp (c_strncpy dst off src n) Q w =
    Q (put dst off (take n (c_str src) @ replicate (n - length (c_str src)) 0)) w"
  using assms by (simp add: c_strncpy_def)

lemma wp_strcat_scan [simp]:
  "i \<le> length (c_str d) \<Longrightarrow> is_cstr d \<Longrightarrow> length (c_str d) < n \<Longrightarrow>
   wp (strcat_scan d i n) Q w = Q (length (c_str d)) w"
proof (induction d i n rule: strcat_scan.induct)
  case (1 d i n)
  show ?case
  proof (cases "i = length (c_str d)")
    case True
    then show ?thesis using 1 by (simp add: strcat_scan.simps [of d "length (c_str d)" n])
  next
    case False
    then have i: "i < length (c_str d)" using 1 by simp
    have "d ! i = c_str d ! i"
      using i nth_take [of i "length (c_str d)" d] by simp
    then have "d ! i \<noteq> 0" using c_str_nozero [of d] i nth_mem by metis
    then show ?thesis
      using 1 i length_c_str_le [of d] by (simp add: strcat_scan.simps [of d i n])
  qed
qed

lemma wp_strcpy_s:
  assumes "is_cstr s" "length (c_str s) + 1 < SIZE_MOD" "length (c_str s) < n" "n \<le> length d"
  shows "wp (strcpy_s (Some d) n (Some s)) Q w =
    Q (0, Some (put d 0 (c_str s @ [0]))) w"
  using assms by (simp add: strcpy_s_def Suc_le_eq)

lemma wp_strcpy_s_short:
  assumes "is_cstr s" "length (c_str s) + 1 < SIZE_MOD" "n \<le> length (c_str s)" "d \<noteq> []"
  shows "wp (strcpy_s (Some d) n (Some s)) Q w = Q (ERANGE, Some (d[0 := 0])) w"
  using assms by (auto simp: strcpy_s_def)

lemma wp_mallocAndStrcpy_s [wp_intros]:
  assumes "is_cstr s" "length (c_str s) + 1 < SIZE_MOD"
    and "\<And>w'. next_alloc w = None \<Longrightarrow> avail w' = tl (avail w) \<Longrightarrow> live w' = live w \<Longrightarrow>
             faults w' = faults w \<Longrightarrow> Q (ENOMEM, None) w'"
    and "\<And>w'. next_alloc w \<noteq> None \<Longrightarrow> avail w' = tl (avail w) \<Longrightarrow> live w' = live w + 1 \<Longrightarrow>
             faults w' = faults w \<Longrightarrow> Q (0, Some (Some (c_str s @ [0]))) w'"
  shows "wp (mallocAndStrcpy_s True (Some s)) Q w"
  unfolding mallocAndStrcpy_s_def using assms
  by (auto intro!: wp_malloc simp: wp_strcpy_s)

text \<open>The two loops that swap the ends of a range reverse it: the range is empty, one element, or two
  ends around a shorter range.\<close>

lemma ends_cases:
  obtains "m = []" | x where "m = [x]" | x m' y where "m = x # m' @ [y]"
proof (cases m)
  case (Cons x t)
  then show ?thesis using that by (cases t rule: rev_cases) auto
qed (use that in simp)

lemma swap_ends:
  assumes "length a = i" "j = Suc (i + length m)"
  shows "(a @ x # m @ y # b)[i := y, j := x] = a @ y # m @ x # b"
    "(a @ x # m @ y # b)[j := x, i := y] = a @ y # m @ x # b"
    "(a @ x # m @ y # b) ! i = x" "(a @ x # m @ y # b) ! j = y"
  using assms by (simp_all add: list_update_append nth_append)

lemma wp_decimal_reverse:
  "length a = i \<Longrightarrow> n = 2 * i + length m \<Longrightarrow> 0 < n \<Longrightarrow>
   wp (decimal_reverse (a @ m @ b) n i) Q w = Q (a @ rev m @ b) w"
proof (induction "length m" arbitrary: a m b i rule: less_induct)
  case less
  show ?case
  proof (cases m rule: ends_cases)
    case 1
    then have "\<not> i \<le> (n - 1) div 2" using less by auto
    then show ?thesis using 1 by (simp add: decimal_reverse.simps [of _ n i])
  next
    case (2 x)
    then have "i \<le> (n - 1) div 2" "\<not> Suc i \<le> (n - 1) div 2" "n - 1 - i = i" using less by auto
    then show ?thesis using 2 less.prems(1)
      by (simp add: decimal_reverse.simps [of _ n i] decimal_reverse.simps [of _ n "Suc i"])
  next
    case (3 x m' y)
    have le: "i \<le> (n - 1) div 2" and j: "n - Suc i = Suc (i + length m')" using less 3 by auto
    have "wp (decimal_reverse ((a @ [y]) @ m' @ x # b) n (Suc i)) Q w = Q ((a @ [y]) @ rev m' @ x # b) w"
      using less.prems 3 by (intro less.hyps) auto
    then show ?thesis
      using 3 le less.prems(1) by (simp add: decimal_reverse.simps [of _ n i] j swap_ends)
  qed
qed

lemma wp_reverse_loop:
  "length a = i \<Longrightarrow> j = i + length m \<Longrightarrow>
   wp (reverse_loop (a @ m @ b) i j) Q w = Q (a @ rev m @ b) w"
proof (induction "length m" arbitrary: a m b i j rule: less_induct)
  case less
  show ?case
  proof (cases m rule: ends_cases)
    case (3 x m' y)
    have le: "Suc i < j" and j: "j - Suc 0 = Suc (i + length m')" using less 3 by auto
    have "wp (reverse_loop ((a @ [y]) @ m' @ x # b) (Suc i) (Suc (i + length m'))) Q w =
        Q ((a @ [y]) @ rev m' @ x # b) w"
      using less.prems 3 by (intro less.hyps) auto
    then show ?thesis
      using 3 le less.prems(1) by (simp add: reverse_loop.simps [of _ i j] j swap_ends)
  qed (use less.prems in \<open>simp_all add: reverse_loop.simps [of _ i i] reverse_loop.simps [of _ i "Suc i"]\<close>)
qed

lemma wp_reverse [simp]:
  "n \<le> length d \<Longrightarrow> wp (reverse d 0 n) Q w = Q (rev (take n d) @ drop n d) w"
  using wp_reverse_loop [of "[]" 0 n "take n d" "drop n d" Q w] by (simp add: reverse_def)

section \<open>Positional notation\<close>

text \<open>The digits of a number, most significant first, and the number a list of digits denotes.\<close>

function digits :: "nat \<Rightarrow> nat \<Rightarrow> nat list" where
  "digits b n = (if b < 2 \<or> n < b then [n] else digits b (n div b) @ [n mod b])"
  by pat_completeness auto
termination
  by (relation "measure snd") (auto simp: not_less intro!: div_less_dividend)

definition digits_value :: "nat \<Rightarrow> nat list \<Rightarrow> nat" where
  "digits_value b ds = foldl (\<lambda>v d. v * b + d) 0 ds"

declare digits.simps [simp del]

lemma digits_small: "n < b \<Longrightarrow> digits b n = [n]"
  by (simp add: digits.simps)

lemma digits_large: "2 \<le> b \<Longrightarrow> b \<le> n \<Longrightarrow> digits b n = digits b (n div b) @ [n mod b]"
  by (subst digits.simps) simp

lemma digits_value_digits: "digits_value b (digits b n) = n"
proof (induction b n rule: digits.induct)
  case (1 b n)
  then show ?case by (cases "b < 2 \<or> n < b") (auto simp: digits.simps [of b n] digits_value_def)
qed

lemma digits_bounded: "2 \<le> b \<Longrightarrow> d \<in> set (digits b n) \<Longrightarrow> d < b"
proof (induction b n rule: digits.induct)
  case (1 b n)
  then show ?case by (cases "n < b") (auto simp: digits_small digits_large)
qed

lemma digits_no_leading_zero: "hd (digits b n) = 0 \<longleftrightarrow> n = 0"
proof (induction b n rule: digits.induct)
  case (1 b n)
  have ne: "digits b k \<noteq> []" for k by (subst digits.simps) simp
  from 1 ne show ?case
    by (cases "b < 2 \<or> n < b") (auto simp: digits.simps [of b n] hd_append not_less div_eq_0_iff)
qed

lemma digits_not_Nil [simp]: "digits b n \<noteq> []"
  by (subst digits.simps) simp

lemma length_digits_le: "2 \<le> b \<Longrightarrow> n < b ^ k \<Longrightarrow> 0 < k \<Longrightarrow> length (digits b n) \<le> k"
proof (induction k arbitrary: n)
  case (Suc k)
  show ?case
  proof (cases "n < b")
    case False
    have "0 < k" using Suc.prems False by (cases k) auto
    moreover have "n div b < b ^ k"
      using Suc.prems by (simp add: less_mult_imp_div_less mult.commute)
    ultimately show ?thesis using Suc False by (simp add: digits_large)
  qed (simp add: digits_small)
qed simp

lemma wp_noniso_digits:
  "2 \<le> b \<Longrightarrow> pos + length (digits b v) \<le> length d \<Longrightarrow>
   wp (noniso_digits b d pos v) Q w =
     Q (put d pos (map ((!) digit_chars) (rev (digits b v))), pos + length (digits b v)) w"
proof (induction b d pos v rule: noniso_digits.induct)
  case (1 b d pos v)
  show ?case
  proof (cases "v < b")
    case True
    then show ?thesis
      using 1(2,3) by (simp add: noniso_digits.simps [of b d pos v] digits_small list_update_eq_put)
  next
    case False
    then have dig: "digits b v = digits b (v div b) @ [v mod b]" and nz: "v div b \<noteq> 0"
      using 1(2) by (simp_all add: digits_large div_eq_0_iff)
    show ?thesis
      using 1 nz by (simp add: noniso_digits.simps [of b d pos v] dig list_update_put)
  qed
qed

lemma wp_decimal_digits:
  "pos + length (digits 10 v) \<le> n - 1 \<Longrightarrow> n - 1 \<le> length d \<Longrightarrow>
   wp (decimal_digits d n pos v) Q w =
     Q (put d pos (map (\<lambda>k. of_nat (48 + k)) (rev (digits 10 v))), pos + length (digits 10 v), 0) w"
proof (induction d n pos v rule: decimal_digits.induct)
  case (1 d n pos v)
  show ?case
  proof (cases "v < 10")
    case True
    then show ?thesis
      using 1(2,3) by (simp add: decimal_digits.simps [of d n pos v] digits_small list_update_eq_put)
  next
    case False
    then have dig: "digits 10 v = digits 10 (v div 10) @ [v mod 10]" and nz: "v div 10 > 0"
      by (simp_all add: digits_large)
    with 1(2) have "Suc pos < n - 1" by (cases "digits 10 (v div 10)") auto
    then show ?thesis
      using 1 nz by (simp add: decimal_digits.simps [of d n pos v] dig list_update_put)
  qed
qed

lemma wp_decimal_digits_short:
  "pos < n - 1 \<Longrightarrow> n - 1 < pos + length (digits 10 v) \<Longrightarrow> n - 1 \<le> length d \<Longrightarrow>
   \<exists>d' v'. length d' = length d \<and> drop (n - 1) d' = drop (n - 1) d \<and> 0 < v' \<and>
     wp (decimal_digits d n pos v) Q w = Q (d', n - 1, v') w"
proof (induction d n pos v rule: decimal_digits.induct)
  case (1 d n pos v)
  let ?d = "d[pos := of_nat (48 + v mod 10)]"
  have v: "\<not> v < 10" using 1 by (auto simp: digits_small)
  then have dig: "digits 10 v = digits 10 (v div 10) @ [v mod 10]" and nz: "v div 10 > 0"
    by (simp_all add: digits_large)
  have unfold: "wp (decimal_digits d n pos v) Q w =
      (if Suc pos < n - 1 then wp (decimal_digits ?d n (Suc pos) (v div 10)) Q w
       else Q (?d, Suc pos, v div 10) w)"
    using 1 nz by (simp add: decimal_digits.simps [of d n pos v])
  show ?case
  proof (cases "Suc pos < n - 1")
    case True
    have "\<exists>d' v'. length d' = length ?d \<and> drop (n - 1) d' = drop (n - 1) ?d \<and> 0 < v' \<and>
        wp (decimal_digits ?d n (Suc pos) (v div 10)) Q w = Q (d', n - 1, v') w"
      by (rule 1(1)) (use True nz dig 1(3,4) in simp_all)
    then show ?thesis using True unfold 1(2) by auto
  next
    case False
    then have "Suc pos = n - 1" using 1 by simp
    then show ?thesis using False unfold nz 1(2) by (intro exI [of _ ?d] exI [of _ "v div 10"]) auto
  qed
qed

text \<open>Reading a printed number back: the digit a character stands for, a leading minus sign.\<close>

definition char_digit :: "u8 \<Rightarrow> nat" where
  "char_digit c = (if c \<le> 57 then unat c - 48 else unat c - 87)"

definition read_number :: "nat \<Rightarrow> u8 list \<Rightarrow> int" where
  "read_number b s =
     (case s of
        [] \<Rightarrow> 0
      | c # cs \<Rightarrow> if c = 45 then - int (digits_value b (map char_digit cs))
                  else int (digits_value b (map char_digit s)))"

lemma digit_chars_ok:
  assumes "k < 16"
  shows "char_digit (digit_chars ! k) = k" "digit_chars ! k \<noteq> 0" "digit_chars ! k \<noteq> 45"
proof -
  have all: "\<forall>k \<in> set [0..<16]. char_digit (digit_chars ! k) = k \<and> digit_chars ! k \<noteq> 0 \<and> digit_chars ! k \<noteq> 45"
    by code_simp
  have "k \<in> set [0..<16]" using assms by simp
  with all show "char_digit (digit_chars ! k) = k" "digit_chars ! k \<noteq> 0" "digit_chars ! k \<noteq> 45" by blast+
qed

lemma decimal_char: "k < 10 \<Longrightarrow> of_nat (48 + k) = digit_chars ! k"
proof -
  assume "k < 10"
  moreover have "\<forall>k \<in> set [0..<10]. of_nat (48 + k) = digit_chars ! k" by code_simp
  ultimately show ?thesis by simp
qed

lemma decimal_text: "map (\<lambda>k. of_nat (48 + k)) (digits 10 v) = map ((!) digit_chars) (digits 10 v)"
  using digits_bounded [of 10] by (intro map_cong refl decimal_char) simp

lemma number_text:
  assumes "2 \<le> b" "b \<le> 16"
  shows "read_number b (map ((!) digit_chars) (digits b n)) = int n"
    "read_number b (45 # map ((!) digit_chars) (digits b n)) = - int n"
    "0 \<notin> set (map ((!) digit_chars) (digits b n))"
proof -
  have lt: "k < 16" if "k \<in> set (digits b n)" for k
    using digits_bounded [OF assms(1) that] assms(2) by simp
  have inverse: "map (char_digit \<circ> (!) digit_chars) (digits b n) = digits b n"
    by (intro map_idI) (simp add: digit_chars_ok lt)
  obtain d ds where ds: "digits b n = d # ds" by (cases "digits b n") auto
  have "digit_chars ! d \<noteq> 45" using lt ds by (simp add: digit_chars_ok)
  then show "read_number b (map ((!) digit_chars) (digits b n)) = int n"
    using inverse ds digits_value_digits [of b n] by (simp add: read_number_def)
  show "read_number b (45 # map ((!) digit_chars) (digits b n)) = - int n"
    using inverse digits_value_digits [of b n] by (simp add: read_number_def)
  show "0 \<notin> set (map ((!) digit_chars) (digits b n))"
    using lt digit_chars_ok by fastforce
qed

section \<open>Properties\<close>

text \<open>\<open>strcpy_s\<close> writes only within the declared size; the copy is the whole source when it fits
  and the empty string, with \<open>ERANGE\<close>, when it does not.\<close>

lemma strcpy_s_bounded:
  assumes "is_cstr s" "length (c_str s) + 1 < SIZE_MOD" "0 < n" "n \<le> length d"
  shows "wp (strcpy_s (Some d) n (Some s)) (\<lambda>(r, p) w'. w' = w \<and> (\<exists>d'. p = Some d' \<and>
     length d' = length d \<and> drop n d' = drop n d \<and>
     (if length (c_str s) < n then r = 0 \<and> c_str d' = c_str s else r = ERANGE \<and> c_str d' = []))) w"
proof (cases "length (c_str s) < n")
  case True
  moreover have "c_str (put d 0 (c_str s @ [0])) = c_str s" by (simp add: put_0)
  ultimately show ?thesis using assms by (simp add: wp_strcpy_s)
next
  case False
  then show ?thesis using assms by (cases d) (auto simp: wp_strcpy_s_short c_str_def drop_Cons')
qed

text \<open>\<open>strcat_s\<close> appends within the declared size: the text is the concatenation when it fits and
  empty, with \<open>ERANGE\<close>, when it does not.\<close>

lemma strcat_s_bounded:
  assumes "is_cstr s" "is_cstr d" "length (c_str d) < n" "n \<le> length d"
  shows "wp (strcat_s (Some d) n (Some s)) (\<lambda>(r, p) w'. w' = w \<and> (\<exists>d'. p = Some d' \<and>
     length d' = length d \<and> drop n d' = drop n d \<and>
     (if length (c_str d) + length (c_str s) < n then r = 0 \<and> c_str d' = c_str d @ c_str s
      else r = ERANGE \<and> c_str d' = []))) w"
proof -
  define k where "k = length (c_str d)"
  define pad where "pad = take (n - k) (c_str s) @ replicate (n - k - length (c_str s)) 0"
  have k: "k < n" "n \<le> length d" and len: "length pad = n - k"
    using assms by (auto simp: k_def pad_def min_def)
  have joined: "put d k pad = c_str d @ pad @ drop n d"
    using k len by (simp add: put_def k_def)
  have last: "put d k pad ! (n - 1) = pad ! (n - 1 - k)"
  proof -
    have "(c_str d @ pad @ drop n d) ! (k + (n - 1 - k)) = (pad @ drop n d) ! (n - 1 - k)"
      by (simp add: k_def)
    moreover have "n - 1 - k < length pad" using k len by simp
    ultimately show ?thesis using k by (simp add: joined nth_append [of pad])
  qed
  have run: "wp (strcat_s (Some d) n (Some s)) Q w =
      (if pad ! (n - 1 - k) \<noteq> 0 then Q (ERANGE, Some ((put d k pad)[0 := 0])) w
       else Q (0, Some (put d k pad)) w)" for Q
  proof -
    have "length (put d k pad) = length d" using k len by simp
    then have "0 < length (put d k pad)" using k by linarith
    then show ?thesis
      using assms last k len unfolding pad_def by (simp add: strcat_s_def flip: k_def)
  qed
  show ?thesis
  proof (cases "k + length (c_str s) < n")
    case True
    then obtain j where n: "n = Suc (k + length (c_str s) + j)" using less_imp_Suc_add by auto
    have pad: "pad = c_str s @ replicate (Suc j) 0" by (simp add: pad_def n Suc_diff_le)
    have "pad ! (n - 1 - k) = 0" by (simp add: pad n nth_append nth_Cons' del: replicate.simps)
    moreover have "c_str (put d k pad) = c_str d @ c_str s"
      using c_str_append_zero [of "c_str d @ c_str s" "replicate j 0 @ drop n d"]
      unfolding joined by (simp add: pad)
    ultimately show ?thesis using True k len by (simp add: run k_def)
  next
    case False
    then have pad: "pad = take (n - k) (c_str s)" by (simp add: pad_def)
    have "pad ! (n - 1 - k) \<in> set (c_str s)" using False k by (simp add: pad)
    then have "pad ! (n - 1 - k) \<noteq> 0" using c_str_nozero [of s] by metis
    moreover have "c_str (xs[0 := 0]) = []" if "length xs = length d" for xs
      using that k by (cases xs) (simp_all add: c_str_def)
    ultimately show ?thesis using False k len by (simp add: run k_def)
  qed
qed

text \<open>\<open>unsignedIntToString\<close> prints the decimal digits of the number, without a leading zero, when they
  and the terminator fit in the declared size, and fails otherwise; reading the text back gives the
  number.\<close>

lemma unsignedIntToString_correct:
  assumes "2 \<le> n" "n \<le> length dst"
  shows "wp (unsignedIntToString (Some dst) n value) (\<lambda>(r, p) w'. w' = w \<and> (\<exists>d. p = Some d \<and>
     length d = length dst \<and> drop n d = drop n dst \<and>
     (if length (digits 10 (unat value)) < n
      then r = 0 \<and> is_cstr d \<and> c_str d = map ((!) digit_chars) (digits 10 (unat value)) \<and>
           read_number 10 (c_str d) = uint value
      else r \<noteq> 0))) w"
proof (cases "length (digits 10 (unat value)) < n")
  case True
  define t where "t = map ((!) digit_chars) (digits 10 (unat value))"
  have len: "length t = length (digits 10 (unat value))" "t \<noteq> []" by (simp_all add: t_def)
  have digs: "map (\<lambda>k. of_nat (48 + k)) (rev (digits 10 (unat value))) = rev t"
    using decimal_text [of "unat value"] by (simp add: t_def rev_map)
  have stored: "(put dst 0 (rev t))[length t := 0] = [] @ rev t @ 0 # drop (Suc (length t)) dst"
    using True len assms by (simp add: put_0 list_update_append)
      (metis Cons_nth_drop_Suc list_update_code(2) order.strict_trans2)
  have nz: "0 \<notin> set t" "read_number 10 t = uint value"
    using number_text [of 10 "unat value"] by (simp_all add: t_def)
  have "drop n (t @ 0 # drop (Suc (length t)) dst) = drop n dst"
    using True len by (simp add: drop_Cons')
  moreover have "wp (unsignedIntToString (Some dst) n value) Q w =
      Q (0, Some (t @ 0 # drop (Suc (length t)) dst)) w" for Q
  proof -
    have "wp (decimal_digits dst n 0 (unat value)) Q' w = Q' (put dst 0 (rev t), length t, 0) w" for Q'
      using True assms len wp_decimal_digits [of 0 "unat value" n dst Q' w] unfolding digs by simp
    then show ?thesis
      using True assms len(2) wp_decimal_reverse [of "[]" 0 "length t" "rev t"]
      by (simp add: unsignedIntToString_def stored flip: len(1))
  qed
  ultimately show ?thesis
    using True len nz assms by (simp add: t_def [symmetric])
next
  case False
  have digs: "wp (decimal_digits dst n 0 (unat value)) (\<lambda>(d, pos, v) w'. w' = w \<and> v \<noteq> 0 \<and>
      length d = length dst \<and> drop (n - 1) d = drop (n - 1) dst) w"
    using wp_decimal_digits_short [of 0 n "unat value" dst] False assms by fastforce
  have rest: "drop n d = drop n dst" if "drop (n - 1) d = drop (n - 1) dst" for d
  proof -
    have "drop n xs = drop 1 (drop (n - 1) xs)" for xs :: "u8 list" using assms by simp
    with that show ?thesis by metis
  qed
  show ?thesis
    using False assms unfolding unsignedIntToString_def
    by (simp, intro wp_mono [OF digs]) (auto intro!: rest)
qed

lemma length_digits_32: "2 \<le> b \<Longrightarrow> n < 2 ^ 32 \<Longrightarrow> length (digits b n) \<le> 32"
  using power_mono [of 2 b 32] by (intro length_digits_le) auto

lemma terminated_text:
  assumes "length t < length d"
  shows "(rev (take (length t) (put d 0 (rev t))) @ drop (length t) (put d 0 (rev t)))[length t := 0]
    = t @ 0 # drop (Suc (length t)) d"
  using assms by (simp add: put_0 list_update_append)
    (metis Cons_nth_drop_Suc list_update_code(2))

lemma wp_ultoa:
  fixes v :: u32
  assumes "2 \<le> base" "base \<le> 16" "34 \<le> length result"
  defines "t \<equiv> map ((!) digit_chars) (digits (nat base) (unat v))"
  shows "wp (ultoa v result base) Q w = Q (t @ 0 # drop (Suc (length t)) result) w"
proof -
  have "length t \<le> 32"
    using assms(1) unat_u32 [of v] by (simp add: t_def length_digits_32)
  then have len: "length t < length result" using assms(3) by simp
  have "wp (noniso_digits (nat base) result 0 (unat v)) Q' w = Q' (put result 0 (rev t), length t) w" for Q'
    using assms(1) len wp_noniso_digits [of "nat base" 0 "unat v" result Q' w]
    by (simp add: t_def rev_map)
  then show ?thesis
    using assms(1,2) len terminated_text [OF len] by (simp add: ultoa_def)
qed

lemma wp_ltoa:
  fixes v :: u32
  assumes "2 \<le> base" "base \<le> 16" "34 \<le> length result" "sint v \<noteq> - (2 ^ 31)"
  defines "u \<equiv> map ((!) digit_chars) (digits (nat base) (nat \<bar>sint v\<bar>))"
  defines "t \<equiv> (if sint v < 0 then 45 # u else u)"
  shows "wp (ltoa v result base) Q w = Q (t @ 0 # drop (Suc (length t)) result) w"
proof -
  have "nat \<bar>sint v\<bar> < 2 ^ 32"
    using sint_ge [of v] sint_lt [of v] by auto
  then have "length u \<le> 32"
    using assms(1) by (simp add: u_def length_digits_32)
  then have len: "length t < length result" "length u < length result"
    using assms(3) by (simp_all add: t_def)
  have digs: "wp (noniso_digits (nat base) result 0 (nat \<bar>sint v\<bar>)) Q' w = Q' (put result 0 (rev u), length u) w" for Q'
    using assms(1) len(2) wp_noniso_digits [of "nat base" 0 "nat \<bar>sint v\<bar>" result Q' w]
    by (simp add: u_def rev_map)
  have neg: "(put result 0 (rev u))[length u := 45] = put result 0 (rev (45 # u))"
    using len(2) by (simp add: put_0 list_update_append)
      (metis Cons_nth_drop_Suc list_update_code(2))
  show ?thesis
    using assms(1,2,4) len terminated_text [OF len(1)]
    by (simp add: ltoa_def digs t_def neg split: if_splits)
qed

text \<open>\<open>ultoa\<close> and \<open>ltoa\<close> print a number in any base from 2 to 16 so that reading the text back in that
  base gives the number, into any buffer of at least 34 bytes and without writing behind it; for
  \<open>ltoa\<close> the most negative number is excluded, whose absolute value the code cannot represent.\<close>

lemma ltoa_ultoa_roundtrip:
  assumes "2 \<le> base" "base \<le> 16" "34 \<le> length result"
  shows "wp (ultoa v result base) (\<lambda>r w'. w' = w \<and> length r = length result \<and> is_cstr r \<and>
           read_number (nat base) (c_str r) = uint v) w \<and>
         (sint v \<noteq> - (2 ^ 31) \<longrightarrow>
          wp (ltoa v result base) (\<lambda>r w'. w' = w \<and> length r = length result \<and> is_cstr r \<and>
            read_number (nat base) (c_str r) = sint v) w)"
proof -
  have b: "2 \<le> nat base" "nat base \<le> 16" using assms by auto
  let ?t = "\<lambda>n. map ((!) digit_chars) (digits (nat base) n)"
  have len: "length (digits (nat base) n) \<le> 32" if "n < 2 ^ 32" for n
    using b(1) that by (rule length_digits_32)
  have "nat \<bar>sint v\<bar> < 2 ^ 32"
    using sint_ge [of v] sint_lt [of v] by auto
  note lens = len [OF this] len [of "unat v"]
  have nz: "0 \<notin> set (45 # ?t n)" for n using number_text(3) [OF b] by simp
  show ?thesis
    using assms number_text [OF b] nz lens unat_u32 [of v]
    by (cases "sint v < 0")
      (auto simp: wp_ultoa wp_ltoa is_cstr_def c_str_append_zero [where a = "_ # _", simplified])
qed

end
