(* ===== verification/MapTable.thy ===== *)
theory MapTable
  imports Strings Crt "HOL-Library.AList"
begin

text \<open>
  The string-to-string map of the Azure C utility library (\<open>c-utility/src/map.c\<close>): two arrays of
  pointers to heap strings, a count and an optional filter. A slot of an array is the block behind
  the pointer stored there (\<open>None\<close> for \<open>NULL\<close>); the slots of a fresh array hold wild pointers. The
  filter callback belongs to the client: it is a function of the two strings it is given, returning
  0 to accept. \<open>MAP_HANDLE\<close> is \<open>MAP_HANDLE_DATA option\<close>.
\<close>

type_synonym MAP_FILTER_CALLBACK = "u8 list \<Rightarrow> u8 list \<Rightarrow> int"

datatype MAP_RESULT =
  MAP_OK | MAP_ERROR | MAP_INVALIDARG | MAP_KEYEXISTS | MAP_KEYNOTFOUND | MAP_FILTER_REJECT

record MAP_HANDLE_DATA =
  mkeys :: "u8 list option list option"
  mvalues :: "u8 list option list option"
  mcount :: nat
  mapFilterCallback :: "MAP_FILTER_CALLBACK option"

section \<open>Arrays of pointers\<close>

text \<open>Allocation and resizing of \<open>char**\<close> arrays, the size given in bytes; a pointer takes 4 bytes.\<close>

definition ptrs_malloc :: "nat \<Rightarrow> u8 list option list option cm" where
  "ptrs_malloc bytes = do {
     a \<leftarrow> request;
     (case a of
        None \<Rightarrow> ret None
      | Some j \<Rightarrow> do { count_block 1; ret (Some (map (\<lambda>i. Some [j i]) [0..<bytes div 4])) })
   }"

definition ptrs_realloc :: "u8 list option list option \<Rightarrow> nat \<Rightarrow> u8 list option list option cm" where
  "ptrs_realloc p bytes =
     (case p of
        None \<Rightarrow> ptrs_malloc bytes
      | Some old \<Rightarrow> do {
          c_assert (bytes \<noteq> 0);
          a \<leftarrow> request;
          ret (map_option (\<lambda>j. take (bytes div 4) old @
                 map (\<lambda>i. Some [j i]) [length old..<bytes div 4]) a)
        })"

definition ptr_store :: "'a list \<Rightarrow> nat \<Rightarrow> 'a \<Rightarrow> 'a list cm" where
  "ptr_store arr i p = do { c_assert (i < length arr); ret (arr[i := p]) }"

definition ptr_load :: "'a option list \<Rightarrow> nat \<Rightarrow> 'a option cm" where
  "ptr_load arr i = do { c_assert (i < length arr); ret (if i < length arr then arr ! i else None) }"

text \<open>\<open>strcmp\<close> on pointers that may be null: dereferencing \<open>NULL\<close> is a fault.\<close>

definition ptr_strcmp :: "u8 list option \<Rightarrow> u8 list option \<Rightarrow> int cm" where
  "ptr_strcmp p q = do { c_assert (p \<noteq> None \<and> q \<noteq> None); c_strcmp (blk p) (blk q) }"

section \<open>The operations, in the order of the source\<close>

definition Map_Create :: "MAP_FILTER_CALLBACK option \<Rightarrow> MAP_HANDLE_DATA option cm" where
  "Map_Create mapFilterFunc = do {
     ok \<leftarrow> c_new;
     ret (if ok then Some \<lparr>mkeys = None, mvalues = None, mcount = 0, mapFilterCallback = mapFilterFunc\<rparr>
          else None)
   }"

text \<open>The loop \<open>for (; j < n; j++) free (p[j])\<close>.\<close>

function free_slots :: "u8 list option list \<Rightarrow> nat \<Rightarrow> nat \<Rightarrow> unit cm" where
  "free_slots p j n =
     (if j < n then do { x \<leftarrow> ptr_load p j; c_free x; free_slots p (Suc j) n } else ret ())"
  by pat_completeness auto
termination
  by (relation "measure (\<lambda>(p, j, n). n - j)") auto

function Map_Destroy_loop :: "MAP_HANDLE_DATA \<Rightarrow> nat \<Rightarrow> unit cm" where
  "Map_Destroy_loop handleData i =
     (if i < mcount handleData then do {
        k \<leftarrow> ptr_load (blk (mkeys handleData)) i;
        c_free k;
        v \<leftarrow> ptr_load (blk (mvalues handleData)) i;
        c_free v;
        Map_Destroy_loop handleData (Suc i)
      }
      else ret ())"
  by pat_completeness auto
termination
  by (relation "measure (\<lambda>(m, i). mcount m - i)") auto

definition Map_Destroy :: "MAP_HANDLE_DATA option \<Rightarrow> unit cm" where
  "Map_Destroy handle =
     (case handle of
        None \<Rightarrow> ret ()
      | Some handleData \<Rightarrow> do {
          Map_Destroy_loop handleData 0;
          c_free (mkeys handleData);
          c_free (mvalues handleData);
          c_free handle
        })"

text \<open>The copying loop of \<open>Map_CloneVector\<close>: it stops at the first failure with the index reached.\<close>

function CloneVector_loop ::
    "u8 list option list \<Rightarrow> u8 list option list \<Rightarrow> nat \<Rightarrow> nat \<Rightarrow> (u8 list option list \<times> nat) cm" where
  "CloneVector_loop result source i count =
     (if i < count then do {
        s \<leftarrow> ptr_load source i;
        (r, d) \<leftarrow> mallocAndStrcpy_s True s;
        result' \<leftarrow> (case d of None \<Rightarrow> ret result | Some p \<Rightarrow> ptr_store result i p);
        if r \<noteq> 0 then ret (result', i)
        else CloneVector_loop result' source (Suc i) count
      }
      else ret (result, i))"
  by pat_completeness auto
termination
  by (relation "measure (\<lambda>(r, s, i, n). n - i)") auto

definition Map_CloneVector :: "u8 list option list \<Rightarrow> nat \<Rightarrow> u8 list option list option cm" where
  "Map_CloneVector source count = do {
     p \<leftarrow> ptrs_malloc (szt (count * 4));
     (case p of
        None \<Rightarrow> ret None
      | Some result \<Rightarrow> do {
          (result', i) \<leftarrow> CloneVector_loop result source 0 count;
          if i = count then ret (Some result')
          else do { free_slots result' 0 i; c_free (Some result'); ret None }
        })
   }"

definition Map_Clone :: "MAP_HANDLE_DATA option \<Rightarrow> MAP_HANDLE_DATA option cm" where
  "Map_Clone handle =
     (case handle of
        None \<Rightarrow> ret None
      | Some handleData \<Rightarrow> do {
          ok \<leftarrow> c_new;
          if \<not> ok then ret None
          else if mcount handleData = 0
          then ret (Some \<lparr>mkeys = None, mvalues = None, mcount = 0, mapFilterCallback = None\<rparr>)
          else do {
            ks \<leftarrow> Map_CloneVector (blk (mkeys handleData)) (mcount handleData);
            (case ks of
               None \<Rightarrow> do { c_free (Some ()); ret None }
             | Some k \<Rightarrow> do {
                 vs \<leftarrow> Map_CloneVector (blk (mvalues handleData)) (mcount handleData);
                 (case vs of
                    None \<Rightarrow> do {
                      free_slots k 0 (mcount handleData);
                      c_free (Some k);
                      c_free (Some ());
                      ret None
                    }
                  | Some v \<Rightarrow>
                      ret (Some \<lparr>mkeys = Some k, mvalues = Some v, mcount = mcount handleData,
                                 mapFilterCallback = mapFilterCallback handleData\<rparr>))
               })
          }
        })"

definition Map_IncreaseStorageKeysValues :: "MAP_HANDLE_DATA \<Rightarrow> (int \<times> MAP_HANDLE_DATA) cm" where
  "Map_IncreaseStorageKeysValues handleData = do {
     newKeys \<leftarrow> ptrs_realloc (mkeys handleData) (szt (szt (mcount handleData + 1) * 4));
     (case newKeys of
        None \<Rightarrow> ret (FAILURE, handleData)
      | Some nk \<Rightarrow> do {
          nk' \<leftarrow> ptr_store nk (mcount handleData) None;
          let h1 = handleData\<lparr>mkeys := Some nk'\<rparr>;
          newValues \<leftarrow> ptrs_realloc (mvalues h1) (szt (szt (mcount h1 + 1) * 4));
          (case newValues of
             None \<Rightarrow>
               if mcount h1 = 0 then do {
                 c_free (mkeys h1);
                 ret (FAILURE, h1\<lparr>mkeys := None\<rparr>)
               }
               else do {
                 undoneKeys \<leftarrow> ptrs_realloc (mkeys h1) (szt (mcount h1 * 4));
                 (case undoneKeys of
                    None \<Rightarrow> ret (FAILURE, h1)
                  | Some uk \<Rightarrow> ret (FAILURE, h1\<lparr>mkeys := Some uk\<rparr>))
               }
           | Some nv \<Rightarrow> do {
               nv' \<leftarrow> ptr_store nv (mcount h1) None;
               ret (0, h1\<lparr>mvalues := Some nv', mcount := szt (mcount h1 + 1)\<rparr>)
             })
        })
   }"

definition Map_DecreaseStorageKeysValues :: "MAP_HANDLE_DATA \<Rightarrow> MAP_HANDLE_DATA cm" where
  "Map_DecreaseStorageKeysValues handleData =
     (if mcount handleData = 1 then do {
        c_free (mkeys handleData);
        c_free (mvalues handleData);
        ret (handleData\<lparr>mkeys := None, mvalues := None, mcount := 0, mapFilterCallback := None\<rparr>)
      }
      else do {
        undoneKeys \<leftarrow> ptrs_realloc (mkeys handleData) (szt (4 * (mcount handleData - 1)));
        let h1 = (case undoneKeys of None \<Rightarrow> handleData | Some uk \<Rightarrow> handleData\<lparr>mkeys := Some uk\<rparr>);
        undoneValues \<leftarrow> ptrs_realloc (mvalues h1) (szt (4 * (mcount h1 - 1)));
        let h2 = (case undoneValues of None \<Rightarrow> h1 | Some uv \<Rightarrow> h1\<lparr>mvalues := Some uv\<rparr>);
        ret (h2\<lparr>mcount := mcount h2 - 1\<rparr>)
      })"

text \<open>The search loops of \<open>findKey\<close> and \<open>findValue\<close>; a found slot is given by its index.\<close>

function find_loop :: "u8 list option list \<Rightarrow> nat \<Rightarrow> nat \<Rightarrow> u8 list \<Rightarrow> nat option cm" where
  "find_loop arr i count x =
     (if i < count then do {
        p \<leftarrow> ptr_load arr i;
        c \<leftarrow> ptr_strcmp p (Some x);
        if c = 0 then ret (Some i) else find_loop arr (Suc i) count x
      }
      else ret None)"
  by pat_completeness auto
termination
  by (relation "measure (\<lambda>(arr, i, n, x). n - i)") auto

definition findKey :: "MAP_HANDLE_DATA \<Rightarrow> u8 list \<Rightarrow> nat option cm" where
  "findKey handleData key =
     (case mkeys handleData of
        None \<Rightarrow> ret None
      | Some ks \<Rightarrow> find_loop ks 0 (mcount handleData) key)"

definition findValue :: "MAP_HANDLE_DATA \<Rightarrow> u8 list \<Rightarrow> nat option cm" where
  "findValue handleData val =
     (case mvalues handleData of
        None \<Rightarrow> ret None
      | Some vs \<Rightarrow> find_loop vs 0 (mcount handleData) val)"

text \<open>\<open>insertNewKeyValue\<close>: the part after the key is stored, and the whole.\<close>

definition insert_storeValue :: "MAP_HANDLE_DATA \<Rightarrow> u8 list \<Rightarrow> (int \<times> MAP_HANDLE_DATA) cm" where
  "insert_storeValue h val = do {
     (rv, dv) \<leftarrow> mallocAndStrcpy_s True (Some val);
     vs \<leftarrow> (case dv of None \<Rightarrow> ret (blk (mvalues h))
                     | Some p \<Rightarrow> ptr_store (blk (mvalues h)) (mcount h - 1) p);
     let h1 = h\<lparr>mvalues := Some vs\<rparr>;
     if rv \<noteq> 0 then do {
       k \<leftarrow> ptr_load (blk (mkeys h1)) (mcount h1 - 1);
       c_free k;
       h2 \<leftarrow> Map_DecreaseStorageKeysValues h1;
       ret (FAILURE, h2)
     }
     else ret (0, h1)
   }"

definition insertNewKeyValue :: "MAP_HANDLE_DATA \<Rightarrow> u8 list \<Rightarrow> u8 list \<Rightarrow> (int \<times> MAP_HANDLE_DATA) cm" where
  "insertNewKeyValue handleData key val = do {
     (r, h) \<leftarrow> Map_IncreaseStorageKeysValues handleData;
     if r \<noteq> 0 then ret (FAILURE, h)
     else do {
       (rk, dk) \<leftarrow> mallocAndStrcpy_s True (Some key);
       ks \<leftarrow> (case dk of None \<Rightarrow> ret (blk (mkeys h))
                       | Some p \<Rightarrow> ptr_store (blk (mkeys h)) (mcount h - 1) p);
       let h1 = h\<lparr>mkeys := Some ks\<rparr>;
       if rk \<noteq> 0 then do { h2 \<leftarrow> Map_DecreaseStorageKeysValues h1; ret (FAILURE, h2) }
       else insert_storeValue h1 val
     }
   }"

definition filter_rejects :: "MAP_HANDLE_DATA \<Rightarrow> u8 list \<Rightarrow> u8 list \<Rightarrow> bool" where
  "filter_rejects handleData key val =
     (case mapFilterCallback handleData of None \<Rightarrow> False | Some f \<Rightarrow> f key val \<noteq> 0)"

definition Map_Add ::
    "MAP_HANDLE_DATA option \<Rightarrow> u8 list option \<Rightarrow> u8 list option \<Rightarrow> (MAP_RESULT \<times> MAP_HANDLE_DATA option) cm" where
  "Map_Add handle key val =
     (case (handle, key, val) of
        (Some handleData, Some k, Some v) \<Rightarrow> do {
          f \<leftarrow> findKey handleData k;
          if f \<noteq> None then ret (MAP_KEYEXISTS, handle)
          else if filter_rejects handleData k v then ret (MAP_FILTER_REJECT, handle)
          else do {
            (r, h) \<leftarrow> insertNewKeyValue handleData k v;
            ret (if r \<noteq> 0 then MAP_ERROR else MAP_OK, Some h)
          }
        }
      | _ \<Rightarrow> ret (MAP_INVALIDARG, handle))"

definition Map_AddOrUpdate ::
    "MAP_HANDLE_DATA option \<Rightarrow> u8 list option \<Rightarrow> u8 list option \<Rightarrow> (MAP_RESULT \<times> MAP_HANDLE_DATA option) cm" where
  "Map_AddOrUpdate handle key val =
     (case (handle, key, val) of
        (Some handleData, Some k, Some v) \<Rightarrow>
          if filter_rejects handleData k v then ret (MAP_FILTER_REJECT, handle)
          else do {
            whereIsIt \<leftarrow> findKey handleData k;
            (case whereIsIt of
               None \<Rightarrow> do {
                 (r, h) \<leftarrow> insertNewKeyValue handleData k v;
                 ret (if r \<noteq> 0 then MAP_ERROR else MAP_OK, Some h)
               }
             | Some index \<Rightarrow> do {
                 valueLength \<leftarrow> c_strlen v;
                 old \<leftarrow> ptr_load (blk (mvalues handleData)) index;
                 newValue \<leftarrow> c_realloc old (szt (valueLength + 1));
                 (case newValue of
                    None \<Rightarrow> ret (MAP_ERROR, handle)
                  | Some nv \<Rightarrow> do {
                      nv' \<leftarrow> c_memcpy nv 0 v 0 (szt (valueLength + 1));
                      vs \<leftarrow> ptr_store (blk (mvalues handleData)) index (Some nv');
                      ret (MAP_OK, Some (handleData\<lparr>mvalues := Some vs\<rparr>))
                    })
               })
          }
      | _ \<Rightarrow> ret (MAP_INVALIDARG, handle))"

text \<open>\<open>memmove (arr + index, arr + index + 1, (count - index - 1) * sizeof (char* ))\<close>.\<close>

definition ptrs_shift :: "'a list \<Rightarrow> nat \<Rightarrow> nat \<Rightarrow> 'a list cm" where
  "ptrs_shift arr index count = do {
     c_assert (count \<le> length arr);
     ret (put arr index (take (count - index - 1) (drop (index + 1) arr)))
   }"

definition Map_Delete ::
    "MAP_HANDLE_DATA option \<Rightarrow> u8 list option \<Rightarrow> (MAP_RESULT \<times> MAP_HANDLE_DATA option) cm" where
  "Map_Delete handle key =
     (case (handle, key) of
        (Some handleData, Some k) \<Rightarrow> do {
          whereIsIt \<leftarrow> findKey handleData k;
          (case whereIsIt of
             None \<Rightarrow> ret (MAP_KEYNOTFOUND, handle)
           | Some index \<Rightarrow> do {
               ko \<leftarrow> ptr_load (blk (mkeys handleData)) index;
               c_free ko;
               vo \<leftarrow> ptr_load (blk (mvalues handleData)) index;
               c_free vo;
               ks \<leftarrow> ptrs_shift (blk (mkeys handleData)) index (mcount handleData);
               vs \<leftarrow> ptrs_shift (blk (mvalues handleData)) index (mcount handleData);
               h \<leftarrow> Map_DecreaseStorageKeysValues (handleData\<lparr>mkeys := Some ks, mvalues := Some vs\<rparr>);
               ret (MAP_OK, Some h)
             })
        }
      | _ \<Rightarrow> ret (MAP_INVALIDARG, handle))"

text \<open>The second component of the two queries is what is stored through the output pointer.\<close>

definition Map_ContainsKey ::
    "MAP_HANDLE_DATA option \<Rightarrow> u8 list option \<Rightarrow> bool \<Rightarrow> (MAP_RESULT \<times> bool option) cm" where
  "Map_ContainsKey handle key keyExists =
     (case (handle, key) of
        (Some handleData, Some k) \<Rightarrow>
          if \<not> keyExists then ret (MAP_INVALIDARG, None)
          else do { f \<leftarrow> findKey handleData k; ret (MAP_OK, Some (f \<noteq> None)) }
      | _ \<Rightarrow> ret (MAP_INVALIDARG, None))"

definition Map_ContainsValue ::
    "MAP_HANDLE_DATA option \<Rightarrow> u8 list option \<Rightarrow> bool \<Rightarrow> (MAP_RESULT \<times> bool option) cm" where
  "Map_ContainsValue handle val valueExists =
     (case (handle, val) of
        (Some handleData, Some v) \<Rightarrow>
          if \<not> valueExists then ret (MAP_INVALIDARG, None)
          else do { f \<leftarrow> findValue handleData v; ret (MAP_OK, Some (f \<noteq> None)) }
      | _ \<Rightarrow> ret (MAP_INVALIDARG, None))"

definition Map_GetValueFromKey ::
    "MAP_HANDLE_DATA option \<Rightarrow> u8 list option \<Rightarrow> u8 list option cm" where
  "Map_GetValueFromKey handle key =
     (case (handle, key) of
        (Some handleData, Some k) \<Rightarrow> do {
          whereIsIt \<leftarrow> findKey handleData k;
          (case whereIsIt of
             None \<Rightarrow> ret None
           | Some index \<Rightarrow> ptr_load (blk (mvalues handleData)) index)
        }
      | _ \<Rightarrow> ret None)"

definition Map_GetInternals ::
    "MAP_HANDLE_DATA option \<Rightarrow> bool \<Rightarrow> bool \<Rightarrow> bool \<Rightarrow>
     MAP_RESULT \<times> (u8 list option list option \<times> u8 list option list option \<times> nat) option" where
  "Map_GetInternals handle k v c =
     (case handle of
        None \<Rightarrow> (MAP_INVALIDARG, None)
      | Some handleData \<Rightarrow>
          if \<not> k \<or> \<not> v \<or> \<not> c then (MAP_INVALIDARG, None)
          else (MAP_OK, Some (mkeys handleData, mvalues handleData, mcount handleData)))"

text \<open>\<open>Map_ToJSON\<close>: the chain of \<open>&&\<close> that appends one entry (its status, 0 when every call
  succeeded, and the string so far), the loop (\<open>None\<close> once \<open>breakFor\<close> is set), the whole.\<close>

definition ToJSON_entry ::
    "nat \<Rightarrow> STRING option \<Rightarrow> STRING option \<Rightarrow> STRING option \<Rightarrow> (bool \<times> STRING option) cm" where
  "ToJSON_entry i result key val = do {
     (r0, s0) \<leftarrow> (if i > 0 then STRING_concat result (Some (clit '','')) else ret (0, result));
     if r0 \<noteq> 0 then ret (False, s0)
     else do {
       (r1, s1) \<leftarrow> STRING_concat_with_STRING s0 key;
       if r1 \<noteq> 0 then ret (False, s1)
       else do {
         (r2, s2) \<leftarrow> STRING_concat s1 (Some (clit '':''));
         if r2 \<noteq> 0 then ret (False, s2)
         else do {
           (r3, s3) \<leftarrow> STRING_concat_with_STRING s2 val;
           ret (r3 = 0, s3)
         }
       }
     }
   }"

function ToJSON_loop :: "MAP_HANDLE_DATA \<Rightarrow> nat \<Rightarrow> STRING option \<Rightarrow> STRING option cm" where
  "ToJSON_loop handleData i result =
     (if i < mcount handleData then do {
        k \<leftarrow> ptr_load (blk (mkeys handleData)) i;
        key \<leftarrow> STRING_new_JSON k;
        if key = None then do { STRING_delete result; ret None }
        else do {
          v \<leftarrow> ptr_load (blk (mvalues handleData)) i;
          val \<leftarrow> STRING_new_JSON v;
          if val = None then do { STRING_delete result; STRING_delete key; ret None }
          else do {
            (ok, s) \<leftarrow> ToJSON_entry i result key val;
            if \<not> ok then do { STRING_delete s; STRING_delete val; STRING_delete key; ret None }
            else do {
              STRING_delete val;
              STRING_delete key;
              ToJSON_loop handleData (Suc i) s
            }
          }
        }
      }
      else ret result)"
  by pat_completeness auto
termination
  by (relation "measure (\<lambda>(m, i, r). mcount m - i)") auto

definition Map_ToJSON :: "MAP_HANDLE_DATA option \<Rightarrow> STRING option cm" where
  "Map_ToJSON handle =
     (case handle of
        None \<Rightarrow> ret None
      | Some handleData \<Rightarrow> do {
          result \<leftarrow> STRING_construct (Some (clit ''{''));
          if result = None then ret None
          else do {
            s \<leftarrow> ToJSON_loop handleData 0 result;
            if s = None then ret None
            else do {
              (r, s') \<leftarrow> STRING_concat s (Some (clit ''}''));
              if r \<noteq> 0 then do { STRING_delete s'; ret None }
              else ret s'
            }
          }
        })"

section \<open>Well-formed maps and what they hold\<close>

text \<open>\<open>map_rep m ks vs\<close>: the first \<open>mcount\<close> slots of the two arrays point to the strings \<open>ks\<close> and \<open>vs\<close>, no two
  keys are equal, and an empty map has no arrays.\<close>

definition cstr_block :: "u8 list \<Rightarrow> bool" where
  "cstr_block s \<longleftrightarrow> is_cstr s \<and> length (c_str s) + 1 < SIZE_MOD"

definition map_rep :: "MAP_HANDLE_DATA \<Rightarrow> u8 list list \<Rightarrow> u8 list list \<Rightarrow> bool" where
  "map_rep m ks vs \<longleftrightarrow>
     mcount m = length ks \<and> length vs = length ks \<and> 4 * length ks < SIZE_MOD \<and>
     take (length ks) (blk (mkeys m)) = map Some ks \<and> take (length ks) (blk (mvalues m)) = map Some vs \<and>
     list_all cstr_block ks \<and> list_all cstr_block vs \<and> distinct (map c_str ks) \<and>
     (ks = [] \<longrightarrow> mkeys m = None \<and> mvalues m = None)"

definition map_wf :: "MAP_HANDLE_DATA \<Rightarrow> bool" where
  "map_wf m \<longleftrightarrow> map_rep m (map the (take (mcount m) (blk (mkeys m)))) (map the (take (mcount m) (blk (mvalues m))))"

definition map_entries :: "MAP_HANDLE_DATA \<Rightarrow> (u8 list \<times> u8 list) list" where
  "map_entries m = zip (map (c_str \<circ> the) (take (mcount m) (blk (mkeys m))))
                       (map (c_str \<circ> the) (take (mcount m) (blk (mvalues m))))"

definition map_blocks :: "MAP_HANDLE_DATA option \<Rightarrow> int" where
  "map_blocks h = (case h of None \<Rightarrow> 0 | Some m \<Rightarrow> if mcount m = 0 then 1 else 3 + 2 * int (mcount m))"

lemma MAP_update_all:
  "(m :: MAP_HANDLE_DATA)\<lparr>mkeys := a, mvalues := b, mcount := c\<rparr> =
   \<lparr>mkeys = a, mvalues = b, mcount = c, mapFilterCallback = mapFilterCallback m\<rparr>"
  by (cases m) simp

lemma map_wf_rep: "map_wf m \<longleftrightarrow> (\<exists>ks vs. map_rep m ks vs)"
proof
  assume "\<exists>ks vs. map_rep m ks vs"
  then obtain ks vs where r: "map_rep m ks vs" by blast
  then have "map the (take (mcount m) (blk (mkeys m))) = ks" "map the (take (mcount m) (blk (mvalues m))) = vs"
    by (simp_all add: map_rep_def comp_def)
  with r show "map_wf m" by (simp add: map_wf_def)
qed (auto simp: map_wf_def)

lemma map_rep_wf: "map_rep m ks vs \<Longrightarrow> map_wf m"
  by (auto simp: map_wf_rep)

lemma map_rep_entries: "map_rep m ks vs \<Longrightarrow> map_entries m = zip (map c_str ks) (map c_str vs)"
  by (simp add: map_rep_def map_entries_def comp_def)

lemma map_rep_blocks:
  "map_rep m ks vs \<Longrightarrow> map_blocks (Some m) = (if ks = [] then 1 else 3 + 2 * int (length ks))"
  by (simp add: map_rep_def map_blocks_def)

lemma map_rep_slots:
  assumes "map_rep m ks vs" "i < length ks"
  shows "i < length (blk (mkeys m))" "blk (mkeys m) ! i = Some (ks ! i)"
    "i < length (blk (mvalues m))" "blk (mvalues m) ! i = Some (vs ! i)"
proof -
  have k: "take (length ks) (blk (mkeys m)) = map Some ks"
    and v: "take (length ks) (blk (mvalues m)) = map Some vs" and l: "length vs = length ks"
    using assms(1) by (simp_all add: map_rep_def)
  have "length (take (length ks) (blk (mkeys m))) = length ks"
    "length (take (length ks) (blk (mvalues m))) = length ks" unfolding k v using l by simp_all
  then show "i < length (blk (mkeys m))" "i < length (blk (mvalues m))"
    using assms(2) by (simp_all add: min_def split: if_splits)
  show "blk (mkeys m) ! i = Some (ks ! i)" "blk (mvalues m) ! i = Some (vs ! i)"
    using assms(2) l arg_cong [OF k, of "\<lambda>x. x ! i"] arg_cong [OF v, of "\<lambda>x. x ! i"] by simp_all
qed

lemma map_rep_cstr:
  assumes "map_rep m ks vs" "i < length ks"
  shows "is_cstr (ks ! i)" "is_cstr (vs ! i)" "length (c_str (ks ! i)) + 1 < SIZE_MOD" "length (c_str (vs ! i)) + 1 < SIZE_MOD"
  using assms by (auto simp: map_rep_def list_all_length cstr_block_def)

lemma map_rep_arrays:
  assumes "map_rep m ks vs"
  shows "mkeys m = None \<longleftrightarrow> ks = []" "mvalues m = None \<longleftrightarrow> ks = []"
proof -
  have r: "length vs = length ks" "take (length ks) (blk (mkeys m)) = map Some ks"
    "take (length ks) (blk (mvalues m)) = map Some vs" "ks = [] \<longrightarrow> mkeys m = None \<and> mvalues m = None"
    using assms by (simp_all add: map_rep_def)
  have "map Some ks = []" if "mkeys m = None" using r(2) that by simp
  then show "mkeys m = None \<longleftrightarrow> ks = []" using r(4) by auto
  have "length (map Some vs) = 0" if "mvalues m = None" using r(3) that by (metis blk_simps(1) take_Nil list.size(3))
  then show "mvalues m = None \<longleftrightarrow> ks = []" using r(1,4) by auto
qed

section \<open>Weakest preconditions\<close>

declare free_slots.simps [simp del] Map_Destroy_loop.simps [simp del] CloneVector_loop.simps [simp del]
  find_loop.simps [simp del] ToJSON_loop.simps [simp del]

lemma wp_ptr_store [simp, wp_simps]: "i < length a \<Longrightarrow> wp (ptr_store a i p) Q w = Q (a[i := p]) w"
  by (simp add: ptr_store_def)

lemma wp_ptr_load [simp, wp_simps]: "i < length a \<Longrightarrow> wp (ptr_load a i) Q w = Q (a ! i) w"
  by (simp add: ptr_load_def)

lemma wp_ptr_strcmp [simp, wp_simps]:
  "is_cstr s \<Longrightarrow> is_cstr t \<Longrightarrow> wp (ptr_strcmp (Some s) (Some t)) Q w = Q (c_strcmp_bytes (c_str s) (c_str t)) w"
  by (simp add: ptr_strcmp_def)

lemma wp_ptrs_shift [simp, wp_simps]:
  "n \<le> length a \<Longrightarrow> wp (ptrs_shift a i n) Q w = Q (put a i (take (n - i - 1) (drop (i + 1) a))) w"
  by (simp add: ptrs_shift_def)

lemma wp_ptrs_malloc [wp_intros]:
  assumes "\<And>w'. next_alloc w = None \<Longrightarrow> avail w' = tl (avail w) \<Longrightarrow> live w' = live w \<Longrightarrow>
             faults w' = faults w \<Longrightarrow> Q None w'"
    and "\<And>bs w'. length bs = n div 4 \<Longrightarrow> next_alloc w \<noteq> None \<Longrightarrow> avail w' = tl (avail w) \<Longrightarrow>
             live w' = live w + 1 \<Longrightarrow> faults w' = faults w \<Longrightarrow> Q (Some bs) w'"
  shows "wp (ptrs_malloc n) Q w"
  unfolding ptrs_malloc_def wp_bind
  by (rule wp_request) (auto simp: assms split: option.splits)

lemma wp_ptrs_realloc [wp_intros]:
  assumes "n \<noteq> 0"
    and "\<And>w'. next_alloc w = None \<Longrightarrow> avail w' = tl (avail w) \<Longrightarrow> live w' = live w \<Longrightarrow>
             faults w' = faults w \<Longrightarrow> Q None w'"
    and "\<And>ys w'. length ys = n div 4 - length (blk p) \<Longrightarrow> next_alloc w \<noteq> None \<Longrightarrow>
             avail w' = tl (avail w) \<Longrightarrow> live w' = live w + (if p = None then 1 else 0) \<Longrightarrow>
             faults w' = faults w \<Longrightarrow> Q (Some (take (n div 4) (blk p) @ ys)) w'"
  shows "wp (ptrs_realloc p n) Q w"
proof (cases p)
  case None
  have "wp (ptrs_malloc n) Q w"
    by (rule wp_ptrs_malloc) (use assms None in \<open>force simp: blk_def\<close>)+
  with None show ?thesis by (simp add: ptrs_realloc_def)
next
  case (Some old)
  show ?thesis
    unfolding ptrs_realloc_def Some option.case wp_bind wp_assert [OF assms(1)]
    by (rule wp_request) (use assms Some in \<open>auto simp: map_option_case split: option.splits\<close>)
qed

text \<open>One more slot behind the first \<open>k\<close>.\<close>

lemma wp_ptrs_grow:
  assumes "take k (blk p) = map Some xs" "length xs = k"
    and "\<And>w'. next_alloc w = None \<Longrightarrow> avail w' = tl (avail w) \<Longrightarrow> live w' = live w \<Longrightarrow>
             faults w' = faults w \<Longrightarrow> Q None w'"
    and "\<And>y w'. next_alloc w \<noteq> None \<Longrightarrow> avail w' = tl (avail w) \<Longrightarrow>
             live w' = live w + (if p = None then 1 else 0) \<Longrightarrow> faults w' = faults w \<Longrightarrow>
             Q (Some (map Some xs @ [y])) w'"
  shows "wp (ptrs_realloc p (Suc k * 4)) Q w"
proof (rule wp_ptrs_realloc, goal_cases)
  case (3 ys w')
  have "k \<le> length (blk p)" using assms(1,2) by (metis length_map length_take min.cobounded1)
  then have "length (take 1 (drop k (blk p)) @ ys) = 1" using 3(1) by simp
  then obtain y where "take 1 (drop k (blk p)) @ ys = [y]" by (metis length_0_conv length_Suc_conv One_nat_def)
  then have "take (Suc k) (blk p) @ ys = map Some xs @ [y]"
    using take_add [of k 1 "blk p"] assms(1) by simp
  with assms(4) [OF 3(2-5), of y] show ?case by simp
qed (use assms(3) in simp_all)

lemma wp_find_loop:
  assumes "\<And>i. i < length xs \<Longrightarrow> i < length arr \<and> arr ! i = Some (xs ! i) \<and> is_cstr (xs ! i)" "is_cstr x"
    and "c_str x \<notin> set (map c_str (drop i xs)) \<Longrightarrow> Q None w"
    and "\<And>j. j < length xs \<Longrightarrow> c_str (xs ! j) = c_str x \<Longrightarrow> Q (Some j) w"
  shows "wp (find_loop arr i (length xs) x) Q w"
  using assms(3)
proof (induction "length xs - i" arbitrary: i)
  case 0
  then show ?case by (simp add: find_loop.simps [of arr i])
next
  case (Suc d)
  then have i: "i < length xs" by simp
  have step: "drop i xs = xs ! i # drop (Suc i) xs" using i by (simp add: Cons_nth_drop_Suc)
  have IH: "wp (find_loop arr (Suc i) (length xs) x) Q w" if "c_str (xs ! i) \<noteq> c_str x"
    using Suc.hyps(2) Suc.prems that by (intro Suc.hyps(1)) (auto simp: step)
  show ?case
    using assms(1) [OF i] assms(2,4) i IH by (auto simp: find_loop.simps [of arr i])
qed

lemma wp_findKey:
  assumes "map_rep m ks vs" "is_cstr x"
    and "c_str x \<notin> set (map c_str ks) \<Longrightarrow> Q None w"
    and "\<And>j. j < length ks \<Longrightarrow> c_str (ks ! j) = c_str x \<Longrightarrow> Q (Some j) w"
  shows "wp (findKey m x) Q w"
proof (cases "mkeys m")
  case None
  then have "ks = []" using assms(1) by (cases ks) (auto simp: map_rep_def)
  then show ?thesis using None assms(3) by (simp add: findKey_def)
next
  case (Some arr)
  have "wp (find_loop arr 0 (length ks) x) Q w"
    by (rule wp_find_loop) (use assms Some map_rep_slots [OF assms(1)] map_rep_cstr [OF assms(1)] in auto)
  moreover have "mcount m = length ks" using assms(1) by (simp add: map_rep_def)
  ultimately show ?thesis using Some by (simp add: findKey_def)
qed

lemma wp_findValue:
  assumes "map_rep m ks vs" "is_cstr x"
    and "c_str x \<notin> set (map c_str vs) \<Longrightarrow> Q None w"
    and "\<And>j. j < length vs \<Longrightarrow> c_str (vs ! j) = c_str x \<Longrightarrow> Q (Some j) w"
  shows "wp (findValue m x) Q w"
proof (cases "mvalues m")
  case None
  then have "vs = []" using assms(1) by (cases vs) (auto simp: map_rep_def)
  then show ?thesis using None assms(3) by (simp add: findValue_def)
next
  case (Some arr)
  have len: "mcount m = length vs" "length ks = length vs" using assms(1) by (simp_all add: map_rep_def)
  have "wp (find_loop arr 0 (length vs) x) Q w"
    by (rule wp_find_loop) (use assms Some map_rep_slots [OF assms(1)] map_rep_cstr [OF assms(1)] len in auto)
  then show ?thesis using Some len by (simp add: findValue_def)
qed

lemma wp_Map_IncreaseStorageKeysValues:
  assumes rep: "map_rep m ks vs" and fits: "4 * Suc (length ks) < SIZE_MOD"
    and failed: "\<And>m' w'. map_rep m' ks vs \<Longrightarrow> mapFilterCallback m' = mapFilterCallback m \<Longrightarrow> \<not> plenty 2 w \<Longrightarrow>
             live w' = live w \<Longrightarrow> faults w' = faults w \<Longrightarrow> Q (FAILURE, m') w'"
    and done1: "\<And>w'. avail w' = tl (tl (avail w)) \<Longrightarrow> live w' = live w + (if ks = [] then 2 else 0) \<Longrightarrow> faults w' = faults w \<Longrightarrow>
             next_alloc w \<noteq> None \<Longrightarrow>
             Q (0, \<lparr>mkeys = Some (map Some ks @ [None]), mvalues = Some (map Some vs @ [None]),
                    mcount = Suc (length ks), mapFilterCallback = mapFilterCallback m\<rparr>) w'"
  shows "wp (Map_IncreaseStorageKeysValues m) Q w"
proof -
  let ?n = "length ks"
  have r: "mcount m = ?n" "length vs = ?n" "take ?n (blk (mkeys m)) = map Some ks"
    "take ?n (blk (mvalues m)) = map Some vs" "ks = [] \<longrightarrow> mkeys m = None \<and> mvalues m = None"
    using rep by (auto simp: map_rep_def)
  note none = map_rep_arrays [OF rep]
  have sz: "szt (szt (Suc ?n) * 4) = Suc ?n * 4" "szt (?n * 4) = ?n * 4" using fits by simp_all
  have undo: "map_rep (m\<lparr>mkeys := Some (map Some ks @ ys)\<rparr>) ks vs" if "ks \<noteq> []" for ys
    using rep that by (simp add: map_rep_def)
  have same: "m\<lparr>mkeys := None\<rparr> = m" if "ks = []"
    using that r by (cases m) simp
  show ?thesis
    unfolding Map_IncreaseStorageKeysValues_def wp_bind r(1)
  proof (simp only: add_0_right Suc_eq_plus1 [symmetric] sz, rule wp_ptrs_grow [where xs = ks], goal_cases)
    case (3 w1)
    then show ?case using failed [OF rep] by (simp add: starved)
  next
    case (4 y w1)
    have upd: "(map Some ks @ [y])[?n := None] = map Some ks @ [None]" by (simp add: list_update_append)
    have "wp (ptrs_realloc (mvalues m) (Suc ?n * 4)) (\<lambda>newValues.
       wp (case newValues of
             None \<Rightarrow>
               if mcount m = 0 then do { c_free (Some (map Some ks @ [None])); ret (FAILURE, m\<lparr>mkeys := None\<rparr>) }
               else do {
                 undoneKeys \<leftarrow> ptrs_realloc (Some (map Some ks @ [None])) (?n * 4);
                 (case undoneKeys of
                    None \<Rightarrow> ret (FAILURE, m\<lparr>mkeys := Some (map Some ks @ [None])\<rparr>)
                  | Some uk \<Rightarrow> ret (FAILURE, m\<lparr>mkeys := Some uk\<rparr>))
               }
           | Some nv \<Rightarrow> do {
               nv' \<leftarrow> ptr_store nv ?n None;
               ret (0, m\<lparr>mkeys := Some (map Some ks @ [None]), mvalues := Some nv', mcount := Suc ?n\<rparr>)
             }) Q) w1"
    proof (rule wp_ptrs_grow [where xs = vs], goal_cases)
      case (3 w2)
      then have np: "\<not> plenty 2 w" using 4 by (simp add: starved)
      have acc: "live w2 = live w + (if ks = [] then 1 else 0)" "faults w2 = faults w"
        using 3 4 none by simp_all
      show ?case
      proof (cases "ks = []")
        case True
        then show ?thesis using acc r(1) same failed [OF rep _ np] by simp
      next
        case False
        have "wp (ptrs_realloc (Some (map Some ks @ [None])) (?n * 4)) (\<lambda>undoneKeys.
            wp (case undoneKeys of
                  None \<Rightarrow> ret (FAILURE, m\<lparr>mkeys := Some (map Some ks @ [None])\<rparr>)
                | Some uk \<Rightarrow> ret (FAILURE, m\<lparr>mkeys := Some uk\<rparr>)) Q) w2"
          by (rule wp_ptrs_realloc)
            (use False acc failed [OF undo _ np] failed [OF undo [where ys = "[]", simplified] _ np]
              in \<open>simp_all add: take_map [symmetric]\<close>)
        then show ?thesis using False r(1) by simp
      qed
    next
      case (4 y' w2)
      have "(map Some vs @ [y'])[?n := None] = map Some vs @ [None]"
        using r(2) by (simp add: list_update_append)
      moreover have "live w2 = live w + (if ks = [] then 2 else 0)"
        using 4 \<open>live w1 = _\<close> none by auto
      moreover note done1 [of w2]
      ultimately show ?case
        using 4 \<open>avail w1 = tl (avail w)\<close> \<open>faults w1 = faults w\<close> \<open>next_alloc w \<noteq> None\<close> r(2)
        by (simp add: MAP_update_all)
    qed (use r in auto)
    then show ?case using r(1) fits
      by (cases "ks = []") (auto simp: upd sz Let_def elim!: wp_mono split: option.splits)
  qed (use r in auto)
qed

text \<open>Dropping the last slot of a map of \<open>Suc n\<close> slots, whatever that slot holds.\<close>

lemma wp_Map_DecreaseStorageKeysValues:
  assumes "mcount m = Suc (length ks)" "take (length ks) (blk (mkeys m)) = map Some ks"
    "take (length ks) (blk (mvalues m)) = map Some vs" "mkeys m \<noteq> None" "mvalues m \<noteq> None"
    "length vs = length ks" "4 * Suc (length ks) < SIZE_MOD"
    "list_all cstr_block ks" "list_all cstr_block vs" "distinct (map c_str ks)"
    and step: "\<And>m' w'. map_rep m' ks vs \<Longrightarrow>
           mapFilterCallback m' = (if ks = [] then None else mapFilterCallback m) \<Longrightarrow>
           live w' = live w - (if ks = [] then 2 else 0) \<Longrightarrow> faults w' = faults w \<Longrightarrow> Q m' w'"
  shows "wp (Map_DecreaseStorageKeysValues m) Q w"
proof (cases "ks = []")
  case True
  obtain k v where kv: "mkeys m = Some k" "mvalues m = Some v" using assms(4,5) by blast
  have "map_rep (m\<lparr>mkeys := None, mvalues := None, mcount := 0, mapFilterCallback := None\<rparr>) ks vs"
    using True assms(6) by (simp add: map_rep_def SIZE_MOD_def)
  from step [OF this] show ?thesis
    using True assms(1) kv by (simp add: Map_DecreaseStorageKeysValues_def)
next
  case False
  let ?n = "length ks"
  have sz: "szt (4 * ?n) = 4 * ?n" "4 * ?n \<noteq> 0" using False assms(7) by simp_all
  have rep: "map_rep m' ks vs"
    if "take ?n (blk (mkeys m')) = map Some ks" "take ?n (blk (mvalues m')) = map Some vs" "mcount m' = ?n" for m'
    using that assms(6-10) False by (simp add: map_rep_def)
  have "wp (ptrs_realloc (mvalues h) (4 * ?n)) (\<lambda>uv. Q ((case uv of None \<Rightarrow> h | Some v \<Rightarrow> h\<lparr>mvalues := Some v\<rparr>)\<lparr>mcount := ?n\<rparr>)) w1"
    if h: "h = m \<or> (\<exists>k. h = m\<lparr>mkeys := Some k\<rparr> \<and> take ?n k = map Some ks)" and w1: "live w1 = live w" "faults w1 = faults w"
    for h w1
  proof -
    have h': "mvalues h = mvalues m" "mapFilterCallback h = mapFilterCallback m" "take ?n (blk (mkeys h)) = map Some ks"
      using h assms(2) by auto
    show ?thesis
      by (rule wp_ptrs_realloc)
        (use h' w1 sz False assms(3,5,6) in \<open>auto intro!: step rep\<close>)
  qed
  note vals = this
  have "wp (ptrs_realloc (mkeys m) (4 * ?n)) (\<lambda>uk. let h = (case uk of None \<Rightarrow> m | Some k \<Rightarrow> m\<lparr>mkeys := Some k\<rparr>) in
      wp (ptrs_realloc (mvalues h) (4 * ?n)) (\<lambda>uv. Q ((case uv of None \<Rightarrow> h | Some v \<Rightarrow> h\<lparr>mvalues := Some v\<rparr>)\<lparr>mcount := ?n\<rparr>))) w"
  proof (rule wp_ptrs_realloc, goal_cases)
    case (3 ys w')
    let ?h = "m\<lparr>mkeys := Some (map Some ks @ ys)\<rparr>"
    have "?h = m \<or> (\<exists>k. ?h = m\<lparr>mkeys := Some k\<rparr> \<and> take ?n k = map Some ks)"
      by (intro disjI2 exI [of _ "map Some ks @ ys"]) simp
    from vals [OF this, of w'] show ?case
      using 3 assms(2,4) by (simp add: Let_def split: if_splits)
  qed (use sz(2) vals in \<open>auto simp: Let_def\<close>)
  then show ?thesis
    unfolding Map_DecreaseStorageKeysValues_def using False assms(1)
    by (auto simp: sz Let_def elim!: wp_mono split: option.splits)
qed

definition dup_str :: "u8 list \<Rightarrow> u8 list" where
  "dup_str s = c_str s @ [0]"

lemma dup_str_simps [simp]: "c_str (dup_str s) = c_str s" "is_cstr (dup_str s)"
  "cstr_block s \<Longrightarrow> cstr_block (dup_str s)" "length (dup_str s) = Suc (length (c_str s))"
  by (simp_all add: dup_str_def cstr_block_def)

lemma c_str_dup_str [simp]: "c_str \<circ> dup_str = c_str"
  by (simp add: fun_eq_iff)

lemma wp_insertNewKeyValue:
  assumes rep: "map_rep m ks vs" and fits: "4 * Suc (length ks) < SIZE_MOD"
    and args: "cstr_block key" "cstr_block val" "c_str key \<notin> set (map c_str ks)"
    and failed: "\<And>m' w'. map_rep m' ks vs \<Longrightarrow>
           mapFilterCallback m' = mapFilterCallback m \<or> ks = [] \<and> mapFilterCallback m' = None \<Longrightarrow>
           \<not> plenty 4 w \<Longrightarrow> live w' = live w \<Longrightarrow> faults w' = faults w \<Longrightarrow> Q (FAILURE, m') w'"
    and inserted: "\<And>m' w'. map_rep m' (ks @ [dup_str key]) (vs @ [dup_str val]) \<Longrightarrow>
           mapFilterCallback m' = mapFilterCallback m \<Longrightarrow>
           live w' = live w + (if ks = [] then 4 else 2) \<Longrightarrow> faults w' = faults w \<Longrightarrow>
           avail w' = drop 4 (avail w) \<Longrightarrow> Q (0, m') w'"
  shows "wp (insertNewKeyValue m key val) Q w"
proof -
  let ?n = "length ks"
  let ?h = "\<lambda>k v. \<lparr>mkeys = Some (map Some ks @ [k]), mvalues = Some (map Some vs @ [v]),
                 mcount = Suc ?n, mapFilterCallback = mapFilterCallback m\<rparr>"
  have r: "length vs = ?n" "list_all cstr_block ks" "list_all cstr_block vs" "distinct (map c_str ks)"
    using rep by (auto simp: map_rep_def)
  have key: "is_cstr key" "length (c_str key) + 1 < SIZE_MOD" and val: "is_cstr val" "length (c_str val) + 1 < SIZE_MOD"
    using args by (auto simp: cstr_block_def)
  have full: "map_rep (?h (Some (dup_str key)) (Some (dup_str val))) (ks @ [dup_str key]) (vs @ [dup_str val])"
    using r fits args by (auto simp: map_rep_def)
  have undo: "wp (Map_DecreaseStorageKeysValues (?h k v)) (\<lambda>m'. Q (FAILURE, m')) w2"
    if "\<not> plenty 4 w" "live w2 = live w + (if ks = [] then 2 else 0)" "faults w2 = faults w" for k v w2
    by (rule wp_Map_DecreaseStorageKeysValues [where ks = ks and vs = vs])
      (use that r fits in \<open>auto intro!: failed split: if_splits\<close>)
  have slots: "(map Some ks @ [k])[?n := k'] = map Some ks @ [k']" "(map Some ks @ [k]) ! ?n = k"
    "(map Some vs @ [v])[?n := v'] = map Some vs @ [v']" for k k' v v'
    using r(1) by (simp_all add: list_update_append nth_append)
  have less4: "\<not> plenty 4 w" if "\<not> plenty 2 w" using that plenty_le [of 4 w 2] by auto
  have storeval: "wp (insert_storeValue (?h (Some (dup_str key)) None) val) Q w2"
    if w2: "avail w2 = drop 3 (avail w)" "live w2 = live w + (if ks = [] then 3 else 1)" "faults w2 = faults w"
      for w2
    unfolding insert_storeValue_def wp_bind
  proof (rule wp_mallocAndStrcpy_s [OF val], goal_cases)
    case (1 w3)
    then have np: "\<not> plenty 4 w" using w2 not_plenty_drop [of w2 3 w 4] by simp
    have "wp (Map_DecreaseStorageKeysValues (?h (Some (dup_str key)) None)) (\<lambda>m'. Q (FAILURE, m'))
        (w3\<lparr>live := live w3 - 1\<rparr>)"
      by (rule undo [OF np]) (use 1 w2 in auto)
    with 1 show ?case by (simp add: slots ENOMEM_def)
  next
    case (2 w3)
    have "avail w3 = drop 4 (avail w)" using 2 w2 by (simp add: numeral_eq_Suc drop_Suc tl_drop)
    then have "Q (0, ?h (Some (dup_str key)) (Some (dup_str val))) w3"
      by (intro inserted [OF full]) (use 2 w2 in auto)
    with 2 show ?case using r(1) by (simp add: slots flip: dup_str_def)
  qed
  show ?thesis
    unfolding insertNewKeyValue_def wp_bind
  proof (rule wp_Map_IncreaseStorageKeysValues [OF rep fits], goal_cases)
    case (1 m' w')
    then show ?case using failed [OF 1(1) _ less4] by simp
  next
    case (2 w1)
    then have w1: "avail w1 = drop 2 (avail w)" by (simp add: numeral_2_eq_2 drop_Suc)
    show ?case
    proof (simp, rule wp_mallocAndStrcpy_s [OF key], goal_cases)
      case (1 w2)
      then have np: "\<not> plenty 4 w" using w1 not_plenty_drop [of w1 2 w 4] by simp
      have "wp (Map_DecreaseStorageKeysValues (?h None None)) (\<lambda>m'. Q (FAILURE, m')) w2"
        by (rule undo [OF np]) (use 1 2 in auto)
      with 1 show ?case by (simp add: ENOMEM_def)
    next
      case (2 w2)
      have "avail w2 = drop 3 (avail w)" using 2 w1 by (simp add: drop_Suc tl_drop numeral_3_eq_3 numeral_2_eq_2)
      from storeval [OF this] show ?case
        using 2 \<open>live w1 = _\<close> \<open>faults w1 = _\<close> by (simp add: slots flip: dup_str_def)
    qed
  qed
qed

section \<open>The contract of the mutating operations\<close>

datatype map_op =
    Add "u8 list option" "u8 list option"
  | AddOrUpdate "u8 list option" "u8 list option"
  | Delete "u8 list option"

fun map_exec :: "map_op \<Rightarrow> MAP_HANDLE_DATA option \<Rightarrow> (MAP_RESULT \<times> MAP_HANDLE_DATA option) cm" where
  "map_exec (Add k v) h = Map_Add h k v"
| "map_exec (AddOrUpdate k v) h = Map_AddOrUpdate h k v"
| "map_exec (Delete k) h = Map_Delete h k"

definition str_arg :: "u8 list option \<Rightarrow> bool" where
  "str_arg s = (case s of None \<Rightarrow> True | Some z \<Rightarrow> cstr_block z)"

fun map_args_ok :: "map_op \<Rightarrow> bool" where
  "map_args_ok (Add k v) = (str_arg k \<and> str_arg v)"
| "map_args_ok (AddOrUpdate k v) = (str_arg k \<and> str_arg v)"
| "map_args_ok (Delete k) = str_arg k"

type_synonym map_value = "(u8 list \<times> u8 list) list \<times> MAP_FILTER_CALLBACK option"

definition map_abs :: "MAP_HANDLE_DATA \<Rightarrow> map_value" where
  "map_abs m = (map_entries m, mapFilterCallback m)"

definition rejected :: "MAP_FILTER_CALLBACK option \<Rightarrow> u8 list \<Rightarrow> u8 list \<Rightarrow> bool" where
  "rejected f k v = (case f of None \<Rightarrow> False | Some g \<Rightarrow> g k v \<noteq> 0)"

text \<open>The map is a list of entries in insertion order, updated and searched by key. When memory is
  short an insertion changes no entry, but on an empty map it may lose the filter; deleting the last
  entry always does.\<close>

definition short_of_memory :: "map_value \<Rightarrow> map_value \<Rightarrow> bool" where
  "short_of_memory a a' \<longleftrightarrow> a' = a \<or> fst a = [] \<and> a' = ([], None)"

fun map_spec :: "map_op \<Rightarrow> MAP_RESULT \<Rightarrow> map_value \<Rightarrow> map_value \<Rightarrow> bool" where
  "map_spec (Add (Some k) (Some v)) r (es, f) a' =
     (if c_str k \<in> fst ` set es then r = MAP_KEYEXISTS \<and> a' = (es, f)
      else if rejected f k v then r = MAP_FILTER_REJECT \<and> a' = (es, f)
      else r = MAP_OK \<and> a' = (es @ [(c_str k, c_str v)], f) \<or> r = MAP_ERROR \<and> short_of_memory (es, f) a')"
| "map_spec (AddOrUpdate (Some k) (Some v)) r (es, f) a' =
     (if rejected f k v then r = MAP_FILTER_REJECT \<and> a' = (es, f)
      else r = MAP_OK \<and> a' = (AList.update (c_str k) (c_str v) es, f) \<or>
           r = MAP_ERROR \<and> short_of_memory (es, f) a')"
| "map_spec (Delete (Some k)) r (es, f) a' =
     (if c_str k \<notin> fst ` set es then r = MAP_KEYNOTFOUND \<and> a' = (es, f)
      else r = MAP_OK \<and> a' = (let es' = AList.delete (c_str k) es in (es', if es' = [] then None else f)))"
| "map_spec _ r a a' = (r = MAP_INVALIDARG \<and> a' = a)"

definition map_oom :: "map_op \<Rightarrow> MAP_RESULT \<Rightarrow> map_value \<Rightarrow> bool" where
  "map_oom op r a \<longleftrightarrow> r = MAP_ERROR"

definition map_size :: "MAP_HANDLE_DATA \<Rightarrow> nat" where
  "map_size m = 4 * mcount m"

definition map_step_ok :: "map_op \<Rightarrow> MAP_HANDLE_DATA \<Rightarrow> world \<Rightarrow> MAP_RESULT \<times> MAP_HANDLE_DATA option \<Rightarrow> world \<Rightarrow> bool" where
  "map_step_ok op m w = (\<lambda>(r, h1) w'. \<exists>h'. h1 = Some h' \<and> map_wf h' \<and> map_size h' \<le> map_size m + 4 \<and>
     faults w' = faults w \<and> live w' - live w = map_blocks (Some h') - map_blocks (Some m) \<and>
     map_spec op r (map_abs m) (map_abs h') \<and> (map_oom op r (map_abs m) \<longrightarrow> \<not> plenty 4 w))"

lemma map_step_same:
  assumes "map_wf m" "map_spec op r (map_abs m) (map_abs m)" "r \<noteq> MAP_ERROR"
  shows "map_step_ok op m w (r, Some m) w"
  using assms by (simp add: map_step_ok_def map_oom_def)

lemma map_step_rep:
  assumes "map_rep m ks vs" "map_rep m' ks' vs'" "length ks' \<le> Suc (length ks)"
    "live w' = live w + (map_blocks (Some m') - map_blocks (Some m))" "faults w' = faults w"
    "map_spec op r (zip (map c_str ks) (map c_str vs), mapFilterCallback m)
       (zip (map c_str ks') (map c_str vs'), mapFilterCallback m')"
    "r = MAP_ERROR \<Longrightarrow> \<not> plenty 4 w"
  shows "map_step_ok op m w (r, Some m') w'"
  using assms(3-7) map_rep_entries [OF assms(1)] map_rep_entries [OF assms(2)] map_rep_wf [OF assms(2)]
    assms(1,2)
  by (simp add: map_step_ok_def map_oom_def map_abs_def map_size_def map_rep_def)

lemma rep_fst_set:
  "map_rep m ks vs \<Longrightarrow> fst ` set (zip (map c_str ks) (map c_str vs)) = c_str ` set ks"
  by (simp add: map_rep_def flip: set_map)

lemma wp_insert_step:
  assumes rep: "map_rep m ks vs" and fits: "4 * Suc (length ks) < SIZE_MOD"
    and args: "cstr_block k" "cstr_block v" "c_str k \<notin> set (map c_str ks)"
    and failed: "\<And>a'. short_of_memory (map_abs m) a' \<Longrightarrow> map_spec op MAP_ERROR (map_abs m) a'"
    and inserted: "map_spec op MAP_OK (map_abs m) (map_entries m @ [(c_str k, c_str v)], mapFilterCallback m)"
  shows "wp (do { (r, h) \<leftarrow> insertNewKeyValue m k v; ret (if r \<noteq> 0 then MAP_ERROR else MAP_OK, Some h) })
           (map_step_ok op m w) w"
  unfolding wp_bind
proof (rule wp_insertNewKeyValue [OF rep fits args], goal_cases)
  case (1 m' w')
  have "short_of_memory (map_abs m) (zip (map c_str ks) (map c_str vs), mapFilterCallback m')"
    using 1(2) map_rep_entries [OF rep] by (auto simp: short_of_memory_def map_abs_def)
  with failed have "map_spec op MAP_ERROR (map_abs m) (zip (map c_str ks) (map c_str vs), mapFilterCallback m')" .
  then have "map_step_ok op m w (MAP_ERROR, Some m') w'"
    using 1 rep map_rep_blocks [OF rep] map_rep_blocks [OF 1(1)]
    by (intro map_step_rep [OF rep 1(1)]) (auto simp: map_abs_def map_rep_entries)
  then show ?case by simp
next
  case (2 m' w')
  have "length vs = length ks" using rep by (simp add: map_rep_def)
  then have "map_step_ok op m w (MAP_OK, Some m') w'"
    using 2 rep map_rep_blocks [OF rep] map_rep_blocks [OF 2(1)] inserted
    by (intro map_step_rep [OF rep 2(1)]) (auto simp: map_abs_def map_rep_entries)
  then show ?case by simp
qed

lemma map_rep_count: "map_rep m ks vs \<Longrightarrow> mcount m = length ks"
  by (simp add: map_rep_def)

lemma map_rep_fst: "map_rep m ks vs \<Longrightarrow> fst ` set (map_entries m) = c_str ` set ks"
  by (simp add: map_rep_entries rep_fst_set)

lemma Map_Add_step:
  assumes wf: "map_wf m" and args: "str_arg key" "str_arg val" and fits: "map_size m + 4 < SIZE_MOD"
  shows "wp (Map_Add (Some m) key val) (map_step_ok (Add key val) m w) w"
proof (cases "key = None \<or> val = None")
  case True
  then show ?thesis
    using wf by (auto simp: Map_Add_def map_abs_def split: option.splits intro!: map_step_same)
next
  case False
  then obtain k v where kv: "key = Some k" "val = Some v" by auto
  obtain ks vs where rep: "map_rep m ks vs" using wf map_wf_rep by blast
  have cb: "cstr_block k" "cstr_block v" using args kv by (simp_all add: str_arg_def)
  then have cs: "is_cstr k" by (simp add: cstr_block_def)
  have sz: "4 * Suc (length ks) < SIZE_MOD" using fits rep by (simp add: map_size_def map_rep_count)
  have rej: "rejected (mapFilterCallback m) k v = filter_rejects m k v"
    by (simp add: rejected_def filter_rejects_def)
  note keys = map_rep_fst [OF rep]
  show ?thesis
    unfolding Map_Add_def kv option.case prod.case wp_bind
  proof (rule wp_findKey [OF rep cs], goal_cases)
    case 1
    then have new: "c_str k \<notin> fst ` set (map_entries m)" by (simp add: keys)
    have "wp (do { (r, h) \<leftarrow> insertNewKeyValue m k v; ret (if r \<noteq> 0 then MAP_ERROR else MAP_OK, Some h) })
        (map_step_ok (Add (Some k) (Some v)) m w) w" if "\<not> filter_rejects m k v"
      by (rule wp_insert_step [OF rep sz cb 1]) (use new that rej in \<open>simp_all add: map_abs_def\<close>)
    then show ?case using new rej wf by (auto intro!: map_step_same simp: map_abs_def)
  next
    case (2 j)
    then have "c_str k \<in> fst ` set (map_entries m)" unfolding keys by (metis imageI nth_mem)
    then show ?case using wf by (simp add: map_step_same map_abs_def)
  qed
qed

lemma update_at:
  "distinct (map fst es) \<Longrightarrow> j < length es \<Longrightarrow> fst (es ! j) = k \<Longrightarrow> AList.update k v es = es[j := (k, v)]"
proof (induction es arbitrary: j)
  case (Cons e es)
  show ?case
  proof (cases j)
    case (Suc i)
    then have "fst e \<noteq> k" using Cons.prems by auto
    with Suc Cons show ?thesis by (cases e) auto
  qed (use Cons.prems in \<open>cases e; auto\<close>)
qed simp

lemma delete_at:
  "distinct (map fst es) \<Longrightarrow> j < length es \<Longrightarrow> fst (es ! j) = k \<Longrightarrow>
   AList.delete k es = take j es @ drop (Suc j) es"
proof (induction es arbitrary: j)
  case (Cons e es)
  show ?case
  proof (cases j)
    case 0
    then show ?thesis using Cons.prems by (auto simp: AList.delete_id)
  next
    case (Suc i)
    then have "fst e \<noteq> k" using Cons.prems by auto
    with Suc Cons show ?thesis by (cases e) auto
  qed
qed simp

lemma update_new: "k \<notin> fst ` set es \<Longrightarrow> AList.update k v es = es @ [(k, v)]"
  by (induction es) auto

lemma rep_distinct: "map_rep m ks vs \<Longrightarrow> distinct (map fst (zip (map c_str ks) (map c_str vs)))"
  by (simp add: map_rep_def)

text \<open>Overwriting the value at an index, and taking out the entry at an index.\<close>

lemma map_rep_update_value:
  assumes "map_rep m ks vs" "j < length ks" "cstr_block v"
  shows "map_rep (m\<lparr>mvalues := Some ((blk (mvalues m))[j := Some v])\<rparr>) ks (vs[j := v])"
proof -
  have "take (length ks) ((blk (mvalues m))[j := Some v]) = map Some (vs[j := v])"
    using assms(1) by (simp add: map_rep_def take_update_swap map_update)
  moreover have "list_all cstr_block (vs[j := v])"
    using assms(1,3) set_update_subset_insert [of vs j v] by (auto simp: map_rep_def list_all_iff)
  ultimately show ?thesis using assms(1,2) by (auto simp: map_rep_def)
qed

lemma take_shifted:
  assumes "j < n" "n \<le> length arr" "take n arr = map Some xs"
  shows "take (n - 1) (put arr j (take (n - j - 1) (drop (j + 1) arr))) = map Some (take j xs @ drop (Suc j) xs)"
proof -
  have n: "length xs = n" using assms by (metis length_map length_take min.absorb2)
  have "take j arr = map Some (take j xs)"
    using arg_cong [OF assms(3), of "take j"] assms(1) by (simp add: take_map min_def)
  moreover have "take (n - j - 1) (drop (j + 1) arr) = map Some (drop (Suc j) xs)"
    using arg_cong [OF assms(3), of "drop (Suc j)"] by (simp add: drop_take drop_map)
  ultimately show ?thesis using assms(1,2) n by (simp add: put_def)
qed

lemma Map_AddOrUpdate_step:
  assumes wf: "map_wf m" and args: "str_arg key" "str_arg val" and fits: "map_size m + 4 < SIZE_MOD"
  shows "wp (Map_AddOrUpdate (Some m) key val) (map_step_ok (AddOrUpdate key val) m w) w"
proof (cases "key = None \<or> val = None")
  case True
  then show ?thesis
    using wf by (auto simp: Map_AddOrUpdate_def map_abs_def split: option.splits intro!: map_step_same)
next
  case False
  then obtain k v where kv: "key = Some k" "val = Some v" by auto
  obtain ks vs where rep: "map_rep m ks vs" using wf map_wf_rep by blast
  have cb: "cstr_block k" "cstr_block v" using args kv by (simp_all add: str_arg_def)
  then have cs: "is_cstr k" "is_cstr v" "length (c_str v) + 1 < SIZE_MOD" by (simp_all add: cstr_block_def)
  have sz: "4 * Suc (length ks) < SIZE_MOD" using fits rep by (simp add: map_size_def map_rep_count)
  have rej: "rejected (mapFilterCallback m) k v = filter_rejects m k v"
    by (simp add: rejected_def filter_rejects_def)
  note keys = map_rep_fst [OF rep]
  show ?thesis
  proof (cases "filter_rejects m k v")
    case True
    then show ?thesis
      using wf rej by (simp add: Map_AddOrUpdate_def kv map_step_same map_abs_def)
  next
    case accepted: False
    show ?thesis
      unfolding Map_AddOrUpdate_def kv option.case prod.case if_not_P [OF accepted] wp_bind
    proof (rule wp_findKey [OF rep cs(1)], goal_cases)
      case 1
      then have new: "c_str k \<notin> fst ` set (map_entries m)" by (simp add: keys)
      have "wp (do { (r, h) \<leftarrow> insertNewKeyValue m k v; ret (if r \<noteq> 0 then MAP_ERROR else MAP_OK, Some h) })
          (map_step_ok (AddOrUpdate (Some k) (Some v)) m w) w"
        by (rule wp_insert_step [OF rep sz cb 1])
          (use accepted rej in \<open>simp_all add: map_abs_def update_new [OF new]\<close>)
      then show ?case by simp
    next
      case (2 j)
      note slot = map_rep_slots [OF rep 2(1)]
      have len: "length vs = length ks" using rep by (simp add: map_rep_def)
      let ?m' = "m\<lparr>mvalues := Some ((blk (mvalues m))[j := Some (dup_str v)])\<rparr>"
      have rep': "map_rep ?m' ks (vs[j := dup_str v])"
        using rep 2(1) cb by (simp add: map_rep_update_value)
      have entry: "AList.update (c_str k) (c_str v) (zip (map c_str ks) (map c_str vs)) =
          zip (map c_str ks) (map c_str (vs[j := dup_str v]))"
      proof -
        have "zip (map c_str ks) (map c_str (vs[j := dup_str v])) =
            (zip (map c_str ks) (map c_str vs))[j := (c_str k, c_str v)]"
          using 2 len zip_update [of "map c_str ks" j "c_str (ks ! j)" "map c_str vs" "c_str v"]
            list_update_id [of "map c_str ks" j]
          by (simp add: map_update)
        then show ?thesis
          using 2 len rep_distinct [OF rep] by (simp add: update_at)
      qed
      have upd: "map_step_ok (AddOrUpdate (Some k) (Some v)) m w (MAP_OK, Some ?m') w'"
        if "live w' = live w" "faults w' = faults w" for w'
        using that accepted rej entry map_rep_blocks [OF rep] map_rep_blocks [OF rep']
        by (intro map_step_rep [OF rep rep']) simp_all
      have oom: "map_step_ok (AddOrUpdate (Some k) (Some v)) m w (MAP_ERROR, Some m) w'"
        if "live w' = live w" "faults w' = faults w" "\<not> plenty 4 w" for w'
        using that accepted rej by (intro map_step_rep [OF rep rep]) (simp_all add: short_of_memory_def)
      show ?case
        using slot cs by (simp, intro wp_realloc)
          (use upd oom not_plenty_next [of w 4] in \<open>auto simp: Suc_le_eq simp flip: dup_str_def\<close>)
    qed
  qed
qed

lemma Map_Delete_step:
  assumes wf: "map_wf m" and args: "str_arg key" and fits: "map_size m + 4 < SIZE_MOD"
  shows "wp (Map_Delete (Some m) key) (map_step_ok (Delete key) m w) w"
proof (cases key)
  case None
  then show ?thesis using wf by (simp add: Map_Delete_def map_step_same)
next
  case (Some k)
  obtain ks vs where rep: "map_rep m ks vs" using wf map_wf_rep by blast
  have cs: "is_cstr k" using args Some by (simp add: str_arg_def cstr_block_def)
  note keys = map_rep_fst [OF rep]
  show ?thesis
    unfolding Map_Delete_def Some option.case prod.case wp_bind
  proof (rule wp_findKey [OF rep cs], goal_cases)
    case 1
    then have "c_str k \<notin> fst ` set (map_entries m)" by (simp add: keys)
    then show ?case using wf by (simp add: map_step_same map_abs_def)
  next
    case (2 j)
    note slot = map_rep_slots [OF rep 2(1)]
    define ks' vs' where "ks' = take j ks @ drop (Suc j) ks" and "vs' = take j vs @ drop (Suc j) vs"
    have r: "length vs = length ks" "list_all cstr_block ks" "list_all cstr_block vs" "distinct (map c_str ks)"
      "take (length ks) (blk (mkeys m)) = map Some ks" "take (length ks) (blk (mvalues m)) = map Some vs"
      "mcount m = length ks"
      using rep by (auto simp: map_rep_def)
    have lens: "length ks \<le> length (blk (mkeys m))" "length ks \<le> length (blk (mvalues m))"
      using map_rep_slots(1,3) [OF rep, of "length ks - 1"] 2(1) by linarith+
    have len': "length ks' = length ks - 1" "length vs' = length ks'" "Suc (length ks') = length ks"
      using 2(1) r(1) by (auto simp: ks'_def vs'_def)
    have ok': "list_all cstr_block ks'" "list_all cstr_block vs'" "distinct (map c_str ks')"
    proof -
      show "list_all cstr_block ks'" "list_all cstr_block vs'"
        using r(2,3) by (auto simp: ks'_def vs'_def list_all_iff dest: in_set_takeD in_set_dropD)
      have "distinct (map c_str (take j ks @ ks ! j # drop (Suc j) ks))"
        using r(4) 2(1) by (simp only: id_take_nth_drop [symmetric])
      then show "distinct (map c_str ks')" by (simp add: ks'_def)
    qed
    have removed: "AList.delete (c_str k) (zip (map c_str ks) (map c_str vs)) = zip (map c_str ks') (map c_str vs')"
      using 2 r(1) delete_at [OF rep_distinct [OF rep], of j "c_str k"]
      by (simp add: ks'_def vs'_def take_zip drop_zip take_map drop_map zip_append)
    have gone: "wp (Map_DecreaseStorageKeysValues (m\<lparr>
          mkeys := Some (put (blk (mkeys m)) j (take (length ks - j - 1) (drop (j + 1) (blk (mkeys m))))),
          mvalues := Some (put (blk (mvalues m)) j (take (length ks - j - 1) (drop (j + 1) (blk (mvalues m)))))\<rparr>))
        (\<lambda>h. map_step_ok (Delete (Some k)) m w (MAP_OK, Some h)) w1"
      if w1: "live w1 = live w - 2" "faults w1 = faults w" for w1
    proof (rule wp_Map_DecreaseStorageKeysValues [where ks = ks' and vs = vs'], goal_cases)
      case (11 m' w')
      have "c_str k \<in> c_str ` set ks" using 2 by (metis imageI nth_mem)
      moreover have "zip (map c_str ks') (map c_str vs') = [] \<longleftrightarrow> ks' = []" using len' by (cases ks') auto
      ultimately show ?case
        using 11 w1 len' map_rep_blocks [OF rep] map_rep_blocks [OF 11(1)] 2(1)
        by (intro map_step_rep [OF rep 11(1)]) (auto simp: removed Let_def rep_fst_set [OF rep])
    next
      case 2
      then show ?case using take_shifted [OF \<open>j < length ks\<close> lens(1) r(5)] len' by (simp add: ks'_def)
    next
      case 3
      then show ?case using take_shifted [OF \<open>j < length ks\<close> lens(2) r(6)] len' by (simp add: vs'_def)
    qed (use len' ok' r fits in \<open>simp_all add: map_size_def\<close>)
    then show ?case
      using slot lens r(7) by simp
  qed
qed

lemma map_exec_ok:
  assumes "map_wf m" "map_args_ok op" "map_size m + 4 < SIZE_MOD"
  shows "wp (map_exec op (Some m)) (map_step_ok op m w) w"
  using assms by (cases op) (simp_all add: Map_Add_step Map_AddOrUpdate_step Map_Delete_step)

section \<open>Creating, copying and destroying\<close>

lemma wp_Map_Create [wp_intros]:
  assumes "\<And>w'. next_alloc w = None \<Longrightarrow> live w' = live w \<Longrightarrow> faults w' = faults w \<Longrightarrow> Q None w'"
    and "\<And>m w'. map_rep m [] [] \<Longrightarrow> mapFilterCallback m = f \<Longrightarrow> live w' = live w + 1 \<Longrightarrow>
             faults w' = faults w \<Longrightarrow> avail w' = tl (avail w) \<Longrightarrow> Q (Some m) w'"
  shows "wp (Map_Create f) Q w"
  unfolding Map_Create_def using assms by (auto intro!: wp_new simp: map_rep_def SIZE_MOD_def)

lemma wp_Map_Destroy_loop:
  assumes "map_rep m ks vs"
  shows "i \<le> length ks \<Longrightarrow>
    wp (Map_Destroy_loop m i) Q w = Q () (w\<lparr>live := live w - 2 * int (length ks - i)\<rparr>)"
proof (induction "length ks - i" arbitrary: i w)
  case 0
  then show ?case using map_rep_count [OF assms] by (simp add: Map_Destroy_loop.simps [of m i])
next
  case (Suc d)
  then have i: "i < length ks" by simp
  have "wp (Map_Destroy_loop m (Suc i)) Q w1 = Q () (w1\<lparr>live := live w1 - 2 * int (length ks - Suc i)\<rparr>)" for w1
    using Suc i by (intro Suc.hyps(1)) auto
  moreover have "int (length ks - i) = int (length ks - Suc i) + 1" using i by simp
  ultimately show ?case
    using i map_rep_count [OF assms] map_rep_slots [OF assms i]
    by (simp add: Map_Destroy_loop.simps [of m i] algebra_simps)
qed

lemma wp_Map_Destroy:
  assumes "map_wf m"
  shows "wp (Map_Destroy (Some m)) Q w = Q () (w\<lparr>live := live w - map_blocks (Some m)\<rparr>)"
proof -
  obtain ks vs where rep: "map_rep m ks vs" using assms map_wf_rep by blast
  have "wp (c_free (mkeys m)) Q' w' = Q' () (w'\<lparr>live := live w' - (if ks = [] then 0 else 1)\<rparr>)"
    "wp (c_free (mvalues m)) Q' w' = Q' () (w'\<lparr>live := live w' - (if ks = [] then 0 else 1)\<rparr>)" for Q' w'
    using map_rep_arrays [OF rep] by (cases "mkeys m"; cases "mvalues m"; auto)+
  then show ?thesis
    using wp_Map_Destroy_loop [OF rep, of 0] map_rep_blocks [OF rep]
    by (simp add: Map_Destroy_def algebra_simps)
qed

lemma wp_free_slots:
  assumes "take n arr = map Some xs" "length xs = n"
  shows "j \<le> n \<Longrightarrow> wp (free_slots arr j n) Q w = Q () (w\<lparr>live := live w - int (n - j)\<rparr>)"
proof (induction "n - j" arbitrary: j w)
  case 0
  then show ?case by (simp add: free_slots.simps [of arr j])
next
  case (Suc d)
  then have j: "j < n" by simp
  have "n \<le> length arr" using assms by (metis length_map length_take min.cobounded1)
  then have slot: "j < length arr" using j by simp
  have "arr ! j = Some (xs ! j)" using j assms by (metis nth_map nth_take)
  note slot = slot this
  have "wp (free_slots arr (Suc j) n) Q w1 = Q () (w1\<lparr>live := live w1 - int (n - Suc j)\<rparr>)" for w1
    using Suc j by (intro Suc.hyps(1)) auto
  moreover have "int (n - j) = int (n - Suc j) + 1" using j by simp
  ultimately show ?case using j slot by (simp add: free_slots.simps [of arr j] algebra_simps)
qed

lemma wp_CloneVector_loop:
  assumes slots: "\<And>i. i < length xs \<Longrightarrow> i < length src \<and> src ! i = Some (xs ! i)"
    and cstr: "list_all cstr_block xs"
    and failed: "\<And>a j w'. j < length xs \<Longrightarrow> take j a = map (Some \<circ> dup_str) (take j xs) \<Longrightarrow> length a = length xs \<Longrightarrow>
          \<not> plenty (length xs) w0 \<Longrightarrow> live w' = l0 + int j \<Longrightarrow> faults w' = faults w0 \<Longrightarrow> Q (a, j) w'"
    and copied: "\<And>w'. avail w' = drop (length xs) (avail w0) \<Longrightarrow> live w' = l0 + int (length xs) \<Longrightarrow>
          faults w' = faults w0 \<Longrightarrow> Q (map (Some \<circ> dup_str) xs, length xs) w'"
  shows "i \<le> length xs \<Longrightarrow> length arr = length xs \<Longrightarrow> take i arr = map (Some \<circ> dup_str) (take i xs) \<Longrightarrow>
    avail w = drop i (avail w0) \<Longrightarrow> live w = l0 + int i \<Longrightarrow> faults w = faults w0 \<Longrightarrow>
    wp (CloneVector_loop arr src i (length xs)) Q w"
proof (induction "length xs - i" arbitrary: i arr w)
  case 0
  then have "i = length xs" "arr = map (Some \<circ> dup_str) xs" by simp_all
  moreover from this 0 copied have "Q (map (Some \<circ> dup_str) xs, length xs) w" by simp
  ultimately show ?case by (simp add: CloneVector_loop.simps [of _ src "length xs"])
next
  case (Suc d)
  then have i: "i < length xs" by simp
  have x: "is_cstr (xs ! i)" "length (c_str (xs ! i)) + 1 < SIZE_MOD"
    using cstr i by (auto simp: list_all_length cstr_block_def)
  have step: "wp (mallocAndStrcpy_s True (Some (xs ! i))) (\<lambda>(r, d). wp (do {
        result' \<leftarrow> (case d of None \<Rightarrow> ret arr | Some p \<Rightarrow> ptr_store arr i p);
        if r \<noteq> 0 then ret (result', i) else CloneVector_loop result' src (Suc i) (length xs) }) Q) w"
  proof (rule wp_mallocAndStrcpy_s [OF x], goal_cases)
    case (1 w')
    have "\<not> plenty (length xs) w0" using 1(1) Suc.prems(4) i by (rule not_plenty_drop)
    then show ?case using 1 Suc.prems i failed by (simp add: ENOMEM_def)
  next
    case (2 w')
    have "take (Suc i) (arr[i := Some (dup_str (xs ! i))]) = map (Some \<circ> dup_str) (take (Suc i) xs)"
      using Suc.prems i by (simp add: take_Suc_conv_app_nth)
    then have "wp (CloneVector_loop (arr[i := Some (dup_str (xs ! i))]) src (Suc i) (length xs)) Q w'"
      using 2 Suc i by (intro Suc.hyps(1)) (auto simp: drop_Suc tl_drop)
    then show ?case using Suc.prems(2) i by (simp flip: dup_str_def)
  qed
  then show ?case
    using i slots [OF i] by (simp add: CloneVector_loop.simps [of arr src i] wp_prod_fun)
qed

lemma wp_Map_CloneVector:
  assumes slots: "\<And>i. i < length xs \<Longrightarrow> i < length src \<and> src ! i = Some (xs ! i)"
    and cstr: "list_all cstr_block xs" and fits: "4 * length xs < SIZE_MOD"
    and failed: "\<And>w'. \<not> plenty (Suc (length xs)) w \<Longrightarrow> live w' = live w \<Longrightarrow> faults w' = faults w \<Longrightarrow> Q None w'"
    and copied: "\<And>w'. avail w' = drop (Suc (length xs)) (avail w) \<Longrightarrow> live w' = live w + 1 + int (length xs) \<Longrightarrow>
          faults w' = faults w \<Longrightarrow> Q (Some (map (Some \<circ> dup_str) xs)) w'"
  shows "wp (Map_CloneVector src (length xs)) Q w"
proof -
  have sz: "szt (length xs * 4) div 4 = length xs" using fits by (simp add: mult.commute)
  show ?thesis
    unfolding Map_CloneVector_def wp_bind
  proof (rule wp_ptrs_malloc, goal_cases)
    case (1 w')
    then show ?case using failed by (simp add: not_plenty_next)
  next
    case (2 bs w1)
    have "wp (CloneVector_loop bs src 0 (length xs)) (\<lambda>(result', i).
        wp (if i = length xs then ret (Some result')
            else do { free_slots result' 0 i; c_free (Some result'); ret None }) Q) w1"
    proof (rule wp_CloneVector_loop [where ?w0.0 = w1 and ?l0.0 = "live w1", OF slots cstr], goal_cases)
      case (2 a j w')
      then have "\<not> plenty (Suc (length xs)) w"
        using not_plenty_tl [of w1 w "Suc (length xs)"] \<open>avail w1 = _\<close> by simp
      moreover have "wp (free_slots a 0 j) Q' w' = Q' () (w'\<lparr>live := live w' - int j\<rparr>)" for Q'
        using wp_free_slots [of j a "map dup_str (take j xs)" 0 Q' w'] 2 by simp
      ultimately show ?case using 2 \<open>live w1 = _\<close> \<open>faults w1 = _\<close> failed by simp
    next
      case (3 w')
      then show ?case using \<open>live w1 = _\<close> \<open>faults w1 = _\<close> \<open>avail w1 = _\<close> copied by (simp add: drop_Suc)
    qed (use 2 sz in simp_all)
    then show ?case by (simp add: wp_prod_fun)
  qed
qed

lemma wp_Map_Clone:
  assumes rep: "map_rep m ks vs"
    and failed: "\<And>w'. \<not> plenty (2 * length ks + 3) w \<Longrightarrow> live w' = live w \<Longrightarrow> faults w' = faults w \<Longrightarrow> Q None w'"
    and copied: "\<And>m' w'. map_rep m' (map dup_str ks) (map dup_str vs) \<Longrightarrow>
          mapFilterCallback m' = (if ks = [] then None else mapFilterCallback m) \<Longrightarrow>
          live w' = live w + map_blocks (Some m') \<Longrightarrow> faults w' = faults w \<Longrightarrow> Q (Some m') w'"
  shows "wp (Map_Clone (Some m)) Q w"
proof -
  let ?n = "length ks"
  have r: "mcount m = ?n" "length vs = ?n" "4 * ?n < SIZE_MOD" "list_all cstr_block ks" "list_all cstr_block vs"
    "distinct (map c_str ks)"
    using rep by (simp_all add: map_rep_def)
  have dups: "list_all cstr_block (map dup_str xs)"
    if "list_all cstr_block xs" for xs
    using that by (auto simp: list_all_iff)
  have rep': "map_rep \<lparr>mkeys = Some (map (Some \<circ> dup_str) ks), mvalues = Some (map (Some \<circ> dup_str) vs),
      mcount = ?n, mapFilterCallback = f\<rparr> (map dup_str ks) (map dup_str vs)" if "ks \<noteq> []" for f
    using r that dups by (simp add: map_rep_def)
  show ?thesis
  proof (cases "ks = []")
    case True
    have "map_rep \<lparr>mkeys = None, mvalues = None, mcount = 0, mapFilterCallback = None\<rparr> [] []"
      by (simp add: map_rep_def SIZE_MOD_def)
    then show ?thesis
      unfolding Map_Clone_def using True r(1,2) not_plenty_next [of w 3]
      by (auto intro!: wp_new failed copied simp: map_blocks_def)
  next
    case False
    have values_step: "wp (Map_CloneVector (blk (mvalues m)) ?n) (\<lambda>vs'. wp (case vs' of
          None \<Rightarrow> do { free_slots (map (Some \<circ> dup_str) ks) 0 ?n; c_free (Some (map (Some \<circ> dup_str) ks));
                      c_free (Some ()); ret None }
        | Some v \<Rightarrow> ret (Some \<lparr>mkeys = Some (map (Some \<circ> dup_str) ks), mvalues = Some v, mcount = ?n,
                                 mapFilterCallback = mapFilterCallback m\<rparr>)) Q) w2"
      if w2: "avail w2 = drop (?n + 2) (avail w)" "live w2 = live w + 2 + int ?n" "faults w2 = faults w" for w2
    proof (rule wp_Map_CloneVector [where xs = vs, unfolded r(2)], goal_cases)
      case (4 w3)
      have "\<not> plenty (2 * ?n + 3) w"
      proof
        assume "plenty (2 * ?n + 3) w"
        then have "plenty (Suc ?n) w2" using w2(1) by (auto simp: plenty_def)
        with 4(1) show False by simp
      qed
      moreover have "wp (free_slots (map (Some \<circ> dup_str) ks) 0 ?n) Q' w3 = Q' () (w3\<lparr>live := live w3 - int ?n\<rparr>)" for Q'
        using wp_free_slots [of ?n "map (Some \<circ> dup_str) ks" "map dup_str ks" 0 Q' w3] by simp
      ultimately show ?case using 4 w2 failed by simp
    next
      case (5 w3)
      then show ?case
        using w2 False by (auto intro!: copied [OF rep'] simp: map_blocks_def)
    qed (use r map_rep_slots [OF rep] in simp_all)
    have keys_step: "wp (Map_CloneVector (blk (mkeys m)) ?n) (\<lambda>ks'. wp (case ks' of
          None \<Rightarrow> do { c_free (Some ()); ret None }
        | Some k \<Rightarrow> do {
            vs' \<leftarrow> Map_CloneVector (blk (mvalues m)) ?n;
            (case vs' of
               None \<Rightarrow> do { free_slots k 0 ?n; c_free (Some k); c_free (Some ()); ret None }
             | Some v \<Rightarrow> ret (Some \<lparr>mkeys = Some k, mvalues = Some v, mcount = ?n,
                                      mapFilterCallback = mapFilterCallback m\<rparr>)) }) Q) w1"
      if w1: "avail w1 = tl (avail w)" "live w1 = live w + 1" "faults w1 = faults w" for w1
    proof (rule wp_Map_CloneVector [where xs = ks], goal_cases)
      case (4 w2)
      have "\<not> plenty (2 * ?n + 3) w"
      proof
        assume "plenty (2 * ?n + 3) w"
        then have "plenty (Suc (Suc ?n)) w" by (rule plenty_le) simp
        with 4(1) plenty_tl [OF this w1(1)] show False by simp
      qed
      then show ?case using 4 w1 failed by simp
    next
      case (5 w2)
      then show ?case using w1 by (simp add: values_step drop_Suc del: comp_apply)
    qed (use r map_rep_slots [OF rep] in simp_all)
    show ?thesis
      unfolding Map_Clone_def option.case wp_bind r(1)
      by (rule wp_new) (use False failed keys_step not_plenty_next [of w "2 * ?n + 3"] in simp_all)
  qed
qed

interpretation mp: c_owned map_exec map_wf map_abs map_size map_blocks map_args_ok "\<lambda>_. 4" "\<lambda>_. 4"
  map_spec map_oom "Map_Create f" 2 Map_Destroy "([], f)" for f
proof (unfold_locales, goal_cases)
  case (1 h op w)
  show ?case using map_exec_ok [OF 1, of w] by (simp only: map_step_ok_def)
next
  case (2 w)
  show ?case
  proof (rule wp_Map_Create, goal_cases)
    case (2 m w')
    then show ?case
      using map_rep_wf [OF 2(1)] map_rep_entries [OF 2(1)] map_rep_count [OF 2(1)]
      by (simp add: map_abs_def map_size_def map_blocks_def)
  qed (simp add: not_plenty_next)
next
  case (3 h w)
  then show ?case by (cases h) (auto simp: wp_Map_Destroy, simp_all add: Map_Destroy_def map_blocks_def)
qed

section \<open>Look-ups\<close>

lemma map_of_at:
  assumes "map_rep m ks vs" "j < length ks"
  shows "map_of (map_entries m) (c_str (ks ! j)) = Some (c_str (vs ! j))"
proof -
  have "(c_str (ks ! j), c_str (vs ! j)) \<in> set (map_entries m)"
    unfolding map_rep_entries [OF assms(1)]
    using assms by (auto simp: map_rep_def set_zip intro!: exI [of _ j])
  then show ?thesis
    using rep_distinct [OF assms(1)] by (intro map_of_is_SomeI) (simp_all add: map_rep_entries [OF assms(1)])
qed

lemma wp_Map_GetValueFromKey:
  assumes "map_wf m" "is_cstr k"
  shows "wp (Map_GetValueFromKey (Some m) (Some k))
           (\<lambda>p w'. w' = w \<and> map_option c_str p = map_of (map_entries m) (c_str k)) w"
proof -
  obtain ks vs where rep: "map_rep m ks vs" using assms(1) map_wf_rep by blast
  show ?thesis
    unfolding Map_GetValueFromKey_def option.case prod.case wp_bind
  proof (rule wp_findKey [OF rep assms(2)], goal_cases)
    case 1
    then have "map_of (map_entries m) (c_str k) = None"
      using map_rep_fst [OF rep] by (simp add: map_of_eq_None_iff)
    then show ?case by simp
  next
    case (2 j)
    then show ?case using map_of_at [OF rep 2(1)] map_rep_slots [OF rep 2(1)] by simp
  qed
qed

lemma wp_Map_ContainsKey:
  assumes "map_wf m" "is_cstr k"
  shows "wp (Map_ContainsKey (Some m) (Some k) True)
           (\<lambda>r w'. w' = w \<and> r = (MAP_OK, Some (c_str k \<in> fst ` set (map_entries m)))) w"
proof -
  obtain ks vs where rep: "map_rep m ks vs" using assms(1) map_wf_rep by blast
  show ?thesis
    unfolding Map_ContainsKey_def option.case prod.case wp_bind
    by (simp, rule wp_findKey [OF rep assms(2)])
      (use map_rep_fst [OF rep] in \<open>auto simp: image_iff, metis nth_mem\<close>)
qed

lemma wp_Map_ContainsValue:
  assumes "map_wf m" "is_cstr v"
  shows "wp (Map_ContainsValue (Some m) (Some v) True)
           (\<lambda>r w'. w' = w \<and> r = (MAP_OK, Some (c_str v \<in> snd ` set (map_entries m)))) w"
proof -
  obtain ks vs where rep: "map_rep m ks vs" using assms(1) map_wf_rep by blast
  have snds: "snd ` set (map_entries m) = c_str ` set vs"
    using rep by (simp add: map_rep_entries) (simp add: map_rep_def flip: set_map)
  show ?thesis
    unfolding Map_ContainsValue_def option.case prod.case wp_bind
    by (simp, rule wp_findValue [OF rep assms(2)])
      (use snds in \<open>auto simp: image_iff, metis nth_mem\<close>)
qed

section \<open>JSON objects\<close>

text \<open>The text \<open>Map_ToJSON\<close> builds: the literals of an entry and the members from index \<open>i\<close> on.\<close>

definition json_lit :: "u8 list \<Rightarrow> u8 list" where
  "json_lit t = 34 # concat (map JSON_escape t) @ [34]"

fun json_members_text :: "nat \<Rightarrow> (u8 list \<times> u8 list) list \<Rightarrow> u8 list" where
  "json_members_text i [] = []"
| "json_members_text i ((k, v) # es) =
     (if i > 0 then [44] else []) @ json_lit k @ [58] @ json_lit v @ json_members_text (Suc i) es"

text \<open>A reader of JSON objects whose members are strings (RFC 8259, without white space): the
  specification the text is checked against.\<close>

definition json_member :: "u8 list \<Rightarrow> ((u8 list \<times> u8 list) \<times> u8 list) option" where
  "json_member s =
     (case s of
        [] \<Rightarrow> None
      | q # cs \<Rightarrow>
          if q \<noteq> 34 then None
          else (case json_chars (length cs) cs of
                  Some (k, c # q' # cs') \<Rightarrow>
                    if c = 58 \<and> q' = 34 then
                      (case json_chars (length cs') cs' of
                         Some (v, rest) \<Rightarrow> Some ((k, v), rest)
                       | None \<Rightarrow> None)
                    else None
                | _ \<Rightarrow> None))"

fun json_members :: "nat \<Rightarrow> u8 list \<Rightarrow> (u8 list \<times> u8 list) list option" where
  "json_members 0 s = None"
| "json_members (Suc fuel) s =
     (case json_member s of
        Some (e, c # rest) \<Rightarrow>
          if c = 125 then (if rest = [] then Some [e] else None)
          else if c = 44 then map_option ((#) e) (json_members fuel rest)
          else None
      | _ \<Rightarrow> None)"

definition json_object :: "u8 list \<Rightarrow> (u8 list \<times> u8 list) list option" where
  "json_object s =
     (case s of
        c # rest \<Rightarrow> if c \<noteq> 123 then None else if rest = [125] then Some [] else json_members (length rest) rest
      | [] \<Rightarrow> None)"

definition ascii :: "u8 list \<Rightarrow> bool" where
  "ascii t \<longleftrightarrow> (\<forall>c \<in> set t. c < 128)"

lemma json_chars_lit:
  assumes "ascii t"
  shows "json_chars (length (concat (map JSON_escape t) @ 34 # s)) (concat (map JSON_escape t) @ 34 # s) = Some (t, s)"
proof (rule json_chars_text)
  show "\<forall>c \<in> set t. c < 128" using assms by (simp add: ascii_def)
  show "length t < length (concat (map JSON_escape t) @ 34 # s)" by (simp add: length_JSON_text)
qed

lemma json_member_text:
  assumes "ascii k" "ascii v"
  shows "json_member (json_lit k @ 58 # json_lit v @ s) = Some ((k, v), s)"
proof -
  let ?tail = "58 # 34 # concat (map JSON_escape v) @ 34 # s"
  have "json_chars (length (concat (map JSON_escape k) @ 34 # ?tail)) (concat (map JSON_escape k) @ 34 # ?tail)
      = Some (k, ?tail)" using assms(1) by (rule json_chars_lit)
  moreover have "json_chars (length (concat (map JSON_escape v) @ 34 # s)) (concat (map JSON_escape v) @ 34 # s)
      = Some (v, s)" using assms(2) by (rule json_chars_lit)
  ultimately show ?thesis by (simp add: json_member_def json_lit_def del: length_append list.size)
qed

lemma json_members_text_read:
  "list_all (\<lambda>(k, v). ascii k \<and> ascii v) es \<Longrightarrow> es \<noteq> [] \<Longrightarrow> length es \<le> fuel \<Longrightarrow>
   json_members fuel (drop (if i > 0 then 1 else 0) (json_members_text i es) @ [125]) = Some es"
proof (induction es arbitrary: i fuel)
  case (Cons e es)
  obtain k v where e: "e = (k, v)" by (cases e)
  obtain n where n: "fuel = Suc n" using Cons.prems(3) by (cases fuel) auto
  have kv: "ascii k" "ascii v" using Cons.prems(1) e by auto
  have split: "drop (if i > 0 then 1 else 0) (json_members_text i (e # es)) @ [125] =
      json_lit k @ 58 # json_lit v @ json_members_text (Suc i) es @ [125]"
    by (simp add: e)
  show ?case
  proof (cases es)
    case Nil
    then show ?thesis unfolding split n by (simp add: json_member_text kv e)
  next
    case (Cons e' es')
    then have sep: "json_members_text (Suc i) es = 44 # drop 1 (json_members_text (Suc i) es)"
      by (cases e') simp
    have "json_members n (drop (if Suc i > 0 then 1 else 0) (json_members_text (Suc i) es) @ [125]) = Some es"
      by (rule Cons.IH) (use Cons.prems n Cons in auto)
    then show ?thesis
      unfolding split n by (subst sep) (simp add: json_member_text kv e)
  qed
qed simp

lemma length_json_lit: "2 \<le> length (json_lit t)"
  by (simp add: json_lit_def)

lemma json_object_text:
  assumes "list_all (\<lambda>(k, v). ascii k \<and> ascii v) es"
  shows "json_object (123 # json_members_text 0 es @ [125]) = Some es"
proof (cases "es = []")
  case False
  have len: "length es \<le> length (json_members_text i es)" for i
    by (induction i es rule: json_members_text.induct) (auto simp: json_lit_def)
  have "json_members_text 0 es \<noteq> []" using False by (cases es) (auto simp: json_lit_def)
  then show ?thesis
    using json_members_text_read [OF assms False, of "length (json_members_text 0 es @ [125])" 0] len [of 0]
    by (simp add: json_object_def)
qed (simp add: json_object_def)

lemma json_lit_nozero [simp]: "0 \<notin> set (json_lit t)"
  using JSON_text_nozero [of t] by (simp add: json_lit_def)

lemma wp_new_JSON_lit:
  assumes "cstr_block z" "ascii (c_str z)" "length (json_lit (c_str z)) + 1 < SIZE_MOD"
    and "\<And>w'. \<not> plenty 2 w \<Longrightarrow> live w' = live w \<Longrightarrow> faults w' = faults w \<Longrightarrow> Q None w'"
    and "\<And>w'. used 2 w w' \<Longrightarrow> live w' = live w + 2 \<Longrightarrow> faults w' = faults w \<Longrightarrow>
             Q (Some (mkstr (json_lit (c_str z)))) w'"
  shows "wp (STRING_new_JSON (Some z)) Q w"
  by (rule wp_STRING_new_JSON) (use assms in \<open>auto simp: cstr_block_def ascii_def json_lit_def intro: used_drop\<close>)

text \<open>Appending a chunk to a string, with the requests counted: the step of every builder.\<close>

lemma wp_append_lit:
  assumes "str_wf st" "0 \<notin> set t" "length (str_val st) + length t + 1 < SIZE_MOD"
    and "\<And>w'. \<not> plenty 1 w \<Longrightarrow> live w' = live w \<Longrightarrow> faults w' = faults w \<Longrightarrow> Q (FAILURE, Some st) w'"
    and "\<And>w'. used 1 w w' \<Longrightarrow> live w' = live w \<Longrightarrow> faults w' = faults w \<Longrightarrow> Q (0, Some (mkstr (str_val st @ t))) w'"
  shows "wp (STRING_concat (Some st) (Some (t @ [0]))) Q w"
    and "wp (STRING_concat_with_STRING (Some st) (Some (mkstr t))) Q w"
proof -
  show "wp (STRING_concat (Some st) (Some (t @ [0]))) Q w"
    by (rule wp_STRING_concat) (use assms in \<open>auto simp: not_plenty_next intro: used_tl\<close>)
  show "wp (STRING_concat_with_STRING (Some st) (Some (mkstr t))) Q w"
    by (rule wp_STRING_concat_with_STRING) (use assms in \<open>auto simp: not_plenty_next intro: used_tl\<close>)
qed

lemma clit_char: "clit [c] = [of_char c] @ [0]"
  by (simp add: clit_def)

lemma wp_ToJSON_entry:
  assumes "str_wf st" "0 \<notin> set a" "0 \<notin> set b" "length (str_val st) + length a + length b + 3 < SIZE_MOD"
    and failed: "\<And>st' w'. \<not> plenty 4 w \<Longrightarrow> live w' = live w \<Longrightarrow> faults w' = faults w \<Longrightarrow> Q (False, Some st') w'"
    and appended: "\<And>w'. used 4 w w' \<Longrightarrow> live w' = live w \<Longrightarrow> faults w' = faults w \<Longrightarrow>
       Q (True, Some (mkstr (str_val st @ (if i > 0 then [44] else []) @ a @ [58] @ b))) w'"
  shows "wp (ToJSON_entry i (Some st) (Some (mkstr a)) (Some (mkstr b))) Q w"
proof -
  have three: "wp (do {
       (r1, s1) \<leftarrow> STRING_concat_with_STRING (Some s0) (Some (mkstr a));
       if r1 \<noteq> 0 then ret (False, s1)
       else do {
         (r2, s2) \<leftarrow> STRING_concat s1 (Some (clit '':''));
         if r2 \<noteq> 0 then ret (False, s2)
         else do {
           (r3, s3) \<leftarrow> STRING_concat_with_STRING s2 (Some (mkstr b));
           ret (r3 = 0, s3)
         }
       }
     }) Q w1"
    if s0: "str_wf s0" "str_val s0 = str_val st @ (if i > 0 then [44] else [])"
      and w1: "used 1 w w1" "live w1 = live w" "faults w1 = faults w" for s0 w1
  proof (simp, rule wp_append_lit(2), goal_cases)
    case (4 w2)
    then show ?case using w1 failed used_starved [OF w1(1) 4(1), of 4] by simp
  next
    case (5 w2)
    have u2: "used 2 w w2" using used_trans [OF w1(1) 5(1)] by simp
    show ?case
    proof (simp add: clit_char, rule wp_append_lit(1) [where t = "[58]", simplified], goal_cases)
      case (3 w3)
      then show ?case using 5 w1 failed used_starved [OF u2 3(1), of 4] by simp
    next
      case (4 w3)
      have u3: "used 3 w w3" using used_trans [OF u2 4(1)] by simp
      show ?case
      proof (simp, rule wp_append_lit(2), goal_cases)
        case (4 w4)
        then show ?case using \<open>live w3 = _\<close> \<open>faults w3 = _\<close> 5 w1 failed used_starved [OF u3 4(1), of 4] by simp
      next
        case (5 w4)
        have "used 4 w w4" using used_trans [OF u3 5(1)] by simp
        then show ?case
          using 5 4 \<open>live w2 = _\<close> \<open>faults w2 = _\<close> w1 s0 assms(2) appended by simp
      qed (use s0 assms in auto)
    qed (use s0 assms in auto)
  qed (use s0 assms in auto)
  show ?thesis
  proof (cases "i > 0")
    case True
    show ?thesis
      unfolding ToJSON_entry_def wp_bind clit_char if_P [OF True]
    proof (simp, rule wp_append_lit(1) [where t = "[44]", simplified], goal_cases)
      case (3 w1)
      have "\<not> plenty 4 w" using 3(1) plenty_le [of 4 w "Suc 0"] by auto
      then show ?case using 3 failed by simp
    next
      case (4 w1)
      then show ?case using three [of "mkstr (str_val st @ [44])" w1] True unfolding clit_char by simp
    qed (use assms in auto)
  next
    case False
    then show ?thesis
      unfolding ToJSON_entry_def using three [of st w] assms(1) by simp
  qed
qed

lemma wp_ToJSON_loop:
  assumes rep: "map_rep m ks vs" and asc: "list_all (\<lambda>(k, v). ascii k \<and> ascii v) (map_entries m)"
    and failed: "\<And>w'. \<not> plenty (8 * length ks) w0 \<Longrightarrow> live w' = l0 \<Longrightarrow> faults w' = faults w0 \<Longrightarrow> Q None w'"
    and built: "\<And>st' w'. str_wf st' \<Longrightarrow> str_val st' = 123 # json_members_text 0 (map_entries m) \<Longrightarrow>
       used (8 * length ks) w0 w' \<Longrightarrow> live w' = l0 + 2 \<Longrightarrow> faults w' = faults w0 \<Longrightarrow> Q (Some st') w'"
  shows "i \<le> length ks \<Longrightarrow> str_wf st \<Longrightarrow>
    str_val st @ json_members_text i (drop i (map_entries m)) = 123 # json_members_text 0 (map_entries m) \<Longrightarrow>
    length (json_members_text 0 (map_entries m)) + 5 < SIZE_MOD \<Longrightarrow>
    used (8 * i) w0 w \<Longrightarrow> live w = l0 + 2 \<Longrightarrow> faults w = faults w0 \<Longrightarrow>
    wp (ToJSON_loop m i (Some st)) Q w"
proof (induction "length ks - i" arbitrary: i st w)
  case 0
  have "length (map_entries m) = length ks" using rep by (simp add: map_rep_entries) (simp add: map_rep_def)
  with 0 have "str_val st = 123 # json_members_text 0 (map_entries m)" "i = length ks" by simp_all
  then show ?case using built 0 map_rep_count [OF rep] by (simp add: ToJSON_loop.simps [of m "length ks"])
next
  case (Suc d)
  then have i: "i < length ks" by simp
  let ?k = "ks ! i" and ?v = "vs ! i"
  have len: "length vs = length ks" using rep by (simp add: map_rep_def)
  have entry: "map_entries m ! i = (c_str ?k, c_str ?v)" "i < length (map_entries m)"
    unfolding map_rep_entries [OF rep] using i len by simp_all
  note slot = map_rep_slots [OF rep i] map_rep_count [OF rep]
  have cb: "cstr_block ?k" "cstr_block ?v" using rep i by (auto simp: map_rep_def list_all_length)
  have kv: "ascii (c_str ?k)" "ascii (c_str ?v)" using asc entry by (auto simp: list_all_length)
  let ?a = "json_lit (c_str ?k)" and ?b = "json_lit (c_str ?v)"
  have dropped: "json_members_text i (drop i (map_entries m)) =
      (if i > 0 then [44] else []) @ ?a @ [58] @ ?b @ json_members_text (Suc i) (drop (Suc i) (map_entries m))"
    using entry by (simp flip: Cons_nth_drop_Suc)
  have total: "length (str_val st) + length ?a + length ?b + 4 < SIZE_MOD"
    using arg_cong [OF Suc.prems(3), of length] Suc.prems(4) by (simp add: dropped)
  have step: "8 * Suc i \<le> 8 * length ks" using i by simp
  have body: "wp (ToJSON_loop m i (Some st)) Q w =
      wp (STRING_new_JSON (Some ?k)) (\<lambda>key. wp (
        if key = None then do { STRING_delete (Some st); ret None }
        else do {
          v \<leftarrow> ptr_load (blk (mvalues m)) i;
          val \<leftarrow> STRING_new_JSON v;
          if val = None then do { STRING_delete (Some st); STRING_delete key; ret None }
          else do {
            (ok, s) \<leftarrow> ToJSON_entry i (Some st) key val;
            if \<not> ok then do { STRING_delete s; STRING_delete val; STRING_delete key; ret None }
            else do { STRING_delete val; STRING_delete key; ToJSON_loop m (Suc i) s }
          }
        }) Q) w"
    unfolding ToJSON_loop.simps [of m i] using i slot by simp
  show ?case
    unfolding body
  proof (rule wp_new_JSON_lit [OF cb(1) kv(1)], goal_cases)
    case (2 w1)
    then show ?case using failed used_starved [OF Suc.prems(5) 2(1), of "8 * length ks"] Suc.prems step by simp
  next
    case (3 w1)
    have u1: "used (8 * i + 2) w0 w1" using used_trans [OF Suc.prems(5) 3(1)] by simp
    show ?case
    proof (simp add: slot, rule wp_new_JSON_lit [OF cb(2) kv(2)], goal_cases)
      case (2 w2)
      then show ?case using 3 failed used_starved [OF u1 2(1), of "8 * length ks"] Suc.prems step by simp
    next
      case (3 w2)
      have acc: "live w2 = l0 + 6" "faults w2 = faults w0"
        using 3 \<open>live w1 = _\<close> \<open>faults w1 = _\<close> Suc.prems by simp_all
      have u2: "used (8 * i + 4) w0 w2" using used_trans [OF u1 3(1)] by simp
      show ?case
      proof (simp, rule wp_ToJSON_entry, goal_cases)
        case (5 st' w3)
        then show ?case using acc failed used_starved [OF u2 5(1), of "8 * length ks"] step by simp
      next
        case (6 w3)
        have u3: "used (8 * Suc i) w0 (w3\<lparr>live := live w3 - 4\<rparr>)"
          using used_trans [OF u2 6(1), of "8 * Suc i"] by (simp add: used_def)
        have "wp (ToJSON_loop m (Suc i) (Some (mkstr (str_val st @ (if i > 0 then [44] else []) @ ?a @ [58] @ ?b)))) Q
            (w3\<lparr>live := live w3 - 4\<rparr>)"
          using 6 acc u3 Suc.prems Suc.hyps(2) i by (intro Suc.hyps(1)) (auto simp: dropped)
        then show ?case by (simp add: algebra_simps)
      qed (use Suc.prems total in auto)
    qed (use total in simp)
  qed (use total in simp)
qed

section \<open>Properties\<close>

text \<open>C7. Any sequence of \<open>Map_Add\<close>, \<open>Map_AddOrUpdate\<close> and \<open>Map_Delete\<close> calls on a well-formed map, whatever
  the allocator does: keys stay distinct, no access is out of bounds or through a dangling slot, every
  block is accounted for, and the statuses and entries are those of an ordered association list; a call
  that runs out of memory changes no entry.\<close>

theorem map_calls_refine:
  assumes "map_wf m" "\<forall>op \<in> set ops. map_args_ok op" "map_size m + 4 * length ops < SIZE_MOD"
  shows "wp (run_ops map_exec ops (Some m)) (\<lambda>(rs, h) w'. \<exists>m'. h = Some m' \<and> map_wf m' \<and>
           faults w' = faults w \<and> live w' - live w = map_blocks (Some m') - map_blocks (Some m) \<and>
           spec_run map_spec ops rs (map_abs m) (map_abs m')) w"
  using assms by (intro mp.run_correct) (auto simp: sum_list_triv)

theorem map_calls_refine_witness:
  "wp (run_ops map_exec [Add (Some [97, 0]) (Some [49, 0]), AddOrUpdate (Some [97, 0]) (Some [50, 0]), Delete (Some [97, 0])]
         (Some \<lparr>mkeys = None, mvalues = None, mcount = 0, mapFilterCallback = Some (\<lambda>_ _. 0)\<rparr>))
     (\<lambda>(rs, h) w'. \<exists>m'. h = Some m' \<and> map_wf m' \<and> faults w' = 0 \<and> live w' = map_blocks (Some m') \<and>
        spec_run map_spec
          [Add (Some [97, 0]) (Some [49, 0]), AddOrUpdate (Some [97, 0]) (Some [50, 0]), Delete (Some [97, 0])]
          rs ([], Some (\<lambda>_ _. 0)) (map_abs m'))
     \<lparr>avail = replicate 6 (Some (\<lambda>_. 0)), live = 1, faults = 0\<rparr>"
  by (rule wp_mono [OF map_calls_refine])
    (auto simp: map_wf_def map_rep_def map_size_def map_blocks_def map_abs_def map_entries_def str_arg_def
      cstr_block_def SIZE_MOD_def is_cstr_def c_str_def
      simp del: spec_run.simps)

text \<open>With four requests granted, no map operation reports \<open>MAP_ERROR\<close>: it succeeds or gives the
  specific reason the specification names.\<close>

lemma map_call_total:
  assumes "map_wf m" "map_args_ok op" "map_size m + 4 < SIZE_MOD" "plenty 4 w"
  shows "wp (map_exec op (Some m)) (\<lambda>(r, h) _. r \<noteq> MAP_ERROR \<and> (\<exists>m'. h = Some m' \<and> map_spec op r (map_abs m) (map_abs m'))) w"
  by (rule wp_mono [OF mp.step_total [OF assms]]) (auto simp: map_oom_def)

text \<open>Creating a map with a filter, any calls on it and destroying it gives every block back.\<close>

lemma map_lifecycle:
  assumes "\<forall>op \<in> set ops. map_args_ok op" "4 * length ops < SIZE_MOD"
  shows "wp (do { h \<leftarrow> Map_Create f; if h = None then ret None
                  else do { (rs, h') \<leftarrow> run_ops map_exec ops h; Map_Destroy h'; ret (Some rs) } })
     (\<lambda>out w'. live w' = live w \<and> faults w' = faults w \<and>
        (case out of None \<Rightarrow> \<not> plenty 2 w | Some rs \<Rightarrow> \<exists>a. spec_run map_spec ops rs ([], f) a)) w"
  using assms by (intro mp.lifecycle) (auto simp: sum_list_triv)

text \<open>What a look-up returns after any of the calls: \<open>Map_GetValueFromKey\<close> finds the value that the
  association list has for the key, and \<open>NULL\<close> exactly when it has none.\<close>

lemma map_lookup_after_calls:
  assumes "map_wf m" "\<forall>op \<in> set ops. map_args_ok op" "map_size m + 4 * length ops < SIZE_MOD" "is_cstr k"
  shows "wp (do { (rs, h) \<leftarrow> run_ops map_exec ops (Some m); p \<leftarrow> Map_GetValueFromKey h (Some k); ret (rs, p) })
     (\<lambda>(rs, p) w'. \<exists>es f. spec_run map_spec ops rs (map_abs m) (es, f) \<and> map_option c_str p = map_of es (c_str k)) w"
proof -
  have "wp (run_ops map_exec ops (Some m)) (\<lambda>(rs, h) w1. wp (Map_GetValueFromKey h (Some k))
     (\<lambda>p w'. \<exists>es f. spec_run map_spec ops rs (map_abs m) (es, f) \<and> map_option c_str p = map_of es (c_str k)) w1) w"
  proof (rule wp_mono [OF mp.run_correct], goal_cases)
    case (4 rh w1)
    then obtain rs m' where "rh = (rs, Some m')" "map_wf m'" "spec_run map_spec ops rs (map_abs m) (map_abs m')"
      by auto
    then show ?case
      by (auto simp: map_abs_def intro!: wp_mono [OF wp_Map_GetValueFromKey [OF _ assms(4)]])
  qed (use assms in \<open>auto simp: sum_list_triv\<close>)
  then show ?thesis by (simp add: wp_prod_fun wp_bind_eta)
qed

text \<open>C30. \<open>Map_ToJSON\<close> on a map of 7-bit strings gives a JSON object that a JSON reader reads back as
  exactly the entries of the map, in order, or \<open>NULL\<close> when memory is short; every intermediate string is
  freed on every path.\<close>

theorem Map_ToJSON_roundtrip:
  assumes "map_wf m" "list_all (\<lambda>(k, v). ascii k \<and> ascii v) (map_entries m)"
    "length (json_members_text 0 (map_entries m)) + 5 < SIZE_MOD"
  shows "wp (Map_ToJSON (Some m)) (\<lambda>h w'. faults w' = faults w \<and> live w' = live w + str_blocks h \<and>
     (case h of None \<Rightarrow> \<not> plenty (8 * mcount m + 3) w
      | Some st \<Rightarrow> str_wf st \<and> json_object (str_val st) = Some (map_entries m))) w"
proof -
  obtain ks vs where rep: "map_rep m ks vs" using assms(1) map_wf_rep by blast
  note n = map_rep_count [OF rep]
  have brace: "is_cstr (clit ''{'')" "c_str (clit ''{'') = [123]" by (simp_all add: clit_def c_str_def is_cstr_def)
  let ?text = "123 # json_members_text 0 (map_entries m)"
  have nozero: "0 \<notin> set (json_members_text i es)" for i es
    by (induction i es rule: json_members_text.induct) auto
  show ?thesis
    unfolding Map_ToJSON_def option.case wp_bind n
  proof (rule wp_STRING_construct [OF brace(1)], goal_cases)
    case (2 w1)
    then show ?case using plenty_le [of "8 * length ks + 3" w 2] by auto
  next
    case (3 w1)
    have u1: "used 2 w w1" using 3(1) by (rule used_drop) simp
    show ?case
      unfolding brace(2)
    proof (simp, rule wp_ToJSON_loop [OF rep assms(2), where ?w0.0 = w1 and ?l0.0 = "live w"], goal_cases)
      case (1 w2)
      then show ?case using 3 used_starved [OF u1 1(1), of "8 * length ks + 3"] by simp
    next
      case (2 st w2)
      have u2: "used (8 * length ks + 2) w w2" using used_trans [OF u1 2(3)] by simp
      have nz: "0 \<notin> set (?text @ [125])" using nozero by simp
      show ?case
      proof (simp add: clit_char, rule wp_append_lit(1) [where t = "[125]", simplified], goal_cases)
        case (3 w3)
        then show ?case
          using 2 \<open>faults w1 = _\<close> used_starved [OF u2 3(1), of "8 * length ks + 3"] by simp
      next
        case (4 w3)
        then show ?case
          using 2 \<open>faults w1 = _\<close> nz json_object_text [OF assms(2)] by simp
      qed (use 2 assms(3) in simp_all)
    qed (use 3 assms(3) in simp_all)
  qed (simp add: brace SIZE_MOD_def)
qed

theorem Map_ToJSON_roundtrip_witness:
  "wp (Map_ToJSON (Some \<lparr>mkeys = Some [Some [97, 0]], mvalues = Some [Some [34, 0]], mcount = 1, mapFilterCallback = None\<rparr>))
     (\<lambda>h w'. faults w' = 0 \<and> live w' = 5 + str_blocks h \<and>
       (case h of None \<Rightarrow> False | Some st \<Rightarrow> str_wf st \<and> json_object (str_val st) = Some [([97], [34])]))
     \<lparr>avail = replicate 11 (Some (\<lambda>_. 0)), live = 5, faults = 0\<rparr>"
proof (rule wp_mono [OF Map_ToJSON_roundtrip], goal_cases)
  case 3
  have "length (json_members_text 0 [([97], [34])]) = 8"
    by (simp add: json_lit_def JSON_escape_def)
  then show ?case by (simp add: map_entries_def c_str_def SIZE_MOD_def)
next
  case (4 h w')
  then show ?case
    by (auto simp: map_entries_def c_str_def plenty_eval list_all_iff split: option.splits)
qed (auto simp: map_wf_def map_rep_def map_entries_def ascii_def cstr_block_def SIZE_MOD_def is_cstr_def c_str_def)

text \<open>\<open>Map_Clone\<close> gives a map of its own with the same entries, or \<open>NULL\<close> without leaking anything; the
  filter is copied except from an empty map, whose copy accepts everything.\<close>

lemma Map_Clone_copies:
  assumes "map_wf m"
  shows "wp (Map_Clone (Some m)) (\<lambda>h w'. faults w' = faults w \<and>
     (case h of
        None \<Rightarrow> live w' = live w \<and> \<not> plenty (2 * mcount m + 3) w
      | Some m' \<Rightarrow> live w' = live w + map_blocks h \<and> map_wf m' \<and> map_entries m' = map_entries m \<and>
          mapFilterCallback m' = (if map_entries m = [] then None else mapFilterCallback m))) w"
proof -
  obtain ks vs where rep: "map_rep m ks vs" using assms map_wf_rep by blast
  have "map_entries m = [] \<longleftrightarrow> ks = []"
    using rep by (auto simp: map_rep_entries [OF rep] map_rep_def)
  then show ?thesis
    using map_rep_count [OF rep] map_rep_entries [OF rep]
    by (intro wp_Map_Clone [OF rep]) (simp_all add: map_rep_wf map_rep_entries)
qed

end
