(* ===== verification/Base64_Spec.thy ===== *)
theory Base64_Spec
  imports Prelude
begin

text \<open>
  Base64 (RFC 4648) over an arbitrary alphabet: the reference both implementations in the sources are
  measured against. The locale \<open>b64_alphabet\<close> states what a pair of character tables must satisfy and
  proves that decoding inverts encoding; \<open>Base64\<close> and \<open>LibB64\<close> interpret it with their own tables.
\<close>

section \<open>The 6-bit groups of three bytes\<close>

definition sext1 :: "u8 \<Rightarrow> u8" where
  "sext1 a = drop_bit 2 a"

definition sext2 :: "u8 \<Rightarrow> u8 \<Rightarrow> u8" where
  "sext2 a b = push_bit 4 (a AND 3) OR drop_bit 4 b"

definition sext3 :: "u8 \<Rightarrow> u8 \<Rightarrow> u8" where
  "sext3 b c = push_bit 2 (b AND 15) OR drop_bit 6 c"

definition sext4 :: "u8 \<Rightarrow> u8" where
  "sext4 c = c AND 63"

text \<open>The bytes of four groups.\<close>

definition byte1 :: "u8 \<Rightarrow> u8 \<Rightarrow> u8" where
  "byte1 x y = push_bit 2 x OR drop_bit 4 y"

definition byte2 :: "u8 \<Rightarrow> u8 \<Rightarrow> u8" where
  "byte2 y z = push_bit 4 (y AND 15) OR drop_bit 2 z"

definition byte3 :: "u8 \<Rightarrow> u8 \<Rightarrow> u8" where
  "byte3 z u = push_bit 6 (z AND 3) OR u"

lemmas b64_bits = sext1_def sext2_def sext3_def sext4_def byte1_def byte2_def byte3_def

lemma bytes_of_sexts [simp]:
  "byte1 (sext1 a) (sext2 a b) = a" "byte2 (sext2 a b) (sext3 b c) = b" "byte3 (sext3 b c) (sext4 c) = c"
  unfolding b64_bits by (rule u8_eqI; simp add: bit_simps)+

lemma sext_range [simp]:
  "sext1 a AND 63 = sext1 a" "sext2 a b AND 63 = sext2 a b" "sext3 b c AND 63 = sext3 b c"
  "sext4 c AND 63 = sext4 c"
  unfolding b64_bits by (rule u8_eqI; simp add: bit_simps)+

lemma below_64:
  assumes "(v :: u8) AND 63 = v"
  shows "v \<in> set (map of_nat [0..<64])"
proof -
  have "v \<le> 63" using assms word_and_le1 [of v 63] by (simp add: word_bw_comms)
  then show ?thesis by (auto simp: word_le_nat_alt intro!: image_eqI [of _ _ "unat v"])
qed

section \<open>Encoding and decoding byte strings\<close>

text \<open>The characters of the encoding without padding, the padding, and decoding of unpadded characters.\<close>

fun b64_chars :: "(u8 \<Rightarrow> u8) \<Rightarrow> u8 list \<Rightarrow> u8 list" where
  "b64_chars enc6 [] = []"
| "b64_chars enc6 [a] = [enc6 (sext1 a), enc6 (sext2 a 0)]"
| "b64_chars enc6 [a, b] = [enc6 (sext1 a), enc6 (sext2 a b), enc6 (sext3 b 0)]"
| "b64_chars enc6 (a # b # c # s) =
     [enc6 (sext1 a), enc6 (sext2 a b), enc6 (sext3 b c), enc6 (sext4 c)] @ b64_chars enc6 s"

definition b64_padding :: "nat \<Rightarrow> u8 list" where
  "b64_padding n = (if n mod 3 = 1 then [61, 61] else if n mod 3 = 2 then [61] else [])"

definition b64_text :: "(u8 \<Rightarrow> u8) \<Rightarrow> u8 list \<Rightarrow> u8 list" where
  "b64_text enc6 s = b64_chars enc6 s @ b64_padding (length s)"

fun b64_bytes :: "(u8 \<Rightarrow> u8) \<Rightarrow> u8 list \<Rightarrow> u8 list" where
  "b64_bytes dec6 (x # y # z # u # s) =
     [byte1 (dec6 x) (dec6 y), byte2 (dec6 y) (dec6 z), byte3 (dec6 z) (dec6 u)] @ b64_bytes dec6 s"
| "b64_bytes dec6 [x, y, z] = [byte1 (dec6 x) (dec6 y), byte2 (dec6 y) (dec6 z)]"
| "b64_bytes dec6 [x, y] = [byte1 (dec6 x) (dec6 y)]"
| "b64_bytes dec6 _ = []"

lemma triple_induct [case_names Nil One Two Three]:
  fixes s :: "u8 list"
  assumes "P []" "\<And>a. P [a]" "\<And>a b. P [a, b]" "\<And>a b c s. P s \<Longrightarrow> P (a # b # c # s)"
  shows "P s"
  using assms by (induction s rule: b64_chars.induct [where ?a0.0 = id]) auto

lemma length_b64_chars: "length (b64_chars enc6 s) = (4 * length s + 2) div 3"
  by (induction enc6 s rule: b64_chars.induct) simp_all

lemma b64_padding_Suc3 [simp]: "b64_padding (Suc (Suc (Suc n))) = b64_padding n"
proof -
  have "Suc (Suc (Suc n)) mod 3 = n mod 3" by presburger
  then show ?thesis by (simp add: b64_padding_def)
qed

lemma length_b64_text: "length (b64_text enc6 s) = (length s + 2) div 3 * 4"
proof (induction s rule: triple_induct)
  case (Three a b c s)
  have "(length s + 5) div 3 = Suc ((length s + 2) div 3)" by presburger
  with Three show ?case by (simp add: b64_text_def add.commute)
qed (simp_all add: b64_text_def b64_padding_def)

lemma length_b64_bytes: "length (b64_bytes dec6 s) = length s * 3 div 4"
  by (induction dec6 s rule: b64_bytes.induct) simp_all

locale b64_alphabet =
  fixes enc6 dec6 :: "u8 \<Rightarrow> u8"
    and valid :: "u8 \<Rightarrow> bool"
  assumes decode_char: "v AND 63 = v \<Longrightarrow> dec6 (enc6 v) = v"
    and valid_char: "v AND 63 = v \<Longrightarrow> valid (enc6 v)"
    and pad_invalid: "\<not> valid 61"
    and nul_invalid: "\<not> valid 0"
begin

lemma decode_encode: "b64_bytes dec6 (b64_chars enc6 s) = s"
  by (induction s rule: triple_induct) (simp_all add: decode_char)

lemma chars_valid: "c \<in> set (b64_chars enc6 s) \<Longrightarrow> valid c"
  by (induction s rule: triple_induct) (auto simp: valid_char)

lemma text_nozero: "0 \<notin> set (b64_text enc6 s)"
  using chars_valid nul_invalid by (auto simp: b64_text_def b64_padding_def)

text \<open>Stripping the padding: the characters are the longest prefix of valid ones.\<close>

lemma text_prefix: "takeWhile valid (b64_text enc6 s) = b64_chars enc6 s"
  using chars_valid pad_invalid
  by (auto simp: b64_text_def b64_padding_def takeWhile_append2)

lemma decode_text: "b64_bytes dec6 (takeWhile valid (b64_text enc6 s)) = s"
  by (simp add: text_prefix decode_encode)

end

end
