(* ===== verification/Base64.thy ===== *)
theory Base64
  imports Base64_Spec Buffer Strings
begin

text \<open>
  The base64 coder of the Azure C utility library (\<open>c-utility/src/base64.c\<close>), on top of the buffer and
  string components: the character tables, the decoder with its length computation, and the encoder.
\<close>

section \<open>The character tables\<close>

definition splitInt :: "u32 \<Rightarrow> nat \<Rightarrow> u8" where
  "splitInt intVal bytePos = ucast (drop_bit (bytePos * 8) intVal AND 0xFF)"

definition joinChars :: "u8 \<Rightarrow> u8 \<Rightarrow> u8 \<Rightarrow> u8 \<Rightarrow> u32" where
  "joinChars a b c d = ucast a + push_bit 8 (ucast b) + push_bit 16 (ucast c) + push_bit 24 (ucast d)"

definition base64char :: "u8 \<Rightarrow> u8" where
  "base64char v =
     (if v < 26 then 65 + v
      else if v < 52 then 97 + (v - 26)
      else if v < 62 then 48 + (v - 52)
      else if v = 62 then 43
      else 47)"

definition base64b16values :: "u32 list" where
  "base64b16values = [joinChars 65 69 73 77, joinChars 81 85 89 99, joinChars 103 107 111 115, joinChars 119 48 52 56]"

definition base64b16 :: "u8 \<Rightarrow> u8" where
  "base64b16 v = splitInt (base64b16values ! unat (drop_bit 2 v)) (unat (v AND 3))"

definition base64b8 :: "u8 \<Rightarrow> u8" where
  "base64b8 v = splitInt (joinChars 65 81 103 119) (unat v)"

text \<open>The status and the value stored through the output pointer.\<close>

definition base64toValue :: "u8 \<Rightarrow> int \<times> u8" where
  "base64toValue c =
     (if 65 \<le> c \<and> c \<le> 90 then (0, c - 65)
      else if 97 \<le> c \<and> c \<le> 122 then (0, (90 - 65) + 1 + (c - 97))
      else if 48 \<le> c \<and> c \<le> 57 then (0, (90 - 65) + 1 + (122 - 97) + 1 + (c - 48))
      else if 43 = c then (0, 62)
      else if 47 = c then (0, 63)
      else (-1, 0))"

section \<open>Decoding\<close>

text \<open>The loop reads until the first character that is not base64; running off the block is a fault.\<close>

function count_base64 :: "u8 list \<Rightarrow> nat \<Rightarrow> nat cm" where
  "count_base64 encodedString len =
     (if len < length encodedString
      then (if fst (base64toValue (encodedString ! len)) \<noteq> -1 then count_base64 encodedString (Suc len)
            else ret len)
      else do { c_assert False; ret len })"
  by pat_completeness auto
termination
  by (relation "measure (\<lambda>(s, n). length s - n)") auto

definition numberOfBase64Characters :: "u8 list \<Rightarrow> nat cm" where
  "numberOfBase64Characters encodedString = count_base64 encodedString 0"

definition Base64decode_len :: "u8 list \<Rightarrow> nat cm" where
  "Base64decode_len encodedString = do {
     sourceLength \<leftarrow> c_strlen encodedString;
     if sourceLength = 0 then ret 0
     else do {
       let result = szt (sourceLength div 4 * 3);
       c1 \<leftarrow> c_load encodedString (sourceLength - 1);
       if c1 = 61 then do {
         c2 \<leftarrow> c_load encodedString (sourceLength - 2);
         ret (if c2 = 61 then result - 1 - 1 else result - 1)
       }
       else ret result
     }
   }"

text \<open>The main loop of \<open>Base64decode\<close> (the state is the destination, the characters left, and the two
  indices), and the rest.\<close>

definition base64_load :: "u8 list \<Rightarrow> nat \<Rightarrow> u8 cm" where
  "base64_load base64String i = do { c \<leftarrow> c_load base64String i; ret (snd (base64toValue c)) }"

function Base64decode_loop :: "u8 list \<Rightarrow> u8 list \<Rightarrow> nat \<Rightarrow> nat \<Rightarrow> nat \<Rightarrow> (u8 list \<times> nat \<times> nat \<times> nat) cm" where
  "Base64decode_loop decodedString base64String numberOfEncodedChars indexOfFirst decodedIndex =
     (if numberOfEncodedChars \<ge> 4 then do {
        c1 \<leftarrow> base64_load base64String indexOfFirst;
        c2 \<leftarrow> base64_load base64String (indexOfFirst + 1);
        c3 \<leftarrow> base64_load base64String (indexOfFirst + 2);
        c4 \<leftarrow> base64_load base64String (indexOfFirst + 3);
        d1 \<leftarrow> c_store decodedString decodedIndex (push_bit 2 c1 OR drop_bit 4 c2);
        d2 \<leftarrow> c_store d1 (decodedIndex + 1) (push_bit 4 (c2 AND 0x0f) OR drop_bit 2 c3);
        d3 \<leftarrow> c_store d2 (decodedIndex + 2) (push_bit 6 (c3 AND 0x03) OR c4);
        Base64decode_loop d3 base64String (numberOfEncodedChars - 4) (indexOfFirst + 4) (decodedIndex + 3)
      }
      else ret (decodedString, numberOfEncodedChars, indexOfFirst, decodedIndex))"
  by pat_completeness auto
termination
  by (relation "measure (\<lambda>(d, s, n, i, j). n)") auto

definition Base64decode :: "u8 list \<Rightarrow> u8 list \<Rightarrow> u8 list cm" where
  "Base64decode decodedString base64String = do {
     n \<leftarrow> numberOfBase64Characters base64String;
     (d, numberOfEncodedChars, i, j) \<leftarrow> Base64decode_loop decodedString base64String n 0 0;
     if numberOfEncodedChars = 2 then do {
       c1 \<leftarrow> base64_load base64String i;
       c2 \<leftarrow> base64_load base64String (i + 1);
       c_store d j (push_bit 2 c1 OR drop_bit 4 c2)
     }
     else if numberOfEncodedChars = 3 then do {
       c1 \<leftarrow> base64_load base64String i;
       c2 \<leftarrow> base64_load base64String (i + 1);
       c3 \<leftarrow> base64_load base64String (i + 2);
       d1 \<leftarrow> c_store d j (push_bit 2 c1 OR drop_bit 4 c2);
       c_store d1 (j + 1) (push_bit 4 (c2 AND 0x0f) OR drop_bit 2 c3)
     }
     else ret d
   }"

text \<open>The decoded bytes are written through the pointer \<open>BUFFER_u_char\<close> returns, into the buffer.\<close>

definition Base64_Decoder :: "u8 list option \<Rightarrow> BUFFER option cm" where
  "Base64_Decoder source =
     (case source of
        None \<Rightarrow> ret None
      | Some src \<Rightarrow> do {
          len \<leftarrow> c_strlen src;
          if len mod 4 \<noteq> 0 then ret None
          else do {
            result \<leftarrow> BUFFER_new;
            if result = None then ret None
            else do {
              sizeOfOutputBuffer \<leftarrow> Base64decode_len src;
              if sizeOfOutputBuffer > 0 then do {
                (r, h) \<leftarrow> BUFFER_pre_build result sizeOfOutputBuffer;
                if r \<noteq> 0 then do { BUFFER_delete h; ret None }
                else do {
                  d \<leftarrow> Base64decode (blk (BUFFER_u_char h)) src;
                  ret (map_option (\<lambda>b. b\<lparr>buffer := Some d\<rparr>) h)
                }
              }
              else ret result
            }
          }
        })"

section \<open>Encoding\<close>

function Base64_encode_loop :: "u8 list \<Rightarrow> nat \<Rightarrow> u8 list \<Rightarrow> nat \<Rightarrow> nat \<Rightarrow> (u8 list \<times> nat \<times> nat) cm" where
  "Base64_encode_loop source n encoded currentPosition destinationPosition =
     (if n - currentPosition \<ge> 3 then do {
        s0 \<leftarrow> c_load source currentPosition;
        s1 \<leftarrow> c_load source (currentPosition + 1);
        s2 \<leftarrow> c_load source (currentPosition + 2);
        e \<leftarrow> c_stores encoded destinationPosition
               [base64char (drop_bit 2 s0),
                base64char (push_bit 4 (s0 AND 3) OR drop_bit 4 s1),
                base64char (push_bit 2 (s1 AND 0x0F) OR (drop_bit 6 s2 AND 3)),
                base64char (s2 AND 0x3F)];
        Base64_encode_loop source n e (currentPosition + 3) (destinationPosition + 4)
      }
      else ret (encoded, currentPosition, destinationPosition))"
  by pat_completeness auto
termination
  by (relation "measure (\<lambda>(s, n, e, p, q). n - p)") auto

definition Base64_Encode_Internal :: "u8 list \<Rightarrow> nat \<Rightarrow> STRING option cm" where
  "Base64_Encode_Internal source n = do {
     let neededSize = szt ((if n = 0 then 0 else ((n - 1) div 3 + 1) * 4) + 1);
     encoded \<leftarrow> c_malloc neededSize;
     (case encoded of
        None \<Rightarrow> ret None
      | Some enc \<Rightarrow> do {
          (e, cur, dst) \<leftarrow> Base64_encode_loop source n enc 0 0;
          (e', dst') \<leftarrow>
            (if n - cur = 2 then do {
               s0 \<leftarrow> c_load source cur;
               s1 \<leftarrow> c_load source (cur + 1);
               e1 \<leftarrow> c_stores e dst
                       [base64char (drop_bit 2 s0),
                        base64char (push_bit 4 (s0 AND 0x03) OR drop_bit 4 s1),
                        base64b16 (s1 AND 0x0F), 61];
               ret (e1, dst + 4)
             }
             else if n - cur = 1 then do {
               s0 \<leftarrow> c_load source cur;
               e1 \<leftarrow> c_stores e dst [base64char (drop_bit 2 s0), base64b8 (s0 AND 0x03), 61, 61];
               ret (e1, dst + 4)
             }
             else ret (e, dst));
          e'' \<leftarrow> c_store e' dst' 0;
          result \<leftarrow> STRING_new_with_memory (Some e'');
          if result = None then do { c_free (Some e''); ret None } else ret result
        })
   }"

definition Base64_Encode_Bytes :: "u8 list option \<Rightarrow> nat \<Rightarrow> STRING option cm" where
  "Base64_Encode_Bytes source n =
     (case source of
        None \<Rightarrow> ret None
      | Some s \<Rightarrow> if n = 0 then STRING_new else Base64_Encode_Internal s n)"

definition Base64_Encoder :: "BUFFER option \<Rightarrow> STRING option cm" where
  "Base64_Encoder input =
     (case input of
        None \<Rightarrow> ret None
      | Some b \<Rightarrow> (case (BUFFER_content input True, BUFFER_size input True) of
          ((rc, Some inputBinary), (rs, Some inputSize)) \<Rightarrow>
            if rc \<noteq> 0 \<or> rs \<noteq> 0 then ret None
            else Base64_Encode_Internal (blk inputBinary) inputSize
        | _ \<Rightarrow> ret None))"

section \<open>The tables are inverse to each other\<close>

definition base64_valid :: "u8 \<Rightarrow> bool" where
  "base64_valid c \<longleftrightarrow> fst (base64toValue c) \<noteq> -1"

definition base64_value :: "u8 \<Rightarrow> u8" where
  "base64_value c = snd (base64toValue c)"

interpretation az64: b64_alphabet base64char base64_value base64_valid
proof
  have all: "\<forall>v \<in> set (map (of_nat :: nat \<Rightarrow> u8) [0..<64]). base64_value (base64char v) = v \<and> base64_valid (base64char v)"
    by code_simp
  show "v AND 63 = v \<Longrightarrow> base64_value (base64char v) = v" for v using all below_64 by blast
  show "v AND 63 = v \<Longrightarrow> base64_valid (base64char v)" for v using all below_64 by blast
  show "\<not> base64_valid 61" "\<not> base64_valid 0" by (simp_all add: base64_valid_def base64toValue_def)
qed

lemma last_chars:
  "base64b16 (s AND 15) = base64char (sext3 s 0)" "base64b8 (s AND 3) = base64char (sext2 s 0)"
proof -
  have "\<forall>v \<in> set (map (of_nat :: nat \<Rightarrow> u8) [0..<16]). base64b16 v = base64char (push_bit 2 v)" by code_simp
  moreover have "s AND 15 \<in> set (map of_nat [0..<16])"
    using word_and_le1 [of s 15] by (auto simp: word_le_nat_alt intro!: image_eqI [of _ _ "unat (s AND 15)"])
  ultimately have "base64b16 (s AND 15) = base64char (push_bit 2 (s AND 15))" by blast
  then show "base64b16 (s AND 15) = base64char (sext3 s 0)" by (simp add: sext3_def)
  have "\<forall>v \<in> set (map (of_nat :: nat \<Rightarrow> u8) [0..<4]). base64b8 v = base64char (push_bit 4 v)" by code_simp
  moreover have "s AND 3 \<in> set (map of_nat [0..<4])"
    using word_and_le1 [of s 3] by (auto simp: word_le_nat_alt intro!: image_eqI [of _ _ "unat (s AND 3)"])
  ultimately have "base64b8 (s AND 3) = base64char (push_bit 4 (s AND 3))" by blast
  then show "base64b8 (s AND 3) = base64char (sext2 s 0)" by (simp add: sext2_def)
qed

section \<open>Weakest preconditions\<close>

declare count_base64.simps [simp del] Base64decode_loop.simps [simp del] Base64_encode_loop.simps [simp del]

lemma wp_count_base64:
  assumes "is_cstr s"
  shows "i \<le> length (takeWhile base64_valid s) \<Longrightarrow>
    wp (count_base64 s i) Q w = Q (length (takeWhile base64_valid s)) w"
proof (induction "length (takeWhile base64_valid s) - i" arbitrary: i)
  let ?n = "length (takeWhile base64_valid s)"
  have stop: "?n < length s" "\<not> base64_valid (s ! ?n)"
  proof -
    have "\<exists>c \<in> set s. \<not> base64_valid c" using assms az64.nul_invalid by (auto simp: is_cstr_def)
    then have "takeWhile base64_valid s \<noteq> s" by (metis takeWhile_eq_all_conv)
    then show "?n < length s" by (metis length_takeWhile_le nat_less_le takeWhile_eq_take take_all order_refl)
    then show "\<not> base64_valid (s ! ?n)" by (rule nth_length_takeWhile)
  qed
  {
    case 0
    then have "i = ?n" by simp
    then show ?case using stop by (simp add: count_base64.simps [of s ?n] flip: base64_valid_def)
  next
    case (Suc d)
    then have i: "i < ?n" by simp
    then have "base64_valid (s ! i)"
      by (metis nth_mem set_takeWhileD takeWhile_nth)
    with Suc i stop show ?case by (simp add: count_base64.simps [of s i] flip: base64_valid_def)
  }
qed

lemma wp_base64_load [simp]: "i < length s \<Longrightarrow> wp (base64_load s i) Q w = Q (base64_value (s ! i)) w"
  by (simp add: base64_load_def base64_value_def)

text \<open>The decoding loop on \<open>t\<close> characters behind those already read: what is written is what the
  reference decodes.\<close>

lemma drop4:
  assumes "i + 4 \<le> length s"
  shows "drop i s = s ! i # s ! (i + 1) # s ! (i + 2) # s ! (i + 3) # drop (i + 4) s"
  using assms by (simp add: Cons_nth_drop_Suc numeral_eq_Suc)

lemma wp_Base64decode_loop:
  "r < 4 \<Longrightarrow> i + 4 * q + r \<le> length s \<Longrightarrow> j + 3 * q \<le> length d \<Longrightarrow>
   wp (Base64decode_loop d s (4 * q + r) i j) Q w =
     Q (put d j (b64_bytes base64_value (take (4 * q) (drop i s))), r, i + 4 * q, j + 3 * q) w"
proof (induction q arbitrary: d i j)
  case 0
  then show ?case by (simp add: Base64decode_loop.simps [of d s r])
next
  case (Suc q)
  let ?g = "[byte1 (base64_value (s ! i)) (base64_value (s ! (i + 1))),
            byte2 (base64_value (s ! (i + 1))) (base64_value (s ! (i + 2))),
            byte3 (base64_value (s ! (i + 2))) (base64_value (s ! (i + 3)))]"
  let ?t = "b64_bytes base64_value (take (4 * q) (drop (i + 4) s))"
  have d4: "drop i s = s ! i # s ! (i + 1) # s ! (i + 2) # s ! (i + 3) # drop (i + 4) s"
    using Suc.prems(2) by (intro drop4) simp
  have len: "length ?t = 3 * q" using Suc.prems(2) by (simp add: length_b64_bytes)
  have three: "d[j := a, Suc j := b, Suc (Suc j) := c] = put d j [a, b, c]" for a b c
    using Suc.prems(3) by (simp add: list_update_eq_put put_put_adjacent [of j "[a]" "[b]" d, simplified]
        put_put_adjacent [of j "[a, b]" "[c]" d, simplified])
  have "wp (Base64decode_loop d s (4 * Suc q + r) i j) Q w =
      wp (Base64decode_loop (put d j ?g) s (4 * q + r) (i + 4) (j + 3)) Q w"
    using Suc.prems
    by (simp add: Base64decode_loop.simps [of d s "4 + 4 * q + r" i j] three byte1_def byte2_def byte3_def
        numeral_3_eq_3)
  also have "\<dots> = Q (put (put d j ?g) (j + 3) ?t, r, i + 4 + 4 * q, j + 3 + 3 * q) w"
    using Suc.prems by (intro Suc.IH) simp_all
  also have "put (put d j ?g) (j + 3) ?t = put d j (?g @ ?t)"
    using put_put_adjacent [of j ?g ?t d] Suc.prems(3) len by (simp add: numeral_3_eq_3)
  also have "?g @ ?t = b64_bytes base64_value (take (4 * Suc q) (drop i s))"
  proof -
    have "4 * Suc q = Suc (Suc (Suc (Suc (4 * q))))" by simp
    then show ?thesis by (simp only: d4 take_Suc_Cons b64_bytes.simps)
  qed
  finally show ?case by (simp add: ac_simps)
qed

lemma b64_bytes_append4:
  "length s mod 4 = 0 \<Longrightarrow> b64_bytes dec6 (s @ t) = b64_bytes dec6 s @ b64_bytes dec6 t"
proof (induction "length s" arbitrary: s rule: less_induct)
  case less
  show ?case
  proof (cases "s = []")
    case False
    then have "4 \<le> length s" using less.prems by (metis length_0_conv mod_less not_le)
    then obtain a b c d r where s: "s = a # b # c # d # r"
      by (metis Suc_le_length_iff numeral_eq_Suc pred_numeral_simps(2,3) BitM.simps eval_nat_numeral(2))
    have "length r mod 4 = 0" using less.prems s by simp
    with less.hyps [of r] s show ?thesis by simp
  qed simp
qed

lemma wp_Base64decode:
  assumes "is_cstr s" "length (takeWhile base64_valid s) * 3 div 4 \<le> length d"
  shows "wp (Base64decode d s) Q w = Q (put d 0 (b64_bytes base64_value (takeWhile base64_valid s))) w"
proof -
  define t where "t = takeWhile base64_valid s"
  define n where "n = length t"
  define q r where "q = n div 4" and "r = n mod 4"
  have n: "n = 4 * q + r" "r < 4" by (simp_all add: q_def r_def)
  have t: "take n s = t" by (simp add: t_def n_def takeWhile_eq_take [symmetric])
  have ns: "n \<le> length s" by (simp add: n_def t_def length_takeWhile_le)
  have room: "3 * q + r * 3 div 4 \<le> length d" using assms(2) n by (simp flip: t_def n_def)
  let ?a = "take (4 * q) t" and ?b = "drop (4 * q) t"
  have split: "b64_bytes base64_value t = b64_bytes base64_value ?a @ b64_bytes base64_value ?b"
    using b64_bytes_append4 [of ?a base64_value ?b] n by (simp add: n_def)
  have la: "length (b64_bytes base64_value ?a) = 3 * q" using n by (simp add: length_b64_bytes n_def)
  have ta: "take (4 * q) s = ?a" using t n by (metis le_add1 min.absorb1 take_take)
  have nth: "s ! (4 * q + i) = ?b ! i" if "i < r" for i
    using that n t ns by (metis add_less_cancel_left nth_drop nth_take n_def le_add1 order_trans)
  have loop: "wp (Base64decode_loop d s n 0 0) Q' w = Q' (put d 0 (b64_bytes base64_value ?a), r, 4 * q, 3 * q) w" for Q'
    using wp_Base64decode_loop [of r 0 q s 0 d Q' w] n ns room ta by simp
  have count: "wp (numberOfBase64Characters s) Q' w = Q' n w" for Q'
    using wp_count_base64 [OF assms(1), of 0 Q' w] by (simp add: numberOfBase64Characters_def n_def t_def)
  have ns': "4 * q + r \<le> length s" using n ns by simp
  have lb: "length ?b = r" using n by (simp add: n_def)
  have tail: "put (put d 0 (b64_bytes base64_value ?a)) (3 * q) xs = put d 0 (b64_bytes base64_value ?a @ xs)"
    if "3 * q + length xs \<le> length d" for xs
    using put_put_adjacent [of 0 "b64_bytes base64_value ?a" xs d] that la by simp
  have ld: "length (put d 0 (b64_bytes base64_value ?a)) = length d" using la room by simp
  have "r = 0 \<or> r = 1 \<or> r = 2 \<or> r = 3" using n(2) by linarith
  then have "wp (Base64decode d s) Q w = Q (put d 0 (b64_bytes base64_value t)) w"
  proof (elim disjE)
    assume r: "r = 2"
    then obtain x y where b: "?b = [x, y]" using lb length_2E [of ?b] by metis
    show ?thesis
      using r b nth [of 0] nth [of 1] ns' room ld tail [of "[byte1 (base64_value x) (base64_value y)]"]
      by (simp add: Base64decode_def count loop split list_update_eq_put flip: byte1_def)
  next
    assume r: "r = 3"
    then obtain x y z where b: "?b = [x, y, z]" using lb length_3E [of ?b] by metis
    have upd: "d'[3 * q := u, Suc (3 * q) := v] = put d' (3 * q) [u, v]" if "length d' = length d" for d' u v
      using that r room by (simp add: list_update_eq_put put_put_adjacent [of "3 * q" "[u]" "[v]" d', simplified])
    show ?thesis
      using r b nth [of 0] nth [of 1] nth [of 2] ns' room ld
        tail [of "[byte1 (base64_value x) (base64_value y), byte2 (base64_value y) (base64_value z)]"]
      by (simp add: Base64decode_def count loop split upd byte1_def byte2_def)
  next
    assume r: "r = 1"
    then obtain x where b: "?b = [x]" using lb by (metis length_0_conv length_Suc_conv One_nat_def)
    show ?thesis using r b by (simp add: Base64decode_def count loop split)
  next
    assume r: "r = 0"
    then have b: "?b = []" using lb by simp
    show ?thesis unfolding split b using r by (simp add: Base64decode_def count loop)
  qed
  then show ?thesis by (simp add: t_def)
qed

lemma wp_Base64decode_len:
  assumes "is_cstr s" "length (c_str s) < SIZE_MOD" "length (c_str s) mod 4 = 0"
  shows "wp (Base64decode_len s) Q w = Q (length (c_str s) div 4 * 3 -
    (if c_str s \<noteq> [] \<and> last (c_str s) = 61 then if last (butlast (c_str s)) = 61 then 2 else 1 else 0)) w"
proof (cases "c_str s = []")
  case True
  then show ?thesis using assms by (simp add: Base64decode_len_def)
next
  case False
  define t where "t = c_str s"
  have ne: "t \<noteq> []" using False by (simp add: t_def)
  have "\<not> length t < 4"
    using assms(3) ne mod_less [of "length t" 4] by (auto simp flip: t_def)
  with ne have t: "t \<noteq> []" "4 \<le> length t" by simp_all
  have nth: "s ! i = t ! i" if "i < length t" for i
    using that by (metis t_def nth_take take_length_c_str)
  have less: "length t < length s" using assms(1) by (simp add: t_def)
  have l1: "last t = t ! (length t - 1)" using t by (simp add: last_conv_nth)
  have l2: "last (butlast t) = t ! (length t - 2)"
  proof -
    have "butlast t \<noteq> []" using t by (cases t) auto
    then show ?thesis using t by (simp add: last_conv_nth nth_butlast numeral_2_eq_2)
  qed
  have "szt (length t div 4 * 3) = length t div 4 * 3"
    using assms(2) by (intro szt_id) (simp flip: t_def)
  then show ?thesis
    using t less l1 l2 nth [of "length t - 1"] nth [of "length t - 2"] assms(1)
    by (auto simp: Base64decode_len_def Let_def numeral_2_eq_2 simp flip: t_def)
qed

text \<open>The decoded bytes always fit: the base64 characters in front of the padding decode to no more bytes
  than the length function computes.\<close>

lemma takeWhile_snoc: "\<not> P x \<Longrightarrow> takeWhile P (xs @ [x]) = takeWhile P xs"
  by (induction xs) auto

lemma decoded_fits:
  assumes "length t mod 4 = 0"
  shows "length (takeWhile base64_valid t) * 3 div 4 \<le> length t div 4 * 3 -
    (if t \<noteq> [] \<and> last t = 61 then if last (butlast t) = 61 then 2 else 1 else 0)"
proof -
  obtain k where k: "length t = 4 * k" using assms by auto
  have base: "length (takeWhile base64_valid t) \<le> 4 * k" using length_takeWhile_le [of base64_valid t] k by simp
  show ?thesis
  proof (cases "t \<noteq> [] \<and> last t = 61")
    case False
    have "length (takeWhile base64_valid t) * 3 div 4 \<le> 4 * k * 3 div 4"
      using base by (intro div_le_mono mult_le_mono1)
    then show ?thesis using False k by auto
  next
    case True
    then obtain u where u: "t = u @ [61]" by (metis append_butlast_last_id)
    have kpos: "0 < k" using k u by auto
    have w1: "takeWhile base64_valid t = takeWhile base64_valid u"
      using az64.pad_invalid by (simp add: u takeWhile_snoc)
    show ?thesis
    proof (cases "last u = 61")
      case False
      have "length (takeWhile base64_valid t) * 3 div 4 \<le> (4 * k - 1) * 3 div 4"
        using w1 length_takeWhile_le [of base64_valid u] k u by (intro div_le_mono mult_le_mono1) simp
      also have "\<dots> \<le> 3 * k - 1" using kpos by presburger
      finally show ?thesis using True False k u by simp
    next
      case twice: True
      have "u \<noteq> []" using k u by auto
      then obtain v where v: "u = v @ [61]" using twice by (metis append_butlast_last_id)
      have "takeWhile base64_valid u = takeWhile base64_valid v"
        using az64.pad_invalid by (simp add: v takeWhile_snoc)
      then have "length (takeWhile base64_valid t) * 3 div 4 \<le> (4 * k - 2) * 3 div 4"
        using w1 length_takeWhile_le [of base64_valid v] k u v by (intro div_le_mono mult_le_mono1) simp
      also have "\<dots> \<le> 3 * k - 2" using kpos by presburger
      finally show ?thesis using True twice k u by simp
    qed
  qed
qed

lemma takeWhile_valid_c_str:
  assumes "is_cstr s"
  shows "takeWhile base64_valid s = takeWhile base64_valid (c_str s)"
proof -
  obtain r where "s = c_str s @ 0 # r" using is_cstr_split [OF assms] by blast
  moreover have "takeWhile base64_valid (xs @ 0 # r) = takeWhile base64_valid xs" for xs
    using az64.nul_invalid by (induction xs) auto
  ultimately show ?thesis by metis
qed

lemma wp_Base64_Decoder:
  assumes src: "is_cstr s" "length (c_str s) < SIZE_MOD" "length (c_str s) mod 4 = 0"
    and failed: "\<And>w'. \<not> plenty 2 w \<Longrightarrow> live w' = live w \<Longrightarrow> faults w' = faults w \<Longrightarrow> Q None w'"
    and decoded: "\<And>b w'. buf_wf b \<Longrightarrow>
       take (length (b64_bytes base64_value (takeWhile base64_valid (c_str s)))) (buf_bytes b) =
         b64_bytes base64_value (takeWhile base64_valid (c_str s)) \<Longrightarrow>
       bsize b = length (c_str s) div 4 * 3 -
         (if c_str s \<noteq> [] \<and> last (c_str s) = 61 then if last (butlast (c_str s)) = 61 then 2 else 1 else 0) \<Longrightarrow>
       live w' = live w + buf_blocks (Some b) \<Longrightarrow> faults w' = faults w \<Longrightarrow> used 2 w w' \<Longrightarrow> Q (Some b) w'"
  shows "wp (Base64_Decoder (Some s)) Q w"
proof -
  let ?t = "takeWhile base64_valid (c_str s)"
  let ?dec = "b64_bytes base64_value ?t"
  define n where "n = length (c_str s) div 4 * 3 -
    (if c_str s \<noteq> [] \<and> last (c_str s) = 61 then if last (butlast (c_str s)) = 61 then 2 else 1 else 0)"
  have fits: "length ?t * 3 div 4 \<le> n" using decoded_fits [OF src(3)] by (simp add: n_def)
  then have ld: "length ?dec \<le> n" by (simp add: length_b64_bytes)
  have "n \<le> length (c_str s)" by (simp add: n_def)
  then have nmod: "n < SIZE_MOD" using src(2) by simp
  have len: "wp (Base64decode_len s) Q' w' = Q' n w'" for Q' w'
    using wp_Base64decode_len [OF src] by (simp add: n_def)
  have body: "wp (if n > 0 then do {
         (r, h) \<leftarrow> BUFFER_pre_build (Some \<lparr>buffer = None, bsize = 0\<rparr>) n;
         if r \<noteq> 0 then do { BUFFER_delete h; ret None }
         else do { d \<leftarrow> Base64decode (blk (BUFFER_u_char h)) s; ret (map_option (\<lambda>b. b\<lparr>buffer := Some d\<rparr>) h) }
       } else ret (Some \<lparr>buffer = None, bsize = 0\<rparr>)) Q w1"
    if w1: "avail w1 = tl (avail w)" "live w1 = live w + 1" "faults w1 = faults w" for w1
  proof (cases "n = 0")
    case True
    then have "?dec = []" using ld by simp
    then show ?thesis
      using True w1 decoded [of "\<lparr>buffer = None, bsize = 0\<rparr>" w1] by (simp add: buf_wf_def SIZE_MOD_def n_def used_tl)
  next
    case False
    have run: "wp (Base64decode bs s) Q' w' = Q' (put bs 0 ?dec) w'" if "length bs = n" for bs Q' w'
      using wp_Base64decode [OF src(1), of bs Q' w'] fits that by (simp add: takeWhile_valid_c_str [OF src(1)])
    show ?thesis
      unfolding if_P [OF False [unfolded neq0_conv]] wp_bind
    proof (rule wp_BUFFER_pre_build, goal_cases)
      case (3 w2)
      then show ?case using w1 failed not_plenty_drop [of w1 1 w 2] by (simp add: drop_Suc buf_blocks_def)
    next
      case (4 bs w2)
      have "(mkbuf bs)\<lparr>buffer := Some (put bs 0 ?dec)\<rparr> = mkbuf (put bs 0 ?dec)"
        using 4(1) ld by (simp add: mkbuf_def)
      moreover have "blk (BUFFER_u_char (Some (mkbuf bs))) = bs"
        using False 4(1) by (simp add: BUFFER_u_char_def)
      moreover have "used 2 w w2" by (rule used_trans [OF used_tl [OF w1(1), of 1] used_tl [OF 4(3), of 1]]) simp_all
      then have "Q (Some (mkbuf (put bs 0 ?dec))) w2"
        using 4 w1 ld nmod by (intro decoded [folded n_def]) (simp_all add: put_0)
      ultimately show ?case using run [OF 4(1)] by simp
    qed (use False nmod in \<open>auto simp: buf_wf_def SIZE_MOD_def\<close>)
  qed
  have aligned: "\<not> length (c_str s) mod 4 \<noteq> 0" using src(3) by simp
  show ?thesis
    unfolding Base64_Decoder_def option.case wp_bind wp_strlen [OF src(1)] if_not_P [OF aligned]
  proof (rule wp_BUFFER_new, goal_cases)
    case (1 w1)
    then show ?case using failed not_plenty_next [of w 2] by simp
  next
    case (2 w1)
    then show ?case using body [of w1] by (simp add: len wp_bind_eta)
  qed
qed

lemma wp_Base64_encode_loop:
  "r < 3 \<Longrightarrow> i + 3 * q + r \<le> length s \<Longrightarrow> j + 4 * q \<le> length e \<Longrightarrow>
   wp (Base64_encode_loop s (i + 3 * q + r) e i j) Q w =
     Q (put e j (b64_chars base64char (take (3 * q) (drop i s))), i + 3 * q, j + 4 * q) w"
proof (induction q arbitrary: e i j)
  case 0
  then show ?case by (simp add: Base64_encode_loop.simps [of s "i + r"])
next
  case (Suc q)
  let ?g = "[base64char (sext1 (s ! i)), base64char (sext2 (s ! i) (s ! (i + 1))),
            base64char (sext3 (s ! (i + 1)) (s ! (i + 2))), base64char (sext4 (s ! (i + 2)))]"
  let ?t = "b64_chars base64char (take (3 * q) (drop (i + 3) s))"
  have d3: "drop i s = s ! i # s ! (i + 1) # s ! (i + 2) # drop (i + 3) s"
    using Suc.prems(2) by (simp add: Cons_nth_drop_Suc numeral_eq_Suc)
  have len: "length ?t = 4 * q" using Suc.prems(2) by (simp add: length_b64_chars)
  have high: "drop_bit 6 (c :: u8) AND 3 = drop_bit 6 c" for c
    by (rule u8_eqI; simp add: bit_simps)
  have step: "wp (Base64_encode_loop s n e i j) Q w = wp (Base64_encode_loop s n (put e j ?g) (i + 3) (j + 4)) Q w"
    if "3 \<le> n - i" for n
    using that Suc.prems
    by (simp add: Base64_encode_loop.simps [of s n e i j] high sext1_def sext2_def sext3_def sext4_def
        del: c_stores.simps)
  have "wp (Base64_encode_loop s (i + 3 * Suc q + r) e i j) Q w =
      wp (Base64_encode_loop s ((i + 3) + 3 * q + r) (put e j ?g) (i + 3) (j + 4)) Q w"
    using step [of "i + 3 * Suc q + r"] by (simp add: ac_simps)
  also have "\<dots> = Q (put (put e j ?g) (j + 4) ?t, i + 3 + 3 * q, j + 4 + 4 * q) w"
    using Suc.prems by (intro Suc.IH) simp_all
  also have "put (put e j ?g) (j + 4) ?t = put e j (?g @ ?t)"
    using put_put_adjacent [of j ?g ?t e] Suc.prems(3) len by (simp add: eval_nat_numeral)
  also have "?g @ ?t = b64_chars base64char (take (3 * Suc q) (drop i s))"
  proof -
    have "3 * Suc q = Suc (Suc (Suc (3 * q)))" by simp
    then show ?thesis by (simp only: d3 take_Suc_Cons b64_chars.simps)
  qed
  finally show ?case by (simp add: ac_simps)
qed

lemma b64_text_append3:
  "length s mod 3 = 0 \<Longrightarrow> b64_text enc6 (s @ t) = b64_chars enc6 s @ b64_text enc6 t"
proof (induction s rule: triple_induct)
  case (Three a b c s)
  have "length s mod 3 = 0" using Three.prems by simp
  with Three.IH show ?case by (simp add: b64_text_def)
qed (simp_all add: b64_text_def)

text \<open>The tail of the encoder: what is left after the loop, and the terminator.\<close>

lemma wp_Base64_Encode_Internal:
  assumes n: "n \<le> length s" "(n + 2) div 3 * 4 + 1 < SIZE_MOD"
    and failed: "\<And>w'. \<not> plenty 2 w \<Longrightarrow> live w' = live w \<Longrightarrow> faults w' = faults w \<Longrightarrow> Q None w'"
    and encoded: "\<And>w'. used 2 w w' \<Longrightarrow> live w' = live w + 2 \<Longrightarrow> faults w' = faults w \<Longrightarrow>
       Q (Some (mkstr (b64_text base64char (take n s)))) w'"
  shows "wp (Base64_Encode_Internal s n) Q w"
proof -
  define q r where "q = n div 3" and "r = n mod 3"
  have nq: "n = 3 * q + r" "r < 3" by (simp_all add: q_def r_def)
  define L where "L = (n + 2) div 3 * 4"
  have size: "szt ((if n = 0 then 0 else ((n - 1) div 3 + 1) * 4) + 1) = Suc L"
  proof -
    have "(if n = 0 then 0 else ((n - 1) div 3 + 1) * 4) = L"
    proof (cases n)
      case (Suc k)
      have "(3 + k) div 3 = Suc (k div 3)" by simp
      with Suc show ?thesis by (simp add: L_def)
    qed (simp add: L_def)
    then show ?thesis using n(2) by (simp add: L_def)
  qed
  let ?a = "take (3 * q) s" and ?b = "drop (3 * q) (take n s)"
  have la: "length (b64_chars base64char ?a) = 4 * q" using nq n(1) by (simp add: length_b64_chars)
  have whole: "b64_text base64char (take n s) = b64_chars base64char ?a @ b64_text base64char ?b"
  proof -
    have "take n s = ?a @ ?b" using nq by (metis append_take_drop_id le_add1 min.absorb1 take_take)
    moreover have "length ?a mod 3 = 0" using nq n(1) by simp
    ultimately show ?thesis using b64_text_append3 by metis
  qed
  have lt: "length (b64_text base64char (take n s)) = L" using n(1) by (simp add: length_b64_text L_def min_def)
  have lb: "length ?b = r" using nq n(1) by simp
  have nth: "s ! (3 * q + i) = ?b ! i" if "i < r" for i
    using that nq n(1) by simp
  have room: "4 * q + length (b64_text base64char ?b) = L" using lt la by (simp add: whole)
  have tail: "wp (do {
       (e', dst') \<leftarrow>
         (if n - 3 * q = 2 then do {
            s0 \<leftarrow> c_load s (3 * q);
            s1 \<leftarrow> c_load s (3 * q + 1);
            e1 \<leftarrow> c_stores e (4 * q)
                    [base64char (drop_bit 2 s0), base64char (push_bit 4 (s0 AND 0x03) OR drop_bit 4 s1),
                     base64b16 (s1 AND 0x0F), 61];
            ret (e1, 4 * q + 4)
          }
          else if n - 3 * q = 1 then do {
            s0 \<leftarrow> c_load s (3 * q);
            e1 \<leftarrow> c_stores e (4 * q) [base64char (drop_bit 2 s0), base64b8 (s0 AND 0x03), 61, 61];
            ret (e1, 4 * q + 4)
          }
          else ret (e, 4 * q));
       f e' dst' }) Q' w' = wp (f (put e (4 * q) (b64_text base64char ?b)) L) Q' w'"
    if "length e = Suc L" for e f Q' w'
  proof -
    have "r = 0 \<or> r = 1 \<or> r = 2" using nq(2) by linarith
    then show ?thesis
    proof (elim disjE)
      assume r: "r = 2"
      obtain x y where b: "?b = [x, y]" using lb r length_2E [of ?b] by metis
      have L4: "L = 4 * q + 4" using room b by (simp add: b64_text_def b64_padding_def)
      show ?thesis
        using that r b nth [of 0] nth [of 1] nq n(1) last_chars(1) [of y]
        by (simp add: L4 b64_text_def b64_padding_def sext1_def sext2_def del: c_stores.simps)
    next
      assume r: "r = 1"
      obtain x where b: "?b = [x]" using lb r by (metis length_0_conv length_Suc_conv One_nat_def)
      have L4: "L = 4 * q + 4" using room b by (simp add: b64_text_def b64_padding_def)
      show ?thesis
        using that r b nth [of 0] nq n(1) last_chars(2) [of x]
        by (simp add: L4 b64_text_def b64_padding_def sext1_def del: c_stores.simps)
    next
      assume r: "r = 0"
      then have b: "?b = []" using lb by simp
      show ?thesis unfolding b using r room nq b by (simp add: b64_text_def b64_padding_def)
    qed
  qed
  show ?thesis
    unfolding Base64_Encode_Internal_def Let_def size wp_bind
  proof (rule wp_malloc, goal_cases)
    case (1 w1)
    then show ?case using failed not_plenty_next [of w 2] by simp
  next
    case (2 e w1)
    have loop: "wp (Base64_encode_loop s n e 0 0) Q' w' =
        Q' (put e 0 (b64_chars base64char ?a), 3 * q, 4 * q) w'" for Q' w'
      using wp_Base64_encode_loop [of r 0 q s 0 e Q' w'] nq n(1) room 2(1) by simp
    let ?e = "put e 0 (b64_chars base64char ?a)"
    have le: "length ?e = Suc L" using 2(1) la room by simp
    have full: "(put ?e (4 * q) (b64_text base64char ?b))[L := 0] = b64_text base64char (take n s) @ [0]"
    proof -
      have "put ?e (4 * q) (b64_text base64char ?b) = put e 0 (b64_text base64char (take n s))"
        using put_put_adjacent [of 0 "b64_chars base64char ?a" "b64_text base64char ?b" e] la room 2(1)
        by (simp add: whole)
      then show ?thesis using 2(1) lt by (simp add: list_update_eq_put put_0 put_tail)
    qed
    have ll: "L < length (put ?e (4 * q) (b64_text base64char ?b))" using le room by simp
    let ?fin = "\<lambda>e' dst'. do {
        e'' \<leftarrow> c_store e' dst' 0;
        result \<leftarrow> STRING_new_with_memory (Some e'');
        if result = None then do { c_free (Some e''); ret None } else ret result }"
    have "wp (?fin (put ?e (4 * q) (b64_text base64char ?b)) L) Q w1"
      using ll full unfolding wp_bind
    proof (simp, intro wp_STRING_new_with_memory, goal_cases)
      case (1 w2)
      then show ?case using 2 failed not_plenty_drop [of w1 1 w 2] by (simp add: drop_Suc)
    next
      case (2 w2)
      have "used 2 w w2" by (rule used_drop [of _ 2]) (use 2 \<open>avail w1 = _\<close> in \<open>simp_all add: numeral_2_eq_2 drop_Suc\<close>)
      then show ?case using 2 \<open>live w1 = _\<close> \<open>faults w1 = _\<close> encoded by (simp add: mkstr_def)
    qed
    then have "wp (do {
       (e', dst') \<leftarrow>
         (if n - 3 * q = 2 then do {
            s0 \<leftarrow> c_load s (3 * q);
            s1 \<leftarrow> c_load s (3 * q + 1);
            e1 \<leftarrow> c_stores ?e (4 * q)
                    [base64char (drop_bit 2 s0), base64char (push_bit 4 (s0 AND 0x03) OR drop_bit 4 s1),
                     base64b16 (s1 AND 0x0F), 61];
            ret (e1, 4 * q + 4)
          }
          else if n - 3 * q = 1 then do {
            s0 \<leftarrow> c_load s (3 * q);
            e1 \<leftarrow> c_stores ?e (4 * q) [base64char (drop_bit 2 s0), base64b8 (s0 AND 0x03), 61, 61];
            ret (e1, 4 * q + 4)
          }
          else ret (?e, 4 * q));
       ?fin e' dst' }) Q w1"
      by (simp only: tail [OF le])
    then show ?case unfolding option.case wp_bind loop prod.case .
  qed
qed

text \<open>On a text the encoder produced the length function is exact.\<close>

lemma decoded_len_text:
  "length (b64_text base64char s) div 4 * 3 -
     (if b64_text base64char s \<noteq> [] \<and> last (b64_text base64char s) = 61
      then if last (butlast (b64_text base64char s)) = 61 then 2 else 1 else 0) = length s"
proof (induction s rule: triple_induct)
  case (One a)
  then show ?case by (simp add: b64_text_def b64_padding_def)
next
  case (Two a b)
  have "base64char (sext3 b 0) \<noteq> 61" using az64.valid_char [of "sext3 b 0"] az64.pad_invalid by auto
  then show ?case by (simp add: b64_text_def b64_padding_def)
next
  case (Three a b c s)
  have c4: "base64char (sext4 c) \<noteq> 61" using az64.valid_char [of "sext4 c"] az64.pad_invalid by auto
  let ?t = "b64_text base64char s"
  let ?h = "[base64char (sext1 a), base64char (sext2 a b), base64char (sext3 b c), base64char (sext4 c)]"
  have t: "b64_text base64char (a # b # c # s) = ?h @ ?t" by (simp add: b64_text_def)
  show ?case
  proof (cases "s = []")
    case True
    then have e: "?t = []" by (simp add: b64_text_def b64_padding_def)
    show ?thesis unfolding t e using True c4 by simp
  next
    case False
    have "4 \<le> length ?t" using False by (cases s) (simp_all add: length_b64_text)
    then have "?t \<noteq> []" "butlast ?t \<noteq> []" by (auto simp flip: length_greater_0_conv)
    then have l: "last (?h @ ?t) = last ?t" "last (butlast (?h @ ?t)) = last (butlast ?t)" "?h @ ?t \<noteq> []"
      by (simp_all add: butlast_append)
    have "(4 + length ?t) div 4 = Suc (length ?t div 4)" by simp
    then have "(length (?h @ ?t)) div 4 * 3 = 3 + length ?t div 4 * 3" by simp
    moreover have "2 \<le> length ?t div 4 * 3" using div_le_mono [OF \<open>4 \<le> length ?t\<close>, of 4] by simp
    ultimately show ?thesis unfolding t l using Three.IH \<open>?t \<noteq> []\<close> by (simp split: if_splits)
  qed
qed (simp add: b64_text_def b64_padding_def)

text \<open>Decoding a block that holds the encoding of \<open>x\<close>, whatever follows its terminator.\<close>

lemma wp_Base64_Decoder_text:
  assumes "c_str s = b64_text base64char x" "is_cstr s" "(length x + 2) div 3 * 4 < SIZE_MOD"
    and failed: "\<And>w'. \<not> plenty 2 w \<Longrightarrow> live w' = live w \<Longrightarrow> faults w' = faults w \<Longrightarrow> Q None w'"
    and decoded: "\<And>b w'. buf_wf b \<Longrightarrow> buf_bytes b = x \<Longrightarrow> live w' = live w + buf_blocks (Some b) \<Longrightarrow> faults w' = faults w \<Longrightarrow>
       used 2 w w' \<Longrightarrow> Q (Some b) w'"
  shows "wp (Base64_Decoder (Some s)) Q w"
proof (rule wp_Base64_Decoder, goal_cases)
  case (5 b w')
  have "buf_bytes b = x"
    using 5(1-3) decoded_len_text [of x] length_buf_bytes [of b]
    unfolding assms(1) az64.text_prefix az64.decode_encode by simp
  then show ?case using 5 decoded by simp
qed (use assms in \<open>simp_all add: length_b64_text\<close>)

section \<open>Properties\<close>

text \<open>C14. Encoding a buffer and decoding the text gives a buffer with the same bytes, whatever the
  allocator does; when memory is short the result is \<open>NULL\<close>, and no access is out of bounds on the way.\<close>

theorem Base64_roundtrip:
  assumes "buf_wf b" "(bsize b + 2) div 3 * 4 + 1 < SIZE_MOD"
  shows "wp (do { s \<leftarrow> Base64_Encoder (Some b);
                  if s = None then ret (s, None)
                  else do { d \<leftarrow> Base64_Decoder (STRING_c_str s); ret (s, d) } })
     (\<lambda>(s, d) w'. faults w' = faults w \<and> live w' = live w + str_blocks s + buf_blocks d \<and>
        (case d of None \<Rightarrow> \<not> plenty 4 w | Some b' \<Rightarrow> buf_wf b' \<and> buf_bytes b' = buf_bytes b)) w"
proof -
  let ?t = "b64_text base64char (buf_bytes b)"
  have ct: "is_cstr (?t @ [0])" "c_str (?t @ [0]) = ?t" using az64.text_nozero by simp_all
  have enc: "Base64_Encoder (Some b) = Base64_Encode_Internal (blk (buffer b)) (bsize b)"
    by (simp add: Base64_Encoder_def BUFFER_content_def BUFFER_size_def)
  show ?thesis
    unfolding wp_bind enc
  proof (rule wp_Base64_Encode_Internal, goal_cases)
    case (3 w1)
    then show ?case using plenty_le [of 4 w 2] by auto
  next
    case (4 w1)
    show ?case
      unfolding buf_bytes_def [symmetric]
    proof (simp add: STRING_c_str_def, rule wp_Base64_Decoder_text [where s = "?t @ [0]", OF ct(2,1)], goal_cases)
      case (2 w2)
      then show ?case using \<open>used 2 w w1\<close> used_starved [of 2 w w1 2 4] \<open>live w1 = _\<close> \<open>faults w1 = _\<close> by simp
    next
      case (3 b' w2)
      then show ?case using \<open>live w1 = _\<close> \<open>faults w1 = _\<close> by simp
    qed (use assms in simp)
  qed (use assms in \<open>simp_all add: buf_wf_def\<close>)
qed

theorem Base64_roundtrip_witness:
  "wp (do { s \<leftarrow> Base64_Encoder (Some (mkbuf [102, 111, 111, 98]));
            if s = None then ret (s, None)
            else do { d \<leftarrow> Base64_Decoder (STRING_c_str s); ret (s, d) } })
     (\<lambda>(s, d) w'. faults w' = 0 \<and> live w' = 2 + str_blocks s + buf_blocks d \<and>
        (case d of None \<Rightarrow> False | Some b' \<Rightarrow> buf_wf b' \<and> buf_bytes b' = [102, 111, 111, 98]))
     \<lparr>avail = replicate 4 (Some (\<lambda>_. 5)), live = 2, faults = 0\<rparr>"
  by (rule wp_mono [OF Base64_roundtrip])
    (auto simp: SIZE_MOD_def plenty_eval list_all_iff split: option.splits)

text \<open>Decoding any NUL-terminated string at all never reads or writes outside a block and never leaks:
  the result is \<open>NULL\<close>, or a buffer of the computed length that starts with the bytes the base64 characters
  in front of the first other character decode to. A length that is not a multiple of four is refused.\<close>

lemma Base64_Decoder_safe:
  assumes "is_cstr s" "length (c_str s) < SIZE_MOD"
  shows "wp (Base64_Decoder (Some s)) (\<lambda>h w'. faults w' = faults w \<and> live w' = live w + buf_blocks h \<and>
     (case h of
        None \<Rightarrow> length (c_str s) mod 4 \<noteq> 0 \<or> \<not> plenty 2 w
      | Some b \<Rightarrow> length (c_str s) mod 4 = 0 \<and> buf_wf b \<and>
          take (length (b64_bytes base64_value (takeWhile base64_valid (c_str s)))) (buf_bytes b) =
            b64_bytes base64_value (takeWhile base64_valid (c_str s)))) w"
proof (cases "length (c_str s) mod 4 = 0")
  case True
  show ?thesis by (rule wp_Base64_Decoder [OF assms True]) (simp_all add: True)
next
  case False
  then show ?thesis using assms(1) by (simp add: Base64_Decoder_def)
qed

end
