(* ===== verification/UrlEncode.thy ===== *)
theory UrlEncode
  imports Strings
begin

text \<open>
  URL encoding of the Azure C utility library (\<open>c-utility/src/urlencode.c\<close>): characters outside a
  small printable set become \<open>%xy\<close>; a byte from 128 on is taken as a Latin-1 character and becomes the
  two escapes of its UTF-8 form.
\<close>

definition NIBBLE_STR :: "u8 \<Rightarrow> u8" where
  "NIBBLE_STR c = (if c < 10 then c + 48 else c - 10 + 97)"

definition IS_PRINTABLE :: "u8 \<Rightarrow> bool" where
  "IS_PRINTABLE c \<longleftrightarrow>
     c = 0 \<or> c = 33 \<or> c = 40 \<or> c = 41 \<or> c = 42 \<or> c = 45 \<or> c = 46 \<or> (c \<ge> 48 \<and> c \<le> 57) \<or>
     (c \<ge> 65 \<and> c \<le> 90) \<or> c = 95 \<or> (c \<ge> 97 \<and> c \<le> 122)"

text \<open>The characters \<open>URL_PrintableChar\<close> writes from \<open>buffer[0]\<close> on, and the number of them it returns.\<close>

definition printable_text :: "u8 \<Rightarrow> u8 list" where
  "printable_text charVal =
     (if IS_PRINTABLE charVal then [charVal]
      else let bigNibbleVal0 = drop_bit 4 charVal;
               littleNibbleVal = charVal AND 0x0F;
               bigNibbleVal = (if bigNibbleVal0 \<ge> 0x0C then bigNibbleVal0 - 0x04 else bigNibbleVal0);
               bigNibbleStr = NIBBLE_STR bigNibbleVal;
               littleNibbleStr = NIBBLE_STR littleNibbleVal
           in if charVal < 0x80 then [37, bigNibbleStr, littleNibbleStr]
              else [37, 99, (if charVal < 0xC0 then 50 else 51), 37, bigNibbleStr, littleNibbleStr])"

definition URL_PrintableChar :: "u8 \<Rightarrow> u8 list \<Rightarrow> nat \<Rightarrow> (nat \<times> u8 list) cm" where
  "URL_PrintableChar charVal buf off = do {
     b \<leftarrow> c_stores buf off (printable_text charVal);
     ret (length (printable_text charVal), b)
   }"

definition URL_PrintableCharSize :: "u8 \<Rightarrow> nat" where
  "URL_PrintableCharSize charVal = (if IS_PRINTABLE charVal then 1 else if charVal < 0x80 then 3 else 6)"

text \<open>The two \<open>do ... while (currentUnsignedChar != 0)\<close> loops; running off the block is a fault.\<close>

function URL_size_loop :: "u8 list \<Rightarrow> nat \<Rightarrow> nat \<Rightarrow> nat cm" where
  "URL_size_loop input i lengthOfResult =
     (if i < length input
      then (if input ! i \<noteq> 0 then URL_size_loop input (Suc i) (szt (lengthOfResult + URL_PrintableCharSize (input ! i)))
            else ret (szt (lengthOfResult + URL_PrintableCharSize (input ! i))))
      else do { c_assert False; ret lengthOfResult })"
  by pat_completeness auto
termination
  by (relation "measure (\<lambda>(s, i, n). length s - i)") auto

function URL_write_loop :: "u8 list \<Rightarrow> nat \<Rightarrow> u8 list \<Rightarrow> nat \<Rightarrow> u8 list cm" where
  "URL_write_loop input i encodedURL currentEncodePosition =
     (if i < length input then do {
        (n, e) \<leftarrow> URL_PrintableChar (input ! i) encodedURL currentEncodePosition;
        if input ! i \<noteq> 0 then URL_write_loop input (Suc i) e (currentEncodePosition + n) else ret e
      }
      else do { c_assert False; ret encodedURL })"
  by pat_completeness auto
termination
  by (relation "measure (\<lambda>(s, i, e, p). length s - i)") auto

definition URL_Encode :: "STRING option \<Rightarrow> STRING option cm" where
  "URL_Encode input =
     (case STRING_c_str input of
        None \<Rightarrow> ret None
      | Some s \<Rightarrow> do {
          lengthOfResult \<leftarrow> URL_size_loop s 0 0;
          p \<leftarrow> c_malloc lengthOfResult;
          (case p of
             None \<Rightarrow> ret None
           | Some encodedURL \<Rightarrow> do {
               e \<leftarrow> URL_write_loop s 0 encodedURL 0;
               result \<leftarrow> STRING_new_with_memory (Some e);
               if result = None then do { c_free (Some e); ret None } else ret result
             })
        })"

definition URL_EncodeString :: "u8 list option \<Rightarrow> STRING option cm" where
  "URL_EncodeString textEncode =
     (case textEncode of
        None \<Rightarrow> ret None
      | Some z \<Rightarrow> do {
          tempString \<leftarrow> STRING_construct (Some z);
          if tempString = None then ret None
          else do {
            result \<leftarrow> URL_Encode tempString;
            STRING_delete tempString;
            ret result
          }
        })"

section \<open>What the text means\<close>

text \<open>The UTF-8 form of a Latin-1 character, and a reader of percent escapes (RFC 3986, section 2.1).\<close>

definition utf8 :: "u8 \<Rightarrow> u8 list" where
  "utf8 c = (if c < 128 then [c] else [0xC0 OR drop_bit 6 c, 0x80 OR (c AND 0x3F)])"

fun pct_decode :: "u8 list \<Rightarrow> u8 list option" where
  "pct_decode [] = Some []"
| "pct_decode (c # s) =
     (if c \<noteq> 37 then map_option ((#) c) (pct_decode s)
      else (case s of
              h # l # s' \<Rightarrow>
                (case (hex_digit h, hex_digit l) of
                   (Some x, Some y) \<Rightarrow> map_option ((#) (of_nat (16 * x + y))) (pct_decode s')
                 | _ \<Rightarrow> None)
            | _ \<Rightarrow> None))"

text \<open>The text to make of bytes, written from the documentation of the escapes alone: letters, digits and the seven marks below stand for
  themselves, every other byte is escaped with two hexadecimal digits in lower case.\<close>

definition url_literal :: "u8 \<Rightarrow> bool" where
  "url_literal b \<longleftrightarrow> b \<in> set (map of_char ''!()*-._0123456789ABCDEFGHIJKLMNOPQRSTUVWXYZabcdefghijklmnopqrstuvwxyz'')"

definition pct_byte :: "u8 \<Rightarrow> u8 list" where
  "pct_byte b = (let hex = (\<lambda>n. map of_char ''0123456789abcdef'' ! n)
     in if url_literal b then [b] else [37, hex (unat b div 16), hex (unat b mod 16)])"

definition pct_encode :: "u8 list \<Rightarrow> u8 list" where
  "pct_encode bs = concat (map pct_byte bs)"

lemma pct_decode_append:
  "pct_decode xs = Some ys \<Longrightarrow> pct_decode (xs @ s) = map_option ((@) ys) (pct_decode s)"
proof (induction xs arbitrary: ys rule: pct_decode.induct)
  case 1
  then show ?case by (cases "pct_decode s") auto
next
  case (2 c xs)
  then show ?case
    by (cases "pct_decode s") (fastforce split: if_splits list.splits option.splits)+
qed

text \<open>One character, checked on all of them.\<close>

definition decodes_from :: "nat \<Rightarrow> nat \<Rightarrow> bool" where
  "decodes_from m n = list_all (\<lambda>c. pct_decode (printable_text c) = Some (utf8 c) \<and> printable_text c = pct_encode (utf8 c)) (map of_nat [m..<n])"

lemma decodes_1: "decodes_from 1 32"
  by code_simp

lemma decodes_32: "decodes_from 32 64"
  by code_simp

lemma decodes_64: "decodes_from 64 96"
  by code_simp

lemma decodes_96: "decodes_from 96 128"
  by code_simp

lemma decodes_128: "decodes_from 128 160"
  by code_simp

lemma decodes_160: "decodes_from 160 192"
  by code_simp

lemma decodes_192: "decodes_from 192 224"
  by code_simp

lemma decodes_224: "decodes_from 224 256"
  by code_simp

lemmas decodes_all = decodes_1 decodes_32 decodes_64 decodes_96 decodes_128 decodes_160 decodes_192 decodes_224

lemma decodes_fromD:
  assumes "decodes_from m n" "m \<le> unat c" "unat c < n"
  shows "pct_decode (printable_text c) = Some (utf8 c)" "printable_text c = pct_encode (utf8 c)"
proof -
  have "of_nat (unat c) \<in> set (map of_nat [m..<n] :: u8 list)" using assms by (intro list.set_map [THEN equalityD2, THEN subsetD] imageI) simp
  then show "pct_decode (printable_text c) = Some (utf8 c)" "printable_text c = pct_encode (utf8 c)"
    using assms(1) unfolding decodes_from_def list_all_iff by auto
qed

lemma pct_decode_printable_text:
  assumes "c \<noteq> 0"
  shows "pct_decode (printable_text c) = Some (utf8 c)" "printable_text c = pct_encode (utf8 c)"
proof -
  have "1 \<le> unat c" "unat c < 256" using assms unat_u8 [of c] by (simp_all add: unat_eq_0 Suc_leI unat_gt_0)
  then show "pct_decode (printable_text c) = Some (utf8 c)" "printable_text c = pct_encode (utf8 c)"
    by (metis decodes_fromD decodes_all not_less)+
qed

lemma pct_decode_zero:
  "pct_decode xs = Some ys \<Longrightarrow> 0 \<notin> set ys \<Longrightarrow> 0 \<notin> set xs"
proof (induction xs arbitrary: ys rule: pct_decode.induct)
  case (2 c s)
  have "hex_digit 0 = None" by code_simp
  with 2 show ?case by (fastforce split: if_splits list.splits option.splits)
qed simp

lemma utf8_nozero: "c \<noteq> 0 \<Longrightarrow> 0 \<notin> set (utf8 c)"
proof -
  have "bit (0xC0 OR drop_bit 6 c) 7" "bit (0x80 OR (c AND 0x3F)) 7" by (simp_all add: bit_simps)
  then have "0xC0 OR drop_bit 6 c \<noteq> 0" "0x80 OR (c AND 0x3F) \<noteq> 0" by (metis bit_0_eq bot_apply bot_bool_def)+
  then show "c \<noteq> 0 \<Longrightarrow> 0 \<notin> set (utf8 c)" by (auto simp: utf8_def)
qed

lemma printable_text_nozero: "c \<noteq> 0 \<Longrightarrow> 0 \<notin> set (printable_text c)"
  using pct_decode_zero [OF pct_decode_printable_text(1) utf8_nozero] by blast

lemma encoded_zero [simp]: "printable_text 0 = [0]" "URL_PrintableCharSize 0 = 1"
  by (simp_all add: printable_text_def URL_PrintableCharSize_def IS_PRINTABLE_def)

lemma URL_PrintableCharSize_length: "URL_PrintableCharSize c = length (printable_text c)"
  by (simp add: URL_PrintableCharSize_def printable_text_def Let_def)

definition url_text :: "u8 list \<Rightarrow> u8 list" where
  "url_text t = concat (map printable_text t)"

lemma url_text_nozero: "0 \<notin> set t \<Longrightarrow> 0 \<notin> set (url_text t)"
  using printable_text_nozero by (induction t) (auto simp: url_text_def)

lemma pct_decode_url_text: "0 \<notin> set t \<Longrightarrow> pct_decode (url_text t) = Some (concat (map utf8 t))"
proof (induction t)
  case (Cons c t)
  then have "pct_decode (printable_text c) = Some (utf8 c)" using pct_decode_printable_text(1) [of c] by simp
  from pct_decode_append [OF this, of "url_text t"] Cons show ?case by (simp add: url_text_def)
qed (simp add: url_text_def)

lemma url_text_pct_encode: "0 \<notin> set t \<Longrightarrow> url_text t = pct_encode (concat (map utf8 t))"
proof (induction t)
  case (Cons c t)
  then have "printable_text c = pct_encode (utf8 c)" using pct_decode_printable_text(2) [of c] by simp
  then show ?case using Cons by (simp add: url_text_def pct_encode_def)
qed (simp_all add: url_text_def pct_encode_def)

section \<open>Weakest preconditions\<close>

declare URL_size_loop.simps [simp del] URL_write_loop.simps [simp del]

lemma wp_URL_PrintableChar [simp]:
  "off + length (printable_text c) \<le> length b \<Longrightarrow>
   wp (URL_PrintableChar c b off) Q w = Q (length (printable_text c), put b off (printable_text c)) w"
  by (simp add: URL_PrintableChar_def)

lemma wp_URL_size_loop:
  assumes "is_cstr s"
  shows "i \<le> length (c_str s) \<Longrightarrow> n + length (url_text (drop i (c_str s))) + 1 < SIZE_MOD \<Longrightarrow>
    wp (URL_size_loop s i n) Q w = Q (n + length (url_text (drop i (c_str s))) + 1) w"
proof (induction "length (c_str s) - i" arbitrary: i n)
  case 0
  then have "i = length (c_str s)" by simp
  then show ?case using assms 0 by (simp add: URL_size_loop.simps [of s "length (c_str s)"] url_text_def)
next
  case (Suc d)
  then have i: "i < length (c_str s)" by simp
  have c: "s ! i = c_str s ! i" using i by (metis nth_take take_length_c_str)
  then have nz: "s ! i \<noteq> 0" using i c_str_nozero [of s] nth_mem by metis
  have t: "url_text (drop i (c_str s)) = printable_text (s ! i) @ url_text (drop (Suc i) (c_str s))"
    using i c by (simp add: url_text_def flip: Cons_nth_drop_Suc)
  have le: "i < length s" using i length_c_str_le [of s] by simp
  have "wp (URL_size_loop s (Suc i) (n + length (printable_text (s ! i)))) Q w =
      Q (n + length (printable_text (s ! i)) + length (url_text (drop (Suc i) (c_str s))) + 1) w"
    using Suc i by (intro Suc.hyps(1)) (auto simp: t)
  then show ?case
    using Suc.prems nz le by (simp add: URL_size_loop.simps [of s i] URL_PrintableCharSize_length t add.assoc)
qed

lemma wp_URL_write_loop:
  assumes "is_cstr s"
  shows "i \<le> length (c_str s) \<Longrightarrow> p + length (url_text (drop i (c_str s))) + 1 \<le> length e \<Longrightarrow>
    wp (URL_write_loop s i e p) Q w = Q (put e p (url_text (drop i (c_str s)) @ [0])) w"
proof (induction "length (c_str s) - i" arbitrary: i e p)
  case 0
  then have "i = length (c_str s)" by simp
  then show ?case using assms 0 by (simp add: URL_write_loop.simps [of s "length (c_str s)"] url_text_def)
next
  case (Suc d)
  then have i: "i < length (c_str s)" by simp
  have c: "s ! i = c_str s ! i" using i by (metis nth_take take_length_c_str)
  then have nz: "s ! i \<noteq> 0" using i c_str_nozero [of s] nth_mem by metis
  let ?x = "printable_text (s ! i)" and ?r = "url_text (drop (Suc i) (c_str s)) @ [0]"
  have t: "url_text (drop i (c_str s)) = ?x @ url_text (drop (Suc i) (c_str s))"
    using i c by (simp add: url_text_def flip: Cons_nth_drop_Suc)
  have le: "i < length s" using i length_c_str_le [of s] by simp
  have "wp (URL_write_loop s (Suc i) (put e p ?x) (p + length ?x)) Q w = Q (put (put e p ?x) (p + length ?x) ?r) w"
    using Suc i by (intro Suc.hyps(1)) (auto simp: t)
  moreover have "put (put e p ?x) (p + length ?x) ?r = put e p (?x @ ?r)"
    using Suc.prems by (intro put_put_adjacent) (simp add: t)
  ultimately show ?case
    using Suc.prems nz le by (simp add: URL_write_loop.simps [of s i] t)
qed

lemma length_url_text: "length (url_text t) \<le> 6 * length t"
  by (induction t) (auto simp: url_text_def URL_PrintableCharSize_def simp flip: URL_PrintableCharSize_length)

lemma wp_URL_Encode:
  assumes "str_wf st" "length (url_text (str_val st)) + 1 < SIZE_MOD"
    and failed: "\<And>w'. \<not> plenty 2 w \<Longrightarrow> live w' = live w \<Longrightarrow> faults w' = faults w \<Longrightarrow> Q None w'"
    and encoded: "\<And>w'. live w' = live w + 2 \<Longrightarrow> faults w' = faults w \<Longrightarrow> used 2 w w' \<Longrightarrow>
      Q (Some (mkstr (url_text (str_val st)))) w'"
  shows "wp (URL_Encode (Some st)) Q w"
proof -
  let ?s = "str_s st" and ?t = "url_text (str_val st)"
  have s: "is_cstr ?s" "c_str ?s = str_val st" using assms(1) by (simp_all add: str_wf_def str_val_def)
  have size: "wp (URL_size_loop ?s 0 0) Q' w' = Q' (Suc (length ?t)) w'" for Q' w'
    using wp_URL_size_loop [OF s(1), of 0 0] assms(2) by (simp add: s)
  have writes: "wp (URL_write_loop ?s 0 e 0) Q' w' = Q' (?t @ [0]) w'" if "length e = Suc (length ?t)" for e Q' w'
    using wp_URL_write_loop [OF s(1), of 0 0 e] that by (simp add: s)
  show ?thesis
    unfolding URL_Encode_def STRING_c_str_def option.case wp_bind size
  proof (rule wp_malloc, goal_cases)
    case (1 w1)
    then show ?case using failed not_plenty_next [of w 2] by simp
  next
    case (2 e w1)
    show ?case
      unfolding option.case wp_bind writes [OF 2(1)]
    proof (rule wp_STRING_new_with_memory, goal_cases)
      case (1 w2)
      then show ?case using 2 failed not_plenty_drop [of w1 1 w 2] by (simp add: drop_Suc)
    next
      case (2 w2)
      have "used 2 w w2" by (rule used_trans [OF used_tl [OF \<open>avail w1 = _\<close>, of 1] used_tl [OF 2(1), of 1]]) simp_all
      then show ?case using 2 \<open>live w1 = _\<close> \<open>faults w1 = _\<close> encoded by (simp add: mkstr_def)
    qed
  qed
qed

section \<open>Properties\<close>

text \<open>C33. \<open>URL_Encode\<close> makes the percent encoding of the UTF-8 form of the input read as Latin-1: letters, digits and the marks
  \<open>! ( ) * - . _\<close> stand for themselves, every other byte - the reserved characters included - becomes \<open>%\<close> and two digits. The block is
  exactly this text and its zero byte, so the pass that computes the size and the one that writes agree on every character; percent-decoding
  the text gives the UTF-8 form back. The result is \<open>NULL\<close> only when memory is short, and then nothing leaks. The input
  is shorter than a sixth of the address space.\<close>

theorem URL_Encode_correct:
  assumes "str_wf st" "6 * length (str_val st) + 1 < SIZE_MOD"
  shows "wp (URL_Encode (Some st)) (\<lambda>h w'. faults w' = faults w \<and> live w' = live w + str_blocks h \<and>
     (case h of None \<Rightarrow> \<not> plenty 2 w
      | Some u \<Rightarrow> str_s u = pct_encode (concat (map utf8 (str_val st))) @ [0] \<and> str_wf u \<and>
          pct_decode (str_val u) = Some (concat (map utf8 (str_val st))))) w"
proof (rule wp_URL_Encode [OF assms(1)])
  from length_url_text [of "str_val st"] show "length (url_text (str_val st)) + 1 < SIZE_MOD"
    using assms(2) by linarith
qed (simp_all add: url_text_nozero pct_decode_url_text flip: url_text_pct_encode)

theorem URL_Encode_correct_witness:
  "wp (URL_Encode (Some (mkstr [97, 38, 233]))) (\<lambda>h w'. faults w' = 0 \<and> live w' = 2 + str_blocks h \<and>
     (case h of None \<Rightarrow> False
      | Some u \<Rightarrow> str_s u = clit ''a%26%c3%a9'' \<and> str_wf u \<and> pct_decode (str_val u) = Some [97, 38, 0xC3, 0xA9]))
     \<lparr>avail = replicate 2 (Some (\<lambda>_. 0)), live = 2, faults = 0\<rparr>"
proof (rule wp_mono [OF URL_Encode_correct], goal_cases)
  case (3 h w')
  have "concat (map utf8 [97, 38, 233]) = [97, 38, 0xC3, 0xA9]" "pct_encode [97, 38, 0xC3, 0xA9] @ [0] = clit ''a%26%c3%a9''" by code_simp+
  with 3 show ?case by (auto simp: plenty_eval list_all_iff split: option.splits)
qed (simp_all add: SIZE_MOD_def)

end
