(* ===== verification/SdCrc.thy ===== *)
theory SdCrc
  imports Prelude
begin

text \<open>
  The checksums of the SD card driver (\<open>SD/src/sd_diskio_crc.c\<close>): \<open>CRC7\<close> protects commands, \<open>CRC16\<close>
  data blocks. Both take a byte at a time from a table of 256 entries. The reference is the bit-serial
  division register of the SD specification, over a generator polynomial as a locale parameter: the
  register is linear, so a table indexed by the top bits computes the same, and a burst of errors no
  longer than the checksum is always seen.
\<close>

section \<open>The program\<close>

definition m_CRC7Table :: "u8 list" where
  "m_CRC7Table =
    [0x00, 0x09, 0x12, 0x1B, 0x24, 0x2D, 0x36, 0x3F, 0x48, 0x41, 0x5A, 0x53, 0x6C, 0x65, 0x7E, 0x77,
     0x19, 0x10, 0x0B, 0x02, 0x3D, 0x34, 0x2F, 0x26, 0x51, 0x58, 0x43, 0x4A, 0x75, 0x7C, 0x67, 0x6E,
     0x32, 0x3B, 0x20, 0x29, 0x16, 0x1F, 0x04, 0x0D, 0x7A, 0x73, 0x68, 0x61, 0x5E, 0x57, 0x4C, 0x45,
     0x2B, 0x22, 0x39, 0x30, 0x0F, 0x06, 0x1D, 0x14, 0x63, 0x6A, 0x71, 0x78, 0x47, 0x4E, 0x55, 0x5C,
     0x64, 0x6D, 0x76, 0x7F, 0x40, 0x49, 0x52, 0x5B, 0x2C, 0x25, 0x3E, 0x37, 0x08, 0x01, 0x1A, 0x13,
     0x7D, 0x74, 0x6F, 0x66, 0x59, 0x50, 0x4B, 0x42, 0x35, 0x3C, 0x27, 0x2E, 0x11, 0x18, 0x03, 0x0A,
     0x56, 0x5F, 0x44, 0x4D, 0x72, 0x7B, 0x60, 0x69, 0x1E, 0x17, 0x0C, 0x05, 0x3A, 0x33, 0x28, 0x21,
     0x4F, 0x46, 0x5D, 0x54, 0x6B, 0x62, 0x79, 0x70, 0x07, 0x0E, 0x15, 0x1C, 0x23, 0x2A, 0x31, 0x38,
     0x41, 0x48, 0x53, 0x5A, 0x65, 0x6C, 0x77, 0x7E, 0x09, 0x00, 0x1B, 0x12, 0x2D, 0x24, 0x3F, 0x36,
     0x58, 0x51, 0x4A, 0x43, 0x7C, 0x75, 0x6E, 0x67, 0x10, 0x19, 0x02, 0x0B, 0x34, 0x3D, 0x26, 0x2F,
     0x73, 0x7A, 0x61, 0x68, 0x57, 0x5E, 0x45, 0x4C, 0x3B, 0x32, 0x29, 0x20, 0x1F, 0x16, 0x0D, 0x04,
     0x6A, 0x63, 0x78, 0x71, 0x4E, 0x47, 0x5C, 0x55, 0x22, 0x2B, 0x30, 0x39, 0x06, 0x0F, 0x14, 0x1D,
     0x25, 0x2C, 0x37, 0x3E, 0x01, 0x08, 0x13, 0x1A, 0x6D, 0x64, 0x7F, 0x76, 0x49, 0x40, 0x5B, 0x52,
     0x3C, 0x35, 0x2E, 0x27, 0x18, 0x11, 0x0A, 0x03, 0x74, 0x7D, 0x66, 0x6F, 0x50, 0x59, 0x42, 0x4B,
     0x17, 0x1E, 0x05, 0x0C, 0x33, 0x3A, 0x21, 0x28, 0x5F, 0x56, 0x4D, 0x44, 0x7B, 0x72, 0x69, 0x60,
     0x0E, 0x07, 0x1C, 0x15, 0x2A, 0x23, 0x38, 0x31, 0x46, 0x4F, 0x54, 0x5D, 0x62, 0x6B, 0x70, 0x79]"

text \<open>\<open>char\<close> is unsigned on the target, so the index \<open>(crc << 1) ^ data[i]\<close>, an \<open>int\<close>, is not negative.\<close>

fun CRC7_loop :: "u8 list \<Rightarrow> nat \<Rightarrow> nat \<Rightarrow> u8 \<Rightarrow> u8 cm" where
  "CRC7_loop data i 0 crc = ret crc"
| "CRC7_loop data i (Suc n) crc = do {
     d \<leftarrow> c_load data i;
     crc' \<leftarrow> c_load m_CRC7Table (unat (push_bit 1 (ucast crc) XOR ucast d :: u32));
     CRC7_loop data (Suc i) n crc'
   }"

definition CRC7 :: "u8 list \<Rightarrow> int \<Rightarrow> u8 cm" where
  "CRC7 data len = CRC7_loop data 0 (nat len) 0"

definition m_CRC16Table :: "u16 list" where
  "m_CRC16Table =
    [0x0000, 0x1021, 0x2042, 0x3063, 0x4084, 0x50A5, 0x60C6, 0x70E7, 0x8108, 0x9129, 0xA14A, 0xB16B, 0xC18C, 0xD1AD, 0xE1CE, 0xF1EF,
     0x1231, 0x0210, 0x3273, 0x2252, 0x52B5, 0x4294, 0x72F7, 0x62D6, 0x9339, 0x8318, 0xB37B, 0xA35A, 0xD3BD, 0xC39C, 0xF3FF, 0xE3DE,
     0x2462, 0x3443, 0x0420, 0x1401, 0x64E6, 0x74C7, 0x44A4, 0x5485, 0xA56A, 0xB54B, 0x8528, 0x9509, 0xE5EE, 0xF5CF, 0xC5AC, 0xD58D,
     0x3653, 0x2672, 0x1611, 0x0630, 0x76D7, 0x66F6, 0x5695, 0x46B4, 0xB75B, 0xA77A, 0x9719, 0x8738, 0xF7DF, 0xE7FE, 0xD79D, 0xC7BC,
     0x48C4, 0x58E5, 0x6886, 0x78A7, 0x0840, 0x1861, 0x2802, 0x3823, 0xC9CC, 0xD9ED, 0xE98E, 0xF9AF, 0x8948, 0x9969, 0xA90A, 0xB92B,
     0x5AF5, 0x4AD4, 0x7AB7, 0x6A96, 0x1A71, 0x0A50, 0x3A33, 0x2A12, 0xDBFD, 0xCBDC, 0xFBBF, 0xEB9E, 0x9B79, 0x8B58, 0xBB3B, 0xAB1A,
     0x6CA6, 0x7C87, 0x4CE4, 0x5CC5, 0x2C22, 0x3C03, 0x0C60, 0x1C41, 0xEDAE, 0xFD8F, 0xCDEC, 0xDDCD, 0xAD2A, 0xBD0B, 0x8D68, 0x9D49,
     0x7E97, 0x6EB6, 0x5ED5, 0x4EF4, 0x3E13, 0x2E32, 0x1E51, 0x0E70, 0xFF9F, 0xEFBE, 0xDFDD, 0xCFFC, 0xBF1B, 0xAF3A, 0x9F59, 0x8F78,
     0x9188, 0x81A9, 0xB1CA, 0xA1EB, 0xD10C, 0xC12D, 0xF14E, 0xE16F, 0x1080, 0x00A1, 0x30C2, 0x20E3, 0x5004, 0x4025, 0x7046, 0x6067,
     0x83B9, 0x9398, 0xA3FB, 0xB3DA, 0xC33D, 0xD31C, 0xE37F, 0xF35E, 0x02B1, 0x1290, 0x22F3, 0x32D2, 0x4235, 0x5214, 0x6277, 0x7256,
     0xB5EA, 0xA5CB, 0x95A8, 0x8589, 0xF56E, 0xE54F, 0xD52C, 0xC50D, 0x34E2, 0x24C3, 0x14A0, 0x0481, 0x7466, 0x6447, 0x5424, 0x4405,
     0xA7DB, 0xB7FA, 0x8799, 0x97B8, 0xE75F, 0xF77E, 0xC71D, 0xD73C, 0x26D3, 0x36F2, 0x0691, 0x16B0, 0x6657, 0x7676, 0x4615, 0x5634,
     0xD94C, 0xC96D, 0xF90E, 0xE92F, 0x99C8, 0x89E9, 0xB98A, 0xA9AB, 0x5844, 0x4865, 0x7806, 0x6827, 0x18C0, 0x08E1, 0x3882, 0x28A3,
     0xCB7D, 0xDB5C, 0xEB3F, 0xFB1E, 0x8BF9, 0x9BD8, 0xABBB, 0xBB9A, 0x4A75, 0x5A54, 0x6A37, 0x7A16, 0x0AF1, 0x1AD0, 0x2AB3, 0x3A92,
     0xFD2E, 0xED0F, 0xDD6C, 0xCD4D, 0xBDAA, 0xAD8B, 0x9DE8, 0x8DC9, 0x7C26, 0x6C07, 0x5C64, 0x4C45, 0x3CA2, 0x2C83, 0x1CE0, 0x0CC1,
     0xEF1F, 0xFF3E, 0xCF5D, 0xDF7C, 0xAF9B, 0xBFBA, 0x8FD9, 0x9FF8, 0x6E17, 0x7E36, 0x4E55, 0x5E74, 0x2E93, 0x3EB2, 0x0ED1, 0x1EF0]"

fun CRC16_loop :: "u8 list \<Rightarrow> nat \<Rightarrow> nat \<Rightarrow> u16 \<Rightarrow> u16 cm" where
  "CRC16_loop data i 0 crc = ret crc"
| "CRC16_loop data i (Suc n) crc = do {
     d \<leftarrow> c_load data i;
     CRC16_loop data (Suc i) n
       (push_bit 8 crc XOR m_CRC16Table ! unat ((drop_bit 8 crc XOR ucast d) AND 0x00FF))
   }"

definition CRC16 :: "u8 list \<Rightarrow> int \<Rightarrow> u16 cm" where
  "CRC16 data len = CRC16_loop data 0 (nat len) 0"

section \<open>The division register\<close>

definition shl1 :: "'a::len word \<Rightarrow> 'a word" where
  "shl1 c = push_bit 1 c"

definition crc_bit :: "'a::len word \<Rightarrow> 'a word \<Rightarrow> bool \<Rightarrow> 'a word" where
  "crc_bit poly c d = shl1 c XOR (if bit c (LENGTH('a) - 1) \<noteq> d then poly else 0)"

abbreviation crc_bits :: "'a::len word \<Rightarrow> 'a word \<Rightarrow> bool list \<Rightarrow> 'a word" where
  "crc_bits poly \<equiv> foldl (crc_bit poly)"

text \<open>The bits of a byte, the first one sent first, and of a message.\<close>

definition byte_bits :: "u8 \<Rightarrow> bool list" where
  "byte_bits b = map (bit b) [7, 6, 5, 4, 3, 2, 1, 0]"

definition msg_bits :: "u8 list \<Rightarrow> bool list" where
  "msg_bits s = concat (map byte_bits s)"

text \<open>All sums of a list of columns; the first column belongs to the top bit of the index.\<close>

fun span_table :: "'a::len word list \<Rightarrow> 'a word list" where
  "span_table [] = [0]"
| "span_table (v # vs) = span_table vs @ map (\<lambda>x. x XOR v) (span_table vs)"

lemma length_span_table [simp]: "length (span_table vs) = 2 ^ length vs"
  by (induction vs) simp_all

lemma length_byte_bits [simp]: "length (byte_bits b) = 8"
  by (simp add: byte_bits_def)

definition zip_xor :: "bool list \<Rightarrow> bool list \<Rightarrow> bool list" where
  "zip_xor xs ys = map2 (\<noteq>) xs ys"

lemma zip_xor_simps [simp]:
  "zip_xor [] ys = []" "zip_xor (x # xs) (y # ys) = (x \<noteq> y) # zip_xor xs ys"
  "length (zip_xor xs ys) = min (length xs) (length ys)"
  by (simp_all add: zip_xor_def)

lemma byte_bits_xor: "byte_bits (a XOR b) = zip_xor (byte_bits a) (byte_bits b)"
  by (simp add: byte_bits_def bit_simps)

lemma bit_shl1: "bit (shl1 c) i \<longleftrightarrow> 0 < i \<and> i < LENGTH('a) \<and> bit c (i - 1)" for c :: "'a::len word"
  unfolding shl1_def bit_push_bit_iff by auto

lemma xor_cancel: "a XOR p = b XOR p \<longleftrightarrow> a = b" for a b p :: "'a::len word"
proof
  assume "a XOR p = b XOR p"
  then have "(a XOR p) XOR p = (b XOR p) XOR p" by simp
  then show "a = b" unfolding xor.assoc xor_self_eq xor.right_neutral .
qed simp

lemma shl1_0 [simp]: "shl1 0 = 0"
  by (simp add: shl1_def)

lemma zip_xor_False [simp]: "zip_xor xs (replicate (length xs) False) = xs"
  by (induction xs) simp_all

lemma zip_xor_False' [simp]: "length xs = n \<Longrightarrow> zip_xor xs (replicate n False) = xs"
  using zip_xor_False [of xs] by simp

definition top_bits :: "nat \<Rightarrow> 'a::len word \<Rightarrow> bool list" where
  "top_bits n c = map (\<lambda>i. bit c (LENGTH('a) - Suc i)) [0..<n]"

locale crc =
  fixes poly :: "'a::len word"
  assumes poly_odd: "bit poly 0"
begin

lemma bits_linear:
  "length xs = length ys \<Longrightarrow> crc_bits poly (c XOR e) (zip_xor xs ys) = crc_bits poly c xs XOR crc_bits poly e ys"
proof (induction xs ys arbitrary: c e rule: list_induct2)
  case (Cons x xs y ys)
  have "crc_bit poly (c XOR e) (x \<noteq> y) = crc_bit poly c x XOR crc_bit poly e y"
    by (rule bit_word_eqI) (auto simp: crc_bit_def bit_simps bit_shl1)
  with Cons show ?case by simp
qed simp

text \<open>The bits that leave the register act like message bits: the fact behind every table.\<close>

lemma top_bits_Suc: "top_bits (Suc n) c = bit c (LENGTH('a) - 1) # top_bits n (shl1 c)"
  if "Suc n \<le> LENGTH('a)" for c :: "'a word"
  using that unfolding top_bits_def upt_conv_Cons [OF zero_less_Suc] list.map
  by (auto simp: map_Suc_upt [symmetric] bit_shl1 simp del: upt_Suc)

lemma shift_out:
  "length ds \<le> LENGTH('a) \<Longrightarrow>
   crc_bits poly c ds = push_bit (length ds) c XOR crc_bits poly 0 (zip_xor (top_bits (length ds) c) ds)"
proof (induction ds arbitrary: c)
  case (Cons d ds)
  let ?t = "bit c (LENGTH('a) - 1)" and ?n = "length ds"
  let ?p = "if ?t \<noteq> d then poly else 0"
  let ?z = "zip_xor (top_bits ?n (shl1 c)) ds"
  have "crc_bits poly (shl1 c XOR ?p) ds = crc_bits poly (shl1 c) ds XOR crc_bits poly ?p (replicate ?n False)"
    using bits_linear [of ds "replicate ?n False" "shl1 c" ?p] by simp
  also have "\<dots> = push_bit (Suc ?n) c XOR (crc_bits poly 0 ?z XOR crc_bits poly ?p (replicate ?n False))"
    using Cons by (simp add: xor.assoc shl1_def push_bit_push_bit)
  also have "crc_bits poly 0 ?z XOR crc_bits poly ?p (replicate ?n False) = crc_bits poly ?p ?z"
    using bits_linear [of ?z "replicate ?n False" 0 ?p] by (simp add: top_bits_def)
  also have "crc_bits poly ?p ?z = crc_bits poly 0 (zip_xor (top_bits (Suc ?n) c) (d # ds))"
    using Cons.prems by (simp add: top_bits_Suc crc_bit_def)
  finally show ?case unfolding foldl_Cons crc_bit_def [of poly c d] by simp
qed (simp add: top_bits_def)

lemma bit_crc_bit_0: "bit (crc_bit poly c d) 0 \<longleftrightarrow> bit c (LENGTH('a) - 1) \<noteq> d"
  using poly_odd by (simp add: crc_bit_def bit_simps bit_shl1)

lemma zero_back: "crc_bits poly c ds = 0 \<Longrightarrow> i + length ds < LENGTH('a) \<Longrightarrow> \<not> bit c i"
proof (induction ds arbitrary: c i)
  case (Cons d ds)
  then have prev: "\<not> bit (crc_bit poly c d) j" if "j + length ds < LENGTH('a)" for j using that by simp
  have "crc_bit poly c d = shl1 c"
    using prev [of 0] Cons.prems bit_crc_bit_0 [of c d] by (auto simp: crc_bit_def)
  with prev [of "Suc i"] Cons.prems show ?case by (simp add: bit_shl1)
qed simp

lemma window_zero: "crc_bits poly 0 ds = 0 \<Longrightarrow> length ds \<le> LENGTH('a) \<Longrightarrow> ds = replicate (length ds) False"
proof (induction ds)
  case (Cons d ds)
  then have "\<not> d" using zero_back [of "crc_bit poly 0 d" ds 0] bit_crc_bit_0 [of 0 d] by simp
  with Cons show ?case by (simp add: crc_bit_def)
qed simp

lemma window_inj:
  assumes "length xs = length ys" "length xs \<le> LENGTH('a)" "crc_bits poly c xs = crc_bits poly c ys"
  shows "xs = ys"
proof -
  have "crc_bits poly 0 (zip_xor xs ys) = 0" using bits_linear [OF assms(1), of c c] assms by simp
  from window_zero [OF this] assms have "zip_xor xs ys = replicate (length xs) False" by simp
  with assms(1) show ?thesis by (induction xs ys rule: list_induct2) auto
qed

lemma suffix_inj: "crc_bits poly c ds = crc_bits poly e ds \<Longrightarrow> c = e"
proof (induction ds arbitrary: c e)
  case (Cons d ds)
  then have same: "crc_bit poly c d = crc_bit poly e d" by simp
  then have top: "bit c (LENGTH('a) - 1) = bit e (LENGTH('a) - 1)" using bit_crc_bit_0 by metis
  with same have "shl1 c = shl1 e" by (simp only: crc_bit_def xor_cancel)
  then have "bit (shl1 c) (Suc i) = bit (shl1 e) (Suc i)" for i by simp
  then have low: "bit c i = bit e i" if "Suc i < LENGTH('a)" for i using that unfolding bit_shl1 by auto
  show ?case
  proof (rule bit_word_eqI)
    fix i assume "i < LENGTH('a)"
    then show "bit c i = bit e i" using low top by (cases "Suc i < LENGTH('a)") (auto simp: not_less le_Suc_eq)
  qed
qed simp

text \<open>A burst of errors not longer than the register.\<close>

lemma burst_detected:
  assumes "length xs = length ys" "length xs \<le> LENGTH('a)" "xs \<noteq> ys"
  shows "crc_bits poly c (pre @ xs @ post) \<noteq> crc_bits poly c (pre @ ys @ post)"
  using window_inj [OF assms(1,2)] assms(3) suffix_inj by auto

text \<open>A table whose entries are the sums of the columns is the register run on the index.\<close>

lemma table_lookup:
  "n \<le> 8 \<Longrightarrow> i < 2 ^ n \<Longrightarrow>
   span_table (map (\<lambda>k. crc_bits poly 0 (byte_bits (push_bit k 1))) (rev [0..<n])) ! i = crc_bits poly 0 (byte_bits (of_nat i))"
proof (induction n arbitrary: i)
  case 0
  then show ?case by (simp add: byte_bits_def crc_bit_def)
next
  case (Suc n)
  let ?f = "\<lambda>b. crc_bits poly 0 (byte_bits b)"
  show ?case
  proof (cases "i < 2 ^ n")
    case True
    with Suc show ?thesis by (simp add: nth_append)
  next
    case False
    define k where "k = i - 2 ^ n"
    then have k: "i = 2 ^ n + k" "k < 2 ^ n" using False Suc.prems by auto
    have "2 ^ n < (256::nat)" using Suc.prems power_strict_increasing [of n 8 "2::nat"] by simp
    have "?f (of_nat k XOR push_bit n 1) = ?f (of_nat k) XOR ?f (push_bit n 1)"
      using bits_linear [of "byte_bits (of_nat k)" "byte_bits (push_bit n 1)" 0 0] by (simp add: byte_bits_xor)
    moreover have "of_nat k XOR push_bit n 1 = (of_nat i :: u8)"
    proof -
      have "of_nat k AND push_bit n 1 = (0 :: u8)"
        using k(2) Suc.prems by (intro bit_word_eqI) (auto simp: bit_simps bit_of_nat_iff bit_iff_odd [of k])
      then show ?thesis by (simp add: k push_bit_eq_mult add.commute flip: disjunctive_add_eq_xor)
    qed
    ultimately show ?thesis using Suc k by (simp add: nth_append)
  qed
qed

end

interpretation crc7: crc "0x09 :: 7 word"
  by unfold_locales code_simp

interpretation crc16: crc "0x1021 :: 16 word"
  by unfold_locales code_simp

section \<open>The tables\<close>

lemma CRC16_columns:
  "map (\<lambda>k. crc_bits (0x1021 :: u16) 0 (byte_bits (push_bit k 1))) (rev [0..<8]) =
     [0x9188, 0x48C4, 0x2462, 0x1231, 0x8108, 0x4084, 0x2042, 0x1021]"
  by code_simp

lemma CRC16_table: "m_CRC16Table = span_table [0x9188, 0x48C4, 0x2462, 0x1231, 0x8108, 0x4084, 0x2042, 0x1021]"
  by code_simp

lemma CRC7_columns:
  "map (\<lambda>k. crc_bits (0x09 :: 7 word) 0 (byte_bits (push_bit k 1))) (rev [0..<8]) =
     [0x41, 0x64, 0x32, 0x19, 0x48, 0x24, 0x12, 0x09]"
  by code_simp

lemma CRC7_table: "m_CRC7Table = map ucast (span_table [0x41, 0x64, 0x32, 0x19, 0x48, 0x24, 0x12, 0x09 :: 7 word])"
  by code_simp

lemma CRC16_lookup: "m_CRC16Table ! unat b = crc_bits 0x1021 0 (byte_bits b)"
  using crc16.table_lookup [of 8 "unat b"] unat_u8 [of b] unfolding CRC16_columns CRC16_table
  by (simp del: span_table.simps)

lemma CRC7_lookup:
  "m_CRC7Table ! unat b = ucast (crc_bits (0x09 :: 7 word) 0 (byte_bits b))" "length m_CRC7Table = 256"
  using crc7.table_lookup [of 8 "unat b"] unat_u8 [of b] unfolding CRC7_columns CRC7_table
  by (simp_all del: span_table.simps)

section \<open>One byte through a table\<close>

lemma unat_widen: "unat (ucast (b :: u8) :: u16) = unat b" "unat (ucast (b :: u8) :: u32) = unat b"
  using unat_u8 [of b] by (simp_all add: unsigned_ucast_eq take_bit_eq_mod)

lemma CRC16_byte:
  "push_bit 8 c XOR m_CRC16Table ! unat ((drop_bit 8 c XOR ucast d) AND 0x00FF) = crc_bits 0x1021 c (byte_bits d)"
proof -
  let ?i = "ucast (drop_bit 8 c) XOR d :: u8"
  have m: "(0x00FF :: u16) = mask 8" by (simp add: mask_eq_exp_minus_1)
  have "(drop_bit 8 c XOR ucast d) AND 0x00FF = (ucast ?i :: u16)"
    unfolding m by (rule bit_word_eqI) (auto simp: bit_simps dest: bit_imp_le_length)
  then have "unat ((drop_bit 8 c XOR ucast d) AND 0x00FF) = unat ?i"
    by (simp only: unat_widen)
  moreover have "zip_xor (top_bits 8 c) (byte_bits d) = byte_bits ?i"
    by (simp add: top_bits_def byte_bits_def bit_simps upt_conv_Cons)
  ultimately show ?thesis using crc16.shift_out [of "byte_bits d" c] by (simp add: CRC16_lookup)
qed

lemma CRC7_byte:
  fixes c :: "7 word"
  shows "m_CRC7Table ! unat (push_bit 1 (ucast (ucast c :: u8)) XOR ucast d :: u32) = ucast (crc_bits 0x09 c (byte_bits d))"
    and "unat (push_bit 1 (ucast (ucast c :: u8)) XOR ucast d :: u32) < 256"
proof -
  let ?i = "push_bit 1 (ucast c) XOR d :: u8"
  have "push_bit 1 (ucast (ucast c :: u8)) XOR ucast d = (ucast ?i :: u32)"
    unfolding shl1_def [symmetric]
    by (rule bit_word_eqI) (auto simp: bit_simps bit_shl1 dest: bit_imp_le_length)
  then have i: "unat (push_bit 1 (ucast (ucast c :: u8)) XOR ucast d :: u32) = unat ?i"
    by (simp only: unat_widen)
  show "unat (push_bit 1 (ucast (ucast c :: u8)) XOR ucast d :: u32) < 256" unfolding i by (rule unat_u8)
  have bits: "byte_bits d = take 7 (byte_bits d) @ [bit d 0]" "length (take 7 (byte_bits d)) = 7"
    "zip_xor (top_bits 7 c) (take 7 (byte_bits d)) @ [bit d 0] = byte_bits ?i"
    unfolding shl1_def [symmetric]
    by (simp_all add: top_bits_def byte_bits_def bit_simps bit_shl1 upt_conv_Cons)
  have "crc_bits 0x09 c (take 7 (byte_bits d)) = crc_bits 0x09 0 (zip_xor (top_bits 7 c) (take 7 (byte_bits d)))"
    using crc7.shift_out [of "take 7 (byte_bits d)" c] bits(2) by simp
  then have "crc_bits 0x09 c (byte_bits d) = crc_bits 0x09 0 (byte_bits ?i)"
    by (subst bits(1)) (simp only: bits(3) [symmetric] foldl_append)
  then show "m_CRC7Table ! unat (push_bit 1 (ucast (ucast c :: u8)) XOR ucast d :: u32) = ucast (crc_bits 0x09 c (byte_bits d))"
    unfolding i CRC7_lookup(1) by simp
qed

lemma msg_bits_simps [simp]: "msg_bits [] = []" "msg_bits (b # s) = byte_bits b @ msg_bits s"
  by (simp_all add: msg_bits_def)

lemma wp_CRC16_loop:
  "i + n \<le> length data \<Longrightarrow>
   wp (CRC16_loop data i n c) Q w = Q (crc_bits 0x1021 c (msg_bits (take n (drop i data)))) w"
proof (induction n arbitrary: i c)
  case (Suc n)
  then have "take (Suc n) (drop i data) = data ! i # take n (drop (Suc i) data)" by (simp flip: Cons_nth_drop_Suc)
  with Suc show ?case by (simp add: CRC16_byte)
qed simp

lemma wp_CRC7_loop:
  fixes c :: "7 word"
  shows "i + n \<le> length data \<Longrightarrow>
   wp (CRC7_loop data i n (ucast c)) Q w = Q (ucast (crc_bits 0x09 c (msg_bits (take n (drop i data))))) w"
proof (induction n arbitrary: i c)
  case (Suc n)
  then have "take (Suc n) (drop i data) = data ! i # take n (drop (Suc i) data)" by (simp flip: Cons_nth_drop_Suc)
  with Suc show ?case using CRC7_byte [of c "data ! i"] by (simp add: CRC7_lookup(2))
qed simp

section \<open>Properties\<close>

text \<open>C34. \<open>CRC16\<close> of a block is the remainder the bit-serial register of the polynomial
  x^16 + x^12 + x^5 + 1 computes, and no access leaves the block or the table.\<close>

theorem CRC16_remainder:
  assumes "n \<le> int (length data)"
  shows "wp (CRC16 data n) (\<lambda>r w'. r = crc_bits 0x1021 0 (msg_bits (take (nat n) data)) \<and> w' = w) w"
  using assms wp_CRC16_loop [of 0 "nat n" data 0] by (simp add: CRC16_def)

theorem CRC16_remainder_witness:
  "wp (CRC16 [49, 50, 51, 52, 53, 54, 55, 56, 57] 9) (\<lambda>r w'. r = 0x31C3 \<and> faults w' = 0) \<lparr>avail = [], live = 0, faults = 0\<rparr>"
proof (rule wp_mono [OF CRC16_remainder], goal_cases)
  case (2 r w')
  have "crc_bits (0x1021 :: u16) 0 (msg_bits [49, 50, 51, 52, 53, 54, 55, 56, 57]) = 0x31C3" by code_simp
  with 2 show ?case by simp
qed simp

text \<open>\<open>CRC7\<close> of a command is the remainder the bit-serial register of the polynomial x^7 + x^3 + 1
  computes, and no access leaves the block or the table of 256 entries.\<close>

lemma CRC7_remainder:
  assumes "n \<le> int (length data)"
  shows "wp (CRC7 data n) (\<lambda>r w'. r = ucast (crc_bits (0x09 :: 7 word) 0 (msg_bits (take (nat n) data))) \<and> w' = w) w"
  using assms wp_CRC7_loop [of 0 "nat n" data 0] by (simp add: CRC7_def)

text \<open>C35. Two different blocks of the same length whose differing bits all lie within 16 consecutive bit
  positions never have the same \<open>CRC16\<close>: a read with such a burst of errors is rejected.\<close>

theorem CRC16_detects_bursts:
  assumes "msg_bits a = pre @ xs @ post" "msg_bits b = pre @ ys @ post"
    "length xs = length ys" "length xs \<le> 16" "xs \<noteq> ys"
  shows "fst (run_state (CRC16 a (int (length a))) w) \<noteq> fst (run_state (CRC16 b (int (length b))) w)"
proof -
  have "fst (run_state (CRC16 d (int (length d))) w) = crc_bits 0x1021 0 (msg_bits d)" for d
    using wp_CRC16_loop [of 0 "length d" d 0 "\<lambda>r _. r = crc_bits 0x1021 0 (msg_bits d)" w]
    by (simp add: CRC16_def wp_def split: prod.splits)
  then show ?thesis using crc16.burst_detected [OF assms(3)] assms by simp
qed

theorem CRC16_detects_bursts_witness:
  "fst (run_state (CRC16 [1, 2, 3] 3) \<lparr>avail = [], live = 0, faults = 0\<rparr>) \<noteq> fst (run_state (CRC16 [1, 0xA2, 0xF3] 3) \<lparr>avail = [], live = 0, faults = 0\<rparr>)"
proof -
  have "msg_bits [1, 2, 3] = byte_bits 1 @ (byte_bits 2 @ byte_bits 3) @ []"
    "msg_bits [1, 0xA2, 0xF3] = byte_bits 1 @ (byte_bits 0xA2 @ byte_bits 0xF3) @ []" by simp_all
  from CRC16_detects_bursts [OF this, of "\<lparr>avail = [], live = 0, faults = 0\<rparr>"] show ?thesis by (simp add: byte_bits_def)
qed

end
