(* ===== verification/LibB64.thy ===== *)
theory LibB64
  imports Base64_Spec
begin

text \<open>
  The streaming base64 codec of the core (\<open>cores/esp32/libb64/cencode.c\<close>, \<open>cdecode.c\<close>): state machines
  that take the data in pieces of any size and keep the unfinished character or byte between the
  calls. A pass of \<open>while (1)\<close> is cut at the \<open>case\<close> labels, so that one step of the loops here
  is one input byte. The reference is \<open>Base64_Spec\<close>.
\<close>

section \<open>The encoder\<close>

datatype base64_encodestep = step_A | step_B | step_C

record base64_encodestate =
  enc_step :: base64_encodestep
  enc_result :: u8
  enc_stepcount :: int

text \<open>\<open>stepcount\<close> is never assigned: its content is that of fresh memory.\<close>

definition base64_init_encodestate :: "base64_encodestate \<Rightarrow> base64_encodestate" where
  "base64_init_encodestate st = st\<lparr>enc_step := step_A, enc_result := 0\<rparr>"

definition encoding :: "u8 list" where
  "encoding = clit ''ABCDEFGHIJKLMNOPQRSTUVWXYZabcdefghijklmnopqrstuvwxyz0123456789+/''"

definition base64_encode_value :: "u8 \<Rightarrow> u8" where
  "base64_encode_value value_in = (if value_in > 63 then 61 else encoding ! unat value_in)"

fun encode_loop :: "u8 list \<Rightarrow> nat \<Rightarrow> nat \<Rightarrow> u8 list \<Rightarrow> nat \<Rightarrow> base64_encodestep \<Rightarrow> u8 \<Rightarrow>
    (nat \<times> u8 list \<times> base64_encodestep \<times> u8) cm" where
  "encode_loop plain i 0 code_out codechar st res = ret (codechar, code_out, st, res)"
| "encode_loop plain i (Suc n) code_out codechar st res = do {
     fragment \<leftarrow> c_load plain i;
     (case st of
        step_A \<Rightarrow> do {
          out \<leftarrow> c_store code_out codechar (base64_encode_value (drop_bit 2 (fragment AND 0xFC)));
          encode_loop plain (Suc i) n out (codechar + 1) step_B (push_bit 4 (fragment AND 0x03))
        }
      | step_B \<Rightarrow> do {
          out \<leftarrow> c_store code_out codechar (base64_encode_value (res OR drop_bit 4 (fragment AND 0xF0)));
          encode_loop plain (Suc i) n out (codechar + 1) step_C (push_bit 2 (fragment AND 0x0F))
        }
      | step_C \<Rightarrow> do {
          out \<leftarrow> c_store code_out codechar (base64_encode_value (res OR drop_bit 6 (fragment AND 0xC0)));
          out' \<leftarrow> c_store out (codechar + 1) (base64_encode_value (fragment AND 0x3F));
          encode_loop plain (Suc i) n out' (codechar + 2) step_A (fragment AND 0x3F)
        })
   }"

text \<open>The loop ends when the pointer equals \<open>plaintext_in + length_in\<close>: a negative length would run over
  all of memory.\<close>

definition base64_encode_block ::
  "u8 list \<Rightarrow> int \<Rightarrow> u8 list \<Rightarrow> nat \<Rightarrow> base64_encodestate \<Rightarrow> (nat \<times> u8 list \<times> base64_encodestate) cm" where
  "base64_encode_block plaintext_in length_in code_out off state_in = do {
     c_assert (0 \<le> length_in);
     (codechar, out, st, res) \<leftarrow>
       encode_loop plaintext_in 0 (nat length_in) code_out off (enc_step state_in) (enc_result state_in);
     ret (codechar - off, out, state_in\<lparr>enc_result := res, enc_step := st\<rparr>)
   }"

definition base64_encode_blockend :: "u8 list \<Rightarrow> nat \<Rightarrow> base64_encodestate \<Rightarrow> (nat \<times> u8 list) cm" where
  "base64_encode_blockend code_out off state_in = do {
     (codechar, out) \<leftarrow>
       (case enc_step state_in of
          step_B \<Rightarrow> do {
            out \<leftarrow> c_stores code_out off [base64_encode_value (enc_result state_in), 61, 61];
            ret (off + 3, out)
          }
        | step_C \<Rightarrow> do {
            out \<leftarrow> c_stores code_out off [base64_encode_value (enc_result state_in), 61];
            ret (off + 2, out)
          }
        | step_A \<Rightarrow> ret (off, code_out));
     out' \<leftarrow> c_store out codechar 0;
     ret (codechar - off, out')
   }"

definition base64_encode_chars :: "u8 list \<Rightarrow> int \<Rightarrow> u8 list \<Rightarrow> base64_encodestate \<Rightarrow> (nat \<times> u8 list) cm" where
  "base64_encode_chars plaintext_in length_in code_out fresh = do {
     (len, out, st) \<leftarrow> base64_encode_block plaintext_in length_in code_out 0 (base64_init_encodestate fresh);
     (n, out') \<leftarrow> base64_encode_blockend out len st;
     ret (len + n, out')
   }"

section \<open>The decoder\<close>

definition decoding :: "int list" where
  "decoding = [62,-1,-1,-1,63,52,53,54,55,56,57,58,59,60,61,-1,-1,-1,-2,-1,-1,-1,0,1,2,3,4,5,6,7,8,9,10,11,12,
     13,14,15,16,17,18,19,20,21,22,23,24,25,-1,-1,-1,-1,-1,-1,26,27,28,29,30,31,32,33,34,35,36,37,38,39,40,41,
     42,43,44,45,46,47,48,49,50,51]"

text \<open>\<open>int8_t\<close> is \<open>u8\<close> read with \<open>sint\<close>; \<open>value_in -= 43\<close> wraps.\<close>

definition base64_decode_value_signed :: "u8 \<Rightarrow> int cm" where
  "base64_decode_value_signed value_in =
     (let v = value_in - 43 in
      if sint v < 0 \<or> sint v > int (length decoding) then ret (-1)
      else do {
        c_assert (nat (sint v) < length decoding);
        ret (if nat (sint v) < length decoding then decoding ! nat (sint v) else 0)
      })"

datatype base64_decodestep = step_a | step_b | step_c | step_d

record base64_decodestate =
  dec_step :: base64_decodestep
  dec_plainchar :: u8

definition base64_init_decodestate :: "base64_decodestate \<Rightarrow> base64_decodestate" where
  "base64_init_decodestate st = st\<lparr>dec_step := step_a, dec_plainchar := 0\<rparr>"

text \<open>\<open>*p |= v\<close>.\<close>

definition or_store :: "u8 list \<Rightarrow> nat \<Rightarrow> u8 \<Rightarrow> u8 list cm" where
  "or_store b i v = do { x \<leftarrow> c_load b i; c_store b i (x OR v) }"

fun decode_loop :: "u8 list \<Rightarrow> nat \<Rightarrow> nat \<Rightarrow> u8 list \<Rightarrow> nat \<Rightarrow> base64_decodestep \<Rightarrow>
    (nat \<times> u8 list \<times> base64_decodestep \<times> u8) cm" where
  "decode_loop code i 0 out plainchar st = do { p \<leftarrow> c_load out plainchar; ret (plainchar, out, st, p) }"
| "decode_loop code i (Suc n) out plainchar st = do {
     c \<leftarrow> c_load code i;
     f \<leftarrow> base64_decode_value_signed c;
     if f < 0 then decode_loop code (Suc i) n out plainchar st
     else let fragment = word_of_int f :: u8 in
       (case st of
          step_a \<Rightarrow> do {
            o1 \<leftarrow> c_store out plainchar (push_bit 2 (fragment AND 0x3F));
            decode_loop code (Suc i) n o1 plainchar step_b
          }
        | step_b \<Rightarrow> do {
            o1 \<leftarrow> or_store out plainchar (drop_bit 4 (fragment AND 0x30));
            o2 \<leftarrow> c_store o1 (plainchar + 1) (push_bit 4 (fragment AND 0x0F));
            decode_loop code (Suc i) n o2 (plainchar + 1) step_c
          }
        | step_c \<Rightarrow> do {
            o1 \<leftarrow> or_store out plainchar (drop_bit 2 (fragment AND 0x3C));
            o2 \<leftarrow> c_store o1 (plainchar + 1) (push_bit 6 (fragment AND 0x03));
            decode_loop code (Suc i) n o2 (plainchar + 1) step_d
          }
        | step_d \<Rightarrow> do {
            o1 \<leftarrow> or_store out plainchar (fragment AND 0x3F);
            decode_loop code (Suc i) n o1 (plainchar + 1) step_a
          })
   }"

definition base64_decode_block_signed ::
  "u8 list \<Rightarrow> int \<Rightarrow> u8 list \<Rightarrow> nat \<Rightarrow> base64_decodestate \<Rightarrow> (nat \<times> u8 list \<times> base64_decodestate) cm" where
  "base64_decode_block_signed code_in length_in plaintext_out off state_in = do {
     c_assert (0 \<le> length_in);
     o1 \<leftarrow> c_store plaintext_out off (dec_plainchar state_in);
     (plainchar, out, st, p) \<leftarrow> decode_loop code_in 0 (nat length_in) o1 off (dec_step state_in);
     ret (plainchar - off, out, state_in\<lparr>dec_step := st, dec_plainchar := p\<rparr>)
   }"

definition base64_decode_chars_signed :: "u8 list \<Rightarrow> int \<Rightarrow> u8 list \<Rightarrow> base64_decodestate \<Rightarrow> (nat \<times> u8 list) cm" where
  "base64_decode_chars_signed code_in length_in plaintext_out fresh = do {
     (len, out, st) \<leftarrow> base64_decode_block_signed code_in length_in plaintext_out 0 (base64_init_decodestate fresh);
     out' \<leftarrow> (if len > 0 then c_store out len 0 else ret out);
     ret (len, out')
   }"

text \<open>The exported names only cast between \<open>char\<close> and \<open>int8_t\<close>.\<close>

definition base64_decode_value :: "u8 \<Rightarrow> int cm" where
  "base64_decode_value value_in = base64_decode_value_signed value_in"

definition base64_decode_block ::
  "u8 list \<Rightarrow> int \<Rightarrow> u8 list \<Rightarrow> nat \<Rightarrow> base64_decodestate \<Rightarrow> (nat \<times> u8 list \<times> base64_decodestate) cm" where
  "base64_decode_block code_in length_in plaintext_out off state_in =
     base64_decode_block_signed code_in length_in plaintext_out off state_in"

definition base64_decode_chars :: "u8 list \<Rightarrow> int \<Rightarrow> u8 list \<Rightarrow> base64_decodestate \<Rightarrow> (nat \<times> u8 list) cm" where
  "base64_decode_chars code_in length_in plaintext_out fresh =
     base64_decode_chars_signed code_in length_in plaintext_out fresh"

section \<open>The encoder is the reference\<close>

definition lib64_valid :: "u8 \<Rightarrow> bool" where
  "lib64_valid c \<longleftrightarrow> unat (c - 43) < length decoding \<and> 0 \<le> decoding ! unat (c - 43)"

definition lib64_value :: "u8 \<Rightarrow> u8" where
  "lib64_value c = word_of_int (decoding ! unat (c - 43))"

lemma encoding_bytes:
  "encoding =
    [65, 66, 67, 68, 69, 70, 71, 72, 73, 74, 75, 76, 77, 78, 79, 80, 81, 82, 83, 84, 85, 86, 87, 88, 89,
     90, 97, 98, 99, 100, 101, 102, 103, 104, 105, 106, 107, 108, 109, 110, 111, 112, 113, 114, 115, 116,
     117, 118, 119, 120, 121, 122, 48, 49, 50, 51, 52, 53, 54, 55, 56, 57, 43, 47, 0]"
  unfolding encoding_def by code_simp

lemma lib64_tables:
  "map lib64_value (take 64 encoding) = map of_nat [0..<64]" "list_all lib64_valid (take 64 encoding)"
  unfolding encoding_bytes by code_simp+

lemma encode_value_nth:
  assumes "v AND 63 = v"
  shows "base64_encode_value v = take 64 encoding ! unat v" "unat v < 64"
proof -
  have "v \<le> 63" using word_and_le1 [of v 63] assms by (simp add: word_bw_comms)
  then show "unat v < 64" by (simp add: word_le_nat_alt)
  with \<open>v \<le> 63\<close> show "base64_encode_value v = take 64 encoding ! unat v" by (simp add: base64_encode_value_def word_less_nat_alt)
qed

lemma lib64_char:
  assumes "v AND 63 = v"
  shows "lib64_value (base64_encode_value v) = v" "lib64_valid (base64_encode_value v)"
proof -
  note v = encode_value_nth [OF assms]
  have len: "length (take 64 encoding) = 64" by (simp add: encoding_bytes)
  have "map lib64_value (take 64 encoding) ! unat v = map of_nat [0..<64] ! unat v" by (simp only: lib64_tables(1))
  then show "lib64_value (base64_encode_value v) = v" using v len by simp
  show "lib64_valid (base64_encode_value v)" using lib64_tables(2) v len by (simp only: list_all_length)
qed

interpretation lib64: b64_alphabet base64_encode_value lib64_value lib64_valid
proof
  show "\<not> lib64_valid 61" "\<not> lib64_valid 0" by code_simp+
qed (simp_all add: lib64_char)

text \<open>The characters a run over some bytes puts out, with the state it ends in.\<close>

fun enc_run :: "base64_encodestep \<Rightarrow> u8 \<Rightarrow> u8 list \<Rightarrow> u8 list \<times> base64_encodestep \<times> u8" where
  "enc_run st r [] = ([], st, r)"
| "enc_run step_A r (a # s) = (let (t, st) = enc_run step_B (sext2 a 0) s in (base64_encode_value (sext1 a) # t, st))"
| "enc_run step_B r (a # s) =
     (let (t, st) = enc_run step_C (sext3 a 0) s in (base64_encode_value (r OR sext2 0 a) # t, st))"
| "enc_run step_C r (a # s) =
     (let (t, st) = enc_run step_A (sext4 a) s in
      (base64_encode_value (r OR sext3 0 a) # base64_encode_value (sext4 a) # t, st))"

definition enc_tail :: "base64_encodestep \<Rightarrow> u8 \<Rightarrow> u8 list" where
  "enc_tail st r = (case st of step_A \<Rightarrow> [] | step_B \<Rightarrow> [base64_encode_value r, 61, 61] | step_C \<Rightarrow> [base64_encode_value r, 61])"

lemma sext_or [simp]: "sext2 a 0 OR sext2 0 b = sext2 a b" "sext3 b 0 OR sext3 0 c = sext3 b c"
  unfolding b64_bits by (rule u8_eqI; simp add: bit_simps)+

lemma enc_fragments:
  "drop_bit 2 (a AND 0xFC) = sext1 a" "push_bit 4 (a AND 0x03) = sext2 a 0" "drop_bit 4 (a AND 0xF0) = sext2 0 a"
  "push_bit 2 (a AND 0x0F) = sext3 a 0" "drop_bit 6 (a AND 0xC0) = sext3 0 a" "a AND 0x3F = sext4 a"
  unfolding b64_bits by (rule u8_eqI; simp add: bit_simps)+

lemmas encode_step = encode_loop.simps(2) [unfolded enc_fragments]

declare encode_loop.simps(2) [simp del]

lemma wp_encode_loop:
  "i + n \<le> length plain \<Longrightarrow> enc_run st r (take n (drop i plain)) = (t, st', r') \<Longrightarrow> k + length t \<le> length out \<Longrightarrow>
   wp (encode_loop plain i n out k st r) Q w = Q (k + length t, put out k t, st', r') w"
proof (induction n arbitrary: i st r t k out)
  case (Suc n)
  have d: "take (Suc n) (drop i plain) = plain ! i # take n (drop (Suc i) plain)" "i < length plain" "Suc i + n \<le> length plain"
    using Suc.prems(1) by (simp_all flip: Cons_nth_drop_Suc)
  from Suc.prems(2,3) show ?case
    unfolding d encode_step wp_bind wp_load [OF d(2)]
    by (cases st) (auto simp: Suc.IH [OF d(3)] list_update_put split: prod.splits)
qed simp

lemma enc_run_append:
  "enc_run st r s = (t, st1, r1) \<Longrightarrow> enc_run st1 r1 s' = (t', st2, r2) \<Longrightarrow> enc_run st r (s @ s') = (t @ t', st2, r2)"
  by (induction st r s arbitrary: t rule: enc_run.induct) (auto split: prod.splits)

lemma enc_run_text:
  "enc_run step_A r s = (t, st, r') \<Longrightarrow> t @ enc_tail st r' = b64_text base64_encode_value s"
proof (induction s arbitrary: r t rule: triple_induct)
  case (Three a b c s)
  then show ?case by (fastforce simp: b64_text_def split: prod.splits)
qed (auto simp: enc_tail_def b64_text_def b64_padding_def)

section \<open>The decoder is the reference\<close>

lemma length_decoding [simp]: "length decoding = 80"
  by (simp add: decoding_def)

lemma decoding_values: "list_all (\<lambda>x. x < 0 \<or> (word_of_int x :: u8) AND 63 = word_of_int x) decoding"
  by code_simp

lemma lib64_value_range: "lib64_valid c \<Longrightarrow> lib64_value c AND 63 = lib64_value c"
  using decoding_values by (auto simp: lib64_valid_def lib64_value_def list_all_length)

lemma sint_u8: "sint (v :: u8) = (if unat v < 128 then int (unat v) else int (unat v) - 256)"
proof -
  have "uint v < 256" "0 \<le> uint v" using uint_bounded [of v] by simp_all
  then have "take_bit 8 (uint v) = uint v" by (simp add: take_bit_int_eq_self)
  moreover have "bit v 7 \<longleftrightarrow> 128 \<le> unat v"
  proof -
    have "unat v div 128 < 2" using unat_u8 [of v] by simp
    then have "odd (unat v div 128) \<longleftrightarrow> unat v div 128 \<noteq> 0" by (cases "unat v div 128") auto
    moreover have "bit v 7 = bit (unat v) 7" by (simp add: bit_unsigned_iff)
    ultimately show ?thesis by (auto simp: bit_iff_odd [of "unat v"] div_eq_0_iff)
  qed
  ultimately have "sint v = (if 128 \<le> unat v then uint v - 256 else uint v)"
    by (simp add: sint_uint signed_take_bit_eq_take_bit_minus bit_simps)
  then show ?thesis by (simp only: uint_nat if_distrib not_le [symmetric]) simp
qed

text \<open>\<open>'{'\<close> (123) is the character whose index equals the size of the table.\<close>

lemma wp_decode_value:
  assumes "c \<noteq> 123" "lib64_valid c \<Longrightarrow> Q (decoding ! unat (c - 43)) w" "\<And>f. \<not> lib64_valid c \<Longrightarrow> f < 0 \<Longrightarrow> Q f w"
  shows "wp (base64_decode_value_signed c) Q w"
proof -
  have "unat (c - 43) \<noteq> 80"
  proof
    assume "unat (c - 43) = 80"
    then have "c - 43 = 80" by (metis of_nat_numeral word_unat_eq_iff unsigned_of_nat of_nat_unat ucast_id)
    then have "c = 80 + 43" by (metis diff_add_cancel)
    with assms(1) show False by simp
  qed
  moreover obtain u where u: "unat (c - 43) = u" by simp
  ultimately show ?thesis using assms(2,3) unat_u8 [of "c - 43"]
    unfolding base64_decode_value_signed_def Let_def sint_u8 lib64_valid_def u
    by (cases "u < 80 \<and> 0 \<le> decoding ! u") (auto simp: not_le)
qed

fun dec_run :: "base64_decodestep \<Rightarrow> u8 \<Rightarrow> u8 list \<Rightarrow> u8 list \<times> base64_decodestep \<times> u8" where
  "dec_run st p [] = ([], st, p)"
| "dec_run step_a p (v # s) = dec_run step_b (push_bit 2 (v AND 0x3F)) s"
| "dec_run step_b p (v # s) =
     (let (t, st) = dec_run step_c (push_bit 4 (v AND 0x0F)) s in ((p OR drop_bit 4 (v AND 0x30)) # t, st))"
| "dec_run step_c p (v # s) =
     (let (t, st) = dec_run step_d (push_bit 6 (v AND 0x03)) s in ((p OR drop_bit 2 (v AND 0x3C)) # t, st))"
| "dec_run step_d p (v # s) = (let (t, st) = dec_run step_a 0 s in ((p OR (v AND 0x3F)) # t, st))"

lemma wp_or_store: "i < length b \<Longrightarrow> wp (or_store b i v) Q w = Q (b[i := b ! i OR v]) w"
  by (simp add: or_store_def)

definition decoded_ok :: "u8 list \<Rightarrow> nat \<Rightarrow> u8 list \<times> base64_decodestep \<times> u8 \<Rightarrow> nat \<times> u8 list \<times> base64_decodestep \<times> u8 \<Rightarrow> bool" where
  "decoded_ok out k run res =
     (case (run, res) of ((t, st, p), (k', out', st', p')) \<Rightarrow>
        k' = k + length t \<and> length out' = length out \<and> take k' out' = take k out @ t \<and> st' = st \<and> (st \<noteq> step_a \<longrightarrow> p' = p))"

lemma decoded_ok_later:
  assumes "decoded_ok out1 k1 (t, st, p) res" "length out1 = length out" "take k1 out1 = take k out @ x" "k1 = k + length x"
  shows "decoded_ok out k (x @ t, st, p) res"
  using assms by (auto simp: decoded_ok_def split: prod.splits)

lemma wp_emit:
  assumes "k + 1 < length out"
  shows "wp (or_store out k a \<bind> (\<lambda>o1. c_store o1 (k + 1) b \<bind> f)) Q w = wp (f (out[k := out ! k OR a, k + 1 := b])) Q w"
    and "wp (or_store out k a \<bind> f) Q w = wp (f (out[k := out ! k OR a])) Q w"
  using assms by (simp_all add: wp_or_store)

lemma wp_decode_loop:
  assumes "i + n \<le> length code" "123 \<notin> set (take n (drop i code))"
    "dec_run st p (map lib64_value (filter lib64_valid (take n (drop i code)))) = (t, st', p')"
    "k + length t < length out" "st \<noteq> step_a \<Longrightarrow> out ! k = p"
  shows "wp (decode_loop code i n out k st) (\<lambda>res w'. w' = w \<and> decoded_ok out k (t, st', p') res) w"
  using assms
proof (induction n arbitrary: i st p t k out)
  case 0
  then show ?case by (auto simp: decoded_ok_def)
next
  case (Suc n)
  define c where "c = code ! i"
  have d: "take (Suc n) (drop i code) = c # take n (drop (Suc i) code)" "i < length code" "Suc i + n \<le> length code"
    using Suc.prems(1) by (simp_all add: c_def flip: Cons_nth_drop_Suc)
  have c: "c \<noteq> 123" "123 \<notin> set (take n (drop (Suc i) code))" using Suc.prems(2) by (simp_all add: d)
  let ?run = "\<lambda>st p. dec_run st p (map lib64_value (filter lib64_valid (take n (drop (Suc i) code))))"
  note IH = Suc.IH [OF d(3) c(2)]
  have goal: "wp (decode_loop code (Suc i) n out1 k1 st1) (\<lambda>res w'. w' = w \<and> decoded_ok out k (t, st', p') res) w"
    if "?run st1 p1 = (t1, st', p')" "t = x @ t1" "k1 = k + length x" "length out1 = length out"
      "take k1 out1 = take k out @ x" "st1 \<noteq> step_a \<Longrightarrow> out1 ! k1 = p1" for st1 p1 t1 x k1 out1
    by (rule wp_mono [OF IH [OF that(1)]]) (use that Suc.prems(4) in \<open>auto intro: decoded_ok_later\<close>)
  show ?case
    unfolding decode_loop.simps wp_bind wp_load [OF d(2)] c_def [symmetric]
  proof (rule wp_decode_value [OF c(1)], goal_cases)
    case 1
    define v where "v = lib64_value c"
    have run: "dec_run st p (v # map lib64_value (filter lib64_valid (take n (drop (Suc i) code)))) = (t, st', p')"
      using Suc.prems(3) 1 by (simp add: d v_def)
    have nn: "\<not> decoding ! unat (c - 43) < 0" using 1 by (simp add: lib64_valid_def)
    note unfold = if_not_P [OF nn] Let_def lib64_value_def [symmetric] v_def [symmetric]
    show ?case
    proof (cases st)
      case step_a
      then show ?thesis unfolding unfold
        using run Suc.prems(4) by (auto intro: goal [where x = "[]"])
    next
      case step_b
      with run obtain t1 where t: "t = (p OR drop_bit 4 (v AND 0x30)) # t1" "?run step_c (push_bit 4 (v AND 0x0F)) = (t1, st', p')"
        by (auto split: prod.splits)
      have k: "k + 1 < length out" "p = out ! k" using t(1) step_b Suc.prems(4,5) by simp_all
      show ?thesis unfolding unfold step_b base64_decodestep.case wp_emit [OF k(1)]
        by (rule goal [OF t(2), where x = "[p OR drop_bit 4 (v AND 0x30)]"])
          (use k t(1) in \<open>simp_all add: take_Suc_conv_app_nth del: push_bit_and drop_bit_and\<close>)
    next
      case step_c
      with run obtain t1 where t: "t = (p OR drop_bit 2 (v AND 0x3C)) # t1" "?run step_d (push_bit 6 (v AND 0x03)) = (t1, st', p')"
        by (auto split: prod.splits)
      have k: "k + 1 < length out" "p = out ! k" using t(1) step_c Suc.prems(4,5) by simp_all
      show ?thesis unfolding unfold step_c base64_decodestep.case wp_emit [OF k(1)]
        by (rule goal [OF t(2), where x = "[p OR drop_bit 2 (v AND 0x3C)]"])
          (use k t(1) in \<open>simp_all add: take_Suc_conv_app_nth del: push_bit_and drop_bit_and\<close>)
    next
      case step_d
      with run obtain t1 where t: "t = (p OR (v AND 0x3F)) # t1" "?run step_a (0) = (t1, st', p')"
        by (auto split: prod.splits)
      have k: "k + 1 < length out" "p = out ! k" using t(1) step_d Suc.prems(4,5) by simp_all
      show ?thesis unfolding unfold step_d base64_decodestep.case wp_emit [OF k(1)]
        by (rule goal [OF t(2), where x = "[p OR (v AND 0x3F)]"])
          (use k t(1) in \<open>simp_all add: take_Suc_conv_app_nth del: push_bit_and drop_bit_and\<close>)
    qed
  next
    case (2 f)
    then show ?case using goal [of st p t "[]" k out] Suc.prems by (simp add: d)
  qed
qed

lemma dec_run_append:
  "dec_run st p s = (t, st1, p1) \<Longrightarrow> dec_run st1 p1 s' = (t', st2, p2) \<Longrightarrow> dec_run st p (s @ s') = (t @ t', st2, p2)"
  by (induction st p s arbitrary: t rule: dec_run.induct) (auto split: prod.splits)

text \<open>The pending byte of \<open>step_a\<close> is dead.\<close>

lemma dec_run_a: "dec_run step_a p s = (t, st, q) \<Longrightarrow> \<exists>q'. dec_run step_a p' s = (t, st, q') \<and> (st \<noteq> step_a \<longrightarrow> q' = q)"
  by (cases s) auto

lemma dec_fragments:
  assumes "v AND 63 = v" "u AND 63 = u"
  shows "push_bit 2 (u AND 0x3F) OR drop_bit 4 (v AND 0x30) = byte1 u v"
    "push_bit 4 (u AND 0x0F) OR drop_bit 2 (v AND 0x3C) = byte2 u v"
    "push_bit 6 (u AND 0x03) OR (v AND 0x3F) = byte3 u v"
    "push_bit 2 u OR drop_bit 4 (v AND 0x30) = byte1 u v" "push_bit 6 (u AND 0x03) OR v = byte3 u v"
proof -
  have b: "\<not> bit v 6" "\<not> bit v 7" "\<not> bit u 6" "\<not> bit u 7"
    by (subst assms [symmetric], simp add: bit_simps)+
  show "push_bit 2 (u AND 0x3F) OR drop_bit 4 (v AND 0x30) = byte1 u v"
    "push_bit 4 (u AND 0x0F) OR drop_bit 2 (v AND 0x3C) = byte2 u v"
    "push_bit 6 (u AND 0x03) OR (v AND 0x3F) = byte3 u v"
    "push_bit 2 u OR drop_bit 4 (v AND 0x30) = byte1 u v" "push_bit 6 (u AND 0x03) OR v = byte3 u v"
    unfolding b64_bits by (rule u8_eqI; simp add: bit_simps b)+
qed

lemma dec_run_bytes:
  "list_all (\<lambda>v. v AND 63 = v) vs \<Longrightarrow> fst (dec_run step_a p vs) = b64_bytes id vs"
proof (induction "id :: u8 \<Rightarrow> u8" vs arbitrary: p rule: b64_bytes.induct)
  case (1 x y z u s)
  then show ?case by (simp add: dec_fragments Let_def case_prod_beta del: push_bit_and drop_bit_and)
qed (simp_all add: dec_fragments del: push_bit_and drop_bit_and)

lemma b64_bytes_map: "b64_bytes id (map f s) = b64_bytes f s"
  by (induction f s rule: b64_bytes.induct) simp_all

definition lib64_bytes :: "u8 list \<Rightarrow> u8 list" where
  "lib64_bytes s = b64_bytes lib64_value (filter lib64_valid s)"

lemma dec_run_lib64: "fst (dec_run step_a p (map lib64_value (filter lib64_valid s))) = lib64_bytes s"
  by (subst dec_run_bytes) (auto simp: list_all_iff lib64_value_range lib64_bytes_def b64_bytes_map)

lemma lib64_bytes_text: "lib64_bytes (b64_text base64_encode_value s) = s"
proof -
  have "filter lib64_valid (b64_text base64_encode_value s) = b64_chars base64_encode_value s"
    using lib64.chars_valid lib64.pad_invalid by (auto simp: b64_text_def b64_padding_def intro: filter_True)
  then show ?thesis by (simp add: lib64_bytes_def lib64.decode_encode)
qed

section \<open>Data in pieces\<close>

text \<open>The way a caller streams: each call continues the output where the one before it stopped.\<close>

fun encode_chunks :: "u8 list list \<Rightarrow> u8 list \<Rightarrow> nat \<Rightarrow> base64_encodestate \<Rightarrow> (nat \<times> u8 list) cm" where
  "encode_chunks [] out off st = do {
     (n, out') \<leftarrow> base64_encode_blockend out off st;
     ret (off + n, out')
   }"
| "encode_chunks (c # cs) out off st = do {
     (n, out', st') \<leftarrow> base64_encode_block c (int (length c)) out off st;
     encode_chunks cs out' (off + n) st'
   }"

fun decode_chunks :: "u8 list list \<Rightarrow> u8 list \<Rightarrow> nat \<Rightarrow> base64_decodestate \<Rightarrow> (nat \<times> u8 list) cm" where
  "decode_chunks [] out off st = ret (off, out)"
| "decode_chunks (c # cs) out off st = do {
     (n, out', st') \<leftarrow> base64_decode_block c (int (length c)) out off st;
     decode_chunks cs out' (off + n) st'
   }"

lemma wp_base64_encode_block:
  assumes "enc_run (enc_step st) (enc_result st) c = (t, s, r)" "off + length t \<le> length out"
  shows "wp (base64_encode_block c (int (length c)) out off st) Q w =
    Q (length t, put out off t, st\<lparr>enc_result := r, enc_step := s\<rparr>) w"
  using wp_encode_loop [of 0 "length c" c "enc_step st" "enc_result st" t s r off out] assms
  by (simp add: base64_encode_block_def wp_prod_fun)

lemma wp_base64_encode_blockend:
  assumes "off + length (enc_tail (enc_step st) (enc_result st)) < length out"
  shows "wp (base64_encode_blockend out off st) Q w =
    Q (length (enc_tail (enc_step st) (enc_result st)), put out off (enc_tail (enc_step st) (enc_result st) @ [0])) w"
  using assms put_put_adjacent [of off "[base64_encode_value (enc_result st), 61, 61]" "[0]" out]
    put_put_adjacent [of off "[base64_encode_value (enc_result st), 61]" "[0]" out]
  by (cases "enc_step st")
    (simp_all add: base64_encode_blockend_def enc_tail_def list_update_eq_put wp_prod_fun numeral_3_eq_3 numeral_2_eq_2
       del: c_stores.simps)

lemma wp_encode_chunks:
  assumes "enc_run (enc_step st) (enc_result st) (concat cs) = (t, s, r)" "off + length (t @ enc_tail s r) < length out"
  shows "wp (encode_chunks cs out off st) Q w = Q (off + length (t @ enc_tail s r), put out off (t @ enc_tail s r @ [0])) w"
  using assms
proof (induction cs arbitrary: st t off out)
  case Nil
  then show ?case by (simp add: wp_base64_encode_blockend wp_prod_fun)
next
  case (Cons c cs)
  obtain t1 s1 r1 where 1: "enc_run (enc_step st) (enc_result st) c = (t1, s1, r1)" by (metis prod_cases3)
  obtain t2 s2 r2 where 2: "enc_run s1 r1 (concat cs) = (t2, s2, r2)" by (metis prod_cases3)
  have eq: "t = t1 @ t2" "s = s2" "r = r2" using enc_run_append [OF 1 2] Cons.prems(1) by simp_all
  have "wp (encode_chunks cs (put out off t1) (off + length t1) (st\<lparr>enc_result := r1, enc_step := s1\<rparr>)) Q w =
    Q (off + length t1 + length (t2 @ enc_tail s r), put (put out off t1) (off + length t1) (t2 @ enc_tail s r @ [0])) w"
    by (rule Cons.IH) (use Cons.prems(2) in \<open>simp_all add: 2 eq\<close>)
  then show ?case using Cons.prems(2)
    by (simp add: wp_base64_encode_block [OF 1] wp_prod_fun eq put_put_adjacent add.assoc)
qed

abbreviation code_values :: "u8 list \<Rightarrow> u8 list" where
  "code_values s \<equiv> map lib64_value (filter lib64_valid s)"

lemma wp_base64_decode_block:
  assumes "n \<le> length c" "123 \<notin> set (take n c)" "dec_run (dec_step st) (dec_plainchar st) (code_values (take n c)) = (t, s, p)"
    "off + length t < length out"
    and "\<And>out' st'. length out' = length out \<Longrightarrow> take (off + length t) out' = take off out @ t \<Longrightarrow>
      dec_step st' = s \<Longrightarrow> (s \<noteq> step_a \<Longrightarrow> dec_plainchar st' = p) \<Longrightarrow> Q (length t, out', st') w"
  shows "wp (base64_decode_block c (int n) out off st) Q w"
proof -
  let ?out = "out[off := dec_plainchar st]"
  have "wp (decode_loop c 0 n ?out off (dec_step st)) (\<lambda>res w'. w' = w \<and> decoded_ok ?out off (t, s, p) res) w"
    by (rule wp_decode_loop) (use assms(1-4) in auto)
  then have "wp (decode_loop c 0 n ?out off (dec_step st))
    (\<lambda>(k, out', s', p'). Q (k - off, out', st\<lparr>dec_step := s', dec_plainchar := p'\<rparr>)) w"
    by (rule wp_mono) (auto simp: decoded_ok_def intro!: assms(5))
  then show ?thesis
    using assms(4) by (simp add: base64_decode_block_def base64_decode_block_signed_def wp_prod_fun split_def)
qed

lemma wp_decode_chunks:
  assumes "123 \<notin> set (concat cs)" "dec_run (dec_step st) (dec_plainchar st) (code_values (concat cs)) = (t, s, p)"
    "off + length t < length out"
    and "\<And>out'. length out' = length out \<Longrightarrow> take (off + length t) out' = take off out @ t \<Longrightarrow> Q (off + length t, out') w"
  shows "wp (decode_chunks cs out off st) Q w"
  using assms
proof (induction cs arbitrary: st t off out p)
  case (Cons c cs)
  obtain t1 s1 p1 where 1: "dec_run (dec_step st) (dec_plainchar st) (code_values c) = (t1, s1, p1)" by (metis prod_cases3)
  obtain t2 s2 p2 where 2: "dec_run s1 p1 (code_values (concat cs)) = (t2, s2, p2)" by (metis prod_cases3)
  have eq: "t = t1 @ t2" "s = s2" "p = p2" using dec_run_append [OF 1 2] Cons.prems(2) by simp_all
  show ?case
    unfolding decode_chunks.simps wp_bind
  proof (rule wp_base64_decode_block [where t = t1 and s = s1 and p = p1], goal_cases)
    case (5 out' st')
    then obtain p2' where "dec_run (dec_step st') (dec_plainchar st') (code_values (concat cs)) = (t2, s, p2')"
      using 2 dec_run_a [of p1 _ t2 s2 p2 "dec_plainchar st'"] eq by (cases "s1 = step_a") auto
    then show ?case
      unfolding prod.case
    proof (rule Cons.IH [rotated], goal_cases)
      case (2 out2)
      then show ?case using Cons.prems(4) [of out2] 5 by (simp add: eq add.assoc)
    qed (use Cons.prems(1,3) 5 eq in auto)
  qed (use Cons.prems 1 eq in auto)
qed simp

section \<open>The size a caller reserves\<close>

definition base64_encode_expected_len :: "int \<Rightarrow> int" where
  "base64_encode_expected_len n = ((4 * n) div 3 + 3) AND NOT 3"

lemma and_not_3: "(x :: int) AND NOT 3 = x - x mod 4"
proof -
  have "x - take_bit 2 x = x AND NOT (take_bit 2 x)"
    by (rule disjunctive_diff_eq_and_not) (auto simp: bit_eq_iff bit_simps)
  also have "\<dots> = x AND NOT (mask 2)" by (auto simp: bit_eq_iff bit_simps)
  finally show ?thesis by (simp add: mask_eq_exp_minus_1 take_bit_eq_mod)
qed

lemma expected_len: "base64_encode_expected_len (int n) = int ((n + 2) div 3 * 4)"
proof -
  obtain q r where n: "n = 3 * q + r" "r < 3" by (metis mult_div_mod_eq mod_less_divisor zero_less_numeral)
  have third: "4 * (3 * k + m) div 3 = 4 * k + 4 * m div 3" for k m :: int by presburger
  have round: "(4 * k + m) - (4 * k + m) mod 4 = 4 * k + (m - m mod 4)" for k m :: int by presburger
  have up: "(3 * q + r + 2) div 3 = q + (r + 2) div 3" by presburger
  from n(2) consider "r = 0" | "r = 1" | "r = 2" by linarith
  then show ?thesis
    unfolding base64_encode_expected_len_def and_not_3 n(1) up of_nat_add of_nat_mult of_nat_numeral third add.assoc round
    by cases simp_all
qed

lemma wp_encode_text:
  assumes "base64_encode_expected_len (int (length (concat cs))) + 1 \<le> int (length out)"
  shows "wp (encode_chunks cs out 0 (base64_init_encodestate fresh)) (\<lambda>(n, out') w'.
    w' = w \<and> int n = base64_encode_expected_len (int (length (concat cs))) \<and>
    out' = put out 0 (b64_text base64_encode_value (concat cs) @ [0])) w"
proof -
  obtain t s r where run: "enc_run step_A 0 (concat cs) = (t, s, r)" by (metis prod_cases3)
  then have "t @ enc_tail s r = b64_text base64_encode_value (concat cs)" by (rule enc_run_text)
  moreover from this have "length (t @ enc_tail s r) = (length (concat cs) + 2) div 3 * 4" by (simp only: length_b64_text)
  ultimately show ?thesis
    using wp_encode_chunks [of "base64_init_encodestate fresh" cs t s r 0 out] run assms
    by (simp add: base64_init_encodestate_def expected_len flip: append_assoc)
qed

section \<open>Properties\<close>

text \<open>The encoder may be fed in pieces of any sizes: what the calls of \<open>base64_encode_block\<close> and the
  final \<open>base64_encode_blockend\<close> write one after the other is the RFC 4648 encoding of all the data with
  a terminator; a buffer of the size the callers reserve, \<open>base64_encode_expected_len (n) + 1\<close>, is not overrun.\<close>

lemma encode_chunks_text:
  assumes "base64_encode_expected_len (int (length (concat cs))) + 1 \<le> int (length out)"
  shows "wp (encode_chunks cs out 0 (base64_init_encodestate fresh)) (\<lambda>(n, out') w'.
    w' = w \<and> int n = base64_encode_expected_len (int (length (concat cs))) \<and>
    out' = put out 0 (b64_text base64_encode_value (concat cs) @ [0])) w"
  using assms by (rule wp_encode_text)

text \<open>C32. The decoder may be fed in pieces of any sizes too: for every input without the character \<open>{\<close>, which makes
  \<open>base64_decode_value\<close> read past its table, and a buffer at least one byte longer than the result, the bytes that the calls of
  \<open>base64_decode_block\<close> leave are the decoding of the characters of the alphabet in all the pieces, whatever other characters
  stand between them, and nothing is written outside the buffer.\<close>

theorem decode_chunks_bytes:
  assumes "123 \<notin> set (concat cs)" "length (lib64_bytes (concat cs)) < length out"
  shows "wp (decode_chunks cs out 0 (base64_init_decodestate fresh)) (\<lambda>(n, out') w'.
    w' = w \<and> length out' = length out \<and> take n out' = lib64_bytes (concat cs)) w"
proof -
  obtain t s p where run: "dec_run step_a 0 (code_values (concat cs)) = (t, s, p)" by (metis prod_cases3)
  then have "t = lib64_bytes (concat cs)" using dec_run_lib64 [of 0 "concat cs"] by simp
  then show ?thesis
    by (intro wp_decode_chunks [where t = t and s = s and p = p])
      (use assms run in \<open>simp_all add: base64_init_decodestate_def\<close>)
qed

theorem decode_chunks_bytes_witness:
  "wp (decode_chunks [[84, 10], [87, 70], [117, 84, 81, 61, 61]] (replicate 5 0) 0 (base64_init_decodestate \<lparr>dec_step = step_d, dec_plainchar = 1\<rparr>))
     (\<lambda>(n, out') w'. faults w' = 0 \<and> length out' = 5 \<and> take n out' = [77, 97, 110, 77]) \<lparr>avail = [], live = 0, faults = 0\<rparr>"
proof -
  have b: "lib64_bytes (concat [[84, 10], [87, 70], [117, 84, 81, 61, 61]]) = [77, 97, 110, 77]" by code_simp
  show ?thesis
    by (rule wp_mono [OF decode_chunks_bytes]) (simp_all only: b, auto)
qed

text \<open>\<open>base64_decode_chars\<close> of what \<open>base64_encode_chars\<close> wrote, with one byte more than the
  data in the output buffer, is the data again, and no access leaves the buffers.\<close>

lemma base64_chars_roundtrip:
  assumes "base64_encode_expected_len (int (length plain)) + 1 \<le> int (length code)" "length plain < length out"
  shows "wp (do {
      (n, code') \<leftarrow> base64_encode_chars plain (int (length plain)) code fresh;
      base64_decode_chars code' (int n) out fresh'
    }) (\<lambda>(m, out') w'. w' = w \<and> m = length plain \<and> take m out' = plain) w"
proof -
  let ?t = "b64_text base64_encode_value plain" and ?k = "(length plain + 2) div 3 * 4"
  have enc: "base64_encode_chars plain (int (length plain)) code fresh = encode_chunks [plain] code 0 (base64_init_encodestate fresh)"
    by (simp add: base64_encode_chars_def split_def)
  obtain t s p where run: "dec_run step_a 0 (code_values ?t) = (t, s, p)" by (metis prod_cases3)
  then have t: "t = plain" using dec_run_lib64 [of 0 ?t] by (simp add: lib64_bytes_text)
  have len: "length ?t = ?k" by (rule length_b64_text)
  have no: "123 \<notin> set ?t"
  proof -
    have "\<not> lib64_valid 123" by code_simp
    then show ?thesis using lib64.chars_valid by (auto simp: b64_text_def b64_padding_def)
  qed
  have dec: "wp (base64_decode_chars (put code 0 (?t @ [0])) (int ?k) out fresh')
      (\<lambda>(m, out') w'. w' = w \<and> m = length plain \<and> take m out' = plain) w"
    unfolding base64_decode_chars_def base64_decode_chars_signed_def base64_decode_block_def [symmetric] wp_bind
    by (rule wp_base64_decode_block [where t = t and s = s and p = p])
      (use assms run len no in \<open>simp_all add: expected_len t put_0 base64_init_decodestate_def\<close>)
  show ?thesis
    unfolding enc wp_bind
    by (rule wp_mono [OF wp_encode_text]) (use assms dec in \<open>auto simp: expected_len\<close>)
qed

end
