(* ===== verification/MqttEncode.thy ===== *)
theory MqttEncode
  imports Buffer Strings Crt
begin

text \<open>
  The sending half of the MQTT codec (\<open>umqtt/src/mqtt_codec.c\<close>, \<open>umqtt/inc/azure_umqtt_c/mqttconst.h\<close>): how
  CONNECT, PUBLISH, SUBSCRIBE, UNSUBSCRIBE and the short packets are built in a \<open>BUFFER\<close> that grows
  piece by piece, with the fixed header put in front at the end. The textual trace the functions can
  write to a \<open>STRING\<close> is part of the model: it allocates.
\<close>

section \<open>Types and constants\<close>

text \<open>\<open>CONTROL_PACKET_TYPE\<close> is an enumeration that the decoder fills with any byte \<open>b & 0xf0\<close>: a byte.\<close>

type_synonym CONTROL_PACKET_TYPE = u8

definition CONNECT_TYPE :: CONTROL_PACKET_TYPE where "CONNECT_TYPE = 0x10"
definition PUBLISH_TYPE :: CONTROL_PACKET_TYPE where "PUBLISH_TYPE = 0x30"
definition PUBACK_TYPE :: CONTROL_PACKET_TYPE where "PUBACK_TYPE = 0x40"
definition PUBREC_TYPE :: CONTROL_PACKET_TYPE where "PUBREC_TYPE = 0x50"
definition PUBREL_TYPE :: CONTROL_PACKET_TYPE where "PUBREL_TYPE = 0x60"
definition PUBCOMP_TYPE :: CONTROL_PACKET_TYPE where "PUBCOMP_TYPE = 0x70"
definition SUBSCRIBE_TYPE :: CONTROL_PACKET_TYPE where "SUBSCRIBE_TYPE = 0x80"
definition UNSUBSCRIBE_TYPE :: CONTROL_PACKET_TYPE where "UNSUBSCRIBE_TYPE = 0xA0"
definition PINGREQ_TYPE :: CONTROL_PACKET_TYPE where "PINGREQ_TYPE = 0xC0"
definition PINGRESP_TYPE :: CONTROL_PACKET_TYPE where "PINGRESP_TYPE = 0xD0"
definition DISCONNECT_TYPE :: CONTROL_PACKET_TYPE where "DISCONNECT_TYPE = 0xE0"
definition PACKET_TYPE_ERROR :: CONTROL_PACKET_TYPE where "PACKET_TYPE_ERROR = 0xE1"
definition UNKNOWN_TYPE :: CONTROL_PACKET_TYPE where "UNKNOWN_TYPE = 0xE2"

lemmas packet_types =
  CONNECT_TYPE_def PUBLISH_TYPE_def PUBACK_TYPE_def PUBREC_TYPE_def PUBREL_TYPE_def PUBCOMP_TYPE_def
  SUBSCRIBE_TYPE_def UNSUBSCRIBE_TYPE_def PINGREQ_TYPE_def PINGRESP_TYPE_def DISCONNECT_TYPE_def
  PACKET_TYPE_ERROR_def UNKNOWN_TYPE_def

datatype QOS_VALUE = DELIVER_AT_MOST_ONCE | DELIVER_AT_LEAST_ONCE | DELIVER_EXACTLY_ONCE | DELIVER_FAILURE

fun qos_byte :: "QOS_VALUE \<Rightarrow> u8" where
  "qos_byte DELIVER_AT_MOST_ONCE = 0x00"
| "qos_byte DELIVER_AT_LEAST_ONCE = 0x01"
| "qos_byte DELIVER_EXACTLY_ONCE = 0x02"
| "qos_byte DELIVER_FAILURE = 0x80"

record MQTT_CLIENT_OPTIONS =
  clientId :: "u8 list option"
  willTopic :: "u8 list option"
  willMessage :: "u8 list option"
  username :: "u8 list option"
  password :: "u8 list option"
  keepAliveInterval :: u16
  messageRetain :: bool
  useCleanSession :: bool
  willQos :: QOS_VALUE
  log_trace :: bool

record SUBSCRIBE_PAYLOAD =
  subscribeTopic :: "u8 list"
  qosReturn :: QOS_VALUE

record PUBLISH_HEADER_INFO =
  ph_topicName :: "u8 list"
  ph_packetId :: u16
  ph_qos :: QOS_VALUE

definition USHRT_MAX :: nat where "USHRT_MAX = 65535"
definition MAX_SEND_SIZE :: nat where "MAX_SEND_SIZE = 0xFFFFFF7F"
definition CONN_FLAG_BYTE_OFFSET :: nat where "CONN_FLAG_BYTE_OFFSET = 7"
definition CONNECT_VARIABLE_HEADER_SIZE :: nat where "CONNECT_VARIABLE_HEADER_SIZE = 10"

section \<open>The trace\<close>

text \<open>Texts as \<open>printf\<close> makes them; \<open>STRING_sprintf\<close> formats twice, with the same result.\<close>

definition lit :: "string \<Rightarrow> u8 list" where
  "lit s = map of_char s"

definition decimal_text :: "nat \<Rightarrow> u8 list" where
  "decimal_text n = map (\<lambda>d. of_nat (48 + d)) (digits 10 n)"

definition trace_sprintf :: "STRING option \<Rightarrow> u8 list \<Rightarrow> STRING option cm" where
  "trace_sprintf t txt = do { (r, t') \<leftarrow> STRING_sprintf t True (Some txt) (Some txt); ret t' }"

definition trace_copy :: "STRING option \<Rightarrow> string \<Rightarrow> STRING option cm" where
  "trace_copy t s = do { (r, t') \<leftarrow> STRING_copy False t (Some (clit s)); ret t' }"

definition trace_concat :: "STRING option \<Rightarrow> STRING option \<Rightarrow> STRING option cm" where
  "trace_concat t s = do { (r, t') \<leftarrow> STRING_concat_with_STRING t s; ret t' }"

definition retrieve_qos_value :: "QOS_VALUE \<Rightarrow> u8 list" where
  "retrieve_qos_value q =
     (case q of
        DELIVER_AT_MOST_ONCE \<Rightarrow> lit ''DELIVER_AT_MOST_ONCE''
      | DELIVER_AT_LEAST_ONCE \<Rightarrow> lit ''DELIVER_AT_LEAST_ONCE''
      | _ \<Rightarrow> lit ''DELIVER_EXACTLY_ONCE'')"

section \<open>Writing through an iterator\<close>

text \<open>A \<open>uint8_t**\<close>: null, or a place in a block that moves on.\<close>

type_synonym cursor = "(u8 list \<times> nat) option"

definition byteutil_writeByte :: "cursor \<Rightarrow> u8 \<Rightarrow> cursor cm" where
  "byteutil_writeByte buf v =
     (case buf of
        None \<Rightarrow> ret None
      | Some (b, i) \<Rightarrow> do { b' \<leftarrow> c_store b i v; ret (Some (b', i + 1)) })"

definition byteutil_writeInt :: "cursor \<Rightarrow> u16 \<Rightarrow> cursor cm" where
  "byteutil_writeInt buf v =
     (case buf of
        None \<Rightarrow> ret None
      | Some (b, i) \<Rightarrow> do {
          b1 \<leftarrow> c_store b i (ucast (v div 256));
          b2 \<leftarrow> c_store b1 (i + 1) (ucast (v mod 256));
          ret (Some (b2, i + 2))
        })"

definition byteutil_writeUTF :: "cursor \<Rightarrow> u8 list option \<Rightarrow> u16 \<Rightarrow> cursor cm" where
  "byteutil_writeUTF buf stringData len =
     (case buf of
        None \<Rightarrow> ret None
      | Some _ \<Rightarrow> do {
          c \<leftarrow> byteutil_writeInt buf len;
          (case c of
             None \<Rightarrow> ret None
           | Some (b, i) \<Rightarrow> do {
               b' \<leftarrow> c_memcpy b i (blk stringData) 0 (unat len);
               ret (Some (b', i + unat len))
             })
        })"

text \<open>\<open>packet[k] |= v\<close> through a second pointer into the block the iterator points into.\<close>

definition cursor_or :: "cursor \<Rightarrow> nat \<Rightarrow> u8 \<Rightarrow> cursor cm" where
  "cursor_or buf k v =
     (case buf of
        None \<Rightarrow> ret None
      | Some (b, i) \<Rightarrow> do { x \<leftarrow> c_load b k; b' \<leftarrow> c_store b k (x OR v); ret (Some (b', i)) })"

text \<open>The block the writes went to is the buffer's own.\<close>

definition commit :: "BUFFER option \<Rightarrow> cursor \<Rightarrow> BUFFER option" where
  "commit h c =
     (case (h, c) of (Some x, Some (b, i)) \<Rightarrow> Some (x\<lparr>buffer := Some b\<rparr>) | _ \<Rightarrow> h)"

definition iterator_at :: "BUFFER option \<Rightarrow> nat \<Rightarrow> cursor" where
  "iterator_at h off = Some (blk (BUFFER_u_char h), off)"

text \<open>The second component is what is written to \<open>*flags\<close> when that pointer is not null.\<close>

definition processControlPacketType :: "u8 \<Rightarrow> bool \<Rightarrow> CONTROL_PACKET_TYPE \<times> u8 option" where
  "processControlPacketType pktByte flags = (pktByte AND 0xF0, if flags then Some (pktByte AND 0x0F) else None)"

section \<open>Payloads of SUBSCRIBE and UNSUBSCRIBE\<close>

fun addUnsubscribe_loop ::
  "BUFFER option \<Rightarrow> u8 list list \<Rightarrow> nat \<Rightarrow> nat \<Rightarrow> STRING option \<Rightarrow> (int \<times> BUFFER option \<times> STRING option) cm" where
  "addUnsubscribe_loop ctrlPacket payloadList index 0 trace_log = ret (0, ctrlPacket, trace_log)"
| "addUnsubscribe_loop ctrlPacket payloadList index (Suc n) trace_log = do {
     c_assert (index < length payloadList);
     let topic = (if index < length payloadList then payloadList ! index else []);
     let offsetLen = BUFFER_length ctrlPacket;
     topicLen \<leftarrow> c_strlen topic;
     (r, h) \<leftarrow> (if topicLen > USHRT_MAX then ret (FAILURE, ctrlPacket)
       else do {
         (e, h) \<leftarrow> BUFFER_enlarge ctrlPacket (szt (topicLen + 2));
         if e \<noteq> 0 then ret (FAILURE, h)
         else do {
           c \<leftarrow> byteutil_writeUTF (iterator_at h offsetLen) (Some topic) (of_nat topicLen);
           ret (0, commit h c)
         }
       });
     t \<leftarrow> (if trace_log \<noteq> None then trace_sprintf trace_log (lit '' | TOPIC_NAME: '' @ c_str topic) else ret trace_log);
     if r \<noteq> 0 then ret (r, h, t) else addUnsubscribe_loop h payloadList (Suc index) n t
   }"

definition addListItemsToUnsubscribePacket ::
  "BUFFER option \<Rightarrow> u8 list list option \<Rightarrow> nat \<Rightarrow> STRING option \<Rightarrow> (int \<times> BUFFER option \<times> STRING option) cm" where
  "addListItemsToUnsubscribePacket ctrlPacket payloadList payloadCount trace_log =
     (case payloadList of
        None \<Rightarrow> ret (FAILURE, ctrlPacket, trace_log)
      | Some l \<Rightarrow>
          if ctrlPacket = None then ret (FAILURE, ctrlPacket, trace_log)
          else addUnsubscribe_loop ctrlPacket l 0 payloadCount trace_log)"

fun addSubscribe_loop ::
  "BUFFER option \<Rightarrow> SUBSCRIBE_PAYLOAD list \<Rightarrow> nat \<Rightarrow> nat \<Rightarrow> STRING option \<Rightarrow> (int \<times> BUFFER option \<times> STRING option) cm" where
  "addSubscribe_loop ctrlPacket payloadList index 0 trace_log = ret (0, ctrlPacket, trace_log)"
| "addSubscribe_loop ctrlPacket payloadList index (Suc n) trace_log = do {
     c_assert (index < length payloadList);
     let item = (if index < length payloadList then payloadList ! index
                 else \<lparr>subscribeTopic = [], qosReturn = DELIVER_AT_MOST_ONCE\<rparr>);
     let offsetLen = BUFFER_length ctrlPacket;
     topicLen \<leftarrow> c_strlen (subscribeTopic item);
     if topicLen > USHRT_MAX then ret (FAILURE, ctrlPacket, trace_log)
     else do {
       (e, h) \<leftarrow> BUFFER_enlarge ctrlPacket (szt (topicLen + 2 + 1));
       if e \<noteq> 0 then ret (FAILURE, h, trace_log)
       else do {
         c \<leftarrow> byteutil_writeUTF (iterator_at h offsetLen) (Some (subscribeTopic item)) (of_nat topicLen);
         c' \<leftarrow> byteutil_writeByte c (qos_byte (qosReturn item));
         t \<leftarrow> (if trace_log \<noteq> None
               then trace_sprintf trace_log (lit '' | TOPIC_NAME: '' @ c_str (subscribeTopic item) @ lit '' | QOS: ''
                      @ decimal_text (unat (qos_byte (qosReturn item))))
               else ret trace_log);
         addSubscribe_loop (commit h c') payloadList (Suc index) n t
       }
     }
   }"

definition addListItemsToSubscribePacket ::
  "BUFFER option \<Rightarrow> SUBSCRIBE_PAYLOAD list option \<Rightarrow> nat \<Rightarrow> STRING option \<Rightarrow> (int \<times> BUFFER option \<times> STRING option) cm" where
  "addListItemsToSubscribePacket ctrlPacket payloadList payloadCount trace_log =
     (case payloadList of
        None \<Rightarrow> ret (FAILURE, ctrlPacket, trace_log)
      | Some l \<Rightarrow>
          if ctrlPacket = None then ret (FAILURE, ctrlPacket, trace_log)
          else addSubscribe_loop ctrlPacket l 0 payloadCount trace_log)"

section \<open>Headers\<close>

definition constructConnectVariableHeader ::
  "BUFFER option \<Rightarrow> MQTT_CLIENT_OPTIONS \<Rightarrow> STRING option \<Rightarrow> (int \<times> BUFFER option \<times> STRING option) cm" where
  "constructConnectVariableHeader ctrlPacket mqttOptions trace_log = do {
     (e, h) \<leftarrow> BUFFER_enlarge ctrlPacket CONNECT_VARIABLE_HEADER_SIZE;
     if e \<noteq> 0 then ret (FAILURE, h, trace_log)
     else if BUFFER_u_char h = None then ret (FAILURE, h, trace_log)
     else do {
       t \<leftarrow> (if trace_log \<noteq> None
             then trace_sprintf trace_log (lit '' | VER: '' @ decimal_text 4 @ lit '' | KEEPALIVE: ''
                    @ decimal_text (unat (keepAliveInterval mqttOptions)) @ lit '' | FLAGS:'')
             else ret trace_log);
       c1 \<leftarrow> byteutil_writeUTF (iterator_at h 0) (Some (clit ''MQTT'')) 4;
       c2 \<leftarrow> byteutil_writeByte c1 4;
       c3 \<leftarrow> byteutil_writeByte c2 0;
       c4 \<leftarrow> byteutil_writeInt c3 (keepAliveInterval mqttOptions);
       ret (0, commit h c4, t)
     }
   }"

definition constructPublishVariableHeader ::
  "BUFFER option \<Rightarrow> PUBLISH_HEADER_INFO \<Rightarrow> STRING option \<Rightarrow> (int \<times> BUFFER option \<times> STRING option) cm" where
  "constructPublishVariableHeader ctrlPacket publishHeader trace_log = do {
     let currLen = BUFFER_length ctrlPacket;
     topicLen \<leftarrow> c_strlen (ph_topicName publishHeader);
     let idLen = (if ph_qos publishHeader \<noteq> DELIVER_AT_MOST_ONCE then 2 else 0);
     if topicLen > USHRT_MAX then ret (FAILURE, ctrlPacket, trace_log)
     else do {
       (e, h) \<leftarrow> BUFFER_enlarge ctrlPacket (szt (topicLen + idLen + 2));
       if e \<noteq> 0 then ret (FAILURE, h, trace_log)
       else if BUFFER_u_char h = None then ret (FAILURE, h, trace_log)
       else do {
         c1 \<leftarrow> byteutil_writeUTF (iterator_at h currLen) (Some (ph_topicName publishHeader)) (of_nat topicLen);
         t1 \<leftarrow> (if trace_log \<noteq> None
               then trace_sprintf trace_log (lit '' | TOPIC_NAME: '' @ c_str (ph_topicName publishHeader))
               else ret trace_log);
         if idLen > 0 then do {
           t2 \<leftarrow> (if t1 \<noteq> None
                 then trace_sprintf t1 (lit '' | PACKET_ID: '' @ decimal_text (unat (ph_packetId publishHeader)))
                 else ret t1);
           c2 \<leftarrow> byteutil_writeInt c1 (ph_packetId publishHeader);
           ret (0, commit h c2, t2)
         }
         else ret (0, commit h c1, t1)
       }
     }
   }"

definition constructSubscibeTypeVariableHeader :: "BUFFER option \<Rightarrow> u16 \<Rightarrow> (int \<times> BUFFER option) cm" where
  "constructSubscibeTypeVariableHeader ctrlPacket packetId = do {
     (e, h) \<leftarrow> BUFFER_enlarge ctrlPacket 2;
     if e \<noteq> 0 then ret (FAILURE, h)
     else if BUFFER_u_char h = None then ret (FAILURE, h)
     else do {
       c \<leftarrow> byteutil_writeInt (iterator_at h 0) packetId;
       ret (0, commit h c)
     }
   }"

definition constructPublishReply :: "CONTROL_PACKET_TYPE \<Rightarrow> u8 \<Rightarrow> u16 \<Rightarrow> BUFFER option cm" where
  "constructPublishReply type flags packetId = do {
     result \<leftarrow> BUFFER_new;
     if result \<noteq> None then do {
       (e, h) \<leftarrow> BUFFER_pre_build result 4;
       if e \<noteq> 0 then do { BUFFER_delete h; ret None }
       else if BUFFER_u_char h = None then do { BUFFER_delete h; ret None }
       else do {
         c1 \<leftarrow> byteutil_writeByte (iterator_at h 0) (type OR flags);
         c2 \<leftarrow> byteutil_writeByte c1 0x2;
         c3 \<leftarrow> byteutil_writeInt c2 packetId;
         ret (commit h c3)
       }
     }
     else ret None
   }"

text \<open>The \<open>do\<close> loop that fills \<open>remainSize[4]\<close>; a fifth byte would be written past the array.\<close>

function remainSize_loop :: "nat \<Rightarrow> u8 list \<Rightarrow> nat \<Rightarrow> (u8 list \<times> nat) cm" where
  "remainSize_loop packetLen remainSize index = do {
     r \<leftarrow> c_store remainSize index
           (if packetLen div 128 > 0 then of_nat (packetLen mod 128) OR 0x80 else of_nat (packetLen mod 128));
     if packetLen div 128 > 0 then remainSize_loop (packetLen div 128) r (index + 1) else ret (r, index + 1)
   }"
  by pat_completeness auto
termination
  by (relation "measure (\<lambda>(n, r, i). n)") (auto intro: div_less_dividend)

definition constructFixedHeader :: "BUFFER option \<Rightarrow> CONTROL_PACKET_TYPE \<Rightarrow> u8 \<Rightarrow> (int \<times> BUFFER option) cm" where
  "constructFixedHeader ctrlPacket packetType flags =
     (if ctrlPacket = None then ret (FAILURE, ctrlPacket)
      else do {
        (remainSize, index) \<leftarrow> remainSize_loop (BUFFER_length ctrlPacket) (replicate 4 0) 0;
        fixedHeader \<leftarrow> BUFFER_new;
        if fixedHeader = None then ret (FAILURE, ctrlPacket)
        else do {
          (e, h) \<leftarrow> BUFFER_pre_build fixedHeader (index + 1);
          if e \<noteq> 0 then do { BUFFER_delete h; ret (FAILURE, ctrlPacket) }
          else do {
            b1 \<leftarrow> c_store (blk (BUFFER_u_char h)) 0 (packetType OR flags);
            b2 \<leftarrow> c_memcpy b1 1 remainSize 0 index;
            let h' = commit h (Some (b2, 0));
            (r, c) \<leftarrow> BUFFER_prepend False ctrlPacket h';
            BUFFER_delete h';
            ret (r, c)
          }
        }
      })"

section \<open>CONNECT\<close>

definition opt_strlen :: "u8 list option \<Rightarrow> nat cm" where
  "opt_strlen s = (case s of None \<Rightarrow> ret 0 | Some z \<Rightarrow> c_strlen z)"

definition opt_space :: "'a option \<Rightarrow> nat" where
  "opt_space s = (case s of None \<Rightarrow> 0 | Some _ \<Rightarrow> 2)"

text \<open>The optional fields, with the flags they set in the header.\<close>

definition write_conn_fields ::
  "MQTT_CLIENT_OPTIONS \<Rightarrow> nat \<Rightarrow> nat \<Rightarrow> nat \<Rightarrow> nat \<Rightarrow> cursor \<Rightarrow> STRING option \<Rightarrow> (cursor \<times> STRING option) cm" where
  "write_conn_fields mqttOptions usernameLen passwordLen willMessageLen willTopicLen c1 trace_log = do {
     p0 \<leftarrow> (if trace_log \<noteq> None then STRING_new else ret None);
     (c2, p1) \<leftarrow> (if willMessageLen > 0 \<and> willTopicLen > 0 then do {
         p \<leftarrow> (if trace_log \<noteq> None
               then trace_sprintf p0 (lit '' | WILL_TOPIC: '' @ c_str (blk (willTopic mqttOptions))) else ret p0);
         d1 \<leftarrow> cursor_or c1 CONN_FLAG_BYTE_OFFSET 0x04;
         d2 \<leftarrow> byteutil_writeUTF d1 (willTopic mqttOptions) (of_nat willTopicLen);
         d3 \<leftarrow> cursor_or d2 CONN_FLAG_BYTE_OFFSET (qos_byte (willQos mqttOptions));
         d4 \<leftarrow> (if messageRetain mqttOptions then cursor_or d3 CONN_FLAG_BYTE_OFFSET 0x20 else ret d3);
         d5 \<leftarrow> byteutil_writeUTF d4 (willMessage mqttOptions) (of_nat willMessageLen);
         ret (d5, p)
       } else ret (c1, p0));
     (c3, p2) \<leftarrow> (if usernameLen > 0 then do {
         d1 \<leftarrow> cursor_or c2 CONN_FLAG_BYTE_OFFSET 0x80;
         d2 \<leftarrow> byteutil_writeUTF d1 (username mqttOptions) (of_nat usernameLen);
         p \<leftarrow> (if trace_log \<noteq> None
               then trace_sprintf p1 (lit '' | USERNAME: '' @ c_str (blk (username mqttOptions))) else ret p1);
         ret (d2, p)
       } else ret (c2, p1));
     (c4, p3) \<leftarrow> (if passwordLen > 0 then do {
         d1 \<leftarrow> cursor_or c3 CONN_FLAG_BYTE_OFFSET 0x40;
         d2 \<leftarrow> byteutil_writeUTF d1 (password mqttOptions) (of_nat passwordLen);
         p \<leftarrow> (if trace_log \<noteq> None then trace_sprintf p2 (lit '' | PWD: XXXX'') else ret p2);
         ret (d2, p)
       } else ret (c3, p2));
     p4 \<leftarrow> (if trace_log \<noteq> None
            then trace_sprintf p3 (lit '' | CLEAN: '' @ lit (if useCleanSession mqttOptions then ''1'' else ''0''))
            else ret p3);
     c5 \<leftarrow> (if useCleanSession mqttOptions then cursor_or c4 CONN_FLAG_BYTE_OFFSET 0x02 else ret c4);
     t \<leftarrow> (if trace_log \<noteq> None then do {
         flag \<leftarrow> (case c5 of None \<Rightarrow> ret 0 | Some (b, i) \<Rightarrow> c_load b CONN_FLAG_BYTE_OFFSET);
         t1 \<leftarrow> trace_sprintf trace_log (lit '' '' @ decimal_text (unat flag));
         t2 \<leftarrow> trace_concat t1 p4;
         STRING_delete p4;
         ret t2
       } else ret trace_log);
     ret (c5, t)
   }"

definition constructConnPayload ::
  "BUFFER option \<Rightarrow> MQTT_CLIENT_OPTIONS option \<Rightarrow> STRING option \<Rightarrow> (int \<times> BUFFER option \<times> STRING option) cm" where
  "constructConnPayload ctrlPacket options trace_log =
     (case options of
        None \<Rightarrow> ret (FAILURE, ctrlPacket, trace_log)
      | Some mqttOptions \<Rightarrow>
          if ctrlPacket = None then ret (FAILURE, ctrlPacket, trace_log)
          else do {
            clientLen \<leftarrow> opt_strlen (clientId mqttOptions);
            usernameLen \<leftarrow> opt_strlen (username mqttOptions);
            passwordLen \<leftarrow> opt_strlen (password mqttOptions);
            willMessageLen \<leftarrow> opt_strlen (willMessage mqttOptions);
            willTopicLen \<leftarrow> opt_strlen (willTopic mqttOptions);
            let spaceLen = opt_space (clientId mqttOptions) + opt_space (username mqttOptions)
              + opt_space (password mqttOptions) + opt_space (willMessage mqttOptions) + opt_space (willTopic mqttOptions);
            let currLen = BUFFER_length ctrlPacket;
            let totalLen = szt (clientLen + usernameLen + passwordLen + willMessageLen + willTopicLen + spaceLen);
            if clientLen > USHRT_MAX then ret (FAILURE, ctrlPacket, trace_log)
            else if usernameLen = 0 \<and> passwordLen > 0 then ret (FAILURE, ctrlPacket, trace_log)
            else if willMessageLen > 0 \<and> willTopicLen = 0 \<or> willTopicLen > 0 \<and> willMessageLen = 0
            then ret (FAILURE, ctrlPacket, trace_log)
            else do {
              (e, h) \<leftarrow> BUFFER_enlarge ctrlPacket totalLen;
              if e \<noteq> 0 then ret (FAILURE, h, trace_log)
              else do {
                c1 \<leftarrow> byteutil_writeUTF (iterator_at h currLen) (clientId mqttOptions) (of_nat clientLen);
                if willMessageLen > USHRT_MAX \<or> willTopicLen > USHRT_MAX \<or> usernameLen > USHRT_MAX \<or> passwordLen > USHRT_MAX
                then ret (FAILURE, commit h c1, trace_log)
                else do {
                  (c5, t) \<leftarrow> write_conn_fields mqttOptions usernameLen passwordLen willMessageLen willTopicLen c1 trace_log;
                  ret (0, commit h c5, t)
                }
              }
            }
          })"

definition mqtt_codec_connect :: "MQTT_CLIENT_OPTIONS option \<Rightarrow> STRING option \<Rightarrow> (BUFFER option \<times> STRING option) cm" where
  "mqtt_codec_connect mqttOptions trace_log =
     (case mqttOptions of
        None \<Rightarrow> ret (None, trace_log)
      | Some opts \<Rightarrow> do {
          result \<leftarrow> BUFFER_new;
          if result \<noteq> None then do {
            log0 \<leftarrow> (if trace_log \<noteq> None then STRING_new else ret None);
            (e1, h1, log1) \<leftarrow> constructConnectVariableHeader result opts log0;
            if e1 \<noteq> 0 then do { BUFFER_delete h1; ret (None, trace_log) }
            else do {
              (e2, h2, log2) \<leftarrow> constructConnPayload h1 mqttOptions log1;
              (h4, t) \<leftarrow> (if e2 \<noteq> 0 then do { BUFFER_delete h2; ret (None, trace_log) }
                else do {
                  t1 \<leftarrow> (if trace_log \<noteq> None then trace_copy trace_log ''CONNECT'' else ret trace_log);
                  (e3, h3) \<leftarrow> constructFixedHeader h2 CONNECT_TYPE 0;
                  if e3 \<noteq> 0 then do { BUFFER_delete h3; ret (None, t1) }
                  else do {
                    t2 \<leftarrow> (if t1 \<noteq> None then trace_concat t1 log2 else ret t1);
                    ret (h3, t2)
                  }
                });
              STRING_delete log2;
              ret (h4, t)
            }
          }
          else ret (None, trace_log)
        })"

section \<open>PUBLISH\<close>

definition publish_flags :: "QOS_VALUE \<Rightarrow> bool \<Rightarrow> bool \<Rightarrow> u8" where
  "publish_flags qosValue duplicateMsg serverRetain =
     (if duplicateMsg then 0x8 else 0) OR (if serverRetain then 0x1 else 0) OR
     (if qosValue \<noteq> DELIVER_AT_MOST_ONCE
      then if qosValue = DELIVER_AT_LEAST_ONCE then 0x2 else 0x4 else 0)"

text \<open>Appending the message: the buffer is deleted when that fails.\<close>

definition publish_payload ::
  "BUFFER option \<Rightarrow> u8 list option \<Rightarrow> nat \<Rightarrow> bool \<Rightarrow> STRING option \<Rightarrow> (BUFFER option \<times> STRING option) cm" where
  "publish_payload h1 msgBuffer buffLen tracing log1 =
     (if buffLen > 0 then do {
        let payloadOffset = BUFFER_length h1;
        (e, h) \<leftarrow> BUFFER_enlarge h1 buffLen;
        if e \<noteq> 0 then do { BUFFER_delete h; ret (None, log1) }
        else if BUFFER_u_char h = None then do { BUFFER_delete h; ret (None, log1) }
        else do {
          b \<leftarrow> c_memcpy (blk (BUFFER_u_char h)) payloadOffset (blk msgBuffer) 0 buffLen;
          l \<leftarrow> (if tracing then trace_sprintf log1 (lit '' | PAYLOAD_LEN: '' @ decimal_text buffLen) else ret log1);
          ret (commit h (Some (b, 0)), l)
        }
      }
      else ret (h1, log1))"

definition mqtt_codec_publish ::
  "QOS_VALUE \<Rightarrow> bool \<Rightarrow> bool \<Rightarrow> u16 \<Rightarrow> u8 list option \<Rightarrow> u8 list option \<Rightarrow> nat \<Rightarrow> STRING option \<Rightarrow>
   (BUFFER option \<times> STRING option) cm" where
  "mqtt_codec_publish qosValue duplicateMsg serverRetain packetId topicName msgBuffer buffLen trace_log =
     (case topicName of
        None \<Rightarrow> ret (None, trace_log)
      | Some topic \<Rightarrow>
          if buffLen > MAX_SEND_SIZE then ret (None, trace_log)
          else do {
            result \<leftarrow> BUFFER_new;
            if result \<noteq> None then do {
              let txt = lit '' | IS_DUP: '' @ lit (if duplicateMsg then ''true'' else ''false'') @ lit '' | RETAIN: ''
                @ lit (if serverRetain then ''1'' else ''0'') @ lit '' | QOS: '' @ retrieve_qos_value qosValue;
              log0 \<leftarrow> (if trace_log \<noteq> None then STRING_construct_sprintf True (Some txt) (Some txt) else ret None);
              (e1, h1, log1) \<leftarrow> constructPublishVariableHeader result
                \<lparr>ph_topicName = topic, ph_packetId = packetId, ph_qos = qosValue\<rparr> log0;
              (h4, log2, t) \<leftarrow> (if e1 \<noteq> 0 then do { BUFFER_delete h1; ret (None, log1, trace_log) }
                else do {
                  (h2, log2) \<leftarrow> publish_payload h1 msgBuffer buffLen (trace_log \<noteq> None) log1;
                  if h2 \<noteq> None then do {
                    t1 \<leftarrow> (if trace_log \<noteq> None then trace_copy trace_log ''PUBLISH'' else ret trace_log);
                    (e3, h3) \<leftarrow> constructFixedHeader h2 PUBLISH_TYPE (publish_flags qosValue duplicateMsg serverRetain);
                    if e3 \<noteq> 0 then do { BUFFER_delete h3; ret (None, log2, t1) }
                    else do {
                      t2 \<leftarrow> (if t1 \<noteq> None then trace_concat t1 log2 else ret t1);
                      ret (h3, log2, t2)
                    }
                  }
                  else ret (None, log2, trace_log)
                });
              STRING_delete log2;
              ret (h4, t)
            }
            else ret (None, trace_log)
          })"

definition mqtt_codec_publishAck :: "u16 \<Rightarrow> BUFFER option cm" where
  "mqtt_codec_publishAck packetId = constructPublishReply PUBACK_TYPE 0 packetId"

definition mqtt_codec_publishReceived :: "u16 \<Rightarrow> BUFFER option cm" where
  "mqtt_codec_publishReceived packetId = constructPublishReply PUBREC_TYPE 0 packetId"

definition mqtt_codec_publishRelease :: "u16 \<Rightarrow> BUFFER option cm" where
  "mqtt_codec_publishRelease packetId = constructPublishReply PUBREL_TYPE 2 packetId"

definition mqtt_codec_publishComplete :: "u16 \<Rightarrow> BUFFER option cm" where
  "mqtt_codec_publishComplete packetId = constructPublishReply PUBCOMP_TYPE 0 packetId"

section \<open>Packets of two bytes\<close>

definition two_bytes :: "CONTROL_PACKET_TYPE \<Rightarrow> BUFFER option cm" where
  "two_bytes type = do {
     result \<leftarrow> BUFFER_new;
     if result \<noteq> None then do {
       (e, h) \<leftarrow> BUFFER_enlarge result 2;
       if e \<noteq> 0 then do { BUFFER_delete h; ret None }
       else (case BUFFER_u_char h of
               None \<Rightarrow> do { BUFFER_delete h; ret None }
             | Some b \<Rightarrow> do {
                 b1 \<leftarrow> c_store b 0 type;
                 b2 \<leftarrow> c_store b1 1 0;
                 ret (commit h (Some (b2, 0)))
               })
     }
     else ret None
   }"

definition mqtt_codec_disconnect :: "BUFFER option cm" where
  "mqtt_codec_disconnect = two_bytes DISCONNECT_TYPE"

definition mqtt_codec_ping :: "BUFFER option cm" where
  "mqtt_codec_ping = two_bytes PINGREQ_TYPE"

section \<open>SUBSCRIBE and UNSUBSCRIBE\<close>

definition mqtt_codec_subscribe ::
  "u16 \<Rightarrow> SUBSCRIBE_PAYLOAD list option \<Rightarrow> nat \<Rightarrow> STRING option \<Rightarrow> (BUFFER option \<times> STRING option) cm" where
  "mqtt_codec_subscribe packetId subscribeList count trace_log =
     (if subscribeList = None \<or> count = 0 then ret (None, trace_log)
      else do {
        result \<leftarrow> BUFFER_new;
        if result \<noteq> None then do {
          (e1, h1) \<leftarrow> constructSubscibeTypeVariableHeader result packetId;
          if e1 \<noteq> 0 then do { BUFFER_delete h1; ret (None, trace_log) }
          else do {
            let txt = lit '' | PACKET_ID: '' @ decimal_text (unat packetId);
            log0 \<leftarrow> (if trace_log \<noteq> None then STRING_construct_sprintf True (Some txt) (Some txt) else ret None);
            (e2, h2, log1) \<leftarrow> addListItemsToSubscribePacket h1 subscribeList count log0;
            (h4, t) \<leftarrow> (if e2 \<noteq> 0 then do { BUFFER_delete h2; ret (None, trace_log) }
              else do {
                t1 \<leftarrow> (if trace_log \<noteq> None then do { (r, t) \<leftarrow> STRING_concat trace_log (Some (clit ''SUBSCRIBE'')); ret t }
                       else ret trace_log);
                (e3, h3) \<leftarrow> constructFixedHeader h2 SUBSCRIBE_TYPE 0x2;
                if e3 \<noteq> 0 then do { BUFFER_delete h3; ret (None, t1) }
                else do {
                  t2 \<leftarrow> (if t1 \<noteq> None then trace_concat t1 log1 else ret t1);
                  ret (h3, t2)
                }
              });
            STRING_delete log1;
            ret (h4, t)
          }
        }
        else ret (None, trace_log)
      })"

definition mqtt_codec_unsubscribe ::
  "u16 \<Rightarrow> u8 list list option \<Rightarrow> nat \<Rightarrow> STRING option \<Rightarrow> (BUFFER option \<times> STRING option) cm" where
  "mqtt_codec_unsubscribe packetId unsubscribeList count trace_log =
     (if unsubscribeList = None \<or> count = 0 then ret (None, trace_log)
      else do {
        result \<leftarrow> BUFFER_new;
        if result \<noteq> None then do {
          (e1, h1) \<leftarrow> constructSubscibeTypeVariableHeader result packetId;
          if e1 \<noteq> 0 then do { BUFFER_delete h1; ret (None, trace_log) }
          else do {
            let txt = lit '' | PACKET_ID: '' @ decimal_text (unat packetId);
            log0 \<leftarrow> (if trace_log \<noteq> None then STRING_construct_sprintf True (Some txt) (Some txt) else ret None);
            (e2, h2, log1) \<leftarrow> addListItemsToUnsubscribePacket h1 unsubscribeList count log0;
            (h4, t) \<leftarrow> (if e2 \<noteq> 0 then do { BUFFER_delete h2; ret (None, trace_log) }
              else do {
                t1 \<leftarrow> (if trace_log \<noteq> None then trace_copy trace_log ''UNSUBSCRIBE'' else ret trace_log);
                (e3, h3) \<leftarrow> constructFixedHeader h2 UNSUBSCRIBE_TYPE 0x2;
                if e3 \<noteq> 0 then do { BUFFER_delete h3; ret (None, t1) }
                else do {
                  t2 \<leftarrow> (if t1 \<noteq> None then trace_concat t1 log1 else ret t1);
                  ret (h3, t2)
                }
              });
            STRING_delete log1;
            ret (h4, t)
          }
        }
        else ret (None, trace_log)
      })"

section \<open>The wire format\<close>

text \<open>MQTT 3.1.1: a 16-bit number is sent high byte first, a string with its length in front (section 1.5), the
  remaining length in groups of seven bits, the low one first (section 2.2.3).\<close>

definition be16 :: "u16 \<Rightarrow> u8 list" where
  "be16 v = [ucast (v div 256), ucast (v mod 256)]"

definition utf_field :: "u8 list \<Rightarrow> u8 list" where
  "utf_field s = be16 (of_nat (length s)) @ s"

fun rem_len :: "nat \<Rightarrow> u8 list" where
  "rem_len n = (if n < 128 then [of_nat n] else (of_nat (n mod 128) OR 0x80) # rem_len (n div 128))"

declare rem_len.simps [simp del] remainSize_loop.simps [simp del]

definition mqtt_packet :: "u8 \<Rightarrow> u8 list \<Rightarrow> u8 list" where
  "mqtt_packet hdr body = hdr # rem_len (length body) @ body"

lemma length_be16 [simp]: "length (be16 v) = 2"
  by (simp add: be16_def)

lemma length_utf_field [simp]: "length (utf_field s) = length s + 2"
  by (simp add: utf_field_def)

lemma rem_len_not_Nil [simp]: "rem_len n \<noteq> []"
  by (subst rem_len.simps) simp

lemma length_rem_len: "n < 128 ^ Suc k \<Longrightarrow> length (rem_len n) \<le> Suc k"
proof (induction k arbitrary: n)
  case 0
  then show ?case by (subst rem_len.simps) simp
next
  case (Suc k)
  then have "n div 128 < 128 ^ Suc k" by (simp add: less_mult_imp_div_less mult.commute)
  from Suc.IH [OF this] show ?case by (subst rem_len.simps) simp
qed

section \<open>Weakest preconditions\<close>

lemma is_Some: "(Some x = None) = False" "(Some x \<noteq> None) = True"
  by simp_all

definition empty_buf :: BUFFER where
  "empty_buf = \<lparr>buffer = None, bsize = 0\<rparr>"

lemma empty_buf_simps [simp]:
  "buffer empty_buf = None" "bsize empty_buf = 0" "buf_bytes empty_buf = []" "buf_wf empty_buf"
  by (simp_all add: empty_buf_def buf_bytes_def buf_wf_def SIZE_MOD_def)

lemma u_char_mkbuf [simp]:
  "iterator_at (Some (mkbuf bs)) i = Some (bs, i)" "BUFFER_u_char (Some (mkbuf bs)) = (if bs = [] then None else Some bs)"
  by (auto simp: iterator_at_def BUFFER_u_char_def)

lemma BUFFER_length_simps [simp]: "BUFFER_length (Some b) = bsize b"
  by (simp add: BUFFER_length_def)

lemma commit_mkbuf [simp]: "length b = length bs \<Longrightarrow> commit (Some (mkbuf bs)) (Some (b, i)) = Some (mkbuf b)"
  by (simp add: commit_def mkbuf_def)

lemma wp_writeByte [simp]:
  "i < length b \<Longrightarrow> wp (byteutil_writeByte (Some (b, i)) v) Q w = Q (Some (put b i [v], i + 1)) w"
  by (simp add: byteutil_writeByte_def list_update_eq_put)

lemma wp_writeInt [simp]:
  "i + 2 \<le> length b \<Longrightarrow> wp (byteutil_writeInt (Some (b, i)) v) Q w = Q (Some (put b i (be16 v), i + 2)) w"
  using put_put_adjacent [of i "[ucast (v div 256)]" "[ucast (v mod 256)]" b]
  by (simp add: byteutil_writeInt_def be16_def list_update_eq_put)

lemma wp_writeUTF [simp]:
  assumes "unat len \<le> length (blk s)" "i + 2 + unat len \<le> length b"
  shows "wp (byteutil_writeUTF (Some (b, i)) s len) Q w =
    Q (Some (put b i (be16 len @ take (unat len) (blk s)), i + 2 + unat len)) w"
  using assms put_put_adjacent [of i "be16 len" "take (unat len) (blk s)" b]
  by (simp add: byteutil_writeUTF_def)

text \<open>A string that fits a 16-bit length.\<close>

lemma wp_writeUTF_cstr:
  assumes "length (c_str z) \<le> USHRT_MAX" "i + 2 + length (c_str z) \<le> length b"
  shows "wp (byteutil_writeUTF (Some (b, i)) (Some z) (of_nat (length (c_str z)))) Q w =
    Q (Some (put b i (utf_field (c_str z)), i + 2 + length (c_str z))) w"
proof -
  have "unat (of_nat (length (c_str z)) :: u16) = length (c_str z)"
    using assms(1) by (simp add: unsigned_of_nat take_bit_nat_eq_self USHRT_MAX_def)
  then show ?thesis using assms(2) length_c_str_le [of z] by (simp add: utf_field_def)
qed

lemma wp_remainSize_loop:
  "i + length (rem_len n) \<le> length r \<Longrightarrow>
   wp (remainSize_loop n r i) Q w = Q (put r i (rem_len n), i + length (rem_len n)) w"
proof (induction n r i arbitrary: rule: remainSize_loop.induct)
  case (1 n r i)
  show ?case
  proof (cases "n < 128")
    case True
    then show ?thesis using 1(2)
      by (simp add: remainSize_loop.simps [of n] rem_len.simps [of n] list_update_eq_put)
  next
    case False
    have step: "rem_len n = (of_nat (n mod 128) OR 0x80) # rem_len (n div 128)" using False by (subst rem_len.simps) simp
    have pos: "0 < n div 128" using False by (simp add: div_greater_zero_iff)
    have "wp (remainSize_loop (n div 128) (r[i := of_nat (n mod 128) OR 0x80]) (i + 1)) Q w =
      Q (put (r[i := of_nat (n mod 128) OR 0x80]) (i + 1) (rem_len (n div 128)), i + 1 + length (rem_len (n div 128))) w"
      using 1(2) pos by (intro 1(1)) (simp_all add: step)
    then show ?thesis using 1(2) pos by (simp add: remainSize_loop.simps [of n] step list_update_put)
  qed
qed

lemma wp_delete_then:
  "wp (BUFFER_delete h \<bind> (\<lambda>_. m)) Q = (\<lambda>w. wp m Q (w\<lparr>live := live w - buf_blocks h\<rparr>))"
  by (rule ext) simp

lemma wp_constructFixedHeader:
  assumes "buf_wf b" "buffer b \<noteq> None" "bsize b < 128 ^ 4"
    and failed: "\<And>w'. \<not> plenty 3 w \<Longrightarrow> used 3 w w' \<Longrightarrow> live w' = live w \<Longrightarrow> faults w' = faults w \<Longrightarrow> Q (FAILURE, Some b) w'"
    and built: "\<And>w'. used 3 w w' \<Longrightarrow> live w' = live w \<Longrightarrow> faults w' = faults w \<Longrightarrow>
      Q (0, Some (mkbuf (mqtt_packet (type OR flags) (buf_bytes b)))) w'"
  shows "wp (constructFixedHeader (Some b) type flags) Q w"
proof -
  let ?r = "rem_len (bsize b)"
  have len: "length ?r \<le> 4" using length_rem_len [of "bsize b" 3] assms(3) by simp
  have loop: "wp (remainSize_loop (bsize b) (replicate 4 0) 0) Q' w' = Q' (?r @ drop (length ?r) (replicate 4 0), length ?r) w'" for Q' w'
    using wp_remainSize_loop [of 0 "bsize b" "replicate 4 0"] len by (simp add: put_0)
  have hdr: "put (put ys 0 [type OR flags]) 1 ?r = (type OR flags) # ?r" if "length ys = length ?r + 1" for ys
    using that put_put_adjacent [of 0 "[type OR flags]" ?r ys] by simp
  have small: "bsize b + (length ?r + 1) < SIZE_MOD" using assms(3) len by (simp add: SIZE_MOD_def)
  show ?thesis
    unfolding constructFixedHeader_def is_Some if_False wp_bind BUFFER_length_simps loop prod.case
  proof (rule wp_BUFFER_new, goal_cases)
    case (1 w1)
    then show ?case using failed [of w1] not_plenty_next [of w 3] by (simp add: used_tl)
  next
    case (2 w1)
    show ?case
      unfolding is_Some if_False wp_bind
    proof (rule wp_BUFFER_pre_build, goal_cases)
      case (3 w2)
      have "used 3 w (w2\<lparr>live := live w\<rparr>)"
        using 2 3 by (intro used_drop [where c = 2]) (simp_all add: drop_Suc numeral_2_eq_2)
      then show ?case using 2 3 failed [of "w2\<lparr>live := live w\<rparr>"] not_plenty_drop [of w1 1 w 3] by (simp add: drop_Suc)
    next
      case (4 ys w2)
      then have y: "length ys = length ?r + 1" "blk (BUFFER_u_char (Some (mkbuf ys))) = ys" by auto
      have w2: "avail w2 = drop 2 (avail w)" "live w2 = live w + 2" "faults w2 = faults w"
        using 2 4 by (simp_all add: drop_Suc numeral_2_eq_2)
      have done3: "used 3 w w3" if "avail w3 = tl (avail w2)" for w3
        using that w2(1) by (intro used_drop [where c = 3]) (simp_all add: drop_Suc numeral_2_eq_2 numeral_3_eq_3)
      have "wp (BUFFER_prepend False (Some b) (Some (mkbuf ((type OR flags) # ?r)))) (\<lambda>(r, c) w'. Q (r, c) (w'\<lparr>live := live w' - 2\<rparr>)) w2"
      proof (rule wp_BUFFER_prepend, goal_cases)
        case (7 w3)
        then show ?case using failed [of "w3\<lparr>live := live w\<rparr>"] not_plenty_drop [of w2 2 w 3] w2 done3 [of "w3\<lparr>live := live w\<rparr>"] by simp
      next
        case (8 w3)
        then show ?case using built [of "w3\<lparr>live := live w\<rparr>"] w2 done3 [of "w3\<lparr>live := live w\<rparr>"] assms(1)
          by (simp add: mqtt_packet_def)
      qed (use assms small in auto)
      moreover have "take (length ?r) (?r @ drop (length ?r) (replicate 4 0)) = ?r" by simp
      ultimately show ?case
        using y hdr [OF y(1)] by (simp add: list_update_eq_put split_def Let_def wp_delete_then)
    qed simp_all
  qed
qed

definition publish_id :: "QOS_VALUE \<Rightarrow> u16 \<Rightarrow> u8 list" where
  "publish_id q k = (if q = DELIVER_AT_MOST_ONCE then [] else be16 k)"

lemma wp_constructPublishVariableHeader:
  assumes z: "is_cstr z"
    and long: "length (c_str z) > USHRT_MAX \<Longrightarrow> Q (FAILURE, Some empty_buf, None) w"
    and failed: "\<And>w'. next_alloc w = None \<Longrightarrow> avail w' = tl (avail w) \<Longrightarrow> live w' = live w \<Longrightarrow> faults w' = faults w \<Longrightarrow>
      Q (FAILURE, Some empty_buf, None) w'"
    and built: "\<And>w'. length (c_str z) \<le> USHRT_MAX \<Longrightarrow> avail w' = tl (avail w) \<Longrightarrow> live w' = live w + 1 \<Longrightarrow> faults w' = faults w \<Longrightarrow>
      Q (0, Some (mkbuf (utf_field (c_str z) @ publish_id q k)), None) w'"
  shows "wp (constructPublishVariableHeader (Some empty_buf) \<lparr>ph_topicName = z, ph_packetId = k, ph_qos = q\<rparr> None) Q w"
proof (cases "length (c_str z) > USHRT_MAX")
  case True
  then show ?thesis using z long by (simp add: constructPublishVariableHeader_def)
next
  case False
  define n where "n = length (c_str z) + length (publish_id q k) + 2"
  have n: "n < SIZE_MOD" "n \<noteq> 0" "szt (length (c_str z) + (if q \<noteq> DELIVER_AT_MOST_ONCE then 2 else 0) + 2) = n"
    using False by (simp_all add: n_def publish_id_def USHRT_MAX_def SIZE_MOD_def)
  have "wp (BUFFER_enlarge (Some empty_buf) n) Q' w" if
    "\<And>w'. next_alloc w = None \<Longrightarrow> avail w' = tl (avail w) \<Longrightarrow> live w' = live w \<Longrightarrow> faults w' = faults w \<Longrightarrow> Q' (FAILURE, Some empty_buf) w'"
    "\<And>ys w'. length ys = n \<Longrightarrow> avail w' = tl (avail w) \<Longrightarrow> live w' = live w + 1 \<Longrightarrow> faults w' = faults w \<Longrightarrow> Q' (0, Some (mkbuf ys)) w'" for Q'
    by (rule wp_BUFFER_enlarge) (use n that in auto)
  note enl = this
  have put2: "put (put ys 0 (utf_field (c_str z))) (length (c_str z) + 2) (be16 k) = utf_field (c_str z) @ be16 k"
    if "length ys = n" "q \<noteq> DELIVER_AT_MOST_ONCE" for ys
    using that put_put_adjacent [of 0 "utf_field (c_str z)" "be16 k" ys] by (simp add: n_def publish_id_def add.commute)
  have put1: "put ys 0 (utf_field (c_str z)) = utf_field (c_str z)" if "length ys = n" "q = DELIVER_AT_MOST_ONCE" for ys
    using that by (simp add: n_def publish_id_def)
  show ?thesis
    unfolding constructPublishVariableHeader_def Let_def PUBLISH_HEADER_INFO.simps wp_bind wp_strlen [OF z]
      if_not_P [OF False] BUFFER_length_simps n(3)
  proof (rule enl, goal_cases)
    case (1 w')
    then show ?case using failed by simp
  next
    case (2 ys w')
    then have "ys \<noteq> []" "length (c_str z) \<le> USHRT_MAX" "length (c_str z) + 2 \<le> length ys" using n(2) False by (auto simp: n_def)
    with 2 show ?case using built [of w'] put1 [of ys] put2 [of ys]
      by (cases "q = DELIVER_AT_MOST_ONCE") (simp_all add: wp_writeUTF_cstr n_def publish_id_def)
  qed
qed

definition publish_packet :: "QOS_VALUE \<Rightarrow> bool \<Rightarrow> bool \<Rightarrow> u16 \<Rightarrow> u8 list \<Rightarrow> u8 list \<Rightarrow> u8 list" where
  "publish_packet q dup retain k topic payload =
     mqtt_packet (PUBLISH_TYPE OR publish_flags q dup retain) (utf_field topic @ publish_id q k @ payload)"

lemma is_None: "(None \<noteq> None) = False"
  by simp

lemmas known_conds = is_Some is_None not_False_eq_True not_True_eq_False if_True if_False

text \<open>Every builder starts from a new buffer and gives it up when a later step fails.\<close>

lemma wp_new_empty:
  assumes "\<And>w'. next_alloc w = None \<Longrightarrow> used 1 w w' \<Longrightarrow> live w' = live w \<Longrightarrow> faults w' = faults w \<Longrightarrow> Q None w'"
    and "\<And>w'. used 1 w w' \<Longrightarrow> live w' = live w + 1 \<Longrightarrow> faults w' = faults w \<Longrightarrow> Q (Some empty_buf) w'"
  shows "wp BUFFER_new Q w"
  by (rule wp_BUFFER_new) (use assms in \<open>simp_all add: used_tl empty_buf_def\<close>)

lemma wp_fixed_header_or_delete:
  assumes "buf_wf b" "buffer b \<noteq> None" "bsize b < 128 ^ 4"
    and "\<And>w'. \<not> plenty 3 w \<Longrightarrow> live w' = live w - 2 \<Longrightarrow> faults w' = faults w \<Longrightarrow> wp (m None) Q w'"
    and "\<And>w'. live w' = live w \<Longrightarrow> faults w' = faults w \<Longrightarrow> wp (m (Some (mkbuf (mqtt_packet (type OR flags) (buf_bytes b))))) Q w'"
  shows "wp (constructFixedHeader (Some b) type flags)
    (\<lambda>(e, h). wp (if e \<noteq> 0 then BUFFER_delete h \<bind> (\<lambda>_. m None) else m h) Q) w"
  by (rule wp_constructFixedHeader [OF assms(1-3)]) (use assms in \<open>simp_all\<close>)

lemma wp_publish_payload:
  assumes n: "n \<le> length (blk msg)" "length x + n < SIZE_MOD"
    and failed: "\<And>w'. \<not> plenty 1 w \<Longrightarrow> live w' = live w - 2 \<Longrightarrow> faults w' = faults w \<Longrightarrow> Q (None, None) w'"
    and built: "\<And>w'. used 1 w w' \<Longrightarrow> live w' = live w \<Longrightarrow> faults w' = faults w \<Longrightarrow> Q (Some (mkbuf (x @ take n (blk msg))), None) w'"
  shows "wp (publish_payload (Some (mkbuf x)) msg n False None) Q w"
proof (cases "n = 0")
  case True
  then show ?thesis using built [of w] by (simp add: publish_payload_def)
next
  case False
  then have pos: "0 < n" by simp
  show ?thesis
    unfolding publish_payload_def if_P [OF pos] Let_def wp_bind
  proof (rule wp_BUFFER_enlarge, goal_cases)
    case (4 w')
    then show ?case using failed not_plenty_next [of w 1] by simp
  next
    case (5 ys w')
    then have "ys \<noteq> []" "put (x @ ys) (length x) (take n (blk msg)) = x @ take n (blk msg)" using pos n by auto
    with 5 n show ?case using built [of w'] used_tl [of w' w 1] by simp
  qed (use n pos in simp_all)
qed

lemma wp_mqtt_codec_publish:
  assumes z: "is_cstr z" and n: "n \<le> length (blk msg)" "length (c_str z) + n + 4 < 128 ^ 4"
    and failed: "\<And>w'. length (c_str z) > USHRT_MAX \<or> \<not> plenty 6 w \<Longrightarrow> live w' = live w \<Longrightarrow> faults w' = faults w \<Longrightarrow> Q (None, None) w'"
    and built: "\<And>w'. length (c_str z) \<le> USHRT_MAX \<Longrightarrow> live w' = live w + 2 \<Longrightarrow> faults w' = faults w \<Longrightarrow>
      Q (Some (mkbuf (publish_packet q dup retain k (c_str z) (take n (blk msg)))), None) w'"
  shows "wp (mqtt_codec_publish q dup retain k (Some z) msg n None) Q w"
proof -
  have size: "\<not> n > MAX_SEND_SIZE" using n(2) by (simp add: MAX_SEND_SIZE_def)
  let ?x = "utf_field (c_str z) @ publish_id q k"
  have len: "length ?x + n < 128 ^ 4" using n by (simp add: publish_id_def)
  show ?thesis
    unfolding mqtt_codec_publish_def option.case if_not_P [OF size] wp_bind
  proof (rule wp_new_empty, goal_cases)
    case (1 w1)
    then show ?case using failed not_plenty_next [of w 6] by simp
  next
    case (2 w1)
    note w1 = 2
    show ?case
      unfolding known_conds Let_def wp_bind wp_ret
    proof (rule wp_constructPublishVariableHeader [OF z], goal_cases)
      case 1
      then show ?case using w1 failed by simp
    next
      case (2 w2)
      then show ?case using w1 failed not_plenty_next [of w1 5] used_starved [of 1 w w1 5 6] by simp
    next
      case (3 w2)
      have w2: "used 2 w w2" "live w2 = live w + 2" "faults w2 = faults w"
        using used_trans [OF w1(1) used_tl [OF 3(2), of 1]] 3 w1 by simp_all
      show ?case
      proof (simp, rule wp_publish_payload [OF n(1)], goal_cases)
        case (2 w3)
        then show ?case using failed [of "w3\<lparr>live := live w\<rparr>"] w2 used_starved [OF w2(1), of 1 6] by simp
      next
        case (3 w3)
        have u: "used 3 w w3" using used_trans [OF w2(1) 3(1)] by simp
        show ?case
        proof (simp, rule wp_constructFixedHeader, goal_cases)
          case (4 w4)
          then show ?case using 3 w2 failed [of "w4\<lparr>live := live w\<rparr>"] used_starved [OF u, of 3 6] by simp
        next
          case (5 w4)
          then show ?case using 3 w2 \<open>length (c_str z) \<le> USHRT_MAX\<close> built [of "w4\<lparr>live := live w + 2\<rparr>"] by (simp add: publish_packet_def)
        qed (use len in \<open>simp_all add: SIZE_MOD_def\<close>)
      qed (use len in \<open>simp add: SIZE_MOD_def\<close>)
    qed
  qed
qed

lemma rem_len_small: "n < 128 \<Longrightarrow> rem_len n = [of_nat n]"
  by (subst rem_len.simps) simp

lemma wp_constructPublishReply:
  assumes failed: "\<And>w'. \<not> plenty 2 w \<Longrightarrow> live w' = live w \<Longrightarrow> faults w' = faults w \<Longrightarrow> used 2 w w' \<Longrightarrow> Q None w'"
    and built: "\<And>w'. live w' = live w + 2 \<Longrightarrow> faults w' = faults w \<Longrightarrow> used 2 w w' \<Longrightarrow> Q (Some (mkbuf (mqtt_packet (type OR flags) (be16 k)))) w'"
  shows "wp (constructPublishReply type flags k) Q w"
  unfolding constructPublishReply_def wp_bind
proof (rule wp_new_empty, goal_cases)
  case (1 w1)
  then show ?case using failed not_plenty_next [of w 2] by (simp add: used_more)
next
  case (2 w1)
  note w1 = 2
  show ?case
    unfolding known_conds wp_bind
  proof (rule wp_BUFFER_pre_build, goal_cases)
    case (3 w2)
    then have "used 2 w w2" using used_trans [OF w1(1) used_tl [of w2 w1 1]] by simp
    with 3 show ?case using w1 failed not_plenty_next [of w1 1] used_starved [OF w1(1), of 1 2] by simp
  next
    case (4 ys w2)
    have u: "used 2 w w2" using 4 used_trans [OF w1(1) used_tl [of w2 w1 1]] by simp
    from 4 have ys: "ys \<noteq> []" "4 \<le> length ys" "length ys = 4" by auto
    have "put (put (put ys 0 [type OR flags]) 1 [2]) 2 (be16 k) = mqtt_packet (type OR flags) (be16 k)"
      using put_put_adjacent [of 0 "[type OR flags]" "[2]" ys] put_put_adjacent [of 0 "[type OR flags, 2]" "be16 k" ys] ys
      by (simp add: mqtt_packet_def rem_len_small numeral_2_eq_2)
    moreover have "length (mqtt_packet (type OR flags) (be16 k)) = 4" by (simp add: mqtt_packet_def rem_len_small)
    ultimately show ?case using 4 w1 ys u built [of w2] by (simp add: numeral_2_eq_2)
  qed simp_all
qed

lemma wp_two_bytes:
  assumes failed: "\<And>w'. \<not> plenty 2 w \<Longrightarrow> live w' = live w \<Longrightarrow> faults w' = faults w \<Longrightarrow> used 2 w w' \<Longrightarrow> Q None w'"
    and built: "\<And>w'. live w' = live w + 2 \<Longrightarrow> faults w' = faults w \<Longrightarrow> used 2 w w' \<Longrightarrow> Q (Some (mkbuf (mqtt_packet type []))) w'"
  shows "wp (two_bytes type) Q w"
  unfolding two_bytes_def wp_bind
proof (rule wp_new_empty, goal_cases)
  case (1 w1)
  then show ?case using failed not_plenty_next [of w 2] by (simp add: used_more)
next
  case (2 w1)
  note w1 = 2
  show ?case
    unfolding known_conds wp_bind
  proof (rule wp_BUFFER_enlarge, goal_cases)
    case (4 w2)
    then have "used 2 w w2" using used_trans [OF w1(1) used_tl [of w2 w1 1]] by simp
    with 4 show ?case using w1 failed not_plenty_next [of w1 1] used_starved [OF w1(1), of 1 2] by simp
  next
    case (5 ys w2)
    have u: "used 2 w w2" using 5 used_trans [OF w1(1) used_tl [of w2 w1 1]] by simp
    from 5 obtain a b where ys: "ys = [a, b]" by (auto elim: length_2E)
    then show ?case using 5 w1 u built [of w2] by (simp add: mqtt_packet_def rem_len_small)
  qed (simp_all add: SIZE_MOD_def)
qed

definition sub_item :: "SUBSCRIBE_PAYLOAD \<Rightarrow> u8 list" where
  "sub_item i = utf_field (c_str (subscribeTopic i)) @ [qos_byte (qosReturn i)]"

definition unsub_item :: "u8 list \<Rightarrow> u8 list" where
  "unsub_item z = utf_field (c_str z)"

lemma length_items [simp]:
  "length (sub_item p) = length (c_str (subscribeTopic p)) + 3" "length (unsub_item z) = length (c_str z) + 2"
  by (simp_all add: sub_item_def unsub_item_def)

text \<open>Growing the packet by one field.\<close>

lemma wp_enlarge_packet:
  assumes "n \<noteq> 0" "length x + n < SIZE_MOD"
    and "\<And>w'. next_alloc w = None \<Longrightarrow> live w' = live w \<Longrightarrow> faults w' = faults w \<Longrightarrow> Q (FAILURE, Some (mkbuf x)) w'"
    and "\<And>ys w'. length ys = n \<Longrightarrow> next_alloc w \<noteq> None \<Longrightarrow> avail w' = tl (avail w) \<Longrightarrow> live w' = live w \<Longrightarrow> faults w' = faults w \<Longrightarrow>
      Q (0, Some (mkbuf (x @ ys))) w'"
  shows "wp (BUFFER_enlarge (Some (mkbuf x)) n) Q w"
  by (rule wp_BUFFER_enlarge) (use assms in auto)

lemma wp_addSubscribe_loop:
  assumes "i + n \<le> length l" "\<forall>p \<in> set l. is_cstr (subscribeTopic p)"
    "length x + length (concat (map sub_item (take n (drop i l)))) < SIZE_MOD"
    and failed: "\<And>y w'. (\<exists>p \<in> set l. length (c_str (subscribeTopic p)) > USHRT_MAX) \<or> \<not> plenty n w \<Longrightarrow> live w' = live w \<Longrightarrow>
      faults w' = faults w \<Longrightarrow> Q (FAILURE, Some (mkbuf y), None) w'"
    and built: "\<And>w'. \<forall>p \<in> set (take n (drop i l)). length (c_str (subscribeTopic p)) \<le> USHRT_MAX \<Longrightarrow> used n w w' \<Longrightarrow> live w' = live w \<Longrightarrow>
      faults w' = faults w \<Longrightarrow> Q (0, Some (mkbuf (x @ concat (map sub_item (take n (drop i l))))), None) w'"
  shows "wp (addSubscribe_loop (Some (mkbuf x)) l i n None) Q w"
  using assms
proof (induction n arbitrary: i x w)
  case (Suc n)
  define p where "p = l ! i"
  have i: "i < length l" "p \<in> set l" and d: "take (Suc n) (drop i l) = p # take n (drop (Suc i) l)"
    using Suc.prems(1) by (simp_all add: p_def flip: Cons_nth_drop_Suc)
  have z: "is_cstr (subscribeTopic p)" using Suc.prems(2) i by simp
  let ?t = "c_str (subscribeTopic p)"
  show ?case
  proof (cases "length ?t > USHRT_MAX")
    case True
    then have "\<exists>p \<in> set l. length (c_str (subscribeTopic p)) > USHRT_MAX" using i by blast
    then show ?thesis using True Suc.prems(4) [of w x] i z by (simp add: Let_def p_def)
  next
    case False
    then have m: "szt (length ?t + 2 + 1) = length ?t + 3" by (simp add: USHRT_MAX_def SIZE_MOD_def)
    have i': "(if i < length l then l ! i else \<lparr>subscribeTopic = [], qosReturn = DELIVER_AT_MOST_ONCE\<rparr>) = p"
      using i by (simp add: p_def)
    show ?thesis
      unfolding addSubscribe_loop.simps wp_bind wp_assert [OF i(1)] Let_def i' wp_strlen [OF z] if_not_P [OF False] m
    proof (rule wp_enlarge_packet, goal_cases)
      case (3 w')
      then show ?case using Suc.prems(4) [of w' x] not_plenty_next [of w "Suc n"] by simp
    next
      case (4 ys w')
      have puts: "put (put (x @ ys) (length x) (utf_field ?t)) (length x + 2 + length ?t) [qos_byte (qosReturn p)] = x @ sub_item p"
        using 4(1) put_put_adjacent [of "length x" "utf_field ?t" "[qos_byte (qosReturn p)]" "x @ ys"]
        by (simp add: sub_item_def add.commute add.left_commute)
      have "wp (addSubscribe_loop (Some (mkbuf (x @ sub_item p))) l (Suc i) n None) Q w'"
      proof (rule Suc.IH, goal_cases)
        case (4 w'' y)
        then show ?case using Suc.prems(4) [of w'' y] \<open>live w' = _\<close> \<open>faults w' = _\<close> not_plenty_tl [OF \<open>avail w' = _\<close>, of "Suc n"] by auto
      next
        case (5 w'')
        have "used (Suc n) w w''" using used_trans [OF used_tl [OF \<open>avail w' = _\<close>, of 1] 5(2)] by simp
        then show ?case using Suc.prems(5) [of w''] False 5 \<open>live w' = _\<close> \<open>faults w' = _\<close> by (simp add: d)
      qed (use Suc.prems d in \<open>simp_all add: sub_item_def\<close>)
      then show ?case
        using 4(1) False puts by (simp add: wp_writeUTF_cstr not_less ac_simps)
    qed (use Suc.prems(3) in \<open>simp_all add: d sub_item_def\<close>)
  qed
qed simp

lemma wp_addUnsubscribe_loop:
  assumes "i + n \<le> length l" "\<forall>p \<in> set l. is_cstr p"
    "length x + length (concat (map unsub_item (take n (drop i l)))) < SIZE_MOD"
    and failed: "\<And>y w'. (\<exists>p \<in> set l. length (c_str p) > USHRT_MAX) \<or> \<not> plenty n w \<Longrightarrow> live w' = live w \<Longrightarrow>
      faults w' = faults w \<Longrightarrow> Q (FAILURE, Some (mkbuf y), None) w'"
    and built: "\<And>w'. \<forall>p \<in> set (take n (drop i l)). length (c_str p) \<le> USHRT_MAX \<Longrightarrow> used n w w' \<Longrightarrow> live w' = live w \<Longrightarrow>
      faults w' = faults w \<Longrightarrow> Q (0, Some (mkbuf (x @ concat (map unsub_item (take n (drop i l))))), None) w'"
  shows "wp (addUnsubscribe_loop (Some (mkbuf x)) l i n None) Q w"
  using assms
proof (induction n arbitrary: i x w)
  case (Suc n)
  define p where "p = l ! i"
  have i: "i < length l" "p \<in> set l" and d: "take (Suc n) (drop i l) = p # take n (drop (Suc i) l)"
    using Suc.prems(1) by (simp_all add: p_def flip: Cons_nth_drop_Suc)
  have z: "is_cstr p" using Suc.prems(2) i by simp
  let ?t = "c_str p"
  show ?case
  proof (cases "length ?t > USHRT_MAX")
    case True
    then have "\<exists>p \<in> set l. length (c_str p) > USHRT_MAX" using i by blast
    then show ?thesis using True Suc.prems(4) [of w x] i z by (simp add: Let_def p_def)
  next
    case False
    then have m: "szt (length ?t + 2) = length ?t + 2" by (simp add: USHRT_MAX_def SIZE_MOD_def)
    have i': "(if i < length l then l ! i else []) = p"
      using i by (simp add: p_def)
    show ?thesis
      unfolding addUnsubscribe_loop.simps wp_bind wp_assert [OF i(1)] Let_def i' wp_strlen [OF z] if_not_P [OF False] m
    proof (rule wp_enlarge_packet, goal_cases)
      case (3 w')
      then show ?case using Suc.prems(4) [of w' x] not_plenty_next [of w "Suc n"] by simp
    next
      case (4 ys w')
      have puts: "put (x @ ys) (length x) (utf_field ?t) = x @ unsub_item p" using 4(1) by (simp add: unsub_item_def)
      have "wp (addUnsubscribe_loop (Some (mkbuf (x @ unsub_item p))) l (Suc i) n None) Q w'"
      proof (rule Suc.IH, goal_cases)
        case (4 w'' y)
        then show ?case using Suc.prems(4) [of w'' y] \<open>live w' = _\<close> \<open>faults w' = _\<close> not_plenty_tl [OF \<open>avail w' = _\<close>, of "Suc n"] by auto
      next
        case (5 w'')
        have "used (Suc n) w w''" using used_trans [OF used_tl [OF \<open>avail w' = _\<close>, of 1] 5(2)] by simp
        then show ?case using Suc.prems(5) [of w''] False 5 \<open>live w' = _\<close> \<open>faults w' = _\<close> by (simp add: d)
      qed (use Suc.prems d in \<open>simp_all add: unsub_item_def\<close>)
      then show ?case
        using 4(1) False puts by (simp add: wp_writeUTF_cstr not_less ac_simps)
    qed (use Suc.prems(3) in \<open>simp_all add: d unsub_item_def\<close>)
  qed
qed simp

lemma wp_constructSubscibeTypeVariableHeader:
  assumes "\<And>w'. next_alloc w = None \<Longrightarrow> live w' = live w \<Longrightarrow> faults w' = faults w \<Longrightarrow> Q (FAILURE, Some empty_buf) w'"
    and "\<And>w'. avail w' = tl (avail w) \<Longrightarrow> live w' = live w + 1 \<Longrightarrow> faults w' = faults w \<Longrightarrow> Q (0, Some (mkbuf (be16 k))) w'"
  shows "wp (constructSubscibeTypeVariableHeader (Some empty_buf) k) Q w"
  unfolding constructSubscibeTypeVariableHeader_def wp_bind
proof (rule wp_BUFFER_enlarge, goal_cases)
  case (5 ys w')
  then have "ys \<noteq> []" "put ys 0 (be16 k) = be16 k" by auto
  with 5 show ?case using assms(2) [of w'] by simp
qed (use assms(1) in \<open>simp_all add: SIZE_MOD_def\<close>)

lemma wp_mqtt_codec_subscribe:
  assumes l: "l \<noteq> []" "\<forall>p \<in> set l. is_cstr (subscribeTopic p)" and n: "length (concat (map sub_item l)) + 2 < 128 ^ 4"
    and failed: "\<And>w'. (\<exists>p \<in> set l. length (c_str (subscribeTopic p)) > USHRT_MAX) \<or> \<not> plenty (length l + 5) w \<Longrightarrow>
      live w' = live w \<Longrightarrow> faults w' = faults w \<Longrightarrow> Q (None, None) w'"
    and built: "\<And>w'. \<forall>p \<in> set l. length (c_str (subscribeTopic p)) \<le> USHRT_MAX \<Longrightarrow> live w' = live w + 2 \<Longrightarrow> faults w' = faults w \<Longrightarrow>
      Q (Some (mkbuf (mqtt_packet (SUBSCRIBE_TYPE OR 2) (be16 k @ concat (map sub_item l)))), None) w'"
  shows "wp (mqtt_codec_subscribe k (Some l) (length l) None) Q w"
proof -
  have c: "\<not> (Some l = None \<or> length l = 0)" using l by simp
  show ?thesis
    unfolding mqtt_codec_subscribe_def if_not_P [OF c] wp_bind
  proof (rule wp_new_empty, goal_cases)
    case (1 w1)
    then show ?case using failed not_plenty_next [of w "length l + 5"] by simp
  next
    case (2 w1)
    note w1 = 2
    show ?case
      unfolding known_conds wp_bind
    proof (rule wp_constructSubscibeTypeVariableHeader, goal_cases)
      case (1 w2)
      then show ?case using w1 failed not_plenty_next [of w1 1] used_starved [OF w1(1), of 1 "length l + 5"] by simp
    next
      case (2 w2)
      have w2: "used 2 w w2" "live w2 = live w + 2" "faults w2 = faults w"
        using used_trans [OF w1(1) used_tl [OF 2(1), of 1]] 2 w1 by simp_all
      show ?case
        unfolding addListItemsToSubscribePacket_def
      proof (simp, rule wp_addSubscribe_loop, goal_cases)
        case (4 y w3)
        then show ?case using w2 failed [of "w3\<lparr>live := live w\<rparr>"] used_starved [OF w2(1), of "length l" "length l + 5"] by auto
      next
        case (5 w3)
        note w3 = 5
        have u: "used (length l + 2) w w3" using used_trans [OF w2(1) 5(2)] by simp
        show ?case
        proof (simp, rule wp_constructFixedHeader, goal_cases)
          case (4 w4)
          then show ?case using 5 w2 failed [of "w4\<lparr>live := live w\<rparr>"] used_starved [OF u, of 3 "length l + 5"] by simp
        next
          case (5 w4)
          then show ?case using w3 w2 built [of "w4\<lparr>live := live w + 2\<rparr>"] by simp
        qed (use n in \<open>simp_all add: SIZE_MOD_def\<close>)
      qed (use l n in \<open>simp_all add: SIZE_MOD_def\<close>)
    qed
  qed
qed

lemma wp_mqtt_codec_unsubscribe:
  assumes l: "l \<noteq> []" "\<forall>p \<in> set l. is_cstr p" and n: "length (concat (map unsub_item l)) + 2 < 128 ^ 4"
    and failed: "\<And>w'. (\<exists>p \<in> set l. length (c_str p) > USHRT_MAX) \<or> \<not> plenty (length l + 5) w \<Longrightarrow>
      live w' = live w \<Longrightarrow> faults w' = faults w \<Longrightarrow> Q (None, None) w'"
    and built: "\<And>w'. \<forall>p \<in> set l. length (c_str p) \<le> USHRT_MAX \<Longrightarrow> live w' = live w + 2 \<Longrightarrow> faults w' = faults w \<Longrightarrow>
      Q (Some (mkbuf (mqtt_packet (UNSUBSCRIBE_TYPE OR 2) (be16 k @ concat (map unsub_item l)))), None) w'"
  shows "wp (mqtt_codec_unsubscribe k (Some l) (length l) None) Q w"
proof -
  have c: "\<not> (Some l = None \<or> length l = 0)" using l by simp
  show ?thesis
    unfolding mqtt_codec_unsubscribe_def if_not_P [OF c] wp_bind
  proof (rule wp_new_empty, goal_cases)
    case (1 w1)
    then show ?case using failed not_plenty_next [of w "length l + 5"] by simp
  next
    case (2 w1)
    note w1 = 2
    show ?case
      unfolding known_conds wp_bind
    proof (rule wp_constructSubscibeTypeVariableHeader, goal_cases)
      case (1 w2)
      then show ?case using w1 failed not_plenty_next [of w1 1] used_starved [OF w1(1), of 1 "length l + 5"] by simp
    next
      case (2 w2)
      have w2: "used 2 w w2" "live w2 = live w + 2" "faults w2 = faults w"
        using used_trans [OF w1(1) used_tl [OF 2(1), of 1]] 2 w1 by simp_all
      show ?case
        unfolding addListItemsToUnsubscribePacket_def
      proof (simp, rule wp_addUnsubscribe_loop, goal_cases)
        case (4 y w3)
        then show ?case using w2 failed [of "w3\<lparr>live := live w\<rparr>"] used_starved [OF w2(1), of "length l" "length l + 5"] by auto
      next
        case (5 w3)
        note w3 = 5
        have u: "used (length l + 2) w w3" using used_trans [OF w2(1) 5(2)] by simp
        show ?case
        proof (simp, rule wp_constructFixedHeader, goal_cases)
          case (4 w4)
          then show ?case using 5 w2 failed [of "w4\<lparr>live := live w\<rparr>"] used_starved [OF u, of 3 "length l + 5"] by simp
        next
          case (5 w4)
          then show ?case using w3 w2 built [of "w4\<lparr>live := live w + 2\<rparr>"] by simp
        qed (use n in \<open>simp_all add: SIZE_MOD_def\<close>)
      qed (use l n in \<open>simp_all add: SIZE_MOD_def\<close>)
    qed
  qed
qed

section \<open>The CONNECT packet\<close>

definition opt_text :: "u8 list option \<Rightarrow> u8 list" where
  "opt_text s = (case s of None \<Rightarrow> [] | Some z \<Rightarrow> c_str z)"

definition opt_field :: "u8 list option \<Rightarrow> u8 list" where
  "opt_field s = (case s of None \<Rightarrow> [] | Some z \<Rightarrow> utf_field (c_str z))"

definition conn_header :: "u8 \<Rightarrow> u16 \<Rightarrow> u8 list" where
  "conn_header flags keepAlive = [0, 4, 77, 81, 84, 84, 4, flags] @ be16 keepAlive"

text \<open>The connect flags of MQTT 3.1.1 (section 3.1.2.3), given the bits that carry the quality of service of the will. The protocol
  has it in bits 3 and 4, mask 0x18; \<open>constructConnPayload\<close> puts it into bits 0 and 1, of which bit 0 is reserved and bit 1
  is the clean session flag.\<close>

definition flags_with :: "u8 \<Rightarrow> MQTT_CLIENT_OPTIONS \<Rightarrow> u8" where
  "flags_with will_qos c =
     (if willTopic c \<noteq> None then 0x04 OR will_qos OR (if messageRetain c then 0x20 else 0) else 0) OR
     (if username c \<noteq> None then 0x80 else 0) OR (if password c \<noteq> None then 0x40 else 0) OR
     (if useCleanSession c then 0x02 else 0)"

definition conn_flags :: "MQTT_CLIENT_OPTIONS \<Rightarrow> u8" where
  "conn_flags c = flags_with (push_bit 3 (qos_byte (willQos c))) c"

definition written_flags :: "MQTT_CLIENT_OPTIONS \<Rightarrow> u8" where
  "written_flags c = flags_with (qos_byte (willQos c)) c"

text \<open>Options for which the two agree: no will, or one of quality of service 0.\<close>

definition will_plain :: "MQTT_CLIENT_OPTIONS \<Rightarrow> bool" where
  "will_plain c \<longleftrightarrow> willTopic c = None \<or> willQos c = DELIVER_AT_MOST_ONCE"

lemma written_flags_plain: "will_plain c \<Longrightarrow> written_flags c = conn_flags c"
  by (auto simp: will_plain_def written_flags_def conn_flags_def flags_with_def)

text \<open>They differ for every other will of a quality of service of the protocol.\<close>

lemma written_flags_wrong:
  "\<not> will_plain c \<Longrightarrow> willQos c \<noteq> DELIVER_FAILURE \<Longrightarrow> written_flags c \<noteq> conn_flags c"
  by (cases "willQos c"; cases "messageRetain c"; cases "username c"; cases "password c"; cases "useCleanSession c")
    (simp_all add: will_plain_def written_flags_def conn_flags_def flags_with_def)

definition conn_fields :: "MQTT_CLIENT_OPTIONS \<Rightarrow> u8 list" where
  "conn_fields c = opt_field (clientId c) @ opt_field (willTopic c) @ opt_field (willMessage c) @ opt_field (username c)
     @ opt_field (password c)"

text \<open>Strings for the options; only the client identifier may be empty.\<close>

definition conn_args_ok :: "MQTT_CLIENT_OPTIONS \<Rightarrow> bool" where
  "conn_args_ok c \<longleftrightarrow> clientId c \<noteq> None \<and> is_cstr (the (clientId c)) \<and>
     list_all (\<lambda>s. case s of None \<Rightarrow> True | Some z \<Rightarrow> is_cstr z \<and> c_str z \<noteq> []) [username c, password c, willMessage c, willTopic c]"

definition conn_accepted :: "MQTT_CLIENT_OPTIONS \<Rightarrow> bool" where
  "conn_accepted c \<longleftrightarrow> (password c \<noteq> None \<longrightarrow> username c \<noteq> None) \<and> (willTopic c \<noteq> None \<longleftrightarrow> willMessage c \<noteq> None) \<and>
     list_all (\<lambda>s. length (opt_text s) \<le> USHRT_MAX) [clientId c, username c, password c, willMessage c, willTopic c]"

lemma opt_simps [simp]:
  "opt_text None = []" "opt_text (Some z) = c_str z" "opt_field None = []" "opt_field (Some z) = utf_field (c_str z)"
  "opt_space None = 0" "opt_space (Some x) = 2"
  by (simp_all add: opt_text_def opt_field_def opt_space_def)

lemma wp_opt_strlen [simp]:
  "(\<And>z. s = Some z \<Longrightarrow> is_cstr z) \<Longrightarrow> wp (opt_strlen s) Q w = Q (length (opt_text s)) w"
  by (cases s) (simp_all add: opt_strlen_def)

lemma length_conn_header [simp]: "length (conn_header f k) = 10"
  by (simp add: conn_header_def)

definition conn_cursor :: "u8 \<Rightarrow> u16 \<Rightarrow> u8 list \<Rightarrow> u8 list \<Rightarrow> cursor" where
  "conn_cursor f k d t = Some (conn_header f k @ d @ t, 10 + length d)"

lemma wp_conn_or [simp]:
  "wp (cursor_or (conn_cursor f k d t) CONN_FLAG_BYTE_OFFSET v) Q w = Q (conn_cursor (f OR v) k d t) w"
  by (simp add: cursor_or_def conn_cursor_def conn_header_def CONN_FLAG_BYTE_OFFSET_def)

lemma wp_conn_write [simp]:
  assumes "length (c_str z) \<le> USHRT_MAX" "length (c_str z) + 2 \<le> length t"
  shows "wp (byteutil_writeUTF (conn_cursor f k d t) (Some z) (of_nat (length (c_str z)))) Q w =
    Q (conn_cursor f k (d @ utf_field (c_str z)) (drop (length (c_str z) + 2) t)) w"
proof -
  have "put (conn_header f k @ d @ t) (10 + length d) (utf_field (c_str z)) =
    (conn_header f k @ d) @ put t 0 (utf_field (c_str z))"
    using put_append [of "conn_header f k @ d" "10 + length d" t] by simp
  then show ?thesis using assms
    by (simp add: conn_cursor_def wp_writeUTF_cstr put_0 add.commute add.left_commute)
qed

lemma Suc_numerals:
  "Suc (Suc (Suc (Suc (Suc (Suc 0))))) = 6" "Suc (Suc (Suc (Suc (Suc (Suc (Suc 0)))))) = 7"
  "Suc (Suc (Suc (Suc (Suc (Suc (Suc (Suc 0))))))) = 8"
  by simp_all

lemma wp_constructConnectVariableHeader:
  assumes "\<And>w'. next_alloc w = None \<Longrightarrow> live w' = live w \<Longrightarrow> faults w' = faults w \<Longrightarrow> Q (FAILURE, Some empty_buf, None) w'"
    and "\<And>w'. avail w' = tl (avail w) \<Longrightarrow> live w' = live w + 1 \<Longrightarrow> faults w' = faults w \<Longrightarrow>
      Q (0, Some (mkbuf (conn_header 0 (keepAliveInterval c))), None) w'"
  shows "wp (constructConnectVariableHeader (Some empty_buf) c None) Q w"
  unfolding constructConnectVariableHeader_def wp_bind
proof (rule wp_BUFFER_enlarge, goal_cases)
  case (5 ys w')
  let ?k = "keepAliveInterval c"
  have lit: "c_str (clit ''MQTT'') = [77, 81, 84, 84]" "of_nat (length (c_str (clit ''MQTT''))) = (4 :: u16)"
    "utf_field [77, 81, 84, 84] = [0, 4, 77, 81, 84, 84]" by code_simp+
  have ys: "ys \<noteq> []" "length ys = 10" using 5(1) by (auto simp: CONNECT_VARIABLE_HEADER_SIZE_def)
  have utf: "wp (byteutil_writeUTF (Some (ys, 0)) (Some (clit ''MQTT'')) 4) R w'' = R (Some (put ys 0 [0, 4, 77, 81, 84, 84], 6)) w''" for R w''
    using wp_writeUTF_cstr [of "clit ''MQTT''" 0 ys R w''] ys lit by (simp add: USHRT_MAX_def Suc_numerals)
  have puts: "put (put (put (put ys 0 [0, 4, 77, 81, 84, 84]) 6 [4]) 7 [0]) 8 (be16 ?k) = conn_header 0 ?k"
    using ys put_put_adjacent [of 0 "[0, 4, 77, 81, 84, 84]" "[4]" ys] put_put_adjacent [of 0 "[0, 4, 77, 81, 84, 84, 4]" "[0]" ys]
      put_put_adjacent [of 0 "[0, 4, 77, 81, 84, 84, 4, 0]" "be16 ?k" ys] by (simp add: conn_header_def Suc_numerals)
  show ?case using assms(2) [of w'] 5 ys utf puts by simp
qed (use assms(1) in \<open>simp_all add: SIZE_MOD_def CONNECT_VARIABLE_HEADER_SIZE_def\<close>)

lemma commit_conn:
  "length d + length t = n \<Longrightarrow> length ys = n \<Longrightarrow>
   commit (Some (mkbuf (conn_header f k @ ys))) (conn_cursor f' k d t) = Some (mkbuf (conn_header f' k @ d @ t))"
  by (simp add: conn_cursor_def)

lemma iterator_conn: "iterator_at (Some (mkbuf (conn_header f k @ ys))) 10 = conn_cursor f k [] ys"
  by (simp add: conn_cursor_def)

lemma wp_write_conn_fields:
  assumes args: "conn_args_ok c" and acc: "conn_accepted c"
    and t: "length t = length (opt_field (willTopic c) @ opt_field (willMessage c) @ opt_field (username c) @ opt_field (password c))"
  shows "wp (write_conn_fields c (length (opt_text (username c))) (length (opt_text (password c))) (length (opt_text (willMessage c)))
      (length (opt_text (willTopic c))) (conn_cursor 0 k d t) None) Q w =
    Q (conn_cursor (written_flags c) k
        (d @ opt_field (willTopic c) @ opt_field (willMessage c) @ opt_field (username c) @ opt_field (password c)) [], None) w"
proof -
  have cs: "\<And>z. username c = Some z \<Longrightarrow> c_str z \<noteq> []" "\<And>z. password c = Some z \<Longrightarrow> c_str z \<noteq> []"
    "\<And>z. willMessage c = Some z \<Longrightarrow> c_str z \<noteq> []" "\<And>z. willTopic c = Some z \<Longrightarrow> c_str z \<noteq> []"
    using args by (simp_all add: conn_args_ok_def)
  show ?thesis
    using cs acc t
    by (cases "willTopic c"; cases "willMessage c"; cases "username c"; cases "password c"; cases "useCleanSession c"; cases "messageRetain c")
      (simp_all add: write_conn_fields_def conn_accepted_def written_flags_def flags_with_def or.assoc)
qed

lemma wp_rejected:
  "A \<or> B \<or> C \<Longrightarrow> Q x w \<Longrightarrow> wp (if A then ret x else if B then ret x else if C then ret x else m) Q w"
  by auto

lemma wp_constructConnPayload:
  assumes args: "conn_args_ok c" and n: "length (conn_fields c) + 10 < SIZE_MOD"
    and failed: "\<And>h w'. \<not> conn_accepted c \<or> \<not> plenty 1 w \<Longrightarrow> live w' = live w \<Longrightarrow> faults w' = faults w \<Longrightarrow> buffer h \<noteq> None \<Longrightarrow>
      Q (FAILURE, Some h, None) w'"
    and built: "\<And>w'. conn_accepted c \<Longrightarrow> used 1 w w' \<Longrightarrow> live w' = live w \<Longrightarrow> faults w' = faults w \<Longrightarrow>
      Q (0, Some (mkbuf (conn_header (written_flags c) k @ conn_fields c)), None) w'"
  shows "wp (constructConnPayload (Some (mkbuf (conn_header 0 k))) (Some c) None) Q w"
proof -
  obtain z where z: "clientId c = Some z" "is_cstr z" using args by (auto simp: conn_args_ok_def)
  have cs: "\<And>z. username c = Some z \<Longrightarrow> is_cstr z \<and> c_str z \<noteq> []" "\<And>z. password c = Some z \<Longrightarrow> is_cstr z \<and> c_str z \<noteq> []"
    "\<And>z. willMessage c = Some z \<Longrightarrow> is_cstr z \<and> c_str z \<noteq> []" "\<And>z. willTopic c = Some z \<Longrightarrow> is_cstr z \<and> c_str z \<noteq> []"
    using args by (simp_all add: conn_args_ok_def)
  have len: "length (opt_field s) = length (opt_text s) + opt_space s" for s by (cases s) simp_all
  let ?n = "length (conn_fields c)"
  have total: "szt (length (opt_text (clientId c)) + length (opt_text (username c)) + length (opt_text (password c))
      + length (opt_text (willMessage c)) + length (opt_text (willTopic c)) + (opt_space (clientId c) + opt_space (username c)
      + opt_space (password c) + opt_space (willMessage c) + opt_space (willTopic c))) = ?n"
    using n by (simp add: conn_fields_def len ac_simps)
  have lens: "wp (opt_strlen s) R w' = R (length (opt_text s)) w'"
    if "s \<in> {clientId c, username c, password c, willMessage c, willTopic c}" for s R w'
    by (rule wp_opt_strlen) (use that z cs in auto)
  note lens = lens [of "clientId c", simplified] lens [of "username c", simplified] lens [of "password c", simplified]
    lens [of "willMessage c", simplified] lens [of "willTopic c", simplified]
  have empty: "length (opt_text (username c)) = 0 \<longleftrightarrow> username c = None" "length (opt_text (password c)) = 0 \<longleftrightarrow> password c = None"
    "length (opt_text (willMessage c)) = 0 \<longleftrightarrow> willMessage c = None" "length (opt_text (willTopic c)) = 0 \<longleftrightarrow> willTopic c = None"
    using cs by (auto simp: opt_text_def split: option.splits)
  have rej: "Q (FAILURE, Some (mkbuf (conn_header 0 k)), None) w" if "\<not> conn_accepted c" using that failed by simp
  have start: "BUFFER_length (Some (mkbuf (conn_header 0 k))) = 10" by simp
  note unfolded = constructConnPayload_def option.case known_conds wp_bind Let_def lens total start
  let ?A = "length (opt_text (clientId c)) > USHRT_MAX"
    and ?B = "length (opt_text (username c)) = 0 \<and> length (opt_text (password c)) > 0"
    and ?C = "length (opt_text (willMessage c)) > 0 \<and> length (opt_text (willTopic c)) = 0 \<or>
      length (opt_text (willTopic c)) > 0 \<and> length (opt_text (willMessage c)) = 0"
    and ?D = "length (opt_text (willMessage c)) > USHRT_MAX \<or> length (opt_text (willTopic c)) > USHRT_MAX \<or>
      length (opt_text (username c)) > USHRT_MAX \<or> length (opt_text (password c)) > USHRT_MAX"
  have acc: "conn_accepted c \<longleftrightarrow> \<not> ?A \<and> \<not> ?B \<and> \<not> ?C \<and> \<not> ?D"
    unfolding conn_accepted_def neq0_conv [symmetric] empty by auto
  show ?thesis
  proof (cases "?A \<or> ?B \<or> ?C")
    case True
    then have "\<not> conn_accepted c" using acc by blast
    then have "Q (FAILURE, Some (mkbuf (conn_header 0 k)), None) w" by (rule rej)
    then show ?thesis unfolding unfolded by (rule wp_rejected [OF True])
  next
    case False
    then have no: "\<not> ?A" "\<not> ?B" "\<not> ?C" by blast+
    show ?thesis
      unfolding unfolded if_not_P [OF no(1)] if_not_P [OF no(2)] if_not_P [OF no(3)]
    proof (rule wp_enlarge_packet, goal_cases)
      case (3 w')
      then show ?case using failed [of w' "mkbuf (conn_header 0 k)"] not_plenty_next [of w 1] by simp
    next
      case (4 ys w')
      have ys: "length ys = length (c_str z) + 2 + length (opt_field (willTopic c) @ opt_field (willMessage c) @ opt_field (username c) @ opt_field (password c))"
        using 4(1) by (simp add: conn_fields_def z)
      have first: "wp (byteutil_writeUTF (iterator_at (Some (mkbuf (conn_header 0 k @ ys))) 10) (clientId c)
          (of_nat (length (opt_text (clientId c))))) R w' = R (conn_cursor 0 k (utf_field (c_str z)) (drop (length (c_str z) + 2) ys)) w'" for R
        using no(1) ys by (simp only: iterator_conn z opt_simps, subst wp_conn_write) simp_all
      show ?case
      proof (cases ?D)
        case True
        then show ?thesis using 4 acc first failed [of w'] ys
          by (simp add: commit_conn [where n = "length ys"])
      next
        case False
        then have "conn_accepted c" using acc no by blast
        then show ?thesis
          using 4 first ys False built [of w'] used_tl [of w' w 1]
            wp_write_conn_fields [OF args \<open>conn_accepted c\<close>, of "drop (length (c_str z) + 2) ys" k "utf_field (c_str z)"]
          by (simp add: commit_conn [where n = "length ys"] conn_fields_def z)
      qed
    qed (use n z in \<open>simp_all add: conn_fields_def\<close>)
  qed
qed

lemma conn_fields_bound:
  assumes "conn_accepted c"
  shows "length (conn_fields c) \<le> 5 * (USHRT_MAX + 2)"
proof -
  have "length (opt_field s) \<le> length (opt_text s) + 2" for s by (cases s) simp_all
  note this [of "clientId c"] this [of "willTopic c"] this [of "willMessage c"] this [of "username c"] this [of "password c"]
  with assms show ?thesis by (simp add: conn_accepted_def conn_fields_def)
qed

definition connect_bytes :: "u8 \<Rightarrow> MQTT_CLIENT_OPTIONS \<Rightarrow> u8 list" where
  "connect_bytes flags c = mqtt_packet CONNECT_TYPE (conn_header flags (keepAliveInterval c) @ conn_fields c)"

definition connect_packet :: "MQTT_CLIENT_OPTIONS \<Rightarrow> u8 list" where
  "connect_packet c = connect_bytes (conn_flags c) c"

lemma connect_bytes_inject: "connect_bytes f c = connect_bytes g c \<longleftrightarrow> f = g"
  by (simp add: connect_bytes_def mqtt_packet_def conn_header_def)

lemma wp_mqtt_codec_connect:
  assumes args: "conn_args_ok c" and n: "length (conn_fields c) + 10 < SIZE_MOD"
    and failed: "\<And>w'. \<not> conn_accepted c \<or> \<not> plenty 6 w \<Longrightarrow> live w' = live w \<Longrightarrow> faults w' = faults w \<Longrightarrow> Q (None, None) w'"
    and built: "\<And>w'. conn_accepted c \<Longrightarrow> live w' = live w + 2 \<Longrightarrow> faults w' = faults w \<Longrightarrow> Q (Some (mkbuf (connect_bytes (written_flags c) c)), None) w'"
  shows "wp (mqtt_codec_connect (Some c) None) Q w"
  unfolding mqtt_codec_connect_def option.case wp_bind
proof (rule wp_new_empty, goal_cases)
  case (1 w1)
  then show ?case using failed not_plenty_next [of w 6] by simp
next
  case (2 w1)
  note w1 = 2
  show ?case
    unfolding known_conds wp_bind wp_ret
  proof (rule wp_constructConnectVariableHeader, goal_cases)
    case (1 w2)
    then show ?case using w1 failed not_plenty_next [of w1 1] used_starved [OF w1(1), of 1 6] by simp
  next
    case (2 w2)
    have w2: "used 2 w w2" "live w2 = live w + 2" "faults w2 = faults w"
      using used_trans [OF w1(1) used_tl [OF 2(1), of 1]] 2 w1 by simp_all
    show ?case
    proof (simp, rule wp_constructConnPayload [OF args n], goal_cases)
      case (1 h w3)
      then show ?case using w2 failed [of "w3\<lparr>live := live w\<rparr>"] used_starved [OF w2(1), of 1 6] by auto
    next
      case (2 w3)
      note w3 = 2
      have u: "used 3 w w3" using used_trans [OF w2(1) w3(2)] by simp
      show ?case
      proof (simp, rule wp_constructFixedHeader, goal_cases)
        case (4 w4)
        then show ?case using w3 w2 failed [of "w4\<lparr>live := live w\<rparr>"] used_starved [OF u, of 3 6] by simp
      next
        case (5 w4)
        then show ?case using w3 w2 built [of "w4\<lparr>live := live w + 2\<rparr>"] by (simp add: connect_bytes_def)
      qed (use conn_fields_bound [OF w3(1)] in \<open>simp_all add: SIZE_MOD_def USHRT_MAX_def\<close>)
    qed
  qed
qed

section \<open>Properties\<close>

text \<open>C9. \<open>mqtt_codec_publish\<close> builds exactly the MQTT 3.1.1 PUBLISH packet (fixed header with its flags and
  remaining length, topic, packet identifier unless the quality of service is 0, message), or returns
  \<open>NULL\<close> when the topic is longer than 65535 or memory runs out; nothing leaks and no access leaves a
  block, for every pattern of allocation failures.\<close>

theorem mqtt_codec_publish_layout:
  assumes "is_cstr z" "n \<le> length (blk msg)" "length (c_str z) + n + 4 < 128 ^ 4"
  shows "wp (mqtt_codec_publish q dup retain k (Some z) msg n None) (\<lambda>(h, t) w'. t = None \<and> faults w' = faults w \<and>
    live w' = live w + buf_blocks h \<and>
    (case h of None \<Rightarrow> length (c_str z) > USHRT_MAX \<or> \<not> plenty 6 w
     | Some b \<Rightarrow> length (c_str z) \<le> USHRT_MAX \<and> buf_bytes b = publish_packet q dup retain k (c_str z) (take n (blk msg)))) w"
  by (rule wp_mqtt_codec_publish [OF assms]) auto

theorem mqtt_codec_publish_layout_witness:
  "wp (mqtt_codec_publish DELIVER_AT_LEAST_ONCE False True 258 (Some [97, 98, 0]) (Some [1, 2, 3]) 3 None)
    (\<lambda>(h, t) w'. faults w' = 0 \<and> live w' = buf_blocks h \<and> map_option buf_bytes h = Some [0x33, 9, 0, 2, 97, 98, 1, 2, 1, 2, 3])
    \<lparr>avail = replicate 6 (Some (\<lambda>_. 0)), live = 0, faults = 0\<rparr>"
proof (rule wp_mono [OF mqtt_codec_publish_layout], goal_cases)
  case (4 r w')
  have "publish_packet DELIVER_AT_LEAST_ONCE False True 258 [97, 98] [1, 2, 3] = [0x33, 9, 0, 2, 97, 98, 1, 2, 1, 2, 3]" by code_simp
  with 4 show ?case
    by (auto simp: plenty_eval list_all_iff c_str_def USHRT_MAX_def split: option.splits)
qed (simp_all add: is_cstr_def c_str_def)

text \<open>C10. \<open>mqtt_codec_connect\<close> builds the CONNECT packet of the options - protocol name and level, the connect flags,
  the keep-alive time and the fields that are present, in the order the protocol prescribes - when there is no will or the will has
  quality of service 0. For a will of quality of service 1 or 2 it does not: the packet is the same but for the flag byte, which has the
  quality of service in bits 0 and 1 where the protocol has it in bits 3 and 4. It refuses a password without a user name, a will topic
  without a will message or the reverse, and strings longer than 65535; it leaks nothing and stays within its blocks. The options have
  a client identifier, and their other strings are not empty.\<close>

theorem mqtt_codec_connect_layout:
  assumes "conn_args_ok c" "length (conn_fields c) + 10 < SIZE_MOD"
  shows "wp (mqtt_codec_connect (Some c) None) (\<lambda>(h, t) w'. t = None \<and> faults w' = faults w \<and> live w' = live w + buf_blocks h \<and>
    (case h of None \<Rightarrow> \<not> conn_accepted c \<or> \<not> plenty 6 w
     | Some b \<Rightarrow> conn_accepted c \<and> buf_bytes b = connect_bytes (written_flags c) c \<and>
         (will_plain c \<longrightarrow> buf_bytes b = connect_packet c) \<and>
         (\<not> will_plain c \<and> willQos c \<noteq> DELIVER_FAILURE \<longrightarrow> buf_bytes b \<noteq> connect_packet c))) w"
  by (rule wp_mqtt_codec_connect [OF assms])
    (auto simp: connect_packet_def connect_bytes_inject written_flags_plain dest: written_flags_wrong)

theorem mqtt_codec_connect_layout_witness:
  "let c = \<lparr>clientId = Some [97, 0], willTopic = None, willMessage = None, username = Some [98, 0], password = Some [99, 0],
      keepAliveInterval = 240, messageRetain = False, useCleanSession = True, willQos = DELIVER_AT_MOST_ONCE, log_trace = False\<rparr>
   in wp (mqtt_codec_connect (Some c) None)
     (\<lambda>(h, t) w'. faults w' = 0 \<and> live w' = buf_blocks h \<and> map_option buf_bytes h =
        Some [0x10, 19, 0, 4, 77, 81, 84, 84, 4, 0xC2, 0, 240, 0, 1, 97, 0, 1, 98, 0, 1, 99])
     \<lparr>avail = replicate 6 (Some (\<lambda>_. 0)), live = 0, faults = 0\<rparr>"
  unfolding Let_def
proof (rule wp_mono [OF mqtt_codec_connect_layout], goal_cases)
  let ?c = "\<lparr>clientId = Some [97, 0], willTopic = None, willMessage = None, username = Some [98, 0], password = Some [99, 0],
      keepAliveInterval = 240, messageRetain = False, useCleanSession = True, willQos = DELIVER_AT_MOST_ONCE, log_trace = False\<rparr>"
  case (3 r w')
  have "connect_packet ?c = [0x10, 19, 0, 4, 77, 81, 84, 84, 4, 0xC2, 0, 240, 0, 1, 97, 0, 1, 98, 0, 1, 99]" by code_simp
  moreover have "conn_accepted ?c" "will_plain ?c" by (simp_all add: conn_accepted_def will_plain_def USHRT_MAX_def c_str_def)
  ultimately show ?case using 3 by (auto simp: plenty_eval list_all_iff split: option.splits)
qed (simp_all add: conn_args_ok_def conn_fields_def is_cstr_def c_str_def SIZE_MOD_def)

text \<open>\<open>mqtt_codec_subscribe\<close> builds the SUBSCRIBE packet: packet identifier, then each topic with its requested quality
  of service, in the order of the list; \<open>NULL\<close> only for a topic longer than 65535 or when memory runs out.\<close>

lemma mqtt_codec_subscribe_layout:
  assumes "l \<noteq> []" "\<forall>p \<in> set l. is_cstr (subscribeTopic p)" "length (concat (map sub_item l)) + 2 < 128 ^ 4"
  shows "wp (mqtt_codec_subscribe k (Some l) (length l) None) (\<lambda>(h, t) w'. t = None \<and> faults w' = faults w \<and>
    live w' = live w + buf_blocks h \<and>
    (case h of None \<Rightarrow> (\<exists>p \<in> set l. length (c_str (subscribeTopic p)) > USHRT_MAX) \<or> \<not> plenty (length l + 5) w
     | Some b \<Rightarrow> buf_bytes b = mqtt_packet (SUBSCRIBE_TYPE OR 2) (be16 k @ concat (map sub_item l)))) w"
  by (rule wp_mqtt_codec_subscribe [OF assms]) auto

text \<open>\<open>mqtt_codec_unsubscribe\<close> builds the UNSUBSCRIBE packet: packet identifier, then the topics in the order of
  the list; \<open>NULL\<close> only for a topic longer than 65535 or when memory runs out.\<close>

lemma mqtt_codec_unsubscribe_layout:
  assumes "l \<noteq> []" "\<forall>p \<in> set l. is_cstr p" "length (concat (map unsub_item l)) + 2 < 128 ^ 4"
  shows "wp (mqtt_codec_unsubscribe k (Some l) (length l) None) (\<lambda>(h, t) w'. t = None \<and> faults w' = faults w \<and>
    live w' = live w + buf_blocks h \<and>
    (case h of None \<Rightarrow> (\<exists>p \<in> set l. length (c_str p) > USHRT_MAX) \<or> \<not> plenty (length l + 5) w
     | Some b \<Rightarrow> buf_bytes b = mqtt_packet (UNSUBSCRIBE_TYPE OR 2) (be16 k @ concat (map unsub_item l)))) w"
  by (rule wp_mqtt_codec_unsubscribe [OF assms]) auto

text \<open>With tracing on, a CONNECT whose first growth of the buffer fails returns \<open>NULL\<close> and leaves the two blocks of
  the trace string allocated: the string is deleted only on the other paths.\<close>

lemma mqtt_codec_connect_trace_leak:
  assumes "avail w = [Some a, Some b, Some c, None]"
  shows "wp (mqtt_codec_connect (Some opts) (Some t)) (\<lambda>(h, t') w'. h = None \<and> t' = Some t \<and> live w' = live w + 2) w"
  unfolding mqtt_codec_connect_def option.case wp_bind
proof (rule wp_BUFFER_new, goal_cases)
  case (2 w1)
  note w1 = 2
  show ?case
    unfolding known_conds wp_bind
  proof (rule wp_STRING_new, goal_cases)
    case (2 w2)
    note w2 = 2
    show ?case
      unfolding constructConnectVariableHeader_def wp_bind
    proof (rule wp_BUFFER_enlarge, goal_cases)
      case (4 w3)
      then show ?case using w1 w2 by simp
    qed (use assms w1 w2 in \<open>simp_all add: next_alloc_def buf_wf_def CONNECT_VARIABLE_HEADER_SIZE_def SIZE_MOD_def\<close>)
  qed (use assms w1 in \<open>simp_all add: next_alloc_def plenty_eval\<close>)
qed (use assms in \<open>simp add: next_alloc_def\<close>)

definition short_packet_ok :: "world \<Rightarrow> u8 list \<Rightarrow> BUFFER option \<Rightarrow> world \<Rightarrow> bool" where
  "short_packet_ok w bytes h w' \<longleftrightarrow> faults w' = faults w \<and> live w' = live w + buf_blocks h \<and>
     (case h of None \<Rightarrow> \<not> plenty 2 w | Some b \<Rightarrow> buf_bytes b = bytes)"

text \<open>The acknowledgements carry their type, the flags the protocol fixes and the packet identifier; PINGREQ and
  DISCONNECT are a type byte and a zero length. The result is \<open>NULL\<close> only when memory runs out, and nothing leaks.\<close>

lemma short_packets_layout:
  "wp (mqtt_codec_publishAck k) (short_packet_ok w ([0x40, 2] @ be16 k)) w \<and>
   wp (mqtt_codec_publishReceived k) (short_packet_ok w ([0x50, 2] @ be16 k)) w \<and>
   wp (mqtt_codec_publishRelease k) (short_packet_ok w ([0x62, 2] @ be16 k)) w \<and>
   wp (mqtt_codec_publishComplete k) (short_packet_ok w ([0x70, 2] @ be16 k)) w \<and>
   wp mqtt_codec_ping (short_packet_ok w [0xC0, 0]) w \<and>
   wp mqtt_codec_disconnect (short_packet_ok w [0xE0, 0]) w"
proof -
  have reply: "wp (constructPublishReply ty fl k) (short_packet_ok w ([ty OR fl, 2] @ be16 k)) w" for ty fl
    by (rule wp_constructPublishReply) (simp_all add: mqtt_packet_def rem_len_small short_packet_ok_def)
  have two: "wp (two_bytes ty) (short_packet_ok w [ty, 0]) w" for ty
    by (rule wp_two_bytes) (simp_all add: mqtt_packet_def rem_len_small short_packet_ok_def)
  show ?thesis
    using reply [of "0x40" 0] reply [of "0x50" 0] reply [of "0x60" 2] reply [of "0x70" 0] two [of "0xC0"] two [of "0xE0"]
    by (simp add: mqtt_codec_publishAck_def mqtt_codec_publishReceived_def mqtt_codec_publishRelease_def
        mqtt_codec_publishComplete_def mqtt_codec_ping_def mqtt_codec_disconnect_def packet_types)
qed

end
