(* ===== verification/MqttDecode.thy ===== *)
theory MqttDecode
  imports MqttEncode
begin

text \<open>
  The receiving half of the MQTT codec (\<open>umqtt/src/mqtt_codec.c\<close>): a state machine that takes the bytes of
  the connection as they come, in pieces of any size, and calls \<open>packetComplete\<close> with every packet.
  A call of the callback is an event of the model, the packet type, the flags and the buffer it is
  given; the callback is taken to read the buffer only, as \<open>mqtt_client.c\<close> does.
\<close>

section \<open>State and operations\<close>

datatype CODEC_STATE_RESULT = CODEC_STATE_FIXED_HEADER | CODEC_STATE_VAR_HEADER | CODEC_STATE_PAYLOAD

text \<open>\<open>packetComplete\<close>: the callback is not null. The opaque \<open>callContext\<close> is only handed on.\<close>

record MQTTCODEC_INSTANCE =
  currPacket :: CONTROL_PACKET_TYPE
  codecState :: CODEC_STATE_RESULT
  bufferOffset :: nat
  headerFlags :: u8
  headerData :: "BUFFER option"
  packetComplete :: bool
  storeRemainLen :: "u8 list"
  remainLenIndex :: nat

type_synonym packet_event = "CONTROL_PACKET_TYPE \<times> u8 \<times> BUFFER option"

text \<open>The \<open>do\<close> loop over \<open>storeRemainLen\<close>: the result, and the length read so far.\<close>

fun remainLen_loop :: "u8 list \<Rightarrow> int \<Rightarrow> int \<Rightarrow> (int \<times> int) cm" where
  "remainLen_loop [] multiplier totalLen = do { c_assert False; ret (FAILURE, totalLen) }"
| "remainLen_loop (encodeByte # bs) multiplier totalLen =
     (let totalLen' = totalLen + uint (encodeByte AND 127) * multiplier; multiplier' = multiplier * 0x80
      in if multiplier' > 128 * 128 * 128 then ret (FAILURE, totalLen')
         else if encodeByte AND 0x80 \<noteq> 0 then remainLen_loop bs multiplier' totalLen'
         else ret (0, totalLen'))"

definition prepareheaderDataInfo :: "MQTTCODEC_INSTANCE option \<Rightarrow> u8 \<Rightarrow> (int \<times> MQTTCODEC_INSTANCE option) cm" where
  "prepareheaderDataInfo codecData remainLen =
     (case codecData of
        None \<Rightarrow> ret (FAILURE, None)
      | Some d \<Rightarrow> do {
          store \<leftarrow> c_store (storeRemainLen d) (remainLenIndex d) remainLen;
          if remainLen < 0x7f then do {
            (result, totalLen) \<leftarrow> remainLen_loop store 1 0;
            d' \<leftarrow> (if totalLen > 0 then do {
                h \<leftarrow> BUFFER_new;
                (e, h') \<leftarrow> BUFFER_pre_build h (nat totalLen);
                ret (d\<lparr>headerData := h', bufferOffset := 0\<rparr>)
              } else ret d);
            ret (result, Some (d'\<lparr>codecState := CODEC_STATE_VAR_HEADER, remainLenIndex := 0, storeRemainLen := replicate 4 0\<rparr>))
          }
          else ret (0, Some (d\<lparr>storeRemainLen := store, remainLenIndex := remainLenIndex d + 1\<rparr>))
        })"

definition completePacketData :: "MQTTCODEC_INSTANCE option \<Rightarrow> (MQTTCODEC_INSTANCE option \<times> packet_event list) cm" where
  "completePacketData codecData =
     (case codecData of
        None \<Rightarrow> ret (None, [])
      | Some d \<Rightarrow> do {
          BUFFER_delete (headerData d);
          ret (Some (d\<lparr>currPacket := UNKNOWN_TYPE, codecState := CODEC_STATE_FIXED_HEADER, headerFlags := 0, headerData := None\<rparr>),
               if packetComplete d then [(currPacket d, headerFlags d, headerData d)] else [])
        })"

definition mqtt_codec_create :: "bool \<Rightarrow> MQTTCODEC_INSTANCE option cm" where
  "mqtt_codec_create callback = do {
     ok \<leftarrow> c_new;
     ret (if ok then Some \<lparr>currPacket = UNKNOWN_TYPE, codecState = CODEC_STATE_FIXED_HEADER, bufferOffset = 0, headerFlags = 0,
            headerData = None, packetComplete = callback, storeRemainLen = replicate 4 0, remainLenIndex = 0\<rparr>
          else None)
   }"

definition mqtt_codec_destroy :: "MQTTCODEC_INSTANCE option \<Rightarrow> unit cm" where
  "mqtt_codec_destroy handle =
     (case handle of
        None \<Rightarrow> ret ()
      | Some d \<Rightarrow> do { BUFFER_delete (headerData d); c_free (Some d) })"

text \<open>The body of the loop in \<open>mqtt_codec_bytesReceived\<close>, for one byte.\<close>

definition codec_byte :: "MQTTCODEC_INSTANCE \<Rightarrow> u8 \<Rightarrow> (int \<times> MQTTCODEC_INSTANCE \<times> packet_event list) cm" where
  "codec_byte d iterator =
     (case codecState d of
        CODEC_STATE_FIXED_HEADER \<Rightarrow>
          if currPacket d = UNKNOWN_TYPE then
            (case processControlPacketType iterator True of
               (p, flags) \<Rightarrow> ret (0, d\<lparr>currPacket := p, headerFlags := the flags\<rparr>, []))
          else do {
            (e, h) \<leftarrow> prepareheaderDataInfo (Some d) iterator;
            let d1 = the h;
            let d2 = (if e \<noteq> 0 then d1\<lparr>currPacket := PACKET_TYPE_ERROR\<rparr> else d1);
            let r = (if e \<noteq> 0 then FAILURE else 0);
            if currPacket d2 = PINGRESP_TYPE then do {
              (h', ev) \<leftarrow> completePacketData (Some d2);
              ret (r, the h', ev)
            }
            else ret (r, d2, [])
          }
      | CODEC_STATE_VAR_HEADER \<Rightarrow>
          (case headerData d of
             None \<Rightarrow> ret (0, d\<lparr>codecState := CODEC_STATE_PAYLOAD\<rparr>, [])
           | Some h \<Rightarrow>
               (case BUFFER_u_char (Some h) of
                  None \<Rightarrow> ret (FAILURE, d\<lparr>currPacket := PACKET_TYPE_ERROR\<rparr>, [])
                | Some dataBytes \<Rightarrow> do {
                    b \<leftarrow> c_store dataBytes (bufferOffset d) iterator;
                    let d1 = d\<lparr>headerData := Some (h\<lparr>buffer := Some b\<rparr>), bufferOffset := szt (bufferOffset d + 1)\<rparr>;
                    if bufferOffset d1 \<ge> BUFFER_length (headerData d1) then do {
                      (h', ev) \<leftarrow> completePacketData (Some d1);
                      ret (0, the h', ev)
                    }
                    else ret (0, d1, [])
                  }))
      | CODEC_STATE_PAYLOAD \<Rightarrow> ret (FAILURE, d\<lparr>currPacket := PACKET_TYPE_ERROR\<rparr>, []))"

fun bytesReceived_loop ::
  "MQTTCODEC_INSTANCE \<Rightarrow> u8 list \<Rightarrow> nat \<Rightarrow> nat \<Rightarrow> (int \<times> MQTTCODEC_INSTANCE \<times> packet_event list) cm" where
  "bytesReceived_loop d buf index 0 = ret (0, d, [])"
| "bytesReceived_loop d buf index (Suc n) = do {
     iterator \<leftarrow> c_load buf index;
     (r, d', ev) \<leftarrow> codec_byte d iterator;
     if r \<noteq> 0 then ret (r, d', ev)
     else do {
       (r', d'', ev') \<leftarrow> bytesReceived_loop d' buf (Suc index) n;
       ret (r', d'', ev @ ev')
     }
   }"

definition mqtt_codec_bytesReceived ::
  "MQTTCODEC_INSTANCE option \<Rightarrow> u8 list option \<Rightarrow> nat \<Rightarrow> (int \<times> MQTTCODEC_INSTANCE option \<times> packet_event list) cm" where
  "mqtt_codec_bytesReceived handle buf n =
     (case handle of
        None \<Rightarrow> ret (FAILURE, None, [])
      | Some d \<Rightarrow>
          (case buf of
             None \<Rightarrow> ret (FAILURE, Some (d\<lparr>currPacket := PACKET_TYPE_ERROR\<rparr>), [])
           | Some b \<Rightarrow>
               if n = 0 then ret (FAILURE, Some (d\<lparr>currPacket := PACKET_TYPE_ERROR\<rparr>), [])
               else do {
                 (r, d', ev) \<leftarrow> bytesReceived_loop d b 0 n;
                 ret (r, Some d', ev)
               }))"

section \<open>Bytes of a run\<close>

text \<open>The loop as a function of the list of bytes, and how it splits.\<close>

fun feed :: "MQTTCODEC_INSTANCE \<Rightarrow> u8 list \<Rightarrow> (int \<times> MQTTCODEC_INSTANCE \<times> packet_event list) cm" where
  "feed d [] = ret (0, d, [])"
| "feed d (b # bs) = do {
     (r, d', ev) \<leftarrow> codec_byte d b;
     if r \<noteq> 0 then ret (r, d', ev)
     else do { (r', d'', ev') \<leftarrow> feed d' bs; ret (r', d'', ev @ ev') }
   }"

lemma wp_bytesReceived_loop:
  "i + n \<le> length buf \<Longrightarrow> wp (bytesReceived_loop d buf i n) Q w = wp (feed d (take n (drop i buf))) Q w"
proof (induction n arbitrary: i d Q w)
  case (Suc n)
  then have d: "take (Suc n) (drop i buf) = buf ! i # take n (drop (Suc i) buf)" "i < length buf" "Suc i + n \<le> length buf"
    by (simp_all flip: Cons_nth_drop_Suc)
  show ?case
    unfolding d feed.simps bytesReceived_loop.simps wp_bind wp_load [OF d(2)]
    by (intro arg_cong [where f = "\<lambda>Q. wp _ Q w"] ext) (simp add: Suc.IH [OF d(3)] split: prod.splits)
qed simp

lemma wp_feed_Cons:
  "wp (feed d (b # bs)) Q w =
   wp (codec_byte d b) (\<lambda>(r, d', ev). if r \<noteq> 0 then Q (r, d', ev) else wp (feed d' bs) (\<lambda>(r', d'', ev'). Q (r', d'', ev @ ev'))) w"
  unfolding feed.simps wp_bind
  by (intro arg_cong [where f = "\<lambda>Q. wp _ Q w"] ext) (simp add: split_def)

declare feed.simps(2) [simp del] wp_feed_Cons [simp]

lemma wp_feed_append:
  "wp (feed d (xs @ ys)) Q w =
   wp (feed d xs) (\<lambda>(r, d', ev). if r \<noteq> 0 then Q (r, d', ev) else wp (feed d' ys) (\<lambda>(r', d'', ev'). Q (r', d'', ev @ ev'))) w"
proof (induction xs arbitrary: d Q w)
  case Nil
  then show ?case by (simp add: split_def)
next
  case (Cons b xs)
  show ?case
    unfolding append_Cons wp_feed_Cons
    by (intro arg_cong [where f = "\<lambda>Q. wp _ Q w"] ext) (simp add: Cons.IH split_def cong: if_cong)
qed

section \<open>The remaining length\<close>

lemma len_byte:
  assumes "x < 128"
  shows "uint ((of_nat x :: u8) AND 127) = int x" "(of_nat x :: u8) AND 0x80 = 0"
    "uint ((of_nat x OR 0x80 :: u8) AND 127) = int x" "(of_nat x OR 0x80 :: u8) AND 0x80 \<noteq> 0" "\<not> (of_nat x OR 0x80 :: u8) < 0x7f"
proof -
  have b7: "\<not> bit x 7" using assms by (simp add: bit_iff_odd)
  show m: "(of_nat x :: u8) AND 0x80 = 0" by (rule u8_eqI) (simp_all add: bit_simps b7)
  have "(of_nat x :: u8) AND 127 = of_nat x" by (rule u8_eqI) (simp_all add: bit_simps b7)
  then show lo: "uint ((of_nat x :: u8) AND 127) = int x" using assms by (simp add: unsigned_of_nat take_bit_nat_eq_self)
  have "(of_nat x OR 0x80 :: u8) AND 127 = of_nat x AND 127" by (rule u8_eqI) (simp_all add: bit_simps)
  then show "uint ((of_nat x OR 0x80 :: u8) AND 127) = int x" using lo by simp
  have "bit ((of_nat x OR 0x80 :: u8) AND 0x80) 7" by (simp add: bit_simps)
  then show "(of_nat x OR 0x80 :: u8) AND 0x80 \<noteq> 0" by (metis bit_0_eq bot_apply bot_bool_def)
  have "(0x80 :: u8) \<le> of_nat x OR 0x80" by (rule le_word_or1)
  then show "\<not> (of_nat x OR 0x80 :: u8) < 0x7f" by (simp add: word_less_nat_alt word_le_nat_alt)
qed

lemma rem_len_large: "128 \<le> n \<Longrightarrow> rem_len n = (of_nat (n mod 128) OR 0x80) # rem_len (n div 128)"
  by (subst rem_len.simps) simp

text \<open>The reader accepts at most three bytes, that is lengths below 2097152.\<close>

lemma remainLen_loop_rem_len:
  "i + j = 2 \<Longrightarrow> n < 128 ^ Suc j \<Longrightarrow> remainLen_loop (rem_len n @ zs) (128 ^ i) t = ret (0, t + int n * 128 ^ i)"
proof (induction j arbitrary: n i t)
  case 0
  then have "rem_len n = [of_nat n]" "i = 2" by (simp_all add: rem_len_small)
  then show ?case using 0 len_byte [of n] by (simp add: Let_def)
next
  case (Suc j)
  then have i: "(128::int) ^ i * 128 \<le> 128 ^ 2" using power_increasing [of "Suc i" 2 "128::int"] by simp
  show ?case
  proof (cases "n < 128")
    case True
    then show ?thesis using i len_byte [of n] by (simp add: rem_len_small Let_def)
  next
    case False
    have "n div 128 < 128 ^ Suc j" using Suc.prems(2) by (simp add: less_mult_imp_div_less mult.commute)
    then have "remainLen_loop (rem_len (n div 128) @ zs) (128 ^ Suc i) (t + int (n mod 128) * 128 ^ i) =
      ret (0, t + int (n mod 128) * 128 ^ i + int (n div 128) * 128 ^ Suc i)"
      using Suc.prems(1) by (intro Suc.IH) simp_all
    moreover have "int (n mod 128) * 128 ^ i + int (n div 128) * 128 ^ Suc i = int n * 128 ^ i"
    proof -
      have "int n = int (n mod 128) + 128 * int (n div 128)" by (simp add: zmod_int zdiv_int)
      then show ?thesis by (simp add: algebra_simps)
    qed
    ultimately show ?thesis using False i len_byte [of "n mod 128"]
      by (simp add: rem_len_large Let_def mult.commute add.assoc)
  qed
qed

lemma rem_len_butlast: "b \<in> set (butlast (rem_len n)) \<Longrightarrow> \<not> b < 0x7f"
proof (induction n rule: rem_len.induct)
  case (1 n)
  then show ?case
    using len_byte(5) [of "n mod 128"] by (cases "n < 128") (auto simp: rem_len_small rem_len_large)
qed

text \<open>The states of the decoder between packets and while it reads a length.\<close>

definition idle :: "MQTTCODEC_INSTANCE \<Rightarrow> bool" where
  "idle d \<longleftrightarrow> codecState d = CODEC_STATE_FIXED_HEADER \<and> currPacket d = UNKNOWN_TYPE \<and> headerData d = None \<and>
     storeRemainLen d = replicate 4 0 \<and> remainLenIndex d = 0"

definition in_length :: "CONTROL_PACKET_TYPE \<Rightarrow> u8 \<Rightarrow> MQTTCODEC_INSTANCE \<Rightarrow> u8 list \<Rightarrow> MQTTCODEC_INSTANCE" where
  "in_length p fl d bs = d\<lparr>currPacket := p, headerFlags := fl, storeRemainLen := bs @ replicate (4 - length bs) 0, remainLenIndex := length bs\<rparr>"

lemma wp_type_byte:
  "idle d \<Longrightarrow> wp (codec_byte d b) Q w = Q (0, in_length (b AND 0xF0) (b AND 0x0F) d [], []) w"
  by (cases d) (simp add: codec_byte_def idle_def processControlPacketType_def in_length_def)

lemma type_not_unknown: "b AND 0xF0 \<noteq> UNKNOWN_TYPE"
proof
  assume "b AND 0xF0 = UNKNOWN_TYPE"
  then have "bit (b AND 0xF0) 1 = bit UNKNOWN_TYPE 1" by simp
  then show False by (simp add: UNKNOWN_TYPE_def bit_simps)
qed

lemma wp_length_byte:
  assumes "idle d" "p \<noteq> UNKNOWN_TYPE" "p \<noteq> PINGRESP_TYPE" "length bs < 4" "\<not> b < 0x7f"
  shows "wp (codec_byte (in_length p fl d bs) b) Q w = Q (0, in_length p fl d (bs @ [b]), []) w"
proof -
  have "(bs @ replicate (4 - length bs) 0)[length bs := b] = (bs @ [b]) @ replicate (4 - length (bs @ [b])) 0"
    using assms(4) by (cases "4 - length bs") (simp_all add: list_update_append Suc_diff_Suc)
  then show ?thesis using assms
    by (simp add: codec_byte_def in_length_def idle_def prepareheaderDataInfo_def Let_def)
qed

lemma wp_length_bytes:
  assumes "idle d" "p \<noteq> UNKNOWN_TYPE" "p \<noteq> PINGRESP_TYPE"
  shows "length bs + length xs \<le> 4 \<Longrightarrow> \<forall>b \<in> set xs. \<not> b < 0x7f \<Longrightarrow>
    wp (feed (in_length p fl d bs) xs) Q w = Q (0, in_length p fl d (bs @ xs), []) w"
  by (induction xs arbitrary: bs Q) (simp_all add: wp_length_byte [OF assms])

section \<open>One packet\<close>

definition in_body :: "CONTROL_PACKET_TYPE \<Rightarrow> u8 \<Rightarrow> MQTTCODEC_INSTANCE \<Rightarrow> u8 list \<Rightarrow> u8 list \<Rightarrow> MQTTCODEC_INSTANCE" where
  "in_body p fl d xs ys = d\<lparr>currPacket := p, headerFlags := fl, codecState := CODEC_STATE_VAR_HEADER, bufferOffset := length xs,
     headerData := Some (mkbuf (xs @ ys)), storeRemainLen := replicate 4 0, remainLenIndex := 0\<rparr>"

definition after_packet :: "MQTTCODEC_INSTANCE \<Rightarrow> nat \<Rightarrow> MQTTCODEC_INSTANCE" where
  "after_packet d n = d\<lparr>currPacket := UNKNOWN_TYPE, headerFlags := 0, codecState := CODEC_STATE_FIXED_HEADER, bufferOffset := n,
     headerData := None, storeRemainLen := replicate 4 0, remainLenIndex := 0\<rparr>"

lemma idle_after_packet [simp]: "idle (after_packet d n)" "packetComplete (after_packet d n) = packetComplete d"
  by (simp_all add: idle_def after_packet_def)

lemma wp_last_length_byte:
  assumes "idle d" "p \<noteq> UNKNOWN_TYPE" "p \<noteq> PINGRESP_TYPE" "rem_len n = bs @ [b]" "b < 0x7f" "0 < n" "n < 128 ^ 3" "plenty 2 w"
    and built: "\<And>ys w'. length ys = n \<Longrightarrow> avail w' = drop 2 (avail w) \<Longrightarrow> live w' = live w + 2 \<Longrightarrow> faults w' = faults w \<Longrightarrow>
      Q (0, in_body p fl d [] ys, []) w'"
  shows "wp (codec_byte (in_length p fl d bs) b) Q w"
proof -
  have len: "length (bs @ [b]) \<le> 3" using length_rem_len [of n 2] assms(4,7) by simp
  have store: "(bs @ replicate (4 - length bs) 0)[length bs := b] = rem_len n @ replicate (4 - length (rem_len n)) 0"
    using len by (cases "4 - length bs") (simp_all add: assms(4) list_update_append Suc_diff_Suc)
  have loop: "remainLen_loop (rem_len n @ replicate (4 - length (rem_len n)) 0) 1 0 = ret (0, int n)"
    using remainLen_loop_rem_len [of 0 2 n "replicate (4 - length (rem_len n)) 0" 0] assms(7) by simp
  have new: "wp BUFFER_new R w" if "\<And>w'. avail w' = tl (avail w) \<Longrightarrow> live w' = live w + 1 \<Longrightarrow> faults w' = faults w \<Longrightarrow> R (Some empty_buf) w'" for R
    by (rule wp_BUFFER_new) (use that assms(8) plenty_next [of 1 w] in \<open>simp_all add: empty_buf_def numeral_2_eq_2\<close>)
  have built': "wp (BUFFER_pre_build (Some empty_buf) n) R w'"
    if "avail w' = tl (avail w)" "\<And>ys w''. length ys = n \<Longrightarrow> avail w'' = tl (avail w') \<Longrightarrow> live w'' = live w' + 1 \<Longrightarrow>
      faults w'' = faults w' \<Longrightarrow> R (0, Some (mkbuf ys)) w''" for R w'
  proof (rule wp_BUFFER_pre_build, goal_cases)
    case (3 w'')
    then show ?case using plenty_next [of 0 w'] plenty_tl [of 1 w w'] assms(8) that(1) by (simp add: numeral_2_eq_2)
  qed (use that assms(6) in simp_all)
  have s: "codecState d = CODEC_STATE_FIXED_HEADER" using assms(1) by (simp add: idle_def)
  have eq: "d\<lparr>currPacket := p, headerFlags := fl, headerData := Some (mkbuf ys), bufferOffset := 0, codecState := CODEC_STATE_VAR_HEADER,
      remainLenIndex := 0, storeRemainLen := replicate 4 0\<rparr> = in_body p fl d [] ys" for ys
    by (cases d) (simp add: in_body_def)
  show ?thesis
    using assms(2,3,5,6) len
  proof (simp add: codec_byte_def in_length_def s prepareheaderDataInfo_def store loop, intro new, simp, intro built', goal_cases)
    case (2 w' ys w'')
    then have "avail w'' = drop 2 (avail w)" "live w'' = live w + 2" by (simp_all add: drop_Suc numeral_2_eq_2)
    with 2 show ?case using built [of ys w''] by (simp add: eq)
  qed simp
qed

lemma wp_body_byte:
  assumes "length (xs @ ys) < SIZE_MOD" "ys = y # y' # ys'"
  shows "wp (codec_byte (in_body p fl d xs ys) b) Q w = Q (0, in_body p fl d (xs @ [b]) (tl ys), []) w"
  using assms by (cases d) (simp add: codec_byte_def in_body_def mkbuf_def BUFFER_u_char_def Let_def list_update_append)

lemma wp_last_body_byte:
  assumes "length xs + 1 < SIZE_MOD"
  shows "wp (codec_byte (in_body p fl d xs [y]) b) Q w =
    Q (0, after_packet d (length xs + 1), if packetComplete d then [(p, fl, Some (mkbuf (xs @ [b])))] else []) (w\<lparr>live := live w - 2\<rparr>)"
  using assms
  by (cases d) (simp add: codec_byte_def in_body_def after_packet_def mkbuf_def BUFFER_u_char_def Let_def list_update_append completePacketData_def)

lemma wp_body:
  "length bs = length ys \<Longrightarrow> bs \<noteq> [] \<Longrightarrow> length (xs @ ys) < SIZE_MOD \<Longrightarrow>
   wp (feed (in_body p fl d xs ys) bs) Q w =
   Q (0, after_packet d (length (xs @ ys)), if packetComplete d then [(p, fl, Some (mkbuf (xs @ bs)))] else []) (w\<lparr>live := live w - 2\<rparr>)"
proof (induction bs arbitrary: xs ys Q)
  case (Cons b bs)
  note prems = Cons.prems and IH = Cons.IH
  show ?case
  proof (cases bs)
    case Nil
    then obtain y where "ys = [y]" using prems(1) by (cases ys) auto
    then show ?thesis using prems(3) Nil by (simp add: wp_last_body_byte)
  next
    case (Cons b' bs')
    then obtain y y' ys' where ys: "ys = y # y' # ys'" using prems(1) by (cases ys; cases "tl ys") auto
    show ?thesis using prems IH [of "tl ys" "xs @ [b]"] wp_body_byte [OF prems(3) ys] Cons ys
      by (simp add: split_def)
  qed
qed simp

text \<open>The packets the decoder can read: a PINGRESP without body, and packets with a body shorter than 2097152 bytes whose
  encoded length does not end in the byte 127.\<close>

definition decodable :: "nat \<Rightarrow> bool" where
  "decodable n \<longleftrightarrow> 0 < n \<and> n < 128 ^ 3 \<and> last (rem_len n) < 0x7f"

definition wire_ok :: "u8 \<times> u8 list \<Rightarrow> bool" where
  "wire_ok p = (case p of (t, body) \<Rightarrow>
     if t AND 0xF0 = PINGRESP_TYPE then body = [] else decodable (length body))"

definition packet_event :: "u8 \<times> u8 list \<Rightarrow> packet_event" where
  "packet_event p = (case p of (t, body) \<Rightarrow> (t AND 0xF0, t AND 0x0F, if body = [] then None else Some (mkbuf body)))"

definition packet_bytes :: "u8 \<times> u8 list \<Rightarrow> u8 list" where
  "packet_bytes p = (case p of (t, body) \<Rightarrow> mqtt_packet t body)"

lemma plenty_used: "used c w w' \<Longrightarrow> plenty (c + k) w \<Longrightarrow> plenty k w'"
  using used_starved [of c w w' k "c + k"] by blast

lemma wp_ping_length:
  assumes "idle d"
  shows "wp (codec_byte (in_length PINGRESP_TYPE fl d []) 0) Q w =
    Q (0, after_packet d (bufferOffset d), if packetComplete d then [(PINGRESP_TYPE, fl, None)] else []) w"
proof -
  have "replicate 4 (0::u8) = [0, 0, 0, 0]" by (simp add: numeral_eq_Suc)
  then show ?thesis using assms
    by (cases d) (simp add: in_length_def codec_byte_def idle_def prepareheaderDataInfo_def completePacketData_def after_packet_def
        packet_types Let_def)
qed

lemma wp_pingresp:
  assumes "idle d" "t AND 0xF0 = PINGRESP_TYPE"
  shows "wp (feed d (mqtt_packet t [])) Q w =
    Q (0, after_packet d (bufferOffset d), if packetComplete d then [packet_event (t, [])] else []) w"
  using assms by (simp add: mqtt_packet_def rem_len_small wp_type_byte wp_ping_length packet_event_def)

text \<open>The bytes of a packet up to the last of its body are taken in silently; the last one completes it.\<close>

lemma wp_body_part:
  "length bs < length ys \<Longrightarrow> length (xs @ ys) < SIZE_MOD \<Longrightarrow>
   wp (feed (in_body p fl d xs ys) bs) Q w = Q (0, in_body p fl d (xs @ bs) (drop (length bs) ys), []) w"
proof (induction bs arbitrary: xs ys Q)
  case (Cons b bs)
  then obtain y y' ys' where ys: "ys = y # y' # ys'" by (cases ys; cases "tl ys") auto
  then show ?case
    using Cons.prems Cons.IH [of "tl ys" "xs @ [b]"] wp_body_byte [OF Cons.prems(2) ys] by (simp add: split_def)
qed simp

lemma wp_body_prefix:
  assumes d: "idle d" and t: "t AND 0xF0 \<noteq> PINGRESP_TYPE" and n: "decodable (length body)" and "plenty 2 w"
    and Q: "\<And>ys w'. length ys = length body \<Longrightarrow> used 2 w w' \<Longrightarrow> live w' = live w + 2 \<Longrightarrow> faults w' = faults w \<Longrightarrow>
      wp (feed (in_body (t AND 0xF0) (t AND 0x0F) d [] ys) xs) Q w'"
  shows "wp (feed d (t # rem_len (length body) @ xs)) Q w"
proof -
  let ?p = "t AND 0xF0" and ?f = "t AND 0x0F"
  obtain bs b where r: "rem_len (length body) = bs @ [b]" by (metis rem_len_not_Nil append_butlast_last_id)
  have b: "b < 0x7f" "0 < length body" "length body < 128 ^ 3" using n by (simp_all add: decodable_def r)
  have bs: "\<forall>x \<in> set bs. \<not> x < 0x7f" using rem_len_butlast [of _ "length body"] by (simp add: r)
  have len: "length bs \<le> 4" using length_rem_len [of "length body" 2] b(3) by (simp add: r)
  have "wp (codec_byte (in_length ?p ?f d bs) b) (\<lambda>(r, d', ev). if r \<noteq> 0 then Q (r, d', ev)
      else wp (feed d' xs) (\<lambda>(r', d'', ev'). Q (r', d'', ev @ ev'))) w"
  proof (rule wp_last_length_byte [OF d type_not_unknown t r b assms(4)], goal_cases)
    case (1 ys w')
    then show ?case using Q [of ys w'] used_drop [of w' 2 w 2] by (simp add: split_def)
  qed
  then have "wp (feed (in_length ?p ?f d bs) (b # xs)) Q w" by simp
  then have "wp (feed (in_length ?p ?f d []) (bs @ b # xs)) Q w"
    using wp_length_bytes [OF d type_not_unknown t, of "[]" bs] bs len by (simp add: wp_feed_append split_def)
  then show ?thesis by (simp add: r wp_type_byte [OF d] split_def)
qed

lemma wp_body_packet:
  assumes d: "idle d" and t: "t AND 0xF0 \<noteq> PINGRESP_TYPE" and n: "decodable (length body)" and "plenty 2 w"
    and Q: "\<And>w'. used 2 w w' \<Longrightarrow> live w' = live w \<Longrightarrow> faults w' = faults w \<Longrightarrow>
      Q (0, after_packet d (length body), if packetComplete d then [packet_event (t, body)] else []) w'"
  shows "wp (feed d (mqtt_packet t body)) Q w"
  unfolding mqtt_packet_def
proof (rule wp_body_prefix [OF assms(1-4)], goal_cases)
  case (1 ys w')
  have "Q (0, after_packet d (length body), if packetComplete d then [packet_event (t, body)] else []) (w'\<lparr>live := live w\<rparr>)"
    using 1 by (intro Q) simp_all
  then show ?case
    using wp_body [of body ys "[]"] 1 n by (auto simp: SIZE_MOD_def packet_event_def decodable_def split: if_splits)
qed

lemma wp_packet:
  assumes "idle d" "wire_ok p" "plenty 2 w"
    and Q: "\<And>n w'. used 2 w w' \<Longrightarrow> live w' = live w \<Longrightarrow> faults w' = faults w \<Longrightarrow>
      Q (0, after_packet d n, if packetComplete d then [packet_event p] else []) w'"
  shows "wp (feed d (packet_bytes p)) Q w"
proof -
  obtain t body where p: "p = (t, body)" by (cases p)
  show ?thesis
  proof (cases "t AND 0xF0 = PINGRESP_TYPE")
    case True
    then have "body = []" using assms(2) by (simp add: wire_ok_def p)
    then show ?thesis using Q [of w "bufferOffset d"] wp_pingresp [OF assms(1) True]
      by (auto simp: packet_bytes_def p split: if_splits)
  next
    case False
    then have "decodable (length body)" using assms(2) by (simp add: wire_ok_def p)
    with False show ?thesis
      unfolding packet_bytes_def p prod.case
      by (intro wp_body_packet [OF assms(1)] assms(3) Q [unfolded p]) simp_all
  qed
qed

section \<open>Streams of packets\<close>

lemma wp_stream:
  assumes "idle d" "list_all wire_ok ps" "plenty (2 * length ps) w"
    and "\<And>d' w'. idle d' \<Longrightarrow> used (2 * length ps) w w' \<Longrightarrow> live w' = live w \<Longrightarrow> faults w' = faults w \<Longrightarrow>
      Q (0, d', if packetComplete d then map packet_event ps else []) w'"
  shows "wp (feed d (concat (map packet_bytes ps))) Q w"
  using assms
proof (induction ps arbitrary: d Q w)
  case (Cons p ps)
  have pl: "plenty (2 + 2 * length ps) w" using Cons.prems(3) by simp
  have "wp (feed d (packet_bytes p)) (\<lambda>(r, d', ev). if r \<noteq> 0 then Q (r, d', ev)
      else wp (feed d' (concat (map packet_bytes ps))) (\<lambda>(r', d'', ev'). Q (r', d'', ev @ ev'))) w"
  proof (rule wp_packet, goal_cases)
    case 3
    then show ?case using pl plenty_le by fastforce
  next
    case (4 n w1)
    have "wp (feed (after_packet d n) (concat (map packet_bytes ps)))
      (\<lambda>(r', d'', ev'). Q (r', d'', (if packetComplete d then [packet_event p] else []) @ ev')) w1"
    proof (rule Cons.IH, goal_cases)
      case 3
      then show ?case using plenty_used [OF 4(1) pl] .
    next
      case (4 d' w')
      have "used (2 * length (p # ps)) w w'"
        using used_trans [OF \<open>used 2 w w1\<close> 4(2)] by simp
      from Cons.prems(4) [OF 4(1) this] show ?case
        using 4(3,4) \<open>live w1 = live w\<close> \<open>faults w1 = faults w\<close>
        by (auto split: if_splits)
    qed (use Cons.prems(2) in simp_all)
    then show ?case by simp
  qed (use Cons.prems in simp_all)
  then show ?case by (simp add: wp_feed_append)
next
  case Nil
  show ?case using Nil.prems(4) [of d w] Nil.prems(1) by (auto split: if_splits)
qed

text \<open>A client hands the pieces of the connection to the codec as they arrive.\<close>

fun receive_chunks ::
  "MQTTCODEC_INSTANCE option \<Rightarrow> u8 list list \<Rightarrow> (int list \<times> MQTTCODEC_INSTANCE option \<times> packet_event list) cm" where
  "receive_chunks h [] = ret ([], h, [])"
| "receive_chunks h (c # cs) = do {
     (r, h', ev) \<leftarrow> mqtt_codec_bytesReceived h (Some c) (length c);
     (rs, h'', ev') \<leftarrow> receive_chunks h' cs;
     ret (r # rs, h'', ev @ ev')
   }"

lemma wp_bytesReceived:
  "c \<noteq> [] \<Longrightarrow> wp (mqtt_codec_bytesReceived (Some d) (Some c) (length c)) Q w =
    wp (feed d c) (\<lambda>(r, d', ev). Q (r, Some d', ev)) w"
  by (simp add: mqtt_codec_bytesReceived_def wp_bytesReceived_loop wp_prod_fun)

lemma wp_receive_chunks_Cons:
  "wp (receive_chunks h (c # cs)) Q w = wp (mqtt_codec_bytesReceived h (Some c) (length c))
     (\<lambda>(r, h', ev). wp (receive_chunks h' cs) (\<lambda>(rs, h'', ev'). Q (r # rs, h'', ev @ ev'))) w"
  unfolding receive_chunks.simps wp_bind
  by (intro arg_cong [where f = "\<lambda>Q. wp _ Q w"] ext) (simp add: split_def)

text \<open>While every call succeeds, the pieces do not matter.\<close>

lemma wp_receive_chunks:
  "[] \<notin> set cs \<Longrightarrow> wp (feed d (concat cs)) (\<lambda>(r, d', ev) w'. r = 0 \<and> Q (replicate (length cs) 0, Some d', ev) w') w \<Longrightarrow>
   wp (receive_chunks (Some d) cs) Q w"
proof (induction cs arbitrary: d Q w)
  case (Cons c cs)
  have "wp (feed d c) (\<lambda>(r, d', ev). wp (receive_chunks (Some d') cs) (\<lambda>(rs, h'', ev'). Q (r # rs, h'', ev @ ev'))) w"
    using Cons.prems(2) unfolding concat.simps wp_feed_append
  proof (rule wp_mono, goal_cases)
    case (1 out w1)
    obtain r d' ev where out: "out = (r, d', ev)" by (cases out)
    then have "r = 0" using 1 by (auto split: if_splits)
    with 1 out have "wp (feed d' (concat cs)) (\<lambda>(r', d'', ev') w'. r' = 0 \<and> Q (0 # replicate (length cs) 0, Some d'', ev @ ev') w') w1"
      by simp
    then show ?case
      using Cons.IH [of d' "\<lambda>(rs, h'', ev'). Q (0 # rs, h'', ev @ ev')" w1] Cons.prems(1) out \<open>r = 0\<close> by simp
  qed
  moreover have "c \<noteq> []" using Cons.prems(1) by auto
  ultimately show ?case
    by (simp add: wp_receive_chunks_Cons wp_bytesReceived split_def del: receive_chunks.simps)
qed simp

lemma wp_codec_create:
  assumes "\<And>w'. next_alloc w = None \<Longrightarrow> avail w' = tl (avail w) \<Longrightarrow> live w' = live w \<Longrightarrow> faults w' = faults w \<Longrightarrow> Q None w'"
    and "\<And>d w'. next_alloc w \<noteq> None \<Longrightarrow> idle d \<Longrightarrow> packetComplete d = cb \<Longrightarrow> avail w' = tl (avail w) \<Longrightarrow> live w' = live w + 1 \<Longrightarrow>
      faults w' = faults w \<Longrightarrow> Q (Some d) w'"
  shows "wp (mqtt_codec_create cb) Q w"
  unfolding mqtt_codec_create_def wp_bind
  by (rule wp_new) (simp_all add: assms idle_def)

lemma wp_codec_destroy [simp]:
  "wp (mqtt_codec_destroy (Some d)) Q w = Q () (w\<lparr>live := live w - buf_blocks (headerData d) - 1\<rparr>)"
  by (simp add: mqtt_codec_destroy_def)

section \<open>Arbitrary input\<close>

text \<open>The invariant of the instance: the array of length bytes keeps its four bytes and its cursor is zero outside a length;
  a packet buffer exists only while its bytes are read, and then the offset is inside it.\<close>

definition codec_wf :: "MQTTCODEC_INSTANCE \<Rightarrow> bool" where
  "codec_wf d \<longleftrightarrow> length (storeRemainLen d) = 4 \<and>
     (case codecState d of
        CODEC_STATE_FIXED_HEADER \<Rightarrow> headerData d = None
      | CODEC_STATE_VAR_HEADER \<Rightarrow> remainLenIndex d = 0 \<and>
          (\<forall>h bs. headerData d = Some h \<longrightarrow> buffer h = Some bs \<longrightarrow>
             bsize h = length bs \<and> bufferOffset d < length bs \<and> length bs < SIZE_MOD)
      | CODEC_STATE_PAYLOAD \<Rightarrow> remainLenIndex d = 0 \<and> headerData d = None)"

text \<open>\<open>calm p k bs\<close>: no four bytes of 0x7F or more in a row, and none right after a PINGRESP type byte; \<open>k\<close> such bytes,
  and a PINGRESP byte if \<open>p\<close>, have just passed.\<close>

fun calm :: "bool \<Rightarrow> nat \<Rightarrow> u8 list \<Rightarrow> bool" where
  "calm p k [] = True"
| "calm p k (b # bs) = (if b < 0x7f then calm False 0 bs
     else \<not> p \<and> k < 3 \<and> calm (b AND 0xF0 = PINGRESP_TYPE) (Suc k) bs)"

lemma calm_mono: "calm p k bs \<Longrightarrow> (p' \<longrightarrow> p) \<Longrightarrow> k' \<le> k \<Longrightarrow> calm p' k' bs"
proof (induction bs arbitrary: p k p' k')
  case (Cons b bs)
  show ?case
  proof (cases "b < 0x7f")
    case False
    then have "calm (b AND 0xF0 = PINGRESP_TYPE) (Suc k) bs" "\<not> p" "k < 3" using Cons.prems(1) by simp_all
    then show ?thesis using False Cons.prems(2,3) Cons.IH [of "b AND 0xF0 = PINGRESP_TYPE" "Suc k" _ "Suc k'"] by auto
  qed (use Cons.prems in simp)
qed simp

lemma calm_append: "calm p k (xs @ ys) \<Longrightarrow> calm False 0 ys"
proof (induction xs arbitrary: p k)
  case (Cons b xs)
  then show ?case by (cases "b < 0x7f") auto
qed (auto elim: calm_mono)

definition tracks :: "MQTTCODEC_INSTANCE \<Rightarrow> bool \<Rightarrow> nat \<Rightarrow> bool" where
  "tracks d p k \<longleftrightarrow> k \<le> 3 \<and> (codecState d = CODEC_STATE_FIXED_HEADER \<longrightarrow>
     (if currPacket d = UNKNOWN_TYPE then remainLenIndex d = 0 else remainLenIndex d \<le> k) \<and>
     (currPacket d = PINGRESP_TYPE \<longrightarrow> remainLenIndex d = 0 \<and> p))"

lemma remainLen_loop_range:
  assumes "length s = 4"
  shows "\<exists>r t. remainLen_loop s 1 0 = ret (r, t) \<and> 0 \<le> t \<and> nat t < SIZE_MOD"
proof -
  obtain a b c e where s: "s = [a, b, c, e]" using assms by (auto simp: length_Suc_conv numeral_eq_Suc)
  have m: "0 \<le> uint (x AND 127 :: u8)" "uint (x AND 127 :: u8) \<le> 127" for x
    by (simp_all add: uint_and)
  have ex: "\<exists>r' t'. ret (r, t) = ret (r', t') \<and> 0 \<le> t' \<and> nat t' < SIZE_MOD" if "0 \<le> t" "t < int SIZE_MOD" for r t :: int
    using that by (metis nat_less_iff)
  show ?thesis
    using m [of a] m [of b] m [of c] m [of e]
    by (cases "a AND 0x80 = 0"; cases "b AND 0x80 = 0"; cases "c AND 0x80 = 0"; simp add: s Let_def; intro ex)
      (simp_all add: SIZE_MOD_def)
qed

definition body_ok :: "BUFFER option \<Rightarrow> bool" where
  "body_ok h \<longleftrightarrow> (\<forall>h' bs. h = Some h' \<longrightarrow> buffer h' = Some bs \<longrightarrow> bsize h' = length bs \<and> 0 < length bs \<and> length bs < SIZE_MOD)"

lemma wp_prepareheaderDataInfo:
  assumes d: "length (storeRemainLen d) = 4" "remainLenIndex d < 4" "headerData d = None"
    and more: "\<not> b < 0x7f \<Longrightarrow> Q (0, Some (d\<lparr>storeRemainLen := (storeRemainLen d)[remainLenIndex d := b],
      remainLenIndex := remainLenIndex d + 1\<rparr>)) w"
    and complete: "\<And>r h i w'. b < 0x7f \<Longrightarrow> body_ok h \<Longrightarrow> h \<noteq> None \<longrightarrow> i = 0 \<Longrightarrow> live w' = live w + buf_blocks h \<Longrightarrow>
      faults w' = faults w \<Longrightarrow> Q (r, Some (d\<lparr>headerData := h, bufferOffset := i, codecState := CODEC_STATE_VAR_HEADER,
        remainLenIndex := 0, storeRemainLen := replicate 4 0\<rparr>)) w'"
  shows "wp (prepareheaderDataInfo (Some d) b) Q w"
proof (cases "b < 0x7f")
  case True
  let ?s = "(storeRemainLen d)[remainLenIndex d := b]"
  obtain r t where t: "remainLen_loop ?s 1 0 = ret (r, t)" "0 \<le> t" "nat t < SIZE_MOD"
    using remainLen_loop_range [of ?s] d(1) by auto
  have none: "d\<lparr>headerData := None, bufferOffset := bufferOffset d\<rparr> = d" using d(3) by (cases d) simp
  show ?thesis
  proof (cases "t > 0")
    case False
    then show ?thesis
      using complete [of None "bufferOffset d" w r] True t d by (simp add: prepareheaderDataInfo_def none body_ok_def)
  next
    case pos: True
    have "wp BUFFER_new (\<lambda>h. wp (BUFFER_pre_build h (nat t)) (\<lambda>(e, h'). Q (r, Some (d\<lparr>headerData := h', bufferOffset := 0,
      codecState := CODEC_STATE_VAR_HEADER, remainLenIndex := 0, storeRemainLen := replicate 4 0\<rparr>)))) w"
    proof (rule wp_BUFFER_new, goal_cases)
      case (1 w1)
      then show ?case using complete [of None 0 w1 r] True by (simp add: BUFFER_pre_build_def body_ok_def)
    next
      case (2 w1)
      note w1 = 2
      show ?case
        by (rule wp_BUFFER_pre_build)
          (use pos t(3) w1 True in \<open>auto intro!: complete simp: body_ok_def mkbuf_def\<close>)
    qed
    then show ?thesis
      using True pos t d by (simp add: prepareheaderDataInfo_def wp_bind_eta split_def)
  qed
qed (use d more in \<open>simp add: prepareheaderDataInfo_def\<close>)

definition codec_post :: "u8 list \<Rightarrow> MQTTCODEC_INSTANCE \<Rightarrow> world \<Rightarrow> int \<times> MQTTCODEC_INSTANCE \<times> packet_event list \<Rightarrow> world \<Rightarrow> bool" where
  "codec_post bs d w = (\<lambda>(r, d', ev) w'. codec_wf d' \<and> (\<exists>p k. tracks d' p k \<and> calm p k bs) \<and>
     (r \<noteq> 0 \<longrightarrow> codecState d' \<noteq> CODEC_STATE_FIXED_HEADER) \<and>
     live w' - live w = buf_blocks (headerData d') - buf_blocks (headerData d) \<and> faults w' = faults w)"

lemma low_not_pingresp: "b < 0x7f \<Longrightarrow> b AND 0xF0 \<noteq> PINGRESP_TYPE"
  using word_and_le2 [of b "0xF0"] by (auto simp: PINGRESP_TYPE_def word_le_nat_alt word_less_nat_alt)

lemma tracks_outside: "codecState d \<noteq> CODEC_STATE_FIXED_HEADER \<Longrightarrow> tracks d False 0"
  by (simp add: tracks_def)

lemma codec_byte_type:
  assumes "codec_wf d" "tracks d p k" "calm p k (b # bs)" "codecState d = CODEC_STATE_FIXED_HEADER" "currPacket d = UNKNOWN_TYPE"
  shows "wp (codec_byte d b) (codec_post bs d w) w"
proof -
  let ?d = "d\<lparr>currPacket := b AND 0xF0, headerFlags := b AND 0x0F\<rparr>"
  have "tracks ?d False 0 \<and> calm False 0 bs" if "b < 0x7f"
    using that assms by (simp add: tracks_def low_not_pingresp)
  moreover have "tracks ?d (b AND 0xF0 = PINGRESP_TYPE) (Suc k) \<and> calm (b AND 0xF0 = PINGRESP_TYPE) (Suc k) bs" if "\<not> b < 0x7f"
    using that assms by (simp add: tracks_def)
  ultimately have "\<exists>p k. tracks ?d p k \<and> calm p k bs" by blast
  then show ?thesis
    using assms by (simp add: codec_byte_def processControlPacketType_def codec_post_def codec_wf_def)
qed

lemma codec_byte_length:
  assumes "codec_wf d" "tracks d p k" "calm p k (b # bs)" "codecState d = CODEC_STATE_FIXED_HEADER" "currPacket d \<noteq> UNKNOWN_TYPE"
  shows "wp (codec_byte d b) (codec_post bs d w) w"
proof -
  let ?more = "d\<lparr>storeRemainLen := (storeRemainLen d)[remainLenIndex d := b], remainLenIndex := remainLenIndex d + 1\<rparr>"
  have d: "length (storeRemainLen d) = 4" "remainLenIndex d < 4" "headerData d = None"
    using assms by (simp_all add: codec_wf_def tracks_def)
  have more: "codec_wf ?more" "currPacket d \<noteq> PINGRESP_TYPE"
    "tracks ?more (b AND 0xF0 = PINGRESP_TYPE) (Suc k)" "calm (b AND 0xF0 = PINGRESP_TYPE) (Suc k) bs" if "\<not> b < 0x7f"
    using that assms by (auto simp: codec_wf_def tracks_def)
  show ?thesis
    unfolding codec_byte_def assms(4) CODEC_STATE_RESULT.case if_not_P [OF assms(5)] wp_bind
  proof (rule wp_prepareheaderDataInfo [OF d], goal_cases)
    case 1
    then show ?case using more d by (auto simp: codec_post_def)
  next
    case (2 r h i w')
    then have "calm False 0 bs" using assms(3) by simp
    with 2 d show ?case
      by (auto simp: codec_post_def codec_wf_def tracks_def body_ok_def completePacketData_def packet_types Let_def
          intro!: exI [of _ False] exI [of _ 0])
  qed
qed

lemma codec_byte_body:
  assumes "codec_wf d" "tracks d p k" "calm p k (b # bs)" "codecState d = CODEC_STATE_VAR_HEADER"
  shows "wp (codec_byte d b) (codec_post bs d w) w"
proof -
  have calm: "calm False 0 bs" using calm_append [of p k "[b]" bs] assms(3) by simp
  note ex = exI [of _ False] exI [of _ 0]
  show ?thesis
  proof (cases "headerData d")
    case None
    then show ?thesis
      using assms calm by (auto simp: codec_byte_def codec_post_def codec_wf_def intro!: ex tracks_outside)
  next
    case (Some h)
    show ?thesis
    proof (cases "buffer h")
      case None
      then show ?thesis
        using assms calm Some by (auto simp: codec_byte_def codec_post_def codec_wf_def BUFFER_u_char_def intro!: ex tracks_outside)
    next
      case (Some xs)
      with \<open>headerData d = Some h\<close> have "bsize h = length xs" "bufferOffset d < length xs" "length xs < SIZE_MOD"
        "length (storeRemainLen d) = 4" "remainLenIndex d = 0"
        using assms by (auto simp: codec_wf_def)
      then show ?thesis
        using assms(4) calm Some \<open>headerData d = Some h\<close>
        by (auto simp: codec_byte_def codec_post_def codec_wf_def BUFFER_u_char_def Let_def completePacketData_def tracks_def packet_types
            intro!: ex)
    qed
  qed
qed

lemma codec_byte_safe:
  assumes "codec_wf d" "tracks d p k" "calm p k (b # bs)"
  shows "wp (codec_byte d b) (codec_post bs d w) w"
proof (cases "codecState d")
  case CODEC_STATE_FIXED_HEADER
  then show ?thesis using codec_byte_type codec_byte_length assms by blast
next
  case CODEC_STATE_VAR_HEADER
  then show ?thesis using codec_byte_body assms by blast
next
  case CODEC_STATE_PAYLOAD
  then show ?thesis
    using assms calm_append [of p k "[b]" bs]
    by (auto simp: codec_byte_def codec_post_def codec_wf_def intro!: exI [of _ False] exI [of _ 0] tracks_outside)
qed

lemma feed_safe:
  "codec_wf d \<Longrightarrow> tracks d p k \<Longrightarrow> calm p k (bs @ cs) \<Longrightarrow> wp (feed d bs) (codec_post cs d w) w"
proof (induction bs arbitrary: d p k w)
  case (Cons b bs)
  show ?case
    unfolding wp_feed_Cons
  proof (rule wp_mono [OF codec_byte_safe [OF Cons.prems(1,2), of b "bs @ cs"]], goal_cases)
    case (2 out w1)
    obtain r d' ev where out: "out = (r, d', ev)" by (cases out)
    with 2 obtain p' k' where s: "codec_wf d'" "tracks d' p' k'" "calm p' k' (bs @ cs)" "faults w1 = faults w"
      "live w1 - live w = buf_blocks (headerData d') - buf_blocks (headerData d)" by (auto simp: codec_post_def)
    show ?case
    proof (cases "r = 0")
      case True
      then show ?thesis using Cons.IH [OF s(1-3), of w1] s out by (auto simp: codec_post_def elim!: wp_mono)
    next
      case False
      then have "tracks d' False 0" using 2 out by (auto simp: codec_post_def intro: tracks_outside)
      then show ?thesis using 2 False s out calm_append [OF s(3)] by (auto simp: codec_post_def)
    qed
  qed (use Cons.prems(3) in simp)
qed (auto simp: codec_post_def)

lemma receive_safe:
  "codec_wf d \<Longrightarrow> tracks d p k \<Longrightarrow> calm p k (concat cs) \<Longrightarrow>
   wp (receive_chunks (Some d) cs) (\<lambda>(rs, h, ev) w'. \<exists>d'. h = Some d' \<and> codec_wf d' \<and>
     live w' - live w = buf_blocks (headerData d') - buf_blocks (headerData d) \<and> faults w' = faults w) w"
proof (induction cs arbitrary: d p k w)
  case (Cons c cs)
  have "wp (mqtt_codec_bytesReceived (Some d) (Some c) (length c))
     (\<lambda>(r, h, ev) w'. \<exists>d'. h = Some d' \<and> codec_post (concat cs) d w (0, d', ev) w') w"
  proof (cases "c = []")
    case True
    let ?d = "d\<lparr>currPacket := PACKET_TYPE_ERROR\<rparr>"
    have "codec_wf ?d" "tracks ?d p k" using Cons.prems(1,2) 
      by (auto simp: codec_wf_def tracks_def packet_types split: if_splits CODEC_STATE_RESULT.splits)
    then show ?thesis using True Cons.prems(3) by (auto simp: mqtt_codec_bytesReceived_def codec_post_def)
  next
    case False
    then show ?thesis
      unfolding wp_bytesReceived [OF False]
      by (intro wp_mono [OF feed_safe [OF Cons.prems(1,2), of c "concat cs"]]) (use Cons.prems(3) in \<open>auto simp: codec_post_def\<close>)
  qed
  then show ?case
    unfolding wp_receive_chunks_Cons
  proof (rule wp_mono, goal_cases)
    case (1 out w1)
    then obtain r d' ev where out: "out = (r, Some d', ev)" "codec_post (concat cs) d w (0, d', ev) w1" by (cases out) auto
    then obtain p' k' where s: "codec_wf d'" "tracks d' p' k'" "calm p' k' (concat cs)" by (auto simp: codec_post_def)
    show ?case
      using Cons.IH [OF s, of w1] out by (auto simp: codec_post_def elim!: wp_mono)
  qed
qed simp

lemma idle_codec_wf: "idle d \<Longrightarrow> codec_wf d" "idle d \<Longrightarrow> tracks d False 0"
  by (simp_all add: idle_def codec_wf_def tracks_def packet_types)

lemma wp_codec_session:
  assumes "list_all wire_ok ps" "concat cs = concat (map packet_bytes ps)" "[] \<notin> set cs" "plenty (1 + 2 * length ps) w"
  shows "wp (do { h \<leftarrow> mqtt_codec_create True; (rs, h', ev) \<leftarrow> receive_chunks h cs; mqtt_codec_destroy h'; ret (rs, ev) })
    (\<lambda>(rs, ev) w'. rs = replicate (length cs) 0 \<and> ev = map packet_event ps \<and> live w' = live w \<and> faults w' = faults w) w"
  unfolding wp_bind
proof (rule wp_codec_create, goal_cases)
  case (1 w')
  then show ?case using assms(4) plenty_next [of "2 * length ps" w] by simp
next
  case (2 d w1)
  note d = 2
  have pl: "plenty (2 * length ps) w1" using plenty_tl [of "2 * length ps" w w1] assms(4) d(4) by simp
  show ?case
    by (rule wp_receive_chunks [OF assms(3)], unfold assms(2), rule wp_stream [OF d(2) assms(1) pl])
      (use d in \<open>auto simp: idle_def\<close>)
qed

section \<open>Properties\<close>

text \<open>C3. Reassembly: whatever packets are sent and however the connection cuts their bytes into pieces, a codec that is created,
  given the pieces one after the other and destroyed reports exactly the packets, in order, each with its type, its flags and a
  buffer of its body; every call returns 0, no access is out of bounds and no block is left behind. The packets are those
  the decoder can read (\<open>wire_ok\<close>): a PINGRESP has no body, every other packet has one, of less than \<open>128\<^sup>3\<close> bytes and not of a length whose
  last encoded byte is 0x7F (127 bytes, for one); memory for two requests a packet is available, and no piece is empty.\<close>

theorem codec_stream_decodes:
  assumes "list_all wire_ok ps" "concat cs = concat (map packet_bytes ps)" "[] \<notin> set cs" "plenty (1 + 2 * length ps) w"
  shows "wp (do { h \<leftarrow> mqtt_codec_create True; (rs, h', ev) \<leftarrow> receive_chunks h cs; mqtt_codec_destroy h'; ret (rs, ev) })
    (\<lambda>(rs, ev) w'. rs = replicate (length cs) 0 \<and> ev = map packet_event ps \<and> live w' = live w \<and> faults w' = faults w) w"
  using assms by (rule wp_codec_session)

theorem codec_stream_decodes_witness:
  "wp (do { h \<leftarrow> mqtt_codec_create True; (rs, h', ev) \<leftarrow> receive_chunks h [[0xD0], [0x00, 0x30, 0x02, 7], [9]];
            mqtt_codec_destroy h'; ret (rs, ev) })
    (\<lambda>(rs, ev) w'. rs = [0, 0, 0] \<and> ev = [(PINGRESP_TYPE, 0, None), (0x30, 0, Some (mkbuf [7, 9]))] \<and> live w' = 0 \<and> faults w' = 0)
    \<lparr>avail = [Some (\<lambda>_. 0), Some (\<lambda>_. 0), Some (\<lambda>_. 0), Some (\<lambda>_. 0), Some (\<lambda>_. 0)], live = 0, faults = 0\<rparr>"
  by (rule wp_mono [OF codec_stream_decodes [of "[(0xD0, []), (0x30, [7, 9])]"]])
    (auto simp: wire_ok_def decodable_def packet_bytes_def packet_event_def mqtt_packet_def rem_len_small packet_types plenty_eval)

text \<open>C8. Any input that has no four bytes of 0x7F or more in a row, and none right after a byte 0xD0 to 0xDF, is handled without
  an access out of bounds, whether it is a sequence of packets or not, in whatever pieces it comes (empty ones too) and
  whichever requests for memory fail; destroying the codec then gives every block back.\<close>

theorem codec_input_safe:
  assumes "calm False 0 (concat cs)"
  shows "wp (do { h \<leftarrow> mqtt_codec_create cb;
                  if h = None then ret ()
                  else do { (rs, h', ev) \<leftarrow> receive_chunks h cs; mqtt_codec_destroy h' } })
    (\<lambda>_ w'. live w' = live w \<and> faults w' = faults w) w"
  unfolding wp_bind
proof (rule wp_codec_create, goal_cases)
  case (2 d w1)
  note d = 2
  have "wp (receive_chunks (Some d) cs) (\<lambda>(rs, h', ev). wp (mqtt_codec_destroy h') (\<lambda>_ w'. live w' = live w \<and> faults w' = faults w)) w1"
    by (rule wp_mono [OF receive_safe [OF idle_codec_wf [OF d(2)] assms]]) (use d in \<open>auto simp: idle_def\<close>)
  then show ?case by (simp add: wp_prod_fun)
qed simp

theorem codec_input_safe_witness:
  "wp (do { h \<leftarrow> mqtt_codec_create True;
            if h = None then ret ()
            else do { (rs, h', ev) \<leftarrow> receive_chunks h [[0x30, 0x80, 0xFF], [], [0x05, 1, 2]]; mqtt_codec_destroy h' } })
    (\<lambda>_ w'. live w' = 0 \<and> faults w' = 0) \<lparr>avail = [Some (\<lambda>_. 0), None], live = 0, faults = 0\<rparr>"
  using codec_input_safe [of "[[0x30, 0x80, 0xFF], [], [0x05, 1, 2]]" True "\<lparr>avail = [Some (\<lambda>_. 0), None], live = 0, faults = 0\<rparr>"]
  by (simp add: packet_types)

text \<open>C36. The bound above is needed: after the type byte of a packet other than PINGRESP, a fifth length byte of 0x7F or more is
  stored past the end of the four bytes of \<open>storeRemainLen\<close>, and the call still reports success.\<close>

theorem codec_length_overflow:
  assumes "idle d" "t AND 0xF0 \<noteq> PINGRESP_TYPE" "length bs = 5" "\<forall>b \<in> set bs. \<not> b < 0x7f"
  shows "wp (mqtt_codec_bytesReceived (Some d) (Some (t # bs)) 6) (\<lambda>(r, h, ev) w'. r = 0 \<and> faults w' = faults w + 1) w"
proof -
  let ?p = "t AND 0xF0" and ?f = "t AND 0x0F"
  define b xs where "b = last bs" and "xs = butlast bs"
  have bs: "bs = xs @ [b]" "length xs = 4" using assms(3) by (auto simp: b_def xs_def simp flip: length_greater_0_conv)
  then have b: "\<not> b < 0x7f" "\<forall>x \<in> set xs. \<not> x < 0x7f" using assms(4) by simp_all
  have "wp (codec_byte (in_length ?p ?f d (xs)) b) (\<lambda>(r, d', ev) w'. r = 0 \<and> faults w' = faults w + 1) w"
    using assms(1,2) bs(2) b type_not_unknown [of t]
    by (simp add: codec_byte_def in_length_def idle_def prepareheaderDataInfo_def Let_def c_store_def c_assert_def wp_def)
  then have "wp (feed (in_length ?p ?f d []) (xs @ [b])) (\<lambda>(r, d', ev) w'. r = 0 \<and> faults w' = faults w + 1) w"
    unfolding wp_feed_append using wp_length_bytes [OF assms(1) type_not_unknown assms(2), of "[]" xs] b(2) bs(2)
    by (auto elim!: wp_mono)
  then have "wp (feed d (t # bs)) (\<lambda>(r, d', ev) w'. r = 0 \<and> faults w' = faults w + 1) w"
    using bs(1) by (simp add: wp_type_byte [OF assms(1)] split_def)
  then show ?thesis
    using wp_bytesReceived [of "t # bs" d] assms(3) by (simp add: split_def del: wp_feed_Cons)
qed

theorem codec_length_overflow_witness:
  "wp (mqtt_codec_bytesReceived (Some \<lparr>currPacket = UNKNOWN_TYPE, codecState = CODEC_STATE_FIXED_HEADER, bufferOffset = 0,
      headerFlags = 0, headerData = None, packetComplete = True, storeRemainLen = replicate 4 0, remainLenIndex = 0\<rparr>)
      (Some [0x30, 0x80, 0x80, 0x80, 0x80, 0x80]) 6) (\<lambda>(r, h, ev) w'. r = 0 \<and> faults w' = 1)
    \<lparr>avail = [], live = 0, faults = 0\<rparr>"
  by (rule wp_mono [OF codec_length_overflow]) (auto simp: idle_def packet_types)

end
