(* ===== verification/MqttMessage.thy ===== *)
theory MqttMessage
  imports MqttEncode
begin

text \<open>
  MQTT messages (\<open>umqtt/src/mqtt_message.c\<close>): what the client publishes and what it hands to the application. A
  message owns copies of its topic and payload (\<open>mqttmessage_create\<close>) or only points at the caller's
  (\<open>mqttmessage_create_in_place\<close>); a pointer is the block behind it, so the caller's blocks are taken not to
  change while an in-place message exists. \<open>MQTT_MESSAGE_HANDLE\<close> is \<open>MQTT_MESSAGE option\<close>.
\<close>

section \<open>State and operations\<close>

record APP_PAYLOAD =
  pl_message :: "u8 list option"
  pl_length :: nat

record MQTT_MESSAGE =
  msg_packetId :: u16
  msg_qosInfo :: QOS_VALUE
  msg_topicName :: "u8 list option"
  msg_appPayload :: APP_PAYLOAD
  msg_const_topic_name :: "u8 list option"
  msg_const_payload :: APP_PAYLOAD
  msg_isDuplicateMsg :: bool
  msg_isMessageRetained :: bool

text \<open>\<open>memset (result, 0, sizeof (MQTT_MESSAGE))\<close>.\<close>

definition zero_payload :: APP_PAYLOAD where
  "zero_payload = \<lparr>pl_message = None, pl_length = 0\<rparr>"

definition zero_message :: MQTT_MESSAGE where
  "zero_message = \<lparr>msg_packetId = 0, msg_qosInfo = DELIVER_AT_MOST_ONCE, msg_topicName = None, msg_appPayload = zero_payload,
     msg_const_topic_name = None, msg_const_payload = zero_payload, msg_isDuplicateMsg = False, msg_isMessageRetained = False\<rparr>"

definition mqttmessage_create_in_place ::
  "u16 \<Rightarrow> u8 list option \<Rightarrow> QOS_VALUE \<Rightarrow> u8 list option \<Rightarrow> nat \<Rightarrow> MQTT_MESSAGE option cm" where
  "mqttmessage_create_in_place packetId topicName qosValue appMsg appMsgLength =
     (if topicName = None then ret None
      else do {
        ok \<leftarrow> c_new;
        if ok then do {
          let r = zero_message\<lparr>msg_const_topic_name := topicName, msg_packetId := packetId, msg_isDuplicateMsg := False,
            msg_isMessageRetained := False, msg_qosInfo := qosValue, msg_const_payload := zero_payload\<lparr>pl_length := appMsgLength\<rparr>\<rparr>;
          if appMsgLength > 0
          then ret (Some (r\<lparr>msg_const_payload := (msg_const_payload r)\<lparr>pl_message := appMsg\<rparr>\<rparr>))
          else ret (Some r)
        }
        else ret None
      })"

definition mqttmessage_create ::
  "u16 \<Rightarrow> u8 list option \<Rightarrow> QOS_VALUE \<Rightarrow> u8 list option \<Rightarrow> nat \<Rightarrow> MQTT_MESSAGE option cm" where
  "mqttmessage_create packetId topicName qosValue appMsg appMsgLength =
     (if topicName = None then ret None
      else do {
        ok \<leftarrow> c_new;
        if \<not> ok then ret None
        else do {
          (e, t) \<leftarrow> mallocAndStrcpy_s True topicName;
          if e \<noteq> 0 then do { c_free (Some zero_message); ret None }
          else do {
            let r = zero_message\<lparr>msg_topicName := the t, msg_packetId := packetId, msg_isDuplicateMsg := False,
              msg_isMessageRetained := False, msg_qosInfo := qosValue, msg_appPayload := zero_payload\<lparr>pl_length := appMsgLength\<rparr>\<rparr>;
            if appMsgLength > 0 then do {
              m \<leftarrow> c_malloc appMsgLength;
              (case m of
                 None \<Rightarrow> do { c_free (msg_topicName r); c_free (Some r); ret None }
               | Some b \<Rightarrow> do {
                   b' \<leftarrow> c_memcpy b 0 (blk appMsg) 0 appMsgLength;
                   ret (Some (r\<lparr>msg_appPayload := (msg_appPayload r)\<lparr>pl_message := Some b'\<rparr>\<rparr>))
                 })
            }
            else ret (Some (r\<lparr>msg_appPayload := (msg_appPayload r)\<lparr>pl_message := None\<rparr>\<rparr>))
          }
        }
      })"

definition mqttmessage_destroy :: "MQTT_MESSAGE option \<Rightarrow> unit cm" where
  "mqttmessage_destroy handle =
     (case handle of
        None \<Rightarrow> ret ()
      | Some m \<Rightarrow> do {
          (if msg_topicName m \<noteq> None then c_free (msg_topicName m) else ret ());
          (if pl_message (msg_appPayload m) \<noteq> None then c_free (pl_message (msg_appPayload m)) else ret ());
          c_free (Some m)
        })"

definition mqttmessage_setIsDuplicateMsg :: "MQTT_MESSAGE option \<Rightarrow> bool \<Rightarrow> (int \<times> MQTT_MESSAGE option) cm" where
  "mqttmessage_setIsDuplicateMsg handle duplicateMsg =
     (case handle of
        None \<Rightarrow> ret (FAILURE, handle)
      | Some m \<Rightarrow> ret (0, Some (m\<lparr>msg_isDuplicateMsg := duplicateMsg\<rparr>)))"

definition mqttmessage_setIsRetained :: "MQTT_MESSAGE option \<Rightarrow> bool \<Rightarrow> (int \<times> MQTT_MESSAGE option) cm" where
  "mqttmessage_setIsRetained handle retainMsg =
     (case handle of
        None \<Rightarrow> ret (FAILURE, handle)
      | Some m \<Rightarrow> ret (0, Some (m\<lparr>msg_isMessageRetained := retainMsg\<rparr>)))"

definition mqttmessage_clone :: "MQTT_MESSAGE option \<Rightarrow> MQTT_MESSAGE option cm" where
  "mqttmessage_clone handle =
     (case handle of
        None \<Rightarrow> ret None
      | Some m \<Rightarrow> do {
          result \<leftarrow> mqttmessage_create (msg_packetId m) (msg_topicName m) (msg_qosInfo m)
            (pl_message (msg_appPayload m)) (pl_length (msg_appPayload m));
          if result \<noteq> None then do {
            (e1, r1) \<leftarrow> mqttmessage_setIsDuplicateMsg result (msg_isDuplicateMsg m);
            (e2, r2) \<leftarrow> mqttmessage_setIsRetained r1 (msg_isMessageRetained m);
            ret r2
          }
          else ret None
        })"

definition mqttmessage_getPacketId :: "MQTT_MESSAGE option \<Rightarrow> u16" where
  "mqttmessage_getPacketId handle = (case handle of None \<Rightarrow> 0 | Some m \<Rightarrow> msg_packetId m)"

definition mqttmessage_getTopicName :: "MQTT_MESSAGE option \<Rightarrow> u8 list option" where
  "mqttmessage_getTopicName handle =
     (case handle of
        None \<Rightarrow> None
      | Some m \<Rightarrow> if msg_topicName m = None then msg_const_topic_name m else msg_topicName m)"

definition mqttmessage_getQosType :: "MQTT_MESSAGE option \<Rightarrow> QOS_VALUE" where
  "mqttmessage_getQosType handle = (case handle of None \<Rightarrow> DELIVER_AT_MOST_ONCE | Some m \<Rightarrow> msg_qosInfo m)"

definition mqttmessage_getIsDuplicateMsg :: "MQTT_MESSAGE option \<Rightarrow> bool" where
  "mqttmessage_getIsDuplicateMsg handle = (case handle of None \<Rightarrow> False | Some m \<Rightarrow> msg_isDuplicateMsg m)"

definition mqttmessage_getIsRetained :: "MQTT_MESSAGE option \<Rightarrow> bool" where
  "mqttmessage_getIsRetained handle = (case handle of None \<Rightarrow> False | Some m \<Rightarrow> msg_isMessageRetained m)"

definition mqttmessage_getApplicationMsg :: "MQTT_MESSAGE option \<Rightarrow> APP_PAYLOAD option" where
  "mqttmessage_getApplicationMsg handle =
     (case handle of
        None \<Rightarrow> None
      | Some m \<Rightarrow> if pl_length (msg_const_payload m) > 0 then Some (msg_const_payload m) else Some (msg_appPayload m))"

section \<open>What a message says\<close>

text \<open>The value of a message is what its getters return: identifier, quality of service, topic, payload, flags.\<close>

type_synonym message_value = "u16 \<times> QOS_VALUE \<times> u8 list \<times> u8 list \<times> bool \<times> bool"

definition payload_bytes :: "APP_PAYLOAD option \<Rightarrow> u8 list" where
  "payload_bytes p = (case p of None \<Rightarrow> [] | Some a \<Rightarrow> take (pl_length a) (blk (pl_message a)))"

definition message_value :: "MQTT_MESSAGE \<Rightarrow> message_value" where
  "message_value m =
     (mqttmessage_getPacketId (Some m), mqttmessage_getQosType (Some m), c_str (blk (mqttmessage_getTopicName (Some m))),
      payload_bytes (mqttmessage_getApplicationMsg (Some m)), mqttmessage_getIsDuplicateMsg (Some m), mqttmessage_getIsRetained (Some m))"

text \<open>A message that owns its data, and one that points at it.\<close>

definition owned_message :: "MQTT_MESSAGE \<Rightarrow> bool" where
  "owned_message m \<longleftrightarrow> (\<exists>t. msg_topicName m = Some t \<and> is_cstr t \<and> length (c_str t) + 1 < SIZE_MOD) \<and>
     msg_const_payload m = zero_payload \<and>
     (if pl_length (msg_appPayload m) = 0 then pl_message (msg_appPayload m) = None
      else \<exists>b. pl_message (msg_appPayload m) = Some b \<and> length b = pl_length (msg_appPayload m))"

definition in_place_message :: "MQTT_MESSAGE \<Rightarrow> bool" where
  "in_place_message m \<longleftrightarrow> msg_topicName m = None \<and> msg_appPayload m = zero_payload \<and>
     (\<exists>t. msg_const_topic_name m = Some t \<and> is_cstr t) \<and>
     pl_length (msg_const_payload m) \<le> length (blk (pl_message (msg_const_payload m)))"

definition msg_blocks :: "MQTT_MESSAGE option \<Rightarrow> int" where
  "msg_blocks h = (case h of None \<Rightarrow> 0
     | Some m \<Rightarrow> 1 + (if msg_topicName m = None then 0 else 1) + (if pl_message (msg_appPayload m) = None then 0 else 1))"

lemma wp_mqttmessage_destroy [simp]:
  "wp (mqttmessage_destroy h) Q w = Q () (w\<lparr>live := live w - msg_blocks h\<rparr>)"
  by (cases h) (auto simp: mqttmessage_destroy_def msg_blocks_def algebra_simps)

definition new_message :: "u16 \<Rightarrow> u8 list \<Rightarrow> QOS_VALUE \<Rightarrow> u8 list \<Rightarrow> MQTT_MESSAGE" where
  "new_message k t q p = zero_message\<lparr>msg_topicName := Some (t @ [0]), msg_packetId := k, msg_qosInfo := q,
     msg_appPayload := \<lparr>pl_message = (if p = [] then None else Some p), pl_length = length p\<rparr>\<rparr>"

lemma wp_mqttmessage_create:
  assumes z: "is_cstr z" "length (c_str z) + 1 < SIZE_MOD" and n: "n \<le> length (blk msg)"
    and failed: "\<And>w'. \<not> plenty 3 w \<Longrightarrow> live w' = live w \<Longrightarrow> faults w' = faults w \<Longrightarrow> used 3 w w' \<Longrightarrow> Q None w'"
    and built: "\<And>w'. live w' = live w + msg_blocks (Some (new_message k (c_str z) q (take n (blk msg)))) \<Longrightarrow>
      faults w' = faults w \<Longrightarrow> used 3 w w' \<Longrightarrow> Q (Some (new_message k (c_str z) q (take n (blk msg)))) w'"
  shows "wp (mqttmessage_create k (Some z) q msg n) Q w"
  unfolding mqttmessage_create_def wp_bind is_Some if_False
proof (rule wp_new, goal_cases)
  case (1 w1)
  then show ?case using failed not_plenty_next [of w 3] used_tl [of w1 w 3] by simp
next
  case (2 w1)
  note w1 = 2
  show ?case
    unfolding known_conds wp_bind
  proof (rule wp_mallocAndStrcpy_s [OF z], goal_cases)
    case (1 w2)
    have "used 3 w w2" using 1 w1 used_trans [OF used_tl [of w1 w 1] used_tl [of w2 w1 1]] by simp
    with 1 show ?case using w1 failed not_plenty_next [of w1 2] not_plenty_tl [OF w1(2), of 3] by (simp add: ENOMEM_def)
  next
    case (2 w2)
    note w2 = 2
    have u: "used 2 w w2" using w1 w2 used_trans [OF used_tl [of w1 w 1] used_tl [of w2 w1 1]] by simp
    show ?case
    proof (cases "n = 0")
      case True
      then show ?thesis
        using built [of w2] w1 w2 used_more [OF u, of 3] by (simp add: Let_def new_message_def zero_message_def zero_payload_def msg_blocks_def)
    next
      case False
      have oom: "next_alloc w2 = None \<Longrightarrow> \<not> plenty 3 w"
        using not_plenty_next [of w2 1] not_plenty_tl [OF w2(2), of 2] not_plenty_tl [OF w1(2), of 3] by simp
      have p: "take n (blk msg) \<noteq> []" using False n by auto
      have "wp (c_malloc n) Q' w2"
        if "\<And>w'. next_alloc w2 = None \<Longrightarrow> live w' = live w2 \<Longrightarrow> faults w' = faults w2 \<Longrightarrow> used 3 w w' \<Longrightarrow> Q' None w'"
          "\<And>bs w'. length bs = n \<Longrightarrow> live w' = live w2 + 1 \<Longrightarrow> faults w' = faults w2 \<Longrightarrow> used 3 w w' \<Longrightarrow> Q' (Some bs) w'" for Q'
        by (rule wp_malloc) (use that u used_trans [OF u used_tl, of _ 1 3] in auto)
      then show ?thesis
        using False p n w1 w2 oom failed built
        by (simp add: Let_def) (auto simp: new_message_def zero_message_def zero_payload_def msg_blocks_def)
    qed
  qed
qed

lemma owned_new_message:
  "0 \<notin> set t \<Longrightarrow> length t + 1 < SIZE_MOD \<Longrightarrow> owned_message (new_message k t q p)"
  by (auto simp: owned_message_def new_message_def zero_message_def)

lemma value_new_message: "0 \<notin> set t \<Longrightarrow> message_value (new_message k t q p) = (k, q, t, p, False, False)"
  by (simp add: message_value_def new_message_def zero_message_def zero_payload_def payload_bytes_def mqttmessage_getPacketId_def
      mqttmessage_getQosType_def mqttmessage_getTopicName_def mqttmessage_getApplicationMsg_def mqttmessage_getIsDuplicateMsg_def
      mqttmessage_getIsRetained_def)

section \<open>The setters\<close>

datatype msg_op = SetDuplicate bool | SetRetained bool

fun msg_exec :: "msg_op \<Rightarrow> MQTT_MESSAGE option \<Rightarrow> (int \<times> MQTT_MESSAGE option) cm" where
  "msg_exec (SetDuplicate b) h = mqttmessage_setIsDuplicateMsg h b"
| "msg_exec (SetRetained b) h = mqttmessage_setIsRetained h b"

fun msg_effect :: "msg_op \<Rightarrow> message_value \<Rightarrow> message_value" where
  "msg_effect (SetDuplicate b) (k, q, t, p, d, r) = (k, q, t, p, b, r)"
| "msg_effect (SetRetained b) (k, q, t, p, d, r) = (k, q, t, p, d, b)"

lemmas msg_getters = mqttmessage_getPacketId_def mqttmessage_getQosType_def mqttmessage_getTopicName_def
  mqttmessage_getApplicationMsg_def mqttmessage_getIsDuplicateMsg_def mqttmessage_getIsRetained_def

lemmas msg_setters = mqttmessage_setIsDuplicateMsg_def mqttmessage_setIsRetained_def

interpretation msg: c_component msg_exec owned_message message_value "\<lambda>_. 0" msg_blocks "\<lambda>_. True" "\<lambda>_. 0" "\<lambda>_. 0"
  "\<lambda>op r a a'. r = 0 \<and> a' = msg_effect op a" "\<lambda>op r a. False"
proof (unfold_locales, goal_cases)
  case (1 h op w)
  then show ?case
    by (cases op) (simp_all add: msg_setters msg_getters message_value_def owned_message_def msg_blocks_def)
qed

text \<open>The run of the setters is determined: every call reports 0.\<close>

lemma spec_run_effects:
  "spec_run (\<lambda>op r a a'. r = 0 \<and> a' = msg_effect op a) ops rs a a' \<longleftrightarrow> rs = replicate (length ops) 0 \<and> a' = fold msg_effect ops a"
proof (induction ops arbitrary: rs a)
  case Nil
  then show ?case by (cases rs) auto
next
  case (Cons op ops)
  then show ?case by (cases rs) auto
qed

section \<open>Properties\<close>

text \<open>C13. A message keeps what it is given: after \<open>mqttmessage_create\<close> and any calls of the setters the getters return the
  identifier, the quality of service, the topic and the payload of the arguments and the flags set last; destroying it
  gives every block back. Creation fails only for lack of memory, and then nothing is allocated.\<close>

theorem mqttmessage_keeps_value:
  assumes "is_cstr z" "length (c_str z) + 1 < SIZE_MOD" "n \<le> length (blk msg)"
  shows "wp (do { h \<leftarrow> mqttmessage_create k (Some z) q msg n;
                  if h = None then ret None
                  else do { (rs, h') \<leftarrow> run_ops msg_exec ops h; mqttmessage_destroy h'; ret (Some (rs, message_value (the h'))) } })
    (\<lambda>out w'. live w' = live w \<and> faults w' = faults w \<and>
       (case out of
          None \<Rightarrow> \<not> plenty 3 w
        | Some (rs, v) \<Rightarrow> rs = replicate (length ops) 0 \<and>
            v = fold msg_effect ops (k, q, c_str z, take n (blk msg), False, False))) w"
  unfolding wp_bind
proof (rule wp_mqttmessage_create [OF assms], goal_cases)
  case (2 w1)
  let ?m = "new_message k (c_str z) q (take n (blk msg))"
  have m: "owned_message ?m" "message_value ?m = (k, q, c_str z, take n (blk msg), False, False)"
    using assms(2) by (simp_all add: owned_new_message value_new_message)
  have "wp (run_ops msg_exec ops (Some ?m)) (\<lambda>(rs, h') w2. live w2 - msg_blocks h' = live w \<and> faults w2 = faults w \<and>
      rs = replicate (length ops) 0 \<and> message_value (the h') = fold msg_effect ops (message_value ?m)) w1"
    by (rule wp_mono [OF msg.run_correct [OF m(1)]]) (use 2 in \<open>auto simp: SIZE_MOD_def spec_run_effects\<close>)
  then show ?case by (simp add: split_def m(2) wp_bind_eta) (auto elim!: wp_mono)
qed simp

theorem mqttmessage_keeps_value_witness:
  "wp (do { h \<leftarrow> mqttmessage_create 7 (Some (clit ''t'')) DELIVER_AT_LEAST_ONCE (Some [1, 2, 3]) 2;
            if h = None then ret None
            else do { (rs, h') \<leftarrow> run_ops msg_exec [SetRetained True, SetDuplicate True, SetDuplicate False] h;
                      mqttmessage_destroy h'; ret (Some (rs, message_value (the h'))) } })
    (\<lambda>out w'. live w' = 0 \<and> faults w' = 0 \<and> out = Some ([0, 0, 0], 7, DELIVER_AT_LEAST_ONCE, [116], [1, 2], False, True))
    \<lparr>avail = [Some (\<lambda>_. 1), Some (\<lambda>_. 2), Some (\<lambda>_. 3)], live = 0, faults = 0\<rparr>"
proof -
  have z: "c_str (clit ''t'') = [116]" by code_simp
  show ?thesis
    by (rule wp_mono [OF mqttmessage_keeps_value]) (auto simp: z SIZE_MOD_def plenty_eval split: option.splits)
qed

text \<open>\<open>mqttmessage_clone\<close> of a message that owns its data is a message with the same value and blocks of its own, or NULL for
  lack of memory without a leak. Of a message created in place, whose topic the getters do return, it is always NULL,
  although it shall create a message with identical content.\<close>

lemma mqttmessage_clone_copies:
  assumes "owned_message m" "in_place_message m'"
  shows "wp (mqttmessage_clone (Some m)) (\<lambda>h w'. faults w' = faults w \<and> live w' = live w + msg_blocks h \<and>
      (case h of None \<Rightarrow> \<not> plenty 3 w | Some c \<Rightarrow> owned_message c \<and> message_value c = message_value m)) w \<and>
    wp (mqttmessage_clone (Some m')) (\<lambda>h w'. h = None \<and> w' = w) w \<and> mqttmessage_getTopicName (Some m') \<noteq> None"
proof (intro conjI)
  obtain t where t: "msg_topicName m = Some t" "is_cstr t" "length (c_str t) + 1 < SIZE_MOD" using assms(1) by (auto simp: owned_message_def)
  let ?n = "pl_length (msg_appPayload m)" and ?b = "pl_message (msg_appPayload m)"
  have b: "?n \<le> length (blk ?b)" using assms(1) by (auto simp: owned_message_def split: if_splits)
  have const: "msg_const_payload m = zero_payload" using assms(1) by (simp add: owned_message_def)
  let ?c = "new_message (msg_packetId m) (c_str t) (msg_qosInfo m) (take ?n (blk ?b))"
  let ?d = "?c\<lparr>msg_isDuplicateMsg := msg_isDuplicateMsg m, msg_isMessageRetained := msg_isMessageRetained m\<rparr>"
  have d: "owned_message ?d" "message_value ?d = message_value m" "msg_blocks (Some ?d) = msg_blocks (Some ?c)"
    using t const by (auto simp: owned_message_def message_value_def new_message_def zero_message_def msg_getters msg_blocks_def
        payload_bytes_def zero_payload_def)
  show "wp (mqttmessage_clone (Some m)) (\<lambda>h w'. faults w' = faults w \<and> live w' = live w + msg_blocks h \<and>
      (case h of None \<Rightarrow> \<not> plenty 3 w | Some c \<Rightarrow> owned_message c \<and> message_value c = message_value m)) w"
    unfolding mqttmessage_clone_def option.case wp_bind t(1)
    by (rule wp_mqttmessage_create [OF t(2,3) b]) (use d in \<open>simp_all add: msg_setters msg_blocks_def\<close>)
qed (use assms(2) in \<open>auto simp: in_place_message_def mqttmessage_clone_def mqttmessage_create_def mqttmessage_getTopicName_def\<close>)

end
