(* ===== verification/MqttClient.thy ===== *)
theory MqttClient
  imports MqttDecode MqttMessage
begin

text \<open>
  The MQTT client (\<open>umqtt/src/mqtt_client.c\<close>): the layer between the codec, the transport (\<open>xio\<close>) and the application. Every
  function of the file is here except those that only print (\<open>getLogTime\<close>, \<open>retrievePacketType\<close>, the \<open>log\<close> functions).

  The transport is a table of functions chosen at run time, so its behaviour is a parameter: \<open>io_env\<close> holds what
  the coming calls of \<open>xio_open\<close>, \<open>xio_send\<close>, \<open>xio_close\<close> and \<open>xio_dowork\<close> will do, and what the coming calls of the operating system's
  \<open>xTaskGetTickCount\<close> return. The tick counter (\<open>c-utility/pal/freertos/tickcounter.c\<close>) turns these ticks into milliseconds.
  \<open>xio_send\<close> and \<open>xio_close\<close> may report completion at once, from inside the call, or later, as an \<open>io_event\<close>; while
  the client waits for a close the transport reports nothing else. What the client does to the outside, calls
  of the application's callbacks included, is recorded in \<open>actions\<close>. The callbacks of the application
  are taken not to call the client back.
\<close>

section \<open>Types\<close>

datatype IO_SEND_RESULT = IO_SEND_OK | IO_SEND_ERROR | IO_SEND_CANCELLED

datatype IO_OPEN_RESULT = IO_OPEN_OK | IO_OPEN_ERROR | IO_OPEN_CANCELLED

datatype MQTT_CLIENT_EVENT_RESULT = MQTT_CLIENT_ON_CONNACK | MQTT_CLIENT_ON_PUBLISH_ACK | MQTT_CLIENT_ON_PUBLISH_RECV
  | MQTT_CLIENT_ON_PUBLISH_REL | MQTT_CLIENT_ON_PUBLISH_COMP | MQTT_CLIENT_ON_SUBSCRIBE_ACK | MQTT_CLIENT_ON_UNSUBSCRIBE_ACK
  | MQTT_CLIENT_ON_PING_RESPONSE | MQTT_CLIENT_ON_DISCONNECT

datatype MQTT_CLIENT_EVENT_ERROR = MQTT_CLIENT_CONNECTION_ERROR | MQTT_CLIENT_PARSE_ERROR | MQTT_CLIENT_MEMORY_ERROR
  | MQTT_CLIENT_COMMUNICATION_ERROR | MQTT_CLIENT_NO_PING_RESPONSE | MQTT_CLIENT_UNKNOWN_ERROR

text \<open>The structure behind the \<open>msgInfo\<close> pointer of an operation callback. The return codes of SUBACK are the bytes received.\<close>

datatype msg_info = No_info | CONNECT_ACK bool u8 | PUBLISH_ACK u16 | SUBSCRIBE_ACK u16 "u8 list" | UNSUBSCRIBE_ACK u16

datatype client_action = Xio_open | Xio_close | Xio_send "u8 list" | Operation MQTT_CLIENT_EVENT_RESULT msg_info
  | Message_recv MQTT_MESSAGE | On_error MQTT_CLIENT_EVENT_ERROR | Disconnected

text \<open>The answers of the transport, in the order of the calls; the completion of \<open>xio_open\<close> is always an event. \<open>too_large\<close> is what the
  conversion of a floating-point number to \<open>uint32_t\<close> gives when the number does not fit: C leaves it undefined, so it is any function.\<close>

record io_env =
  open_answers :: "int list"
  send_answers :: "(int \<times> IO_SEND_RESULT option) list"
  close_answers :: "bool list"
  work_answers :: "bool list"
  ticks :: "u32 list"
  too_large :: "nat \<Rightarrow> u32"
  actions :: "client_action list"

text \<open>The tick counter: the ticks of the operating system when it was created.\<close>

record TICK_COUNTER_INSTANCE =
  original_tick_count :: u32

text \<open>A pointer to a callback or to the transport is whether it is set.\<close>

record MQTT_CLIENT =
  xioHandle :: bool
  codec_handle :: "MQTTCODEC_INSTANCE option"
  packetState :: CONTROL_PACKET_TYPE
  packetTickCntr :: "TICK_COUNTER_INSTANCE option"
  packetSendTimeMs :: u32
  fnOperationCallback :: bool
  fnMessageRecv :: bool
  fnOnErrorCallBack :: bool
  disconnect_cb :: bool
  cl_qosValue :: QOS_VALUE
  cl_keepAliveInterval :: u16
  mqttOptions :: MQTT_CLIENT_OPTIONS
  clientConnected :: bool
  socketConnected :: bool
  logTrace :: bool
  rawBytesTrace :: bool
  timeSincePing :: u32
  maxPingRespTime :: u16
  env :: io_env

definition KEEP_ALIVE_BUFFER_SEC :: u32 where "KEEP_ALIVE_BUFFER_SEC = 10"
definition DEFAULT_MAX_PING_RESPONSE_TIME :: u16 where "DEFAULT_MAX_PING_RESPONSE_TIME = 80"
definition MAX_CLOSE_RETRIES :: nat where "MAX_CLOSE_RETRIES = 10"

definition CONNACK_TYPE :: CONTROL_PACKET_TYPE where "CONNACK_TYPE = 0x20"
definition SUBACK_TYPE :: CONTROL_PACKET_TYPE where "SUBACK_TYPE = 0x90"
definition UNSUBACK_TYPE :: CONTROL_PACKET_TYPE where "UNSUBACK_TYPE = 0xB0"

section \<open>The transport and the clock\<close>

definition act :: "client_action \<Rightarrow> MQTT_CLIENT \<Rightarrow> MQTT_CLIENT" where
  "act a c = c\<lparr>env := (env c)\<lparr>actions := actions (env c) @ [a]\<rparr>\<rparr>"

text \<open>The next answer; when none is left, a call succeeds and completes later, and the ticks are 0.\<close>

definition answer :: "'a \<Rightarrow> 'a list \<Rightarrow> 'a" where
  "answer d xs = (case xs of [] \<Rightarrow> d | x # _ \<Rightarrow> x)"

definition xTaskGetTickCount :: "io_env \<Rightarrow> u32 \<times> io_env" where
  "xTaskGetTickCount io = (answer 0 (ticks io), io\<lparr>ticks := tl (ticks io)\<rparr>)"

definition tickcounter_create :: "io_env \<Rightarrow> (TICK_COUNTER_INSTANCE option \<times> io_env) cm" where
  "tickcounter_create io = do {
     ok \<leftarrow> c_new;
     if \<not> ok then ret (None, io)
     else (case xTaskGetTickCount io of (t, io1) \<Rightarrow> ret (Some \<lparr>original_tick_count = t\<rparr>, io1))
   }"

definition tickcounter_destroy :: "TICK_COUNTER_INSTANCE option \<Rightarrow> unit cm" where
  "tickcounter_destroy tick_counter = (if tick_counter \<noteq> None then c_free tick_counter else ret ())"

text \<open>The project's configuration has 100 ticks in a second. The product of a \<open>uint32_t\<close> and 1000 is below \<open>2\<^sup>53\<close> and
  divisible by 100, so both steps of \<open>ticks * 1000.0 / CONFIG_FREERTOS_HZ\<close> are exact in \<open>double\<close>; only the conversion back to \<open>uint32_t\<close> can fail,
  from 4294967.296 seconds on, about 49.7 days.\<close>

definition CONFIG_FREERTOS_HZ :: nat where "CONFIG_FREERTOS_HZ = 100"

definition ms_of_ticks :: "(nat \<Rightarrow> u32) \<Rightarrow> u32 \<Rightarrow> u32" where
  "ms_of_ticks beyond t = (let x = unat t * 1000 div CONFIG_FREERTOS_HZ in if x < 2 ^ 32 then of_nat x else beyond x)"

definition tickcounter_get_current_ms :: "MQTT_CLIENT \<Rightarrow> int \<times> u32 \<times> MQTT_CLIENT" where
  "tickcounter_get_current_ms c =
     (case packetTickCntr c of
        None \<Rightarrow> (FAILURE, 0, c)
      | Some tick_counter \<Rightarrow>
          (case xTaskGetTickCount (env c) of
             (t, io1) \<Rightarrow> (0, ms_of_ticks (too_large (env c)) (t - original_tick_count tick_counter), c\<lparr>env := io1\<rparr>)))"

definition on_connection_closed :: "MQTT_CLIENT \<Rightarrow> MQTT_CLIENT" where
  "on_connection_closed c =
     (let c1 = c\<lparr>socketConnected := False, clientConnected := False\<rparr>
      in if disconnect_cb c1 then act Disconnected c1 else c1)"

definition xio_close :: "MQTT_CLIENT \<Rightarrow> MQTT_CLIENT" where
  "xio_close c =
     (if \<not> xioHandle c then c
      else let c1 = act Xio_close (c\<lparr>env := (env c)\<lparr>close_answers := tl (close_answers (env c))\<rparr>\<rparr>)
        in if answer False (close_answers (env c)) then on_connection_closed c1 else c1)"

text \<open>\<open>xio_dowork\<close> while the connection is being closed: the answer says whether the close completes in this call.\<close>

definition xio_dowork_closing :: "MQTT_CLIENT \<Rightarrow> MQTT_CLIENT" where
  "xio_dowork_closing c =
     (if \<not> xioHandle c then c
      else let c1 = c\<lparr>env := (env c)\<lparr>work_answers := tl (work_answers (env c))\<rparr>\<rparr>
        in if answer False (work_answers (env c)) then on_connection_closed c1 else c1)"

text \<open>The \<open>do\<close> loop: \<open>n\<close> is what the counter has left to \<open>MAX_CLOSE_RETRIES\<close>.\<close>

fun close_loop :: "nat \<Rightarrow> MQTT_CLIENT \<Rightarrow> MQTT_CLIENT" where
  "close_loop 0 c = c"
| "close_loop (Suc n) c = (let c1 = xio_dowork_closing c in if clientConnected c1 then close_loop n c1 else c1)"

definition close_connection :: "MQTT_CLIENT \<Rightarrow> MQTT_CLIENT" where
  "close_connection c =
     (let c1 = xio_close c in if \<not> disconnect_cb c1 then close_loop MAX_CLOSE_RETRIES c1 else c1)"

definition set_error_callback :: "MQTT_CLIENT \<Rightarrow> MQTT_CLIENT_EVENT_ERROR \<Rightarrow> MQTT_CLIENT" where
  "set_error_callback c error_type =
     close_connection (if fnOnErrorCallBack c then act (On_error error_type) c else c)"

definition construct_trace_log_handle :: "MQTT_CLIENT \<Rightarrow> STRING option cm" where
  "construct_trace_log_handle c = (if logTrace c then STRING_new else ret None)"

definition sendComplete :: "MQTT_CLIENT option \<Rightarrow> IO_SEND_RESULT \<Rightarrow> MQTT_CLIENT option" where
  "sendComplete context send_result =
     (case context of
        None \<Rightarrow> None
      | Some c \<Rightarrow>
          Some (if send_result = IO_SEND_OK then
                  if packetState c = DISCONNECT_TYPE
                  then close_connection (if fnOperationCallback c then act (Operation MQTT_CLIENT_ON_DISCONNECT No_info) c else c)
                  else c
                else if send_result = IO_SEND_ERROR then set_error_callback c MQTT_CLIENT_COMMUNICATION_ERROR
                else c))"

definition xio_send :: "MQTT_CLIENT \<Rightarrow> u8 list \<Rightarrow> int \<times> MQTT_CLIENT" where
  "xio_send c bytes =
     (if \<not> xioHandle c then (FAILURE, c)
      else (case answer (0, None) (send_answers (env c)) of
        (r, completion) \<Rightarrow>
          let c1 = c\<lparr>env := (env c)\<lparr>send_answers := tl (send_answers (env c))\<rparr>\<rparr>;
              c2 = (if r = 0 then act (Xio_send bytes) c1 else c1)
          in (r, case completion of None \<Rightarrow> c2 | Some s \<Rightarrow> the (sendComplete (Some c2) s))))"

definition sendPacketItem :: "MQTT_CLIENT \<Rightarrow> u8 list option \<Rightarrow> nat \<Rightarrow> (int \<times> MQTT_CLIENT) cm" where
  "sendPacketItem c data len =
     (case tickcounter_get_current_ms c of
        (e, ms, c1) \<Rightarrow>
          if e \<noteq> 0 then ret (FAILURE, c1)
          else do {
            c_assert (len \<le> length (blk data));
            (case xio_send (c1\<lparr>packetSendTimeMs := ms\<rparr>) (take len (blk data)) of
               (r, c2) \<Rightarrow> ret (if r \<noteq> 0 then FAILURE else 0, c2))
          })"

section \<open>Reading a packet\<close>

text \<open>The iterator of the receiving functions is a place in the packet, as in the codec; here it only reads.\<close>

definition byteutil_read_uint16 :: "cursor \<Rightarrow> nat \<Rightarrow> (u16 \<times> cursor) cm" where
  "byteutil_read_uint16 buf len =
     (case buf of
        None \<Rightarrow> ret (0, buf)
      | Some (b, i) \<Rightarrow>
          if len \<ge> 2 then do {
            hi \<leftarrow> c_load b i;
            lo \<leftarrow> c_load b (i + 1);
            ret (256 * ucast hi + ucast lo, Some (b, i + 2))
          }
          else ret (0, buf))"

definition byteutil_readUTF :: "cursor \<Rightarrow> nat \<Rightarrow> (u8 list option \<times> cursor \<times> nat) cm" where
  "byteutil_readUTF buf byteLen = do {
     (len, buf1) \<leftarrow> byteutil_read_uint16 buf byteLen;
     if len > 0 then do {
       result \<leftarrow> c_malloc (unat len + 1);
       (case result of
          None \<Rightarrow> ret (None, buf1, byteLen)
        | Some r \<Rightarrow> do {
            r1 \<leftarrow> c_memcpy r 0 (case buf1 of None \<Rightarrow> [] | Some (b, i) \<Rightarrow> b) (case buf1 of None \<Rightarrow> 0 | Some (b, i) \<Rightarrow> i) (unat len);
            r2 \<leftarrow> c_store r1 (unat len) 0;
            ret (Some r2, map_option (\<lambda>(b, i). (b, i + unat len)) buf1, unat len)
          })
     }
     else ret (None, buf1, byteLen)
   }"

definition byteutil_readByte :: "cursor \<Rightarrow> (u8 \<times> cursor) cm" where
  "byteutil_readByte buf =
     (case buf of
        None \<Rightarrow> do { c_assert False; ret (0, None) }
      | Some (b, i) \<Rightarrow> do { v \<leftarrow> c_load b i; ret (v, Some (b, i + 1)) })"

text \<open>Differences of sizes and pointers are reduced like sums.\<close>

definition szt_minus :: "nat \<Rightarrow> nat \<Rightarrow> nat" where
  "szt_minus a b = szt (a + SIZE_MOD - b)"

definition trace_construct :: "u8 list \<Rightarrow> STRING option cm" where
  "trace_construct txt = STRING_construct_sprintf True (Some txt) (Some txt)"

definition true_text :: "bool \<Rightarrow> u8 list" where
  "true_text b = lit (if b then ''true'' else ''false'')"

section \<open>Packets received\<close>

text \<open>Sending an answer and deleting it.\<close>

definition send_reply :: "MQTT_CLIENT \<Rightarrow> BUFFER option \<Rightarrow> MQTT_CLIENT cm" where
  "send_reply c pubRel =
     (if pubRel \<noteq> None then do {
        (r, c1) \<leftarrow> sendPacketItem c (BUFFER_u_char pubRel) (BUFFER_length pubRel);
        BUFFER_delete pubRel;
        ret c1
      }
      else ret c)"

definition recv_connack :: "MQTT_CLIENT \<Rightarrow> cursor \<Rightarrow> MQTT_CLIENT cm" where
  "recv_connack c iterator =
     (if fnOperationCallback c then do {
        (present, i1) \<leftarrow> byteutil_readByte iterator;
        (returnCode, i2) \<leftarrow> byteutil_readByte i1;
        let isSessionPresent = (present = 0x1);
        (if logTrace c then do {
           t \<leftarrow> trace_construct (lit ''CONNACK | SESSION_PRESENT: '' @ true_text isSessionPresent @ lit '' | RETURN_CODE: 0x'' @
             map (\<lambda>d. digit_chars ! d) (digits 16 (unat returnCode)));
           STRING_delete t
         } else ret ());
        let c1 = act (Operation MQTT_CLIENT_ON_CONNACK (CONNECT_ACK isSessionPresent returnCode)) c;
        ret (if returnCode = 0 then c1\<lparr>clientConnected := True\<rparr> else c1)
      }
      else ret c)"

definition publish_qos :: "u8 \<Rightarrow> QOS_VALUE" where
  "publish_qos flags = (if flags = 0 then DELIVER_AT_MOST_ONCE
     else if flags AND 0x2 \<noteq> 0 then DELIVER_AT_LEAST_ONCE else DELIVER_EXACTLY_ONCE)"

text \<open>The acknowledgement of a delivered message.\<close>

definition publish_reply :: "MQTT_CLIENT \<Rightarrow> QOS_VALUE \<Rightarrow> u16 \<Rightarrow> MQTT_CLIENT cm" where
  "publish_reply c qosValue packetId = do {
     (pubRel, c1) \<leftarrow> (if qosValue = DELIVER_EXACTLY_ONCE then do {
         p \<leftarrow> mqtt_codec_publishReceived packetId;
         ret (p, if p = None then set_error_callback c MQTT_CLIENT_MEMORY_ERROR else c)
       }
       else if qosValue = DELIVER_AT_LEAST_ONCE then do {
         p \<leftarrow> mqtt_codec_publishAck packetId;
         ret (p, if p = None then set_error_callback c MQTT_CLIENT_MEMORY_ERROR else c)
       }
       else ret (None, c));
     send_reply c1 pubRel
   }"

definition recv_publish :: "MQTT_CLIENT \<Rightarrow> u8 \<Rightarrow> cursor \<Rightarrow> nat \<Rightarrow> MQTT_CLIENT cm" where
  "recv_publish c flags iterator len =
     (if fnMessageRecv c then do {
        let isDuplicateMsg = (flags AND 0x8 \<noteq> 0);
        let isRetainMsg = (flags AND 0x1 \<noteq> 0);
        let qosValue = publish_qos flags;
        trace0 \<leftarrow> (if logTrace c then trace_construct (lit ''PUBLISH | IS_DUP: '' @ true_text isDuplicateMsg @
            lit '' | RETAIN: '' @ lit (if isRetainMsg then ''1'' else ''0'') @ lit '' | QOS: '' @ retrieve_qos_value qosValue)
          else ret None);
        (topicName, i1, l1) \<leftarrow> byteutil_readUTF iterator len;
        if topicName = None then do {
          (if trace0 \<noteq> None then STRING_delete trace0 else ret ());
          ret (set_error_callback c MQTT_CLIENT_PARSE_ERROR)
        }
        else do {
          trace1 \<leftarrow> (if logTrace c then trace_sprintf trace0 (lit '' | TOPIC_NAME: '' @ c_str (blk topicName)) else ret trace0);
          let length1 = szt_minus len (case i1 of None \<Rightarrow> 0 | Some (b, i) \<Rightarrow> i);
          (packetId, i2, trace2) \<leftarrow> (if qosValue \<noteq> DELIVER_AT_MOST_ONCE then do {
              (k, i) \<leftarrow> byteutil_read_uint16 i1 length1;
              t \<leftarrow> (if logTrace c then trace_sprintf trace1 (lit '' | PACKET_ID: '' @ decimal_text (unat k)) else ret trace1);
              ret (k, i, t)
            }
            else ret (0, i1, trace1));
          let length2 = szt_minus len (case i2 of None \<Rightarrow> 0 | Some (b, i) \<Rightarrow> i);
          msg0 \<leftarrow> mqttmessage_create packetId topicName qosValue (map_option (\<lambda>(b, i). drop i b) i2) length2;
          c3 \<leftarrow> (if msg0 = None then do {
              (if trace2 \<noteq> None then STRING_delete trace2 else ret ());
              ret (set_error_callback c MQTT_CLIENT_MEMORY_ERROR)
            }
            else do {
              (e1, msg1) \<leftarrow> mqttmessage_setIsDuplicateMsg msg0 isDuplicateMsg;
              (e2, msg2) \<leftarrow> (if e1 \<noteq> 0 then ret (FAILURE, msg1) else mqttmessage_setIsRetained msg1 isRetainMsg);
              c2 \<leftarrow> (if e2 \<noteq> 0 then do {
                  (if trace2 \<noteq> None then STRING_delete trace2 else ret ());
                  ret (set_error_callback c MQTT_CLIENT_MEMORY_ERROR)
                }
                else do {
                  (if logTrace c then do {
                     t \<leftarrow> trace_sprintf trace2 (lit '' | PAYLOAD_LEN: '' @ decimal_text length2);
                     STRING_delete t
                   } else ret ());
                  publish_reply (act (Message_recv (the msg2)) c) qosValue packetId
                });
              mqttmessage_destroy msg2;
              ret c2
            });
          c_free topicName;
          ret c3
        }
      }
      else ret c)"

definition recv_puback :: "MQTT_CLIENT \<Rightarrow> CONTROL_PACKET_TYPE \<Rightarrow> cursor \<Rightarrow> nat \<Rightarrow> MQTT_CLIENT cm" where
  "recv_puback c packet iterator len =
     (if fnOperationCallback c then do {
        let action = (if packet = PUBACK_TYPE then MQTT_CLIENT_ON_PUBLISH_ACK
          else if packet = PUBREC_TYPE then MQTT_CLIENT_ON_PUBLISH_RECV
          else if packet = PUBREL_TYPE then MQTT_CLIENT_ON_PUBLISH_REL else MQTT_CLIENT_ON_PUBLISH_COMP);
        (packetId, i1) \<leftarrow> byteutil_read_uint16 iterator len;
        (if logTrace c then do {
           t \<leftarrow> trace_construct (lit (if packet = PUBACK_TYPE then ''PUBACK'' else if packet = PUBREC_TYPE then ''PUBREC''
             else if packet = PUBREL_TYPE then ''PUBREL'' else ''PUBCOMP'') @ lit '' | PACKET_ID: '' @ decimal_text (unat packetId));
           STRING_delete t
         } else ret ());
        let c1 = act (Operation action (PUBLISH_ACK packetId)) c;
        (pubRel, c2) \<leftarrow> (if packet = PUBREC_TYPE then do {
            p \<leftarrow> mqtt_codec_publishRelease packetId;
            ret (p, if p = None then set_error_callback c1 MQTT_CLIENT_MEMORY_ERROR else c1)
          }
          else if packet = PUBREL_TYPE then do {
            p \<leftarrow> mqtt_codec_publishComplete packetId;
            ret (p, if p = None then set_error_callback c1 MQTT_CLIENT_MEMORY_ERROR else c1)
          }
          else ret (None, c1));
        send_reply c2 pubRel
      }
      else ret c)"

text \<open>The \<open>while\<close> loop of SUBACK: the return codes read and the trace; an entry of the array takes \<open>sizeof (QOS_VALUE)\<close>, 4 bytes.\<close>

fun suback_loop :: "bool \<Rightarrow> nat \<Rightarrow> cursor \<Rightarrow> nat \<Rightarrow> u8 list \<Rightarrow> STRING option \<Rightarrow> (u8 list \<times> STRING option) cm" where
  "suback_loop logging sz iterator 0 codesRead trace = ret (codesRead, trace)"
| "suback_loop logging sz iterator (Suc n) codesRead trace = do {
     (v, i1) \<leftarrow> byteutil_readByte iterator;
     c_assert (4 * (length codesRead + 1) \<le> sz);
     t \<leftarrow> (if logging then trace_sprintf trace (lit '' | RETURN_CODE: '' @ decimal_text (unat v)) else ret trace);
     suback_loop logging sz i1 n (codesRead @ [v]) t
   }"

definition recv_suback :: "MQTT_CLIENT \<Rightarrow> cursor \<Rightarrow> nat \<Rightarrow> MQTT_CLIENT cm" where
  "recv_suback c iterator len =
     (if fnOperationCallback c then do {
        (packetId, i1) \<leftarrow> byteutil_read_uint16 iterator len;
        let remainLen = szt_minus len 2;
        trace0 \<leftarrow> (if logTrace c then trace_construct (lit ''SUBACK | PACKET_ID: '' @ decimal_text (unat packetId)) else ret None);
        codesRead \<leftarrow> c_malloc (szt (4 * remainLen));
        (case codesRead of
           Some block \<Rightarrow> do {
             (codes, trace1) \<leftarrow> suback_loop (logTrace c) (length block) i1 remainLen [] trace0;
             (if logTrace c then STRING_delete trace1 else ret ());
             c_free (Some block);
             ret (act (Operation MQTT_CLIENT_ON_SUBSCRIBE_ACK (SUBSCRIBE_ACK packetId codes)) c)
           }
         | None \<Rightarrow> ret (set_error_callback c MQTT_CLIENT_MEMORY_ERROR))
      }
      else ret c)"

definition recv_unsuback :: "MQTT_CLIENT \<Rightarrow> cursor \<Rightarrow> nat \<Rightarrow> MQTT_CLIENT cm" where
  "recv_unsuback c iterator len =
     (if fnOperationCallback c then do {
        (packetId, i1) \<leftarrow> byteutil_read_uint16 iterator len;
        (if logTrace c then do {
           t \<leftarrow> trace_construct (lit ''UNSUBACK | PACKET_ID: '' @ decimal_text (unat packetId));
           STRING_delete t
         } else ret ());
        ret (act (Operation MQTT_CLIENT_ON_UNSUBSCRIBE_ACK (UNSUBSCRIBE_ACK packetId)) c)
      }
      else ret c)"

definition recv_pingresp :: "MQTT_CLIENT \<Rightarrow> MQTT_CLIENT cm" where
  "recv_pingresp c = do {
     let c1 = c\<lparr>timeSincePing := 0\<rparr>;
     (if logTrace c1 then do { t \<leftarrow> trace_construct (lit ''PINGRESP''); STRING_delete t } else ret ());
     ret (if fnOperationCallback c1 then act (Operation MQTT_CLIENT_ON_PING_RESPONSE No_info) c1 else c1)
   }"

definition recvCompleteCallback :: "MQTT_CLIENT \<Rightarrow> CONTROL_PACKET_TYPE \<Rightarrow> u8 \<Rightarrow> BUFFER option \<Rightarrow> MQTT_CLIENT cm" where
  "recvCompleteCallback c packet flags hdrData =
     (if hdrData \<noteq> None \<or> packet = PINGRESP_TYPE then
        let len = BUFFER_length hdrData; iterator = map_option (\<lambda>b. (b, 0)) (BUFFER_u_char hdrData)
        in if (iterator \<noteq> None \<and> len > 0) \<or> packet = PINGRESP_TYPE then
             if packet = CONNACK_TYPE then recv_connack c iterator
             else if packet = PUBLISH_TYPE then recv_publish c flags iterator len
             else if packet = PUBACK_TYPE \<or> packet = PUBREC_TYPE \<or> packet = PUBREL_TYPE \<or> packet = PUBCOMP_TYPE
               then recv_puback c packet iterator len
             else if packet = SUBACK_TYPE then recv_suback c iterator len
             else if packet = UNSUBACK_TYPE then recv_unsuback c iterator len
             else if packet = PINGRESP_TYPE then recv_pingresp c
             else ret c
           else ret c
      else ret c)"

section \<open>Events of the transport\<close>

definition onOpenComplete :: "MQTT_CLIENT option \<Rightarrow> IO_OPEN_RESULT \<Rightarrow> MQTT_CLIENT option cm" where
  "onOpenComplete context open_result =
     (case context of
        None \<Rightarrow> ret None
      | Some c \<Rightarrow>
          if open_result = IO_OPEN_OK \<and> \<not> socketConnected c then do {
            let c1 = c\<lparr>packetState := CONNECT_TYPE, socketConnected := True\<rparr>;
            trace0 \<leftarrow> construct_trace_log_handle c1;
            (connPacket, trace1) \<leftarrow> mqtt_codec_connect (Some (mqttOptions c1)) trace0;
            c2 \<leftarrow> (if connPacket = None then ret c1
              else do {
                (r, c') \<leftarrow> sendPacketItem c1 (BUFFER_u_char connPacket) (BUFFER_length connPacket);
                BUFFER_delete connPacket;
                ret c'
              });
            (if trace1 \<noteq> None then STRING_delete trace1 else ret ());
            ret (Some c2)
          }
          else ret (Some (close_connection
            (if \<not> socketConnected c \<and> fnOnErrorCallBack c then act (On_error MQTT_CLIENT_CONNECTION_ERROR) c else c))))"

text \<open>\<open>mqtt_codec_bytesReceived\<close> with \<open>recvCompleteCallback\<close> as its callback: the packets a byte completes are handled before the next byte.\<close>

fun recv_packets :: "MQTT_CLIENT \<Rightarrow> packet_event list \<Rightarrow> MQTT_CLIENT cm" where
  "recv_packets c [] = ret c"
| "recv_packets c ((packet, flags, hdrData) # evs) = do {
     c1 \<leftarrow> recvCompleteCallback c packet flags hdrData;
     recv_packets c1 evs
   }"

fun client_bytes_loop :: "MQTT_CLIENT \<Rightarrow> u8 list \<Rightarrow> nat \<Rightarrow> nat \<Rightarrow> (int \<times> MQTT_CLIENT) cm" where
  "client_bytes_loop c buf index 0 = ret (0, c)"
| "client_bytes_loop c buf index (Suc n) = do {
     iterator \<leftarrow> c_load buf index;
     (r, d, ev) \<leftarrow> codec_byte (the (codec_handle c)) iterator;
     c1 \<leftarrow> recv_packets (c\<lparr>codec_handle := Some d\<rparr>) ev;
     if r \<noteq> 0 then ret (r, c1) else client_bytes_loop c1 buf (Suc index) n
   }"

definition client_bytesReceived :: "MQTT_CLIENT \<Rightarrow> u8 list option \<Rightarrow> nat \<Rightarrow> (int \<times> MQTT_CLIENT) cm" where
  "client_bytesReceived c buf n =
     (case codec_handle c of
        None \<Rightarrow> ret (FAILURE, c)
      | Some d \<Rightarrow>
          (case buf of
             None \<Rightarrow> ret (FAILURE, c\<lparr>codec_handle := Some (d\<lparr>currPacket := PACKET_TYPE_ERROR\<rparr>)\<rparr>)
           | Some b \<Rightarrow>
               if n = 0 then ret (FAILURE, c\<lparr>codec_handle := Some (d\<lparr>currPacket := PACKET_TYPE_ERROR\<rparr>)\<rparr>)
               else client_bytes_loop c b 0 n))"

definition onBytesReceived :: "MQTT_CLIENT option \<Rightarrow> u8 list option \<Rightarrow> nat \<Rightarrow> MQTT_CLIENT option cm" where
  "onBytesReceived context buf n =
     (case context of
        None \<Rightarrow> ret None
      | Some c \<Rightarrow> do {
          (r, c1) \<leftarrow> client_bytesReceived c buf n;
          ret (Some (if r \<noteq> 0 then set_error_callback c1 MQTT_CLIENT_PARSE_ERROR else c1))
        })"

definition onIoError :: "MQTT_CLIENT option \<Rightarrow> MQTT_CLIENT option" where
  "onIoError context =
     (case context of
        None \<Rightarrow> None
      | Some c \<Rightarrow> Some (if fnOperationCallback c then set_error_callback c MQTT_CLIENT_CONNECTION_ERROR else c))"

text \<open>What the transport reports from \<open>xio_dowork\<close>.\<close>

datatype io_event = Ev_open IO_OPEN_RESULT | Ev_bytes "u8 list" | Ev_error | Ev_sent IO_SEND_RESULT | Ev_closed

fun client_event :: "io_event \<Rightarrow> MQTT_CLIENT \<Rightarrow> MQTT_CLIENT cm" where
  "client_event (Ev_open r) c = do { c1 \<leftarrow> onOpenComplete (Some c) r; ret (the c1) }"
| "client_event (Ev_bytes bs) c = do { c1 \<leftarrow> onBytesReceived (Some c) (Some bs) (length bs); ret (the c1) }"
| "client_event Ev_error c = ret (the (onIoError (Some c)))"
| "client_event (Ev_sent r) c = ret (the (sendComplete (Some c) r))"
| "client_event Ev_closed c = ret (on_connection_closed c)"

fun xio_dowork :: "io_event list \<Rightarrow> MQTT_CLIENT \<Rightarrow> MQTT_CLIENT cm" where
  "xio_dowork [] c = ret c"
| "xio_dowork (e # es) c = do { c1 \<leftarrow> client_event e c; xio_dowork es c1 }"

section \<open>Options\<close>

definition clear_mqtt_options :: "MQTT_CLIENT \<Rightarrow> MQTT_CLIENT cm" where
  "clear_mqtt_options c = do {
     c_free (clientId (mqttOptions c));
     c_free (willTopic (mqttOptions c));
     c_free (willMessage (mqttOptions c));
     c_free (username (mqttOptions c));
     c_free (password (mqttOptions c));
     ret (c\<lparr>mqttOptions := (mqttOptions c)\<lparr>clientId := None, willTopic := None, willMessage := None, username := None, password := None\<rparr>\<rparr>)
   }"

text \<open>One field: the copy replaces the old string, unless an earlier field or the copy failed.\<close>

definition clone_option :: "int \<Rightarrow> u8 list option \<Rightarrow> u8 list option \<Rightarrow> (int \<times> u8 list option) cm" where
  "clone_option result source old =
     (if result = 0 \<and> source \<noteq> None then do {
        (e, copy) \<leftarrow> mallocAndStrcpy_s True source;
        if e \<noteq> 0 then ret (FAILURE, old)
        else do { c_free old; ret (result, the copy) }
      }
      else ret (result, old))"

definition cloneMqttOptions :: "MQTT_CLIENT \<Rightarrow> MQTT_CLIENT_OPTIONS \<Rightarrow> (int \<times> MQTT_CLIENT) cm" where
  "cloneMqttOptions c options = do {
     let o1 = mqttOptions c;
     (r1, s1) \<leftarrow> clone_option 0 (clientId options) (clientId o1);
     (r2, s2) \<leftarrow> clone_option r1 (willTopic options) (willTopic o1);
     (r3, s3) \<leftarrow> clone_option r2 (willMessage options) (willMessage o1);
     (r4, s4) \<leftarrow> clone_option r3 (username options) (username o1);
     (r5, s5) \<leftarrow> clone_option r4 (password options) (password o1);
     let o2 = o1\<lparr>clientId := s1, willTopic := s2, willMessage := s3, username := s4, password := s5\<rparr>;
     if r5 = 0 then ret (r5, c\<lparr>mqttOptions := o2\<lparr>keepAliveInterval := keepAliveInterval options, messageRetain := messageRetain options,
       useCleanSession := useCleanSession options, willQos := willQos options\<rparr>\<rparr>)
     else do { c1 \<leftarrow> clear_mqtt_options (c\<lparr>mqttOptions := o2\<rparr>); ret (r5, c1) }
   }"

section \<open>The interface of the client\<close>

definition no_options :: MQTT_CLIENT_OPTIONS where
  "no_options = \<lparr>clientId = None, willTopic = None, willMessage = None, username = None, password = None, keepAliveInterval = 0,
     messageRetain = False, useCleanSession = False, willQos = DELIVER_AT_MOST_ONCE, log_trace = False\<rparr>"

definition mqtt_client_init :: "bool \<Rightarrow> bool \<Rightarrow> bool \<Rightarrow> io_env \<Rightarrow> MQTT_CLIENT option cm" where
  "mqtt_client_init msgRecv opCallback onErrorCallBack io =
     (if \<not> msgRecv then ret None
      else do {
        ok \<leftarrow> c_new;
        if \<not> ok then ret None
        else do {
          (tick, io1) \<leftarrow> tickcounter_create io;
          let c = \<lparr>xioHandle = False, codec_handle = None, packetState = UNKNOWN_TYPE, packetTickCntr = tick, packetSendTimeMs = 0,
            fnOperationCallback = opCallback, fnMessageRecv = msgRecv, fnOnErrorCallBack = onErrorCallBack, disconnect_cb = False,
            cl_qosValue = DELIVER_AT_MOST_ONCE, cl_keepAliveInterval = 0, mqttOptions = no_options, clientConnected = False,
            socketConnected = False, logTrace = False, rawBytesTrace = False, timeSincePing = 0,
            maxPingRespTime = DEFAULT_MAX_PING_RESPONSE_TIME, env = io1\<rparr>;
          if tick = None then do { c_free (Some c); ret None }
          else do {
            d \<leftarrow> mqtt_codec_create True;
            if d = None then do { tickcounter_destroy tick; c_free (Some c); ret None }
            else ret (Some (c\<lparr>codec_handle := d\<rparr>))
          }
        }
      })"

definition mqtt_client_deinit :: "MQTT_CLIENT option \<Rightarrow> unit cm" where
  "mqtt_client_deinit handle =
     (case handle of
        None \<Rightarrow> ret ()
      | Some c \<Rightarrow> do {
          tickcounter_destroy (packetTickCntr c);
          mqtt_codec_destroy (codec_handle c);
          c1 \<leftarrow> clear_mqtt_options c;
          c_free (Some c1)
        })"

definition mqtt_client_connect :: "MQTT_CLIENT option \<Rightarrow> bool \<Rightarrow> MQTT_CLIENT_OPTIONS option \<Rightarrow> (int \<times> MQTT_CLIENT option) cm" where
  "mqtt_client_connect handle xio options =
     (case (handle, options) of
        (Some c, Some opts) \<Rightarrow>
          if \<not> xio then ret (FAILURE, handle)
          else do {
            let half = keepAliveInterval opts div 2;
            let c1 = c\<lparr>xioHandle := xio, packetState := UNKNOWN_TYPE, cl_qosValue := willQos opts,
              cl_keepAliveInterval := keepAliveInterval opts,
              maxPingRespTime := (if DEFAULT_MAX_PING_RESPONSE_TIME < half then DEFAULT_MAX_PING_RESPONSE_TIME else half)\<rparr>;
            (e, c2) \<leftarrow> cloneMqttOptions c1 opts;
            if e \<noteq> 0 then ret (FAILURE, Some c2)
            else do {
              let r = answer 0 (open_answers (env c2));
              let c3 = act Xio_open (c2\<lparr>env := (env c2)\<lparr>open_answers := tl (open_answers (env c2))\<rparr>\<rparr>);
              if r \<noteq> 0 then do { c4 \<leftarrow> clear_mqtt_options c3; ret (FAILURE, Some c4) }
              else ret (0, Some c3)
            }
          }
      | _ \<Rightarrow> ret (FAILURE, handle))"

text \<open>Sending a packet that was built with a trace: the common end of publish, subscribe and unsubscribe.\<close>

definition send_built :: "MQTT_CLIENT \<Rightarrow> CONTROL_PACKET_TYPE \<Rightarrow> BUFFER option \<Rightarrow> STRING option \<Rightarrow> (int \<times> MQTT_CLIENT) cm" where
  "send_built c type packet trace = do {
     (result, c2) \<leftarrow> (if packet = None then ret (FAILURE, c)
       else do {
         let c1 = c\<lparr>packetState := type\<rparr>;
         (r, c') \<leftarrow> sendPacketItem c1 (BUFFER_u_char packet) (BUFFER_length packet);
         BUFFER_delete packet;
         ret (if r \<noteq> 0 then FAILURE else 0, c')
       });
     (if trace \<noteq> None then STRING_delete trace else ret ());
     ret (result, c2)
   }"

definition mqtt_client_publish :: "MQTT_CLIENT option \<Rightarrow> MQTT_MESSAGE option \<Rightarrow> (int \<times> MQTT_CLIENT option) cm" where
  "mqtt_client_publish handle msgHandle =
     (case handle of
        None \<Rightarrow> ret (FAILURE, handle)
      | Some c \<Rightarrow>
          if msgHandle = None then ret (FAILURE, handle)
          else (case mqttmessage_getApplicationMsg msgHandle of
            None \<Rightarrow> ret (FAILURE, handle)
          | Some payload \<Rightarrow> do {
              trace0 \<leftarrow> construct_trace_log_handle c;
              (publishPacket, trace1) \<leftarrow> mqtt_codec_publish (mqttmessage_getQosType msgHandle) (mqttmessage_getIsDuplicateMsg msgHandle)
                (mqttmessage_getIsRetained msgHandle) (mqttmessage_getPacketId msgHandle) (mqttmessage_getTopicName msgHandle)
                (pl_message payload) (pl_length payload) trace0;
              (r, c1) \<leftarrow> send_built c PUBLISH_TYPE publishPacket trace1;
              ret (r, Some c1)
            }))"

definition mqtt_client_subscribe ::
  "MQTT_CLIENT option \<Rightarrow> u16 \<Rightarrow> SUBSCRIBE_PAYLOAD list option \<Rightarrow> nat \<Rightarrow> (int \<times> MQTT_CLIENT option) cm" where
  "mqtt_client_subscribe handle packetId subscribeList count =
     (case handle of
        None \<Rightarrow> ret (FAILURE, handle)
      | Some c \<Rightarrow>
          if subscribeList = None \<or> count = 0 \<or> packetId = 0 then ret (FAILURE, handle)
          else do {
            trace0 \<leftarrow> construct_trace_log_handle c;
            (subPacket, trace1) \<leftarrow> mqtt_codec_subscribe packetId subscribeList count trace0;
            (r, c1) \<leftarrow> send_built c SUBSCRIBE_TYPE subPacket trace1;
            ret (r, Some c1)
          })"

definition mqtt_client_unsubscribe ::
  "MQTT_CLIENT option \<Rightarrow> u16 \<Rightarrow> u8 list list option \<Rightarrow> nat \<Rightarrow> (int \<times> MQTT_CLIENT option) cm" where
  "mqtt_client_unsubscribe handle packetId unsubscribeList count =
     (case handle of
        None \<Rightarrow> ret (FAILURE, handle)
      | Some c \<Rightarrow>
          if unsubscribeList = None \<or> count = 0 \<or> packetId = 0 then ret (FAILURE, handle)
          else do {
            trace0 \<leftarrow> construct_trace_log_handle c;
            (unsubPacket, trace1) \<leftarrow> mqtt_codec_unsubscribe packetId unsubscribeList count trace0;
            (r, c1) \<leftarrow> send_built c UNSUBSCRIBE_TYPE unsubPacket trace1;
            ret (r, Some c1)
          })"

definition mqtt_client_disconnect :: "MQTT_CLIENT option \<Rightarrow> bool \<Rightarrow> (int \<times> MQTT_CLIENT option) cm" where
  "mqtt_client_disconnect handle callback =
     (case handle of
        None \<Rightarrow> ret (FAILURE, handle)
      | Some c \<Rightarrow>
          if xioHandle c then do {
            disconnectPacket \<leftarrow> mqtt_codec_disconnect;
            if disconnectPacket = None then ret (FAILURE, Some (c\<lparr>packetState := PACKET_TYPE_ERROR\<rparr>))
            else do {
              let c1 = c\<lparr>disconnect_cb := callback, packetState := DISCONNECT_TYPE\<rparr>;
              (e, c2) \<leftarrow> sendPacketItem c1 (BUFFER_u_char disconnectPacket) (BUFFER_length disconnectPacket);
              (if e = 0 \<and> logTrace c2 then do { t \<leftarrow> STRING_construct (Some (clit ''DISCONNECT'')); STRING_delete t } else ret ());
              BUFFER_delete disconnectPacket;
              c3 \<leftarrow> clear_mqtt_options c2;
              ret (if e \<noteq> 0 then FAILURE else 0, Some (c3\<lparr>xioHandle := False\<rparr>))
            }
          }
          else ret (0, handle))"

definition ping_work :: "MQTT_CLIENT \<Rightarrow> MQTT_CLIENT cm" where
  "ping_work c =
     (if socketConnected c \<and> clientConnected c \<and> cl_keepAliveInterval c > 0 then
        (case tickcounter_get_current_ms c of
           (e, current_ms, c1) \<Rightarrow>
             if e \<noteq> 0 then ret c1
             else if timeSincePing c1 > 0 \<and> (current_ms - timeSincePing c1) div 1000 > ucast (maxPingRespTime c1) then
               ret ((set_error_callback c1 MQTT_CLIENT_NO_PING_RESPONSE)\<lparr>timeSincePing := 0, packetSendTimeMs := 0, packetState := UNKNOWN_TYPE\<rparr>)
             else if (current_ms - packetSendTimeMs c1) div 1000 + KEEP_ALIVE_BUFFER_SEC > ucast (cl_keepAliveInterval c1) then do {
               pingPacket \<leftarrow> mqtt_codec_ping;
               if pingPacket \<noteq> None then do {
                 (r, c2) \<leftarrow> sendPacketItem c1 (BUFFER_u_char pingPacket) (BUFFER_length pingPacket);
                 BUFFER_delete pingPacket;
                 let (e2, ms2, c3) = tickcounter_get_current_ms c2;
                 let c4 = (if e2 = 0 then c3\<lparr>timeSincePing := ms2\<rparr> else c3);
                 (if logTrace c4 then do { t \<leftarrow> STRING_construct (Some (clit ''PINGREQ'')); STRING_delete t } else ret ());
                 ret c4
               }
               else ret c1
             }
             else ret c1)
      else ret c)"

definition mqtt_client_dowork :: "MQTT_CLIENT option \<Rightarrow> io_event list \<Rightarrow> MQTT_CLIENT option cm" where
  "mqtt_client_dowork handle events =
     (case handle of
        None \<Rightarrow> ret None
      | Some c \<Rightarrow>
          if xioHandle c then do {
            c1 \<leftarrow> xio_dowork events c;
            c2 \<leftarrow> ping_work c1;
            ret (Some c2)
          }
          else ret handle)"

definition mqtt_client_set_trace :: "MQTT_CLIENT option \<Rightarrow> bool \<Rightarrow> bool \<Rightarrow> MQTT_CLIENT option" where
  "mqtt_client_set_trace handle traceOn rawBytesOn =
     map_option (\<lambda>c. c\<lparr>logTrace := traceOn, rawBytesTrace := rawBytesOn\<rparr>) handle"

end
