(* ===== verification/MqttSession.thy ===== *)
theory MqttSession
  imports MqttClient
begin

text \<open>
  What the MQTT client does for its application: packets of the peer are reported once each and in order, however the
  connection cuts them and whatever the transport answers; messages published on one side arrive on the other; idle connections are
  kept alive; and a client that is created, used and torn down leaves no block behind. The trace log is off throughout.
\<close>

section \<open>What the transport cannot change\<close>

text \<open>The fields of a client that answers of the transport and of the clock do not touch, and the calls of the application's
  operation and message callbacks made so far.\<close>

definition fixed where
  "fixed c = (xioHandle c, codec_handle c, packetState c, packetTickCntr c, fnOperationCallback c, fnMessageRecv c, fnOnErrorCallBack c,
     disconnect_cb c, cl_qosValue c, cl_keepAliveInterval c, mqttOptions c, logTrace c, rawBytesTrace c, maxPingRespTime c)"

fun app_call :: "client_action \<Rightarrow> bool" where
  "app_call (Operation _ _) = True"
| "app_call (Message_recv _) = True"
| "app_call _ = False"

definition app_calls :: "MQTT_CLIENT \<Rightarrow> client_action list" where
  "app_calls c = filter app_call (actions (env c))"

text \<open>Both at once, for a step of the transport.\<close>

definition quiet :: "MQTT_CLIENT \<Rightarrow> MQTT_CLIENT \<Rightarrow> bool" where
  "quiet c c' \<longleftrightarrow> fixed c' = fixed c \<and> app_calls c' = app_calls c"

lemma fixed_act [simp]: "fixed (act a c) = fixed c"
  by (simp add: fixed_def act_def)

lemma app_calls_act [simp]: "app_calls (act a c) = app_calls c @ (if app_call a then [a] else [])"
  by (simp add: app_calls_def act_def)

lemma fixedD:
  assumes "fixed c' = fixed c"
  shows "xioHandle c' = xioHandle c" "codec_handle c' = codec_handle c" "packetState c' = packetState c"
    "packetTickCntr c' = packetTickCntr c" "fnOperationCallback c' = fnOperationCallback c" "fnMessageRecv c' = fnMessageRecv c"
    "fnOnErrorCallBack c' = fnOnErrorCallBack c" "disconnect_cb c' = disconnect_cb c" "mqttOptions c' = mqttOptions c"
    "logTrace c' = logTrace c" "cl_keepAliveInterval c' = cl_keepAliveInterval c" "maxPingRespTime c' = maxPingRespTime c"
  using assms by (simp_all add: fixed_def)

lemma quiet_refl [simp]: "quiet c c"
  by (simp add: quiet_def)

lemma quiet_trans: "quiet a b \<Longrightarrow> quiet b c \<Longrightarrow> quiet a c"
  by (simp add: quiet_def)

lemma act_simps [simp]:
  "xioHandle (act a c) = xioHandle c" "codec_handle (act a c) = codec_handle c" "packetState (act a c) = packetState c"
  "packetTickCntr (act a c) = packetTickCntr c" "fnOperationCallback (act a c) = fnOperationCallback c"
  "fnMessageRecv (act a c) = fnMessageRecv c" "fnOnErrorCallBack (act a c) = fnOnErrorCallBack c" "disconnect_cb (act a c) = disconnect_cb c"
  "logTrace (act a c) = logTrace c" "mqttOptions (act a c) = mqttOptions c"
  by (simp_all add: act_def)

lemma quiet_closed: "quiet c (on_connection_closed c)"
  by (simp add: quiet_def on_connection_closed_def Let_def act_def fixed_def app_calls_def)

lemma quiet_xio_close: "quiet c (xio_close c)"
  by (simp add: xio_close_def Let_def on_connection_closed_def quiet_def act_def fixed_def app_calls_def)

lemma quiet_closing: "quiet c (xio_dowork_closing c)"
  by (simp add: xio_dowork_closing_def Let_def on_connection_closed_def quiet_def act_def fixed_def app_calls_def)

lemma quiet_close_loop: "quiet c (close_loop n c)"
proof (induction n arbitrary: c)
  case (Suc n)
  then show ?case using quiet_closing [of c] by (auto simp: Let_def intro: quiet_trans)
qed simp

lemma quiet_close_connection: "quiet c (close_connection c)"
  using quiet_xio_close quiet_close_loop by (auto simp: close_connection_def Let_def intro: quiet_trans)

lemma quiet_set_error [simp]: "quiet c (set_error_callback c e)"
proof -
  have "quiet c (if fnOnErrorCallBack c then act (On_error e) c else c)" by (simp add: quiet_def)
  then show ?thesis using quiet_close_connection quiet_trans unfolding set_error_callback_def by blast
qed

lemma quiet_sendComplete: "packetState c \<noteq> DISCONNECT_TYPE \<Longrightarrow> quiet c (the (sendComplete (Some c) s))"
  by (simp add: sendComplete_def)

lemma quiet_xio_send: "packetState c \<noteq> DISCONNECT_TYPE \<Longrightarrow> quiet c (snd (xio_send c bs))"
proof -
  assume c: "packetState c \<noteq> DISCONNECT_TYPE"
  let ?c1 = "c\<lparr>env := (env c)\<lparr>send_answers := tl (send_answers (env c))\<rparr>\<rparr>"
  let ?c2 = "\<lambda>r. if r = (0::int) then act (Xio_send bs) ?c1 else ?c1"
  have 1: "quiet c (?c2 r)" "packetState (?c2 r) \<noteq> DISCONNECT_TYPE" for r
    using c by (simp_all add: quiet_def act_def fixed_def app_calls_def)
  have "quiet c (case k of None \<Rightarrow> ?c2 r | Some s \<Rightarrow> the (sendComplete (Some (?c2 r)) s))" for r k
    using 1 [of r] quiet_sendComplete [of "?c2 r"] by (cases k) (auto intro: quiet_trans)
  then show ?thesis by (auto simp: xio_send_def Let_def split: prod.splits)
qed

text \<open>The next reading of the clock, in milliseconds.\<close>

definition now_ms :: "MQTT_CLIENT \<Rightarrow> u32" where
  "now_ms c = ms_of_ticks (too_large (env c)) (answer 0 (ticks (env c)) - original_tick_count (the (packetTickCntr c)))"

lemma read_clock:
  "packetTickCntr c \<noteq> None \<Longrightarrow> tickcounter_get_current_ms c = (0, now_ms c, c\<lparr>env := (env c)\<lparr>ticks := tl (ticks (env c))\<rparr>\<rparr>)"
  by (auto simp: tickcounter_get_current_ms_def xTaskGetTickCount_def now_ms_def)

text \<open>Sending: the world is unchanged, and of the client only what the transport may change. With an answer that neither fails nor
  completes at once, the bytes are the only action.\<close>

lemma wp_sendPacketItem:
  assumes "packetTickCntr c \<noteq> None" "packetState c \<noteq> DISCONNECT_TYPE" "len \<le> length (blk data)"
    and "\<And>r c'. quiet c c' \<Longrightarrow> Q (r, c') w"
  shows "wp (sendPacketItem c data len) Q w"
proof -
  let ?c = "c\<lparr>env := (env c)\<lparr>ticks := tl (ticks (env c))\<rparr>, packetSendTimeMs := now_ms c\<rparr>"
  have "quiet c ?c" "packetState ?c \<noteq> DISCONNECT_TYPE" using assms(2) by (simp_all add: quiet_def fixed_def app_calls_def)
  then have "quiet c (snd (xio_send ?c (take len (blk data))))" using quiet_xio_send quiet_trans by blast
  then show ?thesis
    using assms by (auto simp: sendPacketItem_def read_clock split: prod.splits)
qed

lemma wp_send_reply:
  assumes "packetTickCntr c \<noteq> None" "packetState c \<noteq> DISCONNECT_TYPE" "\<And>b. p = Some b \<Longrightarrow> \<exists>bs. b = mkbuf bs"
    and "\<And>c'. quiet c c' \<Longrightarrow> Q c' (w\<lparr>live := live w - buf_blocks p\<rparr>)"
  shows "wp (send_reply c p) Q w"
proof (cases p)
  case None
  then show ?thesis using assms(4) [of c] by (simp add: send_reply_def)
next
  case (Some b)
  then obtain bs where b: "b = mkbuf bs" using assms(3) by blast
  show ?thesis
    unfolding send_reply_def Some known_conds wp_bind
    by (rule wp_sendPacketItem [OF assms(1,2)]) (use assms(4) Some b in \<open>simp_all add: BUFFER_u_char_def mkbuf_def\<close>)
qed

section \<open>Reading the fields of a packet\<close>

lemma read_be16: "256 * ucast (ucast (v div 256) :: u8) + ucast (ucast (v mod 256) :: u8) = (v :: u16)"
proof (rule word_unat_eq_iff [THEN iffD2])
  have hi: "unat (ucast (ucast (v div 256) :: u8) :: u16) = unat v div 256"
    using unat_u16 [of v] by (simp add: unsigned_ucast_eq unsigned_take_bit_eq unat_div take_bit_nat_eq_self)
  have lo: "unat (ucast (ucast (v mod 256) :: u8) :: u16) = unat v mod 256"
    by (simp add: unsigned_ucast_eq unsigned_take_bit_eq unat_mod take_bit_nat_eq_self)
  have "256 * (unat v div 256) + unat v mod 256 = unat v" by simp
  then show "unat (256 * ucast (ucast (v div 256) :: u8) + ucast (ucast (v mod 256) :: u8) :: u16) = unat v"
    using unat_u16 [of v] by (simp add: unat_word_ariths hi lo)
qed

lemma be16_nth: "256 * ucast (be16 v ! 0) + ucast (be16 v ! 1) = v"
  using read_be16 [of v] by (simp add: be16_def)

lemma wp_read_uint16 [simp]:
  "2 \<le> len \<Longrightarrow> wp (byteutil_read_uint16 (Some (xs @ be16 v @ ys, length xs)) len) Q w = Q (v, Some (xs @ be16 v @ ys, length xs + 2)) w"
  using be16_nth [of v] by (simp add: byteutil_read_uint16_def nth_append be16_def)

lemma wp_read_uint16_0 [simp]:
  "2 \<le> len \<Longrightarrow> wp (byteutil_read_uint16 (Some (be16 v @ ys, 0)) len) Q w = Q (v, Some (be16 v @ ys, 2)) w"
  using wp_read_uint16 [of len "[]" v ys] by (simp add: numeral_2_eq_2)

lemma wp_readUTF:
  assumes "0 < length t" "length t \<le> USHRT_MAX" "b = utf_field t @ ys" "2 \<le> len"
    and "\<And>w'. next_alloc w = None \<Longrightarrow> avail w' = tl (avail w) \<Longrightarrow> live w' = live w \<Longrightarrow> faults w' = faults w \<Longrightarrow>
      Q (None, Some (b, 2), len) w'"
    and "\<And>w'. next_alloc w \<noteq> None \<Longrightarrow> avail w' = tl (avail w) \<Longrightarrow> live w' = live w + 1 \<Longrightarrow> faults w' = faults w \<Longrightarrow>
      Q (Some (t @ [0]), Some (b, length t + 2), length t) w'"
  shows "wp (byteutil_readUTF (Some (b, 0)) len) Q w"
proof -
  let ?n = "of_nat (length t) :: u16"
  have n: "unat ?n = length t" using assms(2) by (simp add: unsigned_of_nat take_bit_nat_eq_self USHRT_MAX_def)
  then have pos: "0 < ?n" using assms(1) by (simp add: word_less_nat_alt)
  have b: "b = be16 ?n @ t @ ys" using assms(3) by (simp add: utf_field_def)
  have copy: "put r 0 t = t @ drop (length t) r" "(t @ drop (length t) r)[length t := 0] = t @ [0]" if "length r = length t + 1" for r
  proof -
    have "length (drop (length t) r) = Suc 0" using that by simp
    then obtain x where "drop (length t) r = [x]" by (auto simp only: length_Suc_conv length_0_conv)
    then show "put r 0 t = t @ drop (length t) r" "(t @ drop (length t) r)[length t := 0] = t @ [0]" by (simp_all add: put_0)
  qed
  have "wp (c_malloc (length t + 1)) R w"
    if "\<And>w'. next_alloc w = None \<Longrightarrow> avail w' = tl (avail w) \<Longrightarrow> live w' = live w \<Longrightarrow> faults w' = faults w \<Longrightarrow> R None w'"
      "\<And>r w'. length r = length t + 1 \<Longrightarrow> next_alloc w \<noteq> None \<Longrightarrow> avail w' = tl (avail w) \<Longrightarrow> live w' = live w + 1 \<Longrightarrow>
        faults w' = faults w \<Longrightarrow> R (Some r) w'" for R
    by (rule wp_malloc) (use that in auto)
  then show ?thesis
    using assms(4-6) pos by (simp add: byteutil_readUTF_def b n copy add.commute)
qed

section \<open>Packets of the peer\<close>

datatype peer_packet = P_connack bool u8
  | P_publish QOS_VALUE bool bool u16 "u8 list" "u8 list"
  | P_puback u16 | P_pubrec u16 | P_pubrel u16 | P_pubcomp u16
  | P_suback u16 "u8 list" | P_unsuback u16 | P_pingresp

text \<open>The first byte and the body on the wire.\<close>

fun peer_wire :: "peer_packet \<Rightarrow> u8 \<times> u8 list" where
  "peer_wire (P_connack s code) = (CONNACK_TYPE, [if s then 1 else 0, code])"
| "peer_wire (P_publish q dup retain k t p) = (PUBLISH_TYPE OR publish_flags q dup retain, utf_field t @ publish_id q k @ p)"
| "peer_wire (P_puback k) = (PUBACK_TYPE, be16 k)"
| "peer_wire (P_pubrec k) = (PUBREC_TYPE, be16 k)"
| "peer_wire (P_pubrel k) = (PUBREL_TYPE OR 2, be16 k)"
| "peer_wire (P_pubcomp k) = (PUBCOMP_TYPE, be16 k)"
| "peer_wire (P_suback k codes) = (SUBACK_TYPE, be16 k @ codes)"
| "peer_wire (P_unsuback k) = (UNSUBACK_TYPE, be16 k)"
| "peer_wire P_pingresp = (PINGRESP_TYPE, [])"

text \<open>The message a PUBLISH becomes.\<close>

definition received_message :: "QOS_VALUE \<Rightarrow> bool \<Rightarrow> bool \<Rightarrow> u16 \<Rightarrow> u8 list \<Rightarrow> u8 list \<Rightarrow> MQTT_MESSAGE" where
  "received_message q dup retain k t p = (new_message (if q = DELIVER_AT_MOST_ONCE then 0 else k) t q p)
     \<lparr>msg_isDuplicateMsg := dup, msg_isMessageRetained := retain\<rparr>"

text \<open>What the application is called with.\<close>

fun peer_calls :: "peer_packet \<Rightarrow> client_action list" where
  "peer_calls (P_connack s code) = [Operation MQTT_CLIENT_ON_CONNACK (CONNECT_ACK s code)]"
| "peer_calls (P_publish q dup retain k t p) = [Message_recv (received_message q dup retain k t p)]"
| "peer_calls (P_puback k) = [Operation MQTT_CLIENT_ON_PUBLISH_ACK (PUBLISH_ACK k)]"
| "peer_calls (P_pubrec k) = [Operation MQTT_CLIENT_ON_PUBLISH_RECV (PUBLISH_ACK k)]"
| "peer_calls (P_pubrel k) = [Operation MQTT_CLIENT_ON_PUBLISH_REL (PUBLISH_ACK k)]"
| "peer_calls (P_pubcomp k) = [Operation MQTT_CLIENT_ON_PUBLISH_COMP (PUBLISH_ACK k)]"
| "peer_calls (P_suback k codes) = [Operation MQTT_CLIENT_ON_SUBSCRIBE_ACK (SUBSCRIBE_ACK k codes)]"
| "peer_calls (P_unsuback k) = [Operation MQTT_CLIENT_ON_UNSUBSCRIBE_ACK (UNSUBSCRIBE_ACK k)]"
| "peer_calls P_pingresp = [Operation MQTT_CLIENT_ON_PING_RESPONSE No_info]"

text \<open>A PUBLISH the client reads as it was meant: a topic without a zero byte, and no flag besides the quality of
  service when that is 0.\<close>

fun peer_ok :: "peer_packet \<Rightarrow> bool" where
  "peer_ok (P_publish q dup retain k t p) \<longleftrightarrow> t \<noteq> [] \<and> 0 \<notin> set t \<and> length t \<le> USHRT_MAX \<and> q \<noteq> DELIVER_FAILURE \<and>
     (q = DELIVER_AT_MOST_ONCE \<longrightarrow> \<not> dup \<and> \<not> retain) \<and> wire_ok (peer_wire (P_publish q dup retain k t p))"
| "peer_ok p \<longleftrightarrow> wire_ok (peer_wire p)"

section \<open>Handling one packet\<close>

text \<open>A client that is set up: every callback is there, nothing is traced, and no disconnect is under way.\<close>

definition ready :: "MQTT_CLIENT \<Rightarrow> bool" where
  "ready c \<longleftrightarrow> packetTickCntr c \<noteq> None \<and> packetState c \<noteq> DISCONNECT_TYPE \<and> fnOperationCallback c \<and> fnMessageRecv c \<and> \<not> logTrace c"

lemma ready_fixed: "fixed c' = fixed c \<Longrightarrow> ready c' = ready c"
  using fixedD [of c' c] by (simp add: ready_def)

lemma quiet_ready: "quiet c c' \<Longrightarrow> ready c' = ready c"
  using ready_fixed [of c' c] by (simp add: quiet_def)

lemma ready_act [simp]: "ready (act a c) = ready c"
  by (simp add: ready_def)

text \<open>The outcome of handling a packet: the application was called with \<open>calls\<close>, or memory was short; at most six requests were
  made and every block is given back.\<close>

definition handled :: "client_action list \<Rightarrow> MQTT_CLIENT \<Rightarrow> world \<Rightarrow> MQTT_CLIENT \<Rightarrow> world \<Rightarrow> bool" where
  "handled calls c w c' w' \<longleftrightarrow> fixed c' = fixed c \<and> used 6 w w' \<and> live w' = live w \<and> faults w' = faults w \<and>
     (app_calls c' = app_calls c @ calls \<or> \<not> plenty 6 w \<and> app_calls c' = app_calls c)"

text \<open>Building an answer and sending it, as PUBLISH, PUBREC and PUBREL do.\<close>

lemma wp_reply:
  assumes "ready c" "\<And>c' w'. quiet c c' \<Longrightarrow> used 2 w w' \<Longrightarrow> live w' = live w \<Longrightarrow> faults w' = faults w \<Longrightarrow> Q c' w'"
  shows "wp (constructPublishReply ty fl k)
    (\<lambda>p. wp (send_reply (if p = None then set_error_callback c e else c) p) Q) w"
proof (rule wp_constructPublishReply, goal_cases)
  case (1 w')
  then show ?case using assms(2) by (simp add: send_reply_def)
next
  case (2 w')
  then show ?case
    using assms by (auto intro!: wp_send_reply simp: ready_def mkbuf_def)
qed

lemma wp_publish_reply:
  assumes "ready c" "\<And>c' w'. quiet c c' \<Longrightarrow> used 2 w w' \<Longrightarrow> live w' = live w \<Longrightarrow> faults w' = faults w \<Longrightarrow> Q c' w'"
  shows "wp (publish_reply c q k) Q w"
proof (cases "q = DELIVER_EXACTLY_ONCE \<or> q = DELIVER_AT_LEAST_ONCE")
  case True
  then show ?thesis
    using wp_reply [OF assms, where ty = PUBREC_TYPE and fl = 0 and k = k and e = MQTT_CLIENT_MEMORY_ERROR]
      wp_reply [OF assms, where ty = PUBACK_TYPE and fl = 0 and k = k and e = MQTT_CLIENT_MEMORY_ERROR]
    by (auto simp: publish_reply_def mqtt_codec_publishReceived_def mqtt_codec_publishAck_def)
next
  case False
  then show ?thesis using assms(2) [of c w] by (simp add: publish_reply_def send_reply_def)
qed

lemma szt_minus_id [simp]: "b \<le> a \<Longrightarrow> a < SIZE_MOD \<Longrightarrow> szt_minus a b = a - b"
proof -
  assume "b \<le> a" "a < SIZE_MOD"
  then have sum: "a + SIZE_MOD - b = (a - b) + SIZE_MOD" and less: "a - b < SIZE_MOD" by linarith+
  show ?thesis unfolding szt_minus_def szt_def sum using less by simp
qed

text \<open>A PUBLISH with any flags: the quality of service is read off the flags, and when it is not 0 two bytes after the topic are
  taken as the packet identifier.\<close>

definition flagged_message :: "u8 \<Rightarrow> u16 \<Rightarrow> u8 list \<Rightarrow> u8 list \<Rightarrow> MQTT_MESSAGE" where
  "flagged_message fl k t p = received_message (publish_qos fl) (fl AND 0x8 \<noteq> 0) (fl AND 0x1 \<noteq> 0) k t p"

lemma wp_free_eta: "wp (c_free (Some x)) Q = (\<lambda>w. Q () (w\<lparr>live := live w - 1\<rparr>))"
  by (rule ext) simp

text \<open>From a message to its delivery and acknowledgement.\<close>

lemma wp_deliver:
  assumes "ready c" "used 4 w w1" "live w1 = live w + 1 + msg_blocks (Some m)" "faults w1 = faults w"
    and "m' = m\<lparr>msg_isDuplicateMsg := dup, msg_isMessageRetained := retain\<rparr>"
  shows "wp (do {
      c2 \<leftarrow> publish_reply (act (Message_recv m') c) q k;
      mqttmessage_destroy (Some m');
      c_free (Some z);
      ret c2
    }) (handled [Message_recv m'] c w) w1"
  unfolding wp_bind
proof (rule wp_publish_reply, goal_cases)
  case (2 c' w')
  have "used 6 w w'" using used_trans [OF assms(2) 2(2)] by simp
  moreover have "msg_blocks (Some m') = msg_blocks (Some m)" by (simp add: assms(5) msg_blocks_def)
  ultimately show ?case using 2 assms(3,4) by (simp add: handled_def quiet_def)
qed (use assms(1) in simp)

lemma wp_recv_publish:
  assumes c: "ready c" and t: "t \<noteq> []" "0 \<notin> set t" "length t \<le> USHRT_MAX"
    and b: "b = utf_field t @ publish_id (publish_qos fl) k @ p" "length b < SIZE_MOD"
  shows "wp (recv_publish c fl (Some (b, 0)) (length b)) (handled [Message_recv (flagged_message fl k t p)] c w) w"
proof -
  define q where "q = publish_qos fl"
  define k' where "k' = (if q = DELIVER_AT_MOST_ONCE then 0 else k)"
  define m where "m = new_message k' t q p"
  define dup retain where "dup = (fl AND 0x8 \<noteq> 0)" and "retain = (fl AND 0x1 \<noteq> 0)"
  note names = q_def [symmetric] dup_def [symmetric] retain_def [symmetric]
  define m' where "m' = m\<lparr>msg_isDuplicateMsg := dup, msg_isMessageRetained := retain\<rparr>"
  have len: "2 \<le> length b" "0 < length t" using b t(1) by simp_all
  have tz: "is_cstr (t @ [0])" "c_str (t @ [0]) = t" "length (c_str (t @ [0])) + 1 < SIZE_MOD"
    using t by (simp_all add: USHRT_MAX_def SIZE_MOD_def)
  have m: "flagged_message fl k t p = m'"
    by (simp add: flagged_message_def received_message_def m'_def m_def k'_def names)
  have conds: "fnMessageRecv c" "\<not> logTrace c" using c by (simp_all add: ready_def)
  have failed: "handled [Message_recv (m')] c w (set_error_callback c e) w'"
    if "\<not> plenty 6 w" "used 6 w w'" "live w' = live w" "faults w' = faults w" for e w'
    using that quiet_set_error [of c e] by (simp add: handled_def quiet_def)
  have create: "wp (mqttmessage_create k' (Some (t @ [0])) q (Some p) (length p)) R w1"
    if "\<And>w'. \<not> plenty 3 w1 \<Longrightarrow> live w' = live w1 \<Longrightarrow> faults w' = faults w1 \<Longrightarrow> used 3 w1 w' \<Longrightarrow> R None w'"
      "\<And>w'. live w' = live w1 + msg_blocks (Some (m)) \<Longrightarrow> faults w' = faults w1 \<Longrightarrow> used 3 w1 w' \<Longrightarrow>
        R (Some (m)) w'" for R w1
    by (rule wp_mqttmessage_create [OF tz(1,3)]) (use that tz(2) in \<open>auto simp: m_def\<close>)
  show ?thesis
    unfolding m recv_publish_def Let_def names if_P [OF conds(1)] if_not_P [OF conds(2)] wp_bind wp_ret
  proof (rule wp_readUTF [OF len(2) t(3) b(1) len(1)], goal_cases)
    case (1 w1)
    then show ?case
      using not_plenty_next [of w 6] used_tl [of w1 w 6] failed by simp
  next
    case (2 w1)
    note w1 = 2
    have u1: "used 1 w w1" using w1(2) by (rule used_tl) simp
    have rest: "wp (mqttmessage_create k' (Some (t @ [0])) q (Some p) (length p))
       (\<lambda>msg0. wp (if msg0 = None then ret (set_error_callback c MQTT_CLIENT_MEMORY_ERROR)
            else do {
              (e1, msg1) \<leftarrow> mqttmessage_setIsDuplicateMsg msg0 dup;
              (e2, msg2) \<leftarrow> (if e1 \<noteq> 0 then ret (FAILURE, msg1) else mqttmessage_setIsRetained msg1 retain);
              c2 \<leftarrow> (if e2 \<noteq> 0 then ret (set_error_callback c MQTT_CLIENT_MEMORY_ERROR)
                else publish_reply (act (Message_recv (the msg2)) c) q k');
              mqttmessage_destroy msg2;
              ret c2
            })
         (\<lambda>c3. wp (c_free (Some (t @ [0]))) (\<lambda>_. handled [Message_recv (m')] c w c3))) w1"
    proof (rule create, goal_cases)
      case (1 w2)
      have "used 6 w w2" using used_trans [OF u1 1(4)] by simp
      then show ?case using 1 w1 used_starved [OF u1 1(1), of 6] failed by simp
    next
      case (2 w2)
      have u: "used 4 w w2" using used_trans [OF u1 2(3)] by simp
      show ?case
        using wp_deliver [OF c u _ _ m'_def, where q = q and k = k' and z = "t @ [0]"] 2 w1
        by (simp add: msg_setters m'_def [symmetric] wp_bind_eta wp_free_eta)
    qed
    show ?case
    proof (cases "q = DELIVER_AT_MOST_ONCE")
      case True
      then show ?thesis using rest b conds by (simp add: publish_id_def k'_def names wp_bind_eta cong: if_cong)
    next
      case False
      then show ?thesis using rest b conds wp_read_uint16 [of "Suc (Suc (length p))" "utf_field t" k p, simplified]
        by (simp add: publish_id_def k'_def names wp_bind_eta cong: if_cong)
    qed
  qed
qed

lemma io_fields [simp]:
  "fixed (c\<lparr>clientConnected := x\<rparr>) = fixed c" "app_calls (c\<lparr>clientConnected := x\<rparr>) = app_calls c"
  "fixed (c\<lparr>timeSincePing := y\<rparr>) = fixed c" "app_calls (c\<lparr>timeSincePing := y\<rparr>) = app_calls c"
  by (simp_all add: fixed_def app_calls_def)

lemma send_reply_None [simp]: "send_reply c None = ret c"
  by (simp add: send_reply_def)

lemma handled_act: "app_call a \<Longrightarrow> fixed c' = fixed c \<Longrightarrow> app_calls c' = app_calls c @ [a] \<Longrightarrow> handled [a] c w c' w"
  by (simp add: handled_def)

lemma wp_recv_connack:
  "ready c \<Longrightarrow> wp (recv_connack c (Some ([x, code], 0))) (handled [Operation MQTT_CLIENT_ON_CONNACK (CONNECT_ACK (x = 1) code)] c w) w"
  by (simp add: recv_connack_def ready_def byteutil_readByte_def Let_def handled_def)

lemma wp_recv_unsuback:
  "ready c \<Longrightarrow> wp (recv_unsuback c (Some (be16 k, 0)) 2) (handled [Operation MQTT_CLIENT_ON_UNSUBSCRIBE_ACK (UNSUBSCRIBE_ACK k)] c w) w"
  using wp_read_uint16_0 [of 2 k "[]"] by (simp add: recv_unsuback_def ready_def handled_def)

lemma wp_recv_pingresp: "ready c \<Longrightarrow> wp (recv_pingresp c) (handled [Operation MQTT_CLIENT_ON_PING_RESPONSE No_info] c w) w"
  by (simp add: recv_pingresp_def ready_def handled_def Let_def)

definition ack_event :: "CONTROL_PACKET_TYPE \<Rightarrow> MQTT_CLIENT_EVENT_RESULT" where
  "ack_event packet = (if packet = PUBACK_TYPE then MQTT_CLIENT_ON_PUBLISH_ACK
     else if packet = PUBREC_TYPE then MQTT_CLIENT_ON_PUBLISH_RECV
     else if packet = PUBREL_TYPE then MQTT_CLIENT_ON_PUBLISH_REL else MQTT_CLIENT_ON_PUBLISH_COMP)"

lemma wp_recv_puback:
  assumes "ready c"
  shows "wp (recv_puback c packet (Some (be16 k, 0)) 2) (handled [Operation (ack_event packet) (PUBLISH_ACK k)] c w) w"
proof -
  let ?c = "act (Operation (ack_event packet) (PUBLISH_ACK k)) c"
  have reply: "wp (constructPublishReply ty fl k)
    (\<lambda>p. wp (send_reply (if p = None then set_error_callback ?c MQTT_CLIENT_MEMORY_ERROR else ?c) p)
      (handled [Operation (ack_event packet) (PUBLISH_ACK k)] c w)) w" for ty fl
  proof (rule wp_reply, goal_cases)
    case (2 c' w')
    then show ?case using used_more [of 2 w w' 6] by (simp add: handled_def quiet_def)
  qed (use assms in simp)
  have none: "handled [Operation (ack_event packet) (PUBLISH_ACK k)] c w ?c w" by (simp add: handled_def)
  have cb: "fnOperationCallback c" "\<not> logTrace c" using assms by (simp_all add: ready_def)
  show ?thesis
    unfolding recv_puback_def if_P [OF cb(1)] if_not_P [OF cb(2)] Let_def ack_event_def [symmetric]
    using reply [of PUBREL_TYPE 2] reply [of PUBCOMP_TYPE 0] none wp_read_uint16_0 [of 2 k "[]"]
    by (cases "packet = PUBREC_TYPE"; cases "packet = PUBREL_TYPE")
      (simp_all add: mqtt_codec_publishRelease_def mqtt_codec_publishComplete_def cong: if_cong)
qed

lemma wp_suback_loop:
  "4 * (length acc + length codes) \<le> sz \<Longrightarrow>
   wp (suback_loop False sz (Some (xs @ codes, length xs)) (length codes) acc None) Q w = Q (acc @ codes, None) w"
proof (induction codes arbitrary: acc xs)
  case (Cons v codes)
  then show ?case using Cons.IH [of "acc @ [v]" "xs @ [v]"] by (simp add: byteutil_readByte_def)
qed simp

lemma wp_recv_suback:
  assumes "ready c" "4 * (length codes + 2) < SIZE_MOD"
  shows "wp (recv_suback c (Some (be16 k @ codes, 0)) (length (be16 k @ codes)))
    (handled [Operation MQTT_CLIENT_ON_SUBSCRIBE_ACK (SUBSCRIBE_ACK k codes)] c w) w"
proof -
  have c: "fnOperationCallback c" "\<not> logTrace c" using assms(1) by (simp_all add: ready_def)
  have sz: "szt_minus (length (be16 k @ codes)) 2 = length codes" "szt (4 * length codes) = 4 * length codes"
    using assms(2) by simp_all
  show ?thesis
    unfolding recv_suback_def if_P [OF c(1)] if_not_P [OF c(2)] wp_bind Let_def
  proof (simp add: c sz [simplified], rule wp_malloc, goal_cases)
    case (1 w')
    then show ?case
      using quiet_set_error [of c MQTT_CLIENT_MEMORY_ERROR] not_plenty_next [of w 6] used_tl [of w' w 6]
      by (simp add: handled_def quiet_def)
  next
    case (2 block w')
    then show ?case
      using wp_suback_loop [of "[]" codes "length block" "be16 k"] used_tl [of w' w 6] by (simp add: handled_def)
  qed
qed

lemma publish_type_bits:
  "(PUBLISH_TYPE OR publish_flags q dup retain) AND 0xF0 = PUBLISH_TYPE"
  "(PUBLISH_TYPE OR publish_flags q dup retain) AND 0x0F = publish_flags q dup retain"
  by (cases q; cases dup; cases retain; simp add: packet_types publish_flags_def)+

lemma publish_flags_read:
  assumes "q \<noteq> DELIVER_FAILURE" "q = DELIVER_AT_MOST_ONCE \<longrightarrow> \<not> dup \<and> \<not> retain"
  shows "publish_qos (publish_flags q dup retain) = q" "(publish_flags q dup retain AND 0x8 \<noteq> 0) = dup"
    "(publish_flags q dup retain AND 0x1 \<noteq> 0) = retain"
  using assms by (cases q; cases dup; cases retain; simp add: publish_flags_def publish_qos_def)+

lemmas client_types = packet_types CONNACK_TYPE_def SUBACK_TYPE_def UNSUBACK_TYPE_def

lemma recv_body:
  "body \<noteq> [] \<Longrightarrow> recvCompleteCallback c packet fl (Some (mkbuf body)) =
    (if packet = CONNACK_TYPE then recv_connack c (Some (body, 0))
     else if packet = PUBLISH_TYPE then recv_publish c fl (Some (body, 0)) (length body)
     else if packet = PUBACK_TYPE \<or> packet = PUBREC_TYPE \<or> packet = PUBREL_TYPE \<or> packet = PUBCOMP_TYPE
       then recv_puback c packet (Some (body, 0)) (length body)
     else if packet = SUBACK_TYPE then recv_suback c (Some (body, 0)) (length body)
     else if packet = UNSUBACK_TYPE then recv_unsuback c (Some (body, 0)) (length body)
     else if packet = PINGRESP_TYPE then recv_pingresp c
     else ret c)"
  by (simp add: recvCompleteCallback_def Let_def mkbuf_def BUFFER_u_char_def)

lemma be16_not_Nil [simp]: "be16 v \<noteq> []"
  by (simp add: be16_def)

lemma wp_recv_acks:
  assumes "ready c"
  shows "wp (recv_puback c 0x40 (Some (be16 k, 0)) 2) (handled [Operation MQTT_CLIENT_ON_PUBLISH_ACK (PUBLISH_ACK k)] c w) w"
    "wp (recv_puback c 0x50 (Some (be16 k, 0)) 2) (handled [Operation MQTT_CLIENT_ON_PUBLISH_RECV (PUBLISH_ACK k)] c w) w"
    "wp (recv_puback c 0x60 (Some (be16 k, 0)) 2) (handled [Operation MQTT_CLIENT_ON_PUBLISH_REL (PUBLISH_ACK k)] c w) w"
    "wp (recv_puback c 0x70 (Some (be16 k, 0)) 2) (handled [Operation MQTT_CLIENT_ON_PUBLISH_COMP (PUBLISH_ACK k)] c w) w"
  using wp_recv_puback [OF assms, of "0x40" k w] wp_recv_puback [OF assms, of "0x50" k w] wp_recv_puback [OF assms, of "0x60" k w]
    wp_recv_puback [OF assms, of "0x70" k w]
  by (simp_all add: ack_event_def client_types)

lemma wp_recv_peer:
  assumes c: "ready c" and p: "peer_ok p" and e: "packet_event (peer_wire p) = (ty, fl, h)"
  shows "wp (recvCompleteCallback c ty fl h) (handled (peer_calls p) c w) w"
proof (cases p)
  case (P_publish q dup retain k t x)
  let ?fl = "publish_flags q dup retain" and ?b = "utf_field t @ publish_id q k @ x"
  have q: "publish_qos ?fl = q" "(?fl AND 0x8 \<noteq> 0) = dup" "(?fl AND 0x1 \<noteq> 0) = retain"
    using p publish_flags_read [of q dup retain] by (simp_all add: P_publish)
  have "wire_ok (PUBLISH_TYPE OR ?fl, ?b)" using p by (simp add: P_publish)
  then have "length ?b < SIZE_MOD"
    unfolding wire_ok_def prod.case publish_type_bits by (simp add: client_types decodable_def SIZE_MOD_def)
  then have "wp (recv_publish c ?fl (Some (?b, 0)) (length ?b)) (handled [Message_recv (flagged_message ?fl k t x)] c w) w"
    using p c by (intro wp_recv_publish) (simp_all add: P_publish q(1))
  moreover have "flagged_message ?fl k t x = received_message q dup retain k t x" by (simp add: flagged_message_def q)
  moreover have "ty = PUBLISH_TYPE" "fl = ?fl" "h = Some (mkbuf ?b)" "?b \<noteq> []"
    using e by (auto simp: packet_event_def P_publish publish_type_bits utf_field_def)
  ultimately show ?thesis by (simp add: P_publish recv_body client_types)
next
  case (P_suback k codes)
  then have "decodable (length (be16 k @ codes))" using p by (simp add: wire_ok_def client_types)
  then have "4 * (length codes + 2) < SIZE_MOD" by (simp add: decodable_def SIZE_MOD_def)
  then show ?thesis
    using e wp_recv_suback [OF c] by (auto simp: P_suback packet_event_def recv_body client_types)
qed (use c e wp_recv_connack [OF c, of 0] wp_recv_connack [OF c, of 1] wp_recv_acks [OF c] wp_recv_unsuback [OF c] wp_recv_pingresp [OF c] in
  \<open>auto simp: packet_event_def recv_body client_types recvCompleteCallback_def Let_def split: if_splits\<close>)

section \<open>A stream of bytes\<close>

text \<open>The fixed fields but for the state of the decoder.\<close>

definition same_session :: "MQTT_CLIENT \<Rightarrow> MQTT_CLIENT \<Rightarrow> bool" where
  "same_session c c' \<longleftrightarrow> fixed (c'\<lparr>codec_handle := codec_handle c\<rparr>) = fixed c"

lemma same_session_refl [simp]: "same_session c c"
  by (simp add: same_session_def)

lemma same_session_trans: "same_session a b \<Longrightarrow> same_session b c \<Longrightarrow> same_session a c"
  by (simp add: same_session_def fixed_def)

lemma same_session_fixed: "fixed c' = fixed (c\<lparr>codec_handle := x\<rparr>) \<Longrightarrow> same_session c c'"
  by (simp add: same_session_def fixed_def)

text \<open>\<open>feeds c bs Q w\<close>: taking in the bytes one by one succeeds and establishes \<open>Q\<close>.\<close>

fun feeds :: "MQTT_CLIENT \<Rightarrow> u8 list \<Rightarrow> (MQTT_CLIENT \<Rightarrow> world \<Rightarrow> bool) \<Rightarrow> world \<Rightarrow> bool" where
  "feeds c [] Q w \<longleftrightarrow> codec_handle c \<noteq> None \<and> Q c w"
| "feeds c (b # bs) Q w \<longleftrightarrow> codec_handle c \<noteq> None \<and>
     wp (codec_byte (the (codec_handle c)) b)
       (\<lambda>(r, d, ev). wp (recv_packets (c\<lparr>codec_handle := Some d\<rparr>) ev) (\<lambda>c1 w1. r = 0 \<and> feeds c1 bs Q w1)) w"

lemma feeds_mono: "feeds c bs P w \<Longrightarrow> (\<And>c' w'. P c' w' \<Longrightarrow> Q c' w') \<Longrightarrow> feeds c bs Q w"
proof (induction bs arbitrary: c w)
  case (Cons b bs)
  show ?case
    using Cons.prems(1) Cons.IH [OF _ Cons.prems(2)] by (auto simp: split_def elim!: wp_mono)
qed auto

lemma feeds_append: "feeds c (xs @ ys) Q w \<longleftrightarrow> feeds c xs (\<lambda>c'. feeds c' ys Q) w"
proof (induction xs arbitrary: c w)
  case Nil
  then show ?case by (cases ys) auto
next
  case (Cons b xs)
  then show ?case by simp
qed

lemma feeds_loop:
  "i + n \<le> length buf \<Longrightarrow> feeds c (take n (drop i buf)) Q w \<Longrightarrow>
   wp (client_bytes_loop c buf i n) (\<lambda>(r, c') w'. r = 0 \<and> codec_handle c' \<noteq> None \<and> Q c' w') w"
proof (induction n arbitrary: i c w)
  case (Suc n)
  then have d: "take (Suc n) (drop i buf) = buf ! i # take n (drop (Suc i) buf)" "i < length buf" "Suc i + n \<le> length buf"
    by (simp_all flip: Cons_nth_drop_Suc)
  show ?case
    using Suc.prems(2) Suc.IH [OF d(3)] unfolding d(1) by (auto simp: split_def wp_bind_eta d(2) elim!: wp_mono)
qed simp

lemma feeds_chunks:
  "[] \<notin> set cs \<Longrightarrow> feeds c (concat cs) Q w \<Longrightarrow> wp (xio_dowork (map Ev_bytes cs) c) Q w"
proof (induction cs arbitrary: c w)
  case (Cons b cs)
  have b: "b \<noteq> []" using Cons.prems(1) by auto
  have f: "feeds c b (\<lambda>c'. feeds c' (concat cs) Q) w" using Cons.prems(2) by (simp add: feeds_append)
  then have "codec_handle c \<noteq> None" by (cases b) auto
  moreover have "wp (client_bytes_loop c b 0 (length b)) (\<lambda>(r, c') w'. r = 0 \<and> codec_handle c' \<noteq> None \<and> feeds c' (concat cs) Q w') w"
    by (rule feeds_loop) (use f in simp_all)
  ultimately show ?case
    using b Cons.IH Cons.prems(1)
    by (auto simp: onBytesReceived_def client_bytesReceived_def split_def elim!: wp_mono)
qed simp

lemma feeds_silent:
  "wp (feed d xs) (\<lambda>(r, d', ev) w'. r = 0 \<and> ev = [] \<and> feeds (c\<lparr>codec_handle := Some d'\<rparr>) ys Q w') w \<Longrightarrow>
   feeds (c\<lparr>codec_handle := Some d\<rparr>) (xs @ ys) Q w"
proof (induction xs arbitrary: d w)
  case (Cons b xs)
  have "wp (codec_byte d b) (\<lambda>(r, d1, ev) w1. r = 0 \<and> ev = [] \<and>
      wp (feed d1 xs) (\<lambda>(r, d', ev) w'. r = 0 \<and> ev = [] \<and> feeds (c\<lparr>codec_handle := Some d'\<rparr>) ys Q w') w1) w"
    using Cons.prems unfolding wp_feed_Cons by (auto simp: wp_def split: prod.splits if_splits)
  then show ?case using Cons.IH by (auto simp: split_def elim!: wp_mono)
qed simp

text \<open>A client that waits for the next packet.\<close>

definition listening :: "MQTT_CLIENT \<Rightarrow> bool" where
  "listening c \<longleftrightarrow> ready c \<and> (\<exists>d. codec_handle c = Some d \<and> idle d \<and> packetComplete d)"

lemma codec_update [simp]:
  "ready (c\<lparr>codec_handle := x\<rparr>) = ready c" "app_calls (c\<lparr>codec_handle := x\<rparr>) = app_calls c"
  by (simp_all add: ready_def app_calls_def)

text \<open>Packet \<open>x\<close> on the wire makes a client call its application with \<open>calls\<close>.\<close>

definition handles :: "u8 \<times> u8 list \<Rightarrow> client_action list \<Rightarrow> bool" where
  "handles x calls \<longleftrightarrow> wire_ok x \<and>
     (\<forall>c w. ready c \<longrightarrow> (case packet_event x of (ty, fl, h) \<Rightarrow> wp (recvCompleteCallback c ty fl h) (handled calls c w) w))"

lemma handles_peer: "peer_ok p \<Longrightarrow> handles (peer_wire p) (peer_calls p)"
  using wp_recv_peer [of _ p] by (cases p) (auto simp: handles_def)

text \<open>The last byte of a packet, when the decoder reports it.\<close>

lemma feeds_last:
  assumes "ready c" "idle d'" "packetComplete d'" "handles x calls" "plenty 6 w"
    and "\<And>Q. wp (codec_byte d b) Q w1 = Q (0, d', [packet_event x]) w"
    and "\<And>c' w'. same_session c c' \<Longrightarrow> listening c' \<Longrightarrow> app_calls c' = app_calls c @ calls \<Longrightarrow> used 6 w w' \<Longrightarrow> live w' = live w \<Longrightarrow>
      faults w' = faults w \<Longrightarrow> Q c' w'"
  shows "feeds (c\<lparr>codec_handle := Some d\<rparr>) [b] Q w1"
proof -
  let ?c = "c\<lparr>codec_handle := Some d'\<rparr>"
  obtain ty fl h where e: "packet_event x = (ty, fl, h)" by (cases "packet_event x")
  have "ready ?c" using assms(1) by simp
  then have h: "wp (recvCompleteCallback ?c ty fl h) (handled calls ?c w) w" using assms(4) e unfolding handles_def by fastforce
  have "wp (recvCompleteCallback ?c ty fl h) (\<lambda>c' w'. codec_handle c' \<noteq> None \<and> Q c' w') w"
  proof (rule wp_mono [OF h], goal_cases)
    case (1 c' w')
    then have f: "fixed c' = fixed ?c" "app_calls c' = app_calls c @ calls" using assms(5) by (auto simp: handled_def)
    then have "listening c'" using assms(1-3) ready_fixed [OF f(1)] fixedD(2) [OF f(1)] by (auto simp: listening_def)
    then show ?case using assms(7) same_session_fixed [OF f(1)] 1 f(2) fixedD(2) [OF f(1)] by (simp add: handled_def)
  qed
  then show ?thesis using assms(6) by (simp add: e wp_bind_eta)
qed

lemma feeds_packet:
  assumes c: "listening c" and p: "handles x calls" and "plenty 8 w"
    and Q: "\<And>c' w'. same_session c c' \<Longrightarrow> listening c' \<Longrightarrow> app_calls c' = app_calls c @ calls \<Longrightarrow> used 8 w w' \<Longrightarrow> live w' = live w \<Longrightarrow>
      faults w' = faults w \<Longrightarrow> Q c' w'"
  shows "feeds c (packet_bytes x) Q w"
proof -
  obtain d where d: "codec_handle c = Some d" "idle d" "packetComplete d" and r: "ready c" using c by (auto simp: listening_def)
  obtain t body where w: "x = (t, body)" by (cases x)
  have wire: "wire_ok (t, body)" using p by (simp add: handles_def w)
  have ce: "c = c\<lparr>codec_handle := Some d\<rparr>" using d(1) by (cases c) simp
  show ?thesis
  proof (cases "t AND 0xF0 = PINGRESP_TYPE")
    case True
    then have b: "body = []" "packet_bytes x = [t] @ [0]" "packet_event x = (PINGRESP_TYPE, t AND 0x0F, None)"
      using wire by (simp_all add: wire_ok_def packet_bytes_def mqtt_packet_def rem_len_small packet_event_def w)
    have "feeds (c\<lparr>codec_handle := Some (in_length PINGRESP_TYPE (t AND 0x0F) d [])\<rparr>) [0] Q w"
    proof (rule feeds_last [OF r _ _ p, where d' = "after_packet d (bufferOffset d)" and w = w], goal_cases)
      case (4 R)
      then show ?case using wp_ping_length [OF d(2)] d(3) by (simp add: b(3))
    next
      case (5 c' w')
      then show ?case using Q used_more [of 6 w w' 8] by simp
    qed (use d assms(3) plenty_le [of 8 w 6] in simp_all)
    then show ?thesis
      unfolding b(2) by (subst ce, intro feeds_silent) (simp add: wp_type_byte [OF d(2)] True)
  next
    case False
    then have n: "decodable (length body)" using wire by (simp add: wire_ok_def)
    then obtain xs b where body: "body = xs @ [b]" by (cases body rule: rev_cases) (auto simp: decodable_def)
    have b: "packet_bytes x = (t # rem_len (length body) @ xs) @ [b]"
      by (simp add: w packet_bytes_def mqtt_packet_def body)
    have ev: "packet_event x = (t AND 0xF0, t AND 0x0F, Some (mkbuf (xs @ [b])))" by (simp add: w packet_event_def body)
    have small: "length body < SIZE_MOD" using n by (simp add: decodable_def SIZE_MOD_def)
    show ?thesis
      unfolding b
    proof (subst ce, intro feeds_silent, rule wp_body_prefix [OF d(2) False n], goal_cases)
      case (2 ys w1)
      obtain y where y: "drop (length xs) ys = [y]"
        using 2(1) body by (cases "drop (length xs) ys"; cases "tl (drop (length xs) ys)") (auto dest: arg_cong [where f = length])
      let ?w = "w1\<lparr>live := live w\<rparr>"
      have pl: "plenty 6 ?w" using used_starved [of 2 w ?w 6 8] 2(2) assms(3) by auto
      have "feeds (c\<lparr>codec_handle := Some (in_body (t AND 0xF0) (t AND 0x0F) d xs [y])\<rparr>) [b] Q w1"
      proof (rule feeds_last [OF r _ _ p pl, where d' = "after_packet d (length body)"], goal_cases)
        case (3 R)
        then show ?case using wp_last_body_byte [of xs] small d(3) 2(3) body by (simp add: ev)
      next
        case (4 c' w')
        have "used 8 w w'" using used_trans [of 2 w ?w 6 w' 8] 4(4) 2(2) by simp
        then show ?case using Q 4 2 by simp
      qed (use d in simp_all)
      then show ?case using wp_body_part [of xs ys "[]"] 2(1) small body y by simp
    qed (use assms(3) plenty_le [of 8 w 2] in simp)
  qed
qed

lemma feeds_stream:
  assumes "listening c" "\<forall>p \<in> set ps. peer_ok p" "plenty (8 * length ps) w"
    and "\<And>c' w'. same_session c c' \<Longrightarrow> listening c' \<Longrightarrow> app_calls c' = app_calls c @ concat (map peer_calls ps) \<Longrightarrow> live w' = live w \<Longrightarrow>
      faults w' = faults w \<Longrightarrow> Q c' w'"
  shows "feeds c (concat (map (\<lambda>p. packet_bytes (peer_wire p)) ps)) Q w"
  using assms
proof (induction ps arbitrary: c w)
  case Nil
  then show ?case by (auto simp: listening_def)
next
  case (Cons p ps)
  have "feeds c (packet_bytes (peer_wire p)) (\<lambda>c'. feeds c' (concat (map (\<lambda>p. packet_bytes (peer_wire p)) ps)) Q) w"
  proof (rule feeds_packet [OF Cons.prems(1) handles_peer], goal_cases)
    case (3 c' w')
    have "plenty (8 * length ps) w'" using plenty_used [OF 3(4), of "8 * length ps"] Cons.prems(3) by simp
    then show ?case using 3 Cons.prems same_session_trans [OF 3(1)] by (intro Cons.IH) simp_all
  qed (use Cons.prems plenty_le [of "8 + 8 * length ps" w 8] in simp_all)
  then show ?case by (simp add: feeds_append)
qed

section \<open>Sending\<close>

text \<open>A client whose transport takes the next packet, and reports it as sent at once or later.\<close>

definition sending :: "MQTT_CLIENT \<Rightarrow> bool" where
  "sending c \<longleftrightarrow> xioHandle c \<and> packetTickCntr c \<noteq> None \<and> \<not> logTrace c \<and>
     answer (0, None) (send_answers (env c)) \<in> {(0, None), (0, Some IO_SEND_OK)}"

definition sent_client :: "u8 list \<Rightarrow> MQTT_CLIENT \<Rightarrow> MQTT_CLIENT" where
  "sent_client bs c = c\<lparr>packetSendTimeMs := now_ms c,
     env := (env c)\<lparr>ticks := tl (ticks (env c)), send_answers := tl (send_answers (env c)), actions := actions (env c) @ [Xio_send bs]\<rparr>\<rparr>"

lemma wp_sendPacketItem_ok:
  assumes "sending c" "packetState c \<noteq> DISCONNECT_TYPE" "blk data = bs" "len = length bs" "Q (0, sent_client bs c) w"
  shows "wp (sendPacketItem c data len) Q w"
  using assms
  by (auto simp: sendPacketItem_def read_clock sending_def xio_send_def sendComplete_def act_def sent_client_def)

lemma wp_send_built:
  assumes "sending c" "ty \<noteq> DISCONNECT_TYPE" "Q (0, sent_client bs (c\<lparr>packetState := ty\<rparr>)) (w\<lparr>live := live w - 2\<rparr>)"
  shows "wp (send_built c ty (Some (mkbuf bs)) None) Q w"
  unfolding send_built_def known_conds Let_def wp_bind wp_ret
  by (rule wp_sendPacketItem_ok [where bs = bs]) (use assms in \<open>simp_all add: sending_def BUFFER_u_char_def mkbuf_def\<close>)

lemma wp_client_publish:
  assumes m: "owned_message m \<or> in_place_message m" "message_value m = (k, q, t, p, dup, retain)"
    and t: "length t \<le> USHRT_MAX" "length t + length p + 4 < 128 ^ 4" and c: "sending c"
    and failed: "\<And>w'. \<not> plenty 6 w \<Longrightarrow> live w' = live w \<Longrightarrow> faults w' = faults w \<Longrightarrow> Q (FAILURE, Some c) w'"
    and sent: "\<And>w'. live w' = live w \<Longrightarrow> faults w' = faults w \<Longrightarrow>
      Q (0, Some (sent_client (publish_packet q dup retain k t p) (c\<lparr>packetState := PUBLISH_TYPE\<rparr>))) w'"
  shows "wp (mqtt_client_publish (Some c) (Some m)) Q w"
proof -
  obtain a where a: "mqttmessage_getApplicationMsg (Some m) = Some a"
    by (cases "0 < pl_length (msg_const_payload m)") (simp_all add: mqttmessage_getApplicationMsg_def)
  obtain z where z: "mqttmessage_getTopicName (Some m) = Some z" "is_cstr z"
    using m(1) by (auto simp: mqttmessage_getTopicName_def owned_message_def in_place_message_def)
  have len: "pl_length a \<le> length (blk (pl_message a))"
    using m(1) a by (auto simp: mqttmessage_getApplicationMsg_def owned_message_def in_place_message_def zero_payload_def split: if_splits)
  have v: "mqttmessage_getPacketId (Some m) = k" "mqttmessage_getQosType (Some m) = q" "c_str z = t"
    "take (pl_length a) (blk (pl_message a)) = p" "mqttmessage_getIsDuplicateMsg (Some m) = dup" "mqttmessage_getIsRetained (Some m) = retain"
    using m(2) by (simp_all add: message_value_def a z payload_bytes_def)
  have p: "length p = pl_length a" using len v(4) by auto
  have trace: "construct_trace_log_handle c = ret None" using c by (simp add: construct_trace_log_handle_def sending_def)
  show ?thesis
    unfolding mqtt_client_publish_def option.case a is_Some if_False trace wp_bind wp_ret v z
  proof (rule wp_mqtt_codec_publish [OF z(2) len], goal_cases)
    case (2 w')
    then show ?case using failed t by (auto simp: v send_built_def)
  next
    case (3 w')
    show ?case
      unfolding prod.case v wp_bind
      by (rule wp_send_built [OF c]) (use sent 3 in \<open>simp_all add: client_types\<close>)
  qed (use t p in \<open>simp add: v\<close>)
qed

lemma received_value:
  "0 \<notin> set t \<Longrightarrow> message_value (received_message q dup retain k t p) = (if q = DELIVER_AT_MOST_ONCE then 0 else k, q, t, p, dup, retain)"
  by (simp add: received_message_def message_value_def msg_getters new_message_def zero_message_def zero_payload_def payload_bytes_def)

text \<open>From one client to another: what the receiver makes of the packet the sender built.\<close>

lemma wp_publish_to_peer:
  assumes m: "owned_message m \<or> in_place_message m" "message_value m = (k, q, t, p, dup, retain)" and t: "length t \<le> USHRT_MAX"
    and h: "handles (PUBLISH_TYPE OR publish_flags q dup retain, utf_field t @ publish_id q k @ p) [Message_recv m']" "message_value m' = v"
    and c: "sending c1" "listening c2" "plenty 8 w2"
  shows "wp (mqtt_client_publish (Some c1) (Some m)) (\<lambda>(r, h) w1'. live w1' = live w1 \<and> faults w1' = faults w1 \<and> (\<exists>c1'. h = Some c1' \<and>
     (if r = 0 then \<exists>bs. actions (env c1') = actions (env c1) @ [Xio_send bs] \<and>
        (\<forall>cs. concat cs = bs \<longrightarrow> [] \<notin> set cs \<longrightarrow>
          wp (xio_dowork (map Ev_bytes cs) c2) (\<lambda>c2' w2'. \<exists>m'. app_calls c2' = app_calls c2 @ [Message_recv m'] \<and> message_value m' = v \<and>
            listening c2' \<and> live w2' = live w2 \<and> faults w2' = faults w2) w2)
      else actions (env c1') = actions (env c1) \<and> \<not> plenty 6 w1))) w1"
proof -
  have len: "length t + length p + 4 < 128 ^ 4"
    using h(1) unfolding handles_def wire_ok_def prod.case publish_type_bits by (simp add: client_types decodable_def)
  have arrives: "wp (xio_dowork (map Ev_bytes cs) c2) (\<lambda>c2' w2'. \<exists>m'. app_calls c2' = app_calls c2 @ [Message_recv m'] \<and> message_value m' = v \<and>
      listening c2' \<and> live w2' = live w2 \<and> faults w2' = faults w2) w2"
    if "concat cs = publish_packet q dup retain k t p" "[] \<notin> set cs" for cs
  proof -
    have "feeds c2 (packet_bytes (PUBLISH_TYPE OR publish_flags q dup retain, utf_field t @ publish_id q k @ p))
        (\<lambda>c2' w2'. \<exists>m'. app_calls c2' = app_calls c2 @ [Message_recv m'] \<and> message_value m' = v \<and>
          listening c2' \<and> live w2' = live w2 \<and> faults w2' = faults w2) w2"
      by (rule feeds_packet [OF c(2) h(1) c(3)]) (use h(2) in simp)
    then show ?thesis by (intro feeds_chunks [OF that(2)]) (simp add: that(1) packet_bytes_def publish_packet_def)
  qed
  show ?thesis
    by (rule wp_client_publish [OF m t len c(1)]) (use arrives in \<open>auto simp: sent_client_def\<close>)
qed

lemma flags_misread:
  "dup \<or> retain \<Longrightarrow> publish_qos (publish_flags DELIVER_AT_MOST_ONCE dup retain) = DELIVER_EXACTLY_ONCE"
  "(publish_flags DELIVER_AT_MOST_ONCE dup retain AND 0x8 \<noteq> 0) = dup" "(publish_flags DELIVER_AT_MOST_ONCE dup retain AND 0x1 \<noteq> 0) = retain"
  by (cases dup; cases retain; simp add: publish_flags_def publish_qos_def)+

lemma handles_misread:
  assumes "dup \<or> retain" "t \<noteq> []" "0 \<notin> set t" "length t \<le> USHRT_MAX" "decodable (length (utf_field t @ be16 k @ p))"
  shows "handles (PUBLISH_TYPE OR publish_flags DELIVER_AT_MOST_ONCE dup retain, utf_field t @ be16 k @ p)
    [Message_recv (received_message DELIVER_EXACTLY_ONCE dup retain k t p)]"
proof -
  let ?fl = "publish_flags DELIVER_AT_MOST_ONCE dup retain" and ?b = "utf_field t @ be16 k @ p"
  have "length ?b < SIZE_MOD" using assms(5) by (simp add: decodable_def SIZE_MOD_def)
  then have "wp (recv_publish c ?fl (Some (?b, 0)) (length ?b)) (handled [Message_recv (flagged_message ?fl k t p)] c w) w" if "ready c" for c w
    using wp_recv_publish [OF that assms(2-4), where fl = ?fl and k = k and p = p and w = w] flags_misread(1) [OF assms(1)]
    by (simp add: publish_id_def)
  moreover have "flagged_message ?fl k t p = received_message DELIVER_EXACTLY_ONCE dup retain k t p"
    by (simp add: flagged_message_def flags_misread(1) [OF assms(1)] flags_misread(2,3))
  moreover have "wire_ok (PUBLISH_TYPE OR ?fl, ?b)"
    using assms(5) unfolding wire_ok_def prod.case publish_type_bits by (simp add: client_types)
  moreover have "packet_event (PUBLISH_TYPE OR ?fl, ?b) = (PUBLISH_TYPE, ?fl, Some (mkbuf ?b))"
    by (simp add: packet_event_def publish_type_bits)
  moreover have "recvCompleteCallback c PUBLISH_TYPE ?fl (Some (mkbuf ?b)) = recv_publish c ?fl (Some (?b, 0)) (length ?b)" for c
    by (simp add: recv_body client_types)
  ultimately show ?thesis by (simp add: handles_def)
qed

section \<open>Closing\<close>

text \<open>A transport that completes the close, at once or in one of the calls the client makes while it waits.\<close>

definition closes :: "MQTT_CLIENT \<Rightarrow> bool" where
  "closes c \<longleftrightarrow> answer False (close_answers (env c)) \<or>
     \<not> disconnect_cb c \<and> True \<in> set (take MAX_CLOSE_RETRIES (work_answers (env c)))"

text \<open>Two clients with the same record of actions but for calls of the disconnect callback.\<close>

definition closing :: "MQTT_CLIENT \<Rightarrow> MQTT_CLIENT \<Rightarrow> bool" where
  "closing c c' \<longleftrightarrow> (\<exists>n. actions (env c') = actions (env c) @ replicate n Disconnected)"

lemma closing_refl [simp]: "closing c c"
  unfolding closing_def by (rule exI [of _ 0]) simp

lemma closing_trans: "closing a b \<Longrightarrow> closing b c \<Longrightarrow> closing a c"
  unfolding closing_def by (metis append.assoc replicate_add)

lemma closing_once: "actions (env c') = actions (env c) @ [Disconnected] \<Longrightarrow> closing c c'"
  unfolding closing_def by (rule exI [of _ 1]) simp

lemma closing_dowork [simp]: "closing c (xio_dowork_closing c)"
  by (auto simp: xio_dowork_closing_def on_connection_closed_def act_def Let_def closing_def intro: exI [of _ 0] exI [of _ 1])

lemma closing_loop [simp]: "closing c (close_loop n c)"
proof (induction n arbitrary: c)
  case (Suc n)
  then show ?case using closing_trans [OF closing_dowork [of c]] by (simp add: Let_def)
qed simp

lemma closing_close:
  assumes "xioHandle c"
  shows "closing (act Xio_close c) (close_connection c)"
proof -
  have "closing (act Xio_close c) (xio_close c)"
    using assms by (auto simp: xio_close_def on_connection_closed_def act_def Let_def closing_def intro: exI [of _ 0] exI [of _ 1])
  then show ?thesis using closing_trans closing_loop by (auto simp: close_connection_def Let_def)
qed

text \<open>Once the close has completed nothing reopens the connection.\<close>

definition down :: "MQTT_CLIENT \<Rightarrow> bool" where
  "down c \<longleftrightarrow> \<not> clientConnected c \<and> \<not> socketConnected c"

lemma down_closed [simp]: "down (on_connection_closed c)"
  by (simp add: down_def on_connection_closed_def act_def Let_def)

lemma down_dowork: "down c \<Longrightarrow> down (xio_dowork_closing c)"
  by (simp add: xio_dowork_closing_def Let_def down_def on_connection_closed_def act_def)

lemma down_loop: "down c \<Longrightarrow> down (close_loop n c)"
  using down_dowork [of c] by (cases n) (auto simp: Let_def down_def)

lemma loop_closes:
  "xioHandle c \<Longrightarrow> clientConnected c \<Longrightarrow> True \<in> set (take n (work_answers (env c))) \<Longrightarrow> down (close_loop n c)"
proof (induction n arbitrary: c)
  case (Suc n)
  then obtain a as where as: "work_answers (env c) = a # as" by (cases "work_answers (env c)") auto
  show ?case
  proof (cases a)
    case True
    then show ?thesis using Suc.prems(1) as down_closed
      by (simp add: xio_dowork_closing_def answer_def Let_def) (simp add: on_connection_closed_def act_def Let_def down_def)
  next
    case False
    then show ?thesis using Suc as by (simp add: xio_dowork_closing_def answer_def Let_def)
  qed
qed simp

lemma close_connection_down:
  assumes "xioHandle c" "clientConnected c" "closes c"
  shows "down (close_connection c)"
proof (cases "answer False (close_answers (env c))")
  case True
  then show ?thesis using assms(1) down_loop down_closed by (simp add: close_connection_def xio_close_def Let_def)
next
  case False
  then have "\<not> disconnect_cb c" "True \<in> set (take MAX_CLOSE_RETRIES (work_answers (env c)))" using assms(3) by (simp_all add: closes_def)
  then show ?thesis using assms(1,2) False by (simp add: close_connection_def xio_close_def Let_def loop_closes act_def)
qed

lemma set_error_closes:
  assumes "xioHandle c"
  shows "\<exists>n. actions (env (set_error_callback c e)) = actions (env c) @ (if fnOnErrorCallBack c then [On_error e] else []) @
    [Xio_close] @ replicate n Disconnected"
    and "clientConnected c \<Longrightarrow> closes c \<Longrightarrow> down (set_error_callback c e)"
proof -
  define c1 where "c1 = (if fnOnErrorCallBack c then act (On_error e) c else c)"
  have c1: "xioHandle c1" "clientConnected c1 = clientConnected c" "closes c1 = closes c"
    "actions (env c1) = actions (env c) @ (if fnOnErrorCallBack c then [On_error e] else [])"
    using assms by (simp_all add: c1_def closes_def act_def)
  have "set_error_callback c e = close_connection c1" by (simp add: set_error_callback_def c1_def)
  then show "\<exists>n. actions (env (set_error_callback c e)) = actions (env c) @ (if fnOnErrorCallBack c then [On_error e] else []) @
      [Xio_close] @ replicate n Disconnected"
    "clientConnected c \<Longrightarrow> closes c \<Longrightarrow> down (set_error_callback c e)"
    using closing_close [OF c1(1)] close_connection_down [OF c1(1)] c1(2-4) by (simp_all add: closing_def act_def)
qed

section \<open>Keeping the connection alive\<close>

text \<open>Times are tick counts of the operating system, a hundred in a second, before they are reduced modulo \<open>2\<^sup>32\<close>; \<open>start\<close> is when the
  tick counter was created. The readings are right for \<open>2\<^sup>32\<close> milliseconds from then on, also when the tick count wraps.\<close>

definition clock_started :: "nat \<Rightarrow> MQTT_CLIENT \<Rightarrow> bool" where
  "clock_started start c \<longleftrightarrow> packetTickCntr c = Some \<lparr>original_tick_count = of_nat start\<rparr>"

definition ms_at :: "nat \<Rightarrow> nat \<Rightarrow> u32" where
  "ms_at start t = of_nat (10 * (t - start))"

lemma unat_of_nat_u32: "x < 2 ^ 32 \<Longrightarrow> unat (of_nat x :: u32) = x"
  by (simp add: unsigned_of_nat take_bit_nat_eq_self)

lemma now_ms_at:
  assumes "clock_started start c" "answer 0 (ticks (env c)) = of_nat t" "start \<le> t" "10 * (t - start) < 2 ^ 32"
  shows "now_ms c = ms_at start t"
proof -
  have "(of_nat t - of_nat start :: u32) = of_nat (t - start)" using assms(3) by (simp add: of_nat_diff)
  moreover have "unat (of_nat (t - start) :: u32) = t - start" by (rule unat_of_nat_u32) (use assms(4) in simp)
  ultimately show ?thesis
    using assms by (simp add: now_ms_def clock_started_def ms_of_ticks_def ms_at_def CONFIG_FREERTOS_HZ_def Let_def)
qed

lemma elapsed_seconds:
  assumes "start \<le> a" "a \<le> b" "10 * (b - start) < 2 ^ 32"
  shows "unat ((ms_at start b - ms_at start a) div 1000) = (b - a) div 100"
proof -
  have "10 * (b - start) - 10 * (a - start) = 10 * (b - a)" using assms(1,2) by simp
  then have "ms_at start b - ms_at start a = of_nat (10 * (b - a))"
    using assms(2) unfolding ms_at_def by (subst of_nat_diff [symmetric]) simp_all
  moreover have "unat (of_nat (10 * (b - a)) :: u32) = 10 * (b - a)"
    by (rule unat_of_nat_u32) (use assms in simp)
  ultimately show ?thesis by (simp only: unat_div) simp
qed

lemma elapsed_buffer: "unat (x div 1000 + KEEP_ALIVE_BUFFER_SEC) = unat ((x :: u32) div 1000) + 10"
proof -
  have "unat x < 2 ^ 32" using unsigned_less [of x] by simp
  then have "unat (x div 1000) + 10 < 2 ^ 32" by (simp add: unat_div)
  then show ?thesis by (simp add: KEEP_ALIVE_BUFFER_SEC_def unat_word_ariths)
qed

lemma seconds_compare: "ucast (s :: u16) < (x :: u32) \<longleftrightarrow> unat s < unat x"
  using unat_u16 [of s] by (simp add: word_less_nat_alt unsigned_ucast_eq take_bit_nat_eq_self)

definition online :: "MQTT_CLIENT \<Rightarrow> bool" where
  "online c \<longleftrightarrow> socketConnected c \<and> clientConnected c \<and> 0 < cl_keepAliveInterval c \<and> sending c \<and> packetState c \<noteq> DISCONNECT_TYPE"

text \<open>The response to a ping is late; a packet is due.\<close>

definition response_late :: "MQTT_CLIENT \<Rightarrow> u32 \<Rightarrow> bool" where
  "response_late c now \<longleftrightarrow> 0 < timeSincePing c \<and> (now - timeSincePing c) div 1000 > ucast (maxPingRespTime c)"

definition ping_due :: "MQTT_CLIENT \<Rightarrow> u32 \<Rightarrow> bool" where
  "ping_due c now \<longleftrightarrow> (now - packetSendTimeMs c) div 1000 + KEEP_ALIVE_BUFFER_SEC > ucast (cl_keepAliveInterval c)"

lemma ping_work_cases:
  assumes "online c"
  shows "ping_work c =
    (let c1 = c\<lparr>env := (env c)\<lparr>ticks := tl (ticks (env c))\<rparr>\<rparr> in
     if response_late c (now_ms c) then
       ret ((set_error_callback c1 MQTT_CLIENT_NO_PING_RESPONSE)\<lparr>timeSincePing := 0, packetSendTimeMs := 0, packetState := UNKNOWN_TYPE\<rparr>)
     else if ping_due c (now_ms c) then do {
       pingPacket \<leftarrow> mqtt_codec_ping;
       if pingPacket \<noteq> None then do {
         (r, c2) \<leftarrow> sendPacketItem c1 (BUFFER_u_char pingPacket) (BUFFER_length pingPacket);
         BUFFER_delete pingPacket;
         let (e2, ms2, c3) = tickcounter_get_current_ms c2;
         let c4 = (if e2 = 0 then c3\<lparr>timeSincePing := ms2\<rparr> else c3);
         (if logTrace c4 then do { t \<leftarrow> STRING_construct (Some (clit ''PINGREQ'')); STRING_delete t } else ret ());
         ret c4
       }
       else ret c1
     }
     else ret c1)"
  using assms unfolding online_def sending_def
  by (simp add: ping_work_def read_clock response_late_def ping_due_def Let_def)

text \<open>The client after a ping: the clock was read once to decide, once for the packet and once after it.\<close>

definition pinged :: "MQTT_CLIENT \<Rightarrow> MQTT_CLIENT" where
  "pinged c = (let c1 = sent_client [0xC0, 0] (c\<lparr>env := (env c)\<lparr>ticks := tl (ticks (env c))\<rparr>\<rparr>)
     in c1\<lparr>env := (env c1)\<lparr>ticks := tl (ticks (env c1))\<rparr>, timeSincePing := now_ms c1\<rparr>)"

lemma wp_ping_due:
  assumes "online c" "\<not> response_late c (now_ms c)" "ping_due c (now_ms c)"
    and "\<And>w'. \<not> plenty 2 w \<Longrightarrow> live w' = live w \<Longrightarrow> faults w' = faults w \<Longrightarrow> Q (c\<lparr>env := (env c)\<lparr>ticks := tl (ticks (env c))\<rparr>\<rparr>) w'"
    and "\<And>w'. live w' = live w \<Longrightarrow> faults w' = faults w \<Longrightarrow> used 2 w w' \<Longrightarrow> Q (pinged c) w'"
  shows "wp (ping_work c) Q w"
proof -
  let ?c = "c\<lparr>env := (env c)\<lparr>ticks := tl (ticks (env c))\<rparr>\<rparr>"
  have c: "sending ?c" "packetState ?c \<noteq> DISCONNECT_TYPE" "packetTickCntr c \<noteq> None" "\<not> logTrace c"
    using assms(1) by (simp_all add: online_def sending_def)
  show ?thesis
    unfolding ping_work_cases [OF assms(1)] Let_def if_not_P [OF assms(2)] if_P [OF assms(3)] mqtt_codec_ping_def wp_bind
  proof (rule wp_two_bytes, goal_cases)
    case (1 w')
    then show ?case using assms(4) by simp
  next
    case (2 w')
    show ?case
      unfolding known_conds wp_bind
      by (rule wp_sendPacketItem_ok [OF c(1,2), where bs = "[0xC0, 0]"])
        (use 2 c(3,4) assms(5) [of "w'\<lparr>live := live w\<rparr>"] in
          \<open>simp_all add: BUFFER_u_char_def mkbuf_def mqtt_packet_def rem_len_small client_types read_clock pinged_def Let_def sent_client_def\<close>)
  qed
qed

text \<open>Calls of \<open>mqtt_client_dowork\<close> at given times, with nothing from the transport; the clock stands during a call.\<close>

fun silent_calls :: "nat list \<Rightarrow> MQTT_CLIENT \<Rightarrow> MQTT_CLIENT cm" where
  "silent_calls [] c = ret c"
| "silent_calls (b # bs) c = do {
     c1 \<leftarrow> mqtt_client_dowork (Some (c\<lparr>env := (env c)\<lparr>ticks := replicate 3 (of_nat b)\<rparr>\<rparr>)) [];
     silent_calls bs (the c1)
   }"

text \<open>Times at most a second apart, from \<open>t\<close> on.\<close>

fun frequent :: "nat \<Rightarrow> nat list \<Rightarrow> bool" where
  "frequent t [] = True"
| "frequent t (b # bs) = (t \<le> b \<and> b \<le> t + 100 \<and> frequent b bs)"

lemma frequent_last: "frequent t bs \<Longrightarrow> t \<le> last (t # bs)"
  by (induction bs arbitrary: t) (force split: if_splits)+

text \<open>The last ping was at \<open>s\<close>; the next one is not due at \<open>t\<close>.\<close>

definition pinging :: "nat \<Rightarrow> nat \<Rightarrow> nat \<Rightarrow> MQTT_CLIENT \<Rightarrow> bool" where
  "pinging start s t c \<longleftrightarrow> online c \<and> send_answers (env c) = [] \<and> clock_started start c \<and>
     packetSendTimeMs c = ms_at start s \<and> timeSincePing c = ms_at start s \<and> start \<le> s \<and>
     s \<le> t \<and> (t - s) div 100 + 10 \<le> unat (cl_keepAliveInterval c) \<and> unat (cl_keepAliveInterval c) \<le> 18 \<and>
     unat (maxPingRespTime c) = unat (cl_keepAliveInterval c) div 2"

text \<open>A call either sends the next ping or finds that it is not due.\<close>

lemma pinging_step:
  assumes "pinging start s t c" "t \<le> b" "b \<le> t + 100" "10 * (b - start) < 2 ^ 32" "plenty 2 w"
    and "\<And>s' c' w' n. pinging start s' b c' \<Longrightarrow> cl_keepAliveInterval c' = cl_keepAliveInterval c \<Longrightarrow>
      s' = s \<and> n = 0 \<or> s' = b \<and> n = 1 \<Longrightarrow> actions (env c') = actions (env c) @ replicate n (Xio_send [0xC0, 0]) \<Longrightarrow>
      used 2 w w' \<Longrightarrow> live w' = live w \<Longrightarrow> faults w' = faults w \<Longrightarrow> Q (Some c') w'"
  shows "wp (mqtt_client_dowork (Some (c\<lparr>env := (env c)\<lparr>ticks := replicate 3 (of_nat b)\<rparr>\<rparr>)) []) Q w"
proof -
  let ?b = "of_nat b :: u32" and ?k = "unat (cl_keepAliveInterval c)"
  let ?c = "c\<lparr>env := (env c)\<lparr>ticks := [?b, ?b, ?b]\<rparr>\<rparr>" and ?c' = "c\<lparr>env := (env c)\<lparr>ticks := [?b, ?b]\<rparr>\<rparr>"
  have c: "online ?c" "xioHandle ?c" "clock_started start ?c" and ticks: "tl (ticks (env ?c)) = [?b, ?b]"
    using assms(1) by (simp_all add: pinging_def online_def sending_def clock_started_def answer_def)
  have k: "(t - s) div 100 + 10 \<le> ?k" "?k \<le> 18" "start \<le> s" "s \<le> b" "start \<le> b" using assms(1,2) by (simp_all add: pinging_def)
  have now: "now_ms c' = ms_at start b" if "clock_started start c'" "ticks (env c') \<noteq> []" "set (ticks (env c')) \<subseteq> {?b}" for c'
    by (rule now_ms_at [OF that(1) _ k(5) assms(4)]) (use that(2,3) in \<open>cases "ticks (env c')"; simp add: answer_def\<close>)
  have sec: "(b - s) div 100 \<le> (t - s) div 100 + 1"
    using assms(2,3) div_le_mono [of "b - s" "(t - s) + 100" 100] by simp
  note elapsed = elapsed_seconds [OF k(3,4) assms(4)]
  have "(b - s) div 100 \<le> ?k div 2" using sec k(1,2) by linarith
  then have late: "\<not> response_late ?c (now_ms ?c)"
    using assms(1) now [OF c(3)] by (simp add: response_late_def seconds_compare pinging_def elapsed)
  have due: "ping_due ?c (now_ms ?c) \<longleftrightarrow> ?k < (b - s) div 100 + 10"
    using assms(1) now [OF c(3)] elapsed by (simp add: ping_due_def seconds_compare pinging_def elapsed_buffer)
  have "wp (ping_work ?c) (\<lambda>c'. Q (Some c')) w"
  proof (cases "ping_due ?c (now_ms ?c)")
    case True
    have p: "pinging start b b (pinged ?c)" "cl_keepAliveInterval (pinged ?c) = cl_keepAliveInterval c"
      "actions (env (pinged ?c)) = actions (env c) @ replicate 1 (Xio_send [0xC0, 0])"
      using assms(1) k now by (simp_all add: pinging_def pinged_def sent_client_def online_def sending_def Let_def answer_def clock_started_def)
    show ?thesis by (rule wp_ping_due [OF c(1) late True]) (use assms(5) assms(6) [OF p(1,2) _ p(3)] in simp_all)
  next
    case False
    have "pinging start s b ?c'" using assms(1) False k due by (simp add: pinging_def online_def sending_def answer_def clock_started_def)
    then show ?thesis
      unfolding ping_work_cases [OF c(1)] using late False assms(6) [of s ?c' 0 w] by (simp add: Let_def)
  qed
  then show ?thesis using c(2) by (simp add: mqtt_client_dowork_def numeral_3_eq_3)
qed

text \<open>At least one ping in every \<open>k - 8\<close> seconds.\<close>

definition pings_since :: "nat \<Rightarrow> nat \<Rightarrow> MQTT_CLIENT \<Rightarrow> MQTT_CLIENT \<Rightarrow> bool" where
  "pings_since s t c c' \<longleftrightarrow> (\<exists>n. actions (env c') = actions (env c) @ replicate n (Xio_send [0xC0, 0]) \<and>
     t - s < Suc n * (100 * (unat (cl_keepAliveInterval c) - 8)))"

lemma pings_since_step:
  assumes "actions (env c1) = actions (env c) @ replicate m (Xio_send [0xC0, 0])" "cl_keepAliveInterval c1 = cl_keepAliveInterval c"
    and "s1 = s \<and> m = 0 \<or> s1 = b \<and> m = 1" "b - s < 100 * (unat (cl_keepAliveInterval c) - 8)" "s \<le> b" "b \<le> t" "pings_since s1 t c1 c'"
  shows "pings_since s t c c'"
proof -
  obtain n where n: "actions (env c') = actions (env c1) @ replicate n (Xio_send [0xC0, 0])"
    "t - s1 < Suc n * (100 * (unat (cl_keepAliveInterval c) - 8))" using assms(2,7) by (auto simp: pings_since_def)
  have "t - s < Suc (m + n) * (100 * (unat (cl_keepAliveInterval c) - 8))" using assms(3-6) n(2) by auto
  then show ?thesis
    unfolding pings_since_def using assms(1) n(1) by (intro exI [of _ "m + n"]) (simp add: replicate_add)
qed

lemma pinging_calls:
  "pinging start s t c \<Longrightarrow> frequent t bs \<Longrightarrow> 10 * (last (t # bs) - start) < 2 ^ 32 \<Longrightarrow> plenty (2 * length bs) w \<Longrightarrow>
   wp (silent_calls bs c) (\<lambda>c' w'. pings_since s (last (t # bs)) c c' \<and> online c' \<and> live w' = live w \<and> faults w' = faults w) w"
proof (induction bs arbitrary: s t c w)
  case Nil
  then have "(t - s) div 100 + 10 \<le> unat (cl_keepAliveInterval c)" by (simp add: pinging_def)
  then have "t - s < 100 * (unat (cl_keepAliveInterval c) - 8)" by linarith
  with Nil show ?case by (auto simp: pinging_def pings_since_def intro: exI [of _ 0])
next
  case (Cons b bs)
  have l: "last (t # b # bs) = last (b # bs)" "b \<le> last (b # bs)" using frequent_last Cons.prems(2) by auto
  have "(t - s) div 100 + 10 \<le> unat (cl_keepAliveInterval c)" "s \<le> t" "t \<le> b" "b \<le> t + 100"
    using Cons.prems(1,2) by (simp_all add: pinging_def)
  then have gap: "b - s < 100 * (unat (cl_keepAliveInterval c) - 8)" "s \<le> b" by linarith+
  show ?case
    unfolding silent_calls.simps wp_bind l(1)
  proof (rule pinging_step [OF Cons.prems(1)], goal_cases)
    case (5 s' c' w' n)
    have "plenty (2 * length bs) w'" using plenty_used [OF 5(5), of "2 * length bs"] Cons.prems(4) by simp
    then have "wp (silent_calls bs c') (\<lambda>c'' w''. pings_since s' (last (b # bs)) c' c'' \<and>
        online c'' \<and> live w'' = live w' \<and> faults w'' = faults w') w'"
      using Cons.IH [OF 5(1)] Cons.prems(2,3) l(1) by simp
    then show ?case using 5(6,7) pings_since_step [OF 5(4,2,3) gap l(2)] by (auto elim!: wp_mono)
  qed (use Cons.prems l plenty_le [of "2 * length (b # bs)" w 2] in simp_all)
qed

section \<open>Properties\<close>

text \<open>C1. The application hears of the packets of its peer, once each and in order: for a client that waits for a packet, with its callbacks
  set and its trace log off, and any sequence of packets the client can represent - every acknowledgement, responses to a ping, and messages
  of quality of service 1 or 2 with any flags or of quality of service 0 with none, with a topic that is not empty and has no zero byte, and
  bodies whose length the decoder can read - and however the connection cuts their bytes into nonempty pieces, the client calls the application's
  callbacks with exactly these packets' contents, whatever the transport answers to the acknowledgements the client sends in between; every block
  is given back, nothing is read or written outside a block, and the client waits for the next packet. Memory for eight requests a
  packet is at hand. What becomes of the packets left out is C36, C38 and C39.\<close>

theorem client_stream:
  assumes "listening c" "\<forall>p \<in> set ps. peer_ok p" "plenty (8 * length ps) w"
    and "concat cs = concat (map (\<lambda>p. packet_bytes (peer_wire p)) ps)" "[] \<notin> set cs"
  shows "wp (xio_dowork (map Ev_bytes cs) c) (\<lambda>c' w'. app_calls c' = app_calls c @ concat (map peer_calls ps) \<and> listening c' \<and>
    live w' = live w \<and> faults w' = faults w) w"
  by (rule feeds_chunks [OF assms(5)], unfold assms(4), rule feeds_stream [OF assms(1-3)]) simp

definition sample_io :: io_env where
  "sample_io = \<lparr>open_answers = [], send_answers = [(1, Some IO_SEND_ERROR), (0, Some IO_SEND_OK)], close_answers = [], work_answers = [],
     ticks = [510, 520], too_large = (\<lambda>_. 0), actions = []\<rparr>"

definition sample_client :: MQTT_CLIENT where
  "sample_client = \<lparr>xioHandle = True,
     codec_handle = Some \<lparr>currPacket = UNKNOWN_TYPE, codecState = CODEC_STATE_FIXED_HEADER, bufferOffset = 0, headerFlags = 0,
       headerData = None, packetComplete = True, storeRemainLen = [0, 0, 0, 0], remainLenIndex = 0\<rparr>,
     packetState = CONNECT_TYPE, packetTickCntr = Some \<lparr>original_tick_count = 500\<rparr>, packetSendTimeMs = 0, fnOperationCallback = True, fnMessageRecv = True,
     fnOnErrorCallBack = True, disconnect_cb = False, cl_qosValue = DELIVER_AT_MOST_ONCE, cl_keepAliveInterval = 20, mqttOptions = no_options,
     clientConnected = True, socketConnected = True, logTrace = False, rawBytesTrace = False, timeSincePing = 0, maxPingRespTime = 10,
     env = sample_io\<rparr>"

definition sample_world :: "nat \<Rightarrow> world" where
  "sample_world n = \<lparr>avail = replicate n (Some (\<lambda>_. 7)), live = 0, faults = 0\<rparr>"

lemma zeros_4: "replicate 4 0 = [0, 0, 0, 0]"
  by (simp add: numeral_eq_Suc)

lemma sample_facts [simp]:
  "listening sample_client" "app_calls sample_client = []" "plenty n (sample_world n)" "live (sample_world n) = 0" "faults (sample_world n) = 0"
  by (simp_all add: listening_def ready_def sample_client_def idle_def zeros_4 app_calls_def sample_io_def sample_world_def plenty_eval
    list_all_iff client_types)

theorem client_stream_witness:
  "wp (xio_dowork (map Ev_bytes [[0x20], [2, 0, 0, 0x3A, 7, 0, 1], [116, 0, 9, 1, 2, 0xD0], [0]]) sample_client) (\<lambda>c' w'.
     app_calls c' = [Operation MQTT_CLIENT_ON_CONNACK (CONNECT_ACK False 0),
       Message_recv (received_message DELIVER_AT_LEAST_ONCE True False 9 [116] [1, 2]), Operation MQTT_CLIENT_ON_PING_RESPONSE No_info] \<and>
     listening c' \<and> live w' = 0 \<and> faults w' = 0) (sample_world 24)"
proof -
  let ?ps = "[P_connack False 0, P_publish DELIVER_AT_LEAST_ONCE True False 9 [116] [1, 2], P_pingresp]"
  have f: "PUBLISH_TYPE OR publish_flags DELIVER_AT_LEAST_ONCE True False = 0x3A" by code_simp
  have b: "utf_field [116] = [0, 1, 116]" "publish_id DELIVER_AT_LEAST_ONCE 9 = [0, 9]" by code_simp+
  have ok: "\<forall>p \<in> set ?ps. peer_ok p"
    by (simp add: f [unfolded client_types] b USHRT_MAX_def wire_ok_def decodable_def rem_len_small client_types)
  have bytes: "concat [[0x20], [2, 0, 0, 0x3A, 7, 0, 1], [116, 0, 9, 1, 2, 0xD0], [0]] = concat (map (\<lambda>p. packet_bytes (peer_wire p)) ?ps)"
    by (simp add: f [unfolded client_types] b packet_bytes_def mqtt_packet_def rem_len_small client_types)
  show ?thesis
    by (rule wp_mono [OF client_stream [OF _ ok _ bytes]]) simp_all
qed

text \<open>C2. Messages get through, from one application to another: with a transport that takes the packet, \<open>mqtt_client_publish\<close> either
  hands the transport one packet, or fails for lack of memory and sends nothing; in both cases it keeps no block. However the connection
  cuts the bytes of that packet into nonempty pieces, the client at the other end, when it waits for a packet and has memory, calls its message
  callback once, with a message of the same value: topic, payload, quality of service, flags, and the packet identifier unless the quality of
  service is 0, where none is sent. The message may own its data or point at it; its topic is not empty, and it is not one of
  quality of service 0 flagged as retained or duplicate (C38) nor of a length the decoder misreads.\<close>

theorem publish_delivered:
  assumes "owned_message m \<or> in_place_message m" "message_value m = (k, q, t, p, dup, retain)"
    and "peer_ok (P_publish q dup retain k t p)" "sending c1" "listening c2" "plenty 8 w2"
  shows "wp (mqtt_client_publish (Some c1) (Some m)) (\<lambda>(r, h) w1'. live w1' = live w1 \<and> faults w1' = faults w1 \<and> (\<exists>c1'. h = Some c1' \<and>
     (if r = 0 then \<exists>bs. actions (env c1') = actions (env c1) @ [Xio_send bs] \<and>
        (\<forall>cs. concat cs = bs \<longrightarrow> [] \<notin> set cs \<longrightarrow>
          wp (xio_dowork (map Ev_bytes cs) c2) (\<lambda>c2' w2'. \<exists>m'. app_calls c2' = app_calls c2 @ [Message_recv m'] \<and>
            message_value m' = (if q = DELIVER_AT_MOST_ONCE then 0 else k, q, t, p, dup, retain) \<and>
            listening c2' \<and> live w2' = live w2 \<and> faults w2' = faults w2) w2)
      else actions (env c1') = actions (env c1) \<and> \<not> plenty 6 w1))) w1"
proof -
  have t: "0 \<notin> set t" "length t \<le> USHRT_MAX" using assms(3) by simp_all
  show ?thesis
    by (rule wp_publish_to_peer [OF assms(1,2) t(2) _ received_value [OF t(1)] assms(4-6)]) (use handles_peer [OF assms(3)] in simp)
qed

theorem publish_delivered_witness:
  "wp (mqtt_client_publish (Some (sample_client\<lparr>env := sample_io\<lparr>send_answers := [(0, Some IO_SEND_OK)]\<rparr>\<rparr>))
       (Some ((new_message 9 [116] DELIVER_EXACTLY_ONCE [1, 2])\<lparr>msg_isMessageRetained := True\<rparr>)))
     (\<lambda>(r, h) _. r = 0 \<and> (\<exists>c1'. h = Some c1' \<and> (\<exists>bs. actions (env c1') = [Xio_send bs] \<and>
        (\<forall>cs. concat cs = bs \<longrightarrow> [] \<notin> set cs \<longrightarrow>
          wp (xio_dowork (map Ev_bytes cs) sample_client) (\<lambda>c2' w2'. \<exists>m'. app_calls c2' = [Message_recv m'] \<and>
            message_value m' = (9, DELIVER_EXACTLY_ONCE, [116], [1, 2], False, True) \<and>
            listening c2' \<and> live w2' = 0 \<and> faults w2' = 0) (sample_world 8))))) (sample_world 6)"
proof -
  let ?m = "(new_message 9 [116] DELIVER_EXACTLY_ONCE [1, 2])\<lparr>msg_isMessageRetained := True\<rparr>"
  let ?c = "sample_client\<lparr>env := sample_io\<lparr>send_answers := [(0, Some IO_SEND_OK)]\<rparr>\<rparr>"
  have c: "sending ?c" "actions (env ?c) = []" by (simp_all add: sending_def sample_client_def sample_io_def answer_def)
  have f: "PUBLISH_TYPE OR publish_flags DELIVER_EXACTLY_ONCE False True = 0x35" by code_simp
  have b: "utf_field [116] = [0, 1, 116]" "publish_id DELIVER_EXACTLY_ONCE 9 = [0, 9]" by code_simp+
  have z: "is_cstr [116, 0]" "c_str [116, 0] = [116]" by code_simp+
  have m: "owned_message ?m" "message_value ?m = (9, DELIVER_EXACTLY_ONCE, [116], [1, 2], False, True)"
    by (simp_all add: z owned_message_def new_message_def zero_message_def zero_payload_def message_value_def msg_getters payload_bytes_def SIZE_MOD_def)
  have ok: "peer_ok (P_publish DELIVER_EXACTLY_ONCE False True 9 [116] [1, 2])"
    by (simp add: f [unfolded client_types] b USHRT_MAX_def wire_ok_def decodable_def rem_len_small client_types)
  show ?thesis
    by (rule wp_mono [OF publish_delivered [OF _ m(2) ok c(1) sample_facts(1,3)]])
      (use m(1) c(2) in \<open>auto split: if_splits\<close>)
qed

text \<open>C12. Keep-alive. On a connection with a keep-alive interval, whose transport takes packets, \<open>mqtt_client_dowork\<close> looks at the clock: when
  the response to the last ping noted has been missing for longer than \<open>maxPingRespTime\<close> seconds, the application is told
  MQTT_CLIENT_NO_PING_RESPONSE and the connection is closed, and is down when the transport completes the close within ten calls; otherwise, when
  nothing has been sent for the interval less ten seconds, a PINGREQ is sent and the times noted, unless memory is short; otherwise nothing
  happens. The seconds are true ones by the ticks of the operating system, also when its tick count wraps, as long as the client is less than
  \<open>2\<^sup>32\<close> milliseconds old; after that the conversion of the reading to \<open>uint32_t\<close> is undefined.\<close>

theorem keep_alive:
  assumes "online c" "clock_started start c" "ticks (env c) = map of_nat [now, t1, t2] @ ts"
    and "now \<le> t1" "t1 \<le> t2" "10 * (t2 - start) < 2 ^ 32"
    and "packetSendTimeMs c = ms_at start sent" "start \<le> sent" "sent \<le> now"
    and "timeSincePing c = ms_at start ping" "start \<le> ping" "ping \<le> now"
  shows "wp (ping_work c) (\<lambda>c' w'. live w' = live w \<and> faults w' = faults w \<and>
    (if ping \<noteq> start \<and> (now - ping) div 100 > unat (maxPingRespTime c) then
       timeSincePing c' = 0 \<and> (closes c \<longrightarrow> \<not> clientConnected c' \<and> \<not> socketConnected c') \<and>
       (\<exists>n. actions (env c') = actions (env c) @ (if fnOnErrorCallBack c then [On_error MQTT_CLIENT_NO_PING_RESPONSE] else []) @
         [Xio_close] @ replicate n Disconnected)
     else if (now - sent) div 100 + 10 > unat (cl_keepAliveInterval c) then
       actions (env c') = actions (env c) @ [Xio_send [0xC0, 0]] \<and> packetSendTimeMs c' = ms_at start t1 \<and> timeSincePing c' = ms_at start t2 \<or>
       \<not> plenty 2 w \<and> c' = c\<lparr>env := (env c)\<lparr>ticks := map of_nat [t1, t2] @ ts\<rparr>\<rparr>
     else c' = c\<lparr>env := (env c)\<lparr>ticks := map of_nat [t1, t2] @ ts\<rparr>\<rparr>)) w"
proof -
  let ?c = "c\<lparr>env := (env c)\<lparr>ticks := tl (ticks (env c))\<rparr>\<rparr>"
  have bounds: "start \<le> now" "10 * (now - start) < 2 ^ 32" "10 * (t1 - start) < 2 ^ 32" "10 * (ping - start) < 2 ^ 32" using assms(4-12) by auto
  have now: "now_ms c = ms_at start now"
    by (rule now_ms_at [OF assms(2) _ bounds(1,2)]) (simp add: assms(3) answer_def)
  have later: "now_ms d = ms_at start t" if "clock_started start d" "answer 0 (ticks (env d)) = of_nat t" "t = t1 \<or> t = t2" for d t
    by (rule now_ms_at [OF that(1,2)]) (use that(3) bounds assms(4-6) in auto)
  have noted: "timeSincePing c \<noteq> 0 \<longleftrightarrow> ping \<noteq> start"
  proof -
    have "unat (ms_at start ping) = 10 * (ping - start)"
      unfolding ms_at_def by (rule unat_of_nat_u32 [OF bounds(4)])
    then show ?thesis using assms(10,11) unat_eq_0 [of "ms_at start ping"] by auto
  qed
  have late: "response_late c (now_ms c) \<longleftrightarrow> ping \<noteq> start \<and> (now - ping) div 100 > unat (maxPingRespTime c)"
    unfolding noted [symmetric] using elapsed_seconds [OF assms(11,12) bounds(2)]
    by (simp add: response_late_def seconds_compare assms(10) now word_gt_0)
  have due: "ping_due c (now_ms c) \<longleftrightarrow> (now - sent) div 100 + 10 > unat (cl_keepAliveInterval c)"
    using elapsed_seconds [OF assms(8,9) bounds(2)] by (simp add: ping_due_def seconds_compare assms(7) now elapsed_buffer)
  show ?thesis
  proof (cases "response_late c (now_ms c)")
    case True
    have c: "xioHandle ?c" "clientConnected ?c" "closes ?c = closes c" using assms(1) by (simp_all add: online_def sending_def closes_def)
    show ?thesis
      unfolding ping_work_cases [OF assms(1)] late [symmetric]
      using True c(2,3) set_error_closes [OF c(1), of MQTT_CLIENT_NO_PING_RESPONSE] by (simp add: down_def)
  next
    case False
    show ?thesis
    proof (cases "ping_due c (now_ms c)")
      case True
      have n: "now_ms ?c = ms_at start t1" "now_ms (sent_client [0xC0, 0] ?c) = ms_at start t2"
        using assms(2) by (simp_all add: later clock_started_def sent_client_def assms(3) answer_def)
      show ?thesis
        unfolding late [symmetric] due [symmetric] if_not_P [OF False] if_P [OF True]
        by (rule wp_ping_due [OF assms(1) False True])
          (use n in \<open>simp_all add: pinged_def Let_def assms(3) sent_client_def\<close>)
    next
      case nd: False
      then show ?thesis
        unfolding ping_work_cases [OF assms(1)] late [symmetric] due [symmetric] using False by (simp add: assms(3))
    qed
  qed
qed

theorem keep_alive_witness:
  "wp (ping_work (sample_client\<lparr>packetTickCntr := Some \<lparr>original_tick_count = 4294967290\<rparr>, packetSendTimeMs := 3000, timeSincePing := 2000,
       env := sample_io\<lparr>ticks := [1600, 1600, 1600], send_answers := [], work_answers := [False, True]\<rparr>\<rparr>))
     (\<lambda>c' w'. \<not> clientConnected c' \<and> (\<exists>n. actions (env c') = [On_error MQTT_CLIENT_NO_PING_RESPONSE, Xio_close] @ replicate n Disconnected))
     (sample_world 0)"
proof -
  let ?c = "sample_client\<lparr>packetTickCntr := Some \<lparr>original_tick_count = 4294967290\<rparr>, packetSendTimeMs := 3000, timeSincePing := 2000,
    env := sample_io\<lparr>ticks := [1600, 1600, 1600], send_answers := [], work_answers := [False, True]\<rparr>\<rparr>"
  let ?s = "4294967290 :: nat" and ?n = "4294967296 + 1600 :: nat"
  have on: "online ?c" by (simp add: online_def sending_def sample_client_def sample_io_def answer_def client_types)
  have t: "clock_started ?s ?c" "ticks (env ?c) = map of_nat [?n, ?n, ?n] @ []" "packetSendTimeMs ?c = ms_at ?s (?s + 300)"
    "timeSincePing ?c = ms_at ?s (?s + 200)"
    by (simp_all add: sample_client_def sample_io_def clock_started_def ms_at_def)
  show ?thesis
    by (rule wp_mono [OF keep_alive [OF on t(1,2) _ _ _ t(3) _ _ t(4)]])
      (simp_all add: sample_client_def sample_io_def closes_def MAX_CLOSE_RETRIES_def)
qed

text \<open>C37. With a keep-alive interval of \<open>k\<close> seconds, 10 to 18, a peer that stopped answering is never noticed by a client that is
  polled at least once a second: the next ping is due before the response to the last one is late, and sending it restarts the wait. However many
  times \<open>mqtt_client_dowork\<close> is called, at most a second apart, the client keeps sending PINGREQ - at least one in every \<open>k - 8\<close>
  seconds - reports no error and closes nothing, although a missing response shall be reported after \<open>maxPingRespTime\<close>, half the
  interval. The transport takes the packets, memory is at hand, and the client is less than \<open>2\<^sup>32\<close> milliseconds old.\<close>

theorem silent_peer_unnoticed:
  assumes "online c" "send_answers (env c) = []" "clock_started start c" "start \<le> t" "10 * (last (t # bs) - start) < 2 ^ 32"
    and "packetSendTimeMs c = ms_at start t" "timeSincePing c = ms_at start t"
    and "10 \<le> unat (cl_keepAliveInterval c)" "unat (cl_keepAliveInterval c) \<le> 18"
    and "maxPingRespTime c = cl_keepAliveInterval c div 2" "frequent t bs" "plenty (2 * length bs) w"
  shows "wp (silent_calls bs c) (\<lambda>c' w'. (\<exists>n. actions (env c') = actions (env c) @ replicate n (Xio_send [0xC0, 0]) \<and>
      (last (t # bs) - t) div (100 * (unat (cl_keepAliveInterval c) - 8)) \<le> n) \<and> online c' \<and> live w' = live w \<and> faults w' = faults w) w"
proof (rule wp_mono [OF pinging_calls [of start t t]], goal_cases)
  case (5 c' w')
  have "(x :: nat) < Suc n * p \<Longrightarrow> x div p \<le> n" for x n p by (metis less_Suc_eq_le less_mult_imp_div_less)
  then show ?case using 5 by (auto simp: pings_since_def)
qed (use assms in \<open>simp_all add: pinging_def unat_div\<close>)

theorem silent_peer_unnoticed_witness:
  "wp (silent_calls [590, 680, 770, 860, 950, 1040, 1130, 1220, 1310, 1400, 1500, 1600, 1700, 1800]
       (sample_client\<lparr>packetTickCntr := Some \<lparr>original_tick_count = 0\<rparr>, packetSendTimeMs := 5000, timeSincePing := 5000,
         cl_keepAliveInterval := 12, maxPingRespTime := 6, env := sample_io\<lparr>send_answers := []\<rparr>\<rparr>))
     (\<lambda>c' w'. (\<exists>n. actions (env c') = replicate n (Xio_send [0xC0, 0]) \<and> 3 \<le> n) \<and> online c') (sample_world 28)"
proof -
  let ?c = "sample_client\<lparr>packetTickCntr := Some \<lparr>original_tick_count = 0\<rparr>, packetSendTimeMs := 5000, timeSincePing := 5000,
    cl_keepAliveInterval := 12, maxPingRespTime := 6, env := sample_io\<lparr>send_answers := []\<rparr>\<rparr>"
  have c: "online ?c" "send_answers (env ?c) = []" "clock_started 0 ?c" "actions (env ?c) = []" "cl_keepAliveInterval ?c = 12"
    "maxPingRespTime ?c = 6" "packetSendTimeMs ?c = ms_at 0 500" "timeSincePing ?c = ms_at 0 500"
    by (simp_all add: online_def sending_def sample_client_def sample_io_def answer_def client_types clock_started_def ms_at_def)
  show ?thesis
    by (rule wp_mono [OF silent_peer_unnoticed [OF c(1-3) _ _ c(7,8)]]) (use c(4-6) in simp_all)
qed

text \<open>C38. A message of quality of service 0 that is flagged as retained or as a duplicate is garbled on arrival: the client takes
  every PUBLISH with a flag other than the QoS-1 bit for one of QoS 2, so it reads the first two bytes of the payload as the packet
  identifier and reports the message without them, as to be delivered exactly once - messages its own \<open>mqtt_client_publish\<close> sends
  included.\<close>

theorem retained_message_garbled:
  assumes "owned_message m \<or> in_place_message m" "message_value m = (k0, DELIVER_AT_MOST_ONCE, t, be16 k @ p, dup, retain)" "dup \<or> retain"
    and "t \<noteq> []" "0 \<notin> set t" "length t \<le> USHRT_MAX" "decodable (length (utf_field t @ be16 k @ p))"
    and "sending c1" "listening c2" "plenty 8 w2"
  shows "wp (mqtt_client_publish (Some c1) (Some m)) (\<lambda>(r, h) w1'. live w1' = live w1 \<and> faults w1' = faults w1 \<and> (\<exists>c1'. h = Some c1' \<and>
     (if r = 0 then \<exists>bs. actions (env c1') = actions (env c1) @ [Xio_send bs] \<and>
        (\<forall>cs. concat cs = bs \<longrightarrow> [] \<notin> set cs \<longrightarrow>
          wp (xio_dowork (map Ev_bytes cs) c2) (\<lambda>c2' w2'. \<exists>m'. app_calls c2' = app_calls c2 @ [Message_recv m'] \<and>
            message_value m' = (k, DELIVER_EXACTLY_ONCE, t, p, dup, retain) \<and>
            listening c2' \<and> live w2' = live w2 \<and> faults w2' = faults w2) w2)
      else actions (env c1') = actions (env c1) \<and> \<not> plenty 6 w1))) w1"
  by (rule wp_publish_to_peer [OF assms(1,2,6) _ _ assms(8-10)])
    (use handles_misread [OF assms(3-7)] received_value [OF assms(5), of DELIVER_EXACTLY_ONCE dup retain k p] in \<open>simp_all add: publish_id_def\<close>)

theorem retained_message_garbled_witness:
  "wp (mqtt_client_publish (Some (sample_client\<lparr>env := sample_io\<lparr>send_answers := []\<rparr>\<rparr>))
       (Some ((new_message 0 [116] DELIVER_AT_MOST_ONCE [0x68, 0x65, 0x6C])\<lparr>msg_isMessageRetained := True\<rparr>)))
     (\<lambda>(r, h) _. r = 0 \<and> (\<exists>c1'. h = Some c1' \<and> (\<exists>bs. actions (env c1') = [Xio_send bs] \<and>
        (\<forall>cs. concat cs = bs \<longrightarrow> [] \<notin> set cs \<longrightarrow>
          wp (xio_dowork (map Ev_bytes cs) sample_client) (\<lambda>c2' w2'. \<exists>m'. app_calls c2' = [Message_recv m'] \<and>
            message_value m' = (0x6865, DELIVER_EXACTLY_ONCE, [116], [0x6C], False, True) \<and>
            listening c2' \<and> live w2' = 0 \<and> faults w2' = 0) (sample_world 8))))) (sample_world 6)"
proof -
  let ?m = "(new_message 0 [116] DELIVER_AT_MOST_ONCE [0x68, 0x65, 0x6C])\<lparr>msg_isMessageRetained := True\<rparr>"
  let ?c = "sample_client\<lparr>env := sample_io\<lparr>send_answers := []\<rparr>\<rparr>"
  have c: "sending ?c" "actions (env ?c) = []" by (simp_all add: sending_def sample_client_def sample_io_def answer_def)
  have k: "be16 0x6865 = [0x68, 0x65]" by code_simp
  have z: "is_cstr [116, 0]" "c_str [116, 0] = [116]" by code_simp+
  have m: "owned_message ?m" "message_value ?m = (0, DELIVER_AT_MOST_ONCE, [116], be16 0x6865 @ [0x6C], False, True)"
    by (simp_all add: z k owned_message_def new_message_def zero_message_def zero_payload_def message_value_def msg_getters payload_bytes_def SIZE_MOD_def)
  show ?thesis
    by (rule wp_mono [OF retained_message_garbled [OF _ m(2) _ _ _ _ _ c(1) sample_facts(1,3)]])
      (use m(1) c(2) in \<open>auto simp: USHRT_MAX_def decodable_def rem_len_small split: if_splits\<close>)
qed

text \<open>C39. \<open>byteutil_readUTF\<close> copies the topic of a PUBLISH by the length the packet declares, and nothing compares it with the length of the
  packet: the copy stays inside the packet exactly when the declared length does. A peer that declares a longer topic makes the client
  read past the end of the block.\<close>

theorem topic_overread:
  assumes "n \<noteq> 0" "next_alloc w \<noteq> None"
  shows "wp (byteutil_readUTF (Some (be16 n @ rest, 0)) (length rest + 2))
    (\<lambda>_ w'. faults w' = faults w + (if unat n \<le> length rest then 0 else 1)) w"
proof -
  define e where "e = (if unat n \<le> length rest then 0 else 1 :: nat)"
  have pos: "0 < n" "0 < unat n" using assms(1) by (simp_all add: word_gt_0 unat_gt_0)
  have copy: "wp (c_memcpy r 0 (be16 n @ rest) 2 (unat n)) (\<lambda>r1. wp (c_store r1 (unat n) 0)
      (\<lambda>_ w'. faults w' = faults w + e)) w1"
    if "length r = unat n + 1" "faults w1 = faults w" for r w1
    using that by (auto simp: wp_def c_memcpy_def c_store_def put_def c_assert_def e_def)
  have "wp (c_malloc (unat n + 1)) R w" if "\<And>r w1. length r = unat n + 1 \<Longrightarrow> faults w1 = faults w \<Longrightarrow> R (Some r) w1" for R
    by (rule wp_malloc) (use that assms(2) in auto)
  then show ?thesis
    unfolding e_def [symmetric] using pos copy by (simp add: byteutil_readUTF_def add.commute wp_bind_eta)
qed

theorem topic_overread_witness:
  "wp (byteutil_readUTF (Some (be16 0xFFFF @ [65], 0)) (length [65 :: u8] + 2)) (\<lambda>_ w'. faults w' = 1) (sample_world 1)"
  by (rule wp_mono [OF topic_overread]) (simp_all add: sample_world_def next_alloc_def)

end
