(* ===== verification/MqttLifecycle.thy ===== *)
theory MqttLifecycle
  imports MqttSession
begin

text \<open>
  The life of an MQTT client, from \<open>mqtt_client_init\<close> to \<open>mqtt_client_deinit\<close>: the options it copies, the session it opens, and that
  any sequence of its operations, whatever the transport and the memory do, accounts for every block. The client
  is an instance of the contract of \<open>Component\<close>; packets of the peer are among its operations, on what \<open>MqttSession\<close> shows of them.
\<close>

section \<open>The options\<close>

definition text_block :: "u8 list option \<Rightarrow> int" where
  "text_block s = (if s = None then 0 else 1)"

lemma text_block_simps [simp]: "text_block None = 0" "text_block (Some z) = 1"
  by (simp_all add: text_block_def)

lemma wp_free_text [simp]: "wp (c_free s) Q w = Q () (w\<lparr>live := live w - text_block s\<rparr>)"
  by (cases s) simp_all

definition opts_blocks :: "MQTT_CLIENT_OPTIONS \<Rightarrow> int" where
  "opts_blocks o1 = text_block (clientId o1) + text_block (willTopic o1) + text_block (willMessage o1) + text_block (username o1) + text_block (password o1)"

text \<open>Strings of less than 256 megabytes; only the client identifier may be empty.\<close>

definition text_ok :: "u8 list option \<Rightarrow> bool" where
  "text_ok s = (case s of None \<Rightarrow> True | Some z \<Rightarrow> is_cstr z \<and> length (c_str z) < 2 ^ 28)"

definition options_ok :: "MQTT_CLIENT_OPTIONS \<Rightarrow> bool" where
  "options_ok o1 \<longleftrightarrow> text_ok (clientId o1) \<and>
     list_all (\<lambda>s. text_ok s \<and> (s \<noteq> None \<longrightarrow> c_str (the s) \<noteq> [])) [username o1, password o1, willMessage o1, willTopic o1]"

text \<open>A field the caller leaves out keeps its old value.\<close>

definition merge :: "u8 list option \<Rightarrow> u8 list option \<Rightarrow> u8 list option" where
  "merge s old = (case s of None \<Rightarrow> old | Some z \<Rightarrow> Some (c_str z @ [0]))"

definition cleared :: "MQTT_CLIENT_OPTIONS \<Rightarrow> MQTT_CLIENT_OPTIONS" where
  "cleared o1 = o1\<lparr>clientId := None, willTopic := None, willMessage := None, username := None, password := None\<rparr>"

definition merged :: "MQTT_CLIENT_OPTIONS \<Rightarrow> MQTT_CLIENT_OPTIONS \<Rightarrow> MQTT_CLIENT_OPTIONS" where
  "merged o1 opts = o1\<lparr>clientId := merge (clientId opts) (clientId o1), willTopic := merge (willTopic opts) (willTopic o1),
     willMessage := merge (willMessage opts) (willMessage o1), username := merge (username opts) (username o1),
     password := merge (password opts) (password o1), keepAliveInterval := keepAliveInterval opts, messageRetain := messageRetain opts,
     useCleanSession := useCleanSession opts, willQos := willQos opts\<rparr>"

lemma wp_clear_mqtt_options [simp]:
  "wp (clear_mqtt_options c) Q w = Q (c\<lparr>mqttOptions := cleared (mqttOptions c)\<rparr>) (w\<lparr>live := live w - opts_blocks (mqttOptions c)\<rparr>)"
  by (simp add: clear_mqtt_options_def cleared_def opts_blocks_def algebra_simps)

text \<open>The copies are made one after the other; \<open>w0\<close> is the world before the first.\<close>

lemma wp_clone_option:
  assumes "text_ok s" "used i w0 w" "r \<noteq> 0 \<longrightarrow> \<not> plenty i w0"
    and "\<And>r' s' w'. used (Suc i) w0 w' \<Longrightarrow> r' \<noteq> 0 \<longrightarrow> \<not> plenty (Suc i) w0 \<Longrightarrow> r' = 0 \<longrightarrow> r = 0 \<and> s' = merge s old \<Longrightarrow>
      live w' = live w + text_block s' - text_block old \<Longrightarrow> faults w' = faults w \<Longrightarrow> Q (r', s') w'"
  shows "wp (clone_option r s old) Q w"
proof (cases "r = 0 \<and> s \<noteq> None")
  case False
  then show ?thesis
    using assms(2,3) assms(4) [of w r old] used_more [of i w0 w "Suc i"] plenty_le [of "Suc i" w0 i]
    by (auto simp: clone_option_def merge_def)
next
  case True
  then obtain z where z: "s = Some z" "is_cstr z" "length (c_str z) + 1 < SIZE_MOD" and r: "r = 0"
    using assms(1) by (auto simp: text_ok_def SIZE_MOD_def)
  have used1: "used (Suc i) w0 w'" if "avail w' = tl (avail w)" for w'
    using used_trans [OF assms(2) used_tl [OF that, of 1], of "Suc i"] by simp
  have oom: "\<not> plenty (Suc i) w0" if "next_alloc w = None"
    using used_starved [OF assms(2) not_plenty_next [OF that, of 1], of "Suc i"] by simp
  show ?thesis
    unfolding clone_option_def z(1) r known_conds simp_thms wp_bind
  proof (rule wp_mallocAndStrcpy_s [OF z(2,3)], goal_cases)
    case (1 w')
    then show ?case using assms(4) [of w' FAILURE old] used1 oom by (simp add: ENOMEM_def FAILURE_def)
  next
    case (2 w')
    then show ?case
      using assms(4) [of "w'\<lparr>live := live w' - text_block old\<rparr>" 0 "Some (c_str z @ [0])"] used1 [of w'] r by (simp add: z(1) merge_def)
  qed
qed

lemma wp_cloneMqttOptions:
  assumes "options_ok opts"
    and "\<And>r w'. r \<noteq> 0 \<Longrightarrow> \<not> plenty 5 w \<Longrightarrow> used 5 w w' \<Longrightarrow> live w' = live w - opts_blocks (mqttOptions c) \<Longrightarrow> faults w' = faults w \<Longrightarrow>
      Q (r, c\<lparr>mqttOptions := cleared (mqttOptions c)\<rparr>) w'"
    and "\<And>w'. used 5 w w' \<Longrightarrow> live w' = live w + opts_blocks (merged (mqttOptions c) opts) - opts_blocks (mqttOptions c) \<Longrightarrow>
      faults w' = faults w \<Longrightarrow> Q (0, c\<lparr>mqttOptions := merged (mqttOptions c) opts\<rparr>) w'"
  shows "wp (cloneMqttOptions c opts) Q w"
proof -
  let ?o = "mqttOptions c"
  have ok: "text_ok (clientId opts)" "text_ok (willTopic opts)" "text_ok (willMessage opts)" "text_ok (username opts)" "text_ok (password opts)"
    using assms(1) by (simp_all add: options_ok_def)
  show ?thesis
    unfolding cloneMqttOptions_def Let_def wp_bind
  proof (rule wp_clone_option [OF ok(1), where i = 0 and ?w0.0 = w], goal_cases)
    case (3 r1 s1 w1)
    note one = this
    show ?case
      unfolding prod.case wp_bind
    proof (rule wp_clone_option [OF ok(2) one(1,2)], goal_cases)
      case (1 r2 s2 w2)
      note two = this
      show ?case
        unfolding prod.case wp_bind
      proof (rule wp_clone_option [OF ok(3) two(1,2)], goal_cases)
        case (1 r3 s3 w3)
        note three = this
        show ?case
          unfolding prod.case wp_bind
        proof (rule wp_clone_option [OF ok(4) three(1,2)], goal_cases)
          case (1 r4 s4 w4)
          note four = this
          show ?case
            unfolding prod.case wp_bind
          proof (rule wp_clone_option [OF ok(5) four(1,2)], goal_cases)
            case (1 r5 s5 w5)
            note five = this
            note sums = one(4) two(4) three(4) four(4) five(4)
            have five': "used 5 w w5" "r5 \<noteq> 0 \<longrightarrow> \<not> plenty 5 w" "faults w5 = faults w"
              using five(1,2,5) four(5) three(5) two(5) one(5) by (simp_all add: eval_nat_numeral)
            show ?case
            proof (cases "r5 = 0")
              case True
              then have s: "s1 = merge (clientId opts) (clientId ?o)" "s2 = merge (willTopic opts) (willTopic ?o)"
                "s3 = merge (willMessage opts) (willMessage ?o)" "s4 = merge (username opts) (username ?o)" "s5 = merge (password opts) (password ?o)"
                using one(3) two(3) three(3) four(3) five(3) by simp_all
              show ?thesis using True s assms(3) [of w5] sums five' by (simp add: merged_def opts_blocks_def)
            next
              case False
              let ?m = "?o\<lparr>clientId := s1, willTopic := s2, willMessage := s3, username := s4, password := s5\<rparr>"
              have "live w5 - opts_blocks ?m = live w - opts_blocks ?o" "cleared ?m = cleared ?o"
                using sums by (simp_all add: opts_blocks_def cleared_def)
              then show ?thesis using False assms(2) [of r5 "w5\<lparr>live := live w - opts_blocks ?o\<rparr>"] five' by simp
            qed
          qed
        qed
      qed
    qed
  qed simp_all
qed

section \<open>The transport in any state of the client\<close>

text \<open>Closing and reporting change neither the fixed fields nor the answers to come for the calls that open and send.\<close>

definition kept :: "MQTT_CLIENT \<Rightarrow> MQTT_CLIENT \<Rightarrow> bool" where
  "kept c c' \<longleftrightarrow> fixed c' = fixed c \<and> open_answers (env c') = open_answers (env c) \<and> send_answers (env c') = send_answers (env c)"

lemma kept_refl [simp]: "kept c c"
  by (simp add: kept_def)

lemma kept_trans: "kept a b \<Longrightarrow> kept b c \<Longrightarrow> kept a c"
  by (simp add: kept_def)

lemma kept_steps [simp]: "kept c (act a c)" "kept c (on_connection_closed c)" "kept c (xio_close c)" "kept c (xio_dowork_closing c)"
  by (simp_all add: kept_def xio_close_def xio_dowork_closing_def on_connection_closed_def act_def fixed_def Let_def)

lemma kept_loop [simp]: "kept c (close_loop n c)"
proof (induction n arbitrary: c)
  case (Suc n)
  then show ?case using kept_trans [OF kept_steps(4) [of c]] by (simp add: Let_def)
qed simp

lemma kept_close [simp]: "kept c (close_connection c)"
  using kept_trans [OF kept_steps(3) [of c]] by (simp add: close_connection_def Let_def)

lemma kept_error [simp]: "kept c (set_error_callback c e)"
  using kept_trans [OF kept_steps(1) [of c "On_error e"]] by (simp add: set_error_callback_def)

lemma kept_sendComplete [simp]: "kept c (the (sendComplete (Some c) s))"
  using kept_trans [OF kept_steps(1) [of c "Operation MQTT_CLIENT_ON_DISCONNECT No_info"]] by (simp add: sendComplete_def)

text \<open>A transport that never refuses.\<close>

definition willing :: "MQTT_CLIENT \<Rightarrow> bool" where
  "willing c \<longleftrightarrow> open_answers (env c) = [] \<and> send_answers (env c) = []"

lemma kept_willing: "kept c c' \<Longrightarrow> willing c' = willing c"
  by (simp add: kept_def willing_def)

lemma xio_send_any:
  assumes "xio_send c bs = (r, c')"
  shows "fixed c' = fixed c" "r = 0 \<longrightarrow> xioHandle c" "willing c \<longrightarrow> willing c' \<and> (xioHandle c \<longrightarrow> r = 0)"
proof -
  define c1 where "c1 = c\<lparr>env := (env c)\<lparr>send_answers := tl (send_answers (env c))\<rparr>\<rparr>"
  have c1: "fixed c1 = fixed c" "willing c \<longrightarrow> willing c1" by (simp_all add: c1_def fixed_def willing_def)
  have "\<not> xioHandle c \<and> r = FAILURE \<and> c' = c \<or> xioHandle c \<and> kept c1 c' \<and> (willing c \<longrightarrow> r = 0)"
    using assms unfolding xio_send_def c1_def [symmetric] Let_def
    by (auto simp: willing_def answer_def split: prod.splits if_splits option.splits list.splits
        intro: kept_trans [OF kept_steps(1) kept_sendComplete])
  then show "fixed c' = fixed c" "r = 0 \<longrightarrow> xioHandle c" "willing c \<longrightarrow> willing c' \<and> (xioHandle c \<longrightarrow> r = 0)"
    using c1 kept_willing [of c1 c'] by (auto simp: kept_def)
qed

lemma wp_sendPacketItem_any:
  assumes "packetTickCntr c \<noteq> None" "len \<le> length (blk data)"
    and "\<And>r c'. fixed c' = fixed c \<Longrightarrow> r = 0 \<longrightarrow> xioHandle c \<Longrightarrow> willing c \<longrightarrow> willing c' \<and> (xioHandle c \<longrightarrow> r = 0) \<Longrightarrow> Q (r, c') w"
  shows "wp (sendPacketItem c data len) Q w"
proof -
  let ?c = "c\<lparr>env := (env c)\<lparr>ticks := tl (ticks (env c))\<rparr>, packetSendTimeMs := now_ms c\<rparr>"
  obtain r c' where s: "xio_send ?c (take len (blk data)) = (r, c')" by fastforce
  have c: "fixed ?c = fixed c" "willing ?c = willing c" "xioHandle ?c = xioHandle c" by (simp_all add: fixed_def willing_def)
  show ?thesis
    using assms xio_send_any [OF s] s unfolding c by (simp add: sendPacketItem_def read_clock)
qed

section \<open>One operation\<close>

text \<open>What stays the same when packets are sent: all fixed fields but the kind of the last packet, which is not DISCONNECT unless it was,
  and a willing transport stays willing.\<close>

definition steady :: "MQTT_CLIENT \<Rightarrow> MQTT_CLIENT \<Rightarrow> bool" where
  "steady c c' \<longleftrightarrow> fixed (c'\<lparr>packetState := packetState c\<rparr>) = fixed c \<and>
     (packetState c' = DISCONNECT_TYPE \<longrightarrow> packetState c = DISCONNECT_TYPE) \<and> (willing c \<longrightarrow> willing c')"

lemma steadyD:
  assumes "steady c c'"
  shows "xioHandle c' = xioHandle c" "codec_handle c' = codec_handle c" "packetTickCntr c' = packetTickCntr c" "logTrace c' = logTrace c"
    "mqttOptions c' = mqttOptions c" "willing c \<Longrightarrow> willing c'" "fnOperationCallback c' = fnOperationCallback c"
    "fnMessageRecv c' = fnMessageRecv c" "packetState c' = DISCONNECT_TYPE \<Longrightarrow> packetState c = DISCONNECT_TYPE"
  using assms by (simp_all add: steady_def fixed_def)

lemma steady_trans: "steady a b \<Longrightarrow> steady b c \<Longrightarrow> steady a c"
  by (simp add: steady_def fixed_def)

lemma kept_steady: "kept c c' \<Longrightarrow> steady c c'"
  by (simp add: kept_def steady_def fixed_def willing_def)

lemma fixed_steady: "fixed c' = fixed c \<Longrightarrow> willing c \<longrightarrow> willing c' \<Longrightarrow> steady c c'"
  by (simp add: steady_def fixed_def)

lemma steady_simps [simp]:
  "x \<noteq> DISCONNECT_TYPE \<Longrightarrow> steady c (c\<lparr>packetState := x\<rparr>)" "steady c (c\<lparr>packetSendTimeMs := y\<rparr>)" "steady c (c\<lparr>timeSincePing := z\<rparr>)"
  "steady c (c\<lparr>socketConnected := b\<rparr>)" "steady c (c\<lparr>env := (env c)\<lparr>ticks := t\<rparr>\<rparr>)"
  by (simp_all add: steady_def fixed_def willing_def)

text \<open>The outcome of a call that sends a packet.\<close>

definition send_outcome :: "nat \<Rightarrow> MQTT_CLIENT \<Rightarrow> world \<Rightarrow> int \<times> MQTT_CLIENT option \<Rightarrow> world \<Rightarrow> bool" where
  "send_outcome n c w out w' \<longleftrightarrow> (case out of (r, h) \<Rightarrow> \<exists>c'. h = Some c' \<and> steady c c' \<and> (r = 0 \<longrightarrow> xioHandle c) \<and>
     live w' = live w \<and> faults w' = faults w \<and> (willing c \<and> xioHandle c \<and> r \<noteq> 0 \<longrightarrow> \<not> plenty n w))"

lemma wp_send_built_any:
  assumes "packetTickCntr c \<noteq> None" "ty \<noteq> DISCONNECT_TYPE" "p = None \<longrightarrow> \<not> plenty n w" "p = None \<or> p = Some (mkbuf bs)" "live w1 = live w + buf_blocks p" "faults w1 = faults w"
  shows "wp (do { (r, c1) \<leftarrow> send_built c ty p None; ret (r, Some c1) }) (send_outcome n c w) w1"
proof (cases p)
  case None
  then show ?thesis using assms kept_steady [of c c] by (simp add: send_built_def send_outcome_def)
next
  case (Some b)
  have b: "b = mkbuf bs" using Some assms(4) by simp
  show ?thesis
    unfolding send_built_def Some known_conds Let_def wp_bind
  proof (rule wp_sendPacketItem_any, goal_cases)
    case (3 r c')
    have "steady c c'"
      using steady_trans [OF steady_simps(1) [OF assms(2), of c] fixed_steady [OF 3(1)]] 3(3) by (simp add: willing_def)
    then show ?case
      using 3 assms(5,6) by (auto simp: send_outcome_def Some b willing_def)
  qed (use assms(1) in \<open>simp_all add: b BUFFER_u_char_def mkbuf_def\<close>)
qed

definition message_ok :: "MQTT_MESSAGE \<Rightarrow> bool" where
  "message_ok m \<longleftrightarrow> (owned_message m \<or> in_place_message m) \<and>
     (case message_value m of (k, q, t, p, dup, retain) \<Rightarrow> length t \<le> USHRT_MAX \<and> length t + length p + 4 < 128 ^ 4)"

lemma wp_publish_any:
  assumes c: "packetTickCntr c \<noteq> None" "\<not> logTrace c" and m: "message_ok m"
  shows "wp (mqtt_client_publish (Some c) (Some m)) (send_outcome 6 c w) w"
proof -
  obtain z where z: "mqttmessage_getTopicName (Some m) = Some z" "is_cstr z" "length (c_str z) \<le> USHRT_MAX"
    using m by (auto simp: message_ok_def message_value_def mqttmessage_getTopicName_def owned_message_def in_place_message_def)
  obtain a where a: "mqttmessage_getApplicationMsg (Some m) = Some a"
    by (cases "0 < pl_length (msg_const_payload m)") (simp_all add: mqttmessage_getApplicationMsg_def)
  have len: "pl_length a \<le> length (blk (pl_message a))"
    using m a by (auto simp: message_ok_def mqttmessage_getApplicationMsg_def owned_message_def in_place_message_def zero_payload_def split: if_splits)
  then have n: "length (c_str z) + pl_length a + 4 < 128 ^ 4"
    using m by (simp add: message_ok_def message_value_def a z payload_bytes_def)
  show ?thesis
    unfolding mqtt_client_publish_def option.case a is_Some if_False construct_trace_log_handle_def if_not_P [OF c(2)] wp_bind wp_ret z
    by (rule wp_mqtt_codec_publish [OF z(2) len n])
      (use z(3) c in \<open>auto intro!: wp_send_built_any [unfolded wp_bind] simp: mkbuf_def client_types\<close>)
qed

definition subscribe_ok :: "u16 \<Rightarrow> SUBSCRIBE_PAYLOAD list \<Rightarrow> bool" where
  "subscribe_ok k l \<longleftrightarrow> k \<noteq> 0 \<and> l \<noteq> [] \<and> list_all (\<lambda>p. is_cstr (subscribeTopic p) \<and> length (c_str (subscribeTopic p)) \<le> USHRT_MAX) l \<and>
     length (concat (map sub_item l)) + 2 < 128 ^ 4"

definition unsubscribe_ok :: "u16 \<Rightarrow> u8 list list \<Rightarrow> bool" where
  "unsubscribe_ok k l \<longleftrightarrow> k \<noteq> 0 \<and> l \<noteq> [] \<and> list_all (\<lambda>p. is_cstr p \<and> length (c_str p) \<le> USHRT_MAX) l \<and>
     length (concat (map unsub_item l)) + 2 < 128 ^ 4"

lemma wp_subscribe_any:
  assumes c: "packetTickCntr c \<noteq> None" "\<not> logTrace c" and l: "subscribe_ok k l"
  shows "wp (mqtt_client_subscribe (Some c) k (Some l) (length l)) (send_outcome (length l + 5) c w) w"
proof -
  have args: "\<not> (Some l = None \<or> length l = 0 \<or> k = 0)" using l by (simp add: subscribe_ok_def)
  show ?thesis
    unfolding mqtt_client_subscribe_def option.case if_not_P [OF args] construct_trace_log_handle_def if_not_P [OF c(2)] wp_bind wp_ret
    by (rule wp_mqtt_codec_subscribe)
      (use l c in \<open>auto intro!: wp_send_built_any [unfolded wp_bind] simp: mkbuf_def client_types subscribe_ok_def list_all_iff\<close>)
qed

lemma wp_unsubscribe_any:
  assumes c: "packetTickCntr c \<noteq> None" "\<not> logTrace c" and l: "unsubscribe_ok k l"
  shows "wp (mqtt_client_unsubscribe (Some c) k (Some l) (length l)) (send_outcome (length l + 5) c w) w"
proof -
  have args: "\<not> (Some l = None \<or> length l = 0 \<or> k = 0)" using l by (simp add: unsubscribe_ok_def)
  show ?thesis
    unfolding mqtt_client_unsubscribe_def option.case if_not_P [OF args] construct_trace_log_handle_def if_not_P [OF c(2)] wp_bind wp_ret
    by (rule wp_mqtt_codec_unsubscribe)
      (use l c in \<open>auto intro!: wp_send_built_any [unfolded wp_bind] simp: mkbuf_def client_types unsubscribe_ok_def list_all_iff\<close>)
qed

text \<open>Disconnecting: the client lets go of the transport and of the options, unless there is no memory for the packet.\<close>

lemma wp_disconnect_any:
  assumes c: "packetTickCntr c \<noteq> None" "\<not> logTrace c" "xioHandle c"
    and failed: "\<And>w'. \<not> plenty 2 w \<Longrightarrow> live w' = live w \<Longrightarrow> faults w' = faults w \<Longrightarrow>
      Q (FAILURE, Some (c\<lparr>packetState := PACKET_TYPE_ERROR\<rparr>)) w'"
    and gone: "\<And>r c' w'. fixed c' = fixed (c\<lparr>disconnect_cb := cb, packetState := DISCONNECT_TYPE, xioHandle := False, mqttOptions := cleared (mqttOptions c)\<rparr>) \<Longrightarrow>
      willing c \<longrightarrow> willing c' \<and> r = 0 \<Longrightarrow> live w' = live w - opts_blocks (mqttOptions c) \<Longrightarrow> faults w' = faults w \<Longrightarrow> Q (r, Some c') w'"
  shows "wp (mqtt_client_disconnect (Some c) cb) Q w"
  unfolding mqtt_client_disconnect_def option.case if_P [OF c(3)] mqtt_codec_disconnect_def wp_bind
proof (rule wp_two_bytes, goal_cases)
  case (1 w')
  then show ?case using failed by simp
next
  case (2 w')
  show ?case
    unfolding known_conds Let_def wp_bind
  proof (rule wp_sendPacketItem_any, goal_cases)
    case (3 r c')
    then have "logTrace c' = logTrace c" "mqttOptions c' = mqttOptions c" by (simp_all add: fixed_def)
    moreover have "fixed (c'\<lparr>mqttOptions := cleared (mqttOptions c'), xioHandle := False\<rparr>) =
        fixed (c\<lparr>disconnect_cb := cb, packetState := DISCONNECT_TYPE, xioHandle := False, mqttOptions := cleared (mqttOptions c)\<rparr>)"
      using 3(1) by (simp add: fixed_def)
    ultimately show ?case
      using 2 3(3) c gone [of "c'\<lparr>mqttOptions := cleared (mqttOptions c'), xioHandle := False\<rparr>"]
      by (simp add: willing_def)
  qed (use c in \<open>simp_all add: BUFFER_u_char_def mkbuf_def\<close>)
qed

lemma wp_ping_any:
  assumes c: "packetTickCntr c \<noteq> None" "\<not> logTrace c"
    and Q: "\<And>c' w'. steady c c' \<Longrightarrow> live w' = live w \<Longrightarrow> faults w' = faults w \<Longrightarrow> Q c' w'"
  shows "wp (ping_work c) Q w"
proof -
  let ?c = "c\<lparr>env := (env c)\<lparr>ticks := tl (ticks (env c))\<rparr>\<rparr>"
  have "steady c ((set_error_callback ?c e)\<lparr>timeSincePing := 0, packetSendTimeMs := 0, packetState := UNKNOWN_TYPE\<rparr>)" for e
    using kept_steady [OF kept_error [of ?c e]] by (simp add: steady_def fixed_def willing_def client_types)
  then have late: "Q ((set_error_callback ?c e)\<lparr>timeSincePing := 0, packetSendTimeMs := 0, packetState := UNKNOWN_TYPE\<rparr>) w" for e
    using Q by simp
  have ping: "wp (do {
      pingPacket \<leftarrow> mqtt_codec_ping;
      if pingPacket \<noteq> None then do {
        (r, c2) \<leftarrow> sendPacketItem ?c (BUFFER_u_char pingPacket) (BUFFER_length pingPacket);
        BUFFER_delete pingPacket;
        let (e2, ms2, c3) = tickcounter_get_current_ms c2;
        let c4 = (if e2 = 0 then c3\<lparr>timeSincePing := ms2\<rparr> else c3);
        (if logTrace c4 then do { t \<leftarrow> STRING_construct (Some (clit ''PINGREQ'')); STRING_delete t } else ret ());
        ret c4
      }
      else ret ?c
    }) Q w"
    unfolding mqtt_codec_ping_def wp_bind
  proof (rule wp_two_bytes, goal_cases)
    case (1 w')
    then show ?case using Q by simp
  next
    case (2 w')
    show ?case
      unfolding known_conds wp_bind
    proof (rule wp_sendPacketItem_any, goal_cases)
      case (3 r c')
      have f: "packetTickCntr c' \<noteq> None" "\<not> logTrace c'" using 3(1) c by (simp_all add: fixed_def)
      have "steady c (c'\<lparr>env := (env c')\<lparr>ticks := tl (ticks (env c'))\<rparr>, timeSincePing := now_ms c'\<rparr>)"
        using 3 by (simp add: steady_def fixed_def willing_def)
      then show ?case using f 2 Q by (simp add: read_clock)
    qed (use c in \<open>simp_all add: BUFFER_u_char_def mkbuf_def\<close>)
  qed
  have idle: "Q c w" "Q ?c w" using Q [of c w] Q [of ?c w] kept_steady [of c c] by simp_all
  show ?thesis
    using late ping idle c(1) by (simp add: ping_work_def read_clock del: wp_bind)
qed

text \<open>Reports of the transport other than an opened connection and bytes received.\<close>

fun other_event :: "io_event \<Rightarrow> bool" where
  "other_event (Ev_open _) = False"
| "other_event (Ev_bytes _) = False"
| "other_event _ = True"

lemma client_other_event:
  assumes "other_event e"
  obtains c' where "client_event e c = ret c'" "kept c c'"
  using assms by (cases e) (auto simp: onIoError_def)

lemma dowork_other_events:
  assumes "list_all other_event es"
  obtains c' where "xio_dowork es c = ret c'" "kept c c'"
  using assms
proof (induction es arbitrary: c thesis)
  case (Cons e es)
  obtain c1 where 1: "client_event e c = ret c1" "kept c c1" using client_other_event Cons.prems(2) by auto
  obtain c2 where 2: "xio_dowork es c1 = ret c2" "kept c1 c2" using Cons.IH Cons.prems(2) by auto
  show ?case using Cons.prems(1) 1 2 kept_trans [OF 1(2) 2(2)] by simp
qed simp

lemma wp_dowork_any:
  assumes c: "packetTickCntr c \<noteq> None" "\<not> logTrace c" and es: "list_all other_event es"
    and Q: "\<And>c' w'. steady c c' \<Longrightarrow> live w' = live w \<Longrightarrow> faults w' = faults w \<Longrightarrow> Q (Some c') w'"
  shows "wp (mqtt_client_dowork (Some c) es) Q w"
proof (cases "xioHandle c")
  case True
  obtain c1 where 1: "xio_dowork es c = ret c1" "kept c c1" using dowork_other_events [OF es] by blast
  then have s: "steady c c1" by (simp add: kept_steady)
  have "wp (ping_work c1) (\<lambda>c2. Q (Some c2)) w"
    by (rule wp_ping_any) (use c Q steady_trans [OF s] steadyD(3,4) [OF s] in simp_all)
  then show ?thesis using True 1(1) by (simp add: mqtt_client_dowork_def)
next
  case False
  then show ?thesis using Q [of c w] kept_steady [of c c] by (simp add: mqtt_client_dowork_def)
qed

section \<open>Connecting\<close>

lemma merged_id: "clientId opts \<noteq> None \<Longrightarrow> clientId (merged o1 opts) \<noteq> None"
  by (auto simp: merged_def merge_def)

lemma merged_ok: "options_ok o1 \<Longrightarrow> options_ok opts \<Longrightarrow> options_ok (merged o1 opts)"
  by (cases "clientId opts"; cases "username opts"; cases "password opts"; cases "willMessage opts"; cases "willTopic opts")
    (simp_all add: options_ok_def merged_def text_ok_def merge_def)

lemma options_conn_args: "options_ok o1 \<Longrightarrow> clientId o1 \<noteq> None \<Longrightarrow> conn_args_ok o1"
  by (auto simp: options_ok_def conn_args_ok_def text_ok_def split: option.splits)

lemma options_size:
  assumes "options_ok o1"
  shows "length (conn_fields o1) + 10 < SIZE_MOD"
proof -
  have "length (opt_field s) < 2 ^ 28 + 2" if "text_ok s" for s
    using that by (cases s) (simp_all add: text_ok_def)
  note this [of "clientId o1"] this [of "willTopic o1"] this [of "willMessage o1"] this [of "username o1"] this [of "password o1"]
  with assms show ?thesis by (simp add: conn_fields_def options_ok_def SIZE_MOD_def)
qed

definition connecting :: "MQTT_CLIENT_OPTIONS \<Rightarrow> MQTT_CLIENT \<Rightarrow> MQTT_CLIENT" where
  "connecting opts c = c\<lparr>xioHandle := True, packetState := UNKNOWN_TYPE, cl_qosValue := willQos opts,
     cl_keepAliveInterval := keepAliveInterval opts,
     maxPingRespTime := min DEFAULT_MAX_PING_RESPONSE_TIME (keepAliveInterval opts div 2)\<rparr>"

definition asked_open :: "MQTT_CLIENT \<Rightarrow> MQTT_CLIENT" where
  "asked_open c = act Xio_open (c\<lparr>env := (env c)\<lparr>open_answers := tl (open_answers (env c))\<rparr>\<rparr>)"

lemma connecting_simps [simp]:
  "xioHandle (connecting opts c)" "codec_handle (connecting opts c) = codec_handle c" "packetTickCntr (connecting opts c) = packetTickCntr c"
  "logTrace (connecting opts c) = logTrace c" "mqttOptions (connecting opts c) = mqttOptions c" "env (connecting opts c) = env c"
  "willing (connecting opts c) = willing c" "socketConnected (connecting opts c) = socketConnected c"
  "clientConnected (connecting opts c) = clientConnected c" "fnMessageRecv (connecting opts c) = fnMessageRecv c"
  "fnOperationCallback (connecting opts c) = fnOperationCallback c" "packetState (connecting opts c) = UNKNOWN_TYPE"
  by (simp_all add: connecting_def willing_def)

lemma asked_open_steady: "steady c (asked_open c)"
  by (simp add: asked_open_def act_def steady_def fixed_def willing_def)

lemma wp_mqtt_client_connect:
  assumes "options_ok opts"
    and failed: "\<And>c' w'. steady ((connecting opts c)\<lparr>mqttOptions := mqttOptions c'\<rparr>) c' \<Longrightarrow> cleared (mqttOptions c') = mqttOptions c' \<Longrightarrow>
      willing c \<longrightarrow> \<not> plenty 5 w \<Longrightarrow> live w' = live w - opts_blocks (mqttOptions c) \<Longrightarrow> faults w' = faults w \<Longrightarrow> Q (FAILURE, Some c') w'"
    and asked: "\<And>w'. used 5 w w' \<Longrightarrow> live w' = live w + opts_blocks (merged (mqttOptions c) opts) - opts_blocks (mqttOptions c) \<Longrightarrow>
      faults w' = faults w \<Longrightarrow>
      Q (0, Some (asked_open ((connecting opts c)\<lparr>mqttOptions := merged (mqttOptions c) opts\<rparr>))) w'"
  shows "wp (mqtt_client_connect (Some c) True (Some opts)) Q w"
proof -
  have start: "c\<lparr>xioHandle := True, packetState := UNKNOWN_TYPE, cl_qosValue := willQos opts, cl_keepAliveInterval := keepAliveInterval opts,
      maxPingRespTime := (if DEFAULT_MAX_PING_RESPONSE_TIME < keepAliveInterval opts div 2 then DEFAULT_MAX_PING_RESPONSE_TIME
        else keepAliveInterval opts div 2)\<rparr> = connecting opts c"
    by (simp add: connecting_def min_def)
  show ?thesis
    unfolding mqtt_client_connect_def option.case prod.case known_conds Let_def start wp_bind
  proof (rule wp_cloneMqttOptions [OF assms(1)], goal_cases)
    case (1 r w')
    then show ?case
      using failed [of "(connecting opts c)\<lparr>mqttOptions := cleared (mqttOptions c)\<rparr>" w'] kept_steady [OF kept_refl] by (simp add: cleared_def)
  next
    case (2 w')
    let ?c = "(connecting opts c)\<lparr>mqttOptions := merged (mqttOptions c) opts\<rparr>"
    let ?d = "(asked_open ?c)\<lparr>mqttOptions := cleared (merged (mqttOptions c) opts)\<rparr>"
    have "steady ((connecting opts c)\<lparr>mqttOptions := mqttOptions ?d\<rparr>) ?d" "cleared (mqttOptions ?d) = mqttOptions ?d"
      by (simp_all add: asked_open_def act_def steady_def fixed_def willing_def cleared_def)
    moreover have "answer 0 (open_answers (env c)) \<noteq> 0 \<Longrightarrow> \<not> willing c" by (auto simp: willing_def answer_def)
    ultimately have "Q (FAILURE, Some ?d) (w'\<lparr>live := live w - opts_blocks (mqttOptions c)\<rparr>)" if "answer 0 (open_answers (env c)) \<noteq> 0"
      using failed [of ?d] 2(3) that by simp
    then show ?case using 2 asked [of w'] by (simp add: asked_open_def act_def)
  qed
qed

lemma wp_open_any:
  assumes c: "packetTickCntr c \<noteq> None" "\<not> logTrace c" and o: "options_ok (mqttOptions c)" "clientId (mqttOptions c) \<noteq> None"
    and Q: "\<And>c' w'. steady c c' \<Longrightarrow> live w' = live w \<Longrightarrow> faults w' = faults w \<Longrightarrow> Q (Some c') w'"
  shows "wp (onOpenComplete (Some c) r) Q w"
proof (cases "r = IO_OPEN_OK \<and> \<not> socketConnected c")
  case True
  let ?c = "c\<lparr>packetState := CONNECT_TYPE, socketConnected := True\<rparr>"
  have s: "steady c ?c" by (simp add: steady_def fixed_def willing_def client_types)
  have nolog: "\<not> logTrace ?c" using c by simp
  have opts: "mqttOptions ?c = mqttOptions c" by simp
  show ?thesis
    unfolding onOpenComplete_def option.case if_P [OF True] Let_def construct_trace_log_handle_def if_not_P [OF nolog] wp_bind wp_ret opts
  proof (rule wp_mqtt_codec_connect [OF options_conn_args [OF o] options_size [OF o(1)]], goal_cases)
    case (1 w')
    then show ?case using Q [OF s] by simp
  next
    case (2 w')
    show ?case
      unfolding prod.case known_conds wp_bind
    proof (rule wp_sendPacketItem_any, goal_cases)
      case (3 r' c')
      have "steady c c'" using 3(3) by (intro steady_trans [OF s] fixed_steady [OF 3(1)]) simp
      then show ?case using Q 2 by simp
    qed (use c in \<open>simp_all add: BUFFER_u_char_def mkbuf_def\<close>)
  qed
next
  case False
  have "kept c (close_connection (if \<not> socketConnected c \<and> fnOnErrorCallBack c then act (On_error MQTT_CLIENT_CONNECTION_ERROR) c else c))"
    using kept_trans [OF kept_steps(1) kept_close] by simp
  then show ?thesis
    unfolding onOpenComplete_def option.case if_not_P [OF False] wp_ret using Q kept_steady by blast
qed

section \<open>The client as a component\<close>

text \<open>The operations; a connection attempt includes the report of the transport that completes it.\<close>

datatype client_op = Connect MQTT_CLIENT_OPTIONS IO_OPEN_RESULT | Publish MQTT_MESSAGE | Subscribe u16 "SUBSCRIBE_PAYLOAD list"
  | Unsubscribe u16 "u8 list list" | Disconnect bool | Work "io_event list" | Receive "peer_packet list" "u8 list list"

text \<open>Packets of the peer arrive at a client with an operation callback, while there is memory to handle them; what a decoder does whose
  memory ran out in the middle of a packet is not covered.\<close>

definition enough :: "nat \<Rightarrow> bool cm" where
  "enough n = State (\<lambda>w. (plenty n w, w))"

lemma wp_enough [simp]: "wp (enough n) Q w = Q (plenty n w) w"
  by (simp add: enough_def wp_def)

fun client_exec :: "client_op \<Rightarrow> MQTT_CLIENT option \<Rightarrow> (int \<times> MQTT_CLIENT option) cm" where
  "client_exec (Connect opts r) h = do {
     (e, h1) \<leftarrow> mqtt_client_connect h True (Some opts);
     if e = 0 then do { h2 \<leftarrow> mqtt_client_dowork h1 [Ev_open r]; ret (0, h2) } else ret (e, h1)
   }"
| "client_exec (Publish m) h = mqtt_client_publish h (Some m)"
| "client_exec (Subscribe k l) h = mqtt_client_subscribe h k (Some l) (length l)"
| "client_exec (Unsubscribe k l) h = mqtt_client_unsubscribe h k (Some l) (length l)"
| "client_exec (Disconnect cb) h = mqtt_client_disconnect h cb"
| "client_exec (Work es) h = do { h1 \<leftarrow> mqtt_client_dowork h es; ret (0, h1) }"
| "client_exec (Receive ps cs) h = do {
     memory \<leftarrow> enough (8 * length ps);
     if memory \<and> (case h of None \<Rightarrow> False | Some c \<Rightarrow> fnOperationCallback c)
     then do { h1 \<leftarrow> mqtt_client_dowork h (map Ev_bytes cs); ret (0, h1) }
     else ret (0, h)
   }"

definition client_wf :: "MQTT_CLIENT \<Rightarrow> bool" where
  "client_wf c \<longleftrightarrow> packetTickCntr c \<noteq> None \<and> \<not> logTrace c \<and> fnMessageRecv c \<and> (xioHandle c \<longrightarrow> packetState c \<noteq> DISCONNECT_TYPE) \<and>
     (\<exists>d. codec_handle c = Some d \<and> idle d \<and> packetComplete d) \<and> options_ok (mqttOptions c)"

definition client_blocks :: "MQTT_CLIENT option \<Rightarrow> int" where
  "client_blocks h = (case h of None \<Rightarrow> 0 | Some c \<Rightarrow> 3 + opts_blocks (mqttOptions c))"

text \<open>What the owner of a client knows of it: whether it holds a transport, its copy of the options, and whether the transport is one
  that never refuses.\<close>

definition client_abs :: "MQTT_CLIENT \<Rightarrow> bool \<times> MQTT_CLIENT_OPTIONS \<times> bool" where
  "client_abs c = (xioHandle c, mqttOptions c, willing c)"

fun client_args_ok :: "client_op \<Rightarrow> bool" where
  "client_args_ok (Connect opts r) \<longleftrightarrow> options_ok opts \<and> clientId opts \<noteq> None"
| "client_args_ok (Publish m) \<longleftrightarrow> message_ok m"
| "client_args_ok (Subscribe k l) \<longleftrightarrow> subscribe_ok k l"
| "client_args_ok (Unsubscribe k l) \<longleftrightarrow> unsubscribe_ok k l"
| "client_args_ok (Disconnect cb) \<longleftrightarrow> True"
| "client_args_ok (Work es) \<longleftrightarrow> list_all other_event es"
| "client_args_ok (Receive ps cs) \<longleftrightarrow> (\<forall>p \<in> set ps. peer_ok p) \<and> [] \<notin> set cs \<and> concat cs = concat (map (\<lambda>p. packet_bytes (peer_wire p)) ps)"

fun client_spec :: "client_op \<Rightarrow> int \<Rightarrow> bool \<times> MQTT_CLIENT_OPTIONS \<times> bool \<Rightarrow> bool \<times> MQTT_CLIENT_OPTIONS \<times> bool \<Rightarrow> bool" where
  "client_spec (Connect opts _) r (x, o1, g) (x', o2, g') \<longleftrightarrow>
     x' \<and> (g \<longrightarrow> g') \<and> (if r = 0 then o2 = merged o1 opts else cleared o2 = o2)"
| "client_spec (Disconnect cb) r (x, o1, g) (x', o2, g') \<longleftrightarrow> (g \<longrightarrow> g') \<and> (x' \<longrightarrow> r \<noteq> 0 \<and> x) \<and> o2 = (if x \<and> \<not> x' then cleared o1 else o1)"
| "client_spec (Work es) r (x, o1, g) (x', o2, g') \<longleftrightarrow> r = 0 \<and> (g \<longrightarrow> g') \<and> x' = x \<and> o2 = o1"
| "client_spec (Receive ps cs) r (x, o1, g) (x', o2, g') \<longleftrightarrow> r = 0 \<and> x' = x \<and> o2 = o1"
| "client_spec _ r (x, o1, g) (x', o2, g') \<longleftrightarrow> (g \<longrightarrow> g') \<and> x' = x \<and> o2 = o1 \<and> (r = 0 \<longrightarrow> x)"

text \<open>With a transport that never refuses, what fails for lack of memory.\<close>

fun client_oom :: "client_op \<Rightarrow> int \<Rightarrow> bool \<times> MQTT_CLIENT_OPTIONS \<times> bool \<Rightarrow> bool" where
  "client_oom (Connect _ _) r (x, o1, g) \<longleftrightarrow> g \<and> r \<noteq> 0"
| "client_oom (Disconnect _) r (x, o1, g) \<longleftrightarrow> g \<and> r \<noteq> 0"
| "client_oom _ r (x, o1, g) \<longleftrightarrow> g \<and> x \<and> r \<noteq> 0"

fun client_need :: "client_op \<Rightarrow> nat" where
  "client_need (Connect _ _) = 5"
| "client_need (Publish _) = 6"
| "client_need (Subscribe _ l) = length l + 5"
| "client_need (Unsubscribe _ l) = length l + 5"
| "client_need (Disconnect _) = 2"
| "client_need (Work _) = 0"
| "client_need (Receive _ _) = 0"

definition client_step_ok :: "client_op \<Rightarrow> MQTT_CLIENT \<Rightarrow> world \<Rightarrow> int \<times> MQTT_CLIENT option \<Rightarrow> world \<Rightarrow> bool" where
  "client_step_ok op c w out w' \<longleftrightarrow> (case out of (r, h) \<Rightarrow> \<exists>c'. h = Some c' \<and> client_wf c' \<and> faults w' = faults w \<and>
     live w' - live w = client_blocks (Some c') - client_blocks (Some c) \<and> client_spec op r (client_abs c) (client_abs c') \<and>
     (client_oom op r (client_abs c) \<longrightarrow> \<not> plenty (client_need op) w))"

lemma steady_wf: "steady c c' \<Longrightarrow> client_wf c \<Longrightarrow> client_wf c'"
  using steadyD [of c c'] by (auto simp: client_wf_def)

lemma steady_blocks: "steady c c' \<Longrightarrow> client_blocks (Some c') = client_blocks (Some c)"
  using steadyD(5) [of c c'] by (simp add: client_blocks_def)

lemma send_step:
  assumes "client_wf c" "wp m (send_outcome n c w) w" "n = client_need op" "\<nexists>opts r. op = Connect opts r" "\<nexists>cb. op = Disconnect cb"
    "\<nexists>es. op = Work es" "\<nexists>ps cs. op = Receive ps cs"
  shows "wp m (client_step_ok op c w) w"
proof (rule wp_mono [OF assms(2)], goal_cases)
  case (1 out w')
  then obtain r c' where o: "out = (r, Some c')" and s: "steady c c'" and rest: "r = 0 \<longrightarrow> xioHandle c" "live w' = live w" "faults w' = faults w"
    "willing c \<and> xioHandle c \<and> r \<noteq> 0 \<longrightarrow> \<not> plenty n w" by (auto simp: send_outcome_def)
  have "client_spec op r (client_abs c) (client_abs c')"
    using steadyD [OF s] rest assms(4-7) by (cases op) (auto simp: client_abs_def)
  moreover have "client_oom op r (client_abs c) \<longrightarrow> \<not> plenty n w"
    using rest assms(4-7) by (cases op) (auto simp: client_abs_def)
  ultimately show ?case
    using assms(3) rest steady_wf [OF s assms(1)] steady_blocks [OF s] by (simp add: client_step_ok_def o)
qed

lemma cleared_ok: "opts_blocks (cleared o1) = 0" "options_ok (cleared o1)"
  by (simp_all add: cleared_def options_ok_def text_ok_def opts_blocks_def)

lemma connect_step:
  assumes c: "client_wf c" and o: "options_ok opts" "clientId opts \<noteq> None"
  shows "wp (client_exec (Connect opts r) (Some c)) (client_step_ok (Connect opts r) c w) w"
  unfolding client_exec.simps wp_bind
proof (rule wp_mqtt_client_connect [OF o(1)], goal_cases)
  case (1 c' w')
  note s = steadyD [OF 1(1)]
  have "options_ok (mqttOptions c')" "opts_blocks (mqttOptions c') = 0"
    using cleared_ok [of "mqttOptions c'"] 1(2) by simp_all
  then have "client_wf c'" "client_blocks (Some c') = 3" using c s by (auto simp: client_wf_def client_blocks_def client_types)
  then show ?case
    using 1 s by (simp add: client_step_ok_def client_abs_def client_blocks_def) (simp add: willing_def)
next
  case (2 w')
  let ?o = "merged (mqttOptions c) opts"
  let ?c = "asked_open ((connecting opts c)\<lparr>mqttOptions := ?o\<rparr>)"
  note s = steadyD [OF asked_open_steady [of "(connecting opts c)\<lparr>mqttOptions := ?o\<rparr>"]]
  have ok: "options_ok (mqttOptions ?c)" "clientId (mqttOptions ?c) \<noteq> None" "xioHandle ?c" "packetTickCntr ?c \<noteq> None" "\<not> logTrace ?c" "client_wf ?c"
    using c s merged_ok [of "mqttOptions c" opts] o merged_id [OF o(2), of "mqttOptions c"] by (auto simp: client_wf_def client_types)
  have will: "willing c \<longrightarrow> willing ?c" using s(6) by (simp add: willing_def)
  have "wp (mqtt_client_dowork (Some ?c) [Ev_open r]) (\<lambda>h. client_step_ok (Connect opts r) c w (0, h)) w'"
    unfolding mqtt_client_dowork_def option.case if_P [OF ok(3)] wp_bind xio_dowork.simps client_event.simps wp_ret
  proof (rule wp_open_any [OF ok(4,5,1,2)], goal_cases)
    case (1 c1 w1)
    note s1 = steadyD [OF 1(1)]
    show ?case
      unfolding option.sel
    proof (rule wp_ping_any, goal_cases)
      case (3 c2 w2)
      have t: "steady ?c c2" using steady_trans 1(1) 3(1) by blast
      show ?case
        using 1 3 2 steady_wf [OF t ok(6)] steadyD(1-6) [OF t] ok(3) s(5) will
        by (simp add: client_step_ok_def client_blocks_def client_abs_def)
    qed (use s1 ok in simp_all)
  qed
  then show ?case by simp
qed

lemma disconnect_step:
  assumes "client_wf c"
  shows "wp (mqtt_client_disconnect (Some c) cb) (client_step_ok (Disconnect cb) c w) w"
proof (cases "xioHandle c")
  case True
  show ?thesis
  proof (rule wp_disconnect_any [OF _ _ True], goal_cases)
    case (3 w')
    then show ?case
      using assms True by (simp add: client_step_ok_def client_wf_def client_blocks_def client_abs_def willing_def client_types)
  next
    case (4 r c' w')
    have o: "mqttOptions c' = cleared (mqttOptions c)" "\<not> xioHandle c'" "packetTickCntr c' = packetTickCntr c" "logTrace c' = logTrace c"
      "codec_handle c' = codec_handle c" "fnMessageRecv c' = fnMessageRecv c" using 4(1) by (simp_all add: fixed_def)
    show ?case
      using 4(2-4) assms o True cleared_ok [of "mqttOptions c"] by (auto simp: client_step_ok_def client_wf_def client_blocks_def client_abs_def)
  qed (use assms in \<open>simp_all add: client_wf_def\<close>)
next
  case False
  then show ?thesis using assms by (simp add: mqtt_client_disconnect_def client_step_ok_def client_abs_def)
qed

lemma receive_step:
  assumes c: "client_wf c" and op: "client_args_ok (Receive ps cs)"
  shows "wp (client_exec (Receive ps cs) (Some c)) (client_step_ok (Receive ps cs) c w) w"
proof (cases "plenty (8 * length ps) w \<and> fnOperationCallback c \<and> xioHandle c")
  case True
  have l: "listening c" using c True by (auto simp: client_wf_def listening_def ready_def)
  have "wp (xio_dowork (map Ev_bytes cs) c) (\<lambda>c1 w1. same_session c c1 \<and> listening c1 \<and> live w1 = live w \<and> faults w1 = faults w) w"
    by (rule feeds_chunks) (use op True in \<open>auto intro!: feeds_stream [OF l]\<close>)
  then have "wp (xio_dowork (map Ev_bytes cs) c) (\<lambda>c1. wp (ping_work c1) (\<lambda>c2. client_step_ok (Receive ps cs) c w (0, Some c2))) w"
  proof (rule wp_mono, goal_cases)
    case (1 c1 w1)
    have f: "xioHandle c1 = xioHandle c" "mqttOptions c1 = mqttOptions c" "packetTickCntr c1 = packetTickCntr c" "logTrace c1 = logTrace c"
      "fnMessageRecv c1 = fnMessageRecv c" "packetState c1 = packetState c"
      using 1 by (simp_all add: same_session_def fixed_def)
    have wf: "client_wf c1" using c f 1 by (auto simp: client_wf_def listening_def)
    show ?case
    proof (rule wp_ping_any, goal_cases)
      case (3 c2 w2)
      then show ?case
        using 1 f wf steady_wf [OF 3(1)] steadyD(1,5) [OF 3(1)] by (simp add: client_step_ok_def client_blocks_def client_abs_def)
    qed (use c f in \<open>simp_all add: client_wf_def\<close>)
  qed
  then show ?thesis using True by (simp add: mqtt_client_dowork_def wp_bind_eta)
next
  case False
  then show ?thesis using c by (auto simp: mqtt_client_dowork_def client_step_ok_def client_abs_def)
qed

lemma client_exec_ok:
  assumes c: "client_wf c" and op: "client_args_ok op"
  shows "wp (client_exec op (Some c)) (client_step_ok op c w) w"
proof (cases op)
  case (Work es)
  have "wp (mqtt_client_dowork (Some c) es) (\<lambda>h. client_step_ok op c w (0, h)) w"
  proof (rule wp_dowork_any, goal_cases)
    case (4 c' w')
    then show ?case
      using c steady_wf [OF 4(1) c] steady_blocks [OF 4(1)] steadyD [OF 4(1)] by (auto simp: client_step_ok_def client_abs_def Work)
  qed (use c op Work in \<open>simp_all add: client_wf_def\<close>)
  then show ?thesis by (simp add: Work)
next
  case (Receive ps cs)
  then show ?thesis using receive_step [OF c] op by blast
next
  case (Connect opts r)
  then show ?thesis using connect_step [OF c] op by simp
next
  case (Disconnect cb)
  then show ?thesis using disconnect_step [OF c] by simp
qed (use c op wp_publish_any [of c] wp_subscribe_any [of c] wp_unsubscribe_any [of c] in \<open>auto intro!: send_step [OF c] simp: client_wf_def\<close>)

lemma wp_tickcounter_destroy [simp]: "wp (tickcounter_destroy (Some t)) Q w = Q () (w\<lparr>live := live w - 1\<rparr>)"
  by (simp add: tickcounter_destroy_def)

lemma wp_tickcounter_create:
  assumes "\<And>w'. next_alloc w = None \<Longrightarrow> avail w' = tl (avail w) \<Longrightarrow> live w' = live w \<Longrightarrow> faults w' = faults w \<Longrightarrow> Q (None, io) w'"
    and "\<And>w'. next_alloc w \<noteq> None \<Longrightarrow> avail w' = tl (avail w) \<Longrightarrow> live w' = live w + 1 \<Longrightarrow> faults w' = faults w \<Longrightarrow>
      Q (Some \<lparr>original_tick_count = answer 0 (ticks io)\<rparr>, io\<lparr>ticks := tl (ticks io)\<rparr>) w'"
  shows "wp (tickcounter_create io) Q w"
  unfolding tickcounter_create_def xTaskGetTickCount_def wp_bind
  by (rule wp_new) (use assms in simp_all)

lemma wp_mqtt_client_init:
  "wp (mqtt_client_init True opcb errcb io) (\<lambda>h w'. faults w' = faults w \<and>
     (case h of None \<Rightarrow> live w' = live w \<and> \<not> plenty 3 w
      | Some c \<Rightarrow> live w' = live w + client_blocks h \<and> client_wf c \<and>
          client_abs c = (False, no_options, open_answers io = [] \<and> send_answers io = []))) w"
  unfolding mqtt_client_init_def simp_thms if_False wp_bind
proof (rule wp_new, goal_cases)
  case (1 w1)
  then show ?case using not_plenty_next [of w 3] by simp
next
  case (2 w1)
  note w1 = this
  show ?case
    unfolding known_conds simp_thms wp_bind
  proof (rule wp_tickcounter_create, goal_cases)
    case (1 w2)
    then show ?case using w1 not_plenty_next [of w1 2] not_plenty_tl [OF w1(2), of 3] by simp
  next
    case (2 w2)
    note w2 = this
    show ?case
      unfolding Let_def mqtt_codec_create_def prod.case known_conds simp_thms wp_bind wp_ret
    proof (rule wp_new, goal_cases)
      case (1 w3)
      then show ?case
        using w1 w2 not_plenty_next [of w2 1] not_plenty_tl [OF w2(2), of 2] not_plenty_tl [OF w1(2), of 3] by simp
    next
      case (2 w3)
      then show ?case
        using w1 w2 by (simp add: client_blocks_def client_wf_def client_abs_def no_options_def opts_blocks_def options_ok_def text_ok_def willing_def idle_def)
    qed
  qed
qed

interpretation mqc: c_owned client_exec client_wf client_abs "\<lambda>_. 0" client_blocks client_args_ok "\<lambda>_. 0" client_need client_spec client_oom
  "mqtt_client_init True opcb errcb io" 3 mqtt_client_deinit "(False, no_options, open_answers io = [] \<and> send_answers io = [])" for opcb errcb io
proof (unfold_locales, goal_cases)
  case (1 c op w)
  show ?case by (rule wp_mono [OF client_exec_ok [OF 1(1,2)]]) (auto simp: client_step_ok_def)
next
  case (2 w)
  then show ?case
    by (rule wp_mono [OF wp_mqtt_client_init]) (auto split: option.splits)
next
  case (3 h w)
  then show ?case
    by (cases h) (auto simp: mqtt_client_deinit_def client_wf_def client_blocks_def mqtt_codec_destroy_def idle_def algebra_simps)
qed

section \<open>Properties\<close>

text \<open>C4. The life of a client: created, used by any sequence of connecting, publishing, subscribing, unsubscribing, disconnecting,
  working on the transport's reports of errors, sent packets and closed connections, and receiving packets of the peer, and destroyed,
  it gives back every block and reads or writes nothing outside a block, whatever fails in between - requests for memory, the
  transport, or both. The results reported are those of some run of the specification: a connection attempt that succeeds holds the
  caller's options, one that fails holds none, and nothing is sent without a transport. The client is refused only for lack of
  memory. The received packets are those of C1, in any pieces, a CONNACK among them, so that the runs include connected clients and their
  keep-alive; they arrive while there is memory for eight requests a packet (\<open>Receive\<close>), while all other operations meet any failures of memory.
  A connection attempt has a client identifier, and its other strings are not empty; the trace log is off.\<close>

theorem client_lifecycle:
  assumes "\<forall>op \<in> set ops. client_args_ok op"
  shows "wp (do { h \<leftarrow> mqtt_client_init True opcb errcb io; if h = None then ret None
                  else do { (rs, h') \<leftarrow> run_ops client_exec ops h; mqtt_client_deinit h'; ret (Some rs) } })
     (\<lambda>out w'. live w' = live w \<and> faults w' = faults w \<and>
        (case out of None \<Rightarrow> \<not> plenty 3 w
         | Some rs \<Rightarrow> \<exists>a. spec_run client_spec ops rs (False, no_options, open_answers io = [] \<and> send_answers io = []) a)) w"
  by (rule mqc.lifecycle) (use assms in \<open>simp_all add: SIZE_MOD_def\<close>)

theorem client_lifecycle_witness:
  "wp (do { h \<leftarrow> mqtt_client_init True True True sample_io; if h = None then ret None
            else do {
              (rs, h') \<leftarrow> run_ops client_exec [Connect (no_options\<lparr>clientId := Some [100, 0], keepAliveInterval := 30\<rparr>) IO_OPEN_OK,
                Receive [P_connack False 0] [[0x20, 2], [0, 0]],
                Subscribe 1 [\<lparr>subscribeTopic = [97, 0], qosReturn = DELIVER_AT_LEAST_ONCE\<rparr>], Work [Ev_error, Ev_sent IO_SEND_ERROR], Disconnect False] h;
              mqtt_client_deinit h'; ret (Some rs) } })
     (\<lambda>out w'. live w' = 0 \<and> faults w' = 0) \<lparr>avail = replicate 27 (Some (\<lambda>_. 7)) @ None # replicate 9 (Some (\<lambda>_. 3)), live = 0, faults = 0\<rparr>"
proof -
  have z: "is_cstr [100, 0]" "c_str [100, 0] = [100]" "is_cstr [97, 0]" "c_str [97, 0] = [97]" by code_simp+
  have item: "length (sub_item \<lparr>subscribeTopic = [97, 0], qosReturn = DELIVER_AT_LEAST_ONCE\<rparr>) = 4" by code_simp
  show ?thesis
    by (rule wp_mono [OF client_lifecycle])
      (simp_all add: z item options_ok_def text_ok_def no_options_def subscribe_ok_def USHRT_MAX_def wire_ok_def decodable_def rem_len_small
        packet_bytes_def mqtt_packet_def client_types)
qed






end
