(* ===== verification/Sha.thy ===== *)
theory Sha
  imports Prelude
begin

text \<open>
  The secure hashes (\<open>c-utility/src/sha1.c\<close>, \<open>sha224.c\<close>, \<open>sha384-512.c\<close>, \<open>usha.c\<close>), as built without \<open>USE_32BIT_ONLY\<close> and
  \<open>USE_MODIFIED_MACROS\<close>. The three contexts have the same fields over words of 32 or 64 bits. The functions that take in bytes, pad and
  finish are the same text in the three files up to names, the size of a block and of its length field, and the function that
  processes a block; that text is here once, with those as arguments, and the functions of the files are its instances.
\<close>

unbundle bit_operations_syntax

section \<open>Contexts and sizes\<close>

type_synonym u64 = "64 word"

record 'w sha_context =
  Intermediate_Hash :: "'w list"
  Length_Low :: 'w
  Length_High :: 'w
  Message_Block_Index :: nat
  Message_Block :: "u8 list"
  Computed :: bool
  Corrupted :: int

type_synonym SHA1Context = "u32 sha_context"
type_synonym SHA256Context = "u32 sha_context"
type_synonym SHA512Context = "u64 sha_context"

definition shaSuccess :: int where "shaSuccess = 0"
definition shaNull :: int where "shaNull = 1"
definition shaStateError :: int where "shaStateError = 3"

definition SHA1_Message_Block_Size :: nat where "SHA1_Message_Block_Size = 64"
definition SHA256_Message_Block_Size :: nat where "SHA256_Message_Block_Size = 64"
definition SHA512_Message_Block_Size :: nat where "SHA512_Message_Block_Size = 128"
definition SHA1HashSize :: nat where "SHA1HashSize = 20"
definition SHA224HashSize :: nat where "SHA224HashSize = 28"
definition SHA256HashSize :: nat where "SHA256HashSize = 32"
definition SHA384HashSize :: nat where "SHA384HashSize = 48"
definition SHA512HashSize :: nat where "SHA512HashSize = 64"

lemmas sha_sizes = SHA1_Message_Block_Size_def SHA256_Message_Block_Size_def SHA512_Message_Block_Size_def SHA1HashSize_def
  SHA224HashSize_def SHA256HashSize_def SHA384HashSize_def SHA512HashSize_def

lemmas sha_codes = shaSuccess_def shaNull_def shaStateError_def

section \<open>The common text of the three files\<close>

text \<open>\<open>SHA1AddLength\<close> and its like: the length is a number of two words; a carry out of both marks the context.\<close>

definition AddLength :: "('l::len) word sha_context \<Rightarrow> 'l word \<Rightarrow> 'l word sha_context" where
  "AddLength context len =
     (let low = Length_Low context + len;
          carry = (low < Length_Low context);
          high = (if carry then Length_High context + 1 else Length_High context)
      in context\<lparr>Length_Low := low, Length_High := high, Corrupted := (if carry \<and> high = 0 then 1 else 0)\<rparr>)"

text \<open>\<open>context->Message_Block[context->Message_Block_Index++] = v\<close>.\<close>

definition put_byte :: "'w sha_context \<Rightarrow> u8 \<Rightarrow> 'w sha_context cm" where
  "put_byte context v = do {
     b \<leftarrow> c_store (Message_Block context) (Message_Block_Index context) v;
     ret (context\<lparr>Message_Block := b, Message_Block_Index := Message_Block_Index context + 1\<rparr>)
   }"

fun Input_loop ::
  "(('l::len) word sha_context \<Rightarrow> 'l word sha_context cm) \<Rightarrow> nat \<Rightarrow> 'l word sha_context \<Rightarrow> u8 list \<Rightarrow> nat \<Rightarrow> nat \<Rightarrow> 'l word sha_context cm" where
  "Input_loop process bsize context message_array i 0 = ret context"
| "Input_loop process bsize context message_array i (Suc n) =
     (if Corrupted context \<noteq> 0 then ret context
      else do {
        v \<leftarrow> c_load message_array i;
        c1 \<leftarrow> put_byte context (v AND 0xFF);
        let c2 = AddLength c1 8;
        c3 \<leftarrow> (if Corrupted c2 = 0 \<and> Message_Block_Index c2 = bsize then process c2 else ret c2);
        Input_loop process bsize c3 message_array (Suc i) n
      })"

definition Input ::
  "(('l::len) word sha_context \<Rightarrow> 'l word sha_context cm) \<Rightarrow> nat \<Rightarrow> 'l word sha_context option \<Rightarrow> u8 list option \<Rightarrow> nat
    \<Rightarrow> (int \<times> 'l word sha_context option) cm" where
  "Input process bsize context message_array len =
     (if len = 0 then ret (shaSuccess, context)
      else (case (context, message_array) of
        (Some c, Some m) \<Rightarrow>
          if Computed c then ret (shaStateError, Some (c\<lparr>Corrupted := shaStateError\<rparr>))
          else if Corrupted c \<noteq> 0 then ret (Corrupted c, context)
          else do { c1 \<leftarrow> Input_loop process bsize c m 0 len; ret (shaSuccess, Some c1) }
      | _ \<Rightarrow> ret (shaNull, context)))"

text \<open>\<open>while (Message_Block_Index < limit) put 0\<close>: \<open>n\<close> is what is left to the limit.\<close>

fun zero_fill :: "nat \<Rightarrow> 'w sha_context \<Rightarrow> 'w sha_context cm" where
  "zero_fill 0 context = ret context"
| "zero_fill (Suc n) context = do { c1 \<leftarrow> put_byte context 0; zero_fill n c1 }"

text \<open>The bytes of a word, the most significant first.\<close>

definition word_bytes :: "('l::len) word \<Rightarrow> u8 list" where
  "word_bytes w = map (\<lambda>i. ucast (drop_bit (8 * (LENGTH('l) div 8 - 1 - i)) w)) [0..<LENGTH('l) div 8]"

definition PadMessage ::
  "(('l::len) word sha_context \<Rightarrow> 'l word sha_context cm) \<Rightarrow> nat \<Rightarrow> nat \<Rightarrow> 'l word sha_context \<Rightarrow> u8 \<Rightarrow> 'l word sha_context cm" where
  "PadMessage process bsize lsize context Pad_Byte = do {
     c1 \<leftarrow> put_byte context Pad_Byte;
     c2 \<leftarrow> (if Message_Block_Index context \<ge> bsize - lsize then do { c \<leftarrow> zero_fill (bsize - Message_Block_Index c1) c1; process c }
       else ret c1);
     c3 \<leftarrow> zero_fill (bsize - lsize - Message_Block_Index c2) c2;
     b \<leftarrow> c_stores (Message_Block c3) (bsize - lsize) (word_bytes (Length_High c3) @ word_bytes (Length_Low c3));
     process (c3\<lparr>Message_Block := b\<rparr>)
   }"

definition Finalize ::
  "(('l::len) word sha_context \<Rightarrow> 'l word sha_context cm) \<Rightarrow> nat \<Rightarrow> nat \<Rightarrow> 'l word sha_context \<Rightarrow> u8 \<Rightarrow> 'l word sha_context cm" where
  "Finalize process bsize lsize context Pad_Byte = do {
     c1 \<leftarrow> PadMessage process bsize lsize context Pad_Byte;
     b \<leftarrow> c_stores (Message_Block c1) 0 (replicate bsize 0);
     ret (c1\<lparr>Message_Block := b, Length_Low := 0, Length_High := 0, Computed := True\<rparr>)
   }"

definition masks :: "u8 list" where "masks = [0x00, 0x80, 0xC0, 0xE0, 0xF0, 0xF8, 0xFC, 0xFE]"
definition markbit :: "u8 list" where "markbit = [0x80, 0x40, 0x20, 0x10, 0x08, 0x04, 0x02, 0x01]"

definition FinalBits ::
  "(('l::len) word sha_context \<Rightarrow> 'l word sha_context cm) \<Rightarrow> nat \<Rightarrow> nat \<Rightarrow> 'l word sha_context option \<Rightarrow> u8 \<Rightarrow> nat
    \<Rightarrow> (int \<times> 'l word sha_context option) cm" where
  "FinalBits process bsize lsize context message_bits len =
     (if len = 0 then ret (shaSuccess, context)
      else (case context of
        None \<Rightarrow> ret (shaNull, context)
      | Some c \<Rightarrow>
          if Computed c \<or> len \<ge> 8 \<or> len = 0 then ret (shaStateError, Some (c\<lparr>Corrupted := shaStateError\<rparr>))
          else if Corrupted c \<noteq> 0 then ret (Corrupted c, context)
          else do {
            c1 \<leftarrow> Finalize process bsize lsize (AddLength c (of_nat len)) (message_bits AND masks ! len OR markbit ! len);
            ret (shaSuccess, Some c1)
          }))"

text \<open>\<open>Message_Digest[i] = (uint8_t)(Intermediate_Hash[i / n] >> 8 * (n - 1 - i % n))\<close> with \<open>n\<close> bytes to a word.\<close>

fun digest_loop :: "('l::len) word list \<Rightarrow> u8 list \<Rightarrow> nat \<Rightarrow> nat \<Rightarrow> u8 list cm" where
  "digest_loop h Message_Digest i 0 = ret Message_Digest"
| "digest_loop h Message_Digest i (Suc n) = do {
     c_assert (i div (LENGTH('l) div 8) < length h);
     d \<leftarrow> c_store Message_Digest i
       (ucast (drop_bit (8 * (LENGTH('l) div 8 - 1 - i mod (LENGTH('l) div 8))) (h ! (i div (LENGTH('l) div 8)))));
     digest_loop h d (Suc i) n
   }"

definition ResultN ::
  "(('l::len) word sha_context \<Rightarrow> 'l word sha_context cm) \<Rightarrow> nat \<Rightarrow> nat \<Rightarrow> 'l word sha_context option \<Rightarrow> u8 list option \<Rightarrow> nat
    \<Rightarrow> (int \<times> 'l word sha_context option \<times> u8 list option) cm" where
  "ResultN process bsize lsize context Message_Digest HashSize =
     (case (context, Message_Digest) of
        (Some c, Some d) \<Rightarrow>
          if Corrupted c \<noteq> 0 then ret (Corrupted c, context, Message_Digest)
          else do {
            c1 \<leftarrow> (if \<not> Computed c then Finalize process bsize lsize c 0x80 else ret c);
            d1 \<leftarrow> digest_loop (Intermediate_Hash c1) d 0 HashSize;
            ret (shaSuccess, Some c1, Some d1)
          }
      | _ \<Rightarrow> ret (shaNull, context, Message_Digest))"

definition Reset :: "('l::len) word sha_context option \<Rightarrow> 'l word list \<Rightarrow> int \<times> 'l word sha_context option" where
  "Reset context H0 =
     (case context of
        None \<Rightarrow> (shaNull, context)
      | Some c \<Rightarrow> (shaSuccess, Some (c\<lparr>Length_Low := 0, Length_High := 0, Message_Block_Index := 0, Intermediate_Hash := H0,
          Computed := False, Corrupted := 0\<rparr>)))"

section \<open>SHA-1\<close>

definition SHA_Ch :: "('l::len) word \<Rightarrow> 'l word \<Rightarrow> 'l word \<Rightarrow> 'l word" where
  "SHA_Ch x y z = (x AND y) XOR (NOT x AND z)"

definition SHA_Maj :: "('l::len) word \<Rightarrow> 'l word \<Rightarrow> 'l word \<Rightarrow> 'l word" where
  "SHA_Maj x y z = (x AND y) XOR (x AND z) XOR (y AND z)"

definition SHA_Parity :: "('l::len) word \<Rightarrow> 'l word \<Rightarrow> 'l word \<Rightarrow> 'l word" where
  "SHA_Parity x y z = x XOR y XOR z"

definition SHA1_ROTL :: "nat \<Rightarrow> u32 \<Rightarrow> u32" where
  "SHA1_ROTL bits w = push_bit bits w OR drop_bit (32 - bits) w"

definition SHA1_H0 :: "u32 list" where
  "SHA1_H0 = [0x67452301, 0xEFCDAB89, 0x98BADCFE, 0x10325476, 0xC3D2E1F0]"

definition SHA1_K :: "u32 list" where
  "SHA1_K = [0x5A827999, 0x6ED9EBA1, 0x8F1BBCDC, 0xCA62C1D6]"

text \<open>The first sixteen words of the schedule.\<close>

definition block_words32 :: "u8 list \<Rightarrow> u32 list" where
  "block_words32 b = map (\<lambda>t. push_bit 24 (ucast (b ! (t * 4))) OR push_bit 16 (ucast (b ! (t * 4 + 1))) OR
     push_bit 8 (ucast (b ! (t * 4 + 2))) OR ucast (b ! (t * 4 + 3))) [0..<16]"

definition SHA1_W :: "u8 list \<Rightarrow> u32 list" where
  "SHA1_W b = fold (\<lambda>t W. W @ [SHA1_ROTL 1 (W ! (t - 3) XOR W ! (t - 8) XOR W ! (t - 14) XOR W ! (t - 16))]) [16..<80] (block_words32 b)"

text \<open>The body of the four loops, which differ in the function and the constant.\<close>

definition SHA1_round :: "(u32 \<Rightarrow> u32 \<Rightarrow> u32 \<Rightarrow> u32) \<Rightarrow> u32 \<Rightarrow> u32 list \<Rightarrow> nat \<Rightarrow> u32 \<times> u32 \<times> u32 \<times> u32 \<times> u32
    \<Rightarrow> u32 \<times> u32 \<times> u32 \<times> u32 \<times> u32" where
  "SHA1_round f k W t s = (case s of (A, B, C, D, E) \<Rightarrow>
     let temp = SHA1_ROTL 5 A + f B C D + E + W ! t + k in (temp, A, SHA1_ROTL 30 B, C, D))"

definition SHA1_rounds :: "u32 list \<Rightarrow> u32 \<times> u32 \<times> u32 \<times> u32 \<times> u32 \<Rightarrow> u32 \<times> u32 \<times> u32 \<times> u32 \<times> u32" where
  "SHA1_rounds W s =
     fold (SHA1_round SHA_Parity (SHA1_K ! 3) W) [60..<80]
       (fold (SHA1_round SHA_Maj (SHA1_K ! 2) W) [40..<60]
         (fold (SHA1_round SHA_Parity (SHA1_K ! 1) W) [20..<40]
           (fold (SHA1_round SHA_Ch (SHA1_K ! 0) W) [0..<20] s)))"

definition SHA1ProcessMessageBlock :: "SHA1Context \<Rightarrow> SHA1Context cm" where
  "SHA1ProcessMessageBlock context = do {
     c_assert (length (Message_Block context) = 64 \<and> length (Intermediate_Hash context) = 5);
     let h = Intermediate_Hash context;
     let (A, B, C, D, E) = SHA1_rounds (SHA1_W (Message_Block context)) (h ! 0, h ! 1, h ! 2, h ! 3, h ! 4);
     ret (context\<lparr>Intermediate_Hash := [h ! 0 + A, h ! 1 + B, h ! 2 + C, h ! 3 + D, h ! 4 + E], Message_Block_Index := 0\<rparr>)
   }"

definition SHA1Reset :: "SHA1Context option \<Rightarrow> int \<times> SHA1Context option" where
  "SHA1Reset context = Reset context SHA1_H0"

definition SHA1Input :: "SHA1Context option \<Rightarrow> u8 list option \<Rightarrow> nat \<Rightarrow> (int \<times> SHA1Context option) cm" where
  "SHA1Input = Input SHA1ProcessMessageBlock SHA1_Message_Block_Size"

definition SHA1FinalBits :: "SHA1Context option \<Rightarrow> u8 \<Rightarrow> nat \<Rightarrow> (int \<times> SHA1Context option) cm" where
  "SHA1FinalBits = FinalBits SHA1ProcessMessageBlock SHA1_Message_Block_Size 8"

definition SHA1Result :: "SHA1Context option \<Rightarrow> u8 list option \<Rightarrow> (int \<times> SHA1Context option \<times> u8 list option) cm" where
  "SHA1Result context Message_Digest = ResultN SHA1ProcessMessageBlock SHA1_Message_Block_Size 8 context Message_Digest SHA1HashSize"

section \<open>SHA-224 and SHA-256\<close>

definition SHA256_ROTR :: "nat \<Rightarrow> u32 \<Rightarrow> u32" where
  "SHA256_ROTR bits w = drop_bit bits w OR push_bit (32 - bits) w"

definition SHA256_SIGMA0 :: "u32 \<Rightarrow> u32" where
  "SHA256_SIGMA0 w = SHA256_ROTR 2 w XOR SHA256_ROTR 13 w XOR SHA256_ROTR 22 w"

definition SHA256_SIGMA1 :: "u32 \<Rightarrow> u32" where
  "SHA256_SIGMA1 w = SHA256_ROTR 6 w XOR SHA256_ROTR 11 w XOR SHA256_ROTR 25 w"

definition SHA256_sigma0 :: "u32 \<Rightarrow> u32" where
  "SHA256_sigma0 w = SHA256_ROTR 7 w XOR SHA256_ROTR 18 w XOR drop_bit 3 w"

definition SHA256_sigma1 :: "u32 \<Rightarrow> u32" where
  "SHA256_sigma1 w = SHA256_ROTR 17 w XOR SHA256_ROTR 19 w XOR drop_bit 10 w"

definition SHA224_H0 :: "u32 list" where
  "SHA224_H0 = [0xC1059ED8, 0x367CD507, 0x3070DD17, 0xF70E5939, 0xFFC00B31, 0x68581511, 0x64F98FA7, 0xBEFA4FA4]"

definition SHA256_H0 :: "u32 list" where
  "SHA256_H0 = [0x6A09E667, 0xBB67AE85, 0x3C6EF372, 0xA54FF53A, 0x510E527F, 0x9B05688C, 0x1F83D9AB, 0x5BE0CD19]"

text \<open>The table \<open>K\<close>, by rows.\<close>

definition K256_0 :: "u32 list" where
  "K256_0 = [0x428a2f98, 0x71374491, 0xb5c0fbcf, 0xe9b5dba5, 0x3956c25b, 0x59f111f1, 0x923f82a4, 0xab1c5ed5]"

definition K256_1 :: "u32 list" where
  "K256_1 = [0xd807aa98, 0x12835b01, 0x243185be, 0x550c7dc3, 0x72be5d74, 0x80deb1fe, 0x9bdc06a7, 0xc19bf174]"

definition K256_2 :: "u32 list" where
  "K256_2 = [0xe49b69c1, 0xefbe4786, 0x0fc19dc6, 0x240ca1cc, 0x2de92c6f, 0x4a7484aa, 0x5cb0a9dc, 0x76f988da]"

definition K256_3 :: "u32 list" where
  "K256_3 = [0x983e5152, 0xa831c66d, 0xb00327c8, 0xbf597fc7, 0xc6e00bf3, 0xd5a79147, 0x06ca6351, 0x14292967]"

definition K256_4 :: "u32 list" where
  "K256_4 = [0x27b70a85, 0x2e1b2138, 0x4d2c6dfc, 0x53380d13, 0x650a7354, 0x766a0abb, 0x81c2c92e, 0x92722c85]"

definition K256_5 :: "u32 list" where
  "K256_5 = [0xa2bfe8a1, 0xa81a664b, 0xc24b8b70, 0xc76c51a3, 0xd192e819, 0xd6990624, 0xf40e3585, 0x106aa070]"

definition K256_6 :: "u32 list" where
  "K256_6 = [0x19a4c116, 0x1e376c08, 0x2748774c, 0x34b0bcb5, 0x391c0cb3, 0x4ed8aa4a, 0x5b9cca4f, 0x682e6ff3]"

definition K256_7 :: "u32 list" where
  "K256_7 = [0x748f82ee, 0x78a5636f, 0x84c87814, 0x8cc70208, 0x90befffa, 0xa4506ceb, 0xbef9a3f7, 0xc67178f2]"

definition K256 :: "u32 list" where
  "K256 = K256_0 @ K256_1 @ K256_2 @ K256_3 @ K256_4 @ K256_5 @ K256_6 @ K256_7"

lemmas K256_rows = K256_0_def K256_1_def K256_2_def K256_3_def K256_4_def K256_5_def K256_6_def K256_7_def

definition SHA256_W :: "u8 list \<Rightarrow> u32 list" where
  "SHA256_W b = fold (\<lambda>t W. W @ [SHA256_sigma1 (W ! (t - 2)) + W ! (t - 7) + SHA256_sigma0 (W ! (t - 15)) + W ! (t - 16)])
     [16..<64] (block_words32 b)"

type_synonym 'w octet = "'w \<times> 'w \<times> 'w \<times> 'w \<times> 'w \<times> 'w \<times> 'w \<times> 'w"

definition SHA256_round :: "u32 list \<Rightarrow> nat \<Rightarrow> u32 octet \<Rightarrow> u32 octet" where
  "SHA256_round W t s = (case s of (A, B, C, D, E, F, G, H) \<Rightarrow>
     let temp1 = H + SHA256_SIGMA1 E + SHA_Ch E F G + K256 ! t + W ! t;
         temp2 = SHA256_SIGMA0 A + SHA_Maj A B C
     in (temp1 + temp2, A, B, C, D + temp1, E, F, G))"

definition SHA224_256ProcessMessageBlock :: "SHA256Context \<Rightarrow> SHA256Context cm" where
  "SHA224_256ProcessMessageBlock context = do {
     c_assert (length (Message_Block context) = 64 \<and> length (Intermediate_Hash context) = 8);
     let h = Intermediate_Hash context;
     let (A, B, C, D, E, F, G, H) = fold (SHA256_round (SHA256_W (Message_Block context))) [0..<64]
       (h ! 0, h ! 1, h ! 2, h ! 3, h ! 4, h ! 5, h ! 6, h ! 7);
     ret (context\<lparr>Intermediate_Hash := [h ! 0 + A, h ! 1 + B, h ! 2 + C, h ! 3 + D, h ! 4 + E, h ! 5 + F, h ! 6 + G, h ! 7 + H],
       Message_Block_Index := 0\<rparr>)
   }"

definition SHA224Reset :: "SHA256Context option \<Rightarrow> int \<times> SHA256Context option" where
  "SHA224Reset context = Reset context SHA224_H0"

definition SHA256Reset :: "SHA256Context option \<Rightarrow> int \<times> SHA256Context option" where
  "SHA256Reset context = Reset context SHA256_H0"

definition SHA256Input :: "SHA256Context option \<Rightarrow> u8 list option \<Rightarrow> nat \<Rightarrow> (int \<times> SHA256Context option) cm" where
  "SHA256Input = Input SHA224_256ProcessMessageBlock SHA256_Message_Block_Size"

definition SHA224Input :: "SHA256Context option \<Rightarrow> u8 list option \<Rightarrow> nat \<Rightarrow> (int \<times> SHA256Context option) cm" where
  "SHA224Input context message_array len = SHA256Input context message_array len"

definition SHA256FinalBits :: "SHA256Context option \<Rightarrow> u8 \<Rightarrow> nat \<Rightarrow> (int \<times> SHA256Context option) cm" where
  "SHA256FinalBits = FinalBits SHA224_256ProcessMessageBlock SHA256_Message_Block_Size 8"

definition SHA224FinalBits :: "SHA256Context option \<Rightarrow> u8 \<Rightarrow> nat \<Rightarrow> (int \<times> SHA256Context option) cm" where
  "SHA224FinalBits context message_bits len = SHA256FinalBits context message_bits len"

definition SHA224Result :: "SHA256Context option \<Rightarrow> u8 list option \<Rightarrow> (int \<times> SHA256Context option \<times> u8 list option) cm" where
  "SHA224Result context Message_Digest =
     ResultN SHA224_256ProcessMessageBlock SHA256_Message_Block_Size 8 context Message_Digest SHA224HashSize"

definition SHA256Result :: "SHA256Context option \<Rightarrow> u8 list option \<Rightarrow> (int \<times> SHA256Context option \<times> u8 list option) cm" where
  "SHA256Result context Message_Digest =
     ResultN SHA224_256ProcessMessageBlock SHA256_Message_Block_Size 8 context Message_Digest SHA256HashSize"

section \<open>SHA-384 and SHA-512\<close>

definition SHA512_ROTR :: "nat \<Rightarrow> u64 \<Rightarrow> u64" where
  "SHA512_ROTR bits w = drop_bit bits w OR push_bit (64 - bits) w"

definition SHA512_SIGMA0 :: "u64 \<Rightarrow> u64" where
  "SHA512_SIGMA0 w = SHA512_ROTR 28 w XOR SHA512_ROTR 34 w XOR SHA512_ROTR 39 w"

definition SHA512_SIGMA1 :: "u64 \<Rightarrow> u64" where
  "SHA512_SIGMA1 w = SHA512_ROTR 14 w XOR SHA512_ROTR 18 w XOR SHA512_ROTR 41 w"

definition SHA512_sigma0 :: "u64 \<Rightarrow> u64" where
  "SHA512_sigma0 w = SHA512_ROTR 1 w XOR SHA512_ROTR 8 w XOR drop_bit 7 w"

definition SHA512_sigma1 :: "u64 \<Rightarrow> u64" where
  "SHA512_sigma1 w = SHA512_ROTR 19 w XOR SHA512_ROTR 61 w XOR drop_bit 6 w"

definition SHA384_H0 :: "u64 list" where
  "SHA384_H0 = [0xCBBB9D5DC1059ED8, 0x629A292A367CD507, 0x9159015A3070DD17, 0x152FECD8F70E5939, 0x67332667FFC00B31, 0x8EB44A8768581511,
     0xDB0C2E0D64F98FA7, 0x47B5481DBEFA4FA4]"

definition SHA512_H0 :: "u64 list" where
  "SHA512_H0 = [0x6A09E667F3BCC908, 0xBB67AE8584CAA73B, 0x3C6EF372FE94F82B, 0xA54FF53A5F1D36F1, 0x510E527FADE682D1, 0x9B05688C2B3E6C1F,
     0x1F83D9ABFB41BD6B, 0x5BE0CD19137E2179]"

text \<open>The table \<open>K\<close>, by rows.\<close>

definition K512_0 :: "u64 list" where
  "K512_0 = [0x428A2F98D728AE22, 0x7137449123EF65CD, 0xB5C0FBCFEC4D3B2F, 0xE9B5DBA58189DBBC, 0x3956C25BF348B538]"

definition K512_1 :: "u64 list" where
  "K512_1 = [0x59F111F1B605D019, 0x923F82A4AF194F9B, 0xAB1C5ED5DA6D8118, 0xD807AA98A3030242, 0x12835B0145706FBE]"

definition K512_2 :: "u64 list" where
  "K512_2 = [0x243185BE4EE4B28C, 0x550C7DC3D5FFB4E2, 0x72BE5D74F27B896F, 0x80DEB1FE3B1696B1, 0x9BDC06A725C71235]"

definition K512_3 :: "u64 list" where
  "K512_3 = [0xC19BF174CF692694, 0xE49B69C19EF14AD2, 0xEFBE4786384F25E3, 0x0FC19DC68B8CD5B5, 0x240CA1CC77AC9C65]"

definition K512_4 :: "u64 list" where
  "K512_4 = [0x2DE92C6F592B0275, 0x4A7484AA6EA6E483, 0x5CB0A9DCBD41FBD4, 0x76F988DA831153B5, 0x983E5152EE66DFAB]"

definition K512_5 :: "u64 list" where
  "K512_5 = [0xA831C66D2DB43210, 0xB00327C898FB213F, 0xBF597FC7BEEF0EE4, 0xC6E00BF33DA88FC2, 0xD5A79147930AA725]"

definition K512_6 :: "u64 list" where
  "K512_6 = [0x06CA6351E003826F, 0x142929670A0E6E70, 0x27B70A8546D22FFC, 0x2E1B21385C26C926, 0x4D2C6DFC5AC42AED]"

definition K512_7 :: "u64 list" where
  "K512_7 = [0x53380D139D95B3DF, 0x650A73548BAF63DE, 0x766A0ABB3C77B2A8, 0x81C2C92E47EDAEE6, 0x92722C851482353B]"

definition K512_8 :: "u64 list" where
  "K512_8 = [0xA2BFE8A14CF10364, 0xA81A664BBC423001, 0xC24B8B70D0F89791, 0xC76C51A30654BE30, 0xD192E819D6EF5218]"

definition K512_9 :: "u64 list" where
  "K512_9 = [0xD69906245565A910, 0xF40E35855771202A, 0x106AA07032BBD1B8, 0x19A4C116B8D2D0C8, 0x1E376C085141AB53]"

definition K512_10 :: "u64 list" where
  "K512_10 = [0x2748774CDF8EEB99, 0x34B0BCB5E19B48A8, 0x391C0CB3C5C95A63, 0x4ED8AA4AE3418ACB, 0x5B9CCA4F7763E373]"

definition K512_11 :: "u64 list" where
  "K512_11 = [0x682E6FF3D6B2B8A3, 0x748F82EE5DEFB2FC, 0x78A5636F43172F60, 0x84C87814A1F0AB72, 0x8CC702081A6439EC]"

definition K512_12 :: "u64 list" where
  "K512_12 = [0x90BEFFFA23631E28, 0xA4506CEBDE82BDE9, 0xBEF9A3F7B2C67915, 0xC67178F2E372532B, 0xCA273ECEEA26619C]"

definition K512_13 :: "u64 list" where
  "K512_13 = [0xD186B8C721C0C207, 0xEADA7DD6CDE0EB1E, 0xF57D4F7FEE6ED178, 0x06F067AA72176FBA, 0x0A637DC5A2C898A6]"

definition K512_14 :: "u64 list" where
  "K512_14 = [0x113F9804BEF90DAE, 0x1B710B35131C471B, 0x28DB77F523047D84, 0x32CAAB7B40C72493, 0x3C9EBE0A15C9BEBC]"

definition K512_15 :: "u64 list" where
  "K512_15 = [0x431D67C49C100D4C, 0x4CC5D4BECB3E42B6, 0x597F299CFC657E2A, 0x5FCB6FAB3AD6FAEC, 0x6C44198C4A475817]"

definition K512 :: "u64 list" where
  "K512 = K512_0 @ K512_1 @ K512_2 @ K512_3 @ K512_4 @ K512_5 @ K512_6 @ K512_7 @ K512_8 @ K512_9 @ K512_10 @ K512_11 @ K512_12 @ K512_13 @ K512_14 @ K512_15"

lemmas K512_rows = K512_0_def K512_1_def K512_2_def K512_3_def K512_4_def K512_5_def K512_6_def K512_7_def K512_8_def K512_9_def K512_10_def K512_11_def K512_12_def K512_13_def K512_14_def K512_15_def

definition block_words64 :: "u8 list \<Rightarrow> u64 list" where
  "block_words64 b = map (\<lambda>t. push_bit 56 (ucast (b ! (t * 8))) OR push_bit 48 (ucast (b ! (t * 8 + 1))) OR
     push_bit 40 (ucast (b ! (t * 8 + 2))) OR push_bit 32 (ucast (b ! (t * 8 + 3))) OR push_bit 24 (ucast (b ! (t * 8 + 4))) OR
     push_bit 16 (ucast (b ! (t * 8 + 5))) OR push_bit 8 (ucast (b ! (t * 8 + 6))) OR ucast (b ! (t * 8 + 7))) [0..<16]"

definition SHA512_W :: "u8 list \<Rightarrow> u64 list" where
  "SHA512_W b = fold (\<lambda>t W. W @ [SHA512_sigma1 (W ! (t - 2)) + W ! (t - 7) + SHA512_sigma0 (W ! (t - 15)) + W ! (t - 16)])
     [16..<80] (block_words64 b)"

definition SHA512_round :: "u64 list \<Rightarrow> nat \<Rightarrow> u64 octet \<Rightarrow> u64 octet" where
  "SHA512_round W t s = (case s of (A, B, C, D, E, F, G, H) \<Rightarrow>
     let temp1 = H + SHA512_SIGMA1 E + SHA_Ch E F G + K512 ! t + W ! t;
         temp2 = SHA512_SIGMA0 A + SHA_Maj A B C
     in (temp1 + temp2, A, B, C, D + temp1, E, F, G))"

definition SHA384_512ProcessMessageBlock :: "SHA512Context \<Rightarrow> SHA512Context cm" where
  "SHA384_512ProcessMessageBlock context = do {
     c_assert (length (Message_Block context) = 128 \<and> length (Intermediate_Hash context) = 8);
     let h = Intermediate_Hash context;
     let (A, B, C, D, E, F, G, H) = fold (SHA512_round (SHA512_W (Message_Block context))) [0..<80]
       (h ! 0, h ! 1, h ! 2, h ! 3, h ! 4, h ! 5, h ! 6, h ! 7);
     ret (context\<lparr>Intermediate_Hash := [h ! 0 + A, h ! 1 + B, h ! 2 + C, h ! 3 + D, h ! 4 + E, h ! 5 + F, h ! 6 + G, h ! 7 + H],
       Message_Block_Index := 0\<rparr>)
   }"

definition SHA384Reset :: "SHA512Context option \<Rightarrow> int \<times> SHA512Context option" where
  "SHA384Reset context = Reset context SHA384_H0"

definition SHA512Reset :: "SHA512Context option \<Rightarrow> int \<times> SHA512Context option" where
  "SHA512Reset context = Reset context SHA512_H0"

definition SHA512Input :: "SHA512Context option \<Rightarrow> u8 list option \<Rightarrow> nat \<Rightarrow> (int \<times> SHA512Context option) cm" where
  "SHA512Input = Input SHA384_512ProcessMessageBlock SHA512_Message_Block_Size"

definition SHA384Input :: "SHA512Context option \<Rightarrow> u8 list option \<Rightarrow> nat \<Rightarrow> (int \<times> SHA512Context option) cm" where
  "SHA384Input context message_array len = SHA512Input context message_array len"

definition SHA512FinalBits :: "SHA512Context option \<Rightarrow> u8 \<Rightarrow> nat \<Rightarrow> (int \<times> SHA512Context option) cm" where
  "SHA512FinalBits = FinalBits SHA384_512ProcessMessageBlock SHA512_Message_Block_Size 16"

definition SHA384FinalBits :: "SHA512Context option \<Rightarrow> u8 \<Rightarrow> nat \<Rightarrow> (int \<times> SHA512Context option) cm" where
  "SHA384FinalBits context message_bits len = SHA512FinalBits context message_bits len"

definition SHA384Result :: "SHA512Context option \<Rightarrow> u8 list option \<Rightarrow> (int \<times> SHA512Context option \<times> u8 list option) cm" where
  "SHA384Result context Message_Digest =
     ResultN SHA384_512ProcessMessageBlock SHA512_Message_Block_Size 16 context Message_Digest SHA384HashSize"

definition SHA512Result :: "SHA512Context option \<Rightarrow> u8 list option \<Rightarrow> (int \<times> SHA512Context option \<times> u8 list option) cm" where
  "SHA512Result context Message_Digest =
     ResultN SHA384_512ProcessMessageBlock SHA512_Message_Block_Size 16 context Message_Digest SHA512HashSize"

section \<open>The unified interface\<close>

datatype SHAversion = SHA1 | SHA224 | SHA256 | SHA384 | SHA512

text \<open>The union of the contexts is kept as its members: only the one that \<open>whichSha\<close> selects is read, and \<open>USHAReset\<close> sets in it all
  that is read before it is written.\<close>

record USHAContext =
  whichSha :: SHAversion
  sha1Context :: SHA1Context
  sha256Context :: SHA256Context
  sha512Context :: SHA512Context

definition on_sha1 :: "USHAContext \<Rightarrow> SHA1Context option \<Rightarrow> USHAContext option" where
  "on_sha1 ctx c = map_option (\<lambda>x. ctx\<lparr>sha1Context := x\<rparr>) c"

definition on_sha256 :: "USHAContext \<Rightarrow> SHA256Context option \<Rightarrow> USHAContext option" where
  "on_sha256 ctx c = map_option (\<lambda>x. ctx\<lparr>sha256Context := x\<rparr>) c"

definition on_sha512 :: "USHAContext \<Rightarrow> SHA512Context option \<Rightarrow> USHAContext option" where
  "on_sha512 ctx c = map_option (\<lambda>x. ctx\<lparr>sha512Context := x\<rparr>) c"

definition USHAReset :: "USHAContext option \<Rightarrow> SHAversion \<Rightarrow> int \<times> USHAContext option" where
  "USHAReset handle which =
     (case handle of
        None \<Rightarrow> (shaNull, None)
      | Some c0 \<Rightarrow>
          let ctx = c0\<lparr>whichSha := which\<rparr>
          in (case which of
            SHA1 \<Rightarrow> map_prod id (on_sha1 ctx) (SHA1Reset (Some (sha1Context ctx)))
          | SHA224 \<Rightarrow> map_prod id (on_sha256 ctx) (SHA224Reset (Some (sha256Context ctx)))
          | SHA256 \<Rightarrow> map_prod id (on_sha256 ctx) (SHA256Reset (Some (sha256Context ctx)))
          | SHA384 \<Rightarrow> map_prod id (on_sha512 ctx) (SHA384Reset (Some (sha512Context ctx)))
          | SHA512 \<Rightarrow> map_prod id (on_sha512 ctx) (SHA512Reset (Some (sha512Context ctx)))))"

definition USHAInput :: "USHAContext option \<Rightarrow> u8 list option \<Rightarrow> nat \<Rightarrow> (int \<times> USHAContext option) cm" where
  "USHAInput handle bytes bytecount =
     (case handle of
        None \<Rightarrow> ret (shaNull, None)
      | Some ctx \<Rightarrow>
          (case whichSha ctx of
             SHA1 \<Rightarrow> do { (e, c) \<leftarrow> SHA1Input (Some (sha1Context ctx)) bytes bytecount; ret (e, on_sha1 ctx c) }
           | SHA224 \<Rightarrow> do { (e, c) \<leftarrow> SHA224Input (Some (sha256Context ctx)) bytes bytecount; ret (e, on_sha256 ctx c) }
           | SHA256 \<Rightarrow> do { (e, c) \<leftarrow> SHA256Input (Some (sha256Context ctx)) bytes bytecount; ret (e, on_sha256 ctx c) }
           | SHA384 \<Rightarrow> do { (e, c) \<leftarrow> SHA384Input (Some (sha512Context ctx)) bytes bytecount; ret (e, on_sha512 ctx c) }
           | SHA512 \<Rightarrow> do { (e, c) \<leftarrow> SHA512Input (Some (sha512Context ctx)) bytes bytecount; ret (e, on_sha512 ctx c) }))"

definition USHAFinalBits :: "USHAContext option \<Rightarrow> u8 \<Rightarrow> nat \<Rightarrow> (int \<times> USHAContext option) cm" where
  "USHAFinalBits handle bits bitcount =
     (case handle of
        None \<Rightarrow> ret (shaNull, None)
      | Some ctx \<Rightarrow>
          (case whichSha ctx of
             SHA1 \<Rightarrow> do { (e, c) \<leftarrow> SHA1FinalBits (Some (sha1Context ctx)) bits bitcount; ret (e, on_sha1 ctx c) }
           | SHA224 \<Rightarrow> do { (e, c) \<leftarrow> SHA224FinalBits (Some (sha256Context ctx)) bits bitcount; ret (e, on_sha256 ctx c) }
           | SHA256 \<Rightarrow> do { (e, c) \<leftarrow> SHA256FinalBits (Some (sha256Context ctx)) bits bitcount; ret (e, on_sha256 ctx c) }
           | SHA384 \<Rightarrow> do { (e, c) \<leftarrow> SHA384FinalBits (Some (sha512Context ctx)) bits bitcount; ret (e, on_sha512 ctx c) }
           | SHA512 \<Rightarrow> do { (e, c) \<leftarrow> SHA512FinalBits (Some (sha512Context ctx)) bits bitcount; ret (e, on_sha512 ctx c) }))"

definition USHAResult :: "USHAContext option \<Rightarrow> u8 list option \<Rightarrow> (int \<times> USHAContext option \<times> u8 list option) cm" where
  "USHAResult handle Message_Digest =
     (case handle of
        None \<Rightarrow> ret (shaNull, None, Message_Digest)
      | Some ctx \<Rightarrow>
          (case whichSha ctx of
             SHA1 \<Rightarrow> do { (e, c, d) \<leftarrow> SHA1Result (Some (sha1Context ctx)) Message_Digest; ret (e, on_sha1 ctx c, d) }
           | SHA224 \<Rightarrow> do { (e, c, d) \<leftarrow> SHA224Result (Some (sha256Context ctx)) Message_Digest; ret (e, on_sha256 ctx c, d) }
           | SHA256 \<Rightarrow> do { (e, c, d) \<leftarrow> SHA256Result (Some (sha256Context ctx)) Message_Digest; ret (e, on_sha256 ctx c, d) }
           | SHA384 \<Rightarrow> do { (e, c, d) \<leftarrow> SHA384Result (Some (sha512Context ctx)) Message_Digest; ret (e, on_sha512 ctx c, d) }
           | SHA512 \<Rightarrow> do { (e, c, d) \<leftarrow> SHA512Result (Some (sha512Context ctx)) Message_Digest; ret (e, on_sha512 ctx c, d) }))"

definition USHABlockSize :: "SHAversion \<Rightarrow> nat" where
  "USHABlockSize which = (case which of SHA1 \<Rightarrow> SHA1_Message_Block_Size | SHA224 \<Rightarrow> SHA256_Message_Block_Size
     | SHA256 \<Rightarrow> SHA256_Message_Block_Size | SHA384 \<Rightarrow> SHA512_Message_Block_Size | SHA512 \<Rightarrow> SHA512_Message_Block_Size)"

definition USHAHashSize :: "SHAversion \<Rightarrow> nat" where
  "USHAHashSize which = (case which of SHA1 \<Rightarrow> SHA1HashSize | SHA224 \<Rightarrow> SHA224HashSize | SHA256 \<Rightarrow> SHA256HashSize
     | SHA384 \<Rightarrow> SHA384HashSize | SHA512 \<Rightarrow> SHA512HashSize)"

definition USHAHashSizeBits :: "SHAversion \<Rightarrow> nat" where
  "USHAHashSizeBits which = (case which of SHA1 \<Rightarrow> 160 | SHA224 \<Rightarrow> 224 | SHA256 \<Rightarrow> 256 | SHA384 \<Rightarrow> 384 | SHA512 \<Rightarrow> 512)"

end
