(* ===== verification/ShaStream.thy ===== *)
theory ShaStream
  imports ShaSpec
begin

text \<open>
  The hash functions of the sources compute FIPS 180-4, however the message is cut. What the three files share is proved
  once, in the locale \<open>md_hash\<close>, from the law that processing a block is one step of the chain; each file interprets it.
\<close>

section \<open>Lengths and bytes\<close>

definition bit_count :: "('l::len) word sha_context \<Rightarrow> nat" where
  "bit_count c = unat (Length_High c) * 2 ^ LENGTH('l) + unat (Length_Low c)"

lemma AddLength_count:
  fixes c :: "('l::len) word sha_context"
  assumes "bit_count c + unat len < 2 ^ (2 * LENGTH('l))"
  shows "bit_count (AddLength c len) = bit_count c + unat len" "Corrupted (AddLength c len) = 0"
proof -
  let ?M = "2 ^ LENGTH('l) :: nat"
  have lt: "unat (Length_Low c) < ?M" "unat len < ?M" "unat (Length_High c) < ?M" by (rule unsigned_less)+
  have sq: "2 ^ (2 * LENGTH('l)) = ?M * ?M" by (simp add: mult_2 power_add)
  have low: "unat (Length_Low c + len) = (unat (Length_Low c) + unat len) mod ?M" by (simp add: unat_word_ariths)
  have *: "bit_count (AddLength c len) = bit_count c + unat len \<and> Corrupted (AddLength c len) = 0"
  proof (cases "unat (Length_Low c) + unat len < ?M")
    case True
    then have "unat (Length_Low c + len) = unat (Length_Low c) + unat len" using low by simp
    moreover from this have "\<not> Length_Low c + len < Length_Low c" by (simp add: word_less_nat_alt)
    ultimately show ?thesis by (simp add: AddLength_def bit_count_def)
  next
    case False
    have "unat (Length_Low c) + unat len - ?M < ?M" using lt(1,2) by linarith
    note this [THEN mod_less]
    then have "(unat (Length_Low c) + unat len) mod ?M = unat (Length_Low c) + unat len - ?M"
      using False by (simp add: le_mod_geq)
    then have l: "unat (Length_Low c + len) = unat (Length_Low c) + unat len - ?M" using low by simp
    then have carry: "Length_Low c + len < Length_Low c" unfolding word_less_nat_alt using lt(2) False by linarith
    have "unat (Length_High c) + 1 < ?M"
    proof (rule ccontr)
      assume "\<not> unat (Length_High c) + 1 < ?M"
      then have "unat (Length_High c) = ?M - 1" using lt(3) by linarith
      then have "bit_count c + unat len \<ge> ?M * ?M"
        using False by (simp add: bit_count_def diff_mult_distrib)
      then show False using assms sq by simp
    qed
    then have h: "unat (Length_High c + 1) = unat (Length_High c) + 1" by (simp add: unat_word_ariths)
    then have "Length_High c + 1 \<noteq> 0" by (metis add_is_0 one_neq_zero unsigned_0)
    then show ?thesis using carry l h False by (simp add: AddLength_def bit_count_def Let_def)
  qed
  then show "bit_count (AddLength c len) = bit_count c + unat len" "Corrupted (AddLength c len) = 0" by simp_all
qed

lemma AddLength_fields [simp]:
  "Intermediate_Hash (AddLength c n) = Intermediate_Hash c" "Message_Block (AddLength c n) = Message_Block c"
  "Message_Block_Index (AddLength c n) = Message_Block_Index c" "Computed (AddLength c n) = Computed c"
  by (simp_all add: AddLength_def Let_def)

lemma ucast_drop: "(ucast (drop_bit k w) :: u8) = of_nat (unat w div 2 ^ k)"
proof -
  have "unat (drop_bit k w) = unat w div 2 ^ k" by (subst unat_drop_bit_eq) (rule drop_bit_eq_div)
  then show ?thesis by (simp add: word_unat_eq_iff unsigned_ucast_eq unsigned_of_nat take_bit_eq_mod)
qed

lemma unat_small:
  assumes "8 dvd LENGTH('l)" "n \<le> 8"
  shows "unat (of_nat n :: ('l::len) word) = n"
proof -
  have "8 \<le> LENGTH('l)" using assms(1) by (simp add: dvd_imp_le)
  then have "(2 :: nat) ^ 8 \<le> 2 ^ LENGTH('l)" by (rule power_increasing) simp
  then have "n < 2 ^ LENGTH('l)" using assms(2) by simp
  then show ?thesis by (simp add: unsigned_of_nat take_bit_nat_eq_self)
qed

lemma word_bytes_number:
  assumes "8 dvd LENGTH('l)"
  shows "word_bytes (w :: ('l::len) word) = be_number (LENGTH('l) div 8) (unat w)"
  by (simp add: word_bytes_def be_number_def ucast_drop power_mult)

lemma length_be_number [simp]: "length (be_number n x) = n"
  by (simp add: be_number_def)

lemma be_number_pair:
  assumes "lo < 256 ^ n"
  shows "be_number n hi @ be_number n lo = be_number (2 * n) (hi * 256 ^ n + lo)"
proof (rule nth_equalityI)
  fix i assume "i < length (be_number n hi @ be_number n lo)"
  then have i: "i < 2 * n" by simp
  show "(be_number n hi @ be_number n lo) ! i = be_number (2 * n) (hi * 256 ^ n + lo) ! i"
  proof (cases "i < n")
    case True
    then have e: "2 * n - 1 - i = n + (n - 1 - i)" by simp
    have "(hi * 256 ^ n + lo) div 256 ^ (2 * n - 1 - i) = (hi * 256 ^ n + lo) div 256 ^ n div 256 ^ (n - 1 - i)"
      by (simp only: e power_add div_mult2_eq)
    also have "\<dots> = hi div 256 ^ (n - 1 - i)" using assms by simp
    finally show ?thesis using True i by (simp add: be_number_def nth_append)
  next
    case False
    define k where "k = 2 * n - 1 - i"
    have k: "n - 1 - (i - n) = k" "k < n" using False i by (simp_all add: k_def)
    have "(hi * 256 ^ n + lo) div 256 ^ k = hi * 256 ^ (n - k) + lo div 256 ^ k"
    proof -
      have "(256 :: nat) ^ n = 256 ^ (n - k) * 256 ^ k" using k(2) by (simp flip: power_add)
      then have "hi * 256 ^ n + lo = lo + (hi * 256 ^ (n - k)) * 256 ^ k" by simp
      then show ?thesis by (simp only: div_mult_self1 power_not_zero zero_neq_numeral not_False_eq_True)
    qed
    moreover have "(256 :: u8) = 0" by simp
    then have "(256 :: u8) ^ (n - k) = 0" using k(2) by (simp only: zero_power zero_less_diff)
    ultimately have "(of_nat ((hi * 256 ^ n + lo) div 256 ^ k) :: u8) = of_nat (lo div 256 ^ k)" by simp
    moreover have "i - n < n" using False i by simp
    ultimately show ?thesis using False i k by (simp add: be_number_def nth_append k_def)
  qed
qed simp

lemma length_field:
  fixes c :: "('l::len) word sha_context"
  assumes "8 dvd LENGTH('l)"
  shows "word_bytes (Length_High c) @ word_bytes (Length_Low c) = be_number (2 * (LENGTH('l) div 8)) (bit_count c)"
proof -
  have "256 ^ (LENGTH('l) div 8) = (2 :: nat) ^ LENGTH('l)"
    using assms power_mult [of "2 :: nat" 8 "LENGTH('l) div 8"] by simp
  then show ?thesis
    using be_number_pair [of "unat (Length_Low c)" "LENGTH('l) div 8" "unat (Length_High c)"] unsigned_less [of "Length_Low c"] assms
    by (simp add: word_bytes_number bit_count_def)
qed

lemma byte_mask: "(v :: u8) AND 0xFF = v"
proof -
  have "(0xFF :: u8) = - 1" by simp
  then show ?thesis by (simp only: and.right_neutral)
qed

lemma last_byte_masks:
  assumes "n < 8"
  shows "last_byte bits n = bits AND masks ! n OR markbit ! n"
proof -
  have clear: "push_bit k (drop_bit k (x :: u8)) = x AND NOT (mask k)" for k x
    by (rule bit_word_eqI) (auto simp: bit_simps)
  have neg: "(- 256 :: u8) = 0" "(- 128 :: u8) = 0x80" "(- 64 :: u8) = 0xC0" "(- 32 :: u8) = 0xE0" "(- 16 :: u8) = 0xF0"
    "(- 8 :: u8) = 0xF8" "(- 4 :: u8) = 0xFC" "(- 2 :: u8) = 0xFE" by simp_all
  have "n \<in> {0, 1, 2, 3, 4, 5, 6, 7}" using assms by auto
  then show ?thesis
    unfolding last_byte_def clear masks_def markbit_def by (elim insertE emptyE) (simp_all add: mask_eq_exp_minus_1 neg)
qed

section \<open>Writing into the block\<close>

lemma wp_put_byte:
  assumes "Message_Block c = xs @ y # ys" "Message_Block_Index c = length xs"
  shows "wp (put_byte c v) Q w = Q (c\<lparr>Message_Block := xs @ v # ys, Message_Block_Index := length xs + 1\<rparr>) w"
  using assms by (simp add: put_byte_def)

lemma wp_zero_fill:
  assumes "Message_Block c = xs @ ys @ zs" "Message_Block_Index c = length xs" "n = length ys"
  shows "wp (zero_fill n c) Q w = Q (c\<lparr>Message_Block := xs @ replicate n 0 @ zs, Message_Block_Index := length xs + n\<rparr>) w"
  using assms
proof (induction n arbitrary: c xs ys)
  case 0
  have "c\<lparr>Message_Block := xs @ zs, Message_Block_Index := length xs\<rparr> = c" using 0 by (cases c) simp
  then show ?case by simp
next
  case (Suc n)
  then obtain y ys' where ys: "ys = y # ys'" "n = length ys'" by (cases ys) auto
  let ?c = "c\<lparr>Message_Block := xs @ 0 # ys' @ zs, Message_Block_Index := length xs + 1\<rparr>"
  have "wp (put_byte c 0) R w = R ?c w" for R
    using wp_put_byte [of c xs y "ys' @ zs"] Suc.prems ys by simp
  moreover have "wp (zero_fill n ?c) Q w = Q (?c\<lparr>Message_Block := (xs @ [0]) @ replicate n 0 @ zs,
      Message_Block_Index := length (xs @ [0]) + n\<rparr>) w"
    by (rule Suc.IH [where ys = ys']) (use ys in simp_all)
  ultimately show ?case by (simp add: wp_bind_eta)
qed

lemma nth_concat_map:
  assumes "\<And>x. length (f x) = n" "i < n * length xs"
  shows "concat (map f xs) ! i = f (xs ! (i div n)) ! (i mod n)"
  using assms(2)
proof (induction xs arbitrary: i)
  case (Cons x xs)
  have n: "0 < n" using Cons.prems by (cases n) simp_all
  show ?case
  proof (cases "i < n")
    case False
    then have "i div n = Suc ((i - n) div n)" "i mod n = (i - n) mod n" using n by (simp_all add: le_div_geq le_mod_geq)
    then show ?thesis using Cons.IH [of "i - n"] Cons.prems False by (simp add: nth_append assms(1))
  qed (simp add: nth_append assms(1))
qed simp

lemma length_concat_map: "(\<And>x. length (f x) = n) \<Longrightarrow> length (concat (map f xs)) = n * length xs"
  by (induction xs) simp_all

lemma wp_digest_loop:
  fixes h :: "('l::len) word list"
  assumes "8 dvd LENGTH('l)" "i + n \<le> LENGTH('l) div 8 * length h" "i + n \<le> length d"
  shows "wp (digest_loop h d i n) Q w = Q (put d i (take n (drop i (concat (map (\<lambda>w. be_number (LENGTH('l) div 8) (unat w)) h))))) w"
  using assms(2,3)
proof (induction n arbitrary: i d)
  case (Suc n)
  let ?n = "LENGTH('l) div 8" and ?D = "concat (map (\<lambda>w. be_number (LENGTH('l) div 8) (unat w)) h)"
  have i: "i < ?n * length h" "i < length d" using Suc.prems by simp_all
  have pos: "0 < ?n" using i by (cases ?n) simp_all
  have word: "i div ?n < length h" using i pos by (simp add: div_less_iff_less_mult mult.commute)
  have "?D ! i = be_number ?n (unat (h ! (i div ?n))) ! (i mod ?n)" using i by (simp add: nth_concat_map)
  also have "\<dots> = ucast (drop_bit (8 * (?n - 1 - i mod ?n)) (h ! (i div ?n)))"
    using pos by (simp add: word_bytes_number [OF assms(1), symmetric] word_bytes_def)
  finally have byte: "ucast (drop_bit (8 * (?n - 1 - i mod ?n)) (h ! (i div ?n))) = ?D ! i" by simp
  have len: "length ?D = ?n * length h" by (simp add: length_concat_map)
  have "take (Suc n) (drop i ?D) = ?D ! i # take n (drop (Suc i) ?D)" using i len by (simp add: Cons_nth_drop_Suc [symmetric])
  moreover have "length (take n (drop (Suc i) ?D)) = n" using Suc.prems(1) len by simp
  ultimately show ?case
    using Suc.IH [of "Suc i" "d[i := ?D ! i]"] Suc.prems i word
    by (simp only: digest_loop.simps byte) (simp add: list_update_put)
qed simp

section \<open>One law for every hash\<close>

text \<open>A context that has taken in the bytes \<open>m\<close>: the full blocks are in the hash, the rest is in the block, and the length is
  counted.\<close>

definition absorbed ::
  "(('l::len) word list \<Rightarrow> u8 list \<Rightarrow> 'l word list) \<Rightarrow> nat \<Rightarrow> 'l word list \<Rightarrow> u8 list \<Rightarrow> 'l word sha_context \<Rightarrow> bool" where
  "absorbed compress bs H0 m c \<longleftrightarrow> \<not> Computed c \<and> Corrupted c = 0 \<and> length (Message_Block c) = bs \<and>
     Message_Block_Index c = length m mod bs \<and>
     take (length m mod bs) (Message_Block c) = drop (length m div bs * bs) m \<and>
     Intermediate_Hash c = chain compress bs H0 (take (length m div bs * bs) m) \<and> bit_count c = 8 * length m"

text \<open>A context whose digest is computed.\<close>

definition finished :: "nat \<Rightarrow> ('l::len) word list \<Rightarrow> 'l word sha_context \<Rightarrow> bool" where
  "finished bs h c \<longleftrightarrow> Computed c \<and> Corrupted c = 0 \<and> length (Message_Block c) = bs \<and> Intermediate_Hash c = h"

locale md_hash =
  fixes process :: "('l::len) word sha_context \<Rightarrow> 'l word sha_context cm"
    and bsize :: nat
    and hlen :: nat
    and compress :: "'l word list \<Rightarrow> u8 list \<Rightarrow> 'l word list"
  assumes octets: "8 dvd LENGTH('l)"
    and room: "2 * (LENGTH('l) div 8) < bsize"
    and process: "length (Message_Block c) = bsize \<Longrightarrow> length (Intermediate_Hash c) = hlen \<Longrightarrow>
      wp (process c) Q w = Q (c\<lparr>Intermediate_Hash := compress (Intermediate_Hash c) (Message_Block c), Message_Block_Index := 0\<rparr>) w"
    and compress_length: "length h = hlen \<Longrightarrow> length (compress h b) = hlen"
begin

lemma bsize_pos: "0 < bsize"
  using room by simp

lemma chain_length: "length h = hlen \<Longrightarrow> length (chain compress bsize h xs) = hlen"
proof -
  have "length (foldl compress h bs) = hlen" if "length h = hlen" for h bs
    using that by (induction bs arbitrary: h) (simp_all add: compress_length)
  then show "length h = hlen \<Longrightarrow> length (chain compress bsize h xs) = hlen" by (simp add: chain_def)
qed

lemma absorbed_Nil:
  assumes "length (Message_Block c) = bsize" "length H0 = hlen" "Reset (Some c) H0 = (e, h)"
  shows "e = shaSuccess \<and> (\<exists>c'. h = Some c' \<and> absorbed compress bsize H0 [] c')"
  using assms by (auto simp: Reset_def absorbed_def bit_count_def)

text \<open>The block as the part that is filled and the part that is not.\<close>

lemma absorbed_split:
  assumes "absorbed compress bsize H0 m c"
  obtains rest where "Message_Block c = drop (length m div bsize * bsize) m @ rest" "length rest = bsize - length m mod bsize"
    "length (drop (length m div bsize * bsize) m) = length m mod bsize"
proof
  let ?r = "length m mod bsize"
  have "?r < bsize" using bsize_pos by simp
  then show "Message_Block c = drop (length m div bsize * bsize) m @ drop ?r (Message_Block c)"
    using assms append_take_drop_id [of ?r "Message_Block c"] by (simp add: absorbed_def)
  show "length (drop ?r (Message_Block c)) = bsize - ?r" "length (drop (length m div bsize * bsize) m) = ?r"
    using assms by (simp_all add: absorbed_def minus_div_mult_eq_mod)
qed

lemma wp_absorb_byte:
  assumes m: "absorbed compress bsize H0 m c" "length H0 = hlen" "8 * (length m + 1) < 2 ^ (2 * LENGTH('l))"
    and Q: "\<And>c'. absorbed compress bsize H0 (m @ [v]) c' \<Longrightarrow> Q c' w"
  shows "wp (do { c1 \<leftarrow> put_byte c v; let c2 = AddLength c1 8;
      if Corrupted c2 = 0 \<and> Message_Block_Index c2 = bsize then process c2 else ret c2 }) Q w"
proof -
  let ?r = "length m mod bsize" and ?q = "length m div bsize * bsize"
  obtain rest where b: "Message_Block c = drop ?q m @ rest" "length rest = bsize - ?r" "length (drop ?q m) = ?r"
    using absorbed_split [OF m(1)] by blast
  have r: "?r < bsize" using bsize_pos by simp
  obtain y ys where rest: "rest = y # ys" using b(2) r by (cases rest) auto
  define c1 where "c1 = c\<lparr>Message_Block := drop ?q m @ v # ys, Message_Block_Index := ?r + 1\<rparr>"
  define c2 where "c2 = AddLength c1 8"
  have put: "wp (put_byte c v) R w = R c1 w" for R
    using wp_put_byte [of c "drop ?q m" y ys] b m(1) by (simp add: c1_def rest absorbed_def)
  have count: "bit_count c1 = 8 * length m" using m(1) by (simp add: c1_def absorbed_def bit_count_def)
  have eight: "unat (8 :: 'l word) = 8" using unat_small [OF octets, of 8] by simp
  have c2: "bit_count c2 = 8 * (length m + 1)" "Corrupted c2 = 0" "Message_Block c2 = drop ?q m @ v # ys" "Message_Block_Index c2 = ?r + 1"
    "Computed c2 = Computed c" "Intermediate_Hash c2 = Intermediate_Hash c"
    using AddLength_count [of c1 8] count eight m(3) by (simp_all add: c2_def) (simp_all add: c1_def)
  have i1: "Message_Block_Index c1 = ?r + 1" by (simp add: c1_def)
  have H: "length (Intermediate_Hash c) = hlen" using m(1,2) by (simp add: absorbed_def chain_length)
  have q: "length (take ?q m) = ?q" "bsize dvd ?q" by simp_all
  show ?thesis
  proof (cases "?r + 1 = bsize")
    case True
    have "length m = ?q + ?r" by simp
    then have n: "length m + 1 = (length m div bsize + 1) * bsize" using True by (simp only: distrib_right mult_1)
    then have l: "(length m + 1) mod bsize = 0" "(length m + 1) div bsize * bsize = length m + 1" by (simp_all only: mod_mult_self2_is_0 nonzero_mult_div_cancel_right bsize_pos [THEN less_imp_neq, symmetric] not_False_eq_True) 
    have "length rest = 1" using b(2) True by linarith
    then have "ys = []" using rest by simp
    let ?b = "drop ?q m @ [v]" and ?c = "c2\<lparr>Intermediate_Hash := compress (Intermediate_Hash c) (drop ?q m @ [v]), Message_Block_Index := 0\<rparr>"
    have B: "length ?b = bsize" using b(3) True by simp
    have "chain compress bsize H0 (take ?q m @ ?b) = compress (Intermediate_Hash c) ?b"
      using B q bsize_pos m(1) chain_append [of bsize "take ?q m" compress H0 ?b] by (simp add: absorbed_def)
    then have "chain compress bsize H0 (m @ [v]) = compress (Intermediate_Hash c) ?b" by (simp flip: append_assoc)
    then have "absorbed compress bsize H0 (m @ [v]) ?c"
      using m(1) c2 l B \<open>ys = []\<close> by (simp add: absorbed_def bit_count_def)
    then show ?thesis using Q put c2 l B H True i1 \<open>ys = []\<close> by (simp add: process flip: c2_def)
  next
    case False
    then have l: "(length m + 1) mod bsize = ?r + 1" "(length m + 1) div bsize = length m div bsize" by (simp_all add: mod_Suc div_Suc)
    have "absorbed compress bsize H0 (m @ [v]) c2"
      using m(1) c2 l b rest r False by (auto simp: absorbed_def)
    then show ?thesis using Q put c2 i1 False by (simp flip: c2_def)
  qed
qed

lemma wp_Input_loop:
  assumes "absorbed compress bsize H0 m c" "length H0 = hlen" "i + n \<le> length a" "8 * (length m + n) < 2 ^ (2 * LENGTH('l))"
    and Q: "\<And>c'. absorbed compress bsize H0 (m @ take n (drop i a)) c' \<Longrightarrow> Q c' w"
  shows "wp (Input_loop process bsize c a i n) Q w"
  using assms
proof (induction n arbitrary: i m c)
  case (Suc n)
  have i: "i < length a" and full: "a ! i AND 0xFF = a ! i" using Suc.prems(3) by (simp_all add: byte_mask)
  have "wp (do { c1 \<leftarrow> put_byte c (a ! i); let c2 = AddLength c1 8;
      if Corrupted c2 = 0 \<and> Message_Block_Index c2 = bsize then process c2 else ret c2 })
      (\<lambda>c3. wp (Input_loop process bsize c3 a (Suc i) n) Q) w"
  proof (rule wp_absorb_byte [OF Suc.prems(1,2)])
    fix c' assume c': "absorbed compress bsize H0 (m @ [a ! i]) c'"
    have "take (Suc n) (drop i a) = a ! i # take n (drop (Suc i) a)" using i by (simp add: Cons_nth_drop_Suc [symmetric])
    then show "wp (Input_loop process bsize c' a (Suc i) n) Q w"
      using Suc.prems by (intro Suc.IH [OF c']) simp_all
  qed (use Suc.prems(4) in simp)
  then show ?case using Suc.prems(1) i by (simp add: full absorbed_def Let_def wp_bind_eta)
qed simp

lemma wp_Input:
  assumes "absorbed compress bsize H0 m c" "length H0 = hlen" "length a \<ge> n" "8 * (length m + n) < 2 ^ (2 * LENGTH('l))"
    and Q: "\<And>c'. absorbed compress bsize H0 (m @ take n a) c' \<Longrightarrow> Q (shaSuccess, Some c') w"
  shows "wp (Input process bsize (Some c) (Some a) n) Q w"
proof -
  have "wp (Input_loop process bsize c a 0 n) (\<lambda>c1. Q (shaSuccess, Some c1)) w"
    by (rule wp_Input_loop [OF assms(1,2)]) (use assms in simp_all)
  then show ?thesis using assms by (simp add: Input_def absorbed_def)
qed

lemma chain_two: "length b = bsize \<Longrightarrow> length b' = bsize \<Longrightarrow> chain compress bsize h (b @ b') = compress (compress h b) b'"
  using bsize_pos chain_append [of bsize b compress h b'] by simp

text \<open>The last block: zeros up to the length field, the length, and the processing.\<close>

lemma wp_last_block:
  assumes "length (Intermediate_Hash c) = hlen"
    and b: "Message_Block c = p @ rest" "length p \<le> bsize - lsize" "length (Message_Block c) = bsize" "Message_Block_Index c = length p"
    and lsize: "lsize = 2 * (LENGTH('l) div 8)"
    and Q: "\<And>c'. Intermediate_Hash c' =
        compress (Intermediate_Hash c) (p @ replicate (bsize - lsize - length p) 0 @ be_number lsize (bit_count c)) \<Longrightarrow>
      length (Message_Block c') = bsize \<Longrightarrow> Computed c' = Computed c \<Longrightarrow> Corrupted c' = Corrupted c \<Longrightarrow> Q c' w"
  shows "wp (do {
     c3 \<leftarrow> zero_fill (bsize - lsize - Message_Block_Index c) c;
     b \<leftarrow> c_stores (Message_Block c3) (bsize - lsize) (word_bytes (Length_High c3) @ word_bytes (Length_Low c3));
     process (c3\<lparr>Message_Block := b\<rparr>) }) Q w"
proof -
  let ?n = "bsize - lsize - length p" and ?L = "be_number lsize (bit_count c)"
  have ls: "lsize < bsize" using room lsize by simp
  have L: "word_bytes (Length_High c) @ word_bytes (Length_Low c) = ?L" using length_field [OF octets] lsize by simp
  have r: "length rest = bsize - length p" using b by simp
  have fill: "wp (zero_fill ?n c) R w =
      R (c\<lparr>Message_Block := p @ replicate ?n 0 @ drop ?n rest, Message_Block_Index := length p + ?n\<rparr>) w" for R
    using wp_zero_fill [of c p "take ?n rest" "drop ?n rest" ?n] b r by simp
  have d: "length (drop ?n rest) = lsize" using r ls b(2) by simp
  then have put: "put (p @ replicate ?n 0 @ drop ?n rest) (bsize - lsize) ?L = p @ replicate ?n 0 @ ?L"
    using b(2) by (simp add: put_def)
  show ?thesis
    unfolding b(4) wp_bind fill
    using b(2,4) d ls assms(1) put by (simp add: L process) (rule Q, simp_all)
qed

lemma wp_PadMessage:
  assumes h: "length (Intermediate_Hash c) = hlen"
    and b: "Message_Block c = p @ rest" "length p < bsize" "length (Message_Block c) = bsize" "Message_Block_Index c = length p"
    and Q: "\<And>c'. Intermediate_Hash c' = chain compress bsize (Intermediate_Hash c)
        (p @ [v] @ replicate ((2 * bsize - 1 - lsize - length p) mod bsize) 0 @ be_number lsize (bit_count c)) \<Longrightarrow>
      length (Message_Block c') = bsize \<Longrightarrow> Computed c' = Computed c \<Longrightarrow> Corrupted c' = Corrupted c \<Longrightarrow> Q c' w"
    and lsize: "lsize = 2 * (LENGTH('l) div 8)"
  shows "wp (PadMessage process bsize lsize c v) Q w"
proof -
  let ?L = "be_number lsize (bit_count c)" and ?z = "(2 * bsize - 1 - lsize - length p) mod bsize"
  have ls: "lsize < bsize" using room lsize by simp
  obtain y ys where rest: "rest = y # ys" "length p + Suc (length ys) = bsize" using b(1,2,3) by (cases rest) auto
  have put: "wp (put_byte c v) R w = R (c\<lparr>Message_Block := p @ v # ys, Message_Block_Index := length p + 1\<rparr>) w" for R
    using wp_put_byte [of c p y ys] b rest by simp
  have L: "word_bytes (Length_High c) @ word_bytes (Length_Low c) = ?L" using length_field [OF octets] lsize by simp
  show ?thesis
  proof (cases "bsize - lsize \<le> length p")
    case True
    let ?b = "p @ v # replicate (length ys) 0" and ?b' = "replicate (bsize - lsize) 0 @ ?L"
    have B: "length ?b = bsize" "length ?b' = bsize" using rest ls by simp_all
    have "?z = length ys + (bsize - lsize)" using True rest(2) ls by (simp add: mod_less)
    then have "p @ [v] @ replicate ?z 0 @ ?L = ?b @ ?b'" by (simp add: replicate_add)
    then have ch: "chain compress bsize (Intermediate_Hash c) (p @ [v] @ replicate ?z 0 @ ?L) = compress (compress (Intermediate_Hash c) ?b) ?b'"
      using chain_two [OF B] by simp
    have ys: "bsize - Suc (length p) = length ys" using rest(2) by simp
    let ?c2 = "c\<lparr>Message_Block := ?b, Intermediate_Hash := compress (Intermediate_Hash c) ?b, Message_Block_Index := 0\<rparr>"
    have fill: "wp (zero_fill (bsize - Suc (length p)) (c\<lparr>Message_Block := p @ v # ys, Message_Block_Index := Suc (length p)\<rparr>)) R w =
        R (c\<lparr>Message_Block := ?b, Message_Block_Index := bsize\<rparr>) w" for R
      using wp_zero_fill [of "c\<lparr>Message_Block := p @ v # ys, Message_Block_Index := Suc (length p)\<rparr>" "p @ [v]" ys "[]" "length ys"]
        ys rest(2) by simp
    have "wp (do {
       c3 \<leftarrow> zero_fill (bsize - lsize - Message_Block_Index ?c2) ?c2;
       b \<leftarrow> c_stores (Message_Block c3) (bsize - lsize) (word_bytes (Length_High c3) @ word_bytes (Length_Low c3));
       process (c3\<lparr>Message_Block := b\<rparr>) }) Q w"
    proof (rule wp_last_block [where p = "[]" and rest = ?b, OF _ _ _ _ _ lsize], goal_cases)
      case (6 c')
      then show ?case by (intro Q, unfold ch) (simp_all add: bit_count_def)
    qed (use B h in \<open>simp_all add: compress_length\<close>)
    then show ?thesis
      unfolding PadMessage_def wp_bind put
      using True b(4) B h by (simp add: wp_bind_eta fill process)
  next
    case False
    have "?z = bsize - lsize - Suc (length p)" using False rest(2) ls by (simp add: mod_if)
    then have "p @ [v] @ replicate ?z 0 @ ?L = (p @ [v]) @ replicate (bsize - lsize - length (p @ [v])) 0 @ ?L"
      and "length (p @ [v] @ replicate ?z 0 @ ?L) = bsize" using False ls by simp_all
    then have ch: "chain compress bsize (Intermediate_Hash c) (p @ [v] @ replicate ?z 0 @ ?L) =
        compress (Intermediate_Hash c) ((p @ [v]) @ replicate (bsize - lsize - length (p @ [v])) 0 @ ?L)"
      using bsize_pos by simp
    let ?c1 = "c\<lparr>Message_Block := p @ v # ys, Message_Block_Index := length p + 1\<rparr>"
    have "wp (do {
       c3 \<leftarrow> zero_fill (bsize - lsize - Message_Block_Index ?c1) ?c1;
       b \<leftarrow> c_stores (Message_Block c3) (bsize - lsize) (word_bytes (Length_High c3) @ word_bytes (Length_Low c3));
       process (c3\<lparr>Message_Block := b\<rparr>) }) Q w"
      by (rule wp_last_block [where p = "p @ [v]" and rest = ys]) (use False rest h ch in \<open>simp_all add: lsize Q bit_count_def\<close>)
    then show ?thesis
      unfolding PadMessage_def wp_bind put
      using False b(4) by (simp add: wp_bind_eta)
  qed
qed

lemma wp_Finalize:
  assumes m: "absorbed compress bsize H0 m c0" "length H0 = hlen"
    and c: "Message_Block c = Message_Block c0" "Message_Block_Index c = Message_Block_Index c0" "Intermediate_Hash c = Intermediate_Hash c0"
      "Corrupted c = 0" "bit_count c = 8 * length m + n"
    and lsize: "lsize = 2 * (LENGTH('l) div 8)"
    and Q: "\<And>c'. finished bsize (chain compress bsize H0 (md_pad bsize lsize m bits n)) c' \<Longrightarrow> Q c' w"
  shows "wp (Finalize process bsize lsize c (last_byte bits n)) Q w"
proof -
  let ?q = "length m div bsize * bsize"
  obtain rest where b: "Message_Block c = drop ?q m @ rest" "length rest = bsize - length m mod bsize" "length (drop ?q m) = length m mod bsize"
    using absorbed_split [OF m(1)] c(1) by metis
  have q: "length (take ?q m) = ?q" by simp
  have tail: "chain compress bsize (Intermediate_Hash c) (drop ?q m @ xs) = chain compress bsize H0 (m @ xs)" for xs
    using chain_append [of bsize "take ?q m" compress H0 "drop ?q m @ xs"] bsize_pos q m(1) c(3)
    by (simp add: absorbed_def flip: append_assoc)
  show ?thesis
    unfolding Finalize_def wp_bind
  proof (rule wp_PadMessage [where p = "drop ?q m" and rest = rest])
    fix c' :: "'l word sha_context"
    assume h: "Intermediate_Hash c' = chain compress bsize (Intermediate_Hash c) (drop ?q m @ [last_byte bits n] @
        replicate ((2 * bsize - 1 - lsize - length (drop ?q m)) mod bsize) 0 @ be_number lsize (bit_count c))"
      and c': "length (Message_Block c') = bsize" "Computed c' = Computed c" "Corrupted c' = Corrupted c"
    have "Intermediate_Hash c' = chain compress bsize H0 (md_pad bsize lsize m bits n)"
      unfolding h tail b(3) by (simp add: md_pad_def c(5))
    then show "wp (c_stores (Message_Block c') 0 (replicate bsize 0))
        (\<lambda>x. wp (ret (c'\<lparr>Message_Block := x, Length_Low := 0, Length_High := 0, Computed := True\<rparr>)) Q) w"
      using c' c(4) by (simp add: Q finished_def)
  qed (use m c b bsize_pos lsize in \<open>simp_all add: absorbed_def chain_length\<close>)
qed

lemma wp_FinalBits:
  assumes "absorbed compress bsize H0 m c" "length H0 = hlen" "0 < n" "n < 8" "8 * length m + n < 2 ^ (2 * LENGTH('l))"
    and lsize: "lsize = 2 * (LENGTH('l) div 8)"
    and Q: "\<And>c'. finished bsize (chain compress bsize H0 (md_pad bsize lsize m bits n)) c' \<Longrightarrow> Q (shaSuccess, Some c') w"
  shows "wp (FinalBits process bsize lsize (Some c) bits n) Q w"
proof -
  have "unat (of_nat n :: 'l word) = n" using unat_small [OF octets] assms(4) by simp
  then have "bit_count (AddLength c (of_nat n)) = 8 * length m + n" "Corrupted (AddLength c (of_nat n)) = 0"
    using AddLength_count [of c "of_nat n"] assms(1,5) by (simp_all add: absorbed_def)
  then have "wp (Finalize process bsize lsize (AddLength c (of_nat n)) (last_byte bits n)) (\<lambda>c'. Q (shaSuccess, Some c')) w"
    by (intro wp_Finalize [OF assms(1,2)]) (simp_all add: lsize Q)
  then show ?thesis using assms by (simp add: FinalBits_def absorbed_def last_byte_masks)
qed

lemma wp_Result_finished:
  assumes "finished bsize h c" "length h = hlen" "n \<le> LENGTH('l) div 8 * hlen" "n \<le> length d"
    and Q: "Q (shaSuccess, Some c, Some (put d 0 (hash_bytes n h))) w"
  shows "wp (ResultN process bsize lsize (Some c) (Some d) n) Q w"
  using assms wp_digest_loop [OF octets, of 0 n h d] by (simp add: ResultN_def finished_def hash_bytes_def)

lemma wp_Result:
  assumes "absorbed compress bsize H0 m c" "length H0 = hlen" "n \<le> LENGTH('l) div 8 * hlen" "n \<le> length d"
    and lsize: "lsize = 2 * (LENGTH('l) div 8)"
    and Q: "\<And>c'. finished bsize (chain compress bsize H0 (md_pad bsize lsize m 0 0)) c' \<Longrightarrow>
      Q (shaSuccess, Some c', Some (put d 0 (hash_bytes n (chain compress bsize H0 (md_pad bsize lsize m 0 0))))) w"
  shows "wp (ResultN process bsize lsize (Some c) (Some d) n) Q w"
proof -
  let ?h = "chain compress bsize H0 (md_pad bsize lsize m 0 0)"
  have pad: "last_byte 0 0 = 0x80" by (simp add: last_byte_masks masks_def markbit_def)
  have "wp (Finalize process bsize lsize c (last_byte 0 0)) (\<lambda>c1. wp (digest_loop (Intermediate_Hash c1) d 0 n)
      (\<lambda>d1. Q (shaSuccess, Some c1, Some d1))) w"
  proof (rule wp_Finalize [OF assms(1,2)])
    fix c' assume c': "finished bsize ?h c'"
    then show "wp (digest_loop (Intermediate_Hash c') d 0 n) (\<lambda>d1. Q (shaSuccess, Some c', Some d1)) w"
      using assms(2-4) wp_digest_loop [OF octets, of 0 n ?h d] Q [OF c'] by (simp add: finished_def hash_bytes_def chain_length)
  qed (use assms in \<open>simp_all add: absorbed_def\<close>)
  then show ?thesis using assms(1) by (simp add: ResultN_def absorbed_def pad wp_bind_eta)
qed

end

end
