(* ===== verification/ShaCompress.thy ===== *)
theory ShaCompress
  imports ShaSpec
begin

text \<open>
  Processing a block, as the sources write it (shifts, a schedule built word by word, rounds over eight variables), is the compression
  function of the standard.
\<close>

section \<open>Rotations and words of a block\<close>

lemma rotr_shifts:
  fixes w :: "('l::len) word"
  assumes "n < LENGTH('l)"
  shows "drop_bit n w OR push_bit (LENGTH('l) - n) w = word_rotr n w"
proof (rule bit_word_eqI)
  fix k assume k: "k < LENGTH('l)"
  show "bit (drop_bit n w OR push_bit (LENGTH('l) - n) w) k = bit (word_rotr n w) k"
  proof (cases "k + n < LENGTH('l)")
    case True
    then have "\<not> LENGTH('l) - n \<le> k" by simp
    then show ?thesis using True k by (simp add: bit_simps add.commute)
  next
    case False
    then have "(k + n) mod LENGTH('l) = k + n - LENGTH('l)" using k assms by (simp add: le_mod_geq)
    moreover have "\<not> bit w (n + k)" using False by (auto dest: bit_imp_le_length)
    moreover have "LENGTH('l) - n \<le> k" using False by simp
    ultimately show ?thesis using False k assms by (simp add: bit_simps)
  qed
qed

lemma ROTR_rotr: "n < 32 \<Longrightarrow> SHA256_ROTR n w = word_rotr n w"
  using rotr_shifts [of n w] by (simp add: SHA256_ROTR_def)

lemma ROTR64_rotr: "n < 64 \<Longrightarrow> SHA512_ROTR n w = word_rotr n w"
  using rotr_shifts [of n w] by (simp add: SHA512_ROTR_def)

lemma ROTL_rotl: "0 < n \<Longrightarrow> n < 32 \<Longrightarrow> SHA1_ROTL n w = word_rotl n w"
  using rotr_shifts [of "32 - n" w] by (simp add: SHA1_ROTL_def word_rotl_eq_word_rotr or.commute)

lemma word_rcat_snoc: "word_rcat (xs @ [x :: u8]) = (push_bit 8 (word_rcat xs) OR ucast x :: ('l::len) word)"
proof -
  have "word_rcat (xs @ [x]) = (256 * word_rcat xs + ucast x :: 'l word)"
    by (simp add: word_rcat_def unsigned_def)
  moreover have "(push_bit 8 (word_rcat xs) :: 'l word) AND ucast x = 0"
    by (rule bit_word_eqI) (auto simp: bit_simps dest: bit_imp_le_length)
  ultimately show ?thesis by (simp add: disjunctive_add_eq_or push_bit_eq_mult mult.commute)
qed

lemma word_rcat_Nil: "word_rcat ([] :: u8 list) = 0"
  by (simp add: word_rcat_def)

lemma rcat4: "word_rcat [a, b, c, d :: u8] = (push_bit 24 (ucast a) OR push_bit 16 (ucast b) OR push_bit 8 (ucast c) OR ucast d :: u32)"
  using word_rcat_snoc [where 'l = 32, of "[a, b, c]" d] word_rcat_snoc [where 'l = 32, of "[a, b]" c] word_rcat_snoc [where 'l = 32, of "[a]" b] word_rcat_snoc [where 'l = 32, of "[]" a]
  by (simp add: word_rcat_Nil push_bit_or or.assoc)

lemma rcat8: "word_rcat [a, b, c, d, e, f, g, h :: u8] = (push_bit 56 (ucast a) OR push_bit 48 (ucast b) OR push_bit 40 (ucast c) OR
    push_bit 32 (ucast d) OR push_bit 24 (ucast e) OR push_bit 16 (ucast f) OR push_bit 8 (ucast g) OR ucast h :: u64)"
  using word_rcat_snoc [where 'l = 64, of "[a, b, c, d, e, f, g]" h] word_rcat_snoc [where 'l = 64, of "[a, b, c, d, e, f]" g] word_rcat_snoc [where 'l = 64, of "[a, b, c, d, e]" f]
    word_rcat_snoc [where 'l = 64, of "[a, b, c, d]" e] word_rcat_snoc [where 'l = 64, of "[a, b, c]" d] word_rcat_snoc [where 'l = 64, of "[a, b]" c] word_rcat_snoc [where 'l = 64, of "[a]" b]
    word_rcat_snoc [where 'l = 64, of "[]" a]
  by (simp add: word_rcat_Nil push_bit_or or.assoc)

lemma block_words32_nth:
  assumes "length b = 64" "t < 16"
  shows "block_words32 b ! t = word_rcat (take 4 (drop (4 * t) b))"
proof -
  have "take 4 (drop (4 * t) b) = map (\<lambda>i. b ! (4 * t + i)) [0..<4]"
    using assms by (intro nth_equalityI) simp_all
  also have "[0..<4] = [0, 1, 2, 3 :: nat]" by code_simp
  finally show ?thesis using assms by (simp add: block_words32_def rcat4 mult.commute)
qed

lemma block_words64_nth:
  assumes "length b = 128" "t < 16"
  shows "block_words64 b ! t = word_rcat (take 8 (drop (8 * t) b))"
proof -
  have "take 8 (drop (8 * t) b) = map (\<lambda>i. b ! (8 * t + i)) [0..<8]"
    using assms by (intro nth_equalityI) simp_all
  also have "[0..<8] = [0, 1, 2, 3, 4, 5, 6, 7 :: nat]" by code_simp
  finally show ?thesis using assms by (simp add: block_words64_def rcat8 mult.commute)
qed

section \<open>Schedules\<close>

text \<open>A list that grows by one word a step is the recurrence it is computed from.\<close>

lemma fold_schedule:
  assumes "length W0 = k" "k \<le> n" "\<And>t. t < k \<Longrightarrow> W0 ! t = s t"
    and step: "\<And>t W. k \<le> t \<Longrightarrow> length W = t \<Longrightarrow> (\<And>i. i < t \<Longrightarrow> W ! i = s i) \<Longrightarrow> g t W = s t"
  shows "fold (\<lambda>t W. W @ [g t W]) [k..<n] W0 = map s [0..<n]"
  using assms(2)
proof (induction n rule: dec_induct)
  case base
  show ?case using assms(1,3) by (simp add: list_eq_iff_nth_eq)
next
  case (step n)
  then show ?case using assms(4) [of n "map s [0..<n]"] by simp
qed

lemma SHA1_W_schedule:
  assumes "length b = 64"
  shows "SHA1_W b = map (schedule1 b) [0..<80]"
  unfolding SHA1_W_def
proof (rule fold_schedule)
  show "length (block_words32 b) = 16" by (simp add: block_words32_def)
  show "block_words32 b ! t = schedule1 b t" if "t < 16" for t using that assms by (simp add: block_words32_nth)
qed (simp_all add: ROTL_rotl)

lemma SHA256_W_schedule:
  assumes "length b = 64"
  shows "SHA256_W b = map (schedule2 SHA256_sigma0 SHA256_sigma1 b) [0..<64]"
  unfolding SHA256_W_def
proof (rule fold_schedule)
  show "length (block_words32 b) = 16" by (simp add: block_words32_def)
  show "block_words32 b ! t = schedule2 SHA256_sigma0 SHA256_sigma1 b t" if "t < 16" for t
    using that assms by (simp add: block_words32_nth)
qed simp_all

lemma SHA512_W_schedule:
  assumes "length b = 128"
  shows "SHA512_W b = map (schedule2 SHA512_sigma0 SHA512_sigma1 b) [0..<80]"
  unfolding SHA512_W_def
proof (rule fold_schedule)
  show "length (block_words64 b) = 16" by (simp add: block_words64_def)
  show "block_words64 b ! t = schedule2 SHA512_sigma0 SHA512_sigma1 b t" if "t < 16" for t
    using that assms by (simp add: block_words64_nth)
qed simp_all

section \<open>Rounds\<close>

definition five :: "u32 list \<Rightarrow> u32 \<times> u32 \<times> u32 \<times> u32 \<times> u32" where
  "five s = (s ! 0, s ! 1, s ! 2, s ! 3, s ! 4)"

definition eight :: "'w list \<Rightarrow> 'w octet" where
  "eight s = (s ! 0, s ! 1, s ! 2, s ! 3, s ! 4, s ! 5, s ! 6, s ! 7)"

lemma list5: "length xs = 5 \<Longrightarrow> xs = [xs ! 0, xs ! 1, xs ! 2, xs ! 3, xs ! 4]"
  by (simp add: list_eq_iff_nth_eq less_Suc_eq numeral_eq_Suc)

lemma list8: "length xs = 8 \<Longrightarrow> xs = [xs ! 0, xs ! 1, xs ! 2, xs ! 3, xs ! 4, xs ! 5, xs ! 6, xs ! 7]"
  by (simp add: list_eq_iff_nth_eq less_Suc_eq numeral_eq_Suc)

lemma length_rounds1 [simp]: "length h = 5 \<Longrightarrow> length (rounds1 b h n) = 5"
  by (cases n) (simp_all add: Let_def)

lemma length_rounds2 [simp]: "length h = 8 \<Longrightarrow> length (rounds2 S0 S1 K W h n) = 8"
  by (cases n) (simp_all add: Let_def)

lemma SHA1_rounds_folds:
  "SHA1_rounds W s = fold (\<lambda>t. SHA1_round (f1 t) (SHA1_K ! (t div 20)) W t) [0..<80] s"
proof -
  let ?R = "\<lambda>t. SHA1_round (f1 t) (SHA1_K ! (t div 20)) W t"
  have part: "fold (SHA1_round f (SHA1_K ! i) W) [a..<b] x = fold ?R [a..<b] x"
    if "\<And>t. a \<le> t \<Longrightarrow> t < b \<Longrightarrow> f1 t = f \<and> t div 20 = i" for f i a b x
    by (rule fold_cong) (use that in auto)
  have "fold (SHA1_round SHA_Ch (SHA1_K ! 0) W) [0..<20] x = fold ?R [0..<20] x" for x
    by (rule part) (simp add: f1_def SHA_Ch_def fun_eq_iff)
  moreover have "fold (SHA1_round SHA_Parity (SHA1_K ! 1) W) [20..<40] x = fold ?R [20..<40] x" for x
    by (rule part) (simp add: f1_def SHA_Parity_def fun_eq_iff)
  moreover have "fold (SHA1_round SHA_Maj (SHA1_K ! 2) W) [40..<60] x = fold ?R [40..<60] x" for x
    by (rule part) (simp add: f1_def SHA_Maj_def fun_eq_iff)
  moreover have "fold (SHA1_round SHA_Parity (SHA1_K ! 3) W) [60..<80] x = fold ?R [60..<80] x" for x
    by (rule part) (simp add: f1_def SHA_Parity_def fun_eq_iff)
  moreover have "[0..<80] = [0..<20] @ [20..<40] @ [40..<60] @ [60..<80]" by code_simp
  ultimately show ?thesis by (simp only: SHA1_rounds_def fold_append o_apply)
qed

lemma SHA1_rounds_spec:
  assumes "n \<le> 80" "\<And>t. t < 80 \<Longrightarrow> W ! t = schedule1 b t"
  shows "fold (\<lambda>t. SHA1_round (f1 t) (SHA1_K ! (t div 20)) W t) [0..<n] (five h) = five (rounds1 b h n)"
  using assms(1)
proof (induction n)
  case (Suc n)
  then show ?case using assms(2) [of n]
    by (simp add: SHA1_round_def five_def Let_def ROTL_rotl add_ac del: schedule1.simps)
qed simp

lemma SHA256_rounds_spec:
  assumes "n \<le> 64" "\<And>t. t < 64 \<Longrightarrow> W ! t = s t"
  shows "fold (SHA256_round W) [0..<n] (eight h) = eight (rounds2 SHA256_SIGMA0 SHA256_SIGMA1 K256 s h n)"
  using assms(1)
proof (induction n)
  case (Suc n)
  then show ?case using assms(2) [of n] by (simp add: SHA256_round_def eight_def Let_def SHA_Ch_def SHA_Maj_def)
qed simp

lemma SHA512_rounds_spec:
  assumes "n \<le> 80" "\<And>t. t < 80 \<Longrightarrow> W ! t = s t"
  shows "fold (SHA512_round W) [0..<n] (eight h) = eight (rounds2 SHA512_SIGMA0 SHA512_SIGMA1 K512 s h n)"
  using assms(1)
proof (induction n)
  case (Suc n)
  then show ?case using assms(2) [of n] by (simp add: SHA512_round_def eight_def Let_def SHA_Ch_def SHA_Maj_def)
qed simp

section \<open>Blocks\<close>

lemma sigmas256: "SHA256_SIGMA0 = big_sigma 2 13 22" "SHA256_SIGMA1 = big_sigma 6 11 25"
  "SHA256_sigma0 = small_sigma 7 18 3" "SHA256_sigma1 = small_sigma 17 19 10"
  by (simp_all add: fun_eq_iff SHA256_SIGMA0_def SHA256_SIGMA1_def SHA256_sigma0_def SHA256_sigma1_def big_sigma_def small_sigma_def ROTR_rotr)

lemma sigmas512: "SHA512_SIGMA0 = big_sigma 28 34 39" "SHA512_SIGMA1 = big_sigma 14 18 41"
  "SHA512_sigma0 = small_sigma 1 8 7" "SHA512_sigma1 = small_sigma 19 61 6"
  by (simp_all add: fun_eq_iff SHA512_SIGMA0_def SHA512_SIGMA1_def SHA512_sigma0_def SHA512_sigma1_def big_sigma_def small_sigma_def ROTR64_rotr)

lemma add_five:
  assumes "length h = 5" "length r = 5"
  shows "add_all h r = (case five r of (A, B, C, D, E) \<Rightarrow> [h ! 0 + A, h ! 1 + B, h ! 2 + C, h ! 3 + D, h ! 4 + E])"
  by (subst list5 [OF assms(1)], subst list5 [OF assms(2)]) (simp add: add_all_def five_def)

lemma add_eight:
  assumes "length h = 8" "length r = 8"
  shows "add_all h r = (case eight r of (A, B, C, D, E, F, G, H) \<Rightarrow>
    [h ! 0 + A, h ! 1 + B, h ! 2 + C, h ! 3 + D, h ! 4 + E, h ! 5 + F, h ! 6 + G, h ! 7 + H])"
  by (subst list8 [OF assms(1)], subst list8 [OF assms(2)]) (simp add: add_all_def eight_def)

lemma wp_SHA1ProcessMessageBlock:
  assumes "length (Message_Block c) = 64" "length (Intermediate_Hash c) = 5"
  shows "wp (SHA1ProcessMessageBlock c) Q w =
    Q (c\<lparr>Intermediate_Hash := compress1 (Intermediate_Hash c) (Message_Block c), Message_Block_Index := 0\<rparr>) w"
proof -
  let ?h = "Intermediate_Hash c" and ?b = "Message_Block c"
  have "SHA1_rounds (SHA1_W ?b) (five ?h) = five (rounds1 ?b ?h 80)"
    unfolding SHA1_rounds_folds by (rule SHA1_rounds_spec) (simp_all add: SHA1_W_schedule assms del: schedule1.simps)
  then have "SHA1_rounds (SHA1_W ?b) (?h ! 0, ?h ! 1, ?h ! 2, ?h ! 3, ?h ! 4) = five (rounds1 ?b ?h 80)" by (simp add: five_def)
  then show ?thesis
    using assms add_five [of ?h "rounds1 ?b ?h 80"]
    by (simp add: SHA1ProcessMessageBlock_def compress1_def Let_def split: prod.splits)
qed

lemma wp_SHA224_256ProcessMessageBlock:
  assumes "length (Message_Block c) = 64" "length (Intermediate_Hash c) = 8"
  shows "wp (SHA224_256ProcessMessageBlock c) Q w =
    Q (c\<lparr>Intermediate_Hash := compress256 (Intermediate_Hash c) (Message_Block c), Message_Block_Index := 0\<rparr>) w"
proof -
  let ?h = "Intermediate_Hash c" and ?b = "Message_Block c"
  let ?r = "rounds2 SHA256_SIGMA0 SHA256_SIGMA1 K256 (schedule2 SHA256_sigma0 SHA256_sigma1 ?b) ?h 64"
  have "fold (SHA256_round (SHA256_W ?b)) [0..<64] (eight ?h) = eight ?r"
    by (rule SHA256_rounds_spec) (simp_all add: SHA256_W_schedule assms del: schedule2.simps)
  then have "fold (SHA256_round (SHA256_W ?b)) [0..<64] (?h ! 0, ?h ! 1, ?h ! 2, ?h ! 3, ?h ! 4, ?h ! 5, ?h ! 6, ?h ! 7) = eight ?r"
    by (simp only: eight_def)
  then show ?thesis
    unfolding compress256_def sigmas256 [symmetric] using assms add_eight [of ?h ?r]
    by (simp add: SHA224_256ProcessMessageBlock_def Let_def split: prod.splits)
qed

lemma wp_SHA384_512ProcessMessageBlock:
  assumes "length (Message_Block c) = 128" "length (Intermediate_Hash c) = 8"
  shows "wp (SHA384_512ProcessMessageBlock c) Q w =
    Q (c\<lparr>Intermediate_Hash := compress512 (Intermediate_Hash c) (Message_Block c), Message_Block_Index := 0\<rparr>) w"
proof -
  let ?h = "Intermediate_Hash c" and ?b = "Message_Block c"
  let ?r = "rounds2 SHA512_SIGMA0 SHA512_SIGMA1 K512 (schedule2 SHA512_sigma0 SHA512_sigma1 ?b) ?h 80"
  have "fold (SHA512_round (SHA512_W ?b)) [0..<80] (eight ?h) = eight ?r"
    by (rule SHA512_rounds_spec) (simp_all add: SHA512_W_schedule assms del: schedule2.simps)
  then have "fold (SHA512_round (SHA512_W ?b)) [0..<80] (?h ! 0, ?h ! 1, ?h ! 2, ?h ! 3, ?h ! 4, ?h ! 5, ?h ! 6, ?h ! 7) = eight ?r"
    by (simp only: eight_def)
  then show ?thesis
    unfolding compress512_def sigmas512 [symmetric] using assms add_eight [of ?h ?r]
    by (simp add: SHA384_512ProcessMessageBlock_def Let_def split: prod.splits)
qed

lemma length_compress [simp]:
  "length h = 5 \<Longrightarrow> length (compress1 h b) = 5" "length k = 8 \<Longrightarrow> length (compress256 k b) = 8" "length l = 8 \<Longrightarrow> length (compress512 l b) = 8"
  by (simp_all add: compress1_def compress256_def compress512_def add_all_def)

end
