(* ===== verification/Usha.thy ===== *)
theory Usha
  imports ShaStream ShaCompress
begin

text \<open>
  The unified interface of \<open>usha.c\<close> over the three hash files: each of them satisfies the law of \<open>md_hash\<close>, so a digest taken through
  the interface is the digest of the standard, however the message is cut; and what happens when the interface is misused.
\<close>

section \<open>The three hashes\<close>

interpretation sha1: md_hash SHA1ProcessMessageBlock 64 5 compress1
  by unfold_locales (simp_all add: wp_SHA1ProcessMessageBlock)

interpretation sha256: md_hash SHA224_256ProcessMessageBlock 64 8 compress256
  by unfold_locales (simp_all add: wp_SHA224_256ProcessMessageBlock)

interpretation sha512: md_hash SHA384_512ProcessMessageBlock 128 8 compress512
  by unfold_locales (simp_all add: wp_SHA384_512ProcessMessageBlock)

lemma length_H0 [simp]:
  "length SHA1_H0 = 5" "length SHA224_H0 = 8" "length SHA256_H0 = 8" "length SHA384_H0 = 8" "length SHA512_H0 = 8"
  by (simp_all add: SHA1_H0_def SHA224_H0_def SHA256_H0_def SHA384_H0_def SHA512_H0_def)

lemmas sha_chain_lengths [simp] = sha1.chain_length sha256.chain_length sha512.chain_length

section \<open>Contexts of the interface\<close>

text \<open>The sizes of the arrays inside the contexts.\<close>

definition usha_arrays :: "USHAContext \<Rightarrow> bool" where
  "usha_arrays ctx \<longleftrightarrow> length (Message_Block (sha1Context ctx)) = 64 \<and> length (Message_Block (sha256Context ctx)) = 64 \<and>
     length (Message_Block (sha512Context ctx)) = 128"

definition taken :: "SHAversion \<Rightarrow> u8 list \<Rightarrow> USHAContext \<Rightarrow> bool" where
  "taken which m ctx \<longleftrightarrow> usha_arrays ctx \<and> whichSha ctx = which \<and> (case which of
     SHA1 \<Rightarrow> absorbed compress1 64 SHA1_H0 m (sha1Context ctx)
   | SHA224 \<Rightarrow> absorbed compress256 64 SHA224_H0 m (sha256Context ctx)
   | SHA256 \<Rightarrow> absorbed compress256 64 SHA256_H0 m (sha256Context ctx)
   | SHA384 \<Rightarrow> absorbed compress512 128 SHA384_H0 m (sha512Context ctx)
   | SHA512 \<Rightarrow> absorbed compress512 128 SHA512_H0 m (sha512Context ctx))"

definition hashed :: "SHAversion \<Rightarrow> u8 list \<Rightarrow> u8 \<Rightarrow> nat \<Rightarrow> USHAContext \<Rightarrow> bool" where
  "hashed which m bits n ctx \<longleftrightarrow> usha_arrays ctx \<and> whichSha ctx = which \<and> (case which of
     SHA1 \<Rightarrow> finished 64 (chain compress1 64 SHA1_H0 (md_pad 64 8 m bits n)) (sha1Context ctx)
   | SHA224 \<Rightarrow> finished 64 (chain compress256 64 SHA224_H0 (md_pad 64 8 m bits n)) (sha256Context ctx)
   | SHA256 \<Rightarrow> finished 64 (chain compress256 64 SHA256_H0 (md_pad 64 8 m bits n)) (sha256Context ctx)
   | SHA384 \<Rightarrow> finished 128 (chain compress512 128 SHA384_H0 (md_pad 128 16 m bits n)) (sha512Context ctx)
   | SHA512 \<Rightarrow> finished 128 (chain compress512 128 SHA512_H0 (md_pad 128 16 m bits n)) (sha512Context ctx))"

definition max_bits :: "SHAversion \<Rightarrow> nat" where
  "max_bits which = (case which of SHA1 \<Rightarrow> 2 ^ 64 | SHA224 \<Rightarrow> 2 ^ 64 | SHA256 \<Rightarrow> 2 ^ 64 | SHA384 \<Rightarrow> 2 ^ 128 | SHA512 \<Rightarrow> 2 ^ 128)"

lemmas usha_defs = taken_def hashed_def usha_arrays_def max_bits_def on_sha1_def on_sha256_def on_sha512_def

lemma USHAReset_taken:
  assumes "usha_arrays ctx"
  obtains ctx' where "USHAReset (Some ctx) which = (shaSuccess, Some ctx')" "taken which [] ctx'"
  using assms
  by (cases which) (auto simp: USHAReset_def usha_defs SHA1Reset_def SHA224Reset_def SHA256Reset_def SHA384Reset_def SHA512Reset_def
    Reset_def absorbed_def bit_count_def)

lemma absorbed_block: "absorbed f bs h m c \<Longrightarrow> length (Message_Block c) = bs"
  by (simp add: absorbed_def)

lemma finished_block: "finished bs h c \<Longrightarrow> length (Message_Block c) = bs"
  by (simp add: finished_def)

lemmas sha_inputs = SHA1Input_def SHA224Input_def SHA256Input_def SHA384Input_def SHA512Input_def
lemmas sha_final_bits = SHA1FinalBits_def SHA224FinalBits_def SHA256FinalBits_def SHA384FinalBits_def SHA512FinalBits_def
lemmas sha_results = SHA1Result_def SHA224Result_def SHA256Result_def SHA384Result_def SHA512Result_def

lemma wp_USHAInput:
  assumes "taken which m ctx" "n \<le> length a" "8 * (length m + n) < max_bits which"
    and Q: "\<And>ctx'. taken which (m @ take n a) ctx' \<Longrightarrow> Q (shaSuccess, Some ctx') w"
  shows "wp (USHAInput (Some ctx) (Some a) n) Q w"
  unfolding USHAInput_def sha_inputs sha_sizes
  by (cases which; insert assms; simp add: usha_defs; (rule sha1.wp_Input sha256.wp_Input sha512.wp_Input, auto simp: absorbed_block finished_block))

lemma wp_USHAFinalBits:
  assumes "taken which m ctx" "0 < n" "n < 8" "8 * length m + n < max_bits which"
    and Q: "\<And>ctx'. hashed which m bits n ctx' \<Longrightarrow> Q (shaSuccess, Some ctx') w"
  shows "wp (USHAFinalBits (Some ctx) bits n) Q w"
  unfolding USHAFinalBits_def sha_final_bits sha_sizes
  by (cases which; insert assms; simp add: usha_defs; (rule sha1.wp_FinalBits sha256.wp_FinalBits sha512.wp_FinalBits, auto simp: absorbed_block finished_block))

lemma wp_USHAResult:
  assumes "taken which m ctx" "USHAHashSize which \<le> length d"
    and Q: "\<And>ctx'. hashed which m 0 0 ctx' \<Longrightarrow> Q (shaSuccess, Some ctx', Some (put d 0 (sha which m))) w"
  shows "wp (USHAResult (Some ctx) (Some d)) Q w"
  unfolding USHAResult_def sha_results sha_sizes
  by (cases which; insert assms; simp add: usha_defs sha_def sha_bits_def USHAHashSize_def sha_sizes; (rule sha1.wp_Result sha256.wp_Result sha512.wp_Result, auto simp: absorbed_block finished_block))

lemma wp_USHAResult_hashed:
  assumes "hashed which m bits n ctx" "USHAHashSize which \<le> length d"
    and Q: "Q (shaSuccess, Some ctx, Some (put d 0 (sha_bits which m bits n))) w"
  shows "wp (USHAResult (Some ctx) (Some d)) Q w"
  unfolding USHAResult_def sha_results sha_sizes
  by (cases which; insert assms; simp add: usha_defs sha_bits_def USHAHashSize_def sha_sizes; (rule sha1.wp_Result_finished sha256.wp_Result_finished sha512.wp_Result_finished, auto simp: absorbed_block finished_block))

section \<open>Digests\<close>

text \<open>A message taken in piece by piece; the codes that the calls return are kept.\<close>

fun feed :: "USHAContext option \<Rightarrow> u8 list list \<Rightarrow> (int list \<times> USHAContext option) cm" where
  "feed handle [] = ret ([], handle)"
| "feed handle (x # xs) = do {
     (e, h) \<leftarrow> USHAInput handle (Some x) (length x);
     (es, h') \<leftarrow> feed h xs;
     ret (e # es, h')
   }"

lemma wp_feed:
  assumes "taken which m ctx" "8 * (length m + length (concat xs)) < max_bits which"
    and "\<And>ctx'. taken which (m @ concat xs) ctx' \<Longrightarrow> Q (replicate (length xs) shaSuccess, Some ctx') w"
  shows "wp (feed (Some ctx) xs) Q w"
  using assms
proof (induction xs arbitrary: m ctx Q)
  case (Cons x xs)
  show ?case
    unfolding feed.simps wp_bind
  proof (rule wp_USHAInput [OF Cons.prems(1)])
    fix ctx' assume "taken which (m @ take (length x) x) ctx'"
    then have "wp (feed (Some ctx') xs) (\<lambda>(es, h'). Q (shaSuccess # es, h')) w"
      by (intro Cons.IH [of "m @ x"]) (use Cons.prems(2,3) in simp_all)
    then show "wp (case (shaSuccess, Some ctx') of (e, h) \<Rightarrow> State_Monad.bind (feed h xs) (\<lambda>(es, h'). ret (e # es, h'))) Q w"
      by (simp add: wp_prod_fun)
  qed (use Cons.prems(2) in simp_all)
qed simp

definition hash_pieces :: "USHAContext \<Rightarrow> SHAversion \<Rightarrow> u8 list list \<Rightarrow> u8 \<Rightarrow> nat \<Rightarrow> u8 list \<Rightarrow> (int list \<times> u8 list option) cm" where
  "hash_pieces ctx which xs bits n d = (case USHAReset (Some ctx) which of (e0, h0) \<Rightarrow> do {
     (es, h1) \<leftarrow> feed h0 xs;
     (e2, h2) \<leftarrow> USHAFinalBits h1 bits n;
     (e3, h3, d') \<leftarrow> USHAResult h2 (Some d);
     ret (e0 # es @ [e2, e3], d')
   })"

lemma FinalBits_none: "USHAFinalBits (Some ctx) bits 0 = ret (shaSuccess, Some ctx)"
  by (simp add: USHAFinalBits_def sha_final_bits FinalBits_def on_sha1_def on_sha256_def on_sha512_def split: SHAversion.split)

lemma sha_bits_none: "sha_bits which m bits 0 = sha which m"
  by (simp add: sha_def sha_bits_def md_pad_def last_byte_masks masks_def split: SHAversion.split)

text \<open>C15. A digest taken through \<open>USHAReset\<close>, any number of calls of \<open>USHAInput\<close> and of \<open>USHAFinalBits\<close> with up to seven more bits, and
  \<open>USHAResult\<close> is the digest that FIPS 180-4 defines for the message, whatever the context held before and however the message is cut:
  no call faults, none allocates, all report success, and the digest stands at the start of the caller's array, whose other bytes are
  kept. The length of the message is bounded by what the standard's length field holds.\<close>

theorem usha_digest:
  assumes "usha_arrays ctx" "USHAHashSize which \<le> length d" "n < 8" "8 * length (concat xs) + n < max_bits which"
  shows "run_state (hash_pieces ctx which xs bits n d) w =
    ((replicate (length xs + 3) shaSuccess, Some (put d 0 (sha_bits which (concat xs) bits n))), w)"
proof -
  obtain ctx0 where r: "USHAReset (Some ctx) which = (shaSuccess, Some ctx0)" "taken which [] ctx0" using USHAReset_taken [OF assms(1)] by metis
  let ?P = "\<lambda>r w'. r = (replicate (length xs + 3) shaSuccess, Some (put d 0 (sha_bits which (concat xs) bits n))) \<and> w' = w"
  have "wp (hash_pieces ctx which xs bits n d) ?P w"
    unfolding hash_pieces_def r prod.case wp_bind
  proof (rule wp_feed [OF r(2)])
    fix ctx1 assume t: "taken which ([] @ concat xs) ctx1"
    have codes: "shaSuccess # replicate k shaSuccess @ [shaSuccess, shaSuccess] = replicate (k + 3) shaSuccess" for k
      by (induction k) (simp_all add: numeral_3_eq_3)
    have res: "wp (USHAResult (Some ctx2) (Some d)) (\<lambda>(e3, h3, d') w'. (shaSuccess # replicate (length xs) shaSuccess @ [shaSuccess, e3], d') =
        (replicate (length xs + 3) shaSuccess, Some (put d 0 (sha_bits which (concat xs) bits n))) \<and> w' = w) w"
      if "hashed which (concat xs) bits n ctx2 \<or> n = 0 \<and> taken which (concat xs) ctx2" for ctx2
      using that
    proof (elim disjE conjE)
      assume "hashed which (concat xs) bits n ctx2"
      then show ?thesis by (rule wp_USHAResult_hashed) (simp_all add: assms codes)
    next
      assume "taken which (concat xs) ctx2" and 0: "n = 0"
      then show ?thesis by - (rule wp_USHAResult, simp_all add: assms codes sha_bits_none)
    qed
    show "wp (case (replicate (length xs) shaSuccess, Some ctx1) of (es, h1) \<Rightarrow> do {
       (e2, h2) \<leftarrow> USHAFinalBits h1 bits n;
       (e3, h3, d') \<leftarrow> USHAResult h2 (Some d);
       ret (shaSuccess # es @ [e2, e3], d') }) ?P w"
    proof (cases "n = 0")
      case True
      then show ?thesis using t res [of ctx1] by (simp add: FinalBits_none wp_prod_fun)
    next
      case False
      then show ?thesis using t assms res by (simp add: wp_prod_fun) (rule wp_USHAFinalBits, auto simp: wp_prod_fun)
    qed
  qed (use assms in simp_all)
  then show ?thesis by (simp add: wp_def split: prod.splits)
qed

definition bare_world :: world where
  "bare_world = \<lparr>avail = [], live = 0, faults = 0\<rparr>"

definition blank :: "nat \<Rightarrow> ('l::len) word sha_context" where
  "blank bs = \<lparr>Intermediate_Hash = [], Length_Low = 0, Length_High = 0, Message_Block_Index = 0, Message_Block = replicate bs 0,
     Computed = False, Corrupted = 0\<rparr>"

definition blank_usha :: "SHAversion \<Rightarrow> USHAContext" where
  "blank_usha which = \<lparr>whichSha = which, sha1Context = blank 64, sha256Context = blank 64, sha512Context = blank 128\<rparr>"

lemma blank_arrays [simp]: "usha_arrays (blank_usha which)"
  by (simp add: usha_arrays_def blank_usha_def blank_def)

lemma usha_digest_witness:
  "run_state (hash_pieces (blank_usha SHA1) SHA224 [[0x61], [0x62, 0x63]] 0xA0 3 (replicate 32 7)) bare_world =
    ((replicate 5 shaSuccess, Some (put (replicate 32 7) 0 (sha_bits SHA224 [0x61, 0x62, 0x63] 0xA0 3))), bare_world)"
  using usha_digest [of "blank_usha SHA1" SHA224 "replicate 32 7" 3 "[[0x61], [0x62, 0x63]]" "0xA0" bare_world]
  by (simp add: USHAHashSize_def sha_sizes max_bits_def)

section \<open>Misuse\<close>

text \<open>The context that \<open>whichSha\<close> selects is marked with a code.\<close>

definition marked :: "int \<Rightarrow> USHAContext \<Rightarrow> bool" where
  "marked e ctx \<longleftrightarrow> usha_arrays ctx \<and> e = (case whichSha ctx of SHA1 \<Rightarrow> Corrupted (sha1Context ctx) | SHA224 \<Rightarrow> Corrupted (sha256Context ctx)
     | SHA256 \<Rightarrow> Corrupted (sha256Context ctx) | SHA384 \<Rightarrow> Corrupted (sha512Context ctx) | SHA512 \<Rightarrow> Corrupted (sha512Context ctx))"

lemma USHAResult_marked:
  assumes "marked e ctx" "e \<noteq> 0"
  shows "USHAResult (Some ctx) (Some d) = ret (e, Some ctx, Some d)"
  using assms by (cases "whichSha ctx") (simp_all add: marked_def USHAResult_def sha_results ResultN_def usha_defs)

lemma USHAInput_hashed:
  assumes "hashed which m bits n ctx" "0 < k"
  obtains ctx' where "USHAInput (Some ctx) (Some a) k = ret (shaStateError, Some ctx')" "marked shaStateError ctx'"
  using assms by (cases which) (auto simp: USHAInput_def sha_inputs Input_def usha_defs marked_def finished_def)

lemma USHAFinalBits_refused:
  assumes "hashed which m b j ctx \<and> 0 < n \<or> taken which m ctx \<and> 8 \<le> n"
  obtains ctx' where "USHAFinalBits (Some ctx) bits n = ret (shaStateError, Some ctx')" "marked shaStateError ctx'"
  using assms by (cases which) (auto simp: USHAFinalBits_def sha_final_bits FinalBits_def usha_defs marked_def finished_def absorbed_def)

text \<open>Once the digest is taken, more input is refused with \<open>shaStateError\<close> and spoils the context: \<open>USHAResult\<close> then returns
  \<open>shaStateError\<close> and leaves the caller's array alone, until \<open>USHAReset\<close>, after which the context is as fresh as any.\<close>

lemma usha_input_after_result:
  assumes "hashed which m bits n ctx" "0 < k"
  shows "\<exists>ctx'. run_state (USHAInput (Some ctx) (Some a) k) w = ((shaStateError, Some ctx'), w) \<and>
    run_state (USHAResult (Some ctx') (Some d)) w = ((shaStateError, Some ctx', Some d), w) \<and>
    (\<exists>ctx''. USHAReset (Some ctx') which' = (shaSuccess, Some ctx'') \<and> taken which' [] ctx'')"
proof -
  obtain ctx' where c: "USHAInput (Some ctx) (Some a) k = ret (shaStateError, Some ctx')" "marked shaStateError ctx'"
    using USHAInput_hashed [OF assms] .
  moreover obtain ctx'' where "USHAReset (Some ctx') which' = (shaSuccess, Some ctx'')" "taken which' [] ctx''"
    using USHAReset_taken c(2) by (metis marked_def)
  ultimately show ?thesis using USHAResult_marked [OF c(2)] by (auto simp: sha_codes)
qed

definition used_usha :: USHAContext where
  "used_usha = (blank_usha SHA1)\<lparr>sha1Context := (blank 64)\<lparr>Intermediate_Hash := chain compress1 64 SHA1_H0 (md_pad 64 8 [1] 0 0), Computed := True\<rparr>\<rparr>"

text \<open>A byte that overflows the 64-bit count of a SHA-256 message is accepted with \<open>shaSuccess\<close>, and \<open>USHAResult\<close> then fails with
  \<open>shaNull\<close>, the code of a null pointer: no call returns \<open>shaInputTooLong\<close>.\<close>

lemma usha_too_long:
  assumes "usha_arrays ctx" "whichSha ctx = SHA256" "c = sha256Context ctx"
    and "\<not> Computed c" "Corrupted c = 0" "Message_Block_Index c < 64" "Length_Low c = 0xFFFFFFF8" "Length_High c = 0xFFFFFFFF"
  shows "\<exists>ctx'. run_state (USHAInput (Some ctx) (Some [v]) 1) w = ((shaSuccess, Some ctx'), w) \<and>
    run_state (USHAResult (Some ctx') (Some d)) w = ((shaNull, Some ctx', Some d), w)"
proof -
  define c' where "c' = c\<lparr>Message_Block := (Message_Block c)[Message_Block_Index c := v], Message_Block_Index := Message_Block_Index c + 1,
    Length_Low := 0, Length_High := 0, Corrupted := 1\<rparr>"
  let ?ctx = "ctx\<lparr>sha256Context := c'\<rparr>"
  have "wp (USHAInput (Some ctx) (Some [v]) 1) (\<lambda>r w'. r = (shaSuccess, Some ?ctx) \<and> w' = w) w"
    using assms by (simp add: USHAInput_def sha_inputs Input_def put_byte_def AddLength_def byte_mask c'_def usha_defs Let_def numeral_nat(1))
  then have 1: "run_state (USHAInput (Some ctx) (Some [v]) 1) w = ((shaSuccess, Some ?ctx), w)" by (simp add: wp_def split: prod.splits)
  have "marked 1 ?ctx" using assms by (simp add: marked_def usha_arrays_def c'_def)
  then show ?thesis using 1 USHAResult_marked [of 1 ?ctx d] by (simp add: shaNull_def)
qed

definition full_usha :: USHAContext where
  "full_usha = (blank_usha SHA256)\<lparr>sha256Context := (blank 64)\<lparr>Length_Low := 0xFFFFFFF8, Length_High := 0xFFFFFFFF, Message_Block_Index := 63\<rparr>\<rparr>"

end
