(* ===== verification/Hmac.thy ===== *)
theory Hmac
  imports Usha Buffer
begin

text \<open>
  Keyed hashing: \<open>c-utility/src/hmac.c\<close> over the unified hash interface, and \<open>hmacsha256.c\<close> over it and the byte buffer. An automatic
  variable holds what was on the stack: it is an argument here, and the theorems are for every value of it. An \<open>int\<close> is an \<open>int\<close> of
  HOL, converted where the code converts.
\<close>

section \<open>Contexts and conversions\<close>

record HMACContext =
  hmacSha :: SHAversion
  hashSize :: nat
  blockSize :: nat
  shaContext :: USHAContext
  k_opad :: "u8 list"

text \<open>The local variables of \<open>hmacReset\<close>.\<close>

record hmac_locals =
  k_ipad :: "u8 list"
  tempkey :: "u8 list"
  tctx :: USHAContext

text \<open>An \<open>int\<close> passed as \<open>unsigned int\<close>, a \<open>size_t\<close> cast to \<open>int\<close>, and the value of \<open>e || ...\<close>.\<close>

definition to_unsigned :: "int \<Rightarrow> nat" where
  "to_unsigned i = nat (i mod 4294967296)"

definition to_int :: "nat \<Rightarrow> int" where
  "to_int n = (if n < 2147483648 then int n else int n - 4294967296)"

definition c_truth :: "int \<Rightarrow> int" where
  "c_truth e = (if e \<noteq> 0 then 1 else 0)"

definition on_hmac :: "HMACContext \<Rightarrow> USHAContext option \<Rightarrow> HMACContext" where
  "on_hmac ctx s = (case s of None \<Rightarrow> ctx | Some x \<Rightarrow> ctx\<lparr>shaContext := x\<rparr>)"

section \<open>The operations\<close>

text \<open>\<open>USHAReset (..) || USHAInput (..) || USHAResult (..)\<close> on the temporary context.\<close>

definition hash_key :: "hmac_locals \<Rightarrow> SHAversion \<Rightarrow> u8 list option \<Rightarrow> int \<Rightarrow> (int \<times> u8 list option) cm" where
  "hash_key loc which key key_len =
     (case USHAReset (Some (tctx loc)) which of (e1, t1) \<Rightarrow>
        if e1 \<noteq> 0 then ret (1, Some (tempkey loc))
        else do {
          (e2, t2) \<leftarrow> USHAInput t1 key (to_unsigned key_len);
          if e2 \<noteq> 0 then ret (1, Some (tempkey loc))
          else do { (e3, t3, d) \<leftarrow> USHAResult t2 (Some (tempkey loc)); ret (c_truth e3, d) }
        })"

fun pad_key :: "u8 list option \<Rightarrow> u8 list \<Rightarrow> u8 list \<Rightarrow> nat \<Rightarrow> nat \<Rightarrow> (u8 list \<times> u8 list) cm" where
  "pad_key key ip op i 0 = ret (ip, op)"
| "pad_key key ip op i (Suc n) = do {
     v \<leftarrow> c_load (blk key) i;
     ip' \<leftarrow> c_store ip i (v XOR 0x36);
     op' \<leftarrow> c_store op i (v XOR 0x5C);
     pad_key key ip' op' (Suc i) n
   }"

fun pad_rest :: "u8 list \<Rightarrow> u8 list \<Rightarrow> nat \<Rightarrow> nat \<Rightarrow> (u8 list \<times> u8 list) cm" where
  "pad_rest ip op i 0 = ret (ip, op)"
| "pad_rest ip op i (Suc n) = do {
     ip' \<leftarrow> c_store ip i 0x36;
     op' \<leftarrow> c_store op i 0x5C;
     pad_rest ip' op' (Suc i) n
   }"

definition hmacReset ::
  "HMACContext option \<Rightarrow> SHAversion \<Rightarrow> u8 list option \<Rightarrow> int \<Rightarrow> hmac_locals \<Rightarrow> (int \<times> HMACContext option) cm" where
  "hmacReset ctx which key key_len loc =
     (case ctx of
        None \<Rightarrow> ret (shaNull, None)
      | Some c0 \<Rightarrow> do {
          let blocksize = USHABlockSize which;
          let hashsize = USHAHashSize which;
          let c1 = c0\<lparr>hmacSha := which, hashSize := hashsize, blockSize := blocksize\<rparr>;
          (err, key', key_len') \<leftarrow>
            (if key_len > int blocksize then do { (e, k) \<leftarrow> hash_key loc which key key_len; ret (e, k, int hashsize) }
             else ret (shaSuccess, key, key_len));
          if err \<noteq> shaSuccess then ret (err, Some c1)
          else do {
            (ip1, op1) \<leftarrow> pad_key key' (k_ipad loc) (k_opad c1) 0 (nat key_len');
            (ip2, op2) \<leftarrow> pad_rest ip1 op1 (nat key_len') (blocksize - nat key_len');
            (case USHAReset (Some (shaContext c1)) which of (e1, s1) \<Rightarrow>
               if e1 \<noteq> 0 then ret (1, Some (on_hmac (c1\<lparr>k_opad := op2\<rparr>) s1))
               else do {
                 (e2, s2) \<leftarrow> USHAInput s1 (Some ip2) blocksize;
                 ret (c_truth e2, Some (on_hmac (c1\<lparr>k_opad := op2\<rparr>) s2))
               })
          }
        })"

definition hmacInput :: "HMACContext option \<Rightarrow> u8 list option \<Rightarrow> int \<Rightarrow> (int \<times> HMACContext option) cm" where
  "hmacInput ctx t text_len =
     (case ctx of
        None \<Rightarrow> ret (shaNull, None)
      | Some c \<Rightarrow> do { (e, s) \<leftarrow> USHAInput (Some (shaContext c)) t (to_unsigned text_len); ret (e, Some (on_hmac c s)) })"

definition hmacFinalBits :: "HMACContext option \<Rightarrow> u8 \<Rightarrow> nat \<Rightarrow> (int \<times> HMACContext option) cm" where
  "hmacFinalBits ctx bits bitcount =
     (case ctx of
        None \<Rightarrow> ret (shaNull, None)
      | Some c \<Rightarrow> do { (e, s) \<leftarrow> USHAFinalBits (Some (shaContext c)) bits bitcount; ret (e, Some (on_hmac c s)) })"

definition hmacResult :: "HMACContext option \<Rightarrow> u8 list option \<Rightarrow> (int \<times> HMACContext option \<times> u8 list option) cm" where
  "hmacResult ctx digest =
     (case ctx of
        None \<Rightarrow> ret (shaNull, None, digest)
      | Some c \<Rightarrow> do {
          (e1, s1, d1) \<leftarrow> USHAResult (Some (shaContext c)) digest;
          if e1 \<noteq> 0 then ret (1, Some (on_hmac c s1), d1)
          else (case USHAReset s1 (hmacSha c) of (e2, s2) \<Rightarrow>
            if e2 \<noteq> 0 then ret (1, Some (on_hmac c s2), d1)
            else do {
              (e3, s3) \<leftarrow> USHAInput s2 (Some (k_opad c)) (blockSize c);
              if e3 \<noteq> 0 then ret (1, Some (on_hmac c s3), d1)
              else do {
                (e4, s4) \<leftarrow> USHAInput s3 d1 (hashSize c);
                if e4 \<noteq> 0 then ret (1, Some (on_hmac c s4), d1)
                else do {
                  (e5, s5, d2) \<leftarrow> USHAResult s4 d1;
                  ret (c_truth e5, Some (on_hmac c s5), d2)
                }
              }
            })
        })"

definition hmac ::
  "SHAversion \<Rightarrow> u8 list option \<Rightarrow> int \<Rightarrow> u8 list option \<Rightarrow> int \<Rightarrow> u8 list option \<Rightarrow> HMACContext \<Rightarrow> hmac_locals
    \<Rightarrow> (int \<times> u8 list option) cm" where
  "hmac which t text_len key key_len digest ctx loc = do {
     (e1, c1) \<leftarrow> hmacReset (Some ctx) which key key_len loc;
     if e1 \<noteq> 0 then ret (1, digest)
     else do {
       (e2, c2) \<leftarrow> hmacInput c1 t text_len;
       if e2 \<noteq> 0 then ret (1, digest)
       else do { (e3, c3, d) \<leftarrow> hmacResult c2 digest; ret (c_truth e3, d) }
     }
   }"

datatype HMACSHA256_RESULT = HMACSHA256_OK | HMACSHA256_INVALID_ARG | HMACSHA256_ERROR

text \<open>The pointer that \<open>BUFFER_u_char\<close> gives leads into the buffer: what is written through it is in the buffer.\<close>

definition write_through :: "BUFFER option \<Rightarrow> u8 list option \<Rightarrow> BUFFER option" where
  "write_through hash d = (case (BUFFER_u_char hash, hash) of (Some _, Some b) \<Rightarrow> Some (b\<lparr>buffer := d\<rparr>) | _ \<Rightarrow> hash)"

definition HMACSHA256_ComputeHash ::
  "u8 list option \<Rightarrow> nat \<Rightarrow> u8 list option \<Rightarrow> nat \<Rightarrow> BUFFER option \<Rightarrow> HMACContext \<Rightarrow> hmac_locals
    \<Rightarrow> (HMACSHA256_RESULT \<times> BUFFER option) cm" where
  "HMACSHA256_ComputeHash key keyLen payload payloadLen hash ctx loc =
     (if key = None \<or> keyLen = 0 \<or> payload = None \<or> payloadLen = 0 \<or> hash = None then ret (HMACSHA256_INVALID_ARG, hash)
      else do {
        (e1, hash1) \<leftarrow> BUFFER_enlarge hash 32;
        if e1 \<noteq> 0 then ret (HMACSHA256_ERROR, hash1)
        else do {
          (e2, d) \<leftarrow> hmac SHA256 payload (to_int payloadLen) key (to_int keyLen) (BUFFER_u_char hash1) ctx loc;
          ret (if e2 \<noteq> 0 then HMACSHA256_ERROR else HMACSHA256_OK, write_through hash1 d)
        }
      })"

section \<open>The padded key\<close>

lemma wp_pad_key:
  assumes "i + n \<le> length (blk key)" "i + n \<le> length ip" "i + n \<le> length op"
  shows "wp (pad_key key ip op i n) Q w =
    Q (put ip i (map (\<lambda>v. v XOR 0x36) (take n (drop i (blk key)))), put op i (map (\<lambda>v. v XOR 0x5C) (take n (drop i (blk key))))) w"
  using assms
proof (induction n arbitrary: i ip op)
  case (Suc n)
  then have "take (Suc n) (drop i (blk key)) = blk key ! i # take n (drop (Suc i) (blk key))"
    by (simp add: Cons_nth_drop_Suc [symmetric])
  then show ?case using Suc by (simp add: list_update_put)
qed simp

lemma wp_pad_rest:
  assumes "i + n \<le> length ip" "i + n \<le> length op"
  shows "wp (pad_rest ip op i n) Q w = Q (put ip i (replicate n 0x36), put op i (replicate n 0x5C)) w"
  using assms by (induction n arbitrary: i ip op) (simp_all add: list_update_put)

lemma pads:
  assumes "length k = n" "n \<le> bs" "bs \<le> length a"
  shows "take bs (put (put a 0 (map f k)) n (replicate (bs - n) c)) = map f k @ replicate (bs - n) c"
    "length (put (put a 0 (map f k)) n (replicate (bs - n) c)) = length a"
  using assms by (simp_all add: put_def)

section \<open>The state of a keyed hash\<close>

definition hmac_arrays :: "HMACContext \<Rightarrow> bool" where
  "hmac_arrays ctx \<longleftrightarrow> length (k_opad ctx) = 128 \<and> usha_arrays (shaContext ctx)"

definition locals_arrays :: "hmac_locals \<Rightarrow> bool" where
  "locals_arrays loc \<longleftrightarrow> length (k_ipad loc) = 128 \<and> length (tempkey loc) = 64 \<and> usha_arrays (tctx loc)"

definition inner_pad :: "SHAversion \<Rightarrow> u8 list \<Rightarrow> u8 list" where
  "inner_pad which k = map (\<lambda>v. v XOR 0x36) (hmac_key which k)"

definition outer_pad :: "SHAversion \<Rightarrow> u8 list \<Rightarrow> u8 list" where
  "outer_pad which k = map (\<lambda>v. v XOR 0x5C) (hmac_key which k)"

text \<open>HMAC of a message with \<open>n\<close> more bits.\<close>

definition hmac_bits :: "SHAversion \<Rightarrow> u8 list \<Rightarrow> u8 list \<Rightarrow> u8 \<Rightarrow> nat \<Rightarrow> u8 list" where
  "hmac_bits which k m bits n = sha which (outer_pad which k @ sha_bits which (inner_pad which k @ m) bits n)"

lemma hmac_bits_none: "hmac_bits which k m bits 0 = hmac_spec which k m"
  by (simp add: hmac_bits_def hmac_spec_def sha_bits_none inner_pad_def outer_pad_def)

text \<open>A context with the key \<open>k\<close> that has taken in the message \<open>m\<close>, and one that has taken in the last bits too.\<close>

definition with_key :: "SHAversion \<Rightarrow> u8 list \<Rightarrow> HMACContext \<Rightarrow> bool" where
  "with_key which k ctx \<longleftrightarrow> hmacSha ctx = which \<and> hashSize ctx = USHAHashSize which \<and> blockSize ctx = USHABlockSize which \<and>
     length (k_opad ctx) = 128 \<and> take (USHABlockSize which) (k_opad ctx) = outer_pad which k"

definition keyed :: "SHAversion \<Rightarrow> u8 list \<Rightarrow> u8 list \<Rightarrow> HMACContext \<Rightarrow> bool" where
  "keyed which k m ctx \<longleftrightarrow> with_key which k ctx \<and> taken which (inner_pad which k @ m) (shaContext ctx)"

definition sealed :: "SHAversion \<Rightarrow> u8 list \<Rightarrow> u8 list \<Rightarrow> u8 \<Rightarrow> nat \<Rightarrow> HMACContext \<Rightarrow> bool" where
  "sealed which k m bits n ctx \<longleftrightarrow> with_key which k ctx \<and> hashed which (inner_pad which k @ m) bits n (shaContext ctx)"

lemma sizes_le [simp]: "USHAHashSize which \<le> USHABlockSize which" "USHABlockSize which \<le> 128" "USHAHashSize which \<le> 64"
  "64 \<le> USHABlockSize which"
  by (simp_all add: USHAHashSize_def USHABlockSize_def sha_sizes split: SHAversion.split)

lemma length_sha [simp]: "length (sha_bits which m bits n) = USHAHashSize which" "length (sha which m) = USHAHashSize which"
  by (simp_all add: sha_def sha_bits_def hash_bytes_def length_concat_map USHAHashSize_def sha_sizes split: SHAversion.split)

lemma length_pads [simp]: "length (inner_pad which k) = USHABlockSize which" "length (outer_pad which k) = USHABlockSize which"
  by (simp_all add: inner_pad_def outer_pad_def hmac_key_def Let_def)

lemma max_bits_ge: "18446744073709551616 \<le> max_bits which"
  by (simp add: max_bits_def split: SHAversion.split)

lemma block_small:
  assumes "n \<le> 4294967296"
  shows "8 * (USHABlockSize which + n) < max_bits which"
proof -
  have "8 * (USHABlockSize which + n) \<le> 8 * (128 + 4294967296)" by (intro mult_le_mono add_mono) (simp_all add: assms)
  also have "\<dots> < 18446744073709551616" by simp
  also have "\<dots> \<le> max_bits which" by (rule max_bits_ge)
  finally show ?thesis .
qed

lemma wp_hash_key:
  assumes "locals_arrays loc" "0 \<le> n" "nat n \<le> length k" "n < 2147483648"
  shows "wp (hash_key loc which (Some k) n) Q w = Q (0, Some (put (tempkey loc) 0 (sha which (take (nat n) k)))) w" (is "_ = ?R")
proof -
  obtain t where t: "USHAReset (Some (tctx loc)) which = (shaSuccess, Some t)" "taken which [] t"
    using USHAReset_taken assms(1) by (metis locals_arrays_def)
  have u: "to_unsigned n = nat n" using assms by (simp add: to_unsigned_def)
  have "wp (hash_key loc which (Some k) n) (\<lambda>r w'. r = (0, Some (put (tempkey loc) 0 (sha which (take (nat n) k)))) \<and> w' = w) w"
    unfolding hash_key_def t prod.case u using assms max_bits_ge [of which]
    by (auto simp: sha_codes wp_prod_fun c_truth_def locals_arrays_def intro!: wp_USHAInput [OF t(2)] wp_USHAResult
      order_trans [OF sizes_le(3)])
  then show ?thesis by (auto simp: wp_def split: prod.splits)
qed

text \<open>The key as the pads take it: itself, or its digest when it is longer than a block.\<close>

definition short_key :: "SHAversion \<Rightarrow> u8 list \<Rightarrow> u8 list" where
  "short_key which k = (if length k > USHABlockSize which then sha which k else k)"

lemma short_key_le: "length (short_key which k) \<le> USHABlockSize which"
  by (simp add: short_key_def)

lemma pads_of_short_key:
  "inner_pad which k = map (\<lambda>v. v XOR 0x36) (short_key which k) @ replicate (USHABlockSize which - length (short_key which k)) 0x36"
  "outer_pad which k = map (\<lambda>v. v XOR 0x5C) (short_key which k) @ replicate (USHABlockSize which - length (short_key which k)) 0x5C"
  by (simp_all add: inner_pad_def outer_pad_def hmac_key_def short_key_def Let_def)

lemma wp_start:
  assumes "hmac_arrays ctx" "length ip = 128" "n \<le> length (blk key)" "take n (blk key) = short_key which k"
    and Q: "\<And>ctx'. keyed which k [] ctx' \<Longrightarrow> Q (0, Some ctx') w"
  defines "c1 \<equiv> ctx\<lparr>hmacSha := which, hashSize := USHAHashSize which, blockSize := USHABlockSize which\<rparr>"
  shows "wp (do {
     (ip1, op1) \<leftarrow> pad_key key ip (k_opad c1) 0 n;
     (ip2, op2) \<leftarrow> pad_rest ip1 op1 n (USHABlockSize which - n);
     (case USHAReset (Some (shaContext c1)) which of (e1, s1) \<Rightarrow>
        if e1 \<noteq> 0 then ret (1, Some (on_hmac (c1\<lparr>k_opad := op2\<rparr>) s1))
        else do {
          (e2, s2) \<leftarrow> USHAInput s1 (Some ip2) (USHABlockSize which);
          ret (c_truth e2, Some (on_hmac (c1\<lparr>k_opad := op2\<rparr>) s2))
        }) }) Q w"
proof -
  let ?bs = "USHABlockSize which"
  let ?ip = "put (put ip 0 (map (\<lambda>v. v XOR 0x36) (short_key which k))) n (replicate (?bs - n) 0x36)"
  let ?op = "put (put (k_opad ctx) 0 (map (\<lambda>v. v XOR 0x5C) (short_key which k))) n (replicate (?bs - n) 0x5C)"
  have n: "n = length (short_key which k)" using arg_cong [OF assms(4), of length] assms(3) by simp
  then have le: "n \<le> ?bs" using short_key_le [of which k] by simp
  have bs: "?bs \<le> 128" by simp
  have o: "length (k_opad ctx) = 128" using assms(1) by (simp add: hmac_arrays_def)
  have ip: "take ?bs ?ip = inner_pad which k" "length ?ip = 128"
    using pads [of "short_key which k" n ?bs ip] n le assms(2) by (simp_all add: pads_of_short_key)
  have op: "take ?bs ?op = outer_pad which k" "length ?op = 128"
    using pads [of "short_key which k" n ?bs "k_opad ctx"] n le o by (simp_all add: pads_of_short_key)
  have lp: "length (put a 0 (map f (short_key which k))) = 128" if "length a = 128" for a and f :: "u8 \<Rightarrow> u8"
    using that n le_trans [OF le bs] by (simp add: put_0)
  obtain s where s: "USHAReset (Some (shaContext ctx)) which = (shaSuccess, Some s)" "taken which [] s"
    using USHAReset_taken assms(1) by (metis hmac_arrays_def)
  have k1: "wp (pad_key key ip (k_opad ctx) 0 n) R w =
      R (put ip 0 (map (\<lambda>v. v XOR 0x36) (short_key which k)), put (k_opad ctx) 0 (map (\<lambda>v. v XOR 0x5C) (short_key which k))) w" for R
    using wp_pad_key [of 0 n key ip "k_opad ctx"] assms(2-4) le bs o by simp
  have k2: "wp (pad_rest (put ip 0 (map (\<lambda>v. v XOR 0x36) (short_key which k)))
      (put (k_opad ctx) 0 (map (\<lambda>v. v XOR 0x5C) (short_key which k))) n (?bs - n)) R w = R (?ip, ?op) w" for R
    by (rule wp_pad_rest) (use lp [OF assms(2)] lp [OF o] le bs in simp_all)
  have "wp (USHAInput (Some s) (Some ?ip) ?bs) (\<lambda>(e2, s2). Q (c_truth e2, Some (on_hmac (c1\<lparr>k_opad := ?op\<rparr>) s2))) w"
  proof (rule wp_USHAInput [OF s(2)])
    fix s' assume "taken which ([] @ take ?bs ?ip) s'"
    then have "keyed which k [] (c1\<lparr>k_opad := ?op, shaContext := s'\<rparr>)"
      using ip op by (simp add: keyed_def with_key_def c1_def)
    then show "(case (shaSuccess, Some s') of (e2, s2) \<Rightarrow> Q (c_truth e2, Some (on_hmac (c1\<lparr>k_opad := ?op\<rparr>) s2))) w"
      by (simp add: Q c_truth_def sha_codes on_hmac_def)
  qed (use ip block_small [of 0 which] in simp_all)
  then show ?thesis
    by (simp add: c1_def k1 k2 s sha_codes wp_prod_fun)
qed

lemma wp_hmacReset:
  assumes "hmac_arrays ctx" "locals_arrays loc" "0 \<le> n" "nat n \<le> length k" "n < 2147483648"
    and Q: "\<And>ctx'. keyed which (take (nat n) k) [] ctx' \<Longrightarrow> Q (0, Some ctx') w"
  shows "wp (hmacReset (Some ctx) which (Some k) n loc) Q w"
proof (cases "n > int (USHABlockSize which)")
  case True
  then have "USHABlockSize which < length (take (nat n) k)" using assms(4) by simp
  then have "short_key which (take (nat n) k) = sha which (take (nat n) k)" by (simp add: short_key_def)
  then have "take (USHAHashSize which) (put (tempkey loc) 0 (sha which (take (nat n) k))) = short_key which (take (nat n) k)"
    by (simp add: put_def)
  then show ?thesis
    unfolding hmacReset_def option.case Let_def
    using assms True wp_start [of ctx "k_ipad loc" "USHAHashSize which" "Some (put (tempkey loc) 0 (sha which (take (nat n) k)))" which "take (nat n) k" Q w]
    by (simp add: wp_hash_key wp_prod_fun sha_codes locals_arrays_def)
next
  case False
  then have "\<not> USHABlockSize which < length (take (nat n) k)" using assms(3,4) by simp
  then have "take (nat n) k = short_key which (take (nat n) k)" by (simp only: short_key_def if_False)
  then show ?thesis
    unfolding hmacReset_def option.case Let_def
    using assms wp_start [of ctx "k_ipad loc" "nat n" "Some k" which "take (nat n) k" Q w]
    False by (simp add: sha_codes locals_arrays_def)
qed

lemma wp_hmacInput:
  assumes "keyed which k m ctx" "0 \<le> n" "n < 2147483648" "nat n \<le> length t" "8 * (USHABlockSize which + length m + nat n) < max_bits which"
    and Q: "\<And>ctx'. keyed which k (m @ take (nat n) t) ctx' \<Longrightarrow> Q (shaSuccess, Some ctx') w"
  shows "wp (hmacInput (Some ctx) (Some t) n) Q w"
proof -
  have u: "to_unsigned n = nat n" using assms by (simp add: to_unsigned_def)
  have "wp (USHAInput (Some (shaContext ctx)) (Some t) (nat n)) (\<lambda>(e, s). Q (e, Some (on_hmac ctx s))) w"
    by (rule wp_USHAInput [of which "inner_pad which k @ m"])
      (use assms in \<open>auto simp: keyed_def with_key_def on_hmac_def add.assoc intro!: Q\<close>)
  then show ?thesis by (simp add: hmacInput_def u wp_prod_fun)
qed

lemma wp_hmacFinalBits:
  assumes "keyed which k m ctx" "0 < n" "n < 8" "8 * (USHABlockSize which + length m) + n < max_bits which"
    and Q: "\<And>ctx'. sealed which k m bits n ctx' \<Longrightarrow> Q (shaSuccess, Some ctx') w"
  shows "wp (hmacFinalBits (Some ctx) bits n) Q w"
proof -
  have "wp (USHAFinalBits (Some (shaContext ctx)) bits n) (\<lambda>(e, s). Q (e, Some (on_hmac ctx s))) w"
    by (rule wp_USHAFinalBits [of which "inner_pad which k @ m"])
      (use assms in \<open>auto simp: keyed_def sealed_def with_key_def on_hmac_def intro!: Q\<close>)
  then show ?thesis by (simp add: hmacFinalBits_def wp_prod_fun)
qed

text \<open>The outer hash, from the digest of the inner one.\<close>

lemma wp_hmacResult:
  assumes k: "with_key which k ctx" and d: "USHAHashSize which \<le> length d"
    and inner: "\<And>R. (\<And>s. usha_arrays s \<Longrightarrow> R (shaSuccess, Some s, Some (put d 0 h)) w) \<Longrightarrow>
      wp (USHAResult (Some (shaContext ctx)) (Some d)) R w"
    and h: "length h = USHAHashSize which"
    and Q: "\<And>ctx'. Q (0, Some ctx', Some (put d 0 (sha which (outer_pad which k @ h)))) w"
  shows "wp (hmacResult (Some ctx) (Some d)) Q w"
proof -
  let ?d = "put d 0 h" and ?f = "put d 0 (sha which (outer_pad which k @ h))"
  have c: "hmacSha ctx = which" "hashSize ctx = USHAHashSize which" "blockSize ctx = USHABlockSize which"
    "take (USHABlockSize which) (k_opad ctx) = outer_pad which k" "length (k_opad ctx) = 128"
    using k by (simp_all add: with_key_def)
  have d': "length ?d = length d" "take (USHAHashSize which) ?d = h" using d h by (simp_all add: put_0)
  have ff: "put ?d 0 (sha which (outer_pad which k @ h)) = ?f" using h by (simp add: put_0)
  have last: "wp (USHAResult (Some s4) (Some ?d)) (\<lambda>(e5, s5, d2). Q (c_truth e5, Some (on_hmac ctx s5), d2)) w"
    if "taken which (outer_pad which k @ h) s4" for s4
    using that by (rule wp_USHAResult) (use d d' ff Q in \<open>simp_all add: c_truth_def sha_codes\<close>)
  have outer: "wp (USHAInput (Some s3) (Some ?d) (USHAHashSize which)) (\<lambda>(e4, s4).
      wp (if e4 \<noteq> 0 then ret (1, Some (on_hmac ctx s4), Some ?d)
        else do { (e5, s5, d2) \<leftarrow> USHAResult s4 (Some ?d); ret (c_truth e5, Some (on_hmac ctx s5), d2) }) Q) w"
    if "taken which (outer_pad which k) s3" for s3
    using that by (rule wp_USHAInput) (use d d' last block_small [of "USHAHashSize which" which] order_trans [OF sizes_le(3)] in \<open>simp_all add: sha_codes wp_prod_fun\<close>)
  show ?thesis
    unfolding hmacResult_def option.case wp_bind
  proof (rule inner)
    fix s1 assume "usha_arrays s1"
    then obtain s2 where s2: "USHAReset (Some s1) which = (shaSuccess, Some s2)" "taken which [] s2"
      using USHAReset_taken by metis
    show "wp (case (shaSuccess, Some s1, Some ?d) of (e1, s1, d1) \<Rightarrow>
       if e1 \<noteq> 0 then ret (1, Some (on_hmac ctx s1), d1)
       else (case USHAReset s1 (hmacSha ctx) of (e2, s2) \<Rightarrow>
         if e2 \<noteq> 0 then ret (1, Some (on_hmac ctx s2), d1)
         else do {
           (e3, s3) \<leftarrow> USHAInput s2 (Some (k_opad ctx)) (blockSize ctx);
           if e3 \<noteq> 0 then ret (1, Some (on_hmac ctx s3), d1)
           else do {
             (e4, s4) \<leftarrow> USHAInput s3 d1 (hashSize ctx);
             if e4 \<noteq> 0 then ret (1, Some (on_hmac ctx s4), d1)
             else do {
               (e5, s5, d2) \<leftarrow> USHAResult s4 d1;
               ret (c_truth e5, Some (on_hmac ctx s5), d2)
             }
           }
         })) Q w"
      using c block_small [of 0 which] outer
      by (simp add: s2 sha_codes) (rule wp_USHAInput [OF s2(2)], simp_all add: sha_codes wp_prod_fun)
  qed
qed

lemma wp_hmacResult_keyed:
  assumes "keyed which k m ctx" "USHAHashSize which \<le> length d"
    and "\<And>ctx'. Q (0, Some ctx', Some (put d 0 (hmac_spec which k m))) w"
  shows "wp (hmacResult (Some ctx) (Some d)) Q w"
proof (rule wp_hmacResult [where h = "sha which (inner_pad which k @ m)" and which = which and k = k])
  fix R assume "\<And>s. usha_arrays s \<Longrightarrow> R (shaSuccess, Some s, Some (put d 0 (sha which (inner_pad which k @ m)))) w"
  then show "wp (USHAResult (Some (shaContext ctx)) (Some d)) R w"
    using assms(1,2) by (auto simp: keyed_def hashed_def intro: wp_USHAResult)
qed (use assms hmac_bits_none in \<open>simp_all add: keyed_def hmac_bits_def sha_bits_none\<close>)

lemma wp_hmacResult_sealed:
  assumes "sealed which k m bits n ctx" "USHAHashSize which \<le> length d"
    and "\<And>ctx'. Q (0, Some ctx', Some (put d 0 (hmac_bits which k m bits n))) w"
  shows "wp (hmacResult (Some ctx) (Some d)) Q w"
proof (rule wp_hmacResult [where h = "sha_bits which (inner_pad which k @ m) bits n" and which = which and k = k])
  fix R assume "\<And>s. usha_arrays s \<Longrightarrow> R (shaSuccess, Some s, Some (put d 0 (sha_bits which (inner_pad which k @ m) bits n))) w"
  then show "wp (USHAResult (Some (shaContext ctx)) (Some d)) R w"
    using assms(1,2) by (auto simp: sealed_def hashed_def intro!: wp_USHAResult_hashed [of which "inner_pad which k @ m" bits n])
qed (use assms in \<open>simp_all add: sealed_def hmac_bits_def\<close>)

section \<open>Message authentication codes\<close>

fun hmac_feed :: "HMACContext option \<Rightarrow> u8 list list \<Rightarrow> (int list \<times> HMACContext option) cm" where
  "hmac_feed ctx [] = ret ([], ctx)"
| "hmac_feed ctx (x # xs) = do {
     (e, c) \<leftarrow> hmacInput ctx (Some x) (int (length x));
     (es, c') \<leftarrow> hmac_feed c xs;
     ret (e # es, c')
   }"

lemma wp_hmac_feed:
  assumes "keyed which k m ctx" "\<forall>x \<in> set xs. length x < 2147483648" "8 * (USHABlockSize which + length m + length (concat xs)) < max_bits which"
    and "\<And>ctx'. keyed which k (m @ concat xs) ctx' \<Longrightarrow> Q (replicate (length xs) shaSuccess, Some ctx') w"
  shows "wp (hmac_feed (Some ctx) xs) Q w"
  using assms
proof (induction xs arbitrary: m ctx Q)
  case (Cons x xs)
  show ?case
    unfolding hmac_feed.simps wp_bind
  proof (rule wp_hmacInput [OF Cons.prems(1)])
    fix ctx' assume "keyed which k (m @ take (nat (int (length x))) x) ctx'"
    then have "wp (hmac_feed (Some ctx') xs) (\<lambda>(es, c'). Q (shaSuccess # es, c')) w"
      by (intro Cons.IH [of "m @ x"]) (use Cons.prems(2-4) in \<open>simp_all add: add.assoc\<close>)
    then show "wp (case (shaSuccess, Some ctx') of (e, c) \<Rightarrow> State_Monad.bind (hmac_feed c xs) (\<lambda>(es, c'). ret (e # es, c'))) Q w"
      by (simp add: wp_prod_fun)
  qed (use Cons.prems(2,3) in simp_all)
qed simp

definition mac_pieces ::
  "HMACContext \<Rightarrow> hmac_locals \<Rightarrow> SHAversion \<Rightarrow> u8 list \<Rightarrow> u8 list list \<Rightarrow> u8 \<Rightarrow> nat \<Rightarrow> u8 list \<Rightarrow> (int list \<times> u8 list option) cm" where
  "mac_pieces ctx loc which k xs bits n d = do {
     (e0, c0) \<leftarrow> hmacReset (Some ctx) which (Some k) (int (length k)) loc;
     (es, c1) \<leftarrow> hmac_feed c0 xs;
     (e2, c2) \<leftarrow> hmacFinalBits c1 bits n;
     (e3, c3, d') \<leftarrow> hmacResult c2 (Some d);
     ret (e0 # es @ [e2, e3], d')
   }"

lemma hmacFinalBits_none: "hmacFinalBits (Some ctx) bits 0 = ret (shaSuccess, Some ctx)"
  by (simp add: hmacFinalBits_def FinalBits_none on_hmac_def)

text \<open>C16. \<open>hmacReset\<close>, any number of calls of \<open>hmacInput\<close> and of \<open>hmacFinalBits\<close> with up to seven more bits, and \<open>hmacResult\<close> compute the
  HMAC of RFC 2104 over the hash of FIPS 180-4: for every key, longer than a block or shorter, whatever the context and the automatic
  variables held before and however the message is cut. No call faults, all report success, and the caller's array, which is also
  the scratch space of the inner digest, keeps its other bytes.\<close>

theorem hmac_streamed:
  assumes "hmac_arrays ctx" "locals_arrays loc" "length k < 2147483648" "\<forall>x \<in> set xs. length x < 2147483648"
    and "8 * (USHABlockSize which + length (concat xs)) + n < max_bits which" "n < 8" "USHAHashSize which \<le> length d"
  shows "run_state (mac_pieces ctx loc which k xs bits n d) w =
    ((replicate (length xs + 3) 0, Some (put d 0 (hmac_bits which k (concat xs) bits n))), w)"
proof -
  let ?P = "\<lambda>r w'. r = (replicate (length xs + 3) 0, Some (put d 0 (hmac_bits which k (concat xs) bits n))) \<and> w' = w"
  have codes: "0 # replicate j 0 @ [0, 0] = replicate (j + 3) (0 :: int)" for j
    by (induction j) (simp_all add: numeral_3_eq_3)
  have res: "wp (hmacResult (Some c2) (Some d)) (\<lambda>(e3, h3, d') w'. (0 # replicate (length xs) 0 @ [0, e3], d') =
      (replicate (length xs + 3) 0, Some (put d 0 (hmac_bits which k (concat xs) bits n))) \<and> w' = w) w"
    if "sealed which k (concat xs) bits n c2 \<or> n = 0 \<and> keyed which k (concat xs) c2" for c2
    using that assms(7) codes by (auto intro: wp_hmacResult_sealed wp_hmacResult_keyed simp: hmac_bits_none)
  have final: "wp (hmacFinalBits (Some c1) bits n) (\<lambda>(e2, c2). wp (hmacResult c2 (Some d))
      (\<lambda>(e3, h3, d') w'. (0 # replicate (length xs) 0 @ [e2, e3], d') =
        (replicate (length xs + 3) 0, Some (put d 0 (hmac_bits which k (concat xs) bits n))) \<and> w' = w)) w"
    if "keyed which k (concat xs) c1" for c1
  proof (cases "n = 0")
    case True
    then show ?thesis using res [of c1] that by (simp add: hmacFinalBits_none sha_codes)
  next
    case False
    then show ?thesis using res that assms(5,6) by (intro wp_hmacFinalBits [OF that]) (simp_all add: sha_codes)
  qed
  have "wp (mac_pieces ctx loc which k xs bits n d) ?P w"
    unfolding mac_pieces_def wp_bind
  proof (rule wp_hmacReset [OF assms(1,2)])
    fix c0 assume "keyed which (take (nat (int (length k))) k) [] c0"
    then have "wp (hmac_feed (Some c0) xs) (\<lambda>(es, c1). wp (hmacFinalBits c1 bits n) (\<lambda>(e2, c2). wp (hmacResult c2 (Some d))
      (\<lambda>(e3, h3, d') w'. (0 # es @ [e2, e3], d') =
        (replicate (length xs + 3) 0, Some (put d 0 (hmac_bits which k (concat xs) bits n))) \<and> w' = w))) w"
      by (intro wp_hmac_feed [of which k "[]"]) (use assms(4,5) final in \<open>simp_all add: sha_codes\<close>)
    then show "wp (case (0, Some c0) of (e0, c0) \<Rightarrow> do {
     (es, c1) \<leftarrow> hmac_feed c0 xs;
     (e2, c2) \<leftarrow> hmacFinalBits c1 bits n;
     (e3, c3, d') \<leftarrow> hmacResult c2 (Some d);
     ret (e0 # es @ [e2, e3], d') }) ?P w"
      by (simp add: wp_prod_fun wp_bind_eta)
  qed (use assms(3) in simp_all)
  then show ?thesis by (simp add: wp_def split: prod.splits)
qed

definition blank_hmac :: HMACContext where
  "blank_hmac = \<lparr>hmacSha = SHA1, hashSize = 0, blockSize = 0, shaContext = blank_usha SHA1, k_opad = replicate 128 9\<rparr>"

definition blank_locals :: hmac_locals where
  "blank_locals = \<lparr>k_ipad = replicate 128 1, tempkey = replicate 64 2, tctx = blank_usha SHA1\<rparr>"

lemma blank_hmac_arrays [simp]: "hmac_arrays blank_hmac" "locals_arrays blank_locals"
  by (simp_all add: hmac_arrays_def locals_arrays_def blank_hmac_def blank_locals_def)

lemma hmac_streamed_witness:
  "run_state (mac_pieces blank_hmac blank_locals SHA384 (replicate 200 3) [[1], [2, 3]] 0 0 (replicate 64 4)) bare_world =
    ((replicate 5 0, Some (put (replicate 64 4) 0 (hmac_bits SHA384 (replicate 200 3) [1, 2, 3] 0 0))), bare_world)"
  using hmac_streamed [of blank_hmac blank_locals "replicate 200 3" "[[1], [2, 3]]" SHA384 0 "replicate 64 4" 0 bare_world]
  by (simp add: USHABlockSize_def USHAHashSize_def sha_sizes max_bits_def)

text \<open>The whole computation in one call.\<close>

lemma wp_hmac:
  assumes "hmac_arrays ctx" "locals_arrays loc" "0 \<le> kn" "kn < 2147483648" "nat kn \<le> length k"
    and "0 \<le> tn" "tn < 2147483648" "nat tn \<le> length t" "USHAHashSize which \<le> length d"
    and Q: "Q (0, Some (put d 0 (hmac_spec which (take (nat kn) k) (take (nat tn) t)))) w"
  shows "wp (hmac which (Some t) tn (Some k) kn (Some d) ctx loc) Q w"
proof -
  let ?k = "take (nat kn) k" and ?t = "take (nat tn) t"
  have res: "wp (hmacResult (Some c2) (Some d)) (\<lambda>(e3, c3, d'). Q (c_truth e3, d')) w" if "keyed which ?k ?t c2" for c2
    using that assms(9) by (rule wp_hmacResult_keyed) (simp add: Q c_truth_def)
  have inp: "wp (hmacInput (Some c1) (Some t) tn) (\<lambda>(e2, c2). wp (if e2 \<noteq> 0 then ret (1, Some d)
      else do { (e3, c3, d') \<leftarrow> hmacResult c2 (Some d); ret (c_truth e3, d') }) Q) w" if "keyed which ?k [] c1" for c1
    using that by (rule wp_hmacInput)
      (use assms res block_small [of "nat tn" which] in \<open>simp_all add: sha_codes wp_prod_fun\<close>)
  show ?thesis
    unfolding hmac_def wp_bind
    by (rule wp_hmacReset [OF assms(1,2)]) (use assms inp in \<open>simp_all add: wp_prod_fun\<close>)
qed

lemma wp_HMACSHA256_ComputeHash:
  assumes "hmac_arrays ctx" "locals_arrays loc" "buf_wf b" "bsize b + 32 < SIZE_MOD"
    and "0 < kn" "kn < 2147483648" "kn \<le> length k" "0 < pn" "pn < 2147483648" "pn \<le> length p"
  shows "wp (HMACSHA256_ComputeHash (Some k) kn (Some p) pn (Some b) ctx loc) (\<lambda>(r, h) w'.
    faults w' = faults w \<and>
    (if next_alloc w = None then r = HMACSHA256_ERROR \<and> h = Some b \<and> live w' = live w
     else r = HMACSHA256_OK \<and> avail w' = tl (avail w) \<and> live w' = live w + (2 - buf_blocks (Some b)) \<and>
       (\<exists>ys. length ys = 32 \<and> h = Some (mkbuf (put (buf_bytes b @ ys) 0 (hmac_spec SHA256 (take kn k) (take pn p))))) \<and>
       (bsize b = 0 \<longrightarrow> h = Some (mkbuf (hmac_spec SHA256 (take kn k) (take pn p)))))) w"
proof -
  let ?D = "hmac_spec SHA256 (take kn k) (take pn p)"
  have len: "length ?D = 32" by (simp add: hmac_spec_def USHAHashSize_def sha_sizes)
  have int: "to_int kn = int kn" "to_int pn = int pn" using assms by (simp_all add: to_int_def)
  have char: "BUFFER_u_char (Some (mkbuf xs)) = Some xs" "length d = length xs \<Longrightarrow> write_through (Some (mkbuf xs)) (Some d) = Some (mkbuf d)"
    if "32 \<le> length xs" for xs d
    using that by (auto simp: BUFFER_u_char_def write_through_def mkbuf_def)
  have mac: "wp (hmac SHA256 (Some p) (int pn) (Some k) (int kn) (Some xs) ctx loc) R w'"
    if "32 \<le> length xs" "R (0, Some (put xs 0 ?D)) w'" for xs R w'
    by (rule wp_hmac) (use assms that in \<open>simp_all add: USHAHashSize_def sha_sizes\<close>)
  have empty: "buf_bytes b = []" if "bsize b = 0" using that by (simp add: buf_bytes_def)
  show ?thesis
    unfolding HMACSHA256_ComputeHash_def using assms len empty
    by (auto simp: wp_prod_fun int char intro!: wp_BUFFER_enlarge mac) blast+
qed

text \<open>C17. \<open>HMACSHA256_ComputeHash\<close> on a buffer, for a key and a payload of less than 2 GB: it fails only when the buffer cannot grow, and
  then leaves it as it was; else it grows the buffer by 32 bytes and writes HMAC-SHA256 over the first 32 bytes of it, so that an
  empty buffer becomes the code itself. No access leaves a block and the only block that is allocated is the buffer's.\<close>

theorem hmacsha256_computed:
  assumes "hmac_arrays ctx" "locals_arrays loc" "buf_wf b" "bsize b + 32 < SIZE_MOD"
    and "0 < kn" "kn < 2147483648" "kn \<le> length k" "0 < pn" "pn < 2147483648" "pn \<le> length p"
  shows "wp (HMACSHA256_ComputeHash (Some k) kn (Some p) pn (Some b) ctx loc) (\<lambda>(r, h) w'.
    faults w' = faults w \<and>
    (if next_alloc w = None then r = HMACSHA256_ERROR \<and> h = Some b \<and> live w' = live w
     else r = HMACSHA256_OK \<and> live w' = live w + (2 - buf_blocks (Some b)) \<and>
       (\<exists>ys. length ys = 32 \<and> h = Some (mkbuf (put (buf_bytes b @ ys) 0 (hmac_spec SHA256 (take kn k) (take pn p))))) \<and>
       (bsize b = 0 \<longrightarrow> h = Some (mkbuf (hmac_spec SHA256 (take kn k) (take pn p)))))) w"
  by (rule wp_mono [OF wp_HMACSHA256_ComputeHash [OF assms]]) (auto split: if_splits)

lemma hmacsha256_computed_witness:
  "wp (HMACSHA256_ComputeHash (Some [1, 2]) 2 (Some [3]) 1 (Some \<lparr>buffer = None, bsize = 0\<rparr>) blank_hmac blank_locals)
    (\<lambda>(r, h) w'. r = HMACSHA256_OK \<and> h = Some (mkbuf (hmac_spec SHA256 [1, 2] [3]))) \<lparr>avail = [Some (\<lambda>_. 8)], live = 0, faults = 0\<rparr>"
  by (rule wp_mono [OF hmacsha256_computed [of blank_hmac blank_locals "\<lparr>buffer = None, bsize = 0\<rparr>" 2 "[1, 2]" 1 "[3]"]])
    (auto simp: buf_wf_def SIZE_MOD_def next_alloc_def)

text \<open>The code of an error is lost in HMAC: a call of \<open>hmacFinalBits\<close> with eight bits or more is refused with \<open>shaStateError\<close>, and
  \<open>hmacResult\<close> then returns 1, which is \<open>shaNull\<close>, because the results of its calls are joined with \<open>||\<close>. The caller's array is left
  alone.\<close>

lemma hmac_error_code_lost:
  assumes "keyed which k m ctx" "8 \<le> n"
  shows "\<exists>ctx'. run_state (hmacFinalBits (Some ctx) bits n) w = ((shaStateError, Some ctx'), w) \<and>
    run_state (hmacResult (Some ctx') (Some d)) w = ((shaNull, Some ctx', Some d), w)"
proof -
  obtain s where s: "USHAFinalBits (Some (shaContext ctx)) bits n = ret (shaStateError, Some s)" "marked shaStateError s"
    using USHAFinalBits_refused [of which "inner_pad which k @ m" 0 0 "shaContext ctx" n bits] assms by (auto simp: keyed_def)
  have "USHAResult (Some s) (Some d) = ret (shaStateError, Some s, Some d)"
    by (rule USHAResult_marked [OF s(2)]) (simp add: sha_codes)
  then show ?thesis using s(1) by (simp add: hmacFinalBits_def hmacResult_def on_hmac_def sha_codes)
qed

end
