(* ===== verification/ShaConstants.thy ===== *)
theory ShaConstants
  imports ShaSpec
begin

text \<open>
  The tables of the hash sources are the ones the standard derives from the primes.
\<close>

text \<open>The primes up to 409: below 529 a number that no other prime up to 19 divides is prime.\<close>

definition first_primes :: "int list" where
  "first_primes = filter (\<lambda>p. list_all (\<lambda>d. p = d \<or> p mod d \<noteq> 0) [2, 3, 5, 7, 11, 13, 17, 19]) [2..409]"

text \<open>\<open>k\<close> is the first \<open>w\<close> bits of the fractional part of the \<open>r\<close>-th root of \<open>p\<close>: with \<open>a\<close> the integer part of the root,
  \<open>a + k / 2 ^ w\<close> is the root rounded down to a multiple of \<open>1 / 2 ^ w\<close>.\<close>

definition int_root :: "nat \<Rightarrow> int \<Rightarrow> int" where
  "int_root r p = int (length (takeWhile (\<lambda>a. a ^ r \<le> p) [1, 2, 3, 4, 5, 6, 7, 8, 9, 10, 11, 12, 13, 14, 15, 16, 17, 18, 19, 20]))"

definition root_bits :: "nat \<Rightarrow> nat \<Rightarrow> int \<Rightarrow> int \<Rightarrow> bool" where
  "root_bits r w p k \<longleftrightarrow> (let a = int_root r p in 0 \<le> k \<and> k < 2 ^ w \<and>
     (a * 2 ^ w + k) ^ r \<le> p * 2 ^ (r * w) \<and> p * 2 ^ (r * w) < (a * 2 ^ w + k + 1) ^ r)"

lemma first_primes_list: "first_primes = [2, 3, 5, 7, 11, 13, 17, 19, 23, 29, 31, 37, 41, 43, 47, 53, 59, 61, 67, 71, 73, 79, 83, 89, 97, 101, 103, 107, 109, 113, 127, 131, 137, 139, 149, 151, 157, 163, 167, 173, 179, 181, 191, 193, 197, 199, 211, 223, 227, 229, 233, 239, 241, 251, 257, 263, 269, 271, 277, 281, 283, 293, 307, 311, 313, 317, 331, 337, 347, 349, 353, 359, 367, 373, 379, 383, 389, 397, 401, 409]"
  by code_simp

lemmas root_eval = first_primes_list root_bits_def int_root_def Let_def

lemma K256_roots: "list_all2 (\<lambda>p k. root_bits 3 32 p (uint k)) (take 64 first_primes) K256"
  by (simp add: root_eval K256_def K256_rows)

lemma K512_roots: "list_all2 (\<lambda>p k. root_bits 3 64 p (uint k)) first_primes K512"
  by (simp add: root_eval K512_def K512_rows)

lemma H0_256_roots: "list_all2 (\<lambda>p k. root_bits 2 32 p (uint k)) (take 8 first_primes) SHA256_H0"
  by (simp add: root_eval SHA256_H0_def)

lemma H0_512_roots: "list_all2 (\<lambda>p k. root_bits 2 64 p (uint k)) (take 16 first_primes) (SHA512_H0 @ SHA384_H0)"
  by (simp add: root_eval SHA512_H0_def SHA384_H0_def)

text \<open>The round constants of SHA-2 are the first bits of the fractional parts of the cube roots of the first 64 and 80 primes, the
  initial values of SHA-512 and SHA-384 those of the square roots of the first eight and the next eight primes, the initial values of SHA-256
  the first 32 bits of the first eight, and SHA-224 starts with the lower halves of the words of SHA-384; the constants of SHA-1 are the
  square roots of 2, 3, 5 and 10, integer part included, in 30 binary places.\<close>

lemma sha_constants:
  "list_all2 (\<lambda>p k. root_bits 3 32 p (uint k)) (take 64 first_primes) K256 \<and>
   list_all2 (\<lambda>p k. root_bits 3 64 p (uint k)) first_primes K512 \<and>
   list_all2 (\<lambda>p k. root_bits 2 32 p (uint k)) (take 8 first_primes) SHA256_H0 \<and>
   list_all2 (\<lambda>p k. root_bits 2 64 p (uint k)) (take 16 first_primes) (SHA512_H0 @ SHA384_H0) \<and>
   SHA224_H0 = map ucast SHA384_H0 \<and>
   list_all2 (\<lambda>n k. (uint k) ^ 2 \<le> n * 2 ^ 60 \<and> n * 2 ^ 60 < (uint k + 1) ^ 2) [2, 3, 5, 10] SHA1_K"
  by (intro conjI K256_roots K512_roots H0_256_roots H0_512_roots)
    (simp_all add: SHA224_H0_def SHA384_H0_def SHA1_K_def)

end
