(* ===== verification/DList.thy ===== *)
theory DList
  imports Prelude
begin

text \<open>
  The intrusive doubly linked lists of \<open>c-utility/src/doublylinkedlist.c\<close>, on which the hub client keeps its queues. The entries live
  inside objects of the client, so the store is explicit: a map from addresses to entries. A list is a ring through its head.
\<close>

section \<open>Entries and operations\<close>

record DLIST_ENTRY =
  Flink :: nat
  Blink :: nat

type_synonym dl_store = "nat \<rightharpoonup> DLIST_ENTRY"

definition with_F :: "dl_store \<Rightarrow> nat \<Rightarrow> nat \<Rightarrow> dl_store" where
  "with_F s p v = s(p := map_option (\<lambda>e. e\<lparr>Flink := v\<rparr>) (s p))"

definition with_B :: "dl_store \<Rightarrow> nat \<Rightarrow> nat \<Rightarrow> dl_store" where
  "with_B s p v = s(p := map_option (\<lambda>e. e\<lparr>Blink := v\<rparr>) (s p))"

text \<open>Reading and writing a field through a pointer; a pointer that leads to no entry is a fault.\<close>

definition get_Flink :: "dl_store \<Rightarrow> nat \<Rightarrow> nat cm" where
  "get_Flink s p = do { c_assert (s p \<noteq> None); ret (case s p of None \<Rightarrow> 0 | Some e \<Rightarrow> Flink e) }"

definition get_Blink :: "dl_store \<Rightarrow> nat \<Rightarrow> nat cm" where
  "get_Blink s p = do { c_assert (s p \<noteq> None); ret (case s p of None \<Rightarrow> 0 | Some e \<Rightarrow> Blink e) }"

definition set_Flink :: "dl_store \<Rightarrow> nat \<Rightarrow> nat \<Rightarrow> dl_store cm" where
  "set_Flink s p v = do { c_assert (s p \<noteq> None); ret (with_F s p v) }"

definition set_Blink :: "dl_store \<Rightarrow> nat \<Rightarrow> nat \<Rightarrow> dl_store cm" where
  "set_Blink s p v = do { c_assert (s p \<noteq> None); ret (with_B s p v) }"

definition DList_InitializeListHead :: "dl_store \<Rightarrow> nat \<Rightarrow> dl_store cm" where
  "DList_InitializeListHead s ListHead = do {
     s1 \<leftarrow> set_Blink s ListHead ListHead;
     set_Flink s1 ListHead ListHead
   }"

definition DList_IsListEmpty :: "dl_store \<Rightarrow> nat \<Rightarrow> int cm" where
  "DList_IsListEmpty s ListHead = do {
     f \<leftarrow> get_Flink s ListHead;
     ret (if f = ListHead then 1 else 0)
   }"

definition DList_RemoveEntryList :: "dl_store \<Rightarrow> nat \<Rightarrow> (int \<times> dl_store) cm" where
  "DList_RemoveEntryList s Entry = do {
     f \<leftarrow> get_Flink s Entry;
     b \<leftarrow> get_Blink s Entry;
     s1 \<leftarrow> set_Flink s b f;
     s2 \<leftarrow> set_Blink s1 f b;
     ret (if f = b then 1 else 0, s2)
   }"

definition DList_RemoveHeadList :: "dl_store \<Rightarrow> nat \<Rightarrow> (nat \<times> dl_store) cm" where
  "DList_RemoveHeadList s ListHead = do {
     Entry \<leftarrow> get_Flink s ListHead;
     f \<leftarrow> get_Flink s Entry;
     s1 \<leftarrow> set_Flink s ListHead f;
     s2 \<leftarrow> set_Blink s1 f ListHead;
     ret (Entry, s2)
   }"

definition DList_InsertTailList :: "dl_store \<Rightarrow> nat \<Rightarrow> nat \<Rightarrow> dl_store cm" where
  "DList_InsertTailList s ListHead Entry = do {
     b \<leftarrow> get_Blink s ListHead;
     s1 \<leftarrow> set_Flink s Entry ListHead;
     s2 \<leftarrow> set_Blink s1 Entry b;
     s3 \<leftarrow> set_Flink s2 b Entry;
     set_Blink s3 ListHead Entry
   }"

definition DList_AppendTailList :: "dl_store \<Rightarrow> nat \<Rightarrow> nat \<Rightarrow> dl_store cm" where
  "DList_AppendTailList s ListHead ListToAppend = do {
     ListEnd \<leftarrow> get_Blink s ListHead;
     b \<leftarrow> get_Blink s ListHead;
     s1 \<leftarrow> set_Flink s b ListToAppend;
     b' \<leftarrow> get_Blink s1 ListToAppend;
     s2 \<leftarrow> set_Blink s1 ListHead b';
     b'' \<leftarrow> get_Blink s2 ListToAppend;
     s3 \<leftarrow> set_Flink s2 b'' ListHead;
     set_Blink s3 ListToAppend ListEnd
   }"

definition DList_InsertHeadList :: "dl_store \<Rightarrow> nat \<Rightarrow> nat \<Rightarrow> dl_store cm" where
  "DList_InsertHeadList s listHead entry = do {
     s1 \<leftarrow> set_Blink s entry listHead;
     f \<leftarrow> get_Flink s1 listHead;
     s2 \<leftarrow> set_Flink s1 entry f;
     f' \<leftarrow> get_Flink s2 listHead;
     s3 \<leftarrow> set_Blink s2 f' entry;
     set_Flink s3 listHead entry
   }"

section \<open>Rings\<close>

definition flink :: "dl_store \<Rightarrow> nat \<Rightarrow> nat option" where
  "flink s p = map_option Flink (s p)"

definition blink :: "dl_store \<Rightarrow> nat \<Rightarrow> nat option" where
  "blink s p = map_option Blink (s p)"

fun linked :: "dl_store \<Rightarrow> nat list \<Rightarrow> bool" where
  "linked s (a # b # cs) \<longleftrightarrow> flink s a = Some b \<and> blink s b = Some a \<and> linked s (b # cs)"
| "linked s _ \<longleftrightarrow> True"

text \<open>The list with head \<open>h\<close> and the entries \<open>xs\<close>, in this order.\<close>

definition ring :: "dl_store \<Rightarrow> nat \<Rightarrow> nat list \<Rightarrow> bool" where
  "ring s h xs \<longleftrightarrow> distinct (h # xs) \<and> linked s (h # xs @ [h])"

lemma link_updates [simp]:
  "flink (with_F s p v) q = (if q = p \<and> s p \<noteq> None then Some v else flink s q)"
  "blink (with_B s p v) q = (if q = p \<and> s p \<noteq> None then Some v else blink s q)"
  "flink (with_B s p v) q = flink s q" "blink (with_F s p v) q = blink s q"
  by (auto simp: flink_def blink_def with_F_def with_B_def option.map_comp comp_def)

lemma with_None [simp]: "with_F s p v q = None \<longleftrightarrow> s q = None" "with_B s p v q = None \<longleftrightarrow> s q = None"
  by (auto simp: with_F_def with_B_def)

lemma flink_dom: "flink s p = Some q \<Longrightarrow> s p \<noteq> None"
  by (auto simp: flink_def)

lemma blink_dom: "blink s p = Some q \<Longrightarrow> s p \<noteq> None"
  by (auto simp: blink_def)

lemma wp_links [simp]:
  "flink s p = Some q \<Longrightarrow> wp (get_Flink s p) Q w = Q q w"
  "blink s p = Some q \<Longrightarrow> wp (get_Blink s p) Q w = Q q w"
  "s p \<noteq> None \<Longrightarrow> wp (set_Flink s p v) R w = R (with_F s p v) w"
  "s p \<noteq> None \<Longrightarrow> wp (set_Blink s p v) R w = R (with_B s p v) w"
  by (auto simp: get_Flink_def get_Blink_def set_Flink_def set_Blink_def flink_def blink_def)

lemma linked_append: "linked s (us @ z # v # vs) \<longleftrightarrow> linked s (us @ [z]) \<and> linked s (z # v # vs)"
  by (induction us rule: induct_list012) (auto)

lemma linked_cong:
  assumes "\<And>p. p \<in> set (butlast ys) \<Longrightarrow> flink t p = flink s p" "\<And>p. p \<in> set (tl ys) \<Longrightarrow> blink t p = blink s p"
  shows "linked t ys = linked s ys"
  using assms by (induction ys rule: induct_list012) auto

lemma linked_dom: "linked s ys \<Longrightarrow> 2 \<le> length ys \<Longrightarrow> p \<in> set ys \<Longrightarrow> s p \<noteq> None"
proof (induction ys rule: induct_list012)
  case (3 a b cs)
  then show ?case by (cases cs) (auto dest: flink_dom blink_dom)
qed simp_all

lemma ring_dom: "ring s h xs \<Longrightarrow> p \<in> set (h # xs) \<Longrightarrow> s p \<noteq> None"
  unfolding ring_def by (rule linked_dom [of s "h # xs @ [h]"]) auto

text \<open>The neighbours of the head and of an entry.\<close>

lemma ring_first: "ring s h xs \<Longrightarrow> flink s h = Some (hd (xs @ [h]))"
  by (cases xs) (simp_all add: ring_def)

lemma snocE:
  obtains us z where "h # xs = us @ [z]" "z = last (h # xs)"
proof
  show "h # xs = butlast (h # xs) @ [last (h # xs)]" by simp
qed simp

lemma ring_split: "h # xs = us @ [z] \<Longrightarrow> h # xs @ ys = us @ z # ys"
  by (induction us arbitrary: h xs) (auto simp: Cons_eq_append_conv)

lemma ring_last:
  assumes "ring s h xs"
  shows "blink s h = Some (last (h # xs))"
proof -
  obtain us z where u: "h # xs = us @ [z]" "z = last (h # xs)" using snocE .
  have "linked s (us @ z # [h])" using assms ring_split [OF u(1), of "[h]"] by (simp only: ring_def)
  then show ?thesis unfolding u(2) [symmetric] by (simp add: linked_append)
qed

section \<open>What the operations do\<close>

text \<open>Outside the entries \<open>A\<close> nothing changes, and no entry appears or disappears.\<close>

definition only :: "nat set \<Rightarrow> dl_store \<Rightarrow> dl_store \<Rightarrow> bool" where
  "only A s t \<longleftrightarrow> dom t = dom s \<and> (\<forall>p. p \<notin> A \<longrightarrow> t p = s p)"

lemma only_upd: "only A s t \<Longrightarrow> p \<in> A \<Longrightarrow> only A s (with_F t p v)" "only A s t \<Longrightarrow> p \<in> A \<Longrightarrow> only A s (with_B t p v)"
  by (auto simp: only_def dom_def with_F_def with_B_def)

lemma only_refl: "only A s s"
  by (simp add: only_def)

lemma wp_InitializeListHead:
  assumes "s h \<noteq> None"
  shows "wp (DList_InitializeListHead s h) (\<lambda>t w'. ring t h [] \<and> only {h} s t \<and> w' = w) w"
  using assms by (auto simp: DList_InitializeListHead_def ring_def only_def dom_def with_F_def with_B_def flink_def blink_def)

lemma wp_IsListEmpty:
  assumes "ring s h xs"
  shows "wp (DList_IsListEmpty s h) Q w = Q (if xs = [] then 1 else 0) w"
  using assms ring_first [OF assms] by (cases xs) (auto simp: DList_IsListEmpty_def ring_def)

lemma wp_InsertTailList:
  assumes r: "ring s h xs" and e: "s e \<noteq> None" "e \<notin> set (h # xs)"
  shows "wp (DList_InsertTailList s h e) (\<lambda>t w'. ring t h (xs @ [e]) \<and> only (set (h # e # xs)) s t \<and> w' = w) w"
proof -
  obtain us z where u: "h # xs = us @ [z]" "z = last (h # xs)" using snocE .
  have z: "z \<in> set (h # xs)" using u(1) by (metis in_set_conv_decomp)
  have h: "s h \<noteq> None" "s z \<noteq> None" using ring_dom [OF r] z by auto
  define t where "t = with_B (with_F (with_B (with_F s e h) e z) z e) h e"
  have d: "distinct (us @ [z])" "z \<notin> set us" "e \<notin> set (us @ [z])" using r e(2) u(1) by (auto simp: ring_def)
  have "linked t (us @ [z]) = linked s (us @ [z])"
  proof (rule linked_cong)
    show "flink t p = flink s p" if "p \<in> set (butlast (us @ [z]))" for p using that d by (auto simp: t_def)
    show "blink t p = blink s p" if "p \<in> set (tl (us @ [z]))" for p using that r e(2) by (auto simp: t_def ring_def simp flip: u(1))
  qed
  moreover have "linked s (us @ z # [h])" using r ring_split [OF u(1), of "[h]"] by (simp only: ring_def)
  then have "linked s (us @ [z])" by (simp only: linked_append)
  ultimately have "linked t (us @ z # [e, h])" unfolding linked_append using h e d(3) z by (auto simp: t_def)
  then have "linked t (h # xs @ [e, h])" by (simp only: ring_split [OF u(1)])
  then have ring: "ring t h (xs @ [e])" using r e(2) by (simp add: ring_def)
  have "only (set (h # e # xs)) s t" unfolding t_def using z by (intro only_upd only_refl) auto
  then show ?thesis
    using ring h e ring_last [OF r, folded u(2)] by (simp add: DList_InsertTailList_def t_def)
qed

lemma wp_InsertHeadList:
  assumes r: "ring s h xs" and e: "s e \<noteq> None" "e \<notin> set (h # xs)"
  shows "wp (DList_InsertHeadList s h e) (\<lambda>t w'. ring t h (e # xs) \<and> only (set (h # e # xs)) s t \<and> w' = w) w"
proof -
  obtain f fs where f: "xs @ [h] = f # fs" by (cases xs) auto
  have fh: "flink s h = Some f" using ring_first [OF r] f by simp
  have f': "f \<in> set (h # xs)" using arg_cong [OF f, of set] by auto
  have h: "s h \<noteq> None" "s f \<noteq> None" using ring_dom [OF r] f' by auto
  define t where "t = with_F (with_B (with_F (with_B s e h) e f) f e) h e"
  have "linked t (f # fs) = linked s (f # fs)"
  proof (rule linked_cong)
    have "butlast (f # fs) = xs" using f by (metis butlast_snoc)
    then show "flink t p = flink s p" if "p \<in> set (butlast (f # fs))" for p
      using that r e(2) by (auto simp: t_def ring_def)
    have "distinct (f # fs)" using r by (simp add: ring_def flip: f)
    moreover have "set fs \<subseteq> set (h # xs)" using arg_cong [OF f, of set] by auto
    ultimately show "blink t p = blink s p" if "p \<in> set (tl (f # fs))" for p using that e(2) by (auto simp: t_def)
  qed
  moreover have "linked s (f # fs)" using r f by (simp add: ring_def)
  ultimately have "linked t (h # e # f # fs)" using h e f' by (auto simp: t_def)
  then have ring: "ring t h (e # xs)" using r e f by (simp add: ring_def)
  have "only (set (h # e # xs)) s t" unfolding t_def using f' by (intro only_upd only_refl) auto
  then show ?thesis using ring h e fh by (simp add: DList_InsertHeadList_def t_def)
qed

text \<open>Taking out what stands between \<open>us\<close> and \<open>vs\<close>.\<close>

lemma linked_join:
  assumes "linked s (us @ [a])" "linked s (b # vs)" "s a \<noteq> None" "s b \<noteq> None"
    and "a \<notin> set us" "b \<notin> set (tl (us @ [a]))" "a \<notin> set (butlast (b # vs))" "b \<notin> set vs"
  shows "linked (with_B (with_F s a b) b a) (us @ a # b # vs)"
proof -
  let ?t = "with_B (with_F s a b) b a"
  have "linked ?t (us @ [a]) = linked s (us @ [a])" by (rule linked_cong) (use assms in auto)
  moreover have "linked ?t (b # vs) = linked s (b # vs)" by (rule linked_cong) (use assms in auto)
  ultimately show ?thesis using assms by (simp add: linked_append)
qed

lemma wp_RemoveEntryList:
  assumes r: "ring s h (us @ e # vs)"
  shows "wp (DList_RemoveEntryList s e) (\<lambda>(n, t) w'. ring t h (us @ vs) \<and> only (set (h # us @ vs)) s t \<and>
    n = (if us @ vs = [] then 1 else 0) \<and> w' = w) w"
proof -
  obtain us' a where a: "h # us = us' @ [a]" "a = last (h # us)" using snocE .
  obtain b vs' where b: "vs @ [h] = b # vs'" by (cases vs) auto
  have "linked s (h # us @ e # vs @ [h])" using r by (simp add: ring_def)
  then have "linked s (us' @ a # e # b # vs')" unfolding ring_split [OF a(1)] b .
  then have l: "linked s (us' @ [a])" "linked s (b # vs')" "flink s a = Some e" "blink s e = Some a" "flink s e = Some b" "blink s b = Some e"
    by (simp_all add: linked_append)
  have ab: "a \<in> set (h # us)" "b \<in> set (h # vs)" using arg_cong [OF a(1), of set] arg_cong [OF b, of set] by auto
  have some: "s a \<noteq> None" "s b \<noteq> None" using l(3,6) by (auto dest: flink_dom blink_dom)
  let ?t = "with_B (with_F s a b) b a"
  have "linked ?t (us' @ a # b # vs')"
  proof (rule linked_join)
    show "s a \<noteq> None" "s b \<noteq> None" by fact+
    have d: "distinct (us' @ [a])" using r by (simp add: ring_def flip: a(1))
    then show "a \<notin> set us'" by simp
    have "tl (us' @ [a]) = us" using a(1) by (metis list.sel(3))
    then show "b \<notin> set (tl (us' @ [a]))" using ab(2) r by (auto simp: ring_def)
    have "butlast (b # vs') = vs" using b by (metis butlast_snoc)
    then show "a \<notin> set (butlast (b # vs'))" using ab(1) r by (auto simp: ring_def)
    have "distinct (b # vs')" using r by (simp add: ring_def flip: b)
    then show "b \<notin> set vs'" by simp
  qed (use l in simp_all)
  then have "linked ?t (h # us @ vs @ [h])" unfolding ring_split [OF a(1)] b .
  then have ring: "ring ?t h (us @ vs)" using r by (simp add: ring_def)
  have frame: "only (set (h # us @ vs)) s ?t" using ab by (intro only_upd only_refl) auto
  have "b = a \<longleftrightarrow> us @ vs = []"
    using ab r a(2) b by (cases vs; cases us rule: rev_cases) (auto simp: ring_def)
  then show ?thesis using ring frame l some by (simp add: DList_RemoveEntryList_def)
qed

lemma wp_RemoveHeadList:
  assumes r: "ring s h (e # xs)"
  shows "wp (DList_RemoveHeadList s h) (\<lambda>(p, t) w'. p = e \<and> ring t h xs \<and> only (set (h # xs)) s t \<and> w' = w) w"
proof -
  obtain b where b: "flink s e = Some b" "blink s e = Some h" "flink s h = Some e" "s b \<noteq> None" "s h \<noteq> None"
  proof (cases xs)
    case Nil
    then show ?thesis using r that [of h] by (auto simp: ring_def dest: flink_dom blink_dom)
  next
    case (Cons b ys)
    then show ?thesis using r that [of b] by (auto simp: ring_def dest: flink_dom blink_dom)
  qed
  then show ?thesis
    using wp_RemoveEntryList [of s h "[]" e xs w] r by (simp add: DList_RemoveHeadList_def DList_RemoveEntryList_def)
qed

lemma wp_RemoveHeadList_empty:
  assumes r: "ring s h []"
  shows "wp (DList_RemoveHeadList s h) (\<lambda>(p, t) w'. p = h \<and> ring t h [] \<and> only {h} s t \<and> w' = w) w"
proof -
  have "flink s h = Some h" "s h \<noteq> None" using r by (auto simp: ring_def dest: flink_dom)
  then show ?thesis by (simp add: DList_RemoveHeadList_def ring_def only_upd only_refl)
qed

text \<open>The list to append is given by its first entry, and has no head of its own.\<close>

lemma wp_AppendTailList:
  assumes r: "ring s h xs" "ring s g ys" and disj: "set (h # xs) \<inter> set (g # ys) = {}"
  shows "wp (DList_AppendTailList s h g) (\<lambda>t w'. ring t h (xs @ g # ys) \<and> only (set (h # g # xs @ ys)) s t \<and> w' = w) w"
proof -
  obtain us z where u: "h # xs = us @ [z]" "z = last (h # xs)" using snocE .
  obtain vs y where v: "g # ys = vs @ [y]" "y = last (g # ys)" using snocE .
  have "linked s (us @ z # [h])" "linked s (vs @ y # [g])"
    using r ring_split [OF u(1), of "[h]"] ring_split [OF v(1), of "[g]"] by (simp_all only: ring_def)
  then have l: "linked s (us @ [z])" "linked s (vs @ [y])" "blink s h = Some z" "blink s g = Some y" "flink s z = Some h" "flink s y = Some g"
    by (simp_all only: linked_append linked.simps)
  have zy: "z \<in> set (h # xs)" "y \<in> set (g # ys)" using arg_cong [OF u(1), of set] arg_cong [OF v(1), of set] by auto
  have some: "s z \<noteq> None" "s y \<noteq> None" "s g \<noteq> None" "s h \<noteq> None" using l(3-6) by (auto dest: flink_dom blink_dom)
  define t where "t = with_B (with_F (with_B (with_F s z g) h y) y h) g z"
  have "distinct (us @ [z])" "distinct (vs @ [y])" using r by (simp_all add: ring_def flip: u(1) v(1))
  moreover have "set us \<subseteq> set (h # xs)" "set vs \<subseteq> set (g # ys)" unfolding u(1) v(1) by auto
  ultimately have d: "z \<notin> set us" "y \<notin> set vs" "set us \<subseteq> set (h # xs)" "set vs \<subseteq> set (g # ys)" by simp_all
  have tl: "tl (us @ [z]) = xs" "tl (vs @ [y]) = ys" using u(1) v(1) by (metis list.sel(3))+
  have "linked t (us @ [z]) = linked s (us @ [z])"
    by (rule linked_cong, use d zy disj in \<open>force simp: t_def\<close>) (use r disj tl in \<open>auto simp: t_def ring_def\<close>)
  moreover have "linked t (vs @ [y]) = linked s (vs @ [y])"
    by (rule linked_cong, use d zy disj in \<open>force simp: t_def\<close>) (use r disj tl in \<open>auto simp: t_def ring_def\<close>)
  ultimately have "linked t (us @ [z])" "linked t (vs @ y # [h])" "flink t z = Some g" "blink t g = Some z"
    using l some zy disj by (auto simp: t_def linked_append)
  moreover from this have "linked t (g # ys @ [h])" by (simp only: ring_split [OF v(1)])
  ultimately have "linked t (us @ z # g # ys @ [h])" by (simp only: linked_append linked.simps)
  then have "linked t (h # xs @ g # ys @ [h])" by (simp only: ring_split [OF u(1)])
  then have ring: "ring t h (xs @ g # ys)" using r disj by (auto simp: ring_def)
  have "only (set (h # g # xs @ ys)) s t" unfolding t_def using zy by (intro only_upd only_refl) auto
  then show ?thesis using ring l some disj by (simp add: DList_AppendTailList_def t_def)
qed

section \<open>Using a list\<close>

datatype dl_op = Insert_tail nat | Insert_head nat | Remove nat | Remove_head | Is_empty

definition dl_exec :: "nat \<Rightarrow> dl_op \<Rightarrow> dl_store \<Rightarrow> (int \<times> dl_store) cm" where
  "dl_exec h op s = (case op of
     Insert_tail e \<Rightarrow> do { t \<leftarrow> DList_InsertTailList s h e; ret (0, t) }
   | Insert_head e \<Rightarrow> do { t \<leftarrow> DList_InsertHeadList s h e; ret (0, t) }
   | Remove e \<Rightarrow> DList_RemoveEntryList s e
   | Remove_head \<Rightarrow> do { (p, t) \<leftarrow> DList_RemoveHeadList s h; ret (int p, t) }
   | Is_empty \<Rightarrow> do { r \<leftarrow> DList_IsListEmpty s h; ret (r, s) })"

fun dl_run :: "nat \<Rightarrow> dl_op list \<Rightarrow> dl_store \<Rightarrow> (int list \<times> dl_store) cm" where
  "dl_run h [] s = ret ([], s)"
| "dl_run h (op # ops) s = do { (r, t) \<leftarrow> dl_exec h op s; (rs, u) \<leftarrow> dl_run h ops t; ret (r # rs, u) }"

text \<open>How a client may use a list, and what it then sees: the list is \<open>xs\<close> and the entries \<open>F\<close> are in no list.\<close>

inductive dl_uses :: "nat \<Rightarrow> dl_op list \<Rightarrow> int list \<Rightarrow> nat list \<Rightarrow> nat set \<Rightarrow> nat list \<Rightarrow> nat set \<Rightarrow> bool" for h where
  stop: "dl_uses h [] [] xs F xs F"
| tail: "e \<in> F \<Longrightarrow> dl_uses h ops rs (xs @ [e]) (F - {e}) ys G \<Longrightarrow> dl_uses h (Insert_tail e # ops) (0 # rs) xs F ys G"
| head: "e \<in> F \<Longrightarrow> dl_uses h ops rs (e # xs) (F - {e}) ys G \<Longrightarrow> dl_uses h (Insert_head e # ops) (0 # rs) xs F ys G"
| remove: "dl_uses h ops rs (us @ vs) (insert e F) ys G \<Longrightarrow>
    dl_uses h (Remove e # ops) ((if us @ vs = [] then 1 else 0) # rs) (us @ e # vs) F ys G"
| remove_head: "dl_uses h ops rs xs (insert e F) ys G \<Longrightarrow> dl_uses h (Remove_head # ops) (int e # rs) (e # xs) F ys G"
| remove_none: "dl_uses h ops rs [] F ys G \<Longrightarrow> dl_uses h (Remove_head # ops) (int h # rs) [] F ys G"
| is_empty: "dl_uses h ops rs xs F ys G \<Longrightarrow> dl_uses h (Is_empty # ops) ((if xs = [] then 1 else 0) # rs) xs F ys G"

definition dl_state :: "nat \<Rightarrow> nat list \<Rightarrow> nat set \<Rightarrow> dl_store \<Rightarrow> bool" where
  "dl_state h xs F s \<longleftrightarrow> ring s h xs \<and> F \<subseteq> dom s \<and> F \<inter> set (h # xs) = {}"

lemma only_trans: "only A s t \<Longrightarrow> only B t u \<Longrightarrow> B \<subseteq> C \<Longrightarrow> A \<subseteq> C \<Longrightarrow> only C s u"
  unfolding only_def by (metis subsetD)

lemma only_state: "only A s t \<Longrightarrow> F \<subseteq> dom s \<Longrightarrow> ring t h ys \<Longrightarrow> F \<inter> set (h # ys) = {} \<Longrightarrow> dl_state h ys F t"
  by (simp add: only_def dl_state_def)

text \<open>One call, and what the client may do after it.\<close>

lemma dl_run_step:
  assumes "wp (dl_exec h op s) (\<lambda>(r, t) w'. r = r0 \<and> dl_state h xs' F' t \<and> only (set (h # xs) \<union> F) s t \<and> w' = w) w"
    and "\<And>t. dl_state h xs' F' t \<Longrightarrow>
      wp (dl_run h ops t) (\<lambda>(r, u) w'. r = rs \<and> dl_state h ys G u \<and> only (set (h # xs') \<union> F') t u \<and> w' = w) w"
    and "set (h # xs') \<union> F' \<subseteq> set (h # xs) \<union> F"
  shows "wp (dl_run h (op # ops) s) (\<lambda>(r, u) w'. r = r0 # rs \<and> dl_state h ys G u \<and> only (set (h # xs) \<union> F) s u \<and> w' = w) w"
  unfolding dl_run.simps wp_bind
proof (rule wp_mono [OF assms(1)], goal_cases)
  case (1 rt w')
  then obtain t where t: "rt = (r0, t)" "dl_state h xs' F' t" "only (set (h # xs) \<union> F) s t" "w' = w" by auto
  show ?case
    unfolding t(1,4) prod.case wp_bind
    by (rule wp_mono [OF assms(2) [OF t(2)]]) (use only_trans [OF t(3) _ assms(3)] in auto)
qed

lemma only_mono: "only A s t \<Longrightarrow> A \<subseteq> C \<Longrightarrow> only C s t"
  by (auto simp: only_def)

lemma dl_stateD:
  assumes "dl_state h xs F s"
  shows "ring s h xs" "F \<subseteq> dom s" "h \<notin> F" "F \<inter> set xs = {}" "set (h # xs) \<subseteq> dom s" "h \<notin> set xs" "distinct xs"
  using assms ring_dom [of s h xs] by (auto simp: dl_state_def ring_def)

lemma wp_dl_run:
  assumes "dl_uses h ops rs xs F ys G" "dl_state h xs F s"
  shows "wp (dl_run h ops s) (\<lambda>(r, t) w'. r = rs \<and> dl_state h ys G t \<and> only (set (h # xs) \<union> F) s t \<and> w' = w) w"
  using assms
proof (induction arbitrary: s)
  case (stop xs F)
  then show ?case by (simp add: only_refl)
next
  case (tail e F ops rs xs ys G)
  note s = dl_stateD [OF tail.prems]
  have "wp (DList_InsertTailList s h e) (\<lambda>t w'. ring t h (xs @ [e]) \<and> only (set (h # e # xs)) s t \<and> w' = w) w"
    by (rule wp_InsertTailList) (use tail.hyps s in auto)
  then show ?case
    by (intro dl_run_step [OF _ tail.IH])
      (use tail.hyps s in \<open>auto simp: dl_exec_def dl_state_def only_def elim!: wp_mono\<close>)
next
  case (head e F ops rs xs ys G)
  note s = dl_stateD [OF head.prems]
  have "wp (DList_InsertHeadList s h e) (\<lambda>t w'. ring t h (e # xs) \<and> only (set (h # e # xs)) s t \<and> w' = w) w"
    by (rule wp_InsertHeadList) (use head.hyps s in auto)
  then show ?case
    by (intro dl_run_step [OF _ head.IH])
      (use head.hyps s in \<open>auto simp: dl_exec_def dl_state_def only_def elim!: wp_mono\<close>)
next
  case (remove ops rs us vs e F ys G)
  note s = dl_stateD [OF remove.prems]
  show ?case
    by (rule dl_run_step [OF _ remove.IH])
      (use s wp_RemoveEntryList [OF s(1), of w] in \<open>auto simp: dl_exec_def dl_state_def only_def elim!: wp_mono\<close>)
next
  case (remove_head ops rs xs e F ys G)
  note s = dl_stateD [OF remove_head.prems]
  show ?case
    by (rule dl_run_step [OF _ remove_head.IH])
      (use s wp_RemoveHeadList [OF s(1), of w] in \<open>auto simp: dl_exec_def wp_prod_fun dl_state_def only_def elim!: wp_mono\<close>)
next
  case (remove_none ops rs F ys G)
  note s = dl_stateD [OF remove_none.prems]
  show ?case
    by (rule dl_run_step [OF _ remove_none.IH])
      (use s wp_RemoveHeadList_empty [OF s(1), of w] in \<open>auto simp: dl_exec_def wp_prod_fun dl_state_def only_def elim!: wp_mono\<close>)
next
  case (is_empty ops rs xs F ys G)
  note s = dl_stateD [OF is_empty.prems]
  show ?case
    by (rule dl_run_step [OF _ is_empty.IH])
      (use s is_empty.prems in \<open>auto simp: dl_exec_def wp_IsListEmpty [OF s(1)] only_refl\<close>)
qed

lemma linked_unique:
  "linked s (a # xs @ [h]) \<Longrightarrow> linked s (a # ys @ [h]) \<Longrightarrow> h \<notin> set xs \<Longrightarrow> h \<notin> set ys \<Longrightarrow> xs = ys"
proof (induction xs arbitrary: a ys)
  case Nil
  then show ?case by (cases ys) auto
next
  case (Cons x xs)
  then show ?case by (cases ys) auto
qed

lemma ring_unique: "ring s h xs \<Longrightarrow> ring s h ys \<Longrightarrow> xs = ys"
  by (auto simp: ring_def intro: linked_unique)

text \<open>C26. From its initialisation on, a list used as the interface asks for (entries go in when they are in no list, and are taken out when
  they are in this one) is the sequence of entries its specification says, and only that: every call returns what the specification says,
  follows no dangling pointer, and changes no entry but those of the client; the links in the store determine the sequence.\<close>

theorem dlist_refines:
  assumes "dl_uses h ops rs [] F ys G" "h \<in> dom s" "F \<subseteq> dom s" "h \<notin> F"
  shows "wp (do { s1 \<leftarrow> DList_InitializeListHead s h; dl_run h ops s1 })
    (\<lambda>(results, t) w'. results = rs \<and> ring t h ys \<and> (\<forall>zs. ring t h zs \<longrightarrow> zs = ys) \<and> G \<inter> set (h # ys) = {} \<and>
       dom t = dom s \<and> (\<forall>p. p \<notin> insert h F \<longrightarrow> t p = s p) \<and> w' = w) w"
proof -
  have "wp (DList_InitializeListHead s h) (\<lambda>t w'. ring t h [] \<and> only {h} s t \<and> w' = w) w"
    by (rule wp_InitializeListHead) (use assms(2) in auto)
  then show ?thesis
    unfolding wp_bind
  proof (rule wp_mono, goal_cases)
    case (1 s1 w')
    then have s1: "dl_state h [] F s1" "only {h} s s1" "w' = w" using assms by (auto simp: dl_state_def only_def)
    show ?case
      unfolding s1(3) by (rule wp_mono [OF wp_dl_run [OF assms(1) s1(1)]])
        (use s1(2) ring_unique in \<open>auto simp: dl_state_def only_def\<close>)
  qed
qed

lemma dlist_refines_witness:
  "wp (do { s1 \<leftarrow> DList_InitializeListHead (\<lambda>p. if p < 4 then Some \<lparr>Flink = 9, Blink = 9\<rparr> else None) 0;
        dl_run 0 [Insert_tail 1, Insert_head 2, Insert_tail 3, Remove 1, Remove_head, Is_empty] s1 })
    (\<lambda>(results, t) w'. results = [0, 0, 0, 0, 2, 0] \<and> ring t 0 [3]) \<lparr>avail = [], live = 0, faults = 0\<rparr>"
proof -
  have "dl_uses 0 [Remove_head, Is_empty] [int 2, if [3 :: nat] = [] then 1 else 0] [2, 3] {1} [3] {2, 1}"
    by (intro dl_uses.intros)
  from dl_uses.remove [where us = "[2]" and vs = "[3]" and e = 1 and F = "{}", simplified, OF this [simplified]]
  have "dl_uses 0 [Remove 1, Remove_head, Is_empty] [0, 2, 0] [2, 1, 3] {} [3] {2, 1}" by simp
  then have "dl_uses 0 [Insert_tail 1, Insert_head 2, Insert_tail 3, Remove 1, Remove_head, Is_empty] [0, 0, 0, 0, 2, 0] [] {1, 2, 3} [3] {2, 1}"
    by (intro dl_uses.tail dl_uses.head) auto
  from dlist_refines [OF this, of "\<lambda>p. if p < 4 then Some \<lparr>Flink = 9, Blink = 9\<rparr> else None"]
  show ?thesis by (rule wp_mono) (auto simp: dom_def)
qed

end
