(* ===== verification/SList.thy ===== *)
theory SList
  imports Component "HOL-Library.AList"
begin

text \<open>
  The singly linked lists of \<open>c-utility/src/singlylinkedlist.c\<close>. The nodes live in an explicit store, an association list from addresses to
  nodes that the lists of a program share; a pointer is an address or \<open>None\<close> for \<open>NULL\<close>. Which address \<open>malloc\<close>
  gives is up to the allocator: an addition takes the address the allocator would give, and takes another free one when that is in use, so that
  every behaviour of the allocator is the behaviour for some argument. The loops follow the links; they take the number of nodes of
  the store as a bound, and not to end within it is a fault. The callbacks of the client are functions of what they are handed.
  The list is an instance of \<open>Component\<close>: a sequence of nodes, beside which the store stays as it is.
\<close>

section \<open>Nodes and the store\<close>

record LIST_ITEM_INSTANCE =
  node_item :: nat
  node_next :: "nat option"

record LIST_INSTANCE =
  list_head :: "nat option"

type_synonym sl_store = "(nat \<times> LIST_ITEM_INSTANCE) list"

definition load_next :: "sl_store \<Rightarrow> nat \<Rightarrow> nat option cm" where
  "load_next s p = do { c_assert (map_of s p \<noteq> None); ret (case map_of s p of None \<Rightarrow> None | Some e \<Rightarrow> node_next e) }"

definition load_item :: "sl_store \<Rightarrow> nat \<Rightarrow> nat cm" where
  "load_item s p = do { c_assert (map_of s p \<noteq> None); ret (case map_of s p of None \<Rightarrow> 0 | Some e \<Rightarrow> node_item e) }"

definition store_next :: "sl_store \<Rightarrow> nat \<Rightarrow> nat option \<Rightarrow> sl_store cm" where
  "store_next s p v = do {
     c_assert (map_of s p \<noteq> None);
     ret (case map_of s p of None \<Rightarrow> s | Some e \<Rightarrow> AList.update p (e\<lparr>node_next := v\<rparr>) s)
   }"

definition free_node :: "sl_store \<Rightarrow> nat \<Rightarrow> sl_store cm" where
  "free_node s p = do { c_assert (map_of s p \<noteq> None); count_block (-1); ret (AList.delete p s) }"

definition node_address :: "nat \<Rightarrow> sl_store \<Rightarrow> nat" where
  "node_address c s = (if map_of s c = None then c else Suc (foldr (\<lambda>(a, e). max a) s 0))"

section \<open>The operations, in the order of the source\<close>

definition singlylinkedlist_create :: "LIST_INSTANCE option cm" where
  "singlylinkedlist_create = do { ok \<leftarrow> c_new; ret (if ok then Some \<lparr>list_head = None\<rparr> else None) }"

fun destroy_loop :: "nat \<Rightarrow> sl_store \<Rightarrow> LIST_INSTANCE \<Rightarrow> sl_store cm" where
  "destroy_loop 0 s l = do { c_assert (list_head l = None); ret s }"
| "destroy_loop (Suc k) s l =
     (case list_head l of
        None \<Rightarrow> ret s
      | Some current_item \<Rightarrow> do {
          n \<leftarrow> load_next s current_item;
          s1 \<leftarrow> free_node s current_item;
          destroy_loop k s1 (l\<lparr>list_head := n\<rparr>)
        })"

definition singlylinkedlist_destroy :: "sl_store \<Rightarrow> LIST_INSTANCE option \<Rightarrow> sl_store cm" where
  "singlylinkedlist_destroy s list =
     (case list of
        None \<Rightarrow> ret s
      | Some list_instance \<Rightarrow> do {
          s1 \<leftarrow> destroy_loop (length s) s list_instance;
          c_free list;
          ret s1
        })"

text \<open>The loop \<open>while (current->next != NULL)\<close>.\<close>

fun last_loop :: "nat \<Rightarrow> sl_store \<Rightarrow> nat \<Rightarrow> nat cm" where
  "last_loop 0 s current = do { c_assert False; ret current }"
| "last_loop (Suc k) s current = do {
     n \<leftarrow> load_next s current;
     (case n of None \<Rightarrow> ret current | Some d \<Rightarrow> last_loop k s d)
   }"

text \<open>The new node is linked to the list, or to its last node.\<close>

definition link_last :: "sl_store \<Rightarrow> LIST_INSTANCE \<Rightarrow> nat \<Rightarrow> (sl_store \<times> LIST_INSTANCE) cm" where
  "link_last s list_instance result =
     (case list_head list_instance of
        None \<Rightarrow> ret (s, list_instance\<lparr>list_head := Some result\<rparr>)
      | Some h \<Rightarrow> do {
          current \<leftarrow> last_loop (length s) s h;
          s2 \<leftarrow> store_next s current (Some result);
          ret (s2, list_instance)
        })"

text \<open>The last argument is the address the allocator would give to the new node.\<close>

definition singlylinkedlist_add ::
    "sl_store \<Rightarrow> LIST_INSTANCE option \<Rightarrow> nat option \<Rightarrow> nat \<Rightarrow> (nat option \<times> sl_store \<times> LIST_INSTANCE option) cm" where
  "singlylinkedlist_add s list item c =
     (case (list, item) of
        (Some list_instance, Some i) \<Rightarrow> do {
          ok \<leftarrow> c_new;
          if \<not> ok then ret (None, s, list)
          else do {
            let result = node_address c s;
            let s1 = AList.update result \<lparr>node_item = i, node_next = None\<rparr> s;
            (s2, l2) \<leftarrow> link_last s1 list_instance result;
            ret (Some result, s2, Some l2)
          }
        }
      | _ \<Rightarrow> ret (None, s, list))"

text \<open>Taking a node out: the link that leads to it, in the node before it or in the list, is set to its successor.\<close>

definition relink :: "sl_store \<Rightarrow> LIST_INSTANCE \<Rightarrow> nat option \<Rightarrow> nat option \<Rightarrow> (sl_store \<times> LIST_INSTANCE) cm" where
  "relink s l previous_item n =
     (case previous_item of
        Some p \<Rightarrow> do { s1 \<leftarrow> store_next s p n; ret (s1, l) }
      | None \<Rightarrow> ret (s, l\<lparr>list_head := n\<rparr>))"

fun remove_loop ::
    "nat \<Rightarrow> sl_store \<Rightarrow> LIST_INSTANCE \<Rightarrow> nat \<Rightarrow> nat option \<Rightarrow> nat option \<Rightarrow> (nat option \<times> sl_store \<times> LIST_INSTANCE) cm" where
  "remove_loop 0 s l item current previous = do { c_assert (current = None); ret (current, s, l) }"
| "remove_loop (Suc k) s l item current previous =
     (case current of
        None \<Rightarrow> ret (None, s, l)
      | Some current_item \<Rightarrow>
          if current_item = item then do {
            n \<leftarrow> load_next s current_item;
            (s1, l1) \<leftarrow> relink s l previous n;
            s2 \<leftarrow> free_node s1 current_item;
            ret (current, s2, l1)
          }
          else do {
            n \<leftarrow> load_next s current_item;
            remove_loop k s l item n current
          })"

definition singlylinkedlist_remove ::
    "sl_store \<Rightarrow> LIST_INSTANCE option \<Rightarrow> nat option \<Rightarrow> (int \<times> sl_store \<times> LIST_INSTANCE option) cm" where
  "singlylinkedlist_remove s list item =
     (case (list, item) of
        (Some list_instance, Some i) \<Rightarrow> do {
          (current_item, s1, l1) \<leftarrow> remove_loop (length s) s list_instance i (list_head list_instance) None;
          ret (if current_item = None then FAILURE else 0, s1, Some l1)
        }
      | _ \<Rightarrow> ret (FAILURE, s, list))"

definition singlylinkedlist_get_head_item :: "LIST_INSTANCE option \<Rightarrow> nat option" where
  "singlylinkedlist_get_head_item list = (case list of None \<Rightarrow> None | Some list_instance \<Rightarrow> list_head list_instance)"

definition singlylinkedlist_get_next_item :: "sl_store \<Rightarrow> nat option \<Rightarrow> nat option cm" where
  "singlylinkedlist_get_next_item s item_handle = (case item_handle of None \<Rightarrow> ret None | Some p \<Rightarrow> load_next s p)"

definition singlylinkedlist_item_get_value :: "sl_store \<Rightarrow> nat option \<Rightarrow> nat option cm" where
  "singlylinkedlist_item_get_value s item_handle =
     (case item_handle of None \<Rightarrow> ret None | Some p \<Rightarrow> do { i \<leftarrow> load_item s p; ret (Some i) })"

text \<open>The match function of the client is handed the node and its context.\<close>

fun match_loop :: "nat \<Rightarrow> sl_store \<Rightarrow> (nat \<Rightarrow> nat \<Rightarrow> bool) \<Rightarrow> nat \<Rightarrow> nat option \<Rightarrow> nat option cm" where
  "match_loop 0 s match_function ctx current = do { c_assert (current = None); ret current }"
| "match_loop (Suc k) s match_function ctx current =
     (case current of
        None \<Rightarrow> ret None
      | Some p \<Rightarrow>
          if match_function p ctx then ret current
          else do { n \<leftarrow> load_next s p; match_loop k s match_function ctx n })"

definition singlylinkedlist_find ::
    "sl_store \<Rightarrow> LIST_INSTANCE option \<Rightarrow> (nat \<Rightarrow> nat \<Rightarrow> bool) option \<Rightarrow> nat \<Rightarrow> nat option cm" where
  "singlylinkedlist_find s list match_function match_context =
     (case (list, match_function) of
        (Some list_instance, Some f) \<Rightarrow> match_loop (length s) s f match_context (list_head list_instance)
      | _ \<Rightarrow> ret None)"

text \<open>The condition function says whether the item goes, and whether the loop goes on.\<close>

fun remove_if_loop ::
    "nat \<Rightarrow> sl_store \<Rightarrow> LIST_INSTANCE \<Rightarrow> (nat \<Rightarrow> bool \<times> bool) \<Rightarrow> nat option \<Rightarrow> nat option \<Rightarrow> (sl_store \<times> LIST_INSTANCE) cm" where
  "remove_if_loop 0 s l f current previous = do { c_assert (current = None); ret (s, l) }"
| "remove_if_loop (Suc k) s l f current previous =
     (case current of
        None \<Rightarrow> ret (s, l)
      | Some current_item \<Rightarrow> do {
          next_item \<leftarrow> load_next s current_item;
          i \<leftarrow> load_item s current_item;
          let (gone, continue_processing) = f i;
          (s2, l2, previous') \<leftarrow>
            (if gone then do {
               (s1, l1) \<leftarrow> relink s l previous next_item;
               s2 \<leftarrow> free_node s1 current_item;
               ret (s2, l1, previous)
             }
             else ret (s, l, current));
          if \<not> continue_processing then ret (s2, l2)
          else remove_if_loop k s2 l2 f next_item previous'
        })"

definition singlylinkedlist_remove_if ::
    "sl_store \<Rightarrow> LIST_INSTANCE option \<Rightarrow> (nat \<Rightarrow> bool \<times> bool) option \<Rightarrow> (int \<times> sl_store \<times> LIST_INSTANCE option) cm" where
  "singlylinkedlist_remove_if s list condition_function =
     (case (list, condition_function) of
        (Some list_instance, Some f) \<Rightarrow> do {
          (s1, l1) \<leftarrow> remove_if_loop (length s) s list_instance f (list_head list_instance) None;
          ret (0, s1, Some l1)
        }
      | _ \<Rightarrow> ret (FAILURE, s, list))"

text \<open>The action changes the client's context and says whether the loop goes on.\<close>

fun foreach_loop :: "nat \<Rightarrow> sl_store \<Rightarrow> (nat \<Rightarrow> 'c \<Rightarrow> 'c \<times> bool) \<Rightarrow> 'c \<Rightarrow> nat option \<Rightarrow> 'c cm" where
  "foreach_loop 0 s action ctx list_item = do { c_assert (list_item = None); ret ctx }"
| "foreach_loop (Suc k) s action ctx list_item =
     (case list_item of
        None \<Rightarrow> ret ctx
      | Some p \<Rightarrow> do {
          i \<leftarrow> load_item s p;
          let (ctx', continue_processing) = action i ctx;
          if \<not> continue_processing then ret ctx'
          else do { n \<leftarrow> load_next s p; foreach_loop k s action ctx' n }
        })"

definition singlylinkedlist_foreach ::
    "sl_store \<Rightarrow> LIST_INSTANCE option \<Rightarrow> (nat \<Rightarrow> 'c \<Rightarrow> 'c \<times> bool) option \<Rightarrow> 'c \<Rightarrow> (int \<times> 'c) cm" where
  "singlylinkedlist_foreach s list action_function action_context =
     (case (list, action_function) of
        (Some list_instance, Some f) \<Rightarrow> do {
          ctx \<leftarrow> foreach_loop (length s) s f action_context (list_head list_instance);
          ret (0, ctx)
        }
      | _ \<Rightarrow> ret (FAILURE, action_context))"

section \<open>Lists in the store\<close>

text \<open>\<open>seg m p as q\<close>: from \<open>p\<close> the links lead through the nodes \<open>as\<close> to \<open>q\<close>.\<close>

fun seg :: "(nat \<rightharpoonup> LIST_ITEM_INSTANCE) \<Rightarrow> nat option \<Rightarrow> nat list \<Rightarrow> nat option \<Rightarrow> bool" where
  "seg m p [] q \<longleftrightarrow> p = q"
| "seg m p (a # as) q \<longleftrightarrow> p = Some a \<and> (\<exists>e. m a = Some e \<and> seg m (node_next e) as q)"

definition slist :: "(nat \<rightharpoonup> LIST_ITEM_INSTANCE) \<Rightarrow> nat option \<Rightarrow> nat list \<Rightarrow> bool" where
  "slist m p as \<longleftrightarrow> seg m p as None \<and> distinct as"

definition entries :: "(nat \<rightharpoonup> LIST_ITEM_INSTANCE) \<Rightarrow> nat list \<Rightarrow> (nat \<times> nat) list" where
  "entries m as = map (\<lambda>a. (a, node_item (the (m a)))) as"

text \<open>The node before the rest of a list whose first part is \<open>us\<close>.\<close>

definition prev_of :: "nat list \<Rightarrow> nat option" where
  "prev_of us = (if us = [] then None else Some (last us))"

lemma entries_simps [simp]: "entries m [] = []" "entries m (a # as) = (a, node_item (the (m a))) # entries m as"
  "entries m (as @ bs) = entries m as @ entries m bs" "map fst (entries m as) = as" "fst ` set (entries m as) = set as"
  by (auto simp: entries_def comp_def image_image)

lemma seg_append: "seg m p (us @ vs) q \<longleftrightarrow> (\<exists>r. seg m p us r \<and> seg m r vs q)"
  by (induction us arbitrary: p) auto

lemma seg_cong: "(\<And>a. a \<in> set us \<Longrightarrow> m' a = m a) \<Longrightarrow> seg m' p us q = seg m p us q"
  by (induction us arbitrary: p) auto

lemma seg_dom: "seg m p us q \<Longrightarrow> set us \<subseteq> dom m"
  by (induction us arbitrary: p) auto

lemma seg_unique: "seg m p as None \<Longrightarrow> seg m p bs None \<Longrightarrow> as = bs"
proof (induction as arbitrary: p bs)
  case Nil
  then show ?case by (cases bs) auto
next
  case (Cons a as)
  then show ?case by (cases bs) auto
qed

lemma slist_dom: "slist m p as \<Longrightarrow> set as \<subseteq> dom m"
  using seg_dom [of m p as None] by (simp add: slist_def)

lemma slist_length:
  assumes "slist (map_of s) p as"
  shows "length as \<le> length s"
proof -
  have "set as \<subseteq> fst ` set s" using seg_dom [of "map_of s" p as None] assms by (simp add: slist_def dom_map_of_conv_image_fst)
  then have "card (set as) \<le> card (fst ` set s)" by (intro card_mono) auto
  also have "\<dots> \<le> length s" using card_image_le [of "set s" fst] card_length [of s] by simp
  finally show ?thesis using assms by (simp add: slist_def distinct_card)
qed

lemma wp_node [simp]:
  "map_of s p = Some e \<Longrightarrow> wp (load_next s p) Q w = Q (node_next e) w"
  "map_of s p = Some e \<Longrightarrow> wp (load_item s p) R w = R (node_item e) w"
  "map_of s p = Some e \<Longrightarrow> wp (store_next s p v) T w = T (AList.update p (e\<lparr>node_next := v\<rparr>) s) w"
  "map_of s p = Some e \<Longrightarrow> wp (free_node s p) T w = T (AList.delete p s) (w\<lparr>live := live w - 1\<rparr>)"
  by (simp_all add: load_next_def load_item_def store_next_def free_node_def)

lemma map_of_store [simp]:
  "map_of (AList.update p e s) = (map_of s)(p \<mapsto> e)" "map_of (AList.delete p s) = (map_of s)(p := None)"
  by (simp_all add: update_conv' delete_conv')

lemma node_address_free: "map_of s (node_address c s) = None"
proof -
  have "a \<le> foldr (\<lambda>(a, e). max a) s 0" if "(a, e) \<in> set s" for a e
    using that by (induction s) (auto simp: le_max_iff_disj)
  then have "map_of s (Suc (foldr (\<lambda>(a, e). max a) s 0)) = None"
    by (force simp: map_of_eq_None_iff)
  then show ?thesis by (simp add: node_address_def)
qed

section \<open>Taking nodes out\<close>

text \<open>From \<open>as\<close> to \<open>as'\<close> the store keeps the items of the nodes that stay, frees the others, and is the same elsewhere.\<close>

definition sl_kept :: "(nat \<rightharpoonup> LIST_ITEM_INSTANCE) \<Rightarrow> (nat \<rightharpoonup> LIST_ITEM_INSTANCE) \<Rightarrow> nat list \<Rightarrow> nat list \<Rightarrow> bool" where
  "sl_kept m m' as as' \<longleftrightarrow> set as' \<subseteq> set as \<and> (\<forall>a \<in> set as'. map_option node_item (m' a) = map_option node_item (m a)) \<and>
     (\<forall>a. a \<notin> set as \<longrightarrow> m' a = m a) \<and> (\<forall>a \<in> set as - set as'. m' a = None)"

lemma sl_kept_refl [simp]: "sl_kept m m as as"
  by (simp add: sl_kept_def)

lemma sl_kept_trans: "sl_kept m m1 as bs \<Longrightarrow> sl_kept m1 m2 bs cs \<Longrightarrow> sl_kept m m2 as cs"
  unfolding sl_kept_def by (metis Diff_iff subsetD subset_trans)

lemma sl_kept_entries:
  assumes "sl_kept m m' as bs" "seg m' p bs None" "set as \<subseteq> dom m"
  shows "entries m' bs = entries m bs"
proof -
  have "node_item (the (m' a)) = node_item (the (m a))" if a: "a \<in> set bs" for a
  proof -
    obtain e' where "m' a = Some e'" using seg_dom [OF assms(2)] a by auto
    moreover have "map_option node_item (m' a) = map_option node_item (m a)" using assms(1) a by (simp add: sl_kept_def)
    ultimately show ?thesis by (cases "m a") auto
  qed
  then show ?thesis by (simp add: entries_def)
qed

lemma seg_relinked:
  assumes "seg m p (us @ [a]) r" "a \<notin> set us" "m a = Some e"
  shows "seg (m(a \<mapsto> e\<lparr>node_next := q\<rparr>)) p (us @ [a]) q"
proof -
  have "seg m p us (Some a)" using assms(1) by (auto simp: seg_append)
  then have "seg (m(a \<mapsto> e\<lparr>node_next := q\<rparr>)) p us (Some a)" using assms(2) by (subst seg_cong) auto
  then show ?thesis by (simp add: seg_append)
qed

lemma wp_unlink:
  assumes l: "slist (map_of s) (list_head l) (us @ c # vs)" and e: "map_of s c = Some e"
    and Q: "\<And>s' l'. slist (map_of s') (list_head l') (us @ vs) \<Longrightarrow> sl_kept (map_of s) (map_of s') (us @ c # vs) (us @ vs) \<Longrightarrow>
      Q (s', l') (w\<lparr>live := live w - 1\<rparr>)"
  shows "wp (do { (s1, l1) \<leftarrow> relink s l (prev_of us) (node_next e); s2 \<leftarrow> free_node s1 c; ret (s2, l1) }) Q w"
proof (cases us rule: rev_cases)
  case Nil
  have vs: "seg (map_of s) (node_next e) vs None" "distinct vs" "c \<notin> set vs" using l e Nil by (auto simp: slist_def)
  then have "seg ((map_of s)(c := None)) (node_next e) vs None" by (subst seg_cong) auto
  then have "Q (AList.delete c s, l\<lparr>list_head := node_next e\<rparr>) (w\<lparr>live := live w - 1\<rparr>)"
    using vs Nil by (intro Q) (auto simp: slist_def sl_kept_def)
  then show ?thesis using Nil e by (simp add: relink_def prev_of_def)
next
  case (snoc us' a)
  have d: "distinct (us' @ [a])" "c \<notin> set (us' @ [a])" "distinct vs" "set (us' @ [a]) \<inter> set vs = {}" "c \<notin> set vs" "a \<noteq> c"
    using l snoc by (auto simp: slist_def)
  have "seg (map_of s) (list_head l) ((us' @ [a]) @ c # vs) None" using l snoc by (simp add: slist_def)
  then have sg: "seg (map_of s) (list_head l) (us' @ [a]) (Some c)" "seg (map_of s) (node_next e) vs None"
    using e unfolding seg_append [of _ _ "us' @ [a]"] by auto
  obtain ea where ea: "map_of s a = Some ea" using seg_dom [OF sg(1)] by auto
  let ?m = "(map_of s)(a \<mapsto> ea\<lparr>node_next := node_next e\<rparr>)"
  have "seg ?m (list_head l) (us' @ [a]) (node_next e)" using seg_relinked [OF sg(1) _ ea] d(1) by simp
  then have 1: "seg (?m(c := None)) (list_head l) (us' @ [a]) (node_next e)" using d(2) by (subst seg_cong) auto
  have 2: "seg (?m(c := None)) (node_next e) vs None" using sg(2) d by (subst seg_cong) auto
  from 1 2 have "seg (?m(c := None)) (list_head l) (us @ vs) None" unfolding snoc seg_append [of _ _ "us' @ [a]"] by blast
  moreover have "map_option node_item (?m b) = map_option node_item (map_of s b)" for b using ea by simp
  ultimately have "Q (AList.delete c (AList.update a (ea\<lparr>node_next := node_next e\<rparr>) s), l) (w\<lparr>live := live w - 1\<rparr>)"
    using snoc d ea by (intro Q) (auto simp: slist_def sl_kept_def)
  then show ?thesis using snoc e ea d(6) by (simp add: relink_def prev_of_def)
qed

section \<open>What the loops do\<close>

lemma wp_destroy_loop:
  "slist (map_of s) (list_head l) as \<Longrightarrow> length as \<le> k \<Longrightarrow>
   (\<And>s'. map_of s' = map_of s |` (- set as) \<Longrightarrow> Q s' (w\<lparr>live := live w - int (length as)\<rparr>)) \<Longrightarrow> wp (destroy_loop k s l) Q w"
proof (induction as arbitrary: k s l w)
  case Nil
  then show ?case by (cases k) (auto simp: slist_def restrict_map_def)
next
  case (Cons a as)
  then obtain e k' where e: "list_head l = Some a" "map_of s a = Some e" "seg (map_of s) (node_next e) as None" "a \<notin> set as" "distinct as"
      "k = Suc k'" by (cases k) (auto simp: slist_def)
  have "seg ((map_of s)(a := None)) (node_next e) as None" using e(3,4) by (subst seg_cong) auto
  then have "slist (map_of (AList.delete a s)) (list_head (l\<lparr>list_head := node_next e\<rparr>)) as" using e(5) by (simp add: slist_def)
  then have "wp (destroy_loop k' (AList.delete a s) (l\<lparr>list_head := node_next e\<rparr>)) Q (w\<lparr>live := live w - 1\<rparr>)"
  proof (rule Cons.IH, goal_cases)
    case (2 s')
    then have "map_of s' = map_of s |` (- set (a # as))" by (auto simp: restrict_map_def fun_eq_iff)
    from Cons.prems(3) [OF this] show ?case by (simp add: algebra_simps)
  qed (use Cons.prems(2) e(6) in simp)
  then show ?case using e by simp
qed

lemma wp_last_loop:
  "seg (map_of s) (Some a) (a # as) None \<Longrightarrow> length as < k \<Longrightarrow> wp (last_loop k s a) Q w = Q (last (a # as)) w"
proof (induction as arbitrary: a k)
  case Nil
  then show ?case by (cases k) auto
next
  case (Cons b as)
  then show ?case by (cases k) auto
qed

lemma wp_remove_loop:
  assumes "p \<notin> set vs \<Longrightarrow> Q (None, s, l) w"
    and "\<And>s' l' xs ys. vs = xs @ p # ys \<Longrightarrow> slist (map_of s') (list_head l') (us @ xs @ ys) \<Longrightarrow>
      sl_kept (map_of s) (map_of s') (us @ vs) (us @ xs @ ys) \<Longrightarrow> Q (Some p, s', l') (w\<lparr>live := live w - 1\<rparr>)"
  shows "slist (map_of s) (list_head l) (us @ vs) \<Longrightarrow> seg (map_of s) c vs None \<Longrightarrow> length vs \<le> k \<Longrightarrow>
    wp (remove_loop k s l p c (prev_of us)) Q w"
  using assms
proof (induction vs arbitrary: us c k)
  case Nil
  then show ?case by (cases k) auto
next
  case (Cons a vs)
  obtain e k' where e: "c = Some a" "map_of s a = Some e" "seg (map_of s) (node_next e) vs None" "k = Suc k'"
    using Cons.prems(2,3) by (cases k) auto
  show ?case
  proof (cases "a = p")
    case True
    have "wp (do { (s1, l1) \<leftarrow> relink s l (prev_of us) (node_next e); s2 \<leftarrow> free_node s1 a; ret (s2, l1) })
        (\<lambda>(s2, l1). Q (Some a, s2, l1)) w"
      using Cons.prems(5) [of "[]" vs] True by (intro wp_unlink [OF Cons.prems(1) e(2)]) simp
    then show ?thesis using e True by (simp add: case_prod_unfold wp_bind_eta)
  next
    case False
    have "wp (remove_loop k' s l p (node_next e) (prev_of (us @ [a]))) Q w"
    proof (rule Cons.IH, goal_cases)
      case (5 xs ys s' l')
      then show ?case using Cons.prems(5) [of "a # xs" ys s' l'] by simp
    qed (use Cons.prems(1,3,4) e False in auto)
    then show ?thesis using e False by (simp add: prev_of_def)
  qed
qed

text \<open>What \<open>singlylinkedlist_remove_if\<close> leaves, and what \<open>singlylinkedlist_foreach\<close> does to the context.\<close>

fun remove_if :: "(nat \<Rightarrow> bool \<times> bool) \<Rightarrow> (nat \<times> nat) list \<Rightarrow> (nat \<times> nat) list" where
  "remove_if f [] = []"
| "remove_if f ((p, i) # es) =
     (let (gone, continue) = f i; rest = if continue then remove_if f es else es in if gone then rest else (p, i) # rest)"

fun act_all :: "(nat \<Rightarrow> 'c \<Rightarrow> 'c \<times> bool) \<Rightarrow> nat list \<Rightarrow> 'c \<Rightarrow> 'c" where
  "act_all f [] ctx = ctx"
| "act_all f (i # is) ctx = (let (ctx', continue) = f i ctx in if continue then act_all f is ctx' else ctx')"

lemma wp_remove_if_loop:
  "slist (map_of s) (list_head l) (us @ vs) \<Longrightarrow> seg (map_of s) c vs None \<Longrightarrow> length vs \<le> k \<Longrightarrow>
   (\<And>s' l' ws. map fst (remove_if f (entries (map_of s) vs)) = ws \<Longrightarrow> slist (map_of s') (list_head l') (us @ ws) \<Longrightarrow>
      sl_kept (map_of s) (map_of s') (us @ vs) (us @ ws) \<Longrightarrow> Q (s', l') (w\<lparr>live := live w - int (length vs) + int (length ws)\<rparr>)) \<Longrightarrow>
   wp (remove_if_loop k s l f c (prev_of us)) Q w"
proof (induction vs arbitrary: us c k s l w)
  case Nil
  then show ?case by (cases k) auto
next
  case (Cons a vs)
  obtain e k' where e: "c = Some a" "map_of s a = Some e" "seg (map_of s) (node_next e) vs None" "k = Suc k'"
    using Cons.prems(2,3) by (cases k) auto
  obtain gone cont where f: "f (node_item e) = (gone, cont)" by (cases "f (node_item e)")
  have dist: "a \<notin> set us" "a \<notin> set vs" using Cons.prems(1) by (auto simp: slist_def)
  show ?case
  proof (cases gone)
    case False
    have "wp (if \<not> cont then ret (s, l) else remove_if_loop k' s l f (node_next e) (prev_of (us @ [a]))) Q w"
    proof (cases cont)
      case True
      have "wp (remove_if_loop k' s l f (node_next e) (prev_of (us @ [a]))) Q w"
      proof (rule Cons.IH, goal_cases)
        case (4 s' l' ws)
        then show ?case using Cons.prems(4) [of "a # ws" s' l'] e(2) f True False by (simp add: algebra_simps)
      qed (use Cons.prems(1,3) e in auto)
      then show ?thesis using True by simp
    next
      case cont: False
      then show ?thesis using Cons.prems(1) Cons.prems(4) [of "a # vs" s l] e(2) f False by simp
    qed
    then show ?thesis using e f False by (cases cont) (simp_all add: prev_of_def)
  next
    case True
    have "wp (do { (s1, l1) \<leftarrow> relink s l (prev_of us) (node_next e); s2 \<leftarrow> free_node s1 a; ret (s2, l1) })
        (\<lambda>(s2, l1). wp (if \<not> cont then ret (s2, l1) else remove_if_loop k' s2 l1 f (node_next e) (prev_of us)) Q) w"
    proof (rule wp_unlink [OF Cons.prems(1) e(2)], simp only: prod.case, goal_cases)
      case (1 s2 l1)
      have sub: "set (us @ a # vs) \<subseteq> dom (map_of s)" using Cons.prems(1) by (rule slist_dom)
      have "entries (map_of s2) (us @ vs) = entries (map_of s) (us @ vs)"
        by (rule sl_kept_entries [OF 1(2) _ sub]) (use 1(1) in \<open>auto simp: slist_def\<close>)
      then have ent: "entries (map_of s2) vs = entries (map_of s) vs" by (simp add: entries_def)
      show ?case
      proof (cases cont)
        case c: True
        obtain q where "seg (map_of s2) (list_head l1) us q" and q: "seg (map_of s2) q vs None"
          using 1(1) by (auto simp: slist_def seg_append)
        have "q = node_next e"
          using q e(3) by (cases vs) auto
        have "wp (remove_if_loop k' s2 l1 f (node_next e) (prev_of us)) Q (w\<lparr>live := live w - 1\<rparr>)"
        proof (rule Cons.IH [OF 1(1)], goal_cases)
          case (3 s' l' ws)
          have "sl_kept (map_of s) (map_of s') (us @ a # vs) (us @ ws)" by (rule sl_kept_trans [OF 1(2) 3(3)])
          then show ?case
            using Cons.prems(4) [of ws s' l'] 3(1,2) e(2) f True c by (simp add: ent algebra_simps)
        qed (use q \<open>q = _\<close> Cons.prems(3) e(4) in auto)
        then show ?thesis using c by simp
      next
        case c: False
        then show ?thesis using Cons.prems(4) [of vs s2 l1] 1 e(2) f True by simp
      qed
    qed
    then show ?thesis using e f True by (cases cont) (simp_all add: case_prod_unfold wp_bind_eta)
  qed
qed

lemma wp_match_loop:
  "seg (map_of s) c as None \<Longrightarrow> length as \<le> k \<Longrightarrow>
   wp (match_loop k s f ctx c) Q w = Q (List.find (\<lambda>p. f p ctx) as) w"
proof (induction as arbitrary: c k)
  case Nil
  then show ?case by (cases k) auto
next
  case (Cons a as)
  then show ?case by (cases k) auto
qed

lemma wp_foreach_loop:
  "seg (map_of s) c as None \<Longrightarrow> length as \<le> k \<Longrightarrow>
   wp (foreach_loop k s f ctx c) Q w = Q (act_all f (map snd (entries (map_of s) as)) ctx) w"
proof (induction as arbitrary: c k ctx)
  case Nil
  then show ?case by (cases k) auto
next
  case (Cons a as)
  then show ?case by (cases k) (auto split: prod.splits)
qed

section \<open>The contract\<close>

text \<open>The nodes of a list, found by following the links; the abstract value is the nodes with their items and the rest of the store.\<close>

fun walk :: "nat \<Rightarrow> sl_store \<Rightarrow> nat option \<Rightarrow> nat list" where
  "walk 0 s p = []"
| "walk (Suc k) s p =
     (case p of None \<Rightarrow> [] | Some a \<Rightarrow> a # (case map_of s a of None \<Rightarrow> [] | Some e \<Rightarrow> walk k s (node_next e)))"

type_synonym sl_handle = "sl_store \<times> LIST_INSTANCE"

definition nodes :: "sl_handle \<Rightarrow> nat list" where
  "nodes h = (case h of (s, l) \<Rightarrow> walk (length s) s (list_head l))"

definition sl_wf :: "sl_handle \<Rightarrow> bool" where
  "sl_wf h \<longleftrightarrow> slist (map_of (fst h)) (list_head (snd h)) (nodes h)"

type_synonym sl_value = "(nat \<times> nat) list \<times> (nat \<rightharpoonup> LIST_ITEM_INSTANCE)"

definition sl_abs :: "sl_handle \<Rightarrow> sl_value" where
  "sl_abs h = (entries (map_of (fst h)) (nodes h), map_of (fst h) |` (- set (nodes h)))"

definition sl_blocks :: "sl_handle option \<Rightarrow> int" where
  "sl_blocks h = (case h of None \<Rightarrow> 0 | Some x \<Rightarrow> 1 + int (length (nodes x)))"

datatype sl_op =
    AddItem nat "nat option"
  | RemoveItem "nat option"
  | RemoveIf "(nat \<Rightarrow> bool \<times> bool) option"

datatype sl_result = Handle "nat option" | Status int

fun sl_exec :: "sl_op \<Rightarrow> sl_handle option \<Rightarrow> (sl_result \<times> sl_handle option) cm" where
  "sl_exec op None = ret (Status FAILURE, None)"
| "sl_exec (AddItem c i) (Some (s, l)) = do {
     (r, s', l') \<leftarrow> singlylinkedlist_add s (Some l) i c; ret (Handle r, map_option (Pair s') l') }"
| "sl_exec (RemoveItem p) (Some (s, l)) = do {
     (r, s', l') \<leftarrow> singlylinkedlist_remove s (Some l) p; ret (Status r, map_option (Pair s') l') }"
| "sl_exec (RemoveIf f) (Some (s, l)) = do {
     (r, s', l') \<leftarrow> singlylinkedlist_remove_if s (Some l) f; ret (Status r, map_option (Pair s') l') }"

fun sl_spec :: "sl_op \<Rightarrow> sl_result \<Rightarrow> sl_value \<Rightarrow> sl_value \<Rightarrow> bool" where
  "sl_spec (AddItem c (Some i)) r (es, m) a' \<longleftrightarrow> r = Handle None \<and> a' = (es, m) \<or>
     (\<exists>p. r = Handle (Some p) \<and> p \<notin> fst ` set es \<and> m p = None \<and> a' = (es @ [(p, i)], m))"
| "sl_spec (AddItem c None) r a a' \<longleftrightarrow> r = Handle None \<and> a' = a"
| "sl_spec (RemoveItem (Some p)) r (es, m) a' \<longleftrightarrow>
     (if p \<in> fst ` set es then r = Status 0 \<and> a' = (filter (\<lambda>(q, i). q \<noteq> p) es, m) else r = Status FAILURE \<and> a' = (es, m))"
| "sl_spec (RemoveIf (Some f)) r (es, m) a' \<longleftrightarrow> r = Status 0 \<and> a' = (remove_if f es, m)"
| "sl_spec _ r a a' \<longleftrightarrow> r = Status FAILURE \<and> a' = a"

fun sl_oom :: "sl_op \<Rightarrow> sl_result \<Rightarrow> sl_value \<Rightarrow> bool" where
  "sl_oom (AddItem c (Some i)) r a \<longleftrightarrow> r = Handle None"
| "sl_oom op r a \<longleftrightarrow> False"

definition sl_new :: "sl_store \<Rightarrow> sl_handle option cm" where
  "sl_new s = do { l \<leftarrow> singlylinkedlist_create; ret (map_option (Pair s) l) }"

definition sl_delete :: "sl_handle option \<Rightarrow> unit cm" where
  "sl_delete h = (case h of None \<Rightarrow> ret () | Some (s, l) \<Rightarrow> do { s' \<leftarrow> singlylinkedlist_destroy s (Some l); ret () })"

lemma walk_seg: "seg (map_of s) p as None \<Longrightarrow> length as \<le> k \<Longrightarrow> walk k s p = as"
proof (induction as arbitrary: p k)
  case Nil
  then show ?case by (cases k) auto
next
  case (Cons a as)
  then show ?case by (cases k) auto
qed

lemma nodes_slist: "slist (map_of s) (list_head l) as \<Longrightarrow> nodes (s, l) = as \<and> sl_wf (s, l)"
  using slist_length [of s "list_head l" as] walk_seg [of s "list_head l" as "length s"]
  by (simp add: nodes_def sl_wf_def slist_def)

definition sl_step_ok :: "sl_op \<Rightarrow> sl_handle \<Rightarrow> world \<Rightarrow> sl_result \<times> sl_handle option \<Rightarrow> world \<Rightarrow> bool" where
  "sl_step_ok op h w = (\<lambda>(r, h1) w'. \<exists>h'. h1 = Some h' \<and> sl_wf h' \<and> faults w' = faults w \<and>
     live w' - live w = sl_blocks (Some h') - sl_blocks (Some h) \<and> sl_spec op r (sl_abs h) (sl_abs h') \<and>
     (sl_oom op r (sl_abs h) \<longrightarrow> \<not> plenty 1 w))"

lemma sl_step_same:
  assumes "sl_wf h" "sl_spec op r (sl_abs h) (sl_abs h)" "live w' = live w" "faults w' = faults w" "sl_oom op r (sl_abs h) \<Longrightarrow> \<not> plenty 1 w"
  shows "sl_step_ok op h w (r, Some h) w'"
  using assms by (cases h) (auto simp: sl_step_ok_def)

lemma sl_kept_rest: "sl_kept m m' as bs \<Longrightarrow> m' |` (- set bs) = m |` (- set as)"
  by (auto simp: sl_kept_def restrict_map_def fun_eq_iff)

lemma sl_step_kept:
  assumes h: "slist (map_of s) (list_head l) as" "slist (map_of s') (list_head l') bs" and k: "sl_kept (map_of s) (map_of s') as bs"
    and spec: "sl_spec op r (entries (map_of s) as, map_of s |` (- set as)) (entries (map_of s) bs, map_of s |` (- set as))"
    and live: "live w' = live w - int (length as) + int (length bs)" "faults w' = faults w" and oom: "\<not> sl_oom op r (sl_abs (s, l))"
  shows "sl_step_ok op (s, l) w (r, Some (s', l')) w'"
proof -
  have "set as \<subseteq> dom (map_of s)" "seg (map_of s') (list_head l') bs None" using slist_dom [OF h(1)] h(2) by (simp_all add: slist_def)
  then have "entries (map_of s') bs = entries (map_of s) bs" using sl_kept_entries [OF k] by blast
  then show ?thesis
    using nodes_slist [OF h(1)] nodes_slist [OF h(2)] sl_kept_rest [OF k] spec live oom
    by (simp add: sl_step_ok_def sl_abs_def sl_blocks_def)
qed

lemma wp_link_last:
  assumes l: "slist (map_of s) (list_head l) as" and p: "map_of s p = None" and n: "n = \<lparr>node_item = i, node_next = None\<rparr>"
    and Q: "\<And>s' l'. slist (map_of s') (list_head l') (as @ [p]) \<Longrightarrow> entries (map_of s') (as @ [p]) = entries (map_of s) as @ [(p, i)] \<Longrightarrow>
      \<forall>a. a \<notin> set (as @ [p]) \<longrightarrow> map_of s' a = map_of s a \<Longrightarrow> Q (s', l') w"
  shows "wp (link_last (AList.update p n s) l p) Q w"
proof -
  let ?s1 = "AList.update p n s"
  have pas: "p \<notin> set as" using slist_dom [OF l] p by auto
  have "seg (map_of ?s1) (list_head l) as None = seg (map_of s) (list_head l) as None"
    by (rule seg_cong) (use pas in auto)
  with l have s1: "seg (map_of ?s1) (list_head l) as None" unfolding slist_def by blast
  show ?thesis
  proof (cases as rule: rev_cases)
    case Nil
    then have "Q (?s1, l\<lparr>list_head := Some p\<rparr>) w" by (intro Q) (simp_all add: slist_def n)
    then show ?thesis using l Nil by (simp add: slist_def link_last_def)
  next
    case (snoc us z)
    obtain a bs where a: "as = a # bs" using snoc by (metis neq_Nil_conv snoc_eq_iff_butlast)
    have h: "list_head l = Some a" using l a by (simp add: slist_def)
    have len: "length bs < length ?s1" using slist_length [of ?s1 "list_head l" as] s1 l a by (simp add: slist_def)
    have z: "last (a # bs) = z" using a snoc by (metis last_snoc)
    have last: "wp (last_loop (length ?s1) ?s1 a) R w = R z w" for R
      using wp_last_loop [of ?s1 a bs "length ?s1" R w] s1 len a h z by simp
    have d: "z \<notin> set us" "z \<noteq> p" using l pas snoc by (auto simp: slist_def)
    obtain e where e: "map_of ?s1 z = Some e" "map_of s z = Some e" using slist_dom [OF l] snoc d(2) by auto
    let ?s2 = "AList.update z (e\<lparr>node_next := Some p\<rparr>) ?s1"
    have "seg (map_of ?s2) (list_head l) (us @ [z]) (Some p)"
      using seg_relinked [OF s1 [unfolded snoc] d(1) e(1), of "Some p"] by (simp only: map_of_store)
    moreover have "map_of ?s2 p = Some n" using d(2) by simp
    then have "seg (map_of ?s2) (Some p) [p] None" unfolding seg.simps by (simp add: n)
    ultimately have "seg (map_of ?s2) (list_head l) ((us @ [z]) @ [p]) None" unfolding seg_append [of _ _ "us @ [z]"] by blast
    then have "slist (map_of ?s2) (list_head l) (as @ [p])" using l pas unfolding slist_def snoc by simp
    moreover have "entries (map_of ?s2) (as @ [p]) = entries (map_of s) as @ [(p, i)]"
      using pas e(2) d(2) by (auto simp: entries_def n)
    ultimately have "Q (?s2, l) w" using snoc by (intro Q) auto
    then show ?thesis using h last e(1) by (simp add: link_last_def del: map_of_store)
  qed
qed

lemma add_step:
  assumes l: "slist (map_of s) (list_head l) as"
  shows "wp (sl_exec (AddItem c (Some i)) (Some (s, l))) (sl_step_ok (AddItem c (Some i)) (s, l) w) w"
proof -
  have free: "node_address c s \<notin> set as" using slist_dom [OF l] node_address_free [of s c] by auto
  have "wp (singlylinkedlist_add s (Some l) (Some i) c)
     (\<lambda>(r, s', l'). sl_step_ok (AddItem c (Some i)) (s, l) w (Handle r, map_option (Pair s') l')) w"
    unfolding singlylinkedlist_add_def option.case prod.case wp_bind
  proof (rule wp_new, goal_cases)
    case (1 w1)
    then have "sl_step_ok (AddItem c (Some i)) (s, l) w (Handle None, Some (s, l)) w1"
      using nodes_slist [OF l] by (intro sl_step_same) (auto simp: sl_abs_def not_plenty_next)
    then show ?case by simp
  next
    case (2 w1)
    show ?case
    proof (simp add: Let_def del: map_of_store, rule wp_link_last [OF l node_address_free [of s c] refl, of i], goal_cases)
      case (1 s' l')
      then have "map_of s' |` (- set (as @ [node_address c s])) = map_of s |` (- set as)"
        using node_address_free [of s c] by (auto simp: restrict_map_def fun_eq_iff)
      then have "sl_step_ok (AddItem c (Some i)) (s, l) w (Handle (Some (node_address c s)), Some (s', l')) w1"
        using nodes_slist [OF l] nodes_slist [OF 1(1)] 1(2) 2 free node_address_free [of s c]
        by (auto simp: sl_step_ok_def sl_abs_def sl_blocks_def)
      then show ?case by simp
    qed
  qed
  then show ?thesis by (simp add: case_prod_unfold)
qed

lemma remove_step:
  assumes l: "slist (map_of s) (list_head l) as"
  shows "wp (sl_exec (RemoveItem (Some p)) (Some (s, l))) (sl_step_ok (RemoveItem (Some p)) (s, l) w) w"
proof -
  have "wp (remove_loop (length s) s l p (list_head l) (prev_of []))
     (\<lambda>(c, s', l'). sl_step_ok (RemoveItem (Some p)) (s, l) w (Status (if c = None then FAILURE else 0), Some (s', l'))) w"
  proof (rule wp_remove_loop [where vs = as and us = "[]"], goal_cases)
    case 1
    then have "sl_step_ok (RemoveItem (Some p)) (s, l) w (Status FAILURE, Some (s, l)) w"
      using nodes_slist [OF l] by (intro sl_step_same) (auto simp: sl_abs_def)
    then show ?case by simp
  next
    case (2 s' l' xs ys)
    have "p \<notin> set (xs @ ys)" using l 2(1) by (auto simp: slist_def)
    then have "filter (\<lambda>x. x \<noteq> p) xs = xs" "filter (\<lambda>x. x \<noteq> p) ys = ys" by (auto simp: filter_id_conv)
    then have "filter (\<lambda>(q, i). q \<noteq> p) (entries (map_of s) as) = entries (map_of s) (xs @ ys)"
      unfolding 2(1) by (simp add: entries_def filter_map comp_def)
    then have "sl_step_ok (RemoveItem (Some p)) (s, l) w (Status 0, Some (s', l')) (w\<lparr>live := live w - 1\<rparr>)"
      using l 2 by (intro sl_step_kept) auto
    then show ?case by simp
  qed (use l slist_length [OF l] in \<open>simp_all add: slist_def\<close>)
  then show ?thesis by (simp add: singlylinkedlist_remove_def prev_of_def case_prod_unfold)
qed

lemma remove_if_step:
  assumes l: "slist (map_of s) (list_head l) as"
  shows "wp (sl_exec (RemoveIf (Some f)) (Some (s, l))) (sl_step_ok (RemoveIf (Some f)) (s, l) w) w"
proof -
  have keep: "entries m (map fst (remove_if f (entries m vs))) = remove_if f (entries m vs)" for m vs
  proof (induction vs)
    case (Cons a vs)
    then show ?case by (auto simp: Let_def split: prod.splits)
  qed simp
  have "wp (remove_if_loop (length s) s l f (list_head l) (prev_of []))
     (\<lambda>(s', l'). sl_step_ok (RemoveIf (Some f)) (s, l) w (Status 0, Some (s', l'))) w"
  proof (rule wp_remove_if_loop [where vs = as and us = "[]"], goal_cases)
    case (4 s' l' ws)
    then have "sl_step_ok (RemoveIf (Some f)) (s, l) w (Status 0, Some (s', l')) (w\<lparr>live := live w - int (length as) + int (length ws)\<rparr>)"
      using l keep [of "map_of s" as] by (intro sl_step_kept) auto
    then show ?case by simp
  qed (use l slist_length [OF l] in \<open>simp_all add: slist_def\<close>)
  then show ?thesis by (simp add: singlylinkedlist_remove_if_def prev_of_def case_prod_unfold)
qed

lemma sl_exec_ok:
  assumes "sl_wf h"
  shows "wp (sl_exec op (Some h)) (sl_step_ok op h w) w"
proof -
  obtain s l where h: "h = (s, l)" by (cases h)
  have sl: "slist (map_of s) (list_head l) (nodes h)" using assms by (simp add: sl_wf_def h)
  have null: "sl_step_ok op h w (r, Some h) w" if "sl_spec op r (sl_abs h) (sl_abs h)" "\<not> sl_oom op r (sl_abs h)" for r
    using that assms by (intro sl_step_same) auto
  show ?thesis
  proof (cases op)
    case (AddItem c i)
    then show ?thesis
      using add_step [OF sl] null [of "Handle None"] by (cases i) (simp_all add: h singlylinkedlist_add_def)
  next
    case (RemoveItem p)
    then show ?thesis
      using remove_step [OF sl] null [of "Status FAILURE"] by (cases p) (simp_all add: h singlylinkedlist_remove_def)
  next
    case (RemoveIf f)
    then show ?thesis
      using remove_if_step [OF sl] null [of "Status FAILURE"] by (cases f) (simp_all add: h singlylinkedlist_remove_if_def)
  qed
qed

interpretation sl: c_owned sl_exec sl_wf sl_abs "\<lambda>_. 0" sl_blocks "\<lambda>_. True" "\<lambda>_. 0" "\<lambda>_. 1"
  sl_spec sl_oom "sl_new s0" 1 sl_delete "([], map_of s0)" for s0
proof (unfold_locales, goal_cases)
  case (1 h op w)
  show ?case using sl_exec_ok [OF 1(1), of op w] by (simp add: sl_step_ok_def)
next
  case (2 w)
  have "nodes (s0, \<lparr>list_head = None\<rparr>) = [] \<and> sl_wf (s0, \<lparr>list_head = None\<rparr>)"
    by (rule nodes_slist) (simp add: slist_def)
  then show ?case
    unfolding sl_new_def singlylinkedlist_create_def wp_bind
    by (intro wp_new) (simp_all add: not_plenty_next sl_blocks_def sl_abs_def restrict_map_def)
next
  case (3 h w)
  show ?case
  proof (cases h)
    case (Some x)
    obtain s l where x: "x = (s, l)" by (cases x)
    have sl: "slist (map_of s) (list_head l) (nodes x)" using 3 Some by (simp add: sl_wf_def x)
    have "wp (destroy_loop (length s) s l) (\<lambda>s' w1. wp (do { c_free (Some l); ret () })
       (\<lambda>_ w'. live w' = live w - sl_blocks h \<and> faults w' = faults w) w1) w"
      by (rule wp_destroy_loop [OF sl slist_length [OF sl]]) (simp add: Some sl_blocks_def)
    then show ?thesis by (auto simp: sl_delete_def singlylinkedlist_destroy_def Some x elim!: wp_mono)
  qed (simp add: sl_delete_def sl_blocks_def)
qed

section \<open>Reading a list\<close>

text \<open>The first node that matches, the items in their order, and the walk with \<open>singlylinkedlist_get_head_item\<close> and
  \<open>singlylinkedlist_get_next_item\<close>.\<close>

lemma slist_read:
  assumes "sl_wf (s, l)"
  shows "wp (singlylinkedlist_find s (Some l) (Some f) ctx) Q w = Q (List.find (\<lambda>p. f p ctx) (nodes (s, l))) w"
    and "wp (singlylinkedlist_foreach s (Some l) (Some g) ctx') R w = R (0, act_all g (map snd (fst (sl_abs (s, l)))) ctx') w"
    and "singlylinkedlist_get_head_item (Some l) = (case nodes (s, l) of [] \<Rightarrow> None | a # as \<Rightarrow> Some a)"
    and "nodes (s, l) = us @ a # vs \<Longrightarrow>
      wp (singlylinkedlist_get_next_item s (Some a)) T w = T (case vs of [] \<Rightarrow> None | b # bs \<Rightarrow> Some b) w"
    and "(a, i) \<in> set (fst (sl_abs (s, l))) \<Longrightarrow> wp (singlylinkedlist_item_get_value s (Some a)) T w = T (Some i) w"
proof -
  have sl: "slist (map_of s) (list_head l) (nodes (s, l))" using assms by (simp add: sl_wf_def)
  then have sg: "seg (map_of s) (list_head l) (nodes (s, l)) None" by (simp add: slist_def)
  show "wp (singlylinkedlist_find s (Some l) (Some f) ctx) Q w = Q (List.find (\<lambda>p. f p ctx) (nodes (s, l))) w"
    using wp_match_loop [OF sg slist_length [OF sl]] by (simp add: singlylinkedlist_find_def)
  show "wp (singlylinkedlist_foreach s (Some l) (Some g) ctx') R w = R (0, act_all g (map snd (fst (sl_abs (s, l)))) ctx') w"
    using wp_foreach_loop [OF sg slist_length [OF sl]] by (simp add: singlylinkedlist_foreach_def sl_abs_def)
  show "singlylinkedlist_get_head_item (Some l) = (case nodes (s, l) of [] \<Rightarrow> None | a # as \<Rightarrow> Some a)"
    using sg by (cases "nodes (s, l)") (simp_all add: singlylinkedlist_get_head_item_def)
  show "wp (singlylinkedlist_get_next_item s (Some a)) T w = T (case vs of [] \<Rightarrow> None | b # bs \<Rightarrow> Some b) w"
    if "nodes (s, l) = us @ a # vs"
    using sg unfolding that seg_append by (cases vs) (auto simp: singlylinkedlist_get_next_item_def)
  show "wp (singlylinkedlist_item_get_value s (Some a)) T w = T (Some i) w" if "(a, i) \<in> set (fst (sl_abs (s, l)))"
    using that slist_dom [OF sl] by (auto simp: singlylinkedlist_item_get_value_def sl_abs_def entries_def)
qed

section \<open>Properties\<close>

text \<open>C27. A list from its creation to its destruction, in a store that other lists share: for any sequence of \<open>singlylinkedlist_add\<close>,
  \<open>singlylinkedlist_remove\<close> and \<open>singlylinkedlist_remove_if\<close>, whatever the allocator does, every loop ends, no link dangles, the
  statuses and handles are those of a sequence of nodes with their items beside which the rest of the store does not change, and the end
  gives every node back.\<close>

theorem slist_lifecycle:
  "wp (do { h \<leftarrow> sl_new s0; if h = None then ret None
            else do { (rs, h') \<leftarrow> run_ops sl_exec ops h; sl_delete h'; ret (Some rs) } })
     (\<lambda>out w'. live w' = live w \<and> faults w' = faults w \<and>
        (case out of None \<Rightarrow> \<not> plenty 1 w | Some rs \<Rightarrow> \<exists>a. spec_run sl_spec ops rs ([], map_of s0) a)) w"
  by (rule sl.lifecycle) (simp_all add: SIZE_MOD_def)

end
