(* ===== verification/Vector.thy ===== *)
theory Vector
  imports Component
begin

text \<open>
  The vector of \<open>c-utility/src/vector.c\<close>: elements of one size, given at creation, side by side in one block. A pointer to an element is the
  distance from \<open>storage\<close>. The products of sizes wrap as in C; the refinement of a list of elements is for calls whose sizes do not.
\<close>

section \<open>The code\<close>

record VECTOR =
  storage :: "u8 list option"
  vcount :: nat
  elementSize :: nat

definition VECTOR_create :: "nat \<Rightarrow> VECTOR option cm" where
  "VECTOR_create esize =
     (if esize = 0 then ret None
      else do {
        ok \<leftarrow> c_new;
        if \<not> ok then ret None else ret (Some \<lparr>storage = None, vcount = 0, elementSize = esize\<rparr>)
      })"

definition VECTOR_destroy :: "VECTOR option \<Rightarrow> unit cm" where
  "VECTOR_destroy handle =
     (case handle of None \<Rightarrow> ret () | Some v \<Rightarrow> do { c_free (storage v); c_free handle })"

text \<open>The new vector and the one the data was moved from.\<close>

definition VECTOR_move :: "VECTOR option \<Rightarrow> (VECTOR option \<times> VECTOR option) cm" where
  "VECTOR_move handle =
     (case handle of
        None \<Rightarrow> ret (None, None)
      | Some v \<Rightarrow> do {
          ok \<leftarrow> c_new;
          if \<not> ok then ret (None, handle)
          else ret (Some \<lparr>storage = storage v, vcount = vcount v, elementSize = elementSize v\<rparr>,
                    Some (v\<lparr>storage := None, vcount := 0\<rparr>))
        })"

definition VECTOR_push_back :: "VECTOR option \<Rightarrow> u8 list option \<Rightarrow> nat \<Rightarrow> (int \<times> VECTOR option) cm" where
  "VECTOR_push_back handle elements numElements =
     (case (handle, elements) of
        (Some v, Some e) \<Rightarrow>
          if numElements = 0 then ret (FAILURE, handle)
          else do {
            let curSize = szt (elementSize v * vcount v);
            let appendSize = szt (elementSize v * numElements);
            temp \<leftarrow> c_realloc (storage v) (szt (curSize + appendSize));
            (case temp of
               None \<Rightarrow> ret (FAILURE, handle)
             | Some t \<Rightarrow> do {
                 t' \<leftarrow> c_memcpy t curSize e 0 appendSize;
                 ret (0, Some (v\<lparr>storage := Some t', vcount := szt (vcount v + numElements)\<rparr>))
               })
          }
      | _ \<Rightarrow> ret (FAILURE, handle))"

text \<open>\<open>elements\<close> is given by its distance from \<open>storage\<close>, which is negative for a smaller address.\<close>

definition VECTOR_erase :: "VECTOR option \<Rightarrow> int option \<Rightarrow> nat \<Rightarrow> VECTOR option cm" where
  "VECTOR_erase handle elements numElements =
     (case (handle, elements) of
        (Some v, Some diff) \<Rightarrow>
          if numElements = 0 then ret handle
          else if diff < 0 then ret handle
          else if nat diff mod elementSize v \<noteq> 0 then ret handle
          else do {
            let src = nat diff + szt (elementSize v * numElements);
            let srcEnd = szt (elementSize v * vcount v);
            if src > srcEnd then ret handle
            else do {
              let v1 = v\<lparr>vcount := szt (vcount v + SIZE_MOD - numElements)\<rparr>;
              if vcount v1 = 0 then do { c_free (storage v1); ret (Some (v1\<lparr>storage := None\<rparr>)) }
              else do {
                t \<leftarrow> c_memcpy (blk (storage v1)) (nat diff) (blk (storage v1)) src (srcEnd - src);
                tmp \<leftarrow> c_realloc (Some t) (szt (elementSize v1 * vcount v1));
                (case tmp of
                   None \<Rightarrow> ret (Some (v1\<lparr>storage := Some t\<rparr>))
                 | Some t' \<Rightarrow> ret (Some (v1\<lparr>storage := Some t'\<rparr>)))
              }
            }
          }
      | _ \<Rightarrow> ret handle)"

definition VECTOR_clear :: "VECTOR option \<Rightarrow> VECTOR option cm" where
  "VECTOR_clear handle =
     (case handle of
        None \<Rightarrow> ret None
      | Some v \<Rightarrow> do { c_free (storage v); ret (Some (v\<lparr>storage := None, vcount := 0\<rparr>)) })"

definition VECTOR_element :: "VECTOR option \<Rightarrow> nat \<Rightarrow> nat option" where
  "VECTOR_element handle index =
     (case handle of
        None \<Rightarrow> None
      | Some v \<Rightarrow> if index \<ge> vcount v then None else Some (szt (elementSize v * index)))"

definition VECTOR_front :: "VECTOR option \<Rightarrow> nat option" where
  "VECTOR_front handle = (case handle of None \<Rightarrow> None | Some v \<Rightarrow> if vcount v = 0 then None else Some 0)"

definition VECTOR_back :: "VECTOR option \<Rightarrow> nat option" where
  "VECTOR_back handle =
     (case handle of
        None \<Rightarrow> None
      | Some v \<Rightarrow> if vcount v = 0 then None else Some (szt (elementSize v * (vcount v - 1))))"

text \<open>The predicate sees the bytes of an element; the caller's \<open>value\<close> is part of it.\<close>

fun find_if_loop :: "VECTOR \<Rightarrow> (u8 list \<Rightarrow> bool) \<Rightarrow> nat \<Rightarrow> nat \<Rightarrow> nat cm" where
  "find_if_loop v pred i 0 = ret i"
| "find_if_loop v pred i (Suc n) = do {
     c_assert (szt (elementSize v * i) + elementSize v \<le> length (blk (storage v)));
     if pred (take (elementSize v) (drop (szt (elementSize v * i)) (blk (storage v)))) then ret i else find_if_loop v pred (Suc i) n
   }"

definition VECTOR_find_if :: "VECTOR option \<Rightarrow> (u8 list \<Rightarrow> bool) option \<Rightarrow> nat option cm" where
  "VECTOR_find_if handle pred =
     (case (handle, pred) of
        (Some v, Some p) \<Rightarrow> do {
          i \<leftarrow> find_if_loop v p 0 (vcount v);
          ret (if i = vcount v then None else Some (szt (elementSize v * i)))
        }
      | _ \<Rightarrow> ret None)"

definition VECTOR_size :: "VECTOR option \<Rightarrow> nat" where
  "VECTOR_size handle = (case handle of None \<Rightarrow> 0 | Some v \<Rightarrow> vcount v)"

section \<open>Elements\<close>

text \<open>The first \<open>k\<close> elements of \<open>es\<close> bytes in a block.\<close>

definition elems :: "nat \<Rightarrow> nat \<Rightarrow> u8 list \<Rightarrow> u8 list list" where
  "elems es k bs = map (\<lambda>i. take es (drop (es * i) bs)) [0..<k]"

lemma length_elems [simp]: "length (elems es k bs) = k"
  by (simp add: elems_def)

lemma elems_append: "length xs = es * a \<Longrightarrow> elems es (a + b) (xs @ ys) = elems es a xs @ elems es b ys"
proof -
  assume len: "length xs = es * a"
  have "take es (drop (es * i) (xs @ ys)) = take es (drop (es * i) xs)" if "i < a" for i
  proof -
    have "es * i + es \<le> es * a" using that mult_le_mono2 [of "Suc i" a es] by simp
    then show ?thesis using len by simp
  qed
  moreover have "take es (drop (es * (a + j)) (xs @ ys)) = take es (drop (es * j) ys)" for j
    using len by (simp add: algebra_simps)
  moreover have "[a..<a + b] = map (\<lambda>j. a + j) [0..<b]" using map_add_upt [of a b] by (simp add: add.commute)
  ultimately show ?thesis by (simp add: elems_def upt_add_eq_append [of 0 a b] comp_def)
qed

lemma elems_take: "es * k \<le> n \<Longrightarrow> elems es k (take n bs) = elems es k bs"
proof -
  assume n: "es * k \<le> n"
  have "take es (drop (es * i) (take n bs)) = take es (drop (es * i) bs)" if "i < k" for i
  proof -
    have "es * i + es \<le> es * k" using that mult_le_mono2 [of "Suc i" k es] by simp
    then show ?thesis using n by (simp add: drop_take min_def)
  qed
  then show ?thesis by (simp add: elems_def)
qed

lemma elems_prefix: "length xs = es * k \<Longrightarrow> elems es k (xs @ ys) = elems es k xs"
  using elems_append [of xs es k 0 ys] by (simp add: elems_def)

lemma take_elems: "i \<le> k \<Longrightarrow> take i (elems es k bs) = elems es i bs"
  by (auto intro!: nth_equalityI simp: elems_def)

lemma drop_elems: "drop i (elems es k bs) = elems es (k - i) (drop (es * i) bs)"
  by (auto intro!: nth_equalityI simp: elems_def algebra_simps)

section \<open>The contract\<close>

definition vec_wf :: "nat \<Rightarrow> VECTOR \<Rightarrow> bool" where
  "vec_wf es v \<longleftrightarrow> elementSize v = es \<and> es \<noteq> 0 \<and> es * vcount v \<le> length (blk (storage v)) \<and> es * vcount v < SIZE_MOD \<and>
     (storage v = None \<longleftrightarrow> vcount v = 0)"

definition vec_abs :: "VECTOR \<Rightarrow> u8 list list" where
  "vec_abs v = elems (elementSize v) (vcount v) (blk (storage v))"

definition vec_size :: "VECTOR \<Rightarrow> nat" where
  "vec_size v = elementSize v * vcount v"

definition vec_blocks :: "VECTOR option \<Rightarrow> int" where
  "vec_blocks h = (case h of None \<Rightarrow> 0 | Some v \<Rightarrow> if storage v = None then 1 else 2)"

datatype vec_op = PushBack "u8 list option" nat | Erase "int option" nat | Clear

fun vec_exec :: "vec_op \<Rightarrow> VECTOR option \<Rightarrow> (int \<times> VECTOR option) cm" where
  "vec_exec (PushBack e n) h = VECTOR_push_back h e n"
| "vec_exec (Erase d n) h = do { h1 \<leftarrow> VECTOR_erase h d n; ret (0, h1) }"
| "vec_exec Clear h = do { h1 \<leftarrow> VECTOR_clear h; ret (0, h1) }"

fun vec_args_ok :: "nat \<Rightarrow> vec_op \<Rightarrow> bool" where
  "vec_args_ok es (PushBack e n) = (es * n < SIZE_MOD \<and> (\<forall>x. e = Some x \<longrightarrow> es * n \<le> length x))"
| "vec_args_ok es (Erase d n) = (es * n < SIZE_MOD)"
| "vec_args_ok es Clear = True"

fun vec_growth :: "nat \<Rightarrow> vec_op \<Rightarrow> nat" where
  "vec_growth es (PushBack e n) = es * n"
| "vec_growth es _ = 0"

text \<open>An element range is one of the vector's: the pointer is aligned and the range ends within the elements.\<close>

definition in_range :: "nat \<Rightarrow> int \<Rightarrow> nat \<Rightarrow> nat \<Rightarrow> bool" where
  "in_range es d n k \<longleftrightarrow> n \<noteq> 0 \<and> 0 \<le> d \<and> nat d mod es = 0 \<and> nat d div es + n \<le> k"

fun vec_spec :: "nat \<Rightarrow> vec_op \<Rightarrow> int \<Rightarrow> u8 list list \<Rightarrow> u8 list list \<Rightarrow> bool" where
  "vec_spec es (PushBack e n) r a a' =
     (if r = 0 then n \<noteq> 0 \<and> (\<exists>x. e = Some x \<and> a' = a @ elems es n x) else a' = a)"
| "vec_spec es (Erase d n) r a a' =
     (r = 0 \<and> a' = (case d of
        Some x \<Rightarrow> if in_range es x n (length a) then take (nat x div es) a @ drop (nat x div es + n) a else a
      | None \<Rightarrow> a))"
| "vec_spec es Clear r a a' = (r = 0 \<and> a' = [])"

fun vec_oom :: "vec_op \<Rightarrow> int \<Rightarrow> u8 list list \<Rightarrow> bool" where
  "vec_oom (PushBack e n) r a = (r \<noteq> 0 \<and> e \<noteq> None \<and> n \<noteq> 0)"
| "vec_oom _ r a = False"

definition vec_step_ok :: "nat \<Rightarrow> vec_op \<Rightarrow> VECTOR \<Rightarrow> world \<Rightarrow> int \<times> VECTOR option \<Rightarrow> world \<Rightarrow> bool" where
  "vec_step_ok es op v w res w' \<longleftrightarrow> (case res of (r, h) \<Rightarrow> \<exists>v'. h = Some v' \<and> vec_wf es v' \<and> vec_size v' \<le> vec_size v + vec_growth es op \<and>
     faults w' = faults w \<and> live w' - live w = vec_blocks (Some v') - vec_blocks (Some v) \<and>
     vec_spec es op r (vec_abs v) (vec_abs v') \<and> (vec_oom op r (vec_abs v) \<longrightarrow> \<not> plenty 1 w))"

lemma VECTOR_push_back_step:
  assumes wf: "vec_wf es v" and args: "vec_args_ok es (PushBack e n)" "vec_size v + es * n < SIZE_MOD"
  shows "wp (VECTOR_push_back (Some v) e n) (vec_step_ok es (PushBack e n) v w) w"
proof (cases "e = None \<or> n = 0")
  case True
  then show ?thesis using wf by (cases e) (auto simp: VECTOR_push_back_def vec_step_ok_def)
next
  case False
  then obtain x where x: "e = Some x" "es * n \<le> length x" "n \<noteq> 0" using args by auto
  define c where "c = vcount v"
  have v: "elementSize v = es" "es \<noteq> 0" "es * c \<le> length (blk (storage v))" "es * c < SIZE_MOD" "storage v = None \<longleftrightarrow> c = 0"
    using wf by (auto simp: vec_wf_def c_def)
  have sizes: "es * c + es * n < SIZE_MOD" "es * n < SIZE_MOD" "c + n < SIZE_MOD"
    using args v(1) mult_le_mono1 [of 1 es "c + n"] v(2) by (auto simp: vec_size_def c_def algebra_simps)
  have "wp (c_realloc (storage v) (es * c + es * n)) (\<lambda>temp. wp (case temp of
      None \<Rightarrow> ret (FAILURE, Some v)
    | Some t \<Rightarrow> do { t' \<leftarrow> c_memcpy t (es * c) x 0 (es * n); ret (0, Some (v\<lparr>storage := Some t', vcount := c + n\<rparr>)) })
      (vec_step_ok es (PushBack e n) v w)) w"
  proof (rule wp_realloc_grow [OF v(3)], goal_cases)
    case 1
    then show ?case using v(2) x(3) by simp
  next
    case (2 w')
    then show ?case using wf x by (simp add: vec_step_ok_def not_plenty_next)
  next
    case (3 zs w')
    let ?t = "take (es * c) (blk (storage v)) @ take (es * n) x"
    have put: "put (take (es * c) (blk (storage v)) @ zs) (es * c) (take (es * n) x) = ?t"
      using v(3) 3(1) x(2) by (simp add: put_def)
    have "elems es (c + n) ?t = elems es c (blk (storage v)) @ elems es n x"
      using elems_append [of "take (es * c) (blk (storage v))" es c n "take (es * n) x"] v(3) by (simp add: elems_take)
    then have "vec_step_ok es (PushBack e n) v w (0, Some (v\<lparr>storage := Some ?t, vcount := c + n\<rparr>)) w'"
      using 3 v x sizes by (auto simp: vec_step_ok_def vec_wf_def vec_abs_def vec_size_def vec_blocks_def c_def [symmetric] algebra_simps)
    then show ?case using v(3) 3(1) x(2) put by simp
  qed
  then show ?thesis using v x sizes by (simp add: VECTOR_push_back_def Let_def c_def [symmetric])
qed

lemma erased_elems:
  assumes "es * c \<le> length s" "i + n \<le> c"
  defines "t \<equiv> put s (es * i) (take (es * c - (es * i + es * n)) (drop (es * i + es * n) s))"
  shows "length t = length s" "elems es (c - n) t = take i (elems es c s) @ drop (i + n) (elems es c s)"
proof -
  let ?m = "drop (es * i + es * n) (take (es * c) s)"
  have le: "es * i + es * n \<le> es * c" using assms(2) mult_le_mono2 [of "i + n" c es] by (simp add: algebra_simps)
  have m: "take (es * c - (es * i + es * n)) (drop (es * i + es * n) s) = ?m" "length ?m = es * (c - n - i)"
    using assms(1) le by (simp_all add: drop_take algebra_simps diff_mult_distrib2)
  define z where "z = drop (es * i + length ?m) s"
  have t: "t = take (es * i) s @ ?m @ z"
    unfolding t_def m(1) by (simp add: put_def z_def)
  show "length t = length s" using assms(1) le m(2) unfolding t by (simp add: z_def algebra_simps)
  have "c - n = i + (c - n - i)" using assms(2) by simp
  then have "elems es (c - n) t = elems es i (take (es * i) s) @ elems es (c - n - i) ?m"
    using elems_append [of "take (es * i) s" es i "c - n - i" "?m @ z"] assms(1) le m(2) elems_prefix [of ?m es "c - n - i"]
    unfolding t by simp
  also have "elems es (c - n - i) ?m = elems es (c - n - i) (drop (es * i + es * n) s)"
    using m(2) elems_take [of es "c - n - i" "es * (c - n - i)" "drop (es * i + es * n) s"] le assms(2)
    by (simp add: drop_take algebra_simps diff_mult_distrib2)
  finally show "elems es (c - n) t = take i (elems es c s) @ drop (i + n) (elems es c s)"
    using assms(2) by (simp add: elems_take take_elems drop_elems algebra_simps)
qed

lemma vec_step_same: "vec_wf es v \<Longrightarrow> vec_spec es op r (vec_abs v) (vec_abs v) \<Longrightarrow> \<not> vec_oom op r (vec_abs v) \<Longrightarrow> vec_step_ok es op v w (r, Some v) w"
  by (simp add: vec_step_ok_def)

lemma length_vec_abs [simp]: "length (vec_abs v) = vcount v"
  by (simp add: vec_abs_def)

lemma VECTOR_erase_step:
  assumes wf: "vec_wf es v" and args: "es * n < SIZE_MOD"
  shows "wp (vec_exec (Erase d n) (Some v)) (vec_step_ok es (Erase d n) v w) w"
proof (cases "\<exists>x. d = Some x \<and> in_range es x n (vcount v)")
  case False
  have out: "nat x + es * n > es * vcount v" if "d = Some x" "n \<noteq> 0" "0 \<le> x" "nat x mod es = 0" for x
  proof -
    have "vcount v < nat x div es + n" using False that by (auto simp: in_range_def)
    then have "es * vcount v < es * (nat x div es) + es * n" using wf by (simp add: vec_wf_def flip: distrib_left)
    then show ?thesis using that(4) by auto
  qed
  have same: "vec_step_ok es (Erase d n) v w (0, Some v) w"
    using wf False by (intro vec_step_same) (auto split: option.splits)
  show ?thesis using same out wf args by (cases d) (auto simp: VECTOR_erase_def vec_wf_def Let_def)
next
  case True
  define c s where "c = vcount v" and "s = blk (storage v)"
  have v: "elementSize v = es" "es \<noteq> 0" "es * c \<le> length s" "es * c < SIZE_MOD" "storage v = None \<longleftrightarrow> c = 0"
    using wf by (auto simp: vec_wf_def c_def s_def)
  obtain x i where x: "d = Some x" "n \<noteq> 0" "0 \<le> x" "nat x = es * i" "i = nat x div es" "i + n \<le> c"
    using True by (auto simp: in_range_def c_def)
  have rng: "in_range es x n c" using True x(1) by (auto simp: c_def)
  then have al: "nat x mod es = 0" by (simp add: in_range_def)
  have le: "es * i + es * n \<le> es * c" using x(6) mult_le_mono2 [of "i + n" c es] by (simp add: algebra_simps)
  have "c < SIZE_MOD" using v(2,4) le_less_trans [of c "es * c" SIZE_MOD] by simp
  then have count: "szt (c + SIZE_MOD - n) = c - n" using x(6) by (simp add: szt_def mod_if)
  note erased = erased_elems [OF v(3) x(6)]
  let ?t = "put s (es * i) (take (es * c - (es * i + es * n)) (drop (es * i + es * n) s))"
  have ok: "vec_step_ok es (Erase d n) v w (0, Some (v\<lparr>vcount := c - n, storage := Some u\<rparr>)) w'"
    if "elems es (c - n) u = elems es (c - n) ?t" "es * (c - n) \<le> length u" "c - n \<noteq> 0" "live w' = live w" "faults w' = faults w" for u w'
    using that v erased(2) x(1) rng by (auto simp: vec_step_ok_def vec_wf_def vec_abs_def vec_size_def vec_blocks_def
        c_def [symmetric] s_def [symmetric] x(5) [symmetric] diff_mult_distrib2)
  have some: "storage v = Some s" using v(5) x(2,6) by (cases "storage v") (auto simp: s_def)
  show ?thesis
  proof (cases "c - n = 0")
    case True
    then have "i = 0" "n = c" using x(6) by auto
    then have "vec_step_ok es (Erase d n) v w (0, Some (v\<lparr>vcount := 0, storage := None\<rparr>)) (w\<lparr>live := live w - 1\<rparr>)"
      using v x(1) rng some by (auto simp: vec_step_ok_def vec_wf_def vec_abs_def vec_size_def vec_blocks_def elems_def c_def [symmetric] x(5) [symmetric])
    then show ?thesis using True v x al le count args some by (simp add: VECTOR_erase_def Let_def c_def [symmetric])
  next
    case False
    have fits: "es * (c - n) \<le> es * c" by (simp add: diff_mult_distrib2)
    have keep: "elems es (c - n) (take (es * (c - n)) ?t @ ys) = elems es (c - n) ?t" for ys
      using elems_prefix [of "take (es * (c - n)) ?t" es "c - n" ys] erased(1) v(3) fits by (simp add: elems_take)
    have "wp (c_realloc (Some ?t) (es * (c - n))) (\<lambda>tmp. wp (do { h1 \<leftarrow> (case tmp of
        None \<Rightarrow> ret (Some (v\<lparr>vcount := c - n, storage := Some ?t\<rparr>))
      | Some t' \<Rightarrow> ret (Some (v\<lparr>vcount := c - n, storage := Some t'\<rparr>))); ret (0, h1) }) (vec_step_ok es (Erase d n) v w)) w"
    proof (rule wp_realloc_Some, goal_cases)
      case 1
      then show ?case using False v(2) by simp
    next
      case (2 w')
      have "es * (c - n) \<le> length ?t" using fits v(3) erased(1) by linarith
      from ok [OF refl this False 2(3,4)] show ?case by simp
    next
      case (3 ys w')
      have "es * (c - n) \<le> length s" using fits v(3) by (rule le_trans)
      then have "es * (c - n) \<le> length (take (es * (c - n)) ?t @ ys)" using erased(1) by simp
      from ok [OF keep this False 3(4,5)] show ?case by simp
    qed
    moreover have "es * (c - n) < SIZE_MOD" using fits v(4) by (rule le_less_trans)
    ultimately show ?thesis using False v x(1-4,6) al le count args some by (simp add: VECTOR_erase_def Let_def c_def [symmetric])
  qed
qed

lemma VECTOR_clear_step:
  assumes "vec_wf es v"
  shows "wp (vec_exec Clear (Some v)) (vec_step_ok es Clear v w) w"
  using assms by (cases "storage v")
    (auto simp: VECTOR_clear_def vec_step_ok_def vec_wf_def vec_abs_def vec_size_def vec_blocks_def elems_def SIZE_MOD_def)

lemma wp_VECTOR_destroy: "wp (VECTOR_destroy h) Q w = Q () (w\<lparr>live := live w - vec_blocks h\<rparr>)"
  by (cases h; cases "storage (the h)") (simp_all add: VECTOR_destroy_def vec_blocks_def)

interpretation vec: c_owned vec_exec "vec_wf (Suc k)" vec_abs vec_size vec_blocks "vec_args_ok (Suc k)" "vec_growth (Suc k)"
  "\<lambda>_. 1" "vec_spec (Suc k)" vec_oom "VECTOR_create (Suc k)" 1 VECTOR_destroy "[]"
  for k
proof (unfold_locales, goal_cases)
  case (1 h op w)
  have "wp (vec_exec op (Some h)) (vec_step_ok (Suc k) op h w) w"
    using 1 by (cases op) (simp_all add: VECTOR_push_back_step VECTOR_erase_step [simplified] VECTOR_clear_step [simplified])
  then show ?case by (rule wp_mono) (auto simp: vec_step_ok_def)
next
  case (2 w)
  show ?case unfolding VECTOR_create_def
    by (auto intro!: wp_new simp: vec_wf_def vec_abs_def vec_size_def vec_blocks_def elems_def SIZE_MOD_def not_plenty_next)
next
  case (3 h w)
  show ?case by (simp add: wp_VECTOR_destroy)
qed

section \<open>Properties\<close>

text \<open>C28. Any sequence of calls on a vector, with sizes that do not wrap: the vector stays well-formed, no access leaves a block, blocks are
  accounted for, and the vector refines a list of elements - \<open>VECTOR_push_back\<close> appends, \<open>VECTOR_erase\<close> removes just the range the pointer and
  the number name, or nothing when they name no range of the vector, \<open>VECTOR_clear\<close> empties it. That the block cannot be made smaller after
  an erasure is no failure.\<close>

theorem vector_calls_refine:
  assumes "vec_wf es v" "\<forall>op \<in> set ops. vec_args_ok es op" "vec_size v + sum_list (map (vec_growth es) ops) < SIZE_MOD"
  shows "wp (run_ops vec_exec ops (Some v)) (\<lambda>(rs, h) w'. \<exists>v'. h = Some v' \<and> vec_wf es v' \<and> faults w' = faults w \<and>
    live w' - live w = vec_blocks (Some v') - vec_blocks (Some v) \<and> spec_run (vec_spec es) ops rs (vec_abs v) (vec_abs v')) w"
proof -
  obtain k where "es = Suc k" using assms(1) by (cases es) (auto simp: vec_wf_def)
  then show ?thesis using vec.run_correct assms by simp
qed

theorem vector_calls_refine_witness:
  "wp (run_ops vec_exec [PushBack (Some [1, 2, 3, 4, 5, 6]) 3, Erase (Some 2) 1, Erase (Some 1) 1]
         (Some \<lparr>storage = None, vcount = 0, elementSize = 2\<rparr>))
     (\<lambda>(rs, h) w'. \<exists>v'. h = Some v' \<and> vec_wf 2 v' \<and> faults w' = 0 \<and> live w' - 1 = vec_blocks (Some v') - 1 \<and>
        spec_run (vec_spec 2) [PushBack (Some [1, 2, 3, 4, 5, 6]) 3, Erase (Some 2) 1, Erase (Some 1) 1] rs [] (vec_abs v'))
     \<lparr>avail = [Some (\<lambda>_. 0), None], live = 1, faults = 0\<rparr>"
  by (rule wp_mono [OF vector_calls_refine [where es = 2]])
    (auto simp: vec_wf_def vec_size_def vec_abs_def vec_blocks_def elems_def SIZE_MOD_def)

text \<open>The pointers the vector gives out point to its elements.\<close>

lemma vector_reads:
  assumes "vec_wf es v"
  shows "VECTOR_size (Some v) = length (vec_abs v)"
    "VECTOR_element (Some v) i = (if i < length (vec_abs v) then Some (es * i) else None)"
    "i < length (vec_abs v) \<Longrightarrow> take es (drop (es * i) (blk (storage v))) = vec_abs v ! i"
    "VECTOR_front (Some v) = (if vec_abs v = [] then None else Some 0)"
    "VECTOR_back (Some v) = (if vec_abs v = [] then None else Some (es * (length (vec_abs v) - 1)))"
proof -
  have less: "es * j < SIZE_MOD" if "j < vcount v" for j
    using assms that le_less_trans [of "es * j" "es * vcount v" SIZE_MOD] by (simp add: vec_wf_def)
  have empty: "vec_abs v = [] \<longleftrightarrow> vcount v = 0" by (simp add: vec_abs_def elems_def)
  show "VECTOR_size (Some v) = length (vec_abs v)" by (simp add: VECTOR_size_def)
  show "VECTOR_element (Some v) i = (if i < length (vec_abs v) then Some (es * i) else None)"
    using assms less by (simp add: VECTOR_element_def vec_wf_def)
  show "i < length (vec_abs v) \<Longrightarrow> take es (drop (es * i) (blk (storage v))) = vec_abs v ! i"
    using assms by (simp add: vec_abs_def elems_def vec_wf_def)
  show "VECTOR_front (Some v) = (if vec_abs v = [] then None else Some 0)" by (simp add: VECTOR_front_def empty)
  show "VECTOR_back (Some v) = (if vec_abs v = [] then None else Some (es * (length (vec_abs v) - 1)))"
    using assms less [of "vcount v - 1"] by (auto simp: VECTOR_back_def vec_wf_def empty)
qed

lemma wp_find_if_loop:
  assumes wf: "vec_wf es v"
  shows "i + n = vcount v \<Longrightarrow> wp (find_if_loop v p i n) Q w = Q (i + length (takeWhile (\<lambda>e. \<not> p e) (drop i (vec_abs v)))) w"
proof (induction n arbitrary: i)
  case (Suc n)
  then have i: "i < vcount v" by simp
  have e: "vec_abs v ! i = take es (drop (es * i) (blk (storage v)))" using vector_reads(3) [OF wf] i by simp
  have "es * i + es \<le> es * vcount v" using i mult_le_mono2 [of "Suc i" "vcount v" es] by simp
  then have b: "es * i < SIZE_MOD" "es * i + es \<le> length (blk (storage v))" using wf by (auto simp: vec_wf_def)
  have "drop i (vec_abs v) = vec_abs v ! i # drop (Suc i) (vec_abs v)" using i by (simp add: Cons_nth_drop_Suc)
  then show ?case using Suc b wf by (simp add: e vec_wf_def)
qed simp

lemma vector_find_if:
  assumes "vec_wf es v"
  shows "wp (VECTOR_find_if (Some v) (Some p)) Q w =
    Q (let i = length (takeWhile (\<lambda>e. \<not> p e) (vec_abs v)) in if i = vcount v then None else Some (es * i)) w"
proof -
  let ?i = "length (takeWhile (\<lambda>e. \<not> p e) (vec_abs v))"
  have "?i \<le> vcount v" using length_takeWhile_le [of _ "vec_abs v"] by simp
  then have "es * ?i < SIZE_MOD" using assms le_less_trans [of "es * ?i" "es * vcount v" SIZE_MOD] by (simp add: vec_wf_def)
  then show ?thesis using assms by (simp add: VECTOR_find_if_def wp_find_if_loop [OF assms] Let_def vec_wf_def)
qed

lemma VECTOR_move_moves:
  assumes "vec_wf es v"
  shows "wp (VECTOR_move (Some v)) (\<lambda>(h, old) w'. faults w' = faults w \<and>
    (case h of
       None \<Rightarrow> old = Some v \<and> live w' = live w \<and> next_alloc w = None
     | Some v' \<Rightarrow> vec_wf es v' \<and> vec_abs v' = vec_abs v \<and> live w' = live w + 1 \<and>
         (\<exists>u. old = Some u \<and> vec_wf es u \<and> vec_abs u = []))) w"
  unfolding VECTOR_move_def using assms
  by (auto intro!: wp_new simp: vec_wf_def vec_abs_def elems_def SIZE_MOD_def)

text \<open>The test of the range wraps: with elements of four bytes, $2^{30}$ elements are no bytes at all, so that a range far longer than the
  vector is accepted and the count wraps below zero. Every index up to it is then answered with a pointer.\<close>

lemma VECTOR_erase_wraps:
  "wp (VECTOR_erase (Some \<lparr>storage = Some [1, 2, 3, 4], vcount = 1, elementSize = 4\<rparr>) (Some 0) (2 ^ 30))
    (\<lambda>h w'. \<exists>v. h = Some v \<and> vcount v = 3221225473 \<and> length (blk (storage v)) = 4 \<and> VECTOR_element h 1000 = Some 4000) w"
proof -
  have "szt (4 * 2 ^ 30) = 0" "szt (1 + SIZE_MOD - 2 ^ 30) = 3221225473" "szt (4 * 3221225473) = 4" "szt 4000 = 4000" "szt 4 = 4"
    by (simp_all add: szt_def SIZE_MOD_def)
  then show ?thesis
    by (auto intro!: wp_realloc_Some simp: VECTOR_erase_def VECTOR_element_def Let_def put_def)
qed

end
