(* ===== verification/Tokenizer.thy ===== *)
theory Tokenizer
  imports MapTable
begin

text \<open>
  Reading connection strings: \<open>c-utility/src/string_tokenizer.c\<close> and \<open>connection_string_parser.c\<close>. A tokenizer owns a copy of its text; the
  pointer \<open>currentPos\<close> into it is kept as an offset. The parser's loop takes a bound on its rounds; running out of it is a fault, and the
  theorems show that a bound of the length of the text is never reached.
\<close>

section \<open>The tokenizer\<close>

record STRING_TOKEN =
  inputString :: "u8 list option"
  currentPos :: nat
  sizeOfinputString :: nat

definition STRING_TOKENIZER_create_from_char :: "u8 list option \<Rightarrow> STRING_TOKEN option cm" where
  "STRING_TOKENIZER_create_from_char input =
     (if input = None then ret None
      else do {
        ok \<leftarrow> c_new;
        if \<not> ok then ret None
        else do {
          (r, d) \<leftarrow> mallocAndStrcpy_s True input;
          if r \<noteq> 0 then do { c_free (Some ()); ret None }
          else do {
            let s = (case d of None \<Rightarrow> None | Some x \<Rightarrow> x);
            n \<leftarrow> c_strlen (blk s);
            ret (Some \<lparr>inputString = s, currentPos = 0, sizeOfinputString = n\<rparr>)
          }
        }
      })"

definition STRING_TOKENIZER_create :: "STRING option \<Rightarrow> STRING_TOKEN option cm" where
  "STRING_TOKENIZER_create handle =
     (if handle = None then ret None else STRING_TOKENIZER_create_from_char (STRING_c_str handle))"

text \<open>The loop over the delimiters for one character, and the loop over the characters that are delimiters.\<close>

fun delimiter_loop :: "u8 \<Rightarrow> u8 list \<Rightarrow> nat \<Rightarrow> nat \<Rightarrow> bool cm" where
  "delimiter_loop c delimiters j 0 = ret False"
| "delimiter_loop c delimiters j (Suc n) = do {
     d \<leftarrow> c_load delimiters j;
     if c = d then ret True else delimiter_loop c delimiters (Suc j) n
   }"

fun skip_loop :: "u8 list \<Rightarrow> nat \<Rightarrow> u8 list \<Rightarrow> nat \<Rightarrow> nat \<Rightarrow> nat \<Rightarrow> nat cm" where
  "skip_loop s pos delimiters delimitterSize i 0 = ret i"
| "skip_loop s pos delimiters delimitterSize i (Suc n) = do {
     c \<leftarrow> c_load s (pos + i);
     found \<leftarrow> delimiter_loop c delimiters 0 delimitterSize;
     if \<not> found then ret i else skip_loop s pos delimiters delimitterSize (Suc i) n
   }"

text \<open>\<open>strchr (s + pos, c)\<close> for a character other than the terminator: the distance to its first occurrence.\<close>

definition c_strchr :: "u8 list \<Rightarrow> nat \<Rightarrow> u8 \<Rightarrow> nat option cm" where
  "c_strchr s pos c = do {
     c_assert (pos \<le> length s \<and> is_cstr (drop pos s));
     let t = c_str (drop pos s);
     ret (if c \<in> set t then Some (length (takeWhile (\<lambda>x. x \<noteq> c) t)) else None)
   }"

fun end_loop :: "u8 list \<Rightarrow> nat \<Rightarrow> u8 list \<Rightarrow> nat \<Rightarrow> nat \<Rightarrow> nat option cm" where
  "end_loop s pos delimiters j 0 = ret None"
| "end_loop s pos delimiters j (Suc n) = do {
     d \<leftarrow> c_load delimiters j;
     e \<leftarrow> c_strchr s pos d;
     if e \<noteq> None then ret e else end_loop s pos delimiters (Suc j) n
   }"

definition STRING_TOKENIZER_get_next_token ::
  "STRING_TOKEN option \<Rightarrow> STRING option \<Rightarrow> u8 list option \<Rightarrow> (int \<times> STRING_TOKEN option \<times> STRING option) cm" where
  "STRING_TOKENIZER_get_next_token tokenizer output delimiters =
     (case (tokenizer, output, delimiters) of
        (Some token, Some out, Some ds) \<Rightarrow> do {
          let remaining = sizeOfinputString token - currentPos token;
          delimitterSize \<leftarrow> c_strlen ds;
          if remaining = 0 then ret (FAILURE, tokenizer, output)
          else if delimitterSize = 0 then ret (FAILURE, tokenizer, output)
          else do {
            i \<leftarrow> skip_loop (blk (inputString token)) (currentPos token) ds delimitterSize 0 remaining;
            let token1 = token\<lparr>currentPos := currentPos token + i\<rparr>;
            if remaining - i = 0 then ret (FAILURE, Some token1, output)
            else do {
              e \<leftarrow> end_loop (blk (inputString token)) (currentPos token1) ds 0 delimitterSize;
              let amount = (case e of None \<Rightarrow> remaining - i | Some n \<Rightarrow> n);
              (r, o1) \<leftarrow> STRING_copy_n output (Some (drop (currentPos token1) (blk (inputString token)))) amount;
              if r \<noteq> 0 then ret (FAILURE, Some token1, o1)
              else ret (0, Some (token1\<lparr>currentPos := currentPos token1 + (if e \<noteq> None then amount + 1 else amount)\<rparr>), o1)
            }
          }
        }
      | _ \<Rightarrow> ret (FAILURE, tokenizer, output))"

definition STRING_TOKENIZER_destroy :: "STRING_TOKEN option \<Rightarrow> unit cm" where
  "STRING_TOKENIZER_destroy t =
     (case t of None \<Rightarrow> ret () | Some v \<Rightarrow> do { c_free (inputString v); c_free (Some ()) })"

section \<open>The parser\<close>

text \<open>The body of the loop: whether there was an error, and the objects it works on.\<close>

definition parse_value ::
  "STRING_TOKEN option \<Rightarrow> STRING option \<Rightarrow> STRING option \<Rightarrow> MAP_HANDLE_DATA option
    \<Rightarrow> (bool \<times> STRING_TOKEN option \<times> STRING option \<times> MAP_HANDLE_DATA option) cm" where
  "parse_value tokenizer key val result = do {
     (r, tz, val1) \<leftarrow> STRING_TOKENIZER_get_next_token tokenizer val (Some (clit '';''));
     if r \<noteq> 0 then ret (True, tz, val1, result)
     else (case STRING_c_str key of
         None \<Rightarrow> ret (True, tz, val1, result)
       | Some token \<Rightarrow> do {
           n \<leftarrow> c_strlen token;
           if n = 0 then ret (True, tz, val1, result)
           else (case STRING_c_str val1 of
               None \<Rightarrow> ret (True, tz, val1, result)
             | Some v \<Rightarrow> do {
                 (m, result1) \<leftarrow> Map_Add result (Some token) (Some v);
                 ret (m \<noteq> MAP_OK, tz, val1, result1)
               })
         })
   }"

fun parse_loop ::
  "nat \<Rightarrow> STRING_TOKEN option \<Rightarrow> STRING option \<Rightarrow> STRING option \<Rightarrow> MAP_HANDLE_DATA option
    \<Rightarrow> (STRING_TOKEN option \<times> STRING option \<times> STRING option \<times> MAP_HANDLE_DATA option) cm" where
  "parse_loop 0 tokenizer key val result = do { c_assert False; ret (tokenizer, key, val, result) }"
| "parse_loop (Suc rounds) tokenizer key val result = do {
     (r, tz, key1) \<leftarrow> STRING_TOKENIZER_get_next_token tokenizer key (Some (clit ''=''));
     if r \<noteq> 0 then ret (tz, key1, val, result)
     else do {
       (is_error, tz1, val1, result1) \<leftarrow> parse_value tz key1 val result;
       if is_error then do { Map_Destroy result1; ret (tz1, key1, val1, None) }
       else parse_loop rounds tz1 key1 val1 result1
     }
   }"

definition connectionstringparser_parse :: "STRING option \<Rightarrow> MAP_HANDLE_DATA option cm" where
  "connectionstringparser_parse connection_string =
     (case connection_string of
        None \<Rightarrow> ret None
      | Some st \<Rightarrow> do {
          tokenizer \<leftarrow> STRING_TOKENIZER_create connection_string;
          if tokenizer = None then ret None
          else do {
            key \<leftarrow> STRING_new;
            if key = None then do { STRING_TOKENIZER_destroy tokenizer; ret None }
            else do {
              val \<leftarrow> STRING_new;
              if val = None then do { STRING_delete key; STRING_TOKENIZER_destroy tokenizer; ret None }
              else do {
                result \<leftarrow> Map_Create None;
                (tz, key1, val1, result1) \<leftarrow>
                  (if result = None then ret (tokenizer, key, val, None)
                   else parse_loop (length (str_s st)) tokenizer key val result);
                STRING_delete val1;
                STRING_delete key1;
                STRING_TOKENIZER_destroy tz;
                ret result1
              }
            }
          }
        })"

definition connectionstringparser_parse_from_char :: "u8 list option \<Rightarrow> MAP_HANDLE_DATA option cm" where
  "connectionstringparser_parse_from_char connection_string = do {
     connString \<leftarrow> STRING_construct connection_string;
     if connString = None then ret None
     else do {
       result \<leftarrow> connectionstringparser_parse connString;
       STRING_delete connString;
       ret result
     }
   }"

text \<open>\<open>while (*runHostName != 0)\<close> up to and including the first dot: the distance walked.\<close>

fun host_loop :: "u8 list \<Rightarrow> nat \<Rightarrow> nat \<Rightarrow> nat cm" where
  "host_loop hostName run 0 = do { c_assert False; ret run }"
| "host_loop hostName run (Suc n) = do {
     c \<leftarrow> c_load hostName run;
     if c = 0 then ret run else if c = 46 then ret (run + 1) else host_loop hostName (run + 1) n
   }"

definition connectionstringparser_splitHostName_from_char ::
  "u8 list option \<Rightarrow> STRING option \<Rightarrow> STRING option \<Rightarrow> (int \<times> STRING option \<times> STRING option) cm" where
  "connectionstringparser_splitHostName_from_char hostName nameString suffixString =
     (case hostName of
        None \<Rightarrow> ret (FAILURE, nameString, suffixString)
      | Some h \<Rightarrow> do {
          c \<leftarrow> c_load h 0;
          if c = 0 \<or> c = 46 \<or> nameString = None \<or> suffixString = None then ret (FAILURE, nameString, suffixString)
          else do {
            run \<leftarrow> host_loop h 0 (length h);
            e \<leftarrow> c_load h run;
            if e = 0 then ret (FAILURE, nameString, suffixString)
            else do {
              (r1, n1) \<leftarrow> STRING_copy_n nameString hostName (run - 1);
              if r1 \<noteq> 0 then ret (FAILURE, n1, suffixString)
              else do {
                (r2, s1) \<leftarrow> STRING_copy False suffixString (Some (drop run h));
                ret (if r2 \<noteq> 0 then FAILURE else 0, n1, s1)
              }
            }
          }
        })"

definition connectionstringparser_splitHostName ::
  "STRING option \<Rightarrow> STRING option \<Rightarrow> STRING option \<Rightarrow> (int \<times> STRING option \<times> STRING option) cm" where
  "connectionstringparser_splitHostName hostNameString nameString suffixString =
     (if hostNameString = None then ret (FAILURE, nameString, suffixString)
      else connectionstringparser_splitHostName_from_char (STRING_c_str hostNameString) nameString suffixString)"

section \<open>Tokens\<close>

text \<open>The next token of a text and what is left of it. The token ends at the delimiter that comes first in the string of delimiters among
  those that occur in the rest of the text.\<close>

definition next_tok :: "u8 list \<Rightarrow> u8 list \<Rightarrow> (u8 list \<times> u8 list) option" where
  "next_tok ds t = (let u = dropWhile (\<lambda>c. c \<in> set ds) t in
     if u = [] then None
     else (case List.find (\<lambda>d. d \<in> set u) ds of
         None \<Rightarrow> Some (u, [])
       | Some d \<Rightarrow> Some (takeWhile (\<lambda>c. c \<noteq> d) u, tl (dropWhile (\<lambda>c. c \<noteq> d) u))))"

text \<open>With one delimiter this is the usual notion.\<close>

lemma next_tok_single:
  "next_tok [d] t = (let u = dropWhile (\<lambda>c. c = d) t in
     if u = [] then None else Some (takeWhile (\<lambda>c. c \<noteq> d) u, tl (dropWhile (\<lambda>c. c \<noteq> d) u)))"
proof (cases "d \<in> set (dropWhile (\<lambda>c. c = d) t)")
  case True
  then show ?thesis by (simp add: next_tok_def Let_def)
next
  case False
  define u where "u = dropWhile (\<lambda>c. c = d) t"
  have tw: "takeWhile (\<lambda>c. c \<noteq> d) u = u" "dropWhile (\<lambda>c. c \<noteq> d) u = []"
    using False unfolding takeWhile_eq_all_conv dropWhile_eq_Nil_conv u_def by metis+
  have no: "List.find (\<lambda>e. e \<in> set u) [d] = None" using False by (simp add: u_def)
  show ?thesis unfolding next_tok_def Let_def list.set singleton_iff u_def [symmetric] tw no by simp
qed

lemma length_tl_dropWhile: "u \<noteq> [] \<Longrightarrow> length (tl (dropWhile P u)) < length u"
proof -
  assume "u \<noteq> []"
  then have "length (dropWhile P u) - 1 < length u" using length_dropWhile_le [of P u] length_greater_0_conv [of u] by linarith
  then show ?thesis by simp
qed

lemma next_tok_shorter:
  assumes "next_tok ds t = Some (u, r)"
  shows "length r < length t"
proof -
  define v where "v = dropWhile (\<lambda>c. c \<in> set ds) t"
  have "length v \<le> length t" "v \<noteq> []" "r = [] \<or> (\<exists>d. r = tl (dropWhile (\<lambda>c. c \<noteq> d) v))"
    using assms by (auto simp: next_tok_def Let_def v_def length_dropWhile_le split: if_splits option.splits)
  then show ?thesis using length_tl_dropWhile [of v] by (fastforce intro: less_le_trans)
qed

section \<open>What the tokenizer does\<close>

lemma wp_delimiter_loop:
  "j + n \<le> length ds \<Longrightarrow> wp (delimiter_loop c ds j n) Q w = Q (c \<in> set (take n (drop j ds))) w"
proof (induction n arbitrary: j)
  case (Suc n)
  then have "take (Suc n) (drop j ds) = ds ! j # take n (drop (Suc j) ds)" by (simp add: Cons_nth_drop_Suc [symmetric])
  then show ?case using Suc by simp
qed simp

lemma wp_skip_loop:
  assumes "dn \<le> length ds"
  shows "pos + i + n \<le> length s \<Longrightarrow>
    wp (skip_loop s pos ds dn i n) Q w = Q (i + length (takeWhile (\<lambda>c. c \<in> set (take dn ds)) (take n (drop (pos + i) s)))) w"
proof (induction n arbitrary: i)
  case (Suc n)
  then have "take (Suc n) (drop (pos + i) s) = s ! (pos + i) # take n (drop (pos + Suc i) s)"
    by (simp add: Cons_nth_drop_Suc [symmetric])
  then show ?case using Suc assms by (simp add: wp_delimiter_loop)
qed simp

lemma wp_end_loop:
  assumes "pos \<le> length s" "is_cstr (drop pos s)"
  defines "t \<equiv> c_str (drop pos s)"
  shows "j + n \<le> length ds \<Longrightarrow> wp (end_loop s pos ds j n) Q w =
    Q (map_option (\<lambda>d. length (takeWhile (\<lambda>c. c \<noteq> d) t)) (List.find (\<lambda>d. d \<in> set t) (take n (drop j ds)))) w"
proof (induction n arbitrary: j)
  case (Suc n)
  then have "take (Suc n) (drop j ds) = ds ! j # take n (drop (Suc j) ds)" by (simp add: Cons_nth_drop_Suc [symmetric])
  then show ?case using Suc assms by (simp add: c_strchr_def)
qed simp

text \<open>A tokenizer of the text \<open>xs\<close> that has \<open>r\<close> left.\<close>

definition reads :: "u8 list \<Rightarrow> u8 list \<Rightarrow> STRING_TOKEN \<Rightarrow> bool" where
  "reads xs r tz \<longleftrightarrow> inputString tz = Some (xs @ [0]) \<and> 0 \<notin> set xs \<and> sizeOfinputString tz = length xs \<and>
     currentPos tz \<le> length xs \<and> drop (currentPos tz) xs = r"

lemma readsD:
  assumes "reads xs r tz"
  shows "drop (currentPos tz) (xs @ [0]) = r @ [0]" "0 \<notin> set r" "currentPos tz + length r = length xs"
  using assms by (auto simp: reads_def dest: in_set_dropD)

lemma reads_later:
  assumes "reads xs (u @ r) tz"
  shows "reads xs r (tz\<lparr>currentPos := currentPos tz + length u\<rparr>)"
proof -
  have "drop (currentPos tz + length u) xs = drop (length u) (u @ r)"
    using assms by (metis add.commute drop_drop reads_def)
  then show ?thesis using assms readsD(3) [OF assms] by (simp add: reads_def)
qed

text \<open>The token and the rest of the text after the leading delimiters, by the delimiter that ends it.\<close>

definition cut :: "u8 option \<Rightarrow> u8 list \<Rightarrow> u8 list \<times> u8 list" where
  "cut e u = (case e of None \<Rightarrow> (u, []) | Some d \<Rightarrow> (takeWhile (\<lambda>c. c \<noteq> d) u, tl (dropWhile (\<lambda>c. c \<noteq> d) u)))"

lemma next_tok_cut:
  "next_tok ds t = (let u = dropWhile (\<lambda>c. c \<in> set ds) t in if u = [] then None else Some (cut (List.find (\<lambda>d. d \<in> set u) ds) u))"
  by (simp add: next_tok_def cut_def Let_def split: option.split)

lemma split_at_first: "d \<in> set u \<Longrightarrow> u = takeWhile (\<lambda>c. c \<noteq> d) u @ d # tl (dropWhile (\<lambda>c. c \<noteq> d) u)"
  by (induction u) auto

lemma reads_cut:
  assumes "reads xs u tz" "\<And>d. e = Some d \<Longrightarrow> d \<in> set u"
  defines "n \<equiv> (case e of None \<Rightarrow> length u | Some d \<Rightarrow> length (takeWhile (\<lambda>c. c \<noteq> d) u))"
  shows "take n u = fst (cut e u)" "n \<le> length u"
    "reads xs (snd (cut e u)) (tz\<lparr>currentPos := currentPos tz + (if e = None then n else n + 1)\<rparr>)"
proof -
  show "take n u = fst (cut e u)" "n \<le> length u"
    by (simp_all add: n_def cut_def takeWhile_eq_take [symmetric] length_takeWhile_le split: option.split)
  show "reads xs (snd (cut e u)) (tz\<lparr>currentPos := currentPos tz + (if e = None then n else n + 1)\<rparr>)"
  proof (cases e)
    case None
    then show ?thesis using reads_later [of xs u "[]" tz] assms(1) by (simp add: n_def cut_def)
  next
    case (Some d)
    then have d: "d \<in> set u" using assms(2) by simp
    then show ?thesis
      using reads_later [of xs "takeWhile (\<lambda>c. c \<noteq> d) u @ [d]" "tl (dropWhile (\<lambda>c. c \<noteq> d) u)" tz] split_at_first [OF d] assms(1) Some
      by (simp add: n_def cut_def)
  qed
qed

lemma wp_get_next_token:
  assumes r: "reads xs r tz" and out: "str_wf out" and ds: "is_cstr ds" "c_str ds \<noteq> []" and size: "length xs + 1 < SIZE_MOD"
    and none: "\<And>tz'. next_tok (c_str ds) r = None \<Longrightarrow> reads xs [] tz' \<Longrightarrow> Q (FAILURE, Some tz', Some out) w"
    and short: "\<And>u tz' w'. next_alloc w = None \<Longrightarrow> reads xs u tz' \<Longrightarrow> live w' = live w \<Longrightarrow> faults w' = faults w \<Longrightarrow>
      Q (FAILURE, Some tz', Some out) w'"
    and ok: "\<And>t r' tz' w'. next_tok (c_str ds) r = Some (t, r') \<Longrightarrow> reads xs r' tz' \<Longrightarrow> next_alloc w \<noteq> None \<Longrightarrow>
      avail w' = tl (avail w) \<Longrightarrow> live w' = live w \<Longrightarrow> faults w' = faults w \<Longrightarrow> Q (0, Some tz', Some (mkstr t)) w'"
  shows "wp (STRING_TOKENIZER_get_next_token (Some tz) (Some out) (Some ds)) Q w"
proof -
  define D where "D = c_str ds"
  define p where "p = takeWhile (\<lambda>c. c \<in> set D) r"
  define u where "u = dropWhile (\<lambda>c. c \<in> set D) r"
  define e where "e = List.find (\<lambda>d. d \<in> set u) D"
  define n where "n = (case e of None \<Rightarrow> length u | Some d \<Rightarrow> length (takeWhile (\<lambda>c. c \<noteq> d) u))"
  define tz1 where "tz1 = tz\<lparr>currentPos := currentPos tz + length p\<rparr>"
  define tz2 where "tz2 = tz1\<lparr>currentPos := currentPos tz1 + (if e = None then n else n + 1)\<rparr>"
  have r_split: "r = p @ u" by (simp add: p_def u_def)
  have inp: "inputString tz = Some (xs @ [0])" "sizeOfinputString tz - currentPos tz = length r"
      "currentPos tz + length r = length xs"
    using r readsD(3) [OF r] by (auto simp: reads_def)
  have skip: "wp (skip_loop (xs @ [0]) (currentPos tz) ds (length D) 0 (length r)) R w = R (length p) w" for R
    using wp_skip_loop [of "length D" ds "currentPos tz" 0 "length r" "xs @ [0]"] inp(3) readsD(1) [OF r] length_c_str_le [of ds]
    by (simp add: D_def p_def)
  have tz: "reads xs u tz1" using reads_later [of xs p u tz] r by (simp add: r_split tz1_def)
  note du = readsD [OF tz]
  have found: "d \<in> set u" if "e = Some d" for d using that by (auto simp: find_Some_iff e_def)
  have stop: "wp (end_loop (xs @ [0]) (currentPos tz + length p) ds 0 (length D)) R w =
      R (map_option (\<lambda>d. length (takeWhile (\<lambda>c. c \<noteq> d) u)) e) w" for R
    using wp_end_loop [of "currentPos tz1" "xs @ [0]" 0 "length D" ds R w] du length_c_str_le [of ds]
    by (simp add: D_def e_def tz1_def)
  note c = reads_cut [OF tz, of e, OF found, folded n_def tz2_def]
  have nt: "next_tok (c_str ds) r = (if u = [] then None else Some (cut e u))"
    by (simp only: next_tok_cut Let_def u_def e_def D_def)
  have copy: "wp (STRING_copy_n (Some out) (Some (u @ [0])) n)
      (\<lambda>(r1, o1). wp (if r1 \<noteq> 0 then ret (FAILURE, Some tz1, o1) else ret (0, Some tz2, o1)) Q) w" if "u \<noteq> []"
  proof (rule wp_STRING_copy_n [OF out], goal_cases)
    case 2
    then show ?case using du inp(3) size by (simp add: r_split)
  next
    case (3 w')
    then show ?case using short [OF _ tz] by simp
  next
    case (4 w')
    then show ?case using ok [of "fst (cut e u)" "snd (cut e u)" tz2 w'] that c du nt by simp
  qed simp
  have rem: "length r - length p = length u" "length r \<le> length p \<longleftrightarrow> u = []" "u \<noteq> [] \<Longrightarrow> r \<noteq> []" by (simp_all add: r_split)
  show ?thesis
  proof (cases "r = [] \<or> u = []")
    case True
    then show ?thesis using ds inp none [of tz] none [of tz1] r tz nt rem
      by (auto simp: STRING_TOKENIZER_get_next_token_def Let_def skip [unfolded D_def] tz1_def)
  next
    case False
    have "wp (STRING_TOKENIZER_get_next_token (Some tz) (Some out) (Some ds)) Q w \<longleftrightarrow>
      wp (STRING_copy_n (Some out) (Some (u @ [0])) n)
        (\<lambda>(r1, o1). wp (if r1 \<noteq> 0 then ret (FAILURE, Some tz1, o1) else ret (0, Some tz2, o1)) Q) w"
      using ds inp du rem False
      by (cases e; simp add: STRING_TOKENIZER_get_next_token_def Let_def skip [unfolded D_def] stop [unfolded D_def] tz1_def tz2_def n_def wp_prod_fun
          cong: if_cong)
    then show ?thesis using copy False by blast
  qed
qed

section \<open>What the parser does\<close>

lemma next_tok_nonempty:
  assumes "next_tok ds t = Some (u, r)"
  shows "u \<noteq> []"
proof -
  define v where "v = dropWhile (\<lambda>c. c \<in> set ds) t"
  have "v \<noteq> []" and u: "u = v \<or> (\<exists>d \<in> set ds. u = takeWhile (\<lambda>c. c \<noteq> d) v)"
    using assms by (auto simp: next_tok_def Let_def v_def find_Some_iff split: if_splits option.splits)
  moreover have "hd v \<notin> set ds" using \<open>v \<noteq> []\<close> hd_dropWhile [of "\<lambda>c. c \<in> set ds" t] unfolding v_def by blast
  ultimately show ?thesis by (cases v) (auto split: if_splits)
qed

lemma set_tl_subset: "set (tl ys) \<subseteq> set ys"
  by (cases ys) auto

lemma next_tok_chars:
  assumes "next_tok ds t = Some (u, r)"
  shows "set u \<subseteq> set t" "set r \<subseteq> set t" "length u \<le> length t"
proof -
  define v where "v = dropWhile (\<lambda>c. c \<in> set ds) t"
  have v: "set v \<subseteq> set t" "length v \<le> length t" by (auto simp: v_def length_dropWhile_le dest: set_dropWhileD)
  have "(u = v \<and> r = []) \<or> (\<exists>d. u = takeWhile (\<lambda>c. c \<noteq> d) v \<and> r = tl (dropWhile (\<lambda>c. c \<noteq> d) v))"
    using assms by (auto simp: next_tok_def Let_def v_def split: if_splits option.splits)
  moreover have "set (takeWhile P v) \<subseteq> set t" "set (tl (dropWhile P v)) \<subseteq> set t" "length (takeWhile P v) \<le> length t" for P
    using v le_trans [OF length_takeWhile_le v(2)] set_tl_subset [of "dropWhile P v"]
    by (auto dest: set_takeWhileD set_dropWhileD)
  ultimately show "set u \<subseteq> set t" "set r \<subseteq> set t" "length u \<le> length t"
    using v by auto
qed

text \<open>The pairs of a connection string: a key up to \<open>=\<close>, a value up to \<open>;\<close>, until no key is left. A key without value or a key that
  came before is an error.\<close>

function parse_pairs :: "(u8 list \<times> u8 list) list \<Rightarrow> u8 list \<Rightarrow> (u8 list \<times> u8 list) list option" where
  "parse_pairs es t =
     (case next_tok [61] t of
        None \<Rightarrow> Some es
      | Some (k, r) \<Rightarrow>
          (case next_tok [59] r of
             None \<Rightarrow> None
           | Some (v, r') \<Rightarrow> if k \<in> fst ` set es then None else parse_pairs (es @ [(k, v)]) r'))"
  by pat_completeness auto
termination
  by (relation "measure (\<lambda>(es, t). length t)") (auto dest!: next_tok_shorter)

declare parse_pairs.simps [simp del]

text \<open>The first \<open>n\<close> pairs of a text and what follows them.\<close>

fun parse_steps :: "nat \<Rightarrow> (u8 list \<times> u8 list) list \<Rightarrow> u8 list \<Rightarrow> ((u8 list \<times> u8 list) list \<times> u8 list) option" where
  "parse_steps 0 es t = Some (es, t)"
| "parse_steps (Suc n) es t =
     (case next_tok [61] t of
        None \<Rightarrow> None
      | Some (k, r) \<Rightarrow>
          (case next_tok [59] r of
             None \<Rightarrow> None
           | Some (v, r') \<Rightarrow> if k \<in> fst ` set es then None else parse_steps n (es @ [(k, v)]) r'))"

lemma wp_Map_Add_new:
  assumes rep: "map_rep m ks vs" and fits: "4 * Suc (length ks) < SIZE_MOD" and cb: "mapFilterCallback m = None"
    and args: "cstr_block key" "cstr_block val"
    and failed: "\<And>x m' w'. x \<noteq> MAP_OK \<Longrightarrow> c_str key \<in> c_str ` set ks \<or> \<not> plenty 4 w \<Longrightarrow> map_rep m' ks vs \<Longrightarrow>
           live w' = live w \<Longrightarrow> faults w' = faults w \<Longrightarrow> Q (x, Some m') w'"
    and added: "\<And>m' w'. c_str key \<notin> c_str ` set ks \<Longrightarrow> map_rep m' (ks @ [dup_str key]) (vs @ [dup_str val]) \<Longrightarrow>
           mapFilterCallback m' = None \<Longrightarrow> live w' = live w + (if ks = [] then 4 else 2) \<Longrightarrow> faults w' = faults w \<Longrightarrow>
           avail w' = drop 4 (avail w) \<Longrightarrow> Q (MAP_OK, Some m') w'"
  shows "wp (Map_Add (Some m) (Some key) (Some val)) Q w"
proof -
  have key: "is_cstr key" using args by (simp add: cstr_block_def)
  have "wp (findKey m key) (\<lambda>f. wp (if f \<noteq> None then ret (MAP_KEYEXISTS, Some m)
      else do { (r, h) \<leftarrow> insertNewKeyValue m key val; ret (if r \<noteq> 0 then MAP_ERROR else MAP_OK, Some h) }) Q) w"
  proof (rule wp_findKey [OF rep key], goal_cases)
    case 1
    then have "wp (insertNewKeyValue m key val) (\<lambda>(r, h). Q (if r \<noteq> 0 then MAP_ERROR else MAP_OK, Some h)) w"
      by (intro wp_insertNewKeyValue [OF rep fits args 1]) (auto intro: failed added simp: cb)
    then show ?case by (simp add: wp_prod_fun)
  next
    case (2 j)
    then have "c_str key \<in> c_str ` set ks" by (metis imageI nth_mem)
    then show ?case using failed [OF _ _ rep] by simp
  qed
  then show ?thesis using cb by (simp add: Map_Add_def filter_rejects_def)
qed

lemma wp_parse_value:
  assumes tz: "reads xs r tz" and val: "str_wf val" and key: "k \<noteq> []" "0 \<notin> set k" "length k \<le> length xs"
    and rep: "map_rep m ks vs" and cb: "mapFilterCallback m = None"
    and size: "4 * Suc (length ks) < SIZE_MOD" "length xs + 1 < SIZE_MOD"
    and failed: "\<And>u tz' v' m' w'. reads xs u tz' \<Longrightarrow> next_tok [59] r = None \<or> k \<in> c_str ` set ks \<or> \<not> plenty 5 w \<Longrightarrow>
        map_rep m' ks vs \<Longrightarrow>
        live w' = live w \<Longrightarrow> faults w' = faults w \<Longrightarrow> Q (True, Some tz', Some v', Some m') w'"
    and added: "\<And>v r' tz' m' w'. next_tok [59] r = Some (v, r') \<Longrightarrow> k \<notin> c_str ` set ks \<Longrightarrow> reads xs r' tz' \<Longrightarrow>
        map_rep m' (ks @ [k @ [0]]) (vs @ [v @ [0]]) \<Longrightarrow> 0 \<notin> set v \<Longrightarrow> mapFilterCallback m' = None \<Longrightarrow>
        live w' = live w + (if ks = [] then 4 else 2) \<Longrightarrow> faults w' = faults w \<Longrightarrow> used 5 w w' \<Longrightarrow>
        Q (False, Some tz', Some (mkstr v), Some m') w'"
  shows "wp (parse_value (Some tz) (Some (mkstr k)) (Some val) (Some m)) Q w"
proof -
  have semi: "c_str (clit '';'') = [59]" "is_cstr (clit '';'')" by (simp_all add: clit_char c_str_def is_cstr_def)
  have add: "wp (Map_Add (Some m) (Some (k @ [0])) (Some (v @ [0])))
      (\<lambda>(x, m1). Q (x \<noteq> MAP_OK, Some tz', Some (mkstr v), m1)) w'"
    if v: "next_tok [59] r = Some (v, r')" and tz': "reads xs r' tz'"
      and w': "next_alloc w \<noteq> None" "avail w' = tl (avail w)" "live w' = live w" "faults w' = faults w" for v r' tz' w'
  proof -
    have "0 \<notin> set v" "length v \<le> length xs" using next_tok_chars [OF v] readsD [OF tz] by auto
    then have blocks: "cstr_block (k @ [0])" "cstr_block (v @ [0])" "dup_str (k @ [0]) = k @ [0]" "dup_str (v @ [0]) = v @ [0]"
      using key size by (simp_all add: cstr_block_def dup_str_def)
    show ?thesis
    proof (rule wp_Map_Add_new [OF rep size(1) cb blocks(1,2)], goal_cases)
      case (1 x m' w2)
      then have "k \<in> c_str ` set ks \<or> \<not> plenty 5 w" using key used_starved [OF used_tl [OF w'(2), of 1], of 4 5] by auto
      then show ?case using failed [OF tz', of m' w2] 1 w' by simp
    next
      case (2 m' w2)
      have "used 5 w w2" by (rule used_trans [OF used_tl [OF w'(2), of 1] used_drop [OF 2(6), of 4]]) simp_all
      then show ?case using added [OF v _ tz'] 2 w' key blocks \<open>0 \<notin> set v\<close> by simp
    qed
  qed
  have "wp (STRING_TOKENIZER_get_next_token (Some tz) (Some val) (Some (clit '';'')))
      (\<lambda>(x, tz1, val1). wp (if x \<noteq> 0 then ret (True, tz1, val1, Some m)
         else do { (x, m1) \<leftarrow> Map_Add (Some m) (Some (k @ [0])) (STRING_c_str val1); ret (x \<noteq> MAP_OK, tz1, val1, m1) }) Q) w"
  proof (rule wp_get_next_token [OF tz val semi(2) _ size(2)], goal_cases)
    case (2 tz')
    then show ?case using failed [OF _ _ rep] by (auto simp: semi)
  next
    case (3 u tz' w')
    then show ?case using failed [OF _ _ rep] not_plenty_next [of w 5] by simp
  next
    case (4 v r' tz' w')
    then show ?case using add [of v r' tz' w'] by (simp add: semi STRING_c_str_def wp_prod_fun)
  qed (simp add: semi)
  then show ?thesis using key
    by (auto simp: parse_value_def STRING_c_str_def Map_Add_def split: option.splits elim!: wp_mono)
qed

text \<open>What a caller gets: the map of the pairs the text stands for, \<open>NULL\<close> for a text that stands for none, and when memory is short
  \<open>NULL\<close> or the first pairs of the text. The pairs \<open>es\<close> are there already, the text is \<open>r\<close>.\<close>

definition parsed :: "nat \<Rightarrow> world \<Rightarrow> (u8 list \<times> u8 list) list \<Rightarrow> u8 list \<Rightarrow> MAP_HANDLE_DATA option \<Rightarrow> bool" where
  "parsed n w es r h \<longleftrightarrow>
     (case h of
        None \<Rightarrow> parse_pairs es r = None \<or> \<not> plenty n w
      | Some m \<Rightarrow> map_wf m \<and>
          (parse_pairs es r = Some (map_entries m) \<or> \<not> plenty n w \<and> (\<exists>k r'. parse_steps k es r = Some (map_entries m, r'))))"

lemma parsed_used: "parsed b w' es r h \<Longrightarrow> used a w w' \<Longrightarrow> a + b \<le> n \<Longrightarrow> parsed n w es r h"
  using used_starved [of a w w' b n] by (auto simp: parsed_def split: option.splits)

definition parse_loop_ok ::
  "nat \<Rightarrow> world \<Rightarrow> (u8 list \<times> u8 list) list \<Rightarrow> u8 list \<Rightarrow> int
    \<Rightarrow> STRING_TOKEN option \<times> STRING option \<times> STRING option \<times> MAP_HANDLE_DATA option \<Rightarrow> world \<Rightarrow> bool" where
  "parse_loop_ok n w es r l res w' \<longleftrightarrow>
     (case res of (tz, key, val, h) \<Rightarrow>
        (\<exists>t. tz = Some t \<and> inputString t \<noteq> None) \<and> key \<noteq> None \<and> val \<noteq> None \<and>
        faults w' = faults w \<and> live w' = live w - l + map_blocks h \<and> parsed n w es r h)"

lemma parse_loop_ok_used:
  assumes "parse_loop_ok b w1 es r k res w2" "used a w w1" "a + b \<le> n" "faults w1 = faults w" "live w1 - k = live w - l"
  shows "parse_loop_ok n w es r l res w2"
  using assms by (auto simp: parse_loop_ok_def intro: parsed_used)

lemma wp_parse_loop:
  assumes size: "4 * (length xs + 1) < SIZE_MOD"
  shows "reads xs r tz \<Longrightarrow> str_wf key \<Longrightarrow> str_wf val \<Longrightarrow> map_rep m ks vs \<Longrightarrow> mapFilterCallback m = None \<Longrightarrow>
    length ks + length r \<le> length xs \<Longrightarrow> length r < rounds \<Longrightarrow>
    wp (parse_loop rounds (Some tz) (Some key) (Some val) (Some m))
      (parse_loop_ok (6 * length r) w (map_entries m) r (map_blocks (Some m))) w"
proof (induction rounds arbitrary: r tz key val m ks vs w)
  case (Suc rounds)
  note rep = Suc.prems(4)
  let ?ok = "parse_loop_ok (6 * length r) w (map_entries m) r (map_blocks (Some m))"
  have eq: "c_str (clit ''='') = [61]" "is_cstr (clit ''='')" by (simp_all add: clit_char c_str_def is_cstr_def)
  have es: "map_entries m = zip (map c_str ks) (map c_str vs)" "fst ` set (map_entries m) = c_str ` set ks" "length vs = length ks"
    using map_rep_entries [OF rep] map_rep_fst [OF rep] rep by (simp_all add: map_rep_def)
  have round: "wp (parse_value (Some tz1) (Some (mkstr k)) (Some val) (Some m))
      (\<lambda>(is_error, tz1, val1, m1). wp (if is_error then do { Map_Destroy m1; ret (tz1, Some (mkstr k), val1, None) }
         else parse_loop rounds tz1 (Some (mkstr k)) val1 m1) ?ok) w1"
    if k: "next_tok [61] r = Some (k, r1)" and tz1: "reads xs r1 tz1"
      and w1: "avail w1 = tl (avail w)" "live w1 = live w" "faults w1 = faults w" for k r1 tz1 w1
  proof -
    have kk: "k \<noteq> []" "0 \<notin> set k" "length k \<le> length xs" "length r1 < length r" "r \<noteq> []"
      using next_tok_nonempty [OF k] next_tok_chars [OF k] next_tok_shorter [OF k] readsD [OF Suc.prems(1)] by auto
    have fits: "4 * Suc (length ks) < SIZE_MOD" "length xs + 1 < SIZE_MOD" using size Suc.prems(6) kk(4) by auto
    show ?thesis
    proof (rule wp_parse_value [OF tz1 Suc.prems(3) kk(1,2,3) rep Suc.prems(5) fits], goal_cases)
      case (1 u tz' v' m' w')
      have none: "parse_pairs (map_entries m) r = None \<or> \<not> plenty (6 * length r) w"
        using 1(2) k es(2) used_starved [OF used_tl [OF w1(1), of 1], of 5 "6 * length r"] kk(5)
        by (auto simp: parse_pairs.simps [of "map_entries m" r] Suc_le_eq length_greater_0_conv [symmetric] simp del: length_greater_0_conv
            split: option.splits)
      have "map_entries m' = map_entries m" "map_blocks (Some m') = map_blocks (Some m)"
        using map_rep_entries [OF 1(3)] es map_rep_blocks [OF 1(3)] map_rep_blocks [OF rep] by simp_all
      then show ?case using none 1 w1 wp_Map_Destroy [OF map_rep_wf [OF 1(3)]]
        by (simp add: parse_loop_ok_def parsed_def map_blocks_def [of None] reads_def)
    next
      case (2 v r' tz' m' w')
      have m': "map_entries m' = map_entries m @ [(k, v)]" "map_blocks (Some m') = map_blocks (Some m) + (if ks = [] then 4 else 2)"
        using map_rep_entries [OF 2(4)] es 2(5) kk(2) map_rep_blocks [OF 2(4)] map_rep_blocks [OF rep] by simp_all
      have step: "parse_pairs (map_entries m) r = parse_pairs (map_entries m') r'"
        using k 2(1,2) es(2) m' by (simp add: parse_pairs.simps [of "map_entries m" r])
      have steps: "parse_steps (Suc j) (map_entries m) r = parse_steps j (map_entries m') r'" for j
        using k 2(1,2) es(2) m' by simp
      have onwards: "parsed n w (map_entries m) r h" if "parsed n w (map_entries m') r' h" for n h
        using that unfolding parsed_def step steps [symmetric] by (auto split: option.splits simp del: parse_steps.simps)
      have lens: "length r' < length r1" using next_tok_shorter [OF 2(1)] .
      have used: "used 6 w w'" by (rule used_trans [OF used_tl [OF w1(1), of 1] 2(9)]) simp_all
      have ok: "?ok res w2"
        if "parse_loop_ok (6 * length r') w' (map_entries m') r' (map_blocks (Some m')) res w2" for res w2
      proof -
        have "parse_loop_ok (6 * length r) w (map_entries m') r' (map_blocks (Some m)) res w2"
          by (rule parse_loop_ok_used [OF that used]) (use w1 2 m' lens kk in simp_all)
        then show ?thesis using onwards by (auto simp: parse_loop_ok_def)
      qed
      have "wp (parse_loop rounds (Some tz') (Some (mkstr k)) (Some (mkstr v)) (Some m')) ?ok w'"
        by (rule wp_mono [OF Suc.IH [OF 2(3) _ _ 2(4,6)] ok]) (use Suc.prems kk lens in auto)
      then show ?case by simp
    qed
  qed
  have "wp (STRING_TOKENIZER_get_next_token (Some tz) (Some key) (Some (clit ''='')))
      (\<lambda>(x, tz1, key1). wp (if x \<noteq> 0 then ret (tz1, key1, Some val, Some m)
         else do {
           (is_error, tz1, val1, m1) \<leftarrow> parse_value tz1 key1 (Some val) (Some m);
           if is_error then do { Map_Destroy m1; ret (tz1, key1, val1, None) } else parse_loop rounds tz1 key1 val1 m1
         }) ?ok) w"
  proof (rule wp_get_next_token [OF Suc.prems(1,2) eq(2)], goal_cases)
    case 2
    then show ?case using size by auto
  next
    case (3 tz')
    then show ?case using map_rep_wf [OF rep]
      by (simp add: eq parse_loop_ok_def parsed_def parse_pairs.simps [of _ r] reads_def)
  next
    case (4 u tz' w')
    have "\<not> plenty (6 * length r) w" if "r \<noteq> []" using 4(1) that by (intro not_plenty_next) simp_all
    moreover have "parse_pairs (map_entries m) [] = Some (map_entries m)" by (simp add: parse_pairs.simps [of _ "[]"] next_tok_def)
    moreover have "parse_steps 0 (map_entries m) r = Some (map_entries m, r)" by simp
    ultimately show ?case using 4 map_rep_wf [OF rep]
      by (cases "r = []") (auto simp: parse_loop_ok_def parsed_def reads_def simp del: parse_steps.simps)
  next
    case (5 k r1 tz1 w1)
    then show ?case using round [of k r1 tz1 w1] by (simp add: eq wp_prod_fun)
  qed (simp add: eq)
  then show ?case by (simp add: wp_prod_fun)
qed simp

lemma wp_STRING_TOKENIZER_create:
  assumes "str_wf st" "length (str_val st) + 1 < SIZE_MOD"
    and "\<And>w'. \<not> plenty 2 w \<Longrightarrow> live w' = live w \<Longrightarrow> faults w' = faults w \<Longrightarrow> Q None w'"
    and "\<And>tz w'. reads (str_val st) (str_val st) tz \<Longrightarrow> live w' = live w + 2 \<Longrightarrow> faults w' = faults w \<Longrightarrow>
           avail w' = drop 2 (avail w) \<Longrightarrow> Q (Some tz) w'"
  shows "wp (STRING_TOKENIZER_create (Some st)) Q w"
proof -
  have copy: "wp (mallocAndStrcpy_s True (Some (str_s st)))
      (\<lambda>(r, d). wp (if r \<noteq> 0 then do { c_free (Some ()); ret None }
         else do {
           let s = (case d of None \<Rightarrow> None | Some x \<Rightarrow> x);
           n \<leftarrow> c_strlen (blk s);
           ret (Some \<lparr>inputString = s, currentPos = 0, sizeOfinputString = n\<rparr>)
         }) Q) w1"
    if "next_alloc w \<noteq> None" "avail w1 = tl (avail w)" "live w1 = live w + 1" "faults w1 = faults w" for w1
    by (rule wp_mallocAndStrcpy_s)
      (use assms that in \<open>simp_all add: str_wf_def str_val_def reads_def Let_def ENOMEM_def starved drop_Suc numeral_2_eq_2\<close>)
  then show ?thesis
    unfolding STRING_TOKENIZER_create_def STRING_TOKENIZER_create_from_char_def STRING_c_str_def
    using assms(3) by (auto intro!: wp_new simp: not_plenty_next wp_prod_fun)
qed

lemma wp_STRING_TOKENIZER_destroy:
  "inputString t \<noteq> None \<Longrightarrow> wp (STRING_TOKENIZER_destroy (Some t)) Q w = Q () (w\<lparr>live := live w - 2\<rparr>)"
  by (auto simp: STRING_TOKENIZER_destroy_def)

text \<open>The end of the parser, which releases what it works on, and what holds when it is done.\<close>

definition parse_end ::
  "STRING_TOKEN option \<times> STRING option \<times> STRING option \<times> MAP_HANDLE_DATA option \<Rightarrow> MAP_HANDLE_DATA option cm" where
  "parse_end p = (case p of (tz, key, val, h) \<Rightarrow>
     do { STRING_delete val; STRING_delete key; STRING_TOKENIZER_destroy tz; ret h })"

definition parse_post :: "nat \<Rightarrow> world \<Rightarrow> u8 list \<Rightarrow> MAP_HANDLE_DATA option \<Rightarrow> world \<Rightarrow> bool" where
  "parse_post n w xs h w' \<longleftrightarrow> faults w' = faults w \<and> live w' = live w + map_blocks h \<and> parsed n w [] xs h"

lemma parse_post_short: "\<not> plenty n w \<Longrightarrow> live w' = live w \<Longrightarrow> faults w' = faults w \<Longrightarrow> parse_post n w xs None w'"
  by (simp add: parse_post_def parsed_def map_blocks_def)

lemma wp_parse_run:
  assumes size: "4 * (length xs + 1) < SIZE_MOD" and rounds: "length xs < rounds"
    and tz: "reads xs xs tz" and m: "map_rep m [] []" "mapFilterCallback m = None"
    and w': "used 7 w w'" "live w' = live w + 7" "faults w' = faults w"
  shows "wp (parse_loop rounds (Some tz) (Some (mkstr [])) (Some (mkstr [])) (Some m))
    (\<lambda>p. wp (parse_end p) (parse_post (7 + 6 * length xs) w xs)) w'"
proof -
  have m0: "map_entries m = []" "map_blocks (Some m) = 1" using map_rep_entries [OF m(1)] map_rep_blocks [OF m(1)] by simp_all
  have "wp (parse_loop rounds (Some tz) (Some (mkstr [])) (Some (mkstr [])) (Some m))
      (parse_loop_ok (6 * length xs) w' [] xs 1) w'"
    using wp_parse_loop [OF size tz _ _ m, of "mkstr []" "mkstr []" rounds w'] rounds by (simp add: m0)
  moreover have "wp (parse_end p) (parse_post (7 + 6 * length xs) w xs) w2"
    if "parse_loop_ok (6 * length xs) w' [] xs 1 p w2" for p w2
    using that w' parsed_used [of "6 * length xs" w' _ _ _ 7 w "7 + 6 * length xs"]
    by (auto simp: parse_end_def parse_loop_ok_def parse_post_def wp_STRING_TOKENIZER_destroy str_blocks_def split: prod.splits)
  ultimately show ?thesis by (rule wp_mono)
qed

lemma wp_parse_map:
  assumes size: "4 * (length xs + 1) < SIZE_MOD" and rounds: "length xs < rounds"
    and tz: "reads xs xs tz" and w': "avail w' = drop 6 (avail w)" "live w' = live w + 6" "faults w' = faults w"
  shows "wp (Map_Create None) (\<lambda>h. wp (do {
      p \<leftarrow> (if h = None then ret (Some tz, Some (mkstr []), Some (mkstr []), None)
           else parse_loop rounds (Some tz) (Some (mkstr [])) (Some (mkstr [])) h);
      parse_end p }) (parse_post (7 + 6 * length xs) w xs)) w'"
proof (rule wp_Map_Create, goal_cases)
  case (1 w2)
  then have "\<not> plenty (7 + 6 * length xs) w" using not_plenty_drop [of w' 6 w] w' by simp
  then show ?case using 1 w' tz
    by (simp add: parse_post_short parse_end_def wp_STRING_TOKENIZER_destroy str_blocks_def reads_def)
next
  case (2 m w2)
  have "used 7 w w2" by (rule used_trans [OF used_drop [OF w'(1), of 6] used_tl [OF 2(5), of 1]]) simp_all
  then show ?case using wp_parse_run [OF size rounds tz 2(1,2), of w w2] 2 w' by simp
qed

lemma wp_parse_strings:
  assumes size: "4 * (length xs + 1) < SIZE_MOD" and rounds: "length xs < rounds"
    and tz: "reads xs xs tz" and w1: "avail w1 = drop 2 (avail w)" "live w1 = live w + 2" "faults w1 = faults w"
  shows "wp STRING_new (\<lambda>key. wp (if key = None then do { STRING_TOKENIZER_destroy (Some tz); ret None }
      else do { val \<leftarrow> STRING_new;
        if val = None then do { STRING_delete key; STRING_TOKENIZER_destroy (Some tz); ret None }
        else do { h \<leftarrow> Map_Create None;
          p \<leftarrow> (if h = None then ret (Some tz, key, val, None) else parse_loop rounds (Some tz) key val h);
          parse_end p } }) (parse_post (7 + 6 * length xs) w xs)) w1"
proof (rule wp_STRING_new, goal_cases)
  case (1 w2)
  then have "\<not> plenty (7 + 6 * length xs) w" using used_starved [OF used_drop [OF w1(1), of 2], of 2] by simp
  then show ?case using 1 w1 tz by (simp add: parse_post_short wp_STRING_TOKENIZER_destroy reads_def)
next
  case (2 w2)
  note first = this
  have "wp STRING_new (\<lambda>val. wp (if val = None
        then do { STRING_delete (Some (mkstr [])); STRING_TOKENIZER_destroy (Some tz); ret None }
        else do { h \<leftarrow> Map_Create None;
          p \<leftarrow> (if h = None then ret (Some tz, Some (mkstr []), val, None) else parse_loop rounds (Some tz) (Some (mkstr [])) val h);
          parse_end p }) (parse_post (7 + 6 * length xs) w xs)) w2"
  proof (rule wp_STRING_new, goal_cases)
    case (1 w3)
    have "avail w2 = drop 4 (avail w)" using first w1 by simp
    then have "\<not> plenty (7 + 6 * length xs) w" using 1 used_starved [OF used_drop [of w2 4 w 4], of 2] by simp
    then show ?case using 1 first w1 tz by (simp add: parse_post_short wp_STRING_TOKENIZER_destroy str_blocks_def reads_def)
  next
    case (2 w3)
    then show ?case using wp_parse_map [OF size rounds tz, of w3 w] first w1 by simp
  qed
  then show ?case by simp
qed

lemma wp_connectionstringparser_parse:
  assumes st: "str_wf st" and size: "4 * (length (str_val st) + 1) < SIZE_MOD"
  shows "wp (connectionstringparser_parse (Some st)) (parse_post (7 + 6 * length (str_val st)) w (str_val st)) w"
  unfolding connectionstringparser_parse_def option.case parse_end_def [symmetric] wp_bind
proof (rule wp_STRING_TOKENIZER_create [OF st], goal_cases)
  case 1
  then show ?case using size by simp
next
  case (2 w1)
  moreover have "\<not> plenty (7 + 6 * length (str_val st)) w" using 2 plenty_le [of "7 + 6 * length (str_val st)" w 2] by auto
  ultimately show ?case by (simp add: parse_post_short)
next
  case (3 tz w1)
  have "length (str_val st) < length (str_s st)" using st by (simp add: str_val_def str_wf_def)
  then show ?case using wp_parse_strings [OF size _ 3(1), of _ w1 w] 3 by simp
qed

lemma wp_parse_from_char:
  assumes "is_cstr s" "4 * (length (c_str s) + 1) < SIZE_MOD"
  shows "wp (connectionstringparser_parse_from_char (Some s))
    (\<lambda>h w'. faults w' = faults w \<and> live w' = live w + map_blocks h \<and>
       parsed (9 + 6 * length (c_str s)) w [] (c_str s) h) w"
  unfolding connectionstringparser_parse_from_char_def wp_bind
proof (rule wp_STRING_construct [OF assms(1)], goal_cases)
  case 1
  then show ?case using assms(2) by simp
next
  case (2 w1)
  moreover have "\<not> plenty (9 + 6 * length (c_str s)) w" using 2 plenty_le [of "9 + 6 * length (c_str s)" w 2] by auto
  ultimately show ?case by (simp add: parsed_def map_blocks_def)
next
  case (3 w1)
  have "used 2 w w1" using 3 by (simp add: used_drop)
  then have "wp (STRING_delete (Some (mkstr (c_str s)))) (\<lambda>_. wp (ret h) (\<lambda>h w'. faults w' = faults w \<and>
      live w' = live w + map_blocks h \<and> parsed (9 + 6 * length (c_str s)) w [] (c_str s) h)) w2"
    if "parse_post (7 + 6 * length (c_str s)) w1 (c_str s) h w2" for h w2
    using that 3 parsed_used [of "7 + 6 * length (c_str s)" w1 "[]" "c_str s" h 2 w "9 + 6 * length (c_str s)"]
    by (simp add: parse_post_def str_blocks_def)
  moreover have "wp (connectionstringparser_parse (Some (mkstr (c_str s)))) (parse_post (7 + 6 * length (c_str s)) w1 (c_str s)) w1"
    using wp_connectionstringparser_parse [of "mkstr (c_str s)" w1] assms(2) by simp
  ultimately show ?case by (auto elim: wp_mono)
qed

section \<open>Printing and reading back\<close>

fun conn_text :: "(u8 list \<times> u8 list) list \<Rightarrow> u8 list" where
  "conn_text [] = []"
| "conn_text [(k, v)] = k @ 61 # v"
| "conn_text ((k, v) # ps) = k @ 61 # v @ 59 # conn_text ps"

definition pair_ok :: "u8 list \<times> u8 list \<Rightarrow> bool" where
  "pair_ok p \<longleftrightarrow> fst p \<noteq> [] \<and> snd p \<noteq> [] \<and> 61 \<notin> set (fst p) \<and> 59 \<notin> set (snd p)"

lemma next_tok_until:
  assumes "u \<noteq> []" "d \<notin> set u"
  shows "next_tok [d] (u @ d # r) = Some (u, r)" "next_tok [d] u = Some (u, [])"
proof -
  have u: "dropWhile (\<lambda>c. c = d) (u @ r) = u @ r" for r using assms by (cases u) auto
  have "takeWhile (\<lambda>c. c \<noteq> d) (u @ d # r) = u" "dropWhile (\<lambda>c. c \<noteq> d) (u @ d # r) = d # r"
    using assms by (auto simp: takeWhile_append dropWhile_append3)
  then show "next_tok [d] (u @ d # r) = Some (u, r)" using assms by (simp add: next_tok_single u)
  have "takeWhile (\<lambda>c. c \<noteq> d) u = u" "dropWhile (\<lambda>c. c \<noteq> d) u = []" using assms by auto
  then show "next_tok [d] u = Some (u, [])" using assms u [of "[]"] by (simp only: next_tok_single Let_def append_Nil2 list.sel if_False)
qed

lemma parse_pairs_end: "parse_pairs es [] = Some es"
  by (simp add: parse_pairs.simps [of es "[]"] next_tok_def)

lemma parse_pairs_conn_text:
  "list_all pair_ok ps \<Longrightarrow> distinct (map fst (es @ ps)) \<Longrightarrow> parse_pairs es (conn_text ps) = Some (es @ ps)"
proof (induction ps arbitrary: es rule: conn_text.induct)
  case 1
  then show ?case by (simp add: parse_pairs_end)
next
  case (2 k v)
  then show ?case
    by (auto simp: parse_pairs.simps [of es "k @ 61 # v"] pair_ok_def next_tok_until parse_pairs_end)
next
  case (3 k v p ps)
  have "parse_pairs (es @ [(k, v)]) (conn_text (p # ps)) = Some ((es @ [(k, v)]) @ p # ps)"
    using 3 by (intro 3(1)) auto
  then show ?case using 3(2,3)
    by (auto simp: parse_pairs.simps [of es "k @ 61 # v @ 59 # conn_text (p # ps)"] pair_ok_def next_tok_until)
qed

text \<open>C21. Parsing a connection string: whatever the text and whatever memory is left, the call ends within the bound on its rounds, uses no
  block after its release or outside its bounds, and keeps no block but the ones of the map it returns. With memory for \<open>9 + 6 n\<close>
  requests, \<open>n\<close> the length of the text, it returns the map of the pairs the text stands for, in order, and \<open>NULL\<close> for a text that
  stands for none (a key without value, a repeated key). When memory is short it returns \<open>NULL\<close>, that map, or a map of only the
  first pairs of the text, and the latter also for a text that stands for none.\<close>

theorem connection_string_parsed:
  assumes "is_cstr s" "4 * (length (c_str s) + 1) < SIZE_MOD"
  shows "wp (connectionstringparser_parse_from_char (Some s))
    (\<lambda>h w'. faults w' = faults w \<and> live w' = live w + map_blocks h \<and>
       parsed (9 + 6 * length (c_str s)) w [] (c_str s) h) w"
  by (rule wp_parse_from_char [OF assms])

theorem connection_string_parsed_witness:
  "wp (connectionstringparser_parse_from_char (Some (clit ''a=;b=c'')))
     (\<lambda>h w'. faults w' = 0 \<and> (\<exists>m. h = Some m \<and> map_entries m = [(map of_char ''a'', map of_char ''b=c'')]))
     \<lparr>avail = replicate 45 (Some (\<lambda>_. 0)), live = 0, faults = 0\<rparr>"
proof (rule wp_mono [OF connection_string_parsed], goal_cases)
  case (3 h w')
  then show ?case
    by (auto simp: parsed_def clit_def parse_pairs.simps next_tok_def c_str_def plenty_def split: option.splits)
qed (simp_all add: clit_def is_cstr_def c_str_def SIZE_MOD_def)

text \<open>C29. Reading back a connection string: the text of a list of pairs with different keys is parsed into a map of just these pairs, in
  their order, when memory is at hand; no access leaves a block, and no block is kept but the map's. Keys are not empty and have no
  \<open>=\<close>, values are not empty and have no \<open>;\<close>; a value may have \<open>=\<close> in it, as the keys in base64 do, and a key may
  have \<open>;\<close>.\<close>

theorem connection_string_roundtrip:
  assumes "list_all pair_ok ps" "distinct (map fst ps)" "0 \<notin> set (conn_text ps)" "4 * (length (conn_text ps) + 1) < SIZE_MOD"
    "plenty (9 + 6 * length (conn_text ps)) w"
  shows "wp (connectionstringparser_parse_from_char (Some (conn_text ps @ [0])))
    (\<lambda>h w'. faults w' = faults w \<and> live w' = live w + map_blocks h \<and> (\<exists>m. h = Some m \<and> map_wf m \<and> map_entries m = ps)) w"
proof -
  have t: "is_cstr (conn_text ps @ [0])" "c_str (conn_text ps @ [0]) = conn_text ps" using assms(3) by simp_all
  show ?thesis
    by (rule wp_mono [OF wp_parse_from_char [OF t(1)]])
      (use assms parse_pairs_conn_text [of ps "[]"] in \<open>auto simp: t parsed_def split: option.splits\<close>)
qed

theorem connection_string_roundtrip_witness:
  "wp (connectionstringparser_parse_from_char (Some (clit ''HostName=h.net;SharedAccessKey=aGk='')))
     (\<lambda>h w'. faults w' = 0 \<and> live w' = map_blocks h \<and> (\<exists>m. h = Some m \<and> map_entries m =
        [(map of_char ''HostName'', map of_char ''h.net''), (map of_char ''SharedAccessKey'', map of_char ''aGk='')]))
     \<lparr>avail = replicate 300 (Some (\<lambda>_. 0)), live = 0, faults = 0\<rparr>"
proof -
  let ?ps = "[(map of_char ''HostName'', map of_char ''h.net''), (map of_char ''SharedAccessKey'', map of_char ''aGk='')] :: (u8 list \<times> u8 list) list"
  have t: "clit ''HostName=h.net;SharedAccessKey=aGk='' = conn_text ?ps @ [0]" "0 \<notin> set (conn_text ?ps)" "length (conn_text ?ps) = 35"
    by (simp_all add: clit_def)
  show ?thesis
    unfolding t(1)
    by (rule wp_mono [OF connection_string_roundtrip [of ?ps, OF _ _ t(2)]]) (auto simp: pair_ok_def t(3) SIZE_MOD_def plenty_def)
qed

text \<open>Of several delimiters the one that comes first in the list ends the token, wherever it stands in the text; and an empty value makes the
  next pair the value.\<close>

lemma delimiters_by_rank:
  "next_tok (map of_char '';='') (map of_char ''a=b;c'') = Some (map of_char ''a=b'', map of_char ''c'')"
  by (simp add: next_tok_def)

lemma empty_value_swallows:
  "parse_pairs [] (map of_char ''a=;b=c'') = Some [(map of_char ''a'', map of_char ''b=c'')]"
  by (simp add: parse_pairs.simps next_tok_def)

text \<open>Running out of memory while a key is read looks like the end of the text: the loop stops and keeps the map as it is, so that the
  caller gets the pairs read so far as if they were all, whatever pairs follow.\<close>

lemma parse_truncated:
  assumes "reads xs r tz" "length xs + 1 < SIZE_MOD" "str_wf key" "next_alloc w = None"
  shows "wp (parse_loop (Suc n) (Some tz) (Some key) (Some val) (Some m))
    (\<lambda>(_, key', val', h) w'. (key', val', h) = (Some key, Some val, Some m) \<and> live w' = live w \<and> faults w' = faults w) w"
proof -
  have eq: "c_str (clit ''='') \<noteq> []" "is_cstr (clit ''='')" by (simp_all add: clit_char c_str_def is_cstr_def)
  show ?thesis unfolding parse_loop.simps(2) wp_bind
    by (rule wp_get_next_token [OF assms(1,3) eq(2,1) assms(2)]) (use assms(4) in simp_all)
qed

section \<open>Host names\<close>

lemma nth_c_str: "i < length (c_str h) \<Longrightarrow> h ! i = c_str h ! i"
  by (metis nth_take take_length_c_str)

text \<open>The loop stops at the end of the text or one past the first dot.\<close>

lemma wp_host_loop:
  assumes h: "is_cstr h"
  shows "run \<le> length (c_str h) \<Longrightarrow> length (c_str h) - run < n \<Longrightarrow> wp (host_loop h run n) Q w =
    Q (run + length (takeWhile (\<lambda>c. c \<noteq> 46) (drop run (c_str h))) + (if 46 \<in> set (drop run (c_str h)) then 1 else 0)) w"
proof (induction n arbitrary: run)
  case (Suc n)
  have len: "length (c_str h) < length h" using h by simp
  show ?case
  proof (cases "run = length (c_str h)")
    case True
    then show ?thesis using h len by simp
  next
    case False
    then have run: "run < length (c_str h)" using Suc.prems by simp
    then have c: "drop run (c_str h) = c_str h ! run # drop (Suc run) (c_str h)" "c_str h ! run \<noteq> 0"
      using c_str_nozero [of h] by (metis Cons_nth_drop_Suc, metis nth_mem)
    have "wp (host_loop h (Suc run) n) Q w = Q (Suc run + length (takeWhile (\<lambda>c. c \<noteq> 46) (drop (Suc run) (c_str h))) +
        (if 46 \<in> set (drop (Suc run) (c_str h)) then 1 else 0)) w" using Suc run by simp
    then show ?thesis using run len c(2) by (auto simp: c(1) nth_c_str)
  qed
qed simp

lemma c_str_at: "0 \<notin> set t \<Longrightarrow> is_cstr (t @ 0 # b)"
  by (simp add: is_cstr_def)

text \<open>What the two branches of \<open>connectionstringparser_splitHostName_from_char\<close> leave behind.\<close>

definition split_ok ::
  "world \<Rightarrow> u8 list \<Rightarrow> u8 list \<Rightarrow> STRING \<Rightarrow> STRING \<Rightarrow> int \<times> STRING option \<times> STRING option \<Rightarrow> world \<Rightarrow> bool" where
  "split_ok w p q name suffix res w' \<longleftrightarrow> (case res of (r, n', s') \<Rightarrow> live w' = live w \<and> faults w' = faults w \<and>
     (if p = [] \<or> q = [] then r = FAILURE \<and> n' = Some name \<and> s' = Some suffix
      else r = 0 \<and> n' = Some (mkstr p) \<and> s' = Some (mkstr q) \<or>
        r = FAILURE \<and> s' = Some suffix \<and> n' \<in> {Some name, Some (mkstr p)} \<and> \<not> plenty 2 w))"

lemma wp_split_dotted:
  assumes h: "h = p @ 46 # q @ 0 # b" "p \<noteq> []" "46 \<notin> set p" "0 \<notin> set p" "0 \<notin> set q"
    and size: "length p + length q + 2 < SIZE_MOD" and wf: "str_wf name" "str_wf suffix"
  shows "wp (connectionstringparser_splitHostName_from_char (Some h) (Some name) (Some suffix)) (split_ok w p q name suffix) w"
proof -
  have h': "h = (p @ 46 # q) @ 0 # b" "0 \<notin> set (p @ 46 # q)" using h by simp_all
  have cs: "is_cstr h" "c_str h = p @ 46 # q" using c_str_at [OF h'(2), of b] c_str_append_zero [OF h'(2), of b] h'(1) by simp_all
  have tw: "takeWhile (\<lambda>c. c \<noteq> 46) (p @ 46 # q) = p" using h(3) by (auto simp: takeWhile_append)
  have loop: "wp (host_loop h 0 (length h)) Q w = Q (length p + 1) w" for Q
    using wp_host_loop [OF cs(1), of 0 "length h"] length_c_str_less [OF cs(1)] by (simp add: cs(2) tw)
  have ends: "h ! 0 \<noteq> 0" "h ! 0 \<noteq> 46" "0 < length h" "length p + 1 < length h" "drop (length p + 1) h = q @ 0 # b"
      "h ! (length p + 1) = (if q = [] then 0 else hd q)" "q \<noteq> [] \<Longrightarrow> hd q \<noteq> 0"
    using h by (cases p; cases q; auto simp: nth_append)+
  have copy: "wp (STRING_copy_n (Some name) (Some h) (length p)) (\<lambda>(r1, n1). wp (if r1 \<noteq> 0 then ret (FAILURE, n1, Some suffix)
      else do { (r2, s1) \<leftarrow> STRING_copy False (Some suffix) (Some (q @ 0 # b)); ret (if r2 \<noteq> 0 then FAILURE else 0, n1, s1) })
      (split_ok w p q name suffix)) w" if "q \<noteq> []"
  proof (rule wp_STRING_copy_n [OF wf(1) cs(1)], goal_cases)
    case 1
    then show ?case using size by (simp add: cs)
  next
    case (2 w1)
    then show ?case using that h(2) by (simp add: split_ok_def starved)
  next
    case (3 w1)
    have "wp (STRING_copy False (Some suffix) (Some (q @ 0 # b)))
        (\<lambda>(r2, s1). split_ok w p q name suffix (if r2 \<noteq> 0 then FAILURE else 0, Some (mkstr p), s1)) w1"
      by (rule wp_STRING_copy [OF wf(2) c_str_at [OF h(5)]]) (use 3 that h size in \<open>simp_all add: split_ok_def starved\<close>)
    then show ?case by (simp add: cs wp_prod_fun)
  qed
  show ?thesis using ends copy h(2)
    by (cases "q = []") (simp_all add: connectionstringparser_splitHostName_from_char_def loop split_ok_def [of _ _ "[]"] wp_prod_fun cong: if_cong)
qed

text \<open>Splitting a host name: the name is what stands before the first dot and the suffix what stands after it, both copied; a host name
  without a name, without a dot or with nothing after its first dot is refused and changes nothing.\<close>

lemma host_name_split:
  assumes "is_cstr h" "length (c_str h) + 1 < SIZE_MOD" "str_wf name" "str_wf suffix"
  defines "p \<equiv> takeWhile (\<lambda>c. c \<noteq> 46) (c_str h)" and "q \<equiv> tl (dropWhile (\<lambda>c. c \<noteq> 46) (c_str h))"
  shows "wp (connectionstringparser_splitHostName_from_char (Some h) (Some name) (Some suffix))
    (\<lambda>(r, n', s') w'. live w' = live w \<and> faults w' = faults w \<and>
       (if p = [] \<or> q = [] then r = FAILURE \<and> n' = Some name \<and> s' = Some suffix
        else r = 0 \<and> n' = Some (mkstr p) \<and> s' = Some (mkstr q) \<or>
          r = FAILURE \<and> s' = Some suffix \<and> n' \<in> {Some name, Some (mkstr p)} \<and> \<not> plenty 2 w)) w"
proof -
  obtain b where b: "h = c_str h @ 0 # b" using is_cstr_split [OF assms(1)] by blast
  define t where "t = c_str h"
  have t: "h = t @ 0 # b" "0 \<notin> set t" using b by (simp_all add: t_def)
  consider (none) "t = [] \<or> hd t = 46" | (whole) "t \<noteq> []" "hd t \<noteq> 46" "46 \<notin> set t" | (dot) "p \<noteq> []" "t = p @ 46 # q" "46 \<notin> set p"
  proof (cases "46 \<in> set t")
    case True
    then have "t = p @ 46 # q" using split_at_first [of 46 t] by (simp add: p_def q_def t_def)
    moreover have "46 \<notin> set p" by (auto simp: p_def dest: set_takeWhileD)
    ultimately show ?thesis using that by (cases "p = []") auto
  qed (use that in auto)
  then have "wp (connectionstringparser_splitHostName_from_char (Some h) (Some name) (Some suffix)) (split_ok w p q name suffix) w"
  proof cases
    case none
    then have "p = []" by (cases t) (auto simp: p_def t_def [symmetric])
    moreover have "h ! 0 = 0 \<or> h ! 0 = 46" "0 < length h" using none t by (cases t; auto)+
    ultimately show ?thesis by (auto simp: connectionstringparser_splitHostName_from_char_def split_ok_def)
  next
    case whole
    then have tw: "dropWhile (\<lambda>c. c \<noteq> 46) t = []" "takeWhile (\<lambda>c. c \<noteq> 46) t = t" by auto
    have q: "q = []" by (simp only: q_def t_def [symmetric] tw list.sel)
    have loop: "wp (host_loop h 0 (length h)) Q w = Q (length t) w" for Q
      using wp_host_loop [OF assms(1), of 0 "length h" Q w] length_c_str_less [OF assms(1)] whole(3)
      unfolding t_def [symmetric] drop_0 tw by simp
    have "h ! length t = 0" "length t < length h" "0 < length h" "h ! 0 \<noteq> 0" "h ! 0 \<noteq> 46"
      using t whole by (cases t; auto)+
    then show ?thesis using q loop by (simp add: connectionstringparser_splitHostName_from_char_def split_ok_def)
  next
    case dot
    have h: "h = p @ 46 # q @ 0 # b" using t(1) unfolding dot(2) by simp
    have z: "0 \<notin> set p" "0 \<notin> set q" using t(2) unfolding dot(2) by simp_all
    have "length p + length q + 2 < SIZE_MOD" using assms(2) unfolding t_def [symmetric] dot(2) by simp
    then show ?thesis by (rule wp_split_dotted [OF h dot(1,3) z _ assms(3,4)])
  qed
  then show ?thesis by (rule wp_mono) (auto simp: split_ok_def)
qed

end
