(* ===== verification/SasToken.thy ===== *)
theory SasToken
  imports Hmac UrlEncode Base64 Crt
begin

text \<open>
  Creating shared access signatures: \<open>c-utility/src/sastoken.c\<close> (checking them is in \<open>SasValidate\<close>). A token is built from the scope, the expiry time and a message authentication code,
  through the base64 coder, the number printer, HMAC, the URL encoder, buffers and strings. The automatic variables of \<open>hmac\<close> are the arguments
  \<open>ctx\<close> and \<open>loc\<close>.
\<close>

section \<open>Creating tokens\<close>

text \<open>A run of calls \<open>STRING_concat (...) != 0 || ...\<close>: the first failure ends it. The result says whether there was one.\<close>

fun concat_all :: "STRING option \<Rightarrow> u8 list option list \<Rightarrow> (bool \<times> STRING option) cm" where
  "concat_all st [] = ret (False, st)"
| "concat_all st (p # ps) = do {
     (r, s1) \<leftarrow> STRING_concat st p;
     if r \<noteq> 0 then ret (True, s1) else concat_all s1 ps
   }"

text \<open>The condition that appends the parts of the token to \<open>result\<close>.\<close>

definition sas_text :: "STRING option \<Rightarrow> u8 list option \<Rightarrow> STRING option \<Rightarrow> u8 list option \<Rightarrow> u8 list option \<Rightarrow> (bool \<times> STRING option) cm" where
  "sas_text result scope urlEncodedSignature tokenExpirationTime keyname = do {
     (r, s1) \<leftarrow> STRING_copy False result (Some (clit ''SharedAccessSignature sr=''));
     if r \<noteq> 0 then ret (True, s1)
     else do {
       (bad, s2) \<leftarrow> concat_all s1 [scope, Some (clit ''&sig='')];
       if bad then ret (True, s2)
       else do {
         (r3, s3) \<leftarrow> STRING_concat_with_STRING s2 urlEncodedSignature;
         if r3 \<noteq> 0 then ret (True, s3)
         else concat_all s3 [Some (clit ''&se=''), tokenExpirationTime, Some (clit ''&skn=''), keyname]
       }
     }
   }"

text \<open>The signature and the text; \<open>hash\<close> and \<open>result\<close> change.\<close>

definition sas_signature ::
  "BUFFER option \<Rightarrow> BUFFER option \<Rightarrow> STRING option \<Rightarrow> STRING option \<Rightarrow> u8 list option \<Rightarrow> u8 list option \<Rightarrow> u8 list option
    \<Rightarrow> HMACContext \<Rightarrow> hmac_locals \<Rightarrow> (BUFFER option \<times> STRING option) cm" where
  "sas_signature decodedKey hash toBeHashed result scope keyname tokenExpirationTime ctx loc = do {
     inLen \<leftarrow> STRING_length toBeHashed;
     (e, hash1) \<leftarrow> HMACSHA256_ComputeHash (BUFFER_u_char decodedKey) (BUFFER_length decodedKey) (STRING_c_str toBeHashed) inLen hash ctx loc;
     (base64Signature, urlEncodedSignature, bad, result1) \<leftarrow>
       (if e \<noteq> HMACSHA256_OK then ret (None, None, True, result)
        else do {
          b64 \<leftarrow> Base64_Encoder hash1;
          if b64 = None then ret (None, None, True, result)
          else do {
            url \<leftarrow> URL_Encode b64;
            if url = None then ret (b64, None, True, result)
            else do {
              (bad, r1) \<leftarrow> sas_text result scope url tokenExpirationTime keyname;
              ret (b64, url, bad, r1)
            }
          }
        });
     result2 \<leftarrow> (if bad then do { STRING_delete result1; ret None } else ret result1);
     STRING_delete base64Signature;
     STRING_delete urlEncodedSignature;
     ret (hash1, result2)
   }"

text \<open>The allocations of the condition before it; \<open>result\<close> is there only when all three are.\<close>

definition sas_objects :: "(BUFFER option \<times> STRING option \<times> STRING option) cm" where
  "sas_objects = do {
     hash \<leftarrow> BUFFER_new;
     if hash = None then ret (None, None, None)
     else do {
       toBeHashed \<leftarrow> STRING_new;
       if toBeHashed = None then ret (hash, None, None)
       else do { result \<leftarrow> STRING_new; ret (hash, toBeHashed, result) }
     }
   }"

definition sas_sign ::
  "BUFFER option \<Rightarrow> u8 list option \<Rightarrow> u8 list option \<Rightarrow> u8 list option \<Rightarrow> HMACContext \<Rightarrow> hmac_locals \<Rightarrow> STRING option cm" where
  "sas_sign decodedKey scope keyname tokenExpirationTime ctx loc = do {
     (hash, toBeHashed, result) \<leftarrow> sas_objects;
     (hash1, toBeHashed1, result1) \<leftarrow>
       (if result = None then ret (hash, toBeHashed, None)
        else do {
          (bad, t) \<leftarrow> concat_all toBeHashed [scope, Some [10, 0], tokenExpirationTime];
          if bad then do { STRING_delete result; ret (hash, t, None) }
          else do {
            (h1, r1) \<leftarrow> sas_signature decodedKey hash t result scope keyname tokenExpirationTime ctx loc;
            ret (h1, t, r1)
          }
        });
     STRING_delete toBeHashed1;
     BUFFER_delete hash1;
     ret result1
   }"

definition construct_sas_token ::
  "u8 list option \<Rightarrow> u8 list option \<Rightarrow> u8 list option \<Rightarrow> u32 \<Rightarrow> HMACContext \<Rightarrow> hmac_locals \<Rightarrow> STRING option cm" where
  "construct_sas_token key scope keyname expiry ctx loc = do {
     decodedKey \<leftarrow> Base64_Decoder key;
     if decodedKey = None then ret None
     else do {
       (r, tokenExpirationTime) \<leftarrow> size_tToString (Some (replicate 32 0)) 32 expiry;
       result \<leftarrow> (if r \<noteq> 0 then ret None else sas_sign decodedKey scope keyname tokenExpirationTime ctx loc);
       BUFFER_delete decodedKey;
       ret result
     }
   }"

definition SASToken_Create ::
  "STRING option \<Rightarrow> STRING option \<Rightarrow> STRING option \<Rightarrow> u32 \<Rightarrow> HMACContext \<Rightarrow> hmac_locals \<Rightarrow> STRING option cm" where
  "SASToken_Create key scope keyName expiry ctx loc =
     (if key = None \<or> scope = None \<or> keyName = None then ret None
      else construct_sas_token (STRING_c_str key) (STRING_c_str scope) (STRING_c_str keyName) expiry ctx loc)"

definition SASToken_CreateString ::
  "u8 list option \<Rightarrow> u8 list option \<Rightarrow> u8 list option \<Rightarrow> u32 \<Rightarrow> HMACContext \<Rightarrow> hmac_locals \<Rightarrow> STRING option cm" where
  "SASToken_CreateString key scope keyName expiry ctx loc =
     (if key = None \<or> scope = None \<or> keyName = None then ret None
      else construct_sas_token key scope keyName expiry ctx loc)"

section \<open>What a token is\<close>

abbreviation chars :: "string \<Rightarrow> u8 list" where
  "chars s \<equiv> map of_char s"

definition decimal :: "nat \<Rightarrow> u8 list" where
  "decimal n = map ((!) digit_chars) (digits 10 n)"

definition sas_code :: "u8 list \<Rightarrow> u8 list \<Rightarrow> nat \<Rightarrow> u8 list" where
  "sas_code k scope expiry = url_text (b64_text base64char (hmac_spec SHA256 k (scope @ 10 # decimal expiry)))"

definition sas_parts :: "u8 list \<Rightarrow> u8 list \<Rightarrow> u8 list \<Rightarrow> u8 list \<Rightarrow> u8 list" where
  "sas_parts scope code time name =
     chars ''SharedAccessSignature sr='' @ scope @ chars ''&sig='' @ code @ chars ''&se='' @ time @ chars ''&skn='' @ name"

definition sas_token :: "u8 list \<Rightarrow> u8 list \<Rightarrow> u8 list \<Rightarrow> nat \<Rightarrow> u8 list" where
  "sas_token k scope name expiry = sas_parts scope (sas_code k scope expiry) (decimal expiry) name"

section \<open>What the functions do\<close>

lemma wp_concat_all:
  assumes "0 \<notin> set t" "list_all is_cstr ps" "length t + length (concat (map c_str ps)) + 1 < SIZE_MOD"
    and "\<And>t' w'. \<not> plenty (length ps) w \<Longrightarrow> live w' = live w \<Longrightarrow> faults w' = faults w \<Longrightarrow> Q (True, Some (mkstr t')) w'"
    and "\<And>w'. used (length ps) w w' \<Longrightarrow> live w' = live w \<Longrightarrow> faults w' = faults w \<Longrightarrow>
           Q (False, Some (mkstr (t @ concat (map c_str ps)))) w'"
  shows "wp (concat_all (Some (mkstr t)) (map Some ps)) Q w"
  using assms
proof (induction ps arbitrary: t w)
  case (Cons p ps)
  show ?case
    unfolding list.map concat_all.simps wp_bind
  proof (rule wp_STRING_concat, goal_cases)
    case (4 w')
    then show ?case using Cons.prems(4) not_plenty_next [of w "length (p # ps)"] by simp
  next
    case (5 w')
    have "wp (concat_all (Some (mkstr (t @ c_str p))) (map Some ps)) Q w'"
    proof (rule Cons.IH, goal_cases)
      case (4 t' w2)
      then show ?case using 5 Cons.prems(4) used_starved [OF used_tl [OF 5(2), of 1] 4(1), of "length (p # ps)"] by simp
    next
      case (5 w2)
      have "used (length (p # ps)) w w2" by (rule used_trans [OF used_tl [OF \<open>avail w' = _\<close>, of 1] 5(1)]) simp_all
      then show ?case using 5 \<open>live w' = _\<close> \<open>faults w' = _\<close> Cons.prems(5) by simp
    qed (use Cons.prems in simp_all)
    then show ?case using Cons.prems(1) by simp
  qed (use Cons.prems in simp_all)
qed simp

lemma wp_concat_all_append:
  "wp (concat_all st (ps @ qs)) Q w =
   wp (concat_all st ps) (\<lambda>(bad, s1). wp (if bad then ret (True, s1) else concat_all s1 qs) Q) w"
proof (induction ps arbitrary: st w)
  case (Cons p ps)
  have "(\<lambda>(r :: int, s1). wp (if r \<noteq> 0 then ret (True, s1) else concat_all s1 (ps @ qs)) Q) =
      (\<lambda>(r, s1). wp (if r \<noteq> 0 then ret (True, s1) else concat_all s1 ps)
         (\<lambda>(bad, s1). wp (if bad then ret (True, s1) else concat_all s1 qs) Q))"
    by (auto simp: fun_eq_iff Cons.IH)
  then show ?case by (simp add: wp_prod_fun)
qed simp

lemma concat_with_STRING: "STRING_concat_with_STRING h (Some st2) = STRING_concat h (Some (str_s st2))"
  unfolding STRING_concat_with_STRING_def STRING_concat_def by (cases h) simp_all

lemma wp_sas_text:
  assumes st: "str_wf st" and args: "is_cstr scope" "is_cstr time" "is_cstr name" "0 \<notin> set url"
    and size: "length (c_str scope) + length (c_str time) + length (c_str name) + length url + 100 < SIZE_MOD"
    and short: "\<And>t' w'. \<not> plenty 8 w \<Longrightarrow> live w' = live w \<Longrightarrow> faults w' = faults w \<Longrightarrow> Q (True, Some t') w'"
    and made: "\<And>w'. used 8 w w' \<Longrightarrow> live w' = live w \<Longrightarrow> faults w' = faults w \<Longrightarrow>
      Q (False, Some (mkstr (sas_parts (c_str scope) url (c_str time) (c_str name)))) w'"
  shows "wp (sas_text (Some st) (Some scope) (Some (mkstr url)) (Some time) (Some name)) Q w"
proof -
  let ?head = "chars ''SharedAccessSignature sr=''"
  let ?ps = "[scope, clit ''&sig=''] @ [url @ [0]] @ [clit ''&se='', time, clit ''&skn='', name]"
  have lit: "is_cstr (clit ''SharedAccessSignature sr='')" "c_str (clit ''SharedAccessSignature sr='') = ?head" "0 \<notin> set ?head"
      "length ?head = 25"
    by (simp_all add: clit_def is_cstr_def c_str_def)
  have seps: "is_cstr (clit ''&sig='')" "c_str (clit ''&sig='') = chars ''&sig=''" "is_cstr (clit ''&se='')"
      "c_str (clit ''&se='') = chars ''&se=''" "is_cstr (clit ''&skn='')" "c_str (clit ''&skn='') = chars ''&skn=''"
    by (simp_all add: clit_def is_cstr_def c_str_def)
  have all: "wp (concat_all (Some (mkstr ?head)) (map Some ?ps)) Q w'"
    if w': "next_alloc w \<noteq> None" "avail w' = tl (avail w)" "live w' = live w" "faults w' = faults w" for w'
  proof (rule wp_concat_all [OF lit(3)], goal_cases)
    case (3 t' w2)
    then show ?case using short [of w2] w' used_starved [OF used_tl [OF w'(2), of 1] 3(1), of 8] by simp
  next
    case (4 w2)
    have "used 8 w w2" using used_trans [OF used_tl [OF w'(2), of 1] 4(1), of 8] by simp
    then show ?case using made [of w2] 4 w' args by (simp add: seps sas_parts_def)
  qed (use args seps size lit(4) in simp_all)
  show ?thesis
    unfolding sas_text_def wp_bind
  proof (rule wp_STRING_copy [OF st lit(1)], goal_cases)
    case (3 w')
    then show ?case
      using all [OF 3, unfolded map_append wp_concat_all_append]
      by (auto simp: lit concat_with_STRING wp_prod_fun elim!: wp_mono split: prod.splits)
  qed (use short lit size in \<open>simp_all add: starved\<close>)
qed

lemma wp_Base64_Encoder_mkbuf:
  "xs \<noteq> [] \<Longrightarrow> wp (Base64_Encoder (Some (mkbuf xs))) Q w = wp (Base64_Encode_Internal xs (length xs)) Q w"
  by (simp add: Base64_Encoder_def BUFFER_content_def BUFFER_size_def mkbuf_def)

lemma wp_encoded:
  assumes xs: "length xs = 32" and short: "\<And>b u w'. \<not> plenty 4 w \<Longrightarrow> live w' = live w + str_blocks b + str_blocks u \<Longrightarrow>
      b = None \<or> u = None \<Longrightarrow> faults w' = faults w \<Longrightarrow> b = None \<longrightarrow> u = None \<Longrightarrow> Q (b, u) w'"
    and made: "\<And>b w'. used 4 w w' \<Longrightarrow> live w' = live w + 4 \<Longrightarrow> faults w' = faults w \<Longrightarrow>
      Q (Some b, Some (mkstr (url_text (b64_text base64char xs)))) w'"
  shows "wp (Base64_Encoder (Some (mkbuf xs))) (\<lambda>b. if b = None then Q (None, None) else wp (URL_Encode b) (\<lambda>u. Q (b, u))) w"
proof -
  have "xs \<noteq> []" using xs by auto
  have "length (b64_text base64char xs) = 44" using xs by (simp add: length_b64_text)
  then have fits: "length (url_text (b64_text base64char xs)) + 1 < SIZE_MOD"
    using length_url_text [of "b64_text base64char xs"] by (simp add: SIZE_MOD_def)
  note val = az64.text_nozero [of xs]
  show ?thesis
    unfolding wp_Base64_Encoder_mkbuf [OF \<open>xs \<noteq> []\<close>]
  proof (rule wp_Base64_Encode_Internal, goal_cases)
    case (3 w')
    then show ?case using short [of w' None None] plenty_le [of 4 w 2] by (auto simp: str_blocks_def)
  next
    case (4 w')
    have "wp (URL_Encode (Some (mkstr (b64_text base64char xs)))) (\<lambda>u. Q (Some (mkstr (b64_text base64char xs)), u)) w'"
    proof (rule wp_URL_Encode, goal_cases)
      case (3 w2)
      then show ?case using short [of w2 "Some _" None] 4 used_starved [OF 4(1) 3(1), of 4] by (simp add: str_blocks_def)
    next
      case (4 w2)
      have "used 4 w w2" by (rule used_trans [OF \<open>used 2 w w'\<close> 4(3)]) simp
      then show ?case using made [of w2] 4 \<open>live w' = _\<close> \<open>faults w' = _\<close> val by simp
    qed (use val fits in simp_all)
    then show ?case using xs by simp
  qed (use xs in \<open>simp_all add: SIZE_MOD_def\<close>)
qed

text \<open>The end of the signature's block: \<open>result\<close> is dropped after a failure, the two encoded strings in any case.\<close>

definition sas_release :: "BUFFER option \<Rightarrow> STRING option \<times> STRING option \<times> bool \<times> STRING option \<Rightarrow> (BUFFER option \<times> STRING option) cm" where
  "sas_release hash p = (case p of (b, u, bad, r1) \<Rightarrow> do {
     r2 \<leftarrow> (if bad then do { STRING_delete r1; ret None } else ret r1);
     STRING_delete b; STRING_delete u; ret (hash, r2) })"

lemma wp_sas_made:
  assumes st: "str_wf st" and args: "is_cstr scope" "is_cstr time" "is_cstr name" and url: "0 \<notin> set url" "length url \<le> 264"
    and size: "length (c_str scope) + length (c_str time) + length (c_str name) + 400 < SIZE_MOD"
    and short: "\<And>w'. \<not> plenty 8 w \<Longrightarrow> live w' = live w - 6 \<Longrightarrow> faults w' = faults w \<Longrightarrow> Q (hash, None) w'"
    and made: "\<And>w'. used 8 w w' \<Longrightarrow> live w' = live w - 4 \<Longrightarrow> faults w' = faults w \<Longrightarrow>
      Q (hash, Some (mkstr (sas_parts (c_str scope) url (c_str time) (c_str name)))) w'"
  shows "wp (do { (bad, r1) \<leftarrow> sas_text (Some st) (Some scope) (Some (mkstr url)) (Some time) (Some name);
      sas_release hash (Some b, Some (mkstr url), bad, r1) }) Q w"
  unfolding wp_bind by (rule wp_sas_text [OF st args url(1)])
    (use size url in \<open>auto simp: sas_release_def str_blocks_def intro!: short made\<close>)

lemma wp_sas_encoded:
  assumes D: "length D = 32" and st: "str_wf st" and args: "is_cstr scope" "is_cstr time" "is_cstr name"
    and size: "length (c_str scope) + length (c_str time) + length (c_str name) + 400 < SIZE_MOD"
    and short: "\<And>w'. \<not> plenty 12 w \<Longrightarrow> live w' = live w - 2 \<Longrightarrow> faults w' = faults w \<Longrightarrow> Q (hash, None) w'"
    and made: "\<And>w'. used 12 w w' \<Longrightarrow> live w' = live w \<Longrightarrow> faults w' = faults w \<Longrightarrow>
      Q (hash, Some (mkstr (sas_parts (c_str scope) (url_text (b64_text base64char D)) (c_str time) (c_str name)))) w'"
  shows "wp (Base64_Encoder (Some (mkbuf D))) (\<lambda>b. if b = None then wp (sas_release hash (None, None, True, Some st)) Q
      else wp (URL_Encode b) (\<lambda>u. wp (if u = None then sas_release hash (b, None, True, Some st)
        else do { (bad, r1) \<leftarrow> sas_text (Some st) (Some scope) u (Some time) (Some name); sas_release hash (b, u, bad, r1) }) Q)) w"
proof -
  have url: "0 \<notin> set (url_text (b64_text base64char D))" "length (url_text (b64_text base64char D)) \<le> 264"
    using url_text_nozero [OF az64.text_nozero [of D]] length_url_text [of "b64_text base64char D"] D by (simp_all add: length_b64_text)
  let ?Q = "\<lambda>(b, u). wp (if b = None \<or> u = None then sas_release hash (b, u, True, Some st)
      else do { (bad, r1) \<leftarrow> sas_text (Some st) (Some scope) u (Some time) (Some name); sas_release hash (b, u, bad, r1) }) Q"
  have "wp (Base64_Encoder (Some (mkbuf D))) (\<lambda>b. if b = None then ?Q (None, None) else wp (URL_Encode b) (\<lambda>u. ?Q (b, u))) w"
  proof (rule wp_encoded [OF D], goal_cases)
    case (1 b u w')
    then show ?case using plenty_le [of 12 w 4] by (auto simp: sas_release_def str_blocks_def intro!: short)
  next
    case (2 b w')
    have "wp (do { (bad, r1) \<leftarrow> sas_text (Some st) (Some scope) (Some (mkstr (url_text (b64_text base64char D)))) (Some time) (Some name);
        sas_release hash (Some b, Some (mkstr (url_text (b64_text base64char D))), bad, r1) }) Q w'"
      by (rule wp_sas_made [OF st args url size])
        (use 2 used_starved [OF 2(1), of 8 12] used_trans [OF 2(1), of 8 _ 12] in \<open>auto intro!: short made\<close>)
    then show ?case by simp
  qed
  then show ?thesis by (auto elim!: wp_mono split: if_splits)
qed

lemma wp_HMACSHA256_empty:
  assumes "hmac_arrays ctx" "locals_arrays loc"
    and "0 < kn" "kn < 2147483648" "kn \<le> length k" "0 < pn" "pn < 2147483648" "pn \<le> length p"
    and "\<And>w'. next_alloc w = None \<Longrightarrow> live w' = live w \<Longrightarrow> faults w' = faults w \<Longrightarrow>
      Q (HMACSHA256_ERROR, Some \<lparr>buffer = None, bsize = 0\<rparr>) w'"
    and "\<And>w'. avail w' = tl (avail w) \<Longrightarrow> live w' = live w + 1 \<Longrightarrow> faults w' = faults w \<Longrightarrow>
      Q (HMACSHA256_OK, Some (mkbuf (hmac_spec SHA256 (take kn k) (take pn p)))) w'"
  shows "wp (HMACSHA256_ComputeHash (Some k) kn (Some p) pn (Some \<lparr>buffer = None, bsize = 0\<rparr>) ctx loc) Q w"
  by (rule wp_mono [OF wp_HMACSHA256_ComputeHash [OF assms(1,2), of "\<lparr>buffer = None, bsize = 0\<rparr>" kn k pn p]])
    (use assms in \<open>auto simp: buf_wf_def SIZE_MOD_def split: if_splits\<close>)

lemma wp_sas_signature:
  assumes arrays: "hmac_arrays ctx" "locals_arrays loc" and key: "buf_wf kb" "bsize kb < 2147483648"
    and msg: "0 \<notin> set msg" "msg \<noteq> []" "length msg < 2147483648"
    and st: "str_wf st" and args: "is_cstr scope" "is_cstr time" "is_cstr name"
    and size: "length (c_str scope) + length (c_str time) + length (c_str name) + 400 < SIZE_MOD"
    and short: "\<And>h w'. bsize kb = 0 \<or> \<not> plenty 13 w \<Longrightarrow> live w' = live w - 3 + buf_blocks h \<Longrightarrow> faults w' = faults w \<Longrightarrow>
      Q (h, None) w'"
    and made: "\<And>h w'. bsize kb \<noteq> 0 \<Longrightarrow> used 13 w w' \<Longrightarrow> live w' = live w - 1 + buf_blocks h \<Longrightarrow> faults w' = faults w \<Longrightarrow>
      Q (h, Some (mkstr (sas_parts (c_str scope) (url_text (b64_text base64char (hmac_spec SHA256 (buf_bytes kb) msg)))
         (c_str time) (c_str name)))) w'"
  shows "wp (sas_signature (Some kb) (Some \<lparr>buffer = None, bsize = 0\<rparr>) (Some (mkstr msg)) (Some st) (Some scope) (Some name) (Some time)
    ctx loc) Q w"
proof (cases "bsize kb = 0")
  case True
  then show ?thesis using msg short [of "w\<lparr>live := live w - 2\<rparr>" "Some \<lparr>buffer = None, bsize = 0\<rparr>"]
    by (simp add: sas_signature_def STRING_length_def HMACSHA256_ComputeHash_def BUFFER_u_char_def str_blocks_def buf_blocks_def)
next
  case False
  obtain bs where bs: "buffer kb = Some bs" "bsize kb \<le> length bs" "take (bsize kb) bs = buf_bytes kb"
    using key False by (cases "buffer kb") (auto simp: buf_wf_def buf_bytes_def)
  have "length (hmac_spec SHA256 (buf_bytes kb) msg) = 32" by (simp add: hmac_spec_def USHAHashSize_def sha_sizes)
  note enc = wp_sas_encoded [OF this st args size]
  have vals: "BUFFER_u_char (Some kb) = Some bs" "BUFFER_length (Some kb) = bsize kb" "STRING_c_str (Some (mkstr msg)) = Some (msg @ [0])"
      "wp (STRING_length (Some (mkstr msg))) R w = R (length msg) w" for R
    using bs False msg by (simp_all add: BUFFER_u_char_def BUFFER_length_def STRING_c_str_def STRING_length_def)
  show ?thesis
    unfolding sas_signature_def vals wp_bind
  proof (rule wp_HMACSHA256_empty [OF arrays], goal_cases)
    case (7 w')
    then show ?case using not_plenty_next [of w 13] by (auto simp: str_blocks_def intro!: short)
  next
    case (8 w')
    have u: "used 1 w w'" using used_tl [OF 8(1), of 1] by simp
    have "wp (Base64_Encoder (Some (mkbuf (hmac_spec SHA256 (buf_bytes kb) msg)))) (\<lambda>b. if b = None
        then wp (sas_release (Some (mkbuf (hmac_spec SHA256 (buf_bytes kb) msg))) (None, None, True, Some st)) Q
        else wp (URL_Encode b) (\<lambda>u. wp (if u = None then sas_release (Some (mkbuf (hmac_spec SHA256 (buf_bytes kb) msg))) (b, None, True, Some st)
          else do { (bad, r1) \<leftarrow> sas_text (Some st) (Some scope) u (Some time) (Some name);
            sas_release (Some (mkbuf (hmac_spec SHA256 (buf_bytes kb) msg))) (b, u, bad, r1) }) Q)) w'"
      by (rule enc) (use 8 False used_starved [OF u, of 12 13] used_trans [OF u, of 12 _ 13] in \<open>auto intro!: short made\<close>)
    then show ?case using bs(3) by (auto simp: sas_release_def elim!: wp_mono split: if_splits)
  qed (use key msg bs False in simp_all)
qed

lemma wp_sas_objects:
  assumes short: "\<And>h t w'. \<not> plenty 5 w \<Longrightarrow> live w' = live w + buf_blocks h + str_blocks t \<Longrightarrow> faults w' = faults w \<Longrightarrow>
      Q (h, t, None) w'"
    and made: "\<And>w'. used 5 w w' \<Longrightarrow> live w' = live w + 5 \<Longrightarrow> faults w' = faults w \<Longrightarrow>
      Q (Some \<lparr>buffer = None, bsize = 0\<rparr>, Some (mkstr []), Some (mkstr [])) w'"
  shows "wp sas_objects Q w"
  unfolding sas_objects_def wp_bind
proof (rule wp_BUFFER_new, goal_cases)
  case (1 w1)
  then show ?case using short [of w1 None None] not_plenty_next [of w 5] by (simp add: str_blocks_def)
next
  case (2 w1)
  have u1: "used 1 w w1" using used_tl [OF 2(2), of 1] by simp
  have last: "wp STRING_new (\<lambda>result. wp (ret (Some \<lparr>buffer = None, bsize = 0\<rparr>, Some (mkstr []), result)) Q) w2"
    if "used 3 w w2" "live w2 = live w + 3" "faults w2 = faults w" for w2
  proof (rule wp_STRING_new, goal_cases)
    case (1 w3)
    then show ?case using that used_starved [OF that(1) 1(1), of 5] by (auto simp: str_blocks_def intro!: short)
  next
    case (2 w3)
    have "used 5 w w3" using used_trans [OF that(1) used_drop [OF 2(1), of 2], of 5] by simp
    then show ?case using made [of w3] 2 that by simp
  qed
  have "wp STRING_new (\<lambda>t. wp (if t = None then ret (Some \<lparr>buffer = None, bsize = 0\<rparr>, None, None)
      else do { result \<leftarrow> STRING_new; ret (Some \<lparr>buffer = None, bsize = 0\<rparr>, t, result) }) Q) w1"
  proof (rule wp_STRING_new, goal_cases)
    case (1 w2)
    then show ?case using 2 used_starved [OF u1 1(1), of 5] by (auto simp: str_blocks_def intro!: short)
  next
    case (2 w2)
    have "used 3 w w2" using used_trans [OF u1 used_drop [OF 2(1), of 2], of 3] by simp
    then show ?case using last [of w2] 2 \<open>live w1 = _\<close> \<open>faults w1 = _\<close> by simp
  qed
  then show ?case by simp
qed

lemma wp_sas_sign:
  assumes arrays: "hmac_arrays ctx" "locals_arrays loc" and key: "buf_wf kb" "bsize kb < 2147483648"
    and args: "is_cstr scope" "is_cstr time" "is_cstr name"
    and size: "length (c_str scope) + length (c_str time) + length (c_str name) + 400 < 2147483648"
    and short: "\<And>w'. bsize kb = 0 \<or> \<not> plenty 21 w \<Longrightarrow> live w' = live w \<Longrightarrow> faults w' = faults w \<Longrightarrow> Q None w'"
    and made: "\<And>w'. bsize kb \<noteq> 0 \<Longrightarrow> used 21 w w' \<Longrightarrow> live w' = live w + 2 \<Longrightarrow> faults w' = faults w \<Longrightarrow>
      Q (Some (mkstr (sas_parts (c_str scope) (url_text (b64_text base64char
         (hmac_spec SHA256 (buf_bytes kb) (c_str scope @ 10 # c_str time)))) (c_str time) (c_str name)))) w'"
  shows "wp (sas_sign (Some kb) (Some scope) (Some name) (Some time) ctx loc) Q w"
proof -
  let ?msg = "c_str scope @ 10 # c_str time" and ?e = "\<lparr>buffer = None, bsize = 0\<rparr>"
  have parts: "list_all is_cstr [scope, [10, 0], time]" "concat (map c_str [scope, [10, 0], time]) = ?msg"
    using args by (simp_all add: is_cstr_def c_str_def [of "_ # _"])
  have nl: "c_str [10, 0] = [10]" by (simp add: c_str_def)
  have build: "wp (do {
      (bad, t) \<leftarrow> concat_all (Some (mkstr [])) (map Some [scope, [10, 0], time]);
      (hash1, t1, r1) \<leftarrow> (if bad then do { STRING_delete (Some (mkstr [])); ret (Some ?e, t, None) }
        else do { (h1, r1) \<leftarrow> sas_signature (Some kb) (Some ?e) t (Some (mkstr [])) (Some scope) (Some name) (Some time) ctx loc;
          ret (h1, t, r1) });
      STRING_delete t1; BUFFER_delete hash1; ret r1 }) Q w1"
    if w1: "used 5 w w1" "live w1 = live w + 5" "faults w1 = faults w" for w1
    unfolding wp_bind
  proof (rule wp_concat_all [OF _ parts(1)], goal_cases)
    case (3 t' w2)
    then show ?case using w1 used_starved [OF w1(1) 3(1), of 21] by (auto simp: str_blocks_def intro!: short)
  next
    case (4 w2)
    have u2: "used 8 w w2" using used_trans [OF w1(1) 4(1), of 8] by simp
    have "wp (sas_signature (Some kb) (Some ?e) (Some (mkstr ?msg)) (Some (mkstr [])) (Some scope) (Some name) (Some time) ctx loc)
        (\<lambda>(h1, r1). wp (do { STRING_delete (Some (mkstr ?msg)); BUFFER_delete h1; ret r1 }) Q) w2"
    proof (rule wp_sas_signature [OF arrays key _ _ _ _ args], goal_cases)
      case (6 h w3)
      then show ?case using 4 w1 used_starved [OF u2, of 13 21] by (auto simp: str_blocks_def intro!: short)
    next
      case (7 h w3)
      have "used 21 w w3" using used_trans [OF u2 7(2), of 21] by simp
      then show ?case using 7 4 w1 by (auto simp: str_blocks_def intro!: made)
    qed (use size in \<open>simp_all add: SIZE_MOD_def\<close>)
    then show ?case unfolding parts(2) by (auto elim!: wp_mono)
  qed (use size in \<open>simp_all add: nl SIZE_MOD_def\<close>)
  show ?thesis
    unfolding sas_sign_def wp_bind
  proof (rule wp_sas_objects, goal_cases)
    case (1 h t w')
    then show ?case using plenty_le [of 21 w 5] by (auto simp: str_blocks_def intro!: short)
  next
    case (2 w')
    then show ?case using build [of w'] by (auto simp del: concat_all.simps elim!: wp_mono)
  qed
qed

lemma wp_expiry:
  "wp (size_tToString (Some (replicate 32 0)) 32 expiry)
    (\<lambda>(r, p) w'. w' = w \<and> r = 0 \<and> (\<exists>d. p = Some d \<and> is_cstr d \<and> c_str d = decimal (unat expiry))) w"
proof -
  have len: "length (digits 10 (unat expiry)) \<le> 10"
    using unat_u32 [of expiry] by (intro length_digits_le) auto
  have same: "size_tToString = unsignedIntToString" by (intro ext) (simp add: size_tToString_def unsignedIntToString_def)
  show ?thesis
    unfolding same by (rule wp_mono [OF unsignedIntToString_correct]) (use len in \<open>auto simp: decimal_def\<close>)
qed

lemma length_decimal: "length (decimal (unat (v :: u32))) \<le> 10"
  using unat_u32 [of v] by (simp add: decimal_def length_digits_le)

lemma wp_SASToken_CreateString:
  assumes "is_cstr key" "c_str key = b64_text base64char k" "length k < 1000000000" "is_cstr scope" "is_cstr name"
    "length (c_str scope) + length (c_str name) + 1000 < 2147483648" "hmac_arrays ctx" "locals_arrays loc"
  shows "wp (SASToken_CreateString (Some key) (Some scope) (Some name) expiry ctx loc)
    (\<lambda>h w'. faults w' = faults w \<and> live w' = live w + str_blocks h \<and>
       (case h of None \<Rightarrow> k = [] \<or> \<not> plenty 23 w
        | Some st \<Rightarrow> k \<noteq> [] \<and> used 23 w w' \<and> st = mkstr (sas_token k (c_str scope) (c_str name) (unat expiry)))) w"
proof -
  let ?Q = "\<lambda>h w'. faults w' = faults w \<and> live w' = live w + str_blocks h \<and>
       (case h of None \<Rightarrow> k = [] \<or> \<not> plenty 23 w
        | Some st \<Rightarrow> k \<noteq> [] \<and> used 23 w w' \<and> st = mkstr (sas_token k (c_str scope) (c_str name) (unat expiry)))"
  have sign: "wp (sas_sign (Some kb) (Some scope) (Some name) (Some time) ctx loc)
      (\<lambda>h. wp (do { BUFFER_delete (Some kb); ret h }) ?Q) w1"
    if kb: "buf_wf kb" "buf_bytes kb = k" and time: "is_cstr time" "c_str time = decimal (unat expiry)"
      and w1: "used 2 w w1" "live w1 = live w + buf_blocks (Some kb)" "faults w1 = faults w" for kb time w1
  proof -
    have n: "bsize kb = length k" using kb length_buf_bytes by metis
    show ?thesis
    proof (rule wp_sas_sign [OF assms(7,8) kb(1) _ assms(4) time(1) assms(5)], goal_cases)
      case (3 w2)
      then show ?case using w1 used_starved [OF w1(1), of 21 23] by (auto simp: str_blocks_def n)
    next
      case (4 w2)
      then show ?case using w1 used_trans [OF w1(1) 4(2), of 23] by (simp add: str_blocks_def n kb time sas_token_def sas_code_def)
    qed (use assms(3,6) n length_decimal [of expiry] in \<open>simp_all add: time\<close>)
  qed
  have "wp (Base64_Decoder (Some key)) (\<lambda>d. wp (if d = None then ret None else do {
      (r, time) \<leftarrow> size_tToString (Some (replicate 32 0)) 32 expiry;
      result \<leftarrow> (if r \<noteq> 0 then ret None else sas_sign d (Some scope) (Some name) time ctx loc);
      BUFFER_delete d; ret result }) ?Q) w"
  proof (rule wp_Base64_Decoder_text [OF assms(2,1)], goal_cases)
    case 1
    then show ?case using assms(3) by (simp add: SIZE_MOD_def)
  next
    case (2 w1)
    then show ?case using plenty_le [of 23 w 2] by (auto simp: str_blocks_def)
  next
    case (3 kb w1)
    then show ?case
      by simp (rule wp_mono [OF wp_expiry], use sign [of kb _ w1] in auto)
  qed
  then show ?thesis by (simp add: SASToken_CreateString_def construct_sas_token_def)
qed

text \<open>C18. Creating a token: for a key in base64, a scope and a key name, the string is the token of the shared access signatures - the scope,
  the URL-encoded base64 text of the HMAC-SHA256 of scope, newline and expiry under the decoded key, the expiry in decimal, and the key name.
  The result is \<open>NULL\<close> only for an empty key or when memory is short; every block requested on the way is released, and no access
  leaves a block.\<close>

theorem sas_token_created:
  assumes "is_cstr key" "c_str key = b64_text base64char k" "length k < 1000000000" "is_cstr scope" "is_cstr name"
    "length (c_str scope) + length (c_str name) + 1000 < 2147483648" "hmac_arrays ctx" "locals_arrays loc"
  shows "wp (SASToken_CreateString (Some key) (Some scope) (Some name) expiry ctx loc)
    (\<lambda>h w'. faults w' = faults w \<and> live w' = live w + str_blocks h \<and>
       (case h of None \<Rightarrow> k = [] \<or> \<not> plenty 23 w
        | Some st \<Rightarrow> k \<noteq> [] \<and> st = mkstr (sas_token k (c_str scope) (c_str name) (unat expiry)))) w"
  by (rule wp_mono [OF wp_SASToken_CreateString [OF assms]]) (auto split: option.splits)

theorem sas_token_created_witness:
  "wp (SASToken_CreateString (Some (clit ''a2V5'')) (Some (clit ''hub'')) (Some (clit ''dev'')) 42 blank_hmac blank_locals)
     (\<lambda>h w'. h = Some (mkstr (chars ''SharedAccessSignature sr=hub&sig='' @ sas_code (chars ''key'') (chars ''hub'') 42 @
         chars ''&se=42&skn=dev'')) \<and> faults w' = 0 \<and> live w' = 2)
     \<lparr>avail = replicate 23 (Some (\<lambda>_. 0)), live = 0, faults = 0\<rparr>"
proof (rule wp_mono [OF sas_token_created [where k = "chars ''key''"]], goal_cases)
  case 2
  have "b64_text base64char [107, 101, 121] = [97, 50, 86, 53]" by code_simp
  then show ?case by (simp add: clit_def c_str_def)
next
  case (9 h w')
  have "decimal 42 = chars ''42''" by (simp add: decimal_def digits.simps digit_chars_def)
  with 9 show ?case by (auto simp: sas_token_def sas_parts_def clit_def c_str_def plenty_def str_blocks_def split: option.splits)
qed (simp_all add: clit_def is_cstr_def c_str_def)

end
