(* ===== verification/SasValidate.thy ===== *)
theory SasValidate
  imports SasToken "HOL-Library.Log_Nat"
begin

text \<open>
  Checking shared access signatures: \<open>SASToken_Validate\<close> of \<open>c-utility/src/sastoken.c\<close>. The scan for the fields \<open>sr=\<close>, \<open>se=\<close> and \<open>sig=\<close> is
  shown equal to a function on lists, from which follow what becomes of the tokens \<open>SASToken_Create\<close> makes and of tokens with their fields in
  another order. The time of day is an argument.
\<close>

section \<open>The code\<close>

text \<open>The \<open>double\<close> nearest to a whole number, ties to even; \<open>None\<close> is the infinity. No other doubles occur.\<close>

definition to_double :: "nat \<Rightarrow> nat option" where
  "to_double n =
     (if n < 2 ^ 53 then Some n
      else (let e = floorlog 2 n - 53; q = n div 2 ^ e; r = n mod 2 ^ e;
                m = (if 2 * r > 2 ^ e \<or> 2 * r = 2 ^ e \<and> odd q then q + 1 else q) * 2 ^ e
            in if m < 2 ^ 1024 then Some m else None))"

fun expiry_loop :: "u8 list \<Rightarrow> nat \<Rightarrow> nat \<Rightarrow> nat option \<Rightarrow> nat option cm" where
  "expiry_loop expiryASCII i 0 val = do { c_assert False; ret val }"
| "expiry_loop expiryASCII i (Suc n) val = do {
     c \<leftarrow> c_load expiryASCII i;
     if c = 0 then ret val
     else if 48 \<le> c \<and> c \<le> 57
     then expiry_loop expiryASCII (Suc i) n
            (Option.bind (Option.bind val (\<lambda>v. to_double (v * 10))) (\<lambda>v. to_double (v + (unat c - 48))))
     else ret (Some 0)
   }"

definition getExpiryValue :: "u8 list \<Rightarrow> nat option cm" where
  "getExpiryValue expiryASCII = expiry_loop expiryASCII 0 (length expiryASCII) (Some 0)"

text \<open>The local variables of the scan; -1 stands for a place not found.\<close>

record sas_scan =
  seStart :: int
  seStop :: int
  srStart :: int
  srStop :: int
  sigStart :: int
  sigStop :: int

text \<open>\<open>a[i] == c1 \<and> a[i + 1] == c2 \<and> \<dots>\<close>, which stops at the first difference.\<close>

fun matches_at :: "u8 list \<Rightarrow> nat \<Rightarrow> u8 list \<Rightarrow> bool cm" where
  "matches_at a i [] = ret True"
| "matches_at a i (c # cs) = do {
     x \<leftarrow> c_load a i;
     if x \<noteq> c then ret False else matches_at a (Suc i) cs
   }"

text \<open>A field that starts at \<open>i + k\<close> ends the first of the two others that is open, if a space or \<open>&\<close> stands before it; else it is not taken
  for a field. The three branches of the scan differ in the roles of the variables only.\<close>

definition field_start :: "u8 list \<Rightarrow> nat \<Rightarrow> int \<Rightarrow> int \<Rightarrow> int \<Rightarrow> int \<Rightarrow> int \<Rightarrow> (int \<times> int \<times> int) cm" where
  "field_start a i k xStart xStop yStart yStop =
     (if xStart > 0 \<and> xStop < 0 then do {
        c_assert (0 < i);
        p \<leftarrow> c_load a (i - 1);
        ret (if p \<noteq> 38 \<and> p = 32 then (int i + k, int i - 1, yStop)
             else if p = 38 then (int i + k, int i - 2, yStop)
             else (-1, xStop, yStop))
      }
      else if yStart > 0 \<and> yStop < 0 then do {
        c_assert (0 < i);
        p \<leftarrow> c_load a (i - 1);
        ret (if p \<noteq> 38 \<and> p = 32 then (int i + k, xStop, int i - 1)
             else if p = 38 then (int i + k, xStop, int i - 2)
             else (-1, xStop, yStop))
      }
      else ret (int i + k, xStop, yStop))"

definition scan_step :: "u8 list \<Rightarrow> nat \<Rightarrow> sas_scan \<Rightarrow> sas_scan cm" where
  "scan_step a i st = do {
     se \<leftarrow> matches_at a i [115, 101, 61];
     if se then do {
       (s, x, y) \<leftarrow> field_start a i 3 (srStart st) (srStop st) (sigStart st) (sigStop st);
       ret (st\<lparr>seStart := s, srStop := x, sigStop := y\<rparr>)
     }
     else do {
       sr \<leftarrow> matches_at a i [115, 114, 61];
       if sr then do {
         (s, x, y) \<leftarrow> field_start a i 3 (seStart st) (seStop st) (sigStart st) (sigStop st);
         ret (st\<lparr>srStart := s, seStop := x, sigStop := y\<rparr>)
       }
       else do {
         sig \<leftarrow> matches_at a i [115, 105, 103, 61];
         if sig then do {
           (s, x, y) \<leftarrow> field_start a i 4 (srStart st) (srStop st) (seStart st) (seStop st);
           ret (st\<lparr>sigStart := s, srStop := x, seStop := y\<rparr>)
         }
         else ret st
       }
     }
   }"

fun scan_loop :: "u8 list \<Rightarrow> nat \<Rightarrow> nat \<Rightarrow> sas_scan \<Rightarrow> sas_scan cm" where
  "scan_loop a i 0 st = ret st"
| "scan_loop a i (Suc n) st = do {
     st1 \<leftarrow> scan_step a i st;
     scan_loop a (Suc i) n st1
   }"

fun copy_loop :: "u8 list \<Rightarrow> nat \<Rightarrow> nat \<Rightarrow> nat \<Rightarrow> u8 list \<Rightarrow> u8 list cm" where
  "copy_loop a i 0 start expiryASCII = ret expiryASCII"
| "copy_loop a i (Suc n) start expiryASCII = do {
     c \<leftarrow> c_load a i;
     if c = 38 then ret expiryASCII
     else do {
       e \<leftarrow> c_store expiryASCII (i - start) c;
       copy_loop a (Suc i) n start e
     }
   }"

text \<open>The part after the scan, for the time \<open>now\<close>, in seconds since the epoch.\<close>

definition check_expiry :: "u8 list \<Rightarrow> nat \<Rightarrow> nat \<Rightarrow> int \<Rightarrow> bool cm" where
  "check_expiry a start stop now = do {
     m \<leftarrow> c_malloc (stop - start + 1);
     (case m of
        None \<Rightarrow> ret False
      | Some _ \<Rightarrow> do {
          expiryASCII \<leftarrow> copy_loop a start (stop - start) start (replicate (stop - start + 1) 0);
          expiry \<leftarrow> getExpiryValue expiryASCII;
          let result = (case expiry of None \<Rightarrow> True | Some v \<Rightarrow> 0 < v \<and> \<not> int v < now);
          c_free (Some expiryASCII);
          ret result
        })
   }"

definition SASToken_Validate :: "STRING option \<Rightarrow> int \<Rightarrow> bool cm" where
  "SASToken_Validate sasToken now =
     (case sasToken of
        None \<Rightarrow> ret False
      | Some st \<Rightarrow> do {
          len \<leftarrow> STRING_length sasToken;
          let a = str_s st;
          let tokenLength = to_int len;
          sc \<leftarrow> scan_loop a 0 (nat tokenLength) \<lparr>seStart = -1, seStop = -1, srStart = -1, srStop = -1, sigStart = -1, sigStop = -1\<rparr>;
          if seStart sc < 0 \<or> srStart sc < 0 \<or> sigStart sc < 0 then ret False
          else do {
            let sc1 = (if seStop sc < 0 then sc\<lparr>seStop := tokenLength\<rparr>
                       else if srStop sc < 0 then sc\<lparr>srStop := tokenLength\<rparr>
                       else if sigStop sc < 0 then sc\<lparr>sigStop := tokenLength\<rparr> else sc);
            if seStop sc1 \<le> seStart sc1 \<or> srStop sc1 \<le> srStart sc1 \<or> sigStop sc1 \<le> sigStart sc1 then ret False
            else check_expiry a (nat (seStart sc1)) (nat (seStop sc1)) now
          }
        })"

section \<open>The scan on lists\<close>

definition field_of :: "u8 \<Rightarrow> int \<Rightarrow> int \<Rightarrow> int \<Rightarrow> int \<Rightarrow> int \<Rightarrow> int \<Rightarrow> int \<times> int \<times> int" where
  "field_of p i k xStart xStop yStart yStop =
     (let e = (if p = 32 then i - 1 else i - 2) in
      if xStart > 0 \<and> xStop < 0 then if p = 32 \<or> p = 38 then (i + k, e, yStop) else (-1, xStop, yStop)
      else if yStart > 0 \<and> yStop < 0 then if p = 32 \<or> p = 38 then (i + k, xStop, e) else (-1, xStop, yStop)
      else (i + k, xStop, yStop))"

definition step_of :: "nat \<Rightarrow> u8 \<Rightarrow> u8 list \<Rightarrow> sas_scan \<Rightarrow> sas_scan" where
  "step_of i p t st =
     (if take 3 t = [115, 101, 61] then
        (case field_of p (int i) 3 (srStart st) (srStop st) (sigStart st) (sigStop st) of
           (s, x, y) \<Rightarrow> st\<lparr>seStart := s, srStop := x, sigStop := y\<rparr>)
      else if take 3 t = [115, 114, 61] then
        (case field_of p (int i) 3 (seStart st) (seStop st) (sigStart st) (sigStop st) of
           (s, x, y) \<Rightarrow> st\<lparr>srStart := s, seStop := x, sigStop := y\<rparr>)
      else if take 4 t = [115, 105, 103, 61] then
        (case field_of p (int i) 4 (srStart st) (srStop st) (seStart st) (seStop st) of
           (s, x, y) \<Rightarrow> st\<lparr>sigStart := s, srStop := x, seStop := y\<rparr>)
      else st)"

fun scan :: "nat \<Rightarrow> u8 \<Rightarrow> u8 list \<Rightarrow> sas_scan \<Rightarrow> sas_scan" where
  "scan i p [] st = st"
| "scan i p (c # t) st = scan (Suc i) c t (step_of i p (c # t) st)"

lemma wp_matches_at:
  "0 \<notin> set u \<Longrightarrow> 0 \<notin> set cs \<Longrightarrow> wp (matches_at (pre @ u @ 0 # b) (length pre) cs) Q w = Q (take (length cs) u = cs) w"
proof (induction cs arbitrary: pre u)
  case (Cons c cs)
  show ?case
  proof (cases u)
    case (Cons x v)
    then show ?thesis using Cons.IH [of v "pre @ [x]"] Cons.prems by auto
  qed (use Cons.prems in simp)
qed simp

declare matches_at.simps [simp del]

lemma wp_field_start:
  assumes "pre = [] \<longrightarrow> xStart \<le> 0 \<and> yStart \<le> 0"
  shows "wp (field_start (pre @ u) (length pre) k xStart xStop yStart yStop) Q w =
    Q (field_of (last (0 # pre)) (int (length pre)) k xStart xStop yStart yStop) w"
proof (cases "pre = []")
  case False
  then have "(pre @ u) ! (length pre - Suc 0) = last pre" "length pre - Suc 0 < length (pre @ u)"
    by (auto simp: last_conv_nth nth_append simp flip: length_greater_0_conv)
  then have "wp (c_load (pre @ u) (length pre - Suc 0)) R w = R (last pre) w" for R by simp
  then show ?thesis using False by (auto simp: field_start_def field_of_def Let_def)
qed (use assms in \<open>simp add: field_start_def field_of_def\<close>)

definition not_started :: "sas_scan \<Rightarrow> bool" where
  "not_started st \<longleftrightarrow> seStart st \<le> 0 \<and> srStart st \<le> 0 \<and> sigStart st \<le> 0"

lemma wp_scan_step:
  assumes "0 \<notin> set u" "pre = [] \<longrightarrow> not_started st"
  shows "wp (scan_step (pre @ u @ 0 # b) (length pre) st) Q w = Q (step_of (length pre) (last (0 # pre)) u st) w"
proof -
  let ?a = "pre @ u @ 0 # b"
  have three: "take 3 u = take (length [115, x, 61]) u" "take 4 u = take (length [115, 105, 103, 61 :: u8]) u" for x :: u8
    by (simp_all add: numeral_eq_Suc)
  have m: "wp (matches_at ?a (length pre) [115, 101, 61]) R w' = R (take 3 u = [115, 101, 61]) w'"
      "wp (matches_at ?a (length pre) [115, 114, 61]) R w' = R (take 3 u = [115, 114, 61]) w'"
      "wp (matches_at ?a (length pre) [115, 105, 103, 61]) R w' = R (take 4 u = [115, 105, 103, 61]) w'" for R w'
    unfolding three(1) [of 101] three(2) using three(1) [of 114] wp_matches_at [OF assms(1), of _ pre b R w'] by simp_all
  show ?thesis
    using assms(2) by (simp add: scan_step_def step_of_def m wp_field_start not_started_def wp_prod_fun case_prod_beta)
qed

lemma wp_scan_loop:
  "0 \<notin> set u \<Longrightarrow> pre = [] \<longrightarrow> not_started st \<Longrightarrow>
   wp (scan_loop (pre @ u @ 0 # b) (length pre) (length u) st) Q w = Q (scan (length pre) (last (0 # pre)) u st) w"
proof (induction u arbitrary: pre st)
  case (Cons c u)
  then show ?case using Cons.IH [of "pre @ [c]"] wp_scan_step [of "c # u" pre st b] by simp
qed simp

text \<open>No field begins in a stretch without \<open>=\<close> in front of \<open>&\<close> or the end.\<close>

lemma step_of_unmarked:
  assumes "61 \<notin> set (c # u)" "t = [] \<or> hd t = 38"
  shows "step_of i p (c # u @ t) st = st"
proof -
  have three: "take 3 (c # u @ t) \<noteq> [115, x, 61]" if "x \<noteq> 38" for x
    using assms that by (cases u; cases "tl u"; cases t; cases "tl t") (auto simp: numeral_3_eq_3)
  have four: "take 4 xs = take (Suc (Suc (Suc (Suc 0)))) xs" for xs :: "u8 list" by (simp add: numeral_eq_Suc)
  have sig: "take 4 (c # u @ t) \<noteq> [115, 105, 103, 61]"
    using assms by (cases u; cases "tl u"; cases "tl (tl u)"; cases t) (auto simp: four)
  have "take 3 (c # u @ t) \<noteq> [115, 101, 61]" "take 3 (c # u @ t) \<noteq> [115, 114, 61]" using three by simp_all
  then show ?thesis using sig by (simp only: step_of_def if_False)
qed

lemma scan_skip:
  "61 \<notin> set u \<Longrightarrow> t = [] \<or> hd t = 38 \<Longrightarrow> scan i p (u @ t) st = scan (i + length u) (last (p # u)) t st"
proof (induction u arbitrary: i p)
  case (Cons c u)
  then show ?case using step_of_unmarked [of c u t i p st] by simp
qed simp

lemma scan_skip_end: "61 \<notin> set u \<Longrightarrow> scan i p u st = st"
  using scan_skip [of u "[]" i p st] by simp

text \<open>The separators of a token.\<close>

lemma step_of_not_s: "c \<noteq> 115 \<Longrightarrow> step_of i p (c # t) st = st"
  by (simp add: step_of_def)

lemma step_of_sig:
  "step_of i p (115 # 105 # 103 # 61 # t) st =
   (case field_of p (int i) 4 (srStart st) (srStop st) (seStart st) (seStop st) of
      (s, x, y) \<Rightarrow> st\<lparr>sigStart := s, srStop := x, seStop := y\<rparr>)"
  by (simp add: step_of_def)

lemma step_of_se:
  "step_of i p (115 # 101 # 61 # t) st =
   (case field_of p (int i) 3 (srStart st) (srStop st) (sigStart st) (sigStop st) of
      (s, x, y) \<Rightarrow> st\<lparr>seStart := s, srStop := x, sigStop := y\<rparr>)"
  by (simp add: step_of_def)

lemma step_of_sr:
  "step_of i p (115 # 114 # 61 # t) st =
   (case field_of p (int i) 3 (seStart st) (seStop st) (sigStart st) (sigStop st) of
      (s, x, y) \<Rightarrow> st\<lparr>srStart := s, seStop := x, sigStop := y\<rparr>)"
  by (simp add: step_of_def)

lemma step_of_other: "c \<noteq> 101 \<Longrightarrow> c \<noteq> 114 \<Longrightarrow> c \<noteq> 105 \<Longrightarrow> step_of i p (115 # c # t) st = st"
  by (simp add: step_of_def)

lemma plus_Sucs: "Suc (Suc (Suc (Suc n))) = n + 4" "Suc (n + 4) = n + 5"
  by simp_all

lemma scan_sig:
  "scan i p (chars ''&sig='' @ t) st = scan (i + 5) 61 t (step_of (Suc i) 38 (115 # 105 # 103 # 61 # t) st)"
  by (simp add: step_of_not_s plus_Sucs)

lemma scan_se:
  "scan i p (chars ''&se='' @ t) st = scan (i + 4) 61 t (step_of (Suc i) 38 (115 # 101 # 61 # t) st)"
  by (simp add: step_of_not_s plus_Sucs)

lemma scan_skn: "scan i p (chars ''&skn='' @ t) st = scan (i + 5) 61 t st"
  by (simp add: step_of_not_s step_of_other plus_Sucs)

abbreviation nothing :: sas_scan where
  "nothing \<equiv> \<lparr>seStart = -1, seStop = -1, srStart = -1, srStop = -1, sigStart = -1, sigStop = -1\<rparr>"

lemma scan_head: "scan 0 0 (chars ''SharedAccessSignature sr='' @ t) nothing = scan 25 61 t (nothing\<lparr>srStart := 25\<rparr>)"
  by (simp add: step_of_not_s step_of_other step_of_sr field_of_def plus_Sucs)

section \<open>The expiry time\<close>

definition expiry_digit :: "nat option \<Rightarrow> u8 \<Rightarrow> nat option" where
  "expiry_digit val c = Option.bind (Option.bind val (\<lambda>v. to_double (v * 10))) (\<lambda>v. to_double (v + (unat c - 48)))"

lemma wp_expiry_loop:
  "\<forall>c \<in> set u. 48 \<le> c \<and> c \<le> 57 \<Longrightarrow> length u < n \<Longrightarrow>
   wp (expiry_loop (pre @ u @ 0 # b) (length pre) n val) Q w = Q (foldl expiry_digit val u) w"
proof (induction u arbitrary: pre n val)
  case Nil
  then show ?case by (cases n) simp_all
next
  case (Cons c u)
  moreover obtain m where "n = Suc m" using Cons.prems by (cases n) auto
  moreover have "c \<noteq> 0" using Cons.prems(1) by auto
  ultimately show ?case using Cons.IH [of m "pre @ [c]"] by (simp add: expiry_digit_def)
qed

lemma digit_char_value:
  assumes "d < 10"
  shows "unat (digit_chars ! d) = 48 + d"
proof -
  have "\<forall>d \<in> set [0..<10]. unat (digit_chars ! d) = 48 + d" by code_simp
  then show ?thesis using assms by simp
qed

lemma decimal_chars: "\<forall>c \<in> set (decimal n). 48 \<le> c \<and> c \<le> 57 \<and> c \<noteq> 61 \<and> c \<noteq> 38 \<and> c \<noteq> 0"
proof -
  have "\<forall>d \<in> set [0..<10]. 48 \<le> digit_chars ! d \<and> digit_chars ! d \<le> 57 \<and>
      digit_chars ! d \<noteq> 61 \<and> digit_chars ! d \<noteq> 38 \<and> digit_chars ! d \<noteq> 0"
    by code_simp
  then show ?thesis using digits_bounded [of 10] by (auto simp: decimal_def)
qed

lemma decimal_rec: "decimal n = (if n < 10 then [digit_chars ! n] else decimal (n div 10) @ [digit_chars ! (n mod 10)])"
  by (simp add: decimal_def digits_small digits_large)

text \<open>Whole numbers below $2^{53}$ are doubles, so that nothing is rounded.\<close>

lemma expiry_digit_exact:
  assumes "d < 10" "v * 10 + d < 2 ^ 53"
  shows "expiry_digit (Some v) (digit_chars ! d) = Some (v * 10 + d)"
proof -
  have "to_double n = Some n" if "n < 2 ^ 53" for n using that by (simp add: to_double_def)
  then show ?thesis using assms by (simp add: expiry_digit_def digit_char_value)
qed

lemma expiry_decimal: "n < 2 ^ 53 \<Longrightarrow> foldl expiry_digit (Some 0) (decimal n) = Some n"
proof (induction n rule: less_induct)
  case (less n)
  show ?case
  proof (cases "n < 10")
    case True
    then show ?thesis using less.prems expiry_digit_exact [of n 0] by (simp add: decimal_rec [of n])
  next
    case False
    then have "foldl expiry_digit (Some 0) (decimal (n div 10)) = Some (n div 10)" using less by (intro less.IH) auto
    then show ?thesis using less.prems False expiry_digit_exact [of "n mod 10" "n div 10"] by (simp add: decimal_rec [of n])
  qed
qed

lemma wp_copy_loop:
  "38 \<notin> set u \<Longrightarrow> n = length u \<or> length u < n \<and> t \<noteq> [] \<and> hd t = 38 \<Longrightarrow> start \<le> length pre \<Longrightarrow>
   length pre - start + length u \<le> length d \<Longrightarrow>
   wp (copy_loop (pre @ u @ t) (length pre) n start d) Q w = Q (put d (length pre - start) u) w"
proof (induction u arbitrary: pre n d)
  case Nil
  then show ?case by (cases n; cases t) simp_all
next
  case (Cons c u)
  moreover obtain m where "n = Suc m" using Cons.prems(2) by (cases n) auto
  ultimately show ?case
    using Cons.IH [of m "pre @ [c]" "d[length pre - start := c]"] by (auto simp: Suc_diff_le list_update_put)
qed

lemma wp_check_expiry:
  assumes v: "v < 2 ^ 53" and n: "stop - start = length (decimal v) \<or> length (decimal v) < stop - start \<and> t \<noteq> [] \<and> hd t = 38"
    and a: "a = pre @ decimal v @ t" "start = length pre"
    and short: "\<And>w'. next_alloc w = None \<Longrightarrow> live w' = live w \<Longrightarrow> faults w' = faults w \<Longrightarrow> Q False w'"
    and checked: "\<And>w'. live w' = live w \<Longrightarrow> faults w' = faults w \<Longrightarrow> Q (0 < v \<and> now \<le> int v) w'"
  shows "wp (check_expiry a start stop now) Q w"
proof -
  let ?n = "stop - start" and ?u = "decimal v"
  have le: "length ?u \<le> ?n" using n by auto
  then have "drop (length ?u) (replicate (?n + 1) (0 :: u8)) = 0 # replicate (?n - length ?u) 0"
    by (metis Suc_diff_le Suc_eq_plus1 drop_replicate replicate_Suc)
  then have block: "put (replicate (?n + 1) 0) 0 ?u = ?u @ 0 # replicate (?n - length ?u) 0" by (simp only: put_0)
  have copy: "wp (copy_loop a start ?n start (replicate (?n + 1) 0)) R w' = R (?u @ 0 # replicate (?n - length ?u) 0) w'" for R w'
    using wp_copy_loop [of ?u ?n t start pre "replicate (?n + 1) 0" R w'] decimal_chars [of v] n le a block by auto
  have read: "wp (getExpiryValue (?u @ 0 # replicate (?n - length ?u) 0)) R w' = R (Some v) w'" for R w'
    using wp_expiry_loop [of ?u "length (?u @ 0 # replicate (?n - length ?u) 0)" "[]" "replicate (?n - length ?u) 0" "Some 0" R w']
      decimal_chars [of v] expiry_decimal [OF v] by (simp add: getExpiryValue_def)
  show ?thesis
    unfolding check_expiry_def wp_bind
    by (rule wp_malloc) (use short checked in \<open>auto simp: copy [simplified] read [simplified] not_less\<close>)
qed

section \<open>Tokens that were created\<close>

lemma nibble_no_eq:
  assumes "c < 16"
  shows "NIBBLE_STR c \<noteq> 61"
proof -
  have "\<forall>c \<in> set (map of_nat [0..<16]). NIBBLE_STR c \<noteq> 61" by code_simp
  moreover have "c = of_nat (unat c)" "unat c \<in> set [0..<16]" using assms unat_mono [of c 16] by simp_all
  then have "c \<in> set (map of_nat [0..<16])" by (metis image_eqI list.set_map)
  ultimately show ?thesis by blast
qed

lemma printable_no_eq: "61 \<notin> set (printable_text c)"
proof -
  have "drop_bit 4 (unat c) < 16" using unat_u8 [of c] by (simp add: drop_bit_eq_div)
  then have small: "drop_bit 4 c < 16" "c AND 15 < 16"
    using word_and_le1 [of c 15]
    by (simp_all add: word_less_nat_alt word_le_nat_alt unat_drop_bit_eq)
  then have "drop_bit 4 c - 4 < 16" if "12 \<le> drop_bit 4 c"
    using that by (simp add: word_less_nat_alt word_le_nat_alt unat_sub)
  then have "NIBBLE_STR (if 12 \<le> drop_bit 4 c then drop_bit 4 c - 4 else drop_bit 4 c) \<noteq> 61" "NIBBLE_STR (c AND 15) \<noteq> 61"
    using small nibble_no_eq by simp_all
  then show ?thesis by (auto simp: printable_text_def Let_def IS_PRINTABLE_def)
qed

lemma sas_code_chars: "61 \<notin> set (sas_code k scope e)" "0 \<notin> set (sas_code k scope e)" "2 \<le> length (sas_code k scope e)"
proof -
  let ?t = "b64_text base64char (hmac_spec SHA256 k (scope @ 10 # decimal e))"
  have "length ?t = 44" by (simp add: length_b64_text hmac_spec_def USHAHashSize_def sha_sizes)
  moreover have "length t \<le> length (url_text t)" for t
    by (induction t) (auto simp: url_text_def printable_text_def Let_def)
  from this [of ?t] calculation show "2 \<le> length (sas_code k scope e)" unfolding sas_code_def by linarith
  show "61 \<notin> set (sas_code k scope e)" using printable_no_eq by (auto simp: sas_code_def url_text_def)
  show "0 \<notin> set (sas_code k scope e)" using url_text_nozero [OF az64.text_nozero] by (simp add: sas_code_def)
qed

lemma field_of_amp:
  "field_of 38 i k xStart xStop yStart yStop =
     (if xStart > 0 \<and> xStop < 0 then (i + k, i - 2, yStop)
      else if yStart > 0 \<and> yStop < 0 then (i + k, xStop, i - 2) else (i + k, xStop, yStop))"
  by (simp add: field_of_def Let_def)

lemma scan_parts:
  assumes "61 \<notin> set scope" "61 \<notin> set code" "61 \<notin> set name"
  defines "n \<equiv> length scope" and "c \<equiv> length code"
  shows "scan 0 0 (sas_parts scope code (decimal e) name) nothing =
    \<lparr>seStart = 34 + int n + int c, seStop = -1, srStart = 25, srStop = 24 + int n, sigStart = 30 + int n, sigStop = 29 + int n + int c\<rparr>"
proof -
  let ?r3 = "chars ''&skn='' @ name" let ?r2 = "chars ''&se='' @ decimal e @ ?r3" let ?r1 = "chars ''&sig='' @ code @ ?r2"
  let ?s1 = "nothing\<lparr>srStart := 25\<rparr>"
  let ?s2 = "?s1\<lparr>sigStart := 30 + int n, srStop := 24 + int n\<rparr>"
  have d: "61 \<notin> set (decimal e)" using decimal_chars by blast
  have "scan 0 0 (sas_parts scope code (decimal e) name) nothing = scan 25 61 (scope @ ?r1) ?s1"
    unfolding sas_parts_def by (rule scan_head)
  also have "\<dots> = scan (25 + n) (last (61 # scope)) ?r1 ?s1"
    unfolding n_def by (rule scan_skip [OF assms(1)]) simp
  also have "\<dots> = scan (30 + n) 61 (code @ ?r2) ?s2"
    unfolding scan_sig step_of_sig by (simp add: field_of_amp ac_simps)
  also have "\<dots> = scan (30 + n + c) (last (61 # code)) ?r2 ?s2"
    unfolding c_def by (rule scan_skip [OF assms(2)]) simp
  also have "\<dots> = scan (34 + n + c) 61 (decimal e @ ?r3) (?s2\<lparr>seStart := 34 + int n + int c, sigStop := 29 + int n + int c\<rparr>)"
    unfolding scan_se step_of_se by (simp add: field_of_amp ac_simps)
  also have "\<dots> = scan (34 + n + c + length (decimal e)) (last (61 # decimal e)) ?r3
      (?s2\<lparr>seStart := 34 + int n + int c, sigStop := 29 + int n + int c\<rparr>)"
    by (rule scan_skip [OF d]) simp
  also have "\<dots> = ?s2\<lparr>seStart := 34 + int n + int c, sigStop := 29 + int n + int c\<rparr>"
    unfolding scan_skn by (rule scan_skip_end [OF assms(3)])
  finally show ?thesis by simp
qed

lemma wp_SASToken_Validate:
  assumes "0 \<notin> set T" "length T < 2147483648"
  shows "wp (SASToken_Validate (Some (mkstr T)) now) Q w =
    (let sc = scan 0 0 T nothing; len = int (length T) in
     if seStart sc < 0 \<or> srStart sc < 0 \<or> sigStart sc < 0 then Q False w
     else let sc1 = (if seStop sc < 0 then sc\<lparr>seStop := len\<rparr> else if srStop sc < 0 then sc\<lparr>srStop := len\<rparr>
                     else if sigStop sc < 0 then sc\<lparr>sigStop := len\<rparr> else sc) in
       if seStop sc1 \<le> seStart sc1 \<or> srStop sc1 \<le> srStart sc1 \<or> sigStop sc1 \<le> sigStart sc1 then Q False w
       else wp (check_expiry (T @ [0]) (nat (seStart sc1)) (nat (seStop sc1)) now) Q w)"
proof -
  have loop: "wp (scan_loop (T @ [0]) 0 (length T) nothing) R w = R (scan 0 0 T nothing) w" for R
    using wp_scan_loop [OF assms(1), of "[]" nothing "[]" R w] by (simp add: not_started_def)
  show ?thesis using assms by (simp add: SASToken_Validate_def STRING_length_def to_int_def loop Let_def)
qed

lemma length_sas_parts:
  "length (sas_parts scope code time name) = 39 + length scope + length code + length time + length name"
  by (simp add: sas_parts_def)

text \<open>What a check says of a token that was created: the scope has two characters at least, and the time has come neither before nor after.\<close>

lemma wp_Validate_parts:
  assumes chars: "61 \<notin> set scope" "61 \<notin> set code" "61 \<notin> set name" "0 \<notin> set scope" "0 \<notin> set code" "0 \<notin> set name"
    and size: "length scope + length code + length name + 100 < 2147483648" "2 \<le> length code" and e: "e < 2 ^ 32"
    and short: "\<And>w'. next_alloc w = None \<Longrightarrow> live w' = live w \<Longrightarrow> faults w' = faults w \<Longrightarrow> Q False w'"
    and checked: "\<And>w'. live w' = live w \<Longrightarrow> faults w' = faults w \<Longrightarrow> Q (2 \<le> length scope \<and> 0 < e \<and> now \<le> int e) w'"
  shows "wp (SASToken_Validate (Some (mkstr (sas_parts scope code (decimal e) name))) now) Q w"
proof -
  let ?T = "sas_parts scope code (decimal e) name"
  have d: "length (decimal e) \<le> 10" using e by (simp add: decimal_def length_digits_le)
  have T: "0 \<notin> set ?T" using chars decimal_chars [of e] by (auto simp: sas_parts_def)
  have len: "length ?T < 2147483648" using size d by (simp add: length_sas_parts)
  show ?thesis
  proof (cases "2 \<le> length scope")
    case False
    then show ?thesis using checked [of w] d
      by (simp add: wp_SASToken_Validate [OF T len] scan_parts [OF chars(1-3)] length_sas_parts)
  next
    case True
    have "wp (check_expiry (?T @ [0]) (34 + length scope + length code) (length ?T) now) Q w"
    proof (rule wp_check_expiry [where v = e and t = "chars ''&skn='' @ name @ [0]" and
          pre = "chars ''SharedAccessSignature sr='' @ scope @ chars ''&sig='' @ code @ chars ''&se=''"], goal_cases)
      case 2
      have "length ?T - (34 + length scope + length code) = 5 + length (decimal e) + length name" by (simp add: length_sas_parts)
      then show ?case by simp
    next
      case 3
      show ?case by (simp add: sas_parts_def)
    next
      case 6
      then show ?case using checked True by simp
    qed (use e short in simp_all)
    moreover have "nat (34 + int (length scope) + int (length code)) = 34 + length scope + length code"
      "nat (39 + int (length scope) + int (length code) + int (length (decimal e)) + int (length name)) =
        39 + length scope + length code + length (decimal e) + length name" by linarith+
    ultimately show ?thesis using True size(2) d
      by (simp add: wp_SASToken_Validate [OF T len] scan_parts [OF chars(1-3)] length_sas_parts)
  qed
qed

text \<open>C19. Creating a token and checking it: with a scope and a key name without \<open>=\<close>, as URL-encoded ones are, the token is valid just when its
  expiry time is neither zero nor past and its scope has at least two characters; a token for a scope of one character is never valid. Only
  lack of memory makes the check of a valid token fail.\<close>

theorem created_token_checked:
  fixes expiry :: u32 and now :: int
  assumes "is_cstr key" "c_str key = b64_text base64char k" "length k < 1000000000" "is_cstr scope" "is_cstr name"
    "length (c_str scope) + length (c_str name) + 1000 < 2147483648" "hmac_arrays ctx" "locals_arrays loc"
    "61 \<notin> set (c_str scope)" "61 \<notin> set (c_str name)"
  defines "valid \<equiv> k \<noteq> [] \<and> 2 \<le> length (c_str scope) \<and> 0 < expiry \<and> now \<le> uint expiry"
  shows "wp (do { h \<leftarrow> SASToken_CreateString (Some key) (Some scope) (Some name) expiry ctx loc; r \<leftarrow> SASToken_Validate h now; ret (h, r) })
    (\<lambda>(h, r) w'. faults w' = faults w \<and> live w' = live w + str_blocks h \<and> (if plenty 24 w then r = valid else r \<longrightarrow> valid)) w"
  unfolding wp_bind
proof (rule wp_mono [OF wp_SASToken_CreateString [OF assms(1-8), of expiry w]], goal_cases)
  case (1 h w1)
  let ?code = "sas_code k (c_str scope) (unat expiry)"
  have e: "unat expiry < 2 ^ 32" using unat_u32 [of expiry] by simp
  have pos: "0 < unat expiry \<longleftrightarrow> 0 < expiry" "int (unat expiry) = uint expiry" by (simp_all add: unat_gt_0 word_gt_0)
  show ?case
  proof (cases h)
    case None
    then show ?thesis using 1 plenty_le [of 24 w 23] by (auto simp: SASToken_Validate_def valid_def)
  next
    case (Some st)
    then have st: "st = mkstr (sas_parts (c_str scope) ?code (decimal (unat expiry)) (c_str name))" "k \<noteq> []" "used 23 w w1"
      using 1 by (simp_all add: sas_token_def)
    have "length ?code \<le> 264"
      using length_url_text [of "b64_text base64char (hmac_spec SHA256 k (c_str scope @ 10 # decimal (unat expiry)))"]
      by (simp add: sas_code_def length_b64_text hmac_spec_def USHAHashSize_def sha_sizes)
    moreover have "\<not> plenty 24 w" if "next_alloc w1 = None"
      using used_starved [OF st(3) not_plenty_next [OF that, of 1], of 24] by simp
    ultimately show ?thesis using 1 assms(6) sas_code_chars [of k "c_str scope" "unat expiry"] st(2)
      unfolding Some st(1) wp_ret
      by (intro wp_Validate_parts [OF assms(9) _ assms(10) _ _ _ _ _ e]) (auto simp: Some valid_def pos)
  qed
qed

theorem created_token_checked_witness:
  "wp (do { h \<leftarrow> SASToken_CreateString (Some (clit ''a2V5'')) (Some (clit ''hub'')) (Some (clit ''dev'')) 42 blank_hmac blank_locals;
            r \<leftarrow> SASToken_Validate h 41; ret (h, r) })
     (\<lambda>(h, r) w'. r \<and> faults w' = 0 \<and> live w' = str_blocks h) \<lparr>avail = replicate 24 (Some (\<lambda>_. 0)), live = 0, faults = 0\<rparr>"
proof (rule wp_mono [OF created_token_checked [where k = "chars ''key''"]], goal_cases)
  case 2
  have "b64_text base64char [107, 101, 121] = [97, 50, 86, 53]" by code_simp
  then show ?case by (simp add: clit_def c_str_def)
next
  case (11 res w')
  then show ?case by (auto simp: clit_def c_str_def plenty_def)
qed (simp_all add: clit_def is_cstr_def c_str_def)

section \<open>Fields in another order\<close>

lemma scan_reordered:
  fixes e :: nat
  assumes "61 \<notin> set scope" "61 \<notin> set code"
  defines "n \<equiv> length scope" and "d \<equiv> length (decimal e)"
  shows "scan 0 0 (chars ''sr='' @ scope @ chars ''&se='' @ decimal e @ chars ''&sig='' @ code) nothing =
    \<lparr>seStart = 7 + int n, seStop = 6 + int n + int d, srStart = 3, srStop = 2 + int n, sigStart = 12 + int n + int d, sigStop = -1\<rparr>"
proof -
  let ?r2 = "chars ''&sig='' @ code" let ?r1 = "chars ''&se='' @ decimal e @ ?r2"
  let ?s1 = "nothing\<lparr>srStart := 3\<rparr>" let ?s2 = "?s1\<lparr>seStart := 7 + int n, srStop := 2 + int n\<rparr>"
  have dec: "61 \<notin> set (decimal e)" using decimal_chars by blast
  have "scan 0 0 (chars ''sr='' @ scope @ ?r1) nothing = scan 3 61 (scope @ ?r1) ?s1"
    by (simp add: step_of_not_s step_of_sr field_of_def numeral_3_eq_3)
  also have "\<dots> = scan (3 + n) (last (61 # scope)) ?r1 ?s1"
    unfolding n_def by (rule scan_skip [OF assms(1)]) simp
  also have "\<dots> = scan (7 + n) 61 (decimal e @ ?r2) ?s2"
    unfolding scan_se step_of_se by (simp add: field_of_amp ac_simps)
  also have "\<dots> = scan (7 + n + d) (last (61 # decimal e)) ?r2 ?s2"
    unfolding d_def by (rule scan_skip [OF dec]) simp
  also have "\<dots> = scan (12 + n + d) 61 code (?s2\<lparr>sigStart := 12 + int n + int d, seStop := 6 + int n + int d\<rparr>)"
    unfolding scan_sig step_of_sig by (simp add: field_of_amp ac_simps)
  also have "\<dots> = ?s2\<lparr>sigStart := 12 + int n + int d, seStop := 6 + int n + int d\<rparr>"
    by (rule scan_skip_end [OF assms(2)])
  finally show ?thesis by simp
qed

text \<open>C40. The last digit of an expiry time that is not at the end of the token is lost: of a token whose fields come in the order scope, expiry,
  signature, the check compares a tenth of the expiry time with the time of day, and takes an expiry below ten for none. Such a token is
  refused long before it expires.\<close>

theorem expiry_digit_lost:
  fixes now :: int
  assumes "61 \<notin> set scope" "61 \<notin> set code" "0 \<notin> set scope" "0 \<notin> set code"
    "length scope + length code + 100 < 2147483648" "2 \<le> length scope" "code \<noteq> []" "e < 2 ^ 32" "plenty 1 w"
  shows "wp (SASToken_Validate (Some (mkstr (chars ''sr='' @ scope @ chars ''&se='' @ decimal e @ chars ''&sig='' @ code))) now)
    (\<lambda>r w'. faults w' = faults w \<and> live w' = live w \<and> r = (10 \<le> e \<and> now \<le> int (e div 10))) w"
proof -
  let ?T = "chars ''sr='' @ scope @ chars ''&se='' @ decimal e @ chars ''&sig='' @ code"
  have d: "length (decimal e) \<le> 10" "decimal e \<noteq> []" using assms(8) by (simp_all add: decimal_def length_digits_le)
  have T: "0 \<notin> set ?T" using assms(3,4) decimal_chars [of e] by auto
  have len: "length ?T < 2147483648" using assms(5) d by simp
  show ?thesis
  proof (cases "e < 10")
    case True
    then have "length (decimal e) = 1" by (simp add: decimal_rec [of e])
    then show ?thesis using True unfolding wp_SASToken_Validate [OF T len] scan_reordered [OF assms(1,2)] by simp
  next
    case False
    then have dec: "decimal e = decimal (e div 10) @ [digit_chars ! (e mod 10)]" by (simp add: decimal_rec [of e])
    have alloc: "next_alloc w \<noteq> None" using plenty_next [of 0 w] assms(9) by simp
    have "wp (check_expiry (?T @ [0]) (7 + length scope) (6 + length scope + length (decimal e)) now)
        (\<lambda>r w'. faults w' = faults w \<and> live w' = live w \<and> r = (10 \<le> e \<and> now \<le> int (e div 10))) w"
    proof (rule wp_check_expiry [where v = "e div 10" and t = "digit_chars ! (e mod 10) # chars ''&sig='' @ code @ [0]" and
          pre = "chars ''sr='' @ scope @ chars ''&se=''"], goal_cases)
      case 3
      show ?case by (simp add: dec)
    qed (use assms(8) False alloc in \<open>simp_all add: dec div_greater_zero_iff\<close>)
    moreover have "0 < length (decimal (e div 10))" by (simp add: decimal_def)
    moreover have "nat (7 + int (length scope)) = 7 + length scope"
      "nat (6 + int (length scope) + int (length (decimal e))) = 6 + length scope + length (decimal e)" by linarith+
    ultimately show ?thesis using assms(6,7) d
      unfolding wp_SASToken_Validate [OF T len] scan_reordered [OF assms(1,2)] by (simp add: dec)
  qed
qed

theorem expiry_digit_lost_witness:
  "wp (SASToken_Validate (Some (mkstr (chars ''sr='' @ chars ''ab'' @ chars ''&se='' @ decimal 42 @ chars ''&sig='' @ chars ''x''))) 5)
     (\<lambda>r w'. faults w' = 0 \<and> live w' = 2 \<and> \<not> r) \<lparr>avail = [Some (\<lambda>_. 0)], live = 2, faults = 0\<rparr>"
  by (rule wp_mono [OF expiry_digit_lost]) (auto simp: plenty_def)

section \<open>Any text\<close>

text \<open>The ends of the fields lie within the text.\<close>

definition stops_within :: "int \<Rightarrow> sas_scan \<Rightarrow> bool" where
  "stops_within n st \<longleftrightarrow> seStop st \<le> n \<and> srStop st \<le> n \<and> sigStop st \<le> n"

lemma step_of_within: "int i \<le> n \<Longrightarrow> stops_within n st \<Longrightarrow> stops_within n (step_of i p t st)"
  by (auto simp: step_of_def field_of_def stops_within_def Let_def split: prod.splits if_splits)

lemma scan_within: "int i + int (length t) \<le> n \<Longrightarrow> stops_within n st \<Longrightarrow> stops_within n (scan i p t st)"
  by (induction i p t st rule: scan.induct) (simp_all add: step_of_within)

lemma wp_copy_loop_safe:
  "i + n \<le> length a \<Longrightarrow> start \<le> i \<Longrightarrow> i - start + n \<le> length d \<Longrightarrow>
   (\<And>e. length e = length d \<Longrightarrow> drop (i - start + n) e = drop (i - start + n) d \<Longrightarrow> Q e w) \<Longrightarrow>
   wp (copy_loop a i n start d) Q w"
proof (induction n arbitrary: i d)
  case (Suc n)
  have "wp (copy_loop a (Suc i) n start (d[i - start := a ! i])) Q w"
    by (rule Suc.IH) (use Suc.prems in \<open>auto simp: Suc_diff_le\<close>)
  then show ?case using Suc.prems by simp
qed simp

lemma wp_expiry_loop_safe:
  "is_cstr (drop i a) \<Longrightarrow> i \<le> length a \<Longrightarrow> length a - i \<le> n \<Longrightarrow> (\<And>v. Q v w) \<Longrightarrow> wp (expiry_loop a i n val) Q w"
proof (induction n arbitrary: i val)
  case 0
  then show ?case by (simp add: is_cstr_def)
next
  case (Suc n)
  have i: "i < length a" using Suc.prems(1,2) by (cases "i = length a") (auto simp: is_cstr_def)
  then have d: "drop i a = a ! i # drop (Suc i) a" by (simp add: Cons_nth_drop_Suc)
  have "wp (expiry_loop a (Suc i) n v) Q w" if "a ! i \<noteq> 0" for v
    by (rule Suc.IH) (use Suc.prems i that d in \<open>auto simp: is_cstr_def\<close>)
  then show ?case using i Suc.prems(4) by simp
qed

lemma wp_check_expiry_safe:
  assumes "start \<le> stop" "stop \<le> length a" "\<And>r w'. live w' = live w \<Longrightarrow> faults w' = faults w \<Longrightarrow> Q r w'"
  shows "wp (check_expiry a start stop now) Q w"
proof -
  have expiry: "wp (getExpiryValue e) R w'" if "drop (stop - start) e = [0]" "\<And>v. R v w'" for e R w'
  proof -
    have "0 \<in> set e" using that(1) by (metis in_set_dropD list.set_intros(1))
    then show ?thesis unfolding getExpiryValue_def by (intro wp_expiry_loop_safe) (use that in \<open>simp_all add: is_cstr_def\<close>)
  qed
  have "wp (copy_loop a start (stop - start) start (replicate (stop - start + 1) 0))
      (\<lambda>e. wp (do { x \<leftarrow> getExpiryValue e; c_free (Some e); ret (case x of None \<Rightarrow> True | Some v \<Rightarrow> 0 < v \<and> \<not> int v < now) }) Q) w'"
    if "live w' = live w + 1" "faults w' = faults w" for w'
    by (rule wp_copy_loop_safe) (use assms that in \<open>auto intro!: expiry simp: drop_Cons'\<close>)
  then show ?thesis
    unfolding check_expiry_def wp_bind by (intro wp_malloc) (use assms in \<open>auto simp: wp_bind_eta\<close>)
qed

text \<open>C20. Checking any text is safe: whatever the string holds, no access leaves its block or the copy of the expiry time, the loops end, and
  every block requested is released.\<close>

theorem SASToken_Validate_safe:
  assumes "0 \<notin> set T" "length T < 2147483648"
  shows "wp (SASToken_Validate (Some (mkstr T)) now) (\<lambda>r w'. faults w' = faults w \<and> live w' = live w) w"
proof -
  define sc where "sc = scan 0 0 T nothing"
  have within: "stops_within (int (length T)) sc" unfolding sc_def by (rule scan_within) (simp_all add: stops_within_def)
  have check: "wp (check_expiry (T @ [0]) (nat i) (nat j) now) (\<lambda>r w'. faults w' = faults w \<and> live w' = live w) w"
    if "0 \<le> i" "i < j" "j \<le> int (length T)" for i j
    by (rule wp_check_expiry_safe) (use that in simp_all)
  show ?thesis
    unfolding wp_SASToken_Validate [OF assms] sc_def [symmetric]
    using within check by (auto simp: Let_def stops_within_def)
qed

theorem SASToken_Validate_safe_witness:
  "wp (SASToken_Validate (Some (mkstr (chars ''sr=&se=9s&sig=''))) 7) (\<lambda>r w'. faults w' = 0 \<and> live w' = 2)
     \<lparr>avail = [], live = 2, faults = 0\<rparr>"
  using SASToken_Validate_safe [of "chars ''sr=&se=9s&sig=''" 7 "\<lparr>avail = [], live = 2, faults = 0\<rparr>"] by simp

end
