(* ===== verification/HttpHeaders.thy ===== *)
theory HttpHeaders
  imports MapTable
begin

text \<open>
  The header collection of the HTTP layer (\<open>c-utility/src/httpheaders.c\<close>): a map from names to values in which adding to
  a name that is present joins the values, and from which each header can be had as the line \<open>name: value\<close>.
  \<open>HTTP_HEADERS_HANDLE\<close> is \<open>HTTP_HEADERS_HANDLE_DATA option\<close>. A pointer that has moved into a string is the bytes
  from there on. The collection is an instance of \<open>Component\<close>: any sequence of calls refines an association list, and
  the lines are read back as the headers they were made from.
\<close>

datatype HTTP_HEADERS_RESULT =
    HTTP_HEADERS_OK
  | HTTP_HEADERS_INVALID_ARG
  | HTTP_HEADERS_ALLOC_FAILED
  | HTTP_HEADERS_INSUFFICIENT_BUFFER
  | HTTP_HEADERS_ERROR

record HTTP_HEADERS_HANDLE_DATA =
  headers :: "MAP_HANDLE_DATA option"

section \<open>The operations, in the order of the source\<close>

definition HTTPHeaders_Alloc :: "HTTP_HEADERS_HANDLE_DATA option cm" where
  "HTTPHeaders_Alloc = do {
     ok \<leftarrow> c_new;
     if \<not> ok then ret None
     else do {
       m \<leftarrow> Map_Create None;
       if m = None then do { c_free (Some ()); ret None }
       else ret (Some \<lparr>headers = m\<rparr>)
     }
   }"

definition HTTPHeaders_Free :: "HTTP_HEADERS_HANDLE_DATA option \<Rightarrow> unit cm" where
  "HTTPHeaders_Free handle =
     (case handle of
        None \<Rightarrow> ret ()
      | Some handleData \<Rightarrow> do { Map_Destroy (headers handleData); c_free handle })"

text \<open>The loop over the name stops at the first character a name must not have.\<close>

function name_loop :: "u8 list \<Rightarrow> nat \<Rightarrow> nat \<Rightarrow> nat cm" where
  "name_loop name i nameLen =
     (if i < nameLen then do {
        c \<leftarrow> c_load name i;
        if c < 33 \<or> 126 < c \<or> c = 58 then ret i else name_loop name (Suc i) nameLen
      }
      else ret i)"
  by pat_completeness auto
termination
  by (relation "measure (\<lambda>(name, i, n). n - i)") auto

text \<open>The loop that moves \<open>value\<close> past blanks; running past the end of the block is a fault.\<close>

fun skip_lws :: "u8 list \<Rightarrow> u8 list cm" where
  "skip_lws [] = do { c_assert False; ret [] }"
| "skip_lws (c # cs) = (if c = 32 \<or> c = 9 \<or> c = 13 \<or> c = 10 then skip_lws cs else ret (c # cs))"

text \<open>The part of \<open>headers_ReplaceHeaderNameValuePair\<close> that joins the new value to the present one.\<close>

definition headers_join ::
    "HTTP_HEADERS_HANDLE_DATA \<Rightarrow> u8 list \<Rightarrow> u8 list \<Rightarrow> u8 list \<Rightarrow> (HTTP_HEADERS_RESULT \<times> HTTP_HEADERS_HANDLE_DATA) cm" where
  "headers_join handleData name existingValue val = do {
     existingValueLen \<leftarrow> c_strlen existingValue;
     valueLen \<leftarrow> c_strlen val;
     p \<leftarrow> c_malloc (szt (existingValueLen + 2 + valueLen + 1));
     (case p of
        None \<Rightarrow> ret (HTTP_HEADERS_ALLOC_FAILED, handleData)
      | Some newValue \<Rightarrow> do {
          n1 \<leftarrow> c_memcpy newValue 0 existingValue 0 existingValueLen;
          n2 \<leftarrow> c_store n1 existingValueLen 44;
          n3 \<leftarrow> c_store n2 (existingValueLen + 1) 32;
          n4 \<leftarrow> c_memcpy n3 (existingValueLen + 2) val 0 (valueLen + 1);
          (r, m) \<leftarrow> Map_AddOrUpdate (headers handleData) (Some name) (Some n4);
          c_free p;
          ret (if r \<noteq> MAP_OK then HTTP_HEADERS_ERROR else HTTP_HEADERS_OK, handleData\<lparr>headers := m\<rparr>)
        })
   }"

definition headers_ReplaceHeaderNameValuePair ::
    "HTTP_HEADERS_HANDLE_DATA option \<Rightarrow> u8 list option \<Rightarrow> u8 list option \<Rightarrow> bool \<Rightarrow>
     (HTTP_HEADERS_RESULT \<times> HTTP_HEADERS_HANDLE_DATA option) cm" where
  "headers_ReplaceHeaderNameValuePair handle name val replace =
     (case (handle, name, val) of
        (Some handleData, Some nm, Some vl) \<Rightarrow> do {
          nameLen \<leftarrow> c_strlen nm;
          i \<leftarrow> name_loop nm 0 nameLen;
          if i < nameLen then ret (HTTP_HEADERS_INVALID_ARG, handle)
          else do {
            existingValue \<leftarrow> Map_GetValueFromKey (headers handleData) (Some nm);
            v \<leftarrow> skip_lws vl;
            if \<not> replace \<and> existingValue \<noteq> None
            then do {
              (r, hd) \<leftarrow> headers_join handleData nm (blk existingValue) v;
              ret (r, Some hd)
            }
            else do {
              (r, m) \<leftarrow> Map_AddOrUpdate (headers handleData) (Some nm) (Some v);
              ret (if r \<noteq> MAP_OK then HTTP_HEADERS_ALLOC_FAILED else HTTP_HEADERS_OK,
                   Some (handleData\<lparr>headers := m\<rparr>))
            }
          }
        }
      | _ \<Rightarrow> ret (HTTP_HEADERS_INVALID_ARG, handle))"

definition HTTPHeaders_AddHeaderNameValuePair ::
    "HTTP_HEADERS_HANDLE_DATA option \<Rightarrow> u8 list option \<Rightarrow> u8 list option \<Rightarrow>
     (HTTP_HEADERS_RESULT \<times> HTTP_HEADERS_HANDLE_DATA option) cm" where
  "HTTPHeaders_AddHeaderNameValuePair httpHeadersHandle name val =
     headers_ReplaceHeaderNameValuePair httpHeadersHandle name val False"

definition HTTPHeaders_ReplaceHeaderNameValuePair ::
    "HTTP_HEADERS_HANDLE_DATA option \<Rightarrow> u8 list option \<Rightarrow> u8 list option \<Rightarrow>
     (HTTP_HEADERS_RESULT \<times> HTTP_HEADERS_HANDLE_DATA option) cm" where
  "HTTPHeaders_ReplaceHeaderNameValuePair httpHeadersHandle name val =
     headers_ReplaceHeaderNameValuePair httpHeadersHandle name val True"

definition HTTPHeaders_FindHeaderValue ::
    "HTTP_HEADERS_HANDLE_DATA option \<Rightarrow> u8 list option \<Rightarrow> u8 list option cm" where
  "HTTPHeaders_FindHeaderValue httpHeadersHandle name =
     (case (httpHeadersHandle, name) of
        (Some handleData, Some _) \<Rightarrow> Map_GetValueFromKey (headers handleData) name
      | _ \<Rightarrow> ret None)"

text \<open>The second component is what is stored through the output pointer (\<open>None\<close>: nothing), which is given by
  whether it is there.\<close>

definition HTTPHeaders_GetHeaderCount ::
    "HTTP_HEADERS_HANDLE_DATA option \<Rightarrow> bool \<Rightarrow> HTTP_HEADERS_RESULT \<times> nat option" where
  "HTTPHeaders_GetHeaderCount handle headerCount =
     (case handle of
        None \<Rightarrow> (HTTP_HEADERS_INVALID_ARG, None)
      | Some handleData \<Rightarrow>
          if \<not> headerCount then (HTTP_HEADERS_INVALID_ARG, None)
          else
            (case Map_GetInternals (headers handleData) True True headerCount of
               (r, out) \<Rightarrow> (if r \<noteq> MAP_OK then HTTP_HEADERS_ERROR else HTTP_HEADERS_OK,
                 map_option (\<lambda>(keys, values, count). count) out)))"

text \<open>The line \<open>key: value\<close> is built in a block of its own; \<open>None\<close> when there is none to be had.\<close>

definition header_line :: "u8 list \<Rightarrow> u8 list \<Rightarrow> u8 list option cm" where
  "header_line key val = do {
     keyLen \<leftarrow> c_strlen key;
     valueLen \<leftarrow> c_strlen val;
     p \<leftarrow> c_malloc (szt (keyLen + 2 + valueLen + 1));
     (case p of
        None \<Rightarrow> ret None
      | Some destination \<Rightarrow> do {
          d1 \<leftarrow> c_memcpy destination 0 key 0 keyLen;
          d2 \<leftarrow> c_store d1 keyLen 58;
          d3 \<leftarrow> c_store d2 (keyLen + 1) 32;
          d4 \<leftarrow> c_memcpy d3 (keyLen + 2) val 0 (valueLen + 1);
          ret (Some d4)
        })
   }"

definition HTTPHeaders_GetHeader ::
    "HTTP_HEADERS_HANDLE_DATA option \<Rightarrow> nat \<Rightarrow> bool \<Rightarrow> (HTTP_HEADERS_RESULT \<times> u8 list option option) cm" where
  "HTTPHeaders_GetHeader handle index destination =
     (case handle of
        None \<Rightarrow> ret (HTTP_HEADERS_INVALID_ARG, None)
      | Some handleData \<Rightarrow>
          if \<not> destination then ret (HTTP_HEADERS_INVALID_ARG, None)
          else
            (case Map_GetInternals (headers handleData) True True True of
               (MAP_OK, Some (keys, values, headerCount)) \<Rightarrow>
                 if headerCount \<le> index then ret (HTTP_HEADERS_INVALID_ARG, None)
                 else do {
                   k \<leftarrow> ptr_load (blk keys) index;
                   v \<leftarrow> ptr_load (blk values) index;
                   d \<leftarrow> header_line (blk k) (blk v);
                   ret (if d = None then HTTP_HEADERS_ERROR else HTTP_HEADERS_OK, Some d)
                 }
             | _ \<Rightarrow> ret (HTTP_HEADERS_ERROR, None)))"

definition HTTPHeaders_Clone :: "HTTP_HEADERS_HANDLE_DATA option \<Rightarrow> HTTP_HEADERS_HANDLE_DATA option cm" where
  "HTTPHeaders_Clone handle =
     (case handle of
        None \<Rightarrow> ret None
      | Some handleData \<Rightarrow> do {
          ok \<leftarrow> c_new;
          if \<not> ok then ret None
          else do {
            m \<leftarrow> Map_Clone (headers handleData);
            if m = None then do { c_free (Some ()); ret None }
            else ret (Some \<lparr>headers = m\<rparr>)
          }
        })"

section \<open>The collection as an association list\<close>

text \<open>A name is made of printing characters other than the colon; blanks before a value are dropped.\<close>

definition name_ok :: "u8 list \<Rightarrow> bool" where
  "name_ok s \<longleftrightarrow> list_all (\<lambda>c. 33 \<le> c \<and> c \<le> 126 \<and> c \<noteq> 58) s"

definition lws :: "u8 \<Rightarrow> bool" where
  "lws c \<longleftrightarrow> c = 32 \<or> c = 9 \<or> c = 13 \<or> c = 10"

definition hdr_map :: "HTTP_HEADERS_HANDLE_DATA \<Rightarrow> MAP_HANDLE_DATA" where
  "hdr_map h = the (headers h)"

definition hdr_abs :: "HTTP_HEADERS_HANDLE_DATA \<Rightarrow> (u8 list \<times> u8 list) list" where
  "hdr_abs h = map_entries (hdr_map h)"

definition hdr_wf :: "HTTP_HEADERS_HANDLE_DATA \<Rightarrow> bool" where
  "hdr_wf h \<longleftrightarrow> headers h \<noteq> None \<and> map_wf (hdr_map h) \<and> mapFilterCallback (hdr_map h) = None \<and>
     list_all (\<lambda>(n, v). name_ok n) (hdr_abs h)"

definition hdr_blocks :: "HTTP_HEADERS_HANDLE_DATA option \<Rightarrow> int" where
  "hdr_blocks h = (case h of None \<Rightarrow> 0 | Some x \<Rightarrow> 1 + map_blocks (headers x))"

definition hdr_size :: "HTTP_HEADERS_HANDLE_DATA \<Rightarrow> nat" where
  "hdr_size h = (\<Sum>(n, v) \<leftarrow> hdr_abs h. 4 + length n + length v)"

datatype hdr_op =
    AddHeader "u8 list option" "u8 list option"
  | ReplaceHeader "u8 list option" "u8 list option"

fun hdr_exec :: "hdr_op \<Rightarrow> HTTP_HEADERS_HANDLE_DATA option \<Rightarrow> (HTTP_HEADERS_RESULT \<times> HTTP_HEADERS_HANDLE_DATA option) cm" where
  "hdr_exec (AddHeader n v) h = HTTPHeaders_AddHeaderNameValuePair h n v"
| "hdr_exec (ReplaceHeader n v) h = HTTPHeaders_ReplaceHeaderNameValuePair h n v"

fun hdr_args_ok :: "hdr_op \<Rightarrow> bool" where
  "hdr_args_ok (AddHeader n v) = (str_arg n \<and> str_arg v)"
| "hdr_args_ok (ReplaceHeader n v) = (str_arg n \<and> str_arg v)"

fun hdr_growth :: "hdr_op \<Rightarrow> nat" where
  "hdr_growth (AddHeader n v) = 6 + length (c_str (blk n)) + length (c_str (blk v))"
| "hdr_growth (ReplaceHeader n v) = 6 + length (c_str (blk n)) + length (c_str (blk v))"

text \<open>What a value becomes: as it is, or after the present one, a comma and a blank.\<close>

definition joined :: "bool \<Rightarrow> (u8 list \<times> u8 list) list \<Rightarrow> u8 list \<Rightarrow> u8 list \<Rightarrow> u8 list" where
  "joined replace es n v =
     (case map_of es n of
        Some old \<Rightarrow> if replace then dropWhile lws v else old @ [44, 32] @ dropWhile lws v
      | None \<Rightarrow> dropWhile lws v)"

definition hdr_set_spec ::
    "bool \<Rightarrow> u8 list \<Rightarrow> u8 list \<Rightarrow> HTTP_HEADERS_RESULT \<Rightarrow> (u8 list \<times> u8 list) list \<Rightarrow> (u8 list \<times> u8 list) list \<Rightarrow> bool" where
  "hdr_set_spec replace n v r es es' \<longleftrightarrow>
     (if \<not> name_ok n then r = HTTP_HEADERS_INVALID_ARG \<and> es' = es
      else r = HTTP_HEADERS_OK \<and> es' = AList.update n (joined replace es n v) es \<or>
           r = HTTP_HEADERS_ALLOC_FAILED \<and> es' = es \<or>
           r = HTTP_HEADERS_ERROR \<and> \<not> replace \<and> n \<in> fst ` set es \<and> es' = es)"

fun hdr_spec :: "hdr_op \<Rightarrow> HTTP_HEADERS_RESULT \<Rightarrow> (u8 list \<times> u8 list) list \<Rightarrow> (u8 list \<times> u8 list) list \<Rightarrow> bool" where
  "hdr_spec (AddHeader (Some n) (Some v)) r es es' = hdr_set_spec False (c_str n) (c_str v) r es es'"
| "hdr_spec (ReplaceHeader (Some n) (Some v)) r es es' = hdr_set_spec True (c_str n) (c_str v) r es es'"
| "hdr_spec _ r es es' = (r = HTTP_HEADERS_INVALID_ARG \<and> es' = es)"

definition hdr_oom :: "hdr_op \<Rightarrow> HTTP_HEADERS_RESULT \<Rightarrow> (u8 list \<times> u8 list) list \<Rightarrow> bool" where
  "hdr_oom op r a \<longleftrightarrow> r = HTTP_HEADERS_ALLOC_FAILED \<or> r = HTTP_HEADERS_ERROR"

section \<open>Weakest preconditions\<close>

declare name_loop.simps [simp del]

lemma wp_name_loop:
  assumes "n \<le> length name" "i \<le> n"
  shows "wp (name_loop name i n) Q w =
    Q (i + length (takeWhile (\<lambda>c. 33 \<le> c \<and> c \<le> 126 \<and> c \<noteq> 58) (drop i (take n name)))) w"
  using assms(2)
proof (induction "n - i" arbitrary: i)
  case 0
  then show ?case by (simp add: name_loop.simps [of name i])
next
  case (Suc d)
  then have "i < n" "drop i (take n name) = name ! i # drop (Suc i) (take n name)"
    using assms(1) by (simp_all add: Cons_nth_drop_Suc [symmetric])
  then show ?case
    using assms(1) Suc.hyps(1) [of "Suc i"] Suc.hyps(2) by (simp add: name_loop.simps [of name i] flip: not_le)
qed

lemma wp_name_checked:
  assumes "is_cstr nm"
  shows "wp (name_loop nm 0 (length (c_str nm))) Q w =
    Q (length (takeWhile (\<lambda>c. 33 \<le> c \<and> c \<le> 126 \<and> c \<noteq> 58) (c_str nm))) w"
  using wp_name_loop [of "length (c_str nm)" nm 0] length_c_str_less [OF assms] by simp

lemma takeWhile_short: "length (takeWhile P xs) < length xs \<longleftrightarrow> \<not> list_all P xs"
  by (induction xs) auto

lemma skip_lws_cstr:
  assumes "is_cstr v"
  shows "is_cstr (dropWhile lws v)" "c_str (dropWhile lws v) = dropWhile lws (c_str v)"
    "wp (skip_lws v) Q w = Q (dropWhile lws v) w"
  using assms by (induction v) (auto simp: is_cstr_def c_str_def lws_def)

lemma cstr_block_skip: "cstr_block v \<Longrightarrow> cstr_block (dropWhile lws v)"
  using length_dropWhile_le [of lws "c_str v"] by (simp add: cstr_block_def skip_lws_cstr)

text \<open>Two strings with two characters between them, written one after the other into a fresh block.\<close>

lemma wp_write_pair:
  assumes "is_cstr a" "is_cstr b" "length d = length (c_str a) + length (c_str b) + 3"
  shows "wp (do {
       n1 \<leftarrow> c_memcpy d 0 a 0 (length (c_str a));
       n2 \<leftarrow> c_store n1 (length (c_str a)) x;
       n3 \<leftarrow> c_store n2 (length (c_str a) + 1) y;
       n4 \<leftarrow> c_memcpy n3 (length (c_str a) + 2) b 0 (length (c_str b) + 1);
       f n4 }) Q w = wp (f (c_str a @ [x, y] @ c_str b @ [0])) Q w"
proof -
  let ?a = "c_str a" and ?b = "c_str b @ [0]"
  obtain d1 p q d2 where d: "d = d1 @ p # q # d2" "length d1 = length ?a" "length d2 = length ?b"
  proof
    show "d = take (length ?a) d @ d ! length ?a # d ! Suc (length ?a) # drop (length ?a + 2) d"
      using assms(3) by (simp add: Cons_nth_drop_Suc)
  qed (use assms(3) in simp_all)
  have "put (?a @ x # y # d2) (length ?a + 2) ?b = ?a @ x # y # ?b"
    using put_append [of "?a @ [x, y]" "length ?a + 2" d2 ?b] d(3) by simp
  then show ?thesis
    using assms length_c_str_less [OF assms(1)] length_c_str_less [OF assms(2)] d
    by (simp add: length_c_str_le Suc_le_eq put_0 list_update_append)
qed

section \<open>Setting a header\<close>

definition hdr_step_ok ::
    "hdr_op \<Rightarrow> HTTP_HEADERS_HANDLE_DATA \<Rightarrow> world \<Rightarrow> HTTP_HEADERS_RESULT \<times> HTTP_HEADERS_HANDLE_DATA option \<Rightarrow> world \<Rightarrow> bool" where
  "hdr_step_ok op h w = (\<lambda>(r, h1) w'. \<exists>h'. h1 = Some h' \<and> hdr_wf h' \<and> hdr_size h' \<le> hdr_size h + hdr_growth op \<and>
     faults w' = faults w \<and> live w' - live w = hdr_blocks (Some h') - hdr_blocks (Some h) \<and>
     hdr_spec op r (hdr_abs h) (hdr_abs h') \<and> (hdr_oom op r (hdr_abs h) \<longrightarrow> \<not> plenty 5 w))"

lemma names_update: "list_all (\<lambda>(n, v). name_ok n) es \<Longrightarrow> name_ok k \<Longrightarrow> list_all (\<lambda>(n, v). name_ok n) (AList.update k v es)"
  by (induction es) auto

text \<open>The room a list of headers takes, and what setting one adds to it.\<close>

definition hdr_room :: "(u8 list \<times> u8 list) list \<Rightarrow> nat" where
  "hdr_room es = (\<Sum>(n, v) \<leftarrow> es. 4 + length n + length v)"

lemma hdr_size_room: "hdr_size h = hdr_room (hdr_abs h)"
  by (simp add: hdr_size_def hdr_room_def)

lemma room_update:
  "hdr_room (AList.update k v es) + (case map_of es k of None \<Rightarrow> 0 | Some old \<Rightarrow> 4 + length k + length old) =
   hdr_room es + 4 + length k + length v"
  by (induction es) (auto simp: hdr_room_def split: option.splits)

lemma room_joined: "hdr_room (AList.update k (joined rep es k v) es) \<le> hdr_room es + 6 + length k + length v"
  using room_update [of k "joined rep es k v" es] length_dropWhile_le [of lws v]
  by (auto simp: joined_def split: option.splits if_splits)

lemma room_entry: "(k, v) \<in> set es \<Longrightarrow> 4 + length k + length v \<le> hdr_room es"
  by (induction es) (auto simp: hdr_room_def)

lemma room_count: "4 * length es \<le> hdr_room es"
  by (induction es) (auto simp: hdr_room_def)

lemma hdr_wfE:
  assumes "hdr_wf h"
  obtains m where "headers h = Some m" "hdr_map h = m" "map_wf m" "mapFilterCallback m = None"
    "hdr_abs h = map_entries m" "map_size m = 4 * length (hdr_abs h)"
proof -
  obtain m where m: "headers h = Some m" "map_wf m" "mapFilterCallback m = None"
    using assms by (auto simp: hdr_wf_def hdr_map_def)
  obtain ks vs where rep: "map_rep m ks vs" using m(2) map_wf_rep by blast
  then have "map_size m = 4 * length (map_entries m)"
    by (simp add: map_size_def map_rep_entries) (simp add: map_rep_def)
  then show thesis using that m by (simp add: hdr_map_def hdr_abs_def)
qed

text \<open>The map is asked to store a value under a name that has been checked.\<close>

lemma wp_hdr_update:
  assumes "hdr_wf h" "cstr_block nm" "cstr_block v" "name_ok (c_str nm)" "4 * length (hdr_abs h) + 4 < SIZE_MOD"
    and failed: "\<And>m w'. \<not> plenty 4 w \<Longrightarrow> hdr_wf (h\<lparr>headers := Some m\<rparr>) \<Longrightarrow> hdr_abs (h\<lparr>headers := Some m\<rparr>) = hdr_abs h \<Longrightarrow>
      live w' = live w + hdr_blocks (Some (h\<lparr>headers := Some m\<rparr>)) - hdr_blocks (Some h) \<Longrightarrow> faults w' = faults w \<Longrightarrow>
      Q (MAP_ERROR, Some m) w'"
    and stored: "\<And>m w'. hdr_wf (h\<lparr>headers := Some m\<rparr>) \<Longrightarrow>
      hdr_abs (h\<lparr>headers := Some m\<rparr>) = AList.update (c_str nm) (c_str v) (hdr_abs h) \<Longrightarrow>
      live w' = live w + hdr_blocks (Some (h\<lparr>headers := Some m\<rparr>)) - hdr_blocks (Some h) \<Longrightarrow> faults w' = faults w \<Longrightarrow>
      Q (MAP_OK, Some m) w'"
  shows "wp (Map_AddOrUpdate (headers h) (Some nm) (Some v)) Q w"
proof -
  obtain m where m: "headers h = Some m" "map_wf m" "mapFilterCallback m = None" "hdr_abs h = map_entries m"
    "map_size m = 4 * length (hdr_abs h)" using assms(1) by (rule hdr_wfE)
  have names: "list_all (\<lambda>(n, v). name_ok n) (map_entries m)" using assms(1) m(4) by (simp add: hdr_wf_def)
  have wf: "hdr_wf (h\<lparr>headers := Some x\<rparr>) \<longleftrightarrow> map_wf x \<and> mapFilterCallback x = None \<and> list_all (\<lambda>(n, v). name_ok n) (map_entries x)"
    "hdr_abs (h\<lparr>headers := Some x\<rparr>) = map_entries x" for x
    by (auto simp: hdr_wf_def hdr_abs_def hdr_map_def)
  have "wp (map_exec (AddOrUpdate (Some nm) (Some v)) (Some m)) (map_step_ok (AddOrUpdate (Some nm) (Some v)) m w) w"
    using m assms(2,3,5) by (intro map_exec_ok) (simp_all add: str_arg_def)
  then show ?thesis
    unfolding m(1) map_exec.simps
  proof (rule wp_mono, goal_cases)
    case (1 rh w')
    then obtain r m' where rh: "rh = (r, Some m')" "map_wf m'" "faults w' = faults w"
      "live w' - live w = map_blocks (Some m') - map_blocks (Some m)" "r = MAP_ERROR \<longrightarrow> \<not> plenty 4 w"
      and s: "map_spec (AddOrUpdate (Some nm) (Some v)) r (map_entries m, None) (map_entries m', mapFilterCallback m')"
      using m(3) by (auto simp: map_step_ok_def map_oom_def map_abs_def)
    have b: "live w' = live w + hdr_blocks (Some (h\<lparr>headers := Some m'\<rparr>)) - hdr_blocks (Some h)"
      using rh(4) m(1) by (simp add: hdr_blocks_def)
    from s consider (ok) "r = MAP_OK" "map_entries m' = AList.update (c_str nm) (c_str v) (map_entries m)" "mapFilterCallback m' = None"
      | (err) "r = MAP_ERROR" "map_entries m' = map_entries m" "mapFilterCallback m' = None"
      by (auto simp: rejected_def short_of_memory_def)
    then show ?case
    proof cases
      case ok
      then show ?thesis unfolding rh(1) ok(1)
        using rh(2,3) b names names_update [OF names assms(4)] m(4) by (intro stored) (simp_all add: wf)
    next
      case err
      then show ?thesis unfolding rh(1) err(1)
        using rh(2,3,5) err b names m(4) by (intro failed) (simp_all add: wf)
    qed
  qed
qed

lemma wp_hdr_lookup:
  assumes "hdr_wf h" "is_cstr k"
    and none: "map_of (hdr_abs h) (c_str k) = None \<Longrightarrow> Q None w"
    and some: "\<And>p. is_cstr p \<Longrightarrow> map_of (hdr_abs h) (c_str k) = Some (c_str p) \<Longrightarrow> Q (Some p) w"
  shows "wp (Map_GetValueFromKey (headers h) (Some k)) Q w"
proof -
  obtain m where m: "headers h = Some m" "map_wf m" "hdr_abs h = map_entries m" using assms(1) by (rule hdr_wfE)
  obtain ks vs where rep: "map_rep m ks vs" using m(2) map_wf_rep by blast
  show ?thesis
    unfolding m(1) Map_GetValueFromKey_def option.case prod.case wp_bind
  proof (rule wp_findKey [OF rep assms(2)], goal_cases)
    case 1
    then show ?case using none map_rep_fst [OF rep] m(3) by (simp add: map_of_eq_None_iff)
  next
    case (2 j)
    then show ?case using some map_of_at [OF rep 2(1)] map_rep_slots [OF rep 2(1)] map_rep_cstr [OF rep 2(1)] m(3) by simp
  qed
qed

lemma wp_headers_join:
  assumes h: "hdr_wf h" and nm: "cstr_block nm" "name_ok (c_str nm)" and v: "is_cstr v"
    and old: "is_cstr old" "map_of (hdr_abs h) (c_str nm) = Some (c_str old)"
    and fits: "hdr_size h + length (c_str v) + 6 < SIZE_MOD"
    and failed: "\<And>r h' w'. r = HTTP_HEADERS_ALLOC_FAILED \<or> r = HTTP_HEADERS_ERROR \<Longrightarrow> \<not> plenty 5 w \<Longrightarrow> hdr_wf h' \<Longrightarrow>
      hdr_abs h' = hdr_abs h \<Longrightarrow> live w' = live w + hdr_blocks (Some h') - hdr_blocks (Some h) \<Longrightarrow> faults w' = faults w \<Longrightarrow>
      Q (r, h') w'"
    and stored: "\<And>h' w'. hdr_wf h' \<Longrightarrow> hdr_abs h' = AList.update (c_str nm) (c_str old @ [44, 32] @ c_str v) (hdr_abs h) \<Longrightarrow>
      live w' = live w + hdr_blocks (Some h') - hdr_blocks (Some h) \<Longrightarrow> faults w' = faults w \<Longrightarrow> Q (HTTP_HEADERS_OK, h') w'"
  shows "wp (headers_join h nm old v) Q w"
proof -
  let ?new = "c_str old @ [44, 32] @ c_str v @ [0]"
  have len: "length (c_str old) \<le> hdr_size h" using room_entry [OF map_of_SomeD [OF old(2)]] by (simp add: hdr_size_room)
  then have n: "szt (length (c_str old) + 2 + length (c_str v) + 1) = length (c_str old) + length (c_str v) + 3"
    using fits by simp
  have new: "c_str ?new = c_str old @ [44, 32] @ c_str v" "cstr_block ?new"
    using c_str_append_zero [of "c_str old @ [44, 32] @ c_str v" "[]"] len fits
      is_cstr_append_zero [of "c_str old @ [44, 32] @ c_str v" "[]"] by (simp_all add: cstr_block_def)
  have size: "4 * length (hdr_abs h) + 4 < SIZE_MOD" using fits room_count [of "hdr_abs h"] by (simp add: hdr_size_room)
  show ?thesis
    unfolding headers_join_def wp_bind wp_strlen [OF old(1)] wp_strlen [OF v] n
  proof (rule wp_malloc, goal_cases)
    case (1 w1)
    then show ?case using failed [of _ h w1] h not_plenty_next [of w 5] by simp
  next
    case (2 bs w1)
    show ?case
      unfolding option.case wp_write_pair [OF old(1) v 2(1)] unfolding wp_bind
    proof (rule wp_hdr_update [OF h nm(1) new(2) nm(2) size], goal_cases)
      case (1 m w2)
      then have "\<not> plenty 5 w" using 2 not_plenty_tl [of w1 w 5] by simp
      then show ?case using 1 2 failed by simp
    next
      case (2 m w2)
      then show ?case using \<open>live w1 = _\<close> \<open>faults w1 = _\<close> new(1) stored by simp
    qed
  qed
qed

lemma hdr_step_kept:
  assumes "hdr_wf h'" "hdr_abs h' = hdr_abs h" "live w' = live w + hdr_blocks (Some h') - hdr_blocks (Some h)"
    "faults w' = faults w" "hdr_spec op r (hdr_abs h) (hdr_abs h)" "hdr_oom op r (hdr_abs h) \<Longrightarrow> \<not> plenty 5 w"
  shows "hdr_step_ok op h w (r, Some h') w'"
  using assms by (simp add: hdr_step_ok_def hdr_size_def)

definition hdr_set :: "bool \<Rightarrow> u8 list option \<Rightarrow> u8 list option \<Rightarrow> hdr_op" where
  "hdr_set replace n v = (if replace then ReplaceHeader n v else AddHeader n v)"

lemma hdr_set_simps:
  "hdr_exec (hdr_set rep n v) h = headers_ReplaceHeaderNameValuePair h n v rep"
  "hdr_growth (hdr_set rep n v) = 6 + length (c_str (blk n)) + length (c_str (blk v))"
  "hdr_args_ok (hdr_set rep n v) \<longleftrightarrow> str_arg n \<and> str_arg v"
  "hdr_spec (hdr_set rep (Some nm) (Some vl)) r es es' = hdr_set_spec rep (c_str nm) (c_str vl) r es es'"
  "n = None \<or> v = None \<Longrightarrow> hdr_spec (hdr_set rep n v) r es es' \<longleftrightarrow> r = HTTP_HEADERS_INVALID_ARG \<and> es' = es"
  by (auto simp: hdr_set_def HTTPHeaders_AddHeaderNameValuePair_def HTTPHeaders_ReplaceHeaderNameValuePair_def)

lemma hdr_step_stored:
  assumes "hdr_wf h'" "name_ok (c_str nm)"
    "hdr_abs h' = AList.update (c_str nm) (joined rep (hdr_abs h) (c_str nm) (c_str vl)) (hdr_abs h)"
    "live w' = live w + hdr_blocks (Some h') - hdr_blocks (Some h)" "faults w' = faults w"
  shows "hdr_step_ok (hdr_set rep (Some nm) (Some vl)) h w (HTTP_HEADERS_OK, Some h') w'"
  using assms room_joined [of "c_str nm" rep "hdr_abs h" "c_str vl"]
  by (simp add: hdr_step_ok_def hdr_set_simps hdr_set_spec_def hdr_size_room hdr_oom_def)

lemma hdr_step_failed:
  assumes "r = HTTP_HEADERS_ALLOC_FAILED \<or> r = HTTP_HEADERS_ERROR \<and> \<not> rep \<and> c_str nm \<in> fst ` set (hdr_abs h)"
    "name_ok (c_str nm)" "\<not> plenty 5 w" "hdr_wf h'" "hdr_abs h' = hdr_abs h"
    "live w' = live w + hdr_blocks (Some h') - hdr_blocks (Some h)" "faults w' = faults w"
  shows "hdr_step_ok (hdr_set rep (Some nm) (Some vl)) h w (r, Some h') w'"
  using assms by (intro hdr_step_kept) (auto simp: hdr_set_simps hdr_set_spec_def)

text \<open>The two ways a header is stored, in the place they have in \<open>headers_ReplaceHeaderNameValuePair\<close>.\<close>

lemma store_step:
  assumes h: "hdr_wf h" and nm: "cstr_block nm" "name_ok (c_str nm)" and vl: "cstr_block vl"
    and fits: "hdr_size h + length (c_str vl) + 6 < SIZE_MOD" and fresh: "rep \<or> map_of (hdr_abs h) (c_str nm) = None"
  shows "wp (do { (r, m) \<leftarrow> Map_AddOrUpdate (headers h) (Some nm) (Some (dropWhile lws vl));
       ret (if r \<noteq> MAP_OK then HTTP_HEADERS_ALLOC_FAILED else HTTP_HEADERS_OK, Some (h\<lparr>headers := m\<rparr>)) })
     (hdr_step_ok (hdr_set rep (Some nm) (Some vl)) h w) w"
proof -
  have v: "c_str (dropWhile lws vl) = dropWhile lws (c_str vl)"
    using vl by (intro skip_lws_cstr) (simp add: cstr_block_def)
  have size: "4 * length (hdr_abs h) + 4 < SIZE_MOD" using fits room_count [of "hdr_abs h"] by (simp add: hdr_size_room)
  show ?thesis
    unfolding wp_bind
  proof (rule wp_hdr_update [OF h nm(1) cstr_block_skip [OF vl] nm(2) size], goal_cases)
    case (1 m w')
    then have "\<not> plenty 5 w" using plenty_le [of 5 w 4] by auto
    then have "hdr_step_ok (hdr_set rep (Some nm) (Some vl)) h w (HTTP_HEADERS_ALLOC_FAILED, Some (h\<lparr>headers := Some m\<rparr>)) w'"
      using 1 nm(2) by (intro hdr_step_failed) simp_all
    then show ?case by simp
  next
    case (2 m w')
    then have "hdr_step_ok (hdr_set rep (Some nm) (Some vl)) h w (HTTP_HEADERS_OK, Some (h\<lparr>headers := Some m\<rparr>)) w'"
      using fresh nm(2) v by (intro hdr_step_stored) (auto simp: joined_def split: option.splits)
    then show ?case by simp
  qed
qed

lemma join_step:
  assumes h: "hdr_wf h" and nm: "cstr_block nm" "name_ok (c_str nm)" and vl: "cstr_block vl"
    and fits: "hdr_size h + length (c_str vl) + 6 < SIZE_MOD" and rep: "\<not> rep"
    and old: "is_cstr old" "map_of (hdr_abs h) (c_str nm) = Some (c_str old)"
  shows "wp (do { (r, hd) \<leftarrow> headers_join h nm old (dropWhile lws vl); ret (r, Some hd) })
     (hdr_step_ok (hdr_set rep (Some nm) (Some vl)) h w) w"
proof -
  have "is_cstr vl" using vl by (simp add: cstr_block_def)
  note v = skip_lws_cstr(1,2) [OF this]
  have size: "hdr_size h + length (c_str (dropWhile lws vl)) + 6 < SIZE_MOD"
    using fits length_dropWhile_le [of lws "c_str vl"] v(2) by simp
  show ?thesis
    unfolding wp_bind
  proof (rule wp_headers_join [OF h nm v(1) old size], goal_cases)
    case (1 r h' w')
    then have "hdr_step_ok (hdr_set rep (Some nm) (Some vl)) h w (r, Some h') w'"
      using nm(2) rep map_of_SomeD [OF old(2)] by (intro hdr_step_failed) (force simp: image_iff)+
    then show ?case by simp
  next
    case (2 h' w')
    then have "hdr_step_ok (hdr_set rep (Some nm) (Some vl)) h w (HTTP_HEADERS_OK, Some h') w'"
      using nm(2) rep old v(2) by (intro hdr_step_stored) (simp_all add: joined_def)
    then show ?case by simp
  qed
qed

lemma named_step:
  assumes h: "hdr_wf h" and nm: "cstr_block nm" "name_ok (c_str nm)" and vl: "cstr_block vl"
    and fits: "hdr_size h + length (c_str vl) + 6 < SIZE_MOD"
  shows "wp (headers_ReplaceHeaderNameValuePair (Some h) (Some nm) (Some vl) rep) (hdr_step_ok (hdr_set rep (Some nm) (Some vl)) h w) w"
proof -
  let ?ok = "hdr_step_ok (hdr_set rep (Some nm) (Some vl)) h w"
  have cs: "is_cstr nm" "is_cstr vl" using nm vl by (simp_all add: cstr_block_def)
  have skip: "wp (skip_lws vl) Q = Q (dropWhile lws vl)" for Q
    by (rule ext) (rule skip_lws_cstr(3) [OF cs(2)])
  have "\<not> length (takeWhile (\<lambda>c. 33 \<le> c \<and> c \<le> 126 \<and> c \<noteq> 58) (c_str nm)) < length (c_str nm)"
    using nm(2) by (simp add: takeWhile_short name_ok_def)
  then have "wp (headers_ReplaceHeaderNameValuePair (Some h) (Some nm) (Some vl) rep) ?ok w =
    wp (Map_GetValueFromKey (headers h) (Some nm)) (\<lambda>old. wp (
      if \<not> rep \<and> old \<noteq> None
      then do { (r, hd) \<leftarrow> headers_join h nm (blk old) (dropWhile lws vl); ret (r, Some hd) }
      else do { (r, m) \<leftarrow> Map_AddOrUpdate (headers h) (Some nm) (Some (dropWhile lws vl));
        ret (if r \<noteq> MAP_OK then HTTP_HEADERS_ALLOC_FAILED else HTTP_HEADERS_OK, Some (h\<lparr>headers := m\<rparr>)) }) ?ok) w"
    unfolding headers_ReplaceHeaderNameValuePair_def
    by (simp add: cs wp_name_checked skip wp_bind_eta)
  also have "\<dots>"
  proof (rule wp_hdr_lookup [OF h cs(1)], goal_cases)
    case 1
    then show ?case using store_step [OF h nm vl fits] by (simp del: wp_bind)
  next
    case (2 p)
    then show ?case using store_step [OF h nm vl fits] join_step [OF h nm vl fits _ 2] by (cases rep) (simp_all del: wp_bind)
  qed
  finally show ?thesis .
qed

lemma headers_Replace_step:
  assumes h: "hdr_wf h" and args: "str_arg name" "str_arg val"
    and fits: "hdr_size h + length (c_str (blk val)) + 6 < SIZE_MOD"
  shows "wp (headers_ReplaceHeaderNameValuePair (Some h) name val rep) (hdr_step_ok (hdr_set rep name val) h w) w"
proof (cases "name = None \<or> val = None")
  case True
  then have "hdr_step_ok (hdr_set rep name val) h w (HTTP_HEADERS_INVALID_ARG, Some h) w"
    using h by (intro hdr_step_kept) (simp_all add: hdr_set_simps hdr_oom_def)
  with True show ?thesis
    by (auto simp: headers_ReplaceHeaderNameValuePair_def split: option.splits)
next
  case False
  then obtain nm vl where nv: "name = Some nm" "val = Some vl" by auto
  have cb: "cstr_block nm" "cstr_block vl" using args nv by (simp_all add: str_arg_def)
  show ?thesis
  proof (cases "name_ok (c_str nm)")
    case True
    then show ?thesis using named_step [OF h cb(1) True cb(2)] fits nv by simp
  next
    case False
    then have "hdr_step_ok (hdr_set rep (Some nm) (Some vl)) h w (HTTP_HEADERS_INVALID_ARG, Some h) w"
      using h by (intro hdr_step_kept) (simp_all add: hdr_set_simps hdr_set_spec_def hdr_oom_def)
    moreover have "length (takeWhile (\<lambda>c. 33 \<le> c \<and> c \<le> 126 \<and> c \<noteq> 58) (c_str nm)) < length (c_str nm)"
      using False by (simp add: takeWhile_short name_ok_def)
    moreover have "is_cstr nm" using cb by (simp add: cstr_block_def)
    ultimately show ?thesis
      by (simp add: headers_ReplaceHeaderNameValuePair_def nv wp_name_checked)
  qed
qed

section \<open>The contract\<close>

lemma hdr_exec_ok:
  assumes "hdr_wf h" "hdr_args_ok op" "hdr_size h + hdr_growth op < SIZE_MOD"
  shows "wp (hdr_exec op (Some h)) (hdr_step_ok op h w) w"
proof -
  obtain rep n v where op: "op = hdr_set rep n v"
    by (cases op) (metis hdr_set_def)+
  show ?thesis
    using assms headers_Replace_step [of h n v rep w] by (simp add: op hdr_set_simps)
qed

interpretation hd: c_owned hdr_exec hdr_wf hdr_abs hdr_size hdr_blocks hdr_args_ok hdr_growth "\<lambda>_. 5"
  hdr_spec hdr_oom HTTPHeaders_Alloc 2 HTTPHeaders_Free "[]"
proof (unfold_locales, goal_cases)
  case (1 h op w)
  show ?case using hdr_exec_ok [OF 1, of w] by (simp only: hdr_step_ok_def)
next
  case (2 w)
  show ?case
    unfolding HTTPHeaders_Alloc_def wp_bind
  proof (rule wp_new, goal_cases)
    case (1 w1)
    then show ?case by (simp add: not_plenty_next)
  next
    case (2 w1)
    show ?case
    proof (simp, rule wp_Map_Create, goal_cases)
      case (1 w2)
      then show ?case using 2 not_plenty_tl [of w1 w 2] by (simp add: not_plenty_next)
    next
      case (2 m w2)
      then show ?case
        using \<open>live w1 = _\<close> \<open>faults w1 = _\<close> map_rep_wf [OF 2(1)] map_rep_entries [OF 2(1)] map_rep_count [OF 2(1)]
        by (simp add: hdr_wf_def hdr_abs_def hdr_map_def hdr_size_def hdr_blocks_def map_blocks_def)
    qed
  qed
next
  case (3 h w)
  show ?case
  proof (cases h)
    case (Some x)
    with 3 obtain m where m: "headers x = Some m" "map_wf m" by (auto elim: hdr_wfE)
    with Some show ?thesis by (simp add: HTTPHeaders_Free_def wp_Map_Destroy hdr_blocks_def)
  qed (simp add: HTTPHeaders_Free_def hdr_blocks_def)
qed

section \<open>Reading the collection\<close>

lemma wp_header_line:
  assumes "is_cstr k" "is_cstr v" "length (c_str k) + length (c_str v) + 3 < SIZE_MOD"
    and "\<And>w'. \<not> plenty 1 w \<Longrightarrow> live w' = live w \<Longrightarrow> faults w' = faults w \<Longrightarrow> Q None w'"
    and "\<And>w'. live w' = live w + 1 \<Longrightarrow> faults w' = faults w \<Longrightarrow> Q (Some (c_str k @ [58, 32] @ c_str v @ [0])) w'"
  shows "wp (header_line k v) Q w"
proof -
  have n: "szt (length (c_str k) + 2 + length (c_str v) + 1) = length (c_str k) + length (c_str v) + 3"
    using assms(3) by simp
  show ?thesis
    unfolding header_line_def wp_bind wp_strlen [OF assms(1)] wp_strlen [OF assms(2)] n
  proof (rule wp_malloc, goal_cases)
    case (2 bs w1)
    then show ?case unfolding option.case wp_write_pair [OF assms(1,2) 2(1)] using assms(5) by simp
  qed (simp add: assms(4) not_plenty_next)
qed

text \<open>A reader of header lines: the name is what comes before the first colon, the value what comes after the blank
  that must follow it.\<close>

definition header_parse :: "u8 list \<Rightarrow> (u8 list \<times> u8 list) option" where
  "header_parse l = (case dropWhile (\<lambda>c. c \<noteq> 58) l of
     colon # blank # v \<Rightarrow> if blank = 32 then Some (takeWhile (\<lambda>c. c \<noteq> 58) l, v) else None
   | _ \<Rightarrow> None)"

lemma header_parse_line:
  assumes "name_ok n"
  shows "header_parse (n @ [58, 32] @ v) = Some (n, v)"
proof -
  have "dropWhile (\<lambda>c. c \<noteq> 58) (n @ [58, 32] @ v) = [58, 32] @ v" "takeWhile (\<lambda>c. c \<noteq> 58) (n @ [58, 32] @ v) = n"
    using assms by (induction n) (auto simp: name_ok_def)
  then show ?thesis by (simp add: header_parse_def)
qed

lemma name_ok_nozero: "name_ok n \<Longrightarrow> 0 \<notin> set n"
  by (auto simp: name_ok_def list_all_iff)

text \<open>What \<open>HTTPHeaders_GetHeader\<close> reports for a collection that holds \<open>es\<close>: the name, a colon, a blank and the value.\<close>

definition header_ok :: "(u8 list \<times> u8 list) list \<Rightarrow> nat \<Rightarrow> HTTP_HEADERS_RESULT \<Rightarrow> u8 list option option \<Rightarrow> bool" where
  "header_ok es i r d \<longleftrightarrow>
     (if length es \<le> i then r = HTTP_HEADERS_INVALID_ARG \<and> d = None
      else case d of
             None \<Rightarrow> False
           | Some None \<Rightarrow> r = HTTP_HEADERS_ERROR
           | Some (Some b) \<Rightarrow> r = HTTP_HEADERS_OK \<and> b = fst (es ! i) @ [58, 32] @ snd (es ! i) @ [0] \<and>
               header_parse (c_str b) = Some (es ! i))"

lemma wp_GetHeader:
  assumes "hdr_wf h" "hdr_size h < SIZE_MOD"
  shows "wp (HTTPHeaders_GetHeader (Some h) i True) (\<lambda>(r, d) w'. faults w' = faults w \<and>
     live w' = live w + (if r = HTTP_HEADERS_OK then 1 else 0) \<and> header_ok (hdr_abs h) i r d \<and>
     (r = HTTP_HEADERS_ERROR \<longrightarrow> \<not> plenty 1 w)) w"
proof -
  obtain m where m: "headers h = Some m" "map_wf m" "hdr_abs h = map_entries m" using assms(1) by (rule hdr_wfE)
  obtain ks vs where rep: "map_rep m ks vs" using m(2) map_wf_rep by blast
  have n: "length (map_entries m) = length ks" "mcount m = length ks"
    using rep by (simp_all add: map_rep_entries [OF rep]) (simp_all add: map_rep_def)
  show ?thesis
  proof (cases "i < length ks")
    case True
    note s = map_rep_slots [OF rep True] map_rep_cstr(1,2) [OF rep True]
    have e: "map_entries m ! i = (c_str (ks ! i), c_str (vs ! i))"
      using True n rep by (simp add: map_rep_entries [OF rep])
    then have mem: "(c_str (ks ! i), c_str (vs ! i)) \<in> set (hdr_abs h)" using True n m(3) by (metis nth_mem)
    then have nm: "name_ok (c_str (ks ! i))" using assms(1) by (auto simp: hdr_wf_def list_all_iff)
    have len: "length (c_str (ks ! i)) + length (c_str (vs ! i)) + 3 < SIZE_MOD"
      using room_entry [OF mem] assms(2) by (simp add: hdr_size_room)
    have line: "c_str (c_str (ks ! i) @ 58 # 32 # c_str (vs ! i) @ [0]) = c_str (ks ! i) @ [58, 32] @ c_str (vs ! i)"
      "is_cstr (c_str (ks ! i) @ 58 # 32 # c_str (vs ! i) @ [0])"
      using c_str_append_zero [of "c_str (ks ! i) @ [58, 32] @ c_str (vs ! i)" "[]"] by (simp_all add: is_cstr_def)
    have "wp (HTTPHeaders_GetHeader (Some h) i True) Q w =
        wp (header_line (ks ! i) (vs ! i)) (\<lambda>d. Q (if d = None then HTTP_HEADERS_ERROR else HTTP_HEADERS_OK, Some d)) w" for Q
      using True s n m(1) by (simp add: HTTPHeaders_GetHeader_def Map_GetInternals_def)
    then show ?thesis
      using e n True line
      by (simp, intro wp_header_line [OF s(5,6) len]) (simp_all add: header_ok_def m(3) header_parse_line [OF nm, simplified])
  next
    case False
    then show ?thesis
      unfolding HTTPHeaders_GetHeader_def Map_GetInternals_def using n m(1,3) by (simp add: header_ok_def)
  qed
qed

text \<open>Counting, looking up and copying.\<close>

lemma headers_read:
  assumes "hdr_wf h"
  shows "HTTPHeaders_GetHeaderCount (Some h) True = (HTTP_HEADERS_OK, Some (length (hdr_abs h)))"
    and "is_cstr k \<Longrightarrow> wp (HTTPHeaders_FindHeaderValue (Some h) (Some k)) (\<lambda>p w'. w' = w \<and> map_option c_str p = map_of (hdr_abs h) (c_str k)) w"
proof -
  obtain m where m: "headers h = Some m" "map_wf m" "hdr_abs h = map_entries m" "map_size m = 4 * length (hdr_abs h)"
    using assms by (rule hdr_wfE)
  then show "HTTPHeaders_GetHeaderCount (Some h) True = (HTTP_HEADERS_OK, Some (length (hdr_abs h)))"
    by (simp add: HTTPHeaders_GetHeaderCount_def Map_GetInternals_def map_size_def)
  show "wp (HTTPHeaders_FindHeaderValue (Some h) (Some k)) (\<lambda>p w'. w' = w \<and> map_option c_str p = map_of (hdr_abs h) (c_str k)) w"
    if "is_cstr k"
    using wp_Map_GetValueFromKey [OF m(2) that] m by (simp add: HTTPHeaders_FindHeaderValue_def)
qed

lemma headers_cloned:
  assumes "hdr_wf h"
  shows "wp (HTTPHeaders_Clone (Some h)) (\<lambda>c w'. faults w' = faults w \<and> live w' = live w + hdr_blocks c \<and>
     (case c of None \<Rightarrow> \<not> plenty (2 * length (hdr_abs h) + 4) w | Some h' \<Rightarrow> hdr_wf h' \<and> hdr_abs h' = hdr_abs h)) w"
proof -
  obtain m where m: "headers h = Some m" "map_wf m" "mapFilterCallback m = None" "hdr_abs h = map_entries m"
    "map_size m = 4 * length (hdr_abs h)" using assms by (rule hdr_wfE)
  have names: "list_all (\<lambda>(n, v). name_ok n) (map_entries m)" using assms m(4) by (simp add: hdr_wf_def)
  show ?thesis
    unfolding HTTPHeaders_Clone_def option.case m(1) wp_bind
  proof (rule wp_new, goal_cases)
    case (1 w1)
    then show ?case by (simp add: hdr_blocks_def not_plenty_next)
  next
    case (2 w1)
    show ?case
    proof (simp, rule wp_mono [OF Map_Clone_copies [OF m(2)]], goal_cases)
      case (1 c w2)
      then show ?case
        using 2 m names not_plenty_tl [of w1 w "2 * length (hdr_abs h) + 4"]
        by (cases c) (auto simp: map_size_def hdr_blocks_def hdr_wf_def hdr_abs_def hdr_map_def algebra_simps)
    qed
  qed
qed

section \<open>Properties\<close>

text \<open>C22. Any sequence of \<open>HTTPHeaders_AddHeaderNameValuePair\<close> and \<open>HTTPHeaders_ReplaceHeaderNameValuePair\<close> on a
  well-formed collection, whatever the allocator does: the names stay distinct and free of colons, blanks and control
  characters, no access is out of bounds, every block is accounted for, and the statuses and headers are those of an
  association list in which adding joins the values with a comma; a call that is refused or runs out of memory
  changes no header.\<close>

theorem headers_calls_refine:
  assumes "hdr_wf h" "\<forall>op \<in> set ops. hdr_args_ok op" "hdr_size h + sum_list (map hdr_growth ops) < SIZE_MOD"
  shows "wp (run_ops hdr_exec ops (Some h)) (\<lambda>(rs, h1) w'. \<exists>h'. h1 = Some h' \<and> hdr_wf h' \<and>
           faults w' = faults w \<and> live w' - live w = hdr_blocks (Some h') - hdr_blocks (Some h) \<and>
           spec_run hdr_spec ops rs (hdr_abs h) (hdr_abs h')) w"
  using assms by (rule hd.run_correct)

theorem headers_calls_refine_witness:
  "wp (run_ops hdr_exec [AddHeader (Some [65, 0]) (Some [32, 49, 0]), AddHeader (Some [65, 0]) (Some [50, 0]), AddHeader (Some [58, 0]) (Some [0])]
         (Some \<lparr>headers = Some \<lparr>mkeys = None, mvalues = None, mcount = 0, mapFilterCallback = None\<rparr>\<rparr>))
     (\<lambda>(rs, h1) w'. faults w' = 0 \<and> (rs = [HTTP_HEADERS_OK, HTTP_HEADERS_OK, HTTP_HEADERS_INVALID_ARG] \<longrightarrow>
        (\<exists>h'. h1 = Some h' \<and> live w' = 6 \<and> hdr_abs h' = [([65], [49, 44, 32, 50])])))
     \<lparr>avail = replicate 6 (Some (\<lambda>_. 0)), live = 2, faults = 0\<rparr>"
proof (rule wp_mono [OF headers_calls_refine], goal_cases)
  case (4 rh w')
  then obtain rs h' where h: "rh = (rs, Some h')" "hdr_wf h'" "faults w' = 0" "live w' = hdr_blocks (Some h')"
    and s: "spec_run hdr_spec [AddHeader (Some [65, 0]) (Some [32, 49, 0]), AddHeader (Some [65, 0]) (Some [50, 0]), AddHeader (Some [58, 0]) (Some [0])]
      rs [] (hdr_abs h')"
    by (auto simp: hdr_blocks_def map_blocks_def hdr_abs_def hdr_map_def map_entries_def simp del: spec_run.simps)
  have e: "hdr_abs h' = [([65], [49, 44, 32, 50])]" if "rs = [HTTP_HEADERS_OK, HTTP_HEADERS_OK, HTTP_HEADERS_INVALID_ARG]"
    using s unfolding that by (auto simp: hdr_set_spec_def name_ok_def c_str_def joined_def lws_def)
  obtain m where m: "headers h' = Some m" "map_size m = 4 * length (hdr_abs h')" using h(2) by (rule hdr_wfE)
  have "live w' = 6" if "hdr_abs h' = [([65], [49, 44, 32, 50])]"
    using h(4) m that by (simp add: hdr_blocks_def map_blocks_def map_size_def)
  with e h show ?case by auto
qed (auto simp: hdr_wf_def hdr_map_def hdr_abs_def map_wf_def map_rep_def map_entries_def hdr_size_def str_arg_def
  cstr_block_def SIZE_MOD_def is_cstr_def c_str_def)

text \<open>C23. Each header can be had back as a line: after any of the calls, \<open>HTTPHeaders_GetHeader\<close> gives for every index a
  fresh string, the name, \<open>": "\<close> and the value that the association list has there, which reads back as these two; it refuses an
  index outside the list, and fails with \<open>HTTP_HEADERS_ERROR\<close> only when no block is to be had at that moment.\<close>

theorem headers_read_back:
  assumes "hdr_wf h" "\<forall>op \<in> set ops. hdr_args_ok op" "hdr_size h + sum_list (map hdr_growth ops) < SIZE_MOD"
  shows "wp (run_ops hdr_exec ops (Some h)) (\<lambda>(rs, h1) w1. wp (HTTPHeaders_GetHeader h1 i True) (\<lambda>(r, d) w'.
      faults w' = faults w \<and> live w' = live w1 + (if r = HTTP_HEADERS_OK then 1 else 0) \<and>
      (\<exists>es. spec_run hdr_spec ops rs (hdr_abs h) es \<and> header_ok es i r d) \<and> (r = HTTP_HEADERS_ERROR \<longrightarrow> \<not> plenty 1 w1)) w1) w"
proof (rule wp_mono [OF hd.run_bounded [OF assms]], goal_cases)
  case (1 rh w1)
  then obtain rs h' where h': "rh = (rs, Some h')" "hdr_wf h'" "hdr_size h' < SIZE_MOD" "faults w1 = faults w"
    "spec_run hdr_spec ops rs (hdr_abs h) (hdr_abs h')" using assms(3) by auto
  show ?case
    unfolding h'(1) prod.case by (rule wp_mono [OF wp_GetHeader [OF h'(2,3)]]) (use h'(4,5) in auto)
qed

theorem headers_read_back_witness:
  "wp (run_ops hdr_exec [ReplaceHeader (Some [65, 0]) (Some [49, 58, 0])]
         (Some \<lparr>headers = Some \<lparr>mkeys = None, mvalues = None, mcount = 0, mapFilterCallback = None\<rparr>\<rparr>))
     (\<lambda>(rs, h1) w1. wp (HTTPHeaders_GetHeader h1 0 True) (\<lambda>(r, d) w'. faults w' = 0 \<and>
        (rs = [HTTP_HEADERS_OK] \<and> plenty 1 w1 \<longrightarrow> d = Some (Some [65, 58, 32, 49, 58, 0]))) w1)
     \<lparr>avail = replicate 5 (Some (\<lambda>_. 0)), live = 2, faults = 0\<rparr>"
proof (rule wp_mono [OF headers_read_back [where i = 0]], goal_cases)
  case (4 out w1)
  have "wp (HTTPHeaders_GetHeader (snd out) 0 True) (\<lambda>(r, d) w'. faults w' = 0 \<and>
      (fst out = [HTTP_HEADERS_OK] \<and> plenty 1 w1 \<longrightarrow> d = Some (Some [65, 58, 32, 49, 58, 0]))) w1"
    by (rule wp_mono [OF 4 [unfolded split_def]])
      (auto simp: hdr_set_spec_def name_ok_def c_str_def joined_def lws_def header_ok_def hdr_abs_def hdr_map_def map_entries_def
        neq_Nil_conv elim!: spec_run.elims split: option.splits)
  then show ?case by (simp add: split_def)
qed (auto simp: hdr_wf_def hdr_map_def hdr_abs_def map_wf_def map_rep_def map_entries_def hdr_size_def str_arg_def
  cstr_block_def SIZE_MOD_def is_cstr_def c_str_def)

end
