(* ===== verification/HttpSas.thy ===== *)
theory HttpSas
  imports HttpHeaders SasToken
begin

text \<open>
  Requests that carry a shared access signature: \<open>c-utility/src/httpapiexsas.c\<close>. An object keeps a key, a scope and a key
  name; before a request is executed, the \<open>Authorization\<close> header, if there is one, gets a token that is valid for another
  hour. The time of day is an argument; so is \<open>HTTPAPIEX_ExecuteRequest\<close>, as a computation from the header
  collection it is handed (its other arguments are passed through as they are).
\<close>

record HTTPAPIEX_SAS_STATE =
  sas_key :: "STRING option"
  uriResource :: "STRING option"
  sas_keyName :: "STRING option"

section \<open>The operations\<close>

definition HTTPAPIEX_SAS_Destroy :: "HTTPAPIEX_SAS_STATE option \<Rightarrow> unit cm" where
  "HTTPAPIEX_SAS_Destroy handle =
     (case handle of
        None \<Rightarrow> ret ()
      | Some state \<Rightarrow> do {
          (if sas_key state \<noteq> None then STRING_delete (sas_key state) else ret ());
          (if uriResource state \<noteq> None then STRING_delete (uriResource state) else ret ());
          (if sas_keyName state \<noteq> None then STRING_delete (sas_keyName state) else ret ());
          c_free handle
        })"

text \<open>The chain of \<open>||\<close> that fills the fields: the first failure ends it.\<close>

definition sas_fields :: "STRING option \<Rightarrow> STRING option \<Rightarrow> STRING option \<Rightarrow> (bool \<times> HTTPAPIEX_SAS_STATE) cm" where
  "sas_fields key uri keyName = do {
     k \<leftarrow> STRING_clone key;
     let s1 = \<lparr>sas_key = k, uriResource = None, sas_keyName = None\<rparr>;
     if k = None then ret (True, s1)
     else do {
       u \<leftarrow> STRING_clone uri;
       let s2 = s1\<lparr>uriResource := u\<rparr>;
       if u = None then ret (True, s2)
       else do {
         n \<leftarrow> STRING_clone keyName;
         ret (n = None, s2\<lparr>sas_keyName := n\<rparr>)
       }
     }
   }"

definition HTTPAPIEX_SAS_Create ::
    "STRING option \<Rightarrow> STRING option \<Rightarrow> STRING option \<Rightarrow> HTTPAPIEX_SAS_STATE option cm" where
  "HTTPAPIEX_SAS_Create key uri keyName =
     (if key = None then ret None
      else if uri = None then ret None
      else if keyName = None then ret None
      else do {
        ok \<leftarrow> c_new;
        if \<not> ok then ret None
        else do {
          (failed, state) \<leftarrow> sas_fields key uri keyName;
          if failed then do { HTTPAPIEX_SAS_Destroy (Some state); ret None }
          else ret (Some state)
        }
      })"

text \<open>\<open>(size_t) (difftime (currentTime, 0) + 3600)\<close>: a number of seconds outside the range of \<open>size_t\<close> is undefined.\<close>

definition sas_expiry :: "int \<Rightarrow> u32 cm" where
  "sas_expiry currentTime = do {
     c_assert (0 \<le> currentTime + 3600 \<and> currentTime + 3600 < 4294967296);
     ret (word_of_int (currentTime + 3600))
   }"

text \<open>What is done to the headers before the request: every failure on the way falls through to it.\<close>

definition sas_refresh ::
    "HTTPAPIEX_SAS_STATE option \<Rightarrow> HTTP_HEADERS_HANDLE_DATA option \<Rightarrow> int \<Rightarrow> HMACContext \<Rightarrow> hmac_locals \<Rightarrow>
     HTTP_HEADERS_HANDLE_DATA option cm" where
  "sas_refresh sasHandle requestHttpHeadersHandle currentTime ctx loc =
     (case sasHandle of
        None \<Rightarrow> ret requestHttpHeadersHandle
      | Some state \<Rightarrow>
          if requestHttpHeadersHandle = None then ret requestHttpHeadersHandle
          else do {
            present \<leftarrow> HTTPHeaders_FindHeaderValue requestHttpHeadersHandle (Some (clit ''Authorization''));
            if present = None then ret requestHttpHeadersHandle
            else if currentTime = -1 then ret requestHttpHeadersHandle
            else do {
              expiry \<leftarrow> sas_expiry currentTime;
              newSASToken \<leftarrow> SASToken_Create (sas_key state) (uriResource state) (sas_keyName state) expiry ctx loc;
              if newSASToken \<noteq> None
              then do {
                (r, h) \<leftarrow> HTTPHeaders_ReplaceHeaderNameValuePair requestHttpHeadersHandle (Some (clit ''Authorization''))
                             (STRING_c_str newSASToken);
                STRING_delete newSASToken;
                ret h
              }
              else ret requestHttpHeadersHandle
            }
          })"

definition HTTPAPIEX_SAS_ExecuteRequest ::
    "HTTPAPIEX_SAS_STATE option \<Rightarrow> HTTP_HEADERS_HANDLE_DATA option \<Rightarrow> int \<Rightarrow> HMACContext \<Rightarrow> hmac_locals \<Rightarrow>
     (HTTP_HEADERS_HANDLE_DATA option \<Rightarrow> 'r cm) \<Rightarrow> 'r cm" where
  "HTTPAPIEX_SAS_ExecuteRequest sasHandle requestHttpHeadersHandle currentTime ctx loc execute = do {
     h \<leftarrow> sas_refresh sasHandle requestHttpHeadersHandle currentTime ctx loc;
     execute h
   }"

section \<open>Creating and destroying\<close>

definition sas_state_ok :: "HTTPAPIEX_SAS_STATE \<Rightarrow> u8 list \<Rightarrow> u8 list \<Rightarrow> u8 list \<Rightarrow> bool" where
  "sas_state_ok s key scope name \<longleftrightarrow>
     sas_key s = Some (mkstr key) \<and> uriResource s = Some (mkstr scope) \<and> sas_keyName s = Some (mkstr name) \<and>
     0 \<notin> set key \<and> 0 \<notin> set scope \<and> 0 \<notin> set name"

definition sas_state_blocks :: "HTTPAPIEX_SAS_STATE option \<Rightarrow> int" where
  "sas_state_blocks s = (case s of None \<Rightarrow> 0
     | Some x \<Rightarrow> 1 + str_blocks (sas_key x) + str_blocks (uriResource x) + str_blocks (sas_keyName x))"

lemma wp_SAS_Destroy: "wp (HTTPAPIEX_SAS_Destroy h) Q w = Q () (w\<lparr>live := live w - sas_state_blocks h\<rparr>)"
proof -
  have field: "wp (if x \<noteq> None then STRING_delete x else ret ()) R v = R () (v\<lparr>live := live v - str_blocks x\<rparr>)" for x R v
    by (cases x) (simp_all add: str_blocks_def)
  show ?thesis
    by (cases h) (simp_all add: HTTPAPIEX_SAS_Destroy_def field sas_state_blocks_def str_blocks_def algebra_simps)
qed

lemma wp_sas_fields:
  assumes "str_wf key" "str_wf uri" "str_wf name" "length (str_val key) + 1 < SIZE_MOD" "length (str_val uri) + 1 < SIZE_MOD"
    "length (str_val name) + 1 < SIZE_MOD"
    and failed: "\<And>s w'. \<not> plenty 6 w \<Longrightarrow> live w' = live w - 1 + sas_state_blocks (Some s) \<Longrightarrow> faults w' = faults w \<Longrightarrow> Q (True, s) w'"
    and made: "\<And>s w'. sas_state_ok s (str_val key) (str_val uri) (str_val name) \<Longrightarrow> live w' = live w - 1 + sas_state_blocks (Some s) \<Longrightarrow>
      faults w' = faults w \<Longrightarrow> Q (False, s) w'"
  shows "wp (sas_fields (Some key) (Some uri) (Some name)) Q w"
  unfolding sas_fields_def wp_bind Let_def
proof (rule wp_STRING_clone [OF assms(1,4)], goal_cases)
  case (1 w1)
  then show ?case using plenty_le [of 6 w 2] by (auto simp: sas_state_blocks_def str_blocks_def intro!: failed)
next
  case (2 w1)
  have u1: "used 2 w w1" using 2(1) by (rule used_drop) simp
  show ?case
  proof (simp, rule wp_STRING_clone [OF assms(2,5)], goal_cases)
    case (1 w2)
    then show ?case
      using 2 used_starved [OF u1 1(1), of 6] by (auto simp: sas_state_blocks_def str_blocks_def intro!: failed)
  next
    case (2 w2)
    have u2: "used 4 w w2" using used_trans [OF u1 used_drop [OF 2(1), of 2], of 4] by simp
    show ?case
    proof (simp, rule wp_STRING_clone [OF assms(3,6)], goal_cases)
      case (1 w3)
      then show ?case
        using 2 \<open>live w1 = _\<close> \<open>faults w1 = _\<close> used_starved [OF u2 1(1), of 6]
        by (auto simp: sas_state_blocks_def str_blocks_def intro!: failed)
    next
      case (2 w3)
      then show ?case
        using \<open>live w1 = _\<close> \<open>faults w1 = _\<close> \<open>live w2 = _\<close> \<open>faults w2 = _\<close>
        by (auto simp: sas_state_ok_def str_val_def sas_state_blocks_def str_blocks_def intro!: made)
    qed
  qed
qed

lemma SAS_created:
  assumes "str_wf key" "str_wf uri" "str_wf name" "length (str_val key) + 1 < SIZE_MOD" "length (str_val uri) + 1 < SIZE_MOD"
    "length (str_val name) + 1 < SIZE_MOD"
  shows "wp (HTTPAPIEX_SAS_Create (Some key) (Some uri) (Some name)) (\<lambda>h w'. faults w' = faults w \<and>
     live w' = live w + sas_state_blocks h \<and>
     (case h of None \<Rightarrow> \<not> plenty 7 w | Some s \<Rightarrow> sas_state_ok s (str_val key) (str_val uri) (str_val name))) w"
proof -
  let ?Q = "\<lambda>h w'. faults w' = faults w \<and> live w' = live w + sas_state_blocks h \<and>
     (case h of None \<Rightarrow> \<not> plenty 7 w | Some s \<Rightarrow> sas_state_ok s (str_val key) (str_val uri) (str_val name))"
  have "wp c_new (\<lambda>ok. wp (if \<not> ok then ret None else do {
        (failed, state) \<leftarrow> sas_fields (Some key) (Some uri) (Some name);
        if failed then do { HTTPAPIEX_SAS_Destroy (Some state); ret None } else ret (Some state) }) ?Q) w"
  proof (rule wp_new, goal_cases)
    case (1 w1)
    then show ?case by (simp add: sas_state_blocks_def not_plenty_next)
  next
    case (2 w1)
    show ?case
    proof (simp, rule wp_sas_fields [OF assms], goal_cases)
      case (1 s w2)
      then show ?case
        using 2 not_plenty_tl [of w1 w 7] by (simp add: wp_SAS_Destroy) (simp add: sas_state_blocks_def)
    qed (use 2 in simp)
  qed
  then show ?thesis by (simp add: HTTPAPIEX_SAS_Create_def)
qed

section \<open>Refreshing the token\<close>

lemma wp_run: "wp m P w \<Longrightarrow> \<exists>r w'. P r w' \<and> (\<forall>Q f. wp (State_Monad.bind m f) Q w = wp (f r) Q w')"
  by (cases "run_state m w") (auto simp: wp_def)

lemma unat_u32_of_int: "0 \<le> x \<Longrightarrow> x < 4294967296 \<Longrightarrow> unat (word_of_int x :: u32) = nat x"
  by (simp add: unsigned_of_int nat_take_bit_eq take_bit_nat_eq_self)

lemma Create_strings:
  "SASToken_Create (Some a) (Some b) (Some c) = SASToken_CreateString (Some (str_s a)) (Some (str_s b)) (Some (str_s c))"
  by (intro ext) (simp add: SASToken_Create_def SASToken_CreateString_def STRING_c_str_def)

definition Authorization :: "u8 list" where
  "Authorization = chars ''Authorization''"

lemma Authorization_name:
  "cstr_block (clit ''Authorization'')" "c_str (clit ''Authorization'') = Authorization"
  "name_ok (Authorization)" "is_cstr (clit ''Authorization'')" "length (Authorization) = 13"
  by (simp_all add: cstr_block_def clit_def c_str_def is_cstr_def SIZE_MOD_def name_ok_def Authorization_def)

lemma token_kept: "dropWhile lws (sas_token k scope name e) = sas_token k scope name e"
  by (simp add: sas_token_def sas_parts_def lws_def)

lemma token_nozero:
  assumes "0 \<notin> set scope" "0 \<notin> set name"
  shows "0 \<notin> set (sas_token k scope name (unat (e :: u32)))"
proof -
  have "0 \<notin> set (decimal (unat e))" using wp_expiry [of e undefined] by (auto simp: wp_def split: prod.splits) (metis c_str_nozero)
  moreover have "0 \<notin> set (sas_code k scope (unat e))" unfolding sas_code_def by (intro url_text_nozero az64.text_nozero)
  ultimately show ?thesis using assms by (simp add: sas_token_def sas_parts_def)
qed

text \<open>The headers with which the request goes out, and what has happened on the way there.\<close>

definition refreshed ::
    "HTTP_HEADERS_HANDLE_DATA \<Rightarrow> u8 list \<Rightarrow> u8 list \<Rightarrow> world \<Rightarrow> HTTP_HEADERS_HANDLE_DATA \<Rightarrow> world \<Rightarrow> bool" where
  "refreshed h k token w h' w' \<longleftrightarrow> hdr_wf h' \<and> faults w' = faults w \<and>
     live w' - live w = hdr_blocks (Some h') - hdr_blocks (Some h) \<and>
     (if Authorization \<notin> fst ` set (hdr_abs h) then hdr_abs h' = hdr_abs h
      else hdr_abs h' = AList.update (Authorization) token (hdr_abs h) \<or>
           hdr_abs h' = hdr_abs h \<and> (k = [] \<or> \<not> plenty 28 w))"

lemma wp_replace_token:
  assumes h: "hdr_wf h" "Authorization \<in> fst ` set (hdr_abs h)"
    and tok: "0 \<notin> set tok" "dropWhile lws tok = tok" "hdr_size h + length tok + 20 < SIZE_MOD"
    and w1: "used 23 w w1" "live w1 = live w + 2" "faults w1 = faults w"
  shows "wp (do { (r, h1) \<leftarrow> HTTPHeaders_ReplaceHeaderNameValuePair (Some h) (Some (clit ''Authorization'')) (Some (tok @ [0]));
     STRING_delete (Some (mkstr tok)); ret h1 }) (\<lambda>h1 w'. \<exists>h'. h1 = Some h' \<and> refreshed h k tok w h' w') w1"
proof -
  let ?op = "ReplaceHeader (Some (clit ''Authorization'')) (Some (tok @ [0]))"
  have "wp (hdr_exec ?op (Some h)) (hdr_step_ok ?op h w1) w1"
    using h tok Authorization_name by (intro hdr_exec_ok) (simp_all add: str_arg_def cstr_block_def)
  then show ?thesis
    unfolding hdr_exec.simps wp_bind
  proof (rule wp_mono, goal_cases)
    case (1 rh w2)
    then obtain r h' where rh: "rh = (r, Some h')" "hdr_wf h'" "faults w2 = faults w1"
        "live w2 - live w1 = hdr_blocks (Some h') - hdr_blocks (Some h)" "hdr_oom ?op r (hdr_abs h) \<longrightarrow> \<not> plenty 5 w1"
      and s: "hdr_set_spec True (Authorization) tok r (hdr_abs h) (hdr_abs h')"
      using tok(1) by (auto simp: hdr_step_ok_def Authorization_name(2))
    have "hdr_abs h' = AList.update (Authorization) tok (hdr_abs h) \<or> hdr_abs h' = hdr_abs h \<and> \<not> plenty 28 w"
      using s rh(5) used_starved [OF w1(1), of 5 28] tok(2) Authorization_name(3)
      by (auto simp: hdr_set_spec_def hdr_oom_def joined_def split: option.splits)
    then show ?case using rh h(2) w1 by (auto simp: refreshed_def)
  qed
qed

lemma wp_sas_refresh:
  assumes s: "sas_state_ok s (b64_text base64char k) scope name" and k: "length k < 1000000000"
    and arrays: "hmac_arrays ctx" "locals_arrays loc" and t: "0 \<le> t" "t + 3600 < 4294967296"
    and h: "hdr_wf h" and size: "length scope + length name + 1000 < 2147483648"
      "hdr_size h + length (sas_token k scope name (nat (t + 3600))) + 20 < SIZE_MOD"
  shows "wp (sas_refresh (Some s) (Some h) t ctx loc)
    (\<lambda>h1 w'. \<exists>h'. h1 = Some h' \<and> refreshed h k (sas_token k scope name (nat (t + 3600))) w h' w') w"
proof -
  let ?A = "Authorization" and ?tok = "sas_token k scope name (nat (t + 3600))"
  have e: "unat (word_of_int (t + 3600) :: u32) = nat (t + 3600)" using t by (intro unat_u32_of_int) simp_all
  have st: "sas_key s = Some (mkstr (b64_text base64char k))" "uriResource s = Some (mkstr scope)" "sas_keyName s = Some (mkstr name)"
    "0 \<notin> set (b64_text base64char k)" "0 \<notin> set scope" "0 \<notin> set name" using s by (simp_all add: sas_state_ok_def)
  have nz: "0 \<notin> set ?tok" using token_nozero [OF st(5,6), of k "word_of_int (t + 3600)"] e by simp
  have made: "wp (SASToken_Create (sas_key s) (uriResource s) (sas_keyName s) (word_of_int (t + 3600)) ctx loc) (\<lambda>p. wp (
        if p \<noteq> None then do {
          (r, h1) \<leftarrow> HTTPHeaders_ReplaceHeaderNameValuePair (Some h) (Some (clit ''Authorization'')) (STRING_c_str p);
          STRING_delete p; ret h1 }
        else ret (Some h)) (\<lambda>h1 w'. \<exists>h'. h1 = Some h' \<and> refreshed h k ?tok w h' w')) w"
    if A: "?A \<in> fst ` set (hdr_abs h)"
    unfolding st(1-3) Create_strings
  proof (rule wp_mono [OF wp_SASToken_CreateString [of _ k]], goal_cases)
    case (9 p w1)
    show ?case
    proof (cases p)
      case None
      then show ?thesis using 9 h A plenty_le [of 28 w 23] by (auto simp: refreshed_def)
    next
      case (Some x)
      then have "x = mkstr ?tok" "used 23 w w1" "live w1 = live w + 2" "faults w1 = faults w" using 9 e st(5,6) by simp_all
      then show ?thesis
        using wp_replace_token [OF h A nz token_kept size(2), of w w1 k] Some
        by (simp add: STRING_c_str_def del: wp_bind)
    qed
  qed (use st k arrays size in simp_all)
  show ?thesis
    unfolding sas_refresh_def option.case
  proof (simp only: option.simps if_False wp_bind, rule wp_mono [OF headers_read(2) [OF h Authorization_name(4)]], goal_cases)
    case (1 p w')
    then have p: "w' = w" "p = None \<longleftrightarrow> ?A \<notin> fst ` set (hdr_abs h)"
      by (auto simp: Authorization_name(2) map_of_eq_None_iff [symmetric])
    show ?case
    proof (cases p)
      case None
      then show ?thesis using p h by (simp add: refreshed_def)
    next
      case (Some x)
      then show ?thesis using p made t by (simp add: sas_expiry_def)
    qed
  qed
qed

section \<open>Properties\<close>

text \<open>C24. Executing a request through an object with a key in base64, a scope and a key name hands the request on with
  the \<open>Authorization\<close> header replaced by the token of that key, scope and name which expires an hour from now, all other
  headers as they were, and with the same headers when there is no such header; only an empty key or lack of memory
  lets the old token stand. Nothing is leaked on the way, and no access leaves a block.\<close>

theorem request_authorized:
  assumes "sas_state_ok s (b64_text base64char k) scope name" "length k < 1000000000"
    "hmac_arrays ctx" "locals_arrays loc" "0 \<le> t" "t + 3600 < 4294967296" "hdr_wf h"
    "length scope + length name + 1000 < 2147483648"
    "hdr_size h + length (sas_token k scope name (nat (t + 3600))) + 20 < SIZE_MOD"
  shows "\<exists>h' w'. refreshed h k (sas_token k scope name (nat (t + 3600))) w h' w' \<and>
    (\<forall>Q. wp (HTTPAPIEX_SAS_ExecuteRequest (Some s) (Some h) t ctx loc execute) Q w = wp (execute (Some h')) Q w')"
  using wp_run [OF wp_sas_refresh [OF assms]] unfolding HTTPAPIEX_SAS_ExecuteRequest_def by blast

theorem request_authorized_witness:
  "\<exists>h' w'. live w' = 7 \<and> faults w' = 0 \<and>
      hdr_abs h' = [(Authorization, sas_token (chars ''key'') (chars ''hub'') (chars ''dev'') 3642)] \<and>
      (\<forall>Q. wp (HTTPAPIEX_SAS_ExecuteRequest
          (Some \<lparr>sas_key = Some (mkstr (chars ''a2V5'')), uriResource = Some (mkstr (chars ''hub'')), sas_keyName = Some (mkstr (chars ''dev''))\<rparr>)
          (Some \<lparr>headers = Some \<lparr>mkeys = Some [Some (clit ''Authorization'')], mvalues = Some [Some [49, 0]], mcount = 1, mapFilterCallback = None\<rparr>\<rparr>)
          42 blank_hmac blank_locals ret) Q \<lparr>avail = replicate 28 (Some (\<lambda>_. 0)), live = 7, faults = 0\<rparr> = Q (Some h') w')"
proof -
  let ?h = "\<lparr>headers = Some \<lparr>mkeys = Some [Some (clit ''Authorization'')], mvalues = Some [Some [49, 0]], mcount = 1, mapFilterCallback = None\<rparr>\<rparr>"
  have b64: "b64_text base64char (chars ''key'') = chars ''a2V5''" by simp code_simp
  have es: "hdr_abs ?h = [(Authorization, [49])]"
    by (simp add: hdr_abs_def hdr_map_def map_entries_def Authorization_name(2) c_str_def [of "[49, 0]"])
  have "cstr_block [49, 0]" by (simp add: cstr_block_def c_str_def is_cstr_def SIZE_MOD_def)
  then have wf: "hdr_wf ?h"
    unfolding hdr_wf_def es by (simp add: hdr_map_def map_wf_def map_rep_def Authorization_name SIZE_MOD_def)
  have dec: "decimal 3642 = chars ''3642''" by (simp add: decimal_def digits.simps digit_chars_def)
  have "length (hmac_spec SHA256 (chars ''key'') m) = 32" for m by (simp add: hmac_spec_def USHAHashSize_def sha_sizes)
  then have "length (sas_code (chars ''key'') (chars ''hub'') 3642) \<le> 264"
    using length_url_text [of "b64_text base64char (hmac_spec SHA256 (chars ''key'') (chars ''hub'' @ 10 # decimal 3642))"]
    by (simp add: sas_code_def length_b64_text)
  then have len: "hdr_size ?h + length (sas_token (chars ''key'') (chars ''hub'') (chars ''dev'') (nat (42 + 3600))) + 20 < SIZE_MOD"
    unfolding hdr_size_def es by (simp add: sas_token_def sas_parts_def dec SIZE_MOD_def Authorization_def)
  have st: "sas_state_ok \<lparr>sas_key = Some (mkstr (chars ''a2V5'')), uriResource = Some (mkstr (chars ''hub'')),
      sas_keyName = Some (mkstr (chars ''dev''))\<rparr> (b64_text base64char (chars ''key'')) (chars ''hub'') (chars ''dev'')"
    unfolding b64 by (simp add: sas_state_ok_def)
  let ?w = "\<lparr>avail = replicate 28 (Some (\<lambda>_. 0)), live = 7, faults = 0\<rparr>"
  obtain h' w' where r: "refreshed ?h (chars ''key'') (sas_token (chars ''key'') (chars ''hub'') (chars ''dev'') (nat (42 + 3600))) ?w h' w'"
      and q: "\<forall>Q. wp (HTTPAPIEX_SAS_ExecuteRequest
          (Some \<lparr>sas_key = Some (mkstr (chars ''a2V5'')), uriResource = Some (mkstr (chars ''hub'')), sas_keyName = Some (mkstr (chars ''dev''))\<rparr>)
          (Some ?h) 42 blank_hmac blank_locals ret) Q ?w = wp (ret (Some h')) Q w'"
    using request_authorized [OF st _ blank_hmac_arrays(1) blank_hmac_arrays(2) _ _ wf _ len, of ?w ret] by auto
  have blocks: "hdr_blocks (Some ?h) = 6" by (simp add: hdr_blocks_def map_blocks_def)
  have "plenty 28 ?w" "nat (42 + 3600) = 3642" "chars ''key'' \<noteq> []" by (simp_all add: plenty_def)
  then have "hdr_abs h' = [(Authorization, sas_token (chars ''key'') (chars ''hub'') (chars ''dev'') 3642)]" "faults w' = 0"
    "live w' - 7 = hdr_blocks (Some h') - 6" "hdr_wf h'"
    using r unfolding refreshed_def es blocks by (simp_all del: list.map(2))
  moreover obtain m where "headers h' = Some m" "map_size m = 4 * length (hdr_abs h')"
    using \<open>hdr_wf h'\<close> by (rule hdr_wfE)
  ultimately have "live w' = 7" by (simp add: hdr_blocks_def map_blocks_def map_size_def)
  then show ?thesis using q \<open>hdr_abs h' = _\<close> \<open>faults w' = 0\<close> unfolding wp_ret by blast
qed

end
