(* ===== verification/ConstData.thy ===== *)
theory ConstData
  imports Buffer MapTable
begin

text \<open>
  The objects that several owners share: \<open>c-utility/src/constbuffer.c\<close> and \<open>c-utility/src/constmap.c\<close>, over the reference counts of
  \<open>c-utility/inc/azure_c_shared_utility/refcount.h\<close> (in the form they have for GCC). All handles of an object denote the same object:
  an operation returns what has become of it, \<open>None\<close> once it has been released. The contract of a shared object is the
  locale \<open>shared_object\<close>, which both kinds of objects interpret.
\<close>

section \<open>Reference counts\<close>

record 'a refcounted =
  counted :: 'a
  refs :: u32

text \<open>The object is allocated with the count 1; the content is assigned by whoever creates it.\<close>

definition REFCOUNT_Create :: "'a \<Rightarrow> 'a refcounted option cm" where
  "REFCOUNT_Create v = do { ok \<leftarrow> c_new; ret (if ok then Some \<lparr>counted = v, refs = 1\<rparr> else None) }"

definition DEC_RETURN_ZERO :: u32 where
  "DEC_RETURN_ZERO = 0"

definition INC_REF :: "'a refcounted \<Rightarrow> 'a refcounted" where
  "INC_REF var = var\<lparr>refs := refs var + 1\<rparr>"

text \<open>The count after the decrement, and the object with it.\<close>

definition DEC_REF :: "'a refcounted \<Rightarrow> u32 \<times> 'a refcounted" where
  "DEC_REF var = (refs var - 1, var\<lparr>refs := refs var - 1\<rparr>)"

section \<open>Constant buffers\<close>

record CONSTBUFFER =
  cb_buffer :: "u8 list option"
  cb_size :: nat

text \<open>The fields are assigned after the allocation: \<open>size\<close> first, then \<open>buffer\<close>.\<close>

definition CONSTBUFFER_Create_Internal :: "u8 list option \<Rightarrow> nat \<Rightarrow> CONSTBUFFER refcounted option cm" where
  "CONSTBUFFER_Create_Internal source sz = do {
     result \<leftarrow> REFCOUNT_Create \<lparr>cb_buffer = None, cb_size = sz\<rparr>;
     (case result of
        None \<Rightarrow> ret None
      | Some r \<Rightarrow>
          if sz = 0 then ret (Some (r\<lparr>counted := \<lparr>cb_buffer = None, cb_size = sz\<rparr>\<rparr>))
          else do {
            temp \<leftarrow> c_malloc sz;
            (case temp of
               None \<Rightarrow> do { c_free result; ret None }
             | Some t \<Rightarrow> do {
                 t' \<leftarrow> c_memcpy t 0 (blk source) 0 sz;
                 ret (Some (r\<lparr>counted := \<lparr>cb_buffer = Some t', cb_size = sz\<rparr>\<rparr>))
               })
          })
   }"

definition CONSTBUFFER_Create :: "u8 list option \<Rightarrow> nat \<Rightarrow> CONSTBUFFER refcounted option cm" where
  "CONSTBUFFER_Create source sz =
     (if source = None \<and> sz \<noteq> 0 then ret None else CONSTBUFFER_Create_Internal source sz)"

definition CONSTBUFFER_CreateFromBuffer :: "BUFFER option \<Rightarrow> CONSTBUFFER refcounted option cm" where
  "CONSTBUFFER_CreateFromBuffer b =
     (if b = None then ret None else CONSTBUFFER_Create_Internal (BUFFER_u_char b) (BUFFER_length b))"

definition CONSTBUFFER_Clone :: "CONSTBUFFER refcounted option \<Rightarrow> CONSTBUFFER refcounted option" where
  "CONSTBUFFER_Clone constbufferHandle = map_option INC_REF constbufferHandle"

definition CONSTBUFFER_GetContent :: "CONSTBUFFER refcounted option \<Rightarrow> CONSTBUFFER option" where
  "CONSTBUFFER_GetContent constbufferHandle = map_option counted constbufferHandle"

definition CONSTBUFFER_Destroy :: "CONSTBUFFER refcounted option \<Rightarrow> CONSTBUFFER refcounted option cm" where
  "CONSTBUFFER_Destroy constbufferHandle =
     (case constbufferHandle of
        None \<Rightarrow> ret None
      | Some h \<Rightarrow>
          (case DEC_REF h of (n, h') \<Rightarrow>
             if n = DEC_RETURN_ZERO
             then do { c_free (cb_buffer (counted h')); c_free (Some h'); ret None }
             else ret (Some h')))"

section \<open>Constant maps\<close>

datatype CONSTMAP_RESULT = CONSTMAP_OK | CONSTMAP_ERROR | CONSTMAP_INVALIDARG | CONSTMAP_KEYNOTFOUND

record CONSTMAP_HANDLE_DATA =
  cm_map :: "MAP_HANDLE_DATA option"

definition ConstMap_Create :: "MAP_HANDLE_DATA option \<Rightarrow> CONSTMAP_HANDLE_DATA refcounted option cm" where
  "ConstMap_Create sourceMap = do {
     result \<leftarrow> REFCOUNT_Create \<lparr>cm_map = None\<rparr>;
     (case result of
        None \<Rightarrow> ret None
      | Some r \<Rightarrow> do {
          m \<leftarrow> Map_Clone sourceMap;
          if m = None then do { c_free result; ret None }
          else ret (Some (r\<lparr>counted := \<lparr>cm_map = m\<rparr>\<rparr>))
        })
   }"

definition ConstMap_Destroy :: "CONSTMAP_HANDLE_DATA refcounted option \<Rightarrow> CONSTMAP_HANDLE_DATA refcounted option cm" where
  "ConstMap_Destroy handle =
     (case handle of
        None \<Rightarrow> ret None
      | Some h \<Rightarrow>
          (case DEC_REF h of (n, h') \<Rightarrow>
             if n = DEC_RETURN_ZERO
             then do { Map_Destroy (cm_map (counted h')); c_free (Some h'); ret None }
             else ret (Some h')))"

definition ConstMap_Clone :: "CONSTMAP_HANDLE_DATA refcounted option \<Rightarrow> CONSTMAP_HANDLE_DATA refcounted option" where
  "ConstMap_Clone handle = map_option INC_REF handle"

fun ConstMap_ErrorConvert :: "MAP_RESULT \<Rightarrow> CONSTMAP_RESULT" where
  "ConstMap_ErrorConvert MAP_OK = CONSTMAP_OK"
| "ConstMap_ErrorConvert MAP_INVALIDARG = CONSTMAP_INVALIDARG"
| "ConstMap_ErrorConvert MAP_KEYNOTFOUND = CONSTMAP_KEYNOTFOUND"
| "ConstMap_ErrorConvert _ = CONSTMAP_ERROR"

definition ConstMap_CloneWriteable :: "CONSTMAP_HANDLE_DATA refcounted option \<Rightarrow> MAP_HANDLE_DATA option cm" where
  "ConstMap_CloneWriteable handle =
     (case handle of None \<Rightarrow> ret None | Some h \<Rightarrow> Map_Clone (cm_map (counted h)))"

text \<open>The flag is false until the map stores an answer in it.\<close>

definition ConstMap_ContainsKey :: "CONSTMAP_HANDLE_DATA refcounted option \<Rightarrow> u8 list option \<Rightarrow> bool cm" where
  "ConstMap_ContainsKey handle key =
     (case handle of
        None \<Rightarrow> ret False
      | Some h \<Rightarrow>
          if key = None then ret False
          else do {
            (mapResult, out) \<leftarrow> Map_ContainsKey (cm_map (counted h)) key True;
            let keyExists = (case out of None \<Rightarrow> False | Some b \<Rightarrow> b);
            ret (if mapResult \<noteq> MAP_OK then False else keyExists)
          })"

definition ConstMap_ContainsValue :: "CONSTMAP_HANDLE_DATA refcounted option \<Rightarrow> u8 list option \<Rightarrow> bool cm" where
  "ConstMap_ContainsValue handle val =
     (case handle of
        None \<Rightarrow> ret False
      | Some h \<Rightarrow>
          if val = None then ret False
          else do {
            (mapResult, out) \<leftarrow> Map_ContainsValue (cm_map (counted h)) val True;
            ret (case out of None \<Rightarrow> False | Some b \<Rightarrow> b)
          })"

definition ConstMap_GetValue :: "CONSTMAP_HANDLE_DATA refcounted option \<Rightarrow> u8 list option \<Rightarrow> u8 list option cm" where
  "ConstMap_GetValue handle key =
     (case handle of
        None \<Rightarrow> ret None
      | Some h \<Rightarrow> if key = None then ret None else Map_GetValueFromKey (cm_map (counted h)) key)"

definition ConstMap_GetInternals ::
    "CONSTMAP_HANDLE_DATA refcounted option \<Rightarrow> bool \<Rightarrow> bool \<Rightarrow> bool \<Rightarrow>
     CONSTMAP_RESULT \<times> (u8 list option list option \<times> u8 list option list option \<times> nat) option" where
  "ConstMap_GetInternals handle keys values count =
     (case handle of
        None \<Rightarrow> (CONSTMAP_INVALIDARG, None)
      | Some h \<Rightarrow>
          (case Map_GetInternals (cm_map (counted h)) keys values count of
             (mapResult, out) \<Rightarrow> (ConstMap_ErrorConvert mapResult, out)))"

section \<open>The contract of a shared object\<close>

datatype share_op = Share | Unshare

text \<open>The number of owners after a sequence of calls; \<open>None\<close> when a call is made without an owner, or when there would be
  more owners than the count can hold (which the header asks its users to avoid).\<close>

fun owners :: "share_op list \<Rightarrow> nat \<Rightarrow> nat option" where
  "owners [] n = Some n"
| "owners (Share # ops) n = (if n = 0 \<or> 4294967296 \<le> Suc n then None else owners ops (Suc n))"
| "owners (Unshare # ops) n = (if n = 0 then None else owners ops (n - 1))"

fun run_shared :: "('h option \<Rightarrow> 'h option) \<Rightarrow> ('h option \<Rightarrow> 'h option cm) \<Rightarrow> share_op list \<Rightarrow> 'h option \<Rightarrow> 'h option cm" where
  "run_shared clone destroy [] h = ret h"
| "run_shared clone destroy (Share # ops) h = run_shared clone destroy ops (clone h)"
| "run_shared clone destroy (Unshare # ops) h = do { h' \<leftarrow> destroy h; run_shared clone destroy ops h' }"

locale shared_object =
  fixes clone :: "'h option \<Rightarrow> 'h option"
    and destroy :: "'h option \<Rightarrow> 'h option cm"
    and count :: "'h \<Rightarrow> u32"
    and content :: "'h \<Rightarrow> 'v"
    and wf :: "'h \<Rightarrow> bool"
    and blocks :: "'h \<Rightarrow> int"
  assumes clone: "wf h \<Longrightarrow> \<exists>h'. clone (Some h) = Some h' \<and> wf h' \<and> count h' = count h + 1 \<and> content h' = content h \<and> blocks h' = blocks h"
    and destroy_last: "wf h \<Longrightarrow> count h = 1 \<Longrightarrow> wp (destroy (Some h)) Q w = Q None (w\<lparr>live := live w - blocks h\<rparr>)"
    and destroy_other: "wf h \<Longrightarrow> count h \<noteq> 1 \<Longrightarrow> \<exists>h'. (\<forall>Q w. wp (destroy (Some h)) Q w = Q (Some h') w) \<and> wf h' \<and>
      count h' = count h - 1 \<and> content h' = content h \<and> blocks h' = blocks h"
begin

text \<open>As long as there is an owner the object is there with its content; the last one to go releases it.\<close>

lemma run:
  "wf h \<Longrightarrow> unat (count h) = n \<Longrightarrow> 0 < n \<Longrightarrow> owners ops n = Some m \<Longrightarrow>
   wp (run_shared clone destroy ops (Some h)) (\<lambda>h1 w'. faults w' = faults w \<and>
     (if m = 0 then h1 = None \<and> live w' = live w - blocks h
      else live w' = live w \<and> (\<exists>h'. h1 = Some h' \<and> wf h' \<and> content h' = content h \<and> unat (count h') = m))) w"
proof (induction ops arbitrary: h n w)
  case (Cons op ops)
  show ?case
  proof (cases op)
    case Share
    obtain h' where h': "clone (Some h) = Some h'" "wf h'" "count h' = count h + 1" "content h' = content h" "blocks h' = blocks h"
      using clone [OF Cons.prems(1)] by blast
    have n: "Suc n < 4294967296" "owners ops (Suc n) = Some m" using Cons.prems(4) Share by (auto split: if_splits)
    then have "unat (count h') = Suc n" using Cons.prems(2) h'(3) by (simp add: unat_word_ariths)
    from Cons.IH [OF h'(2) this _ n(2), of w] show ?thesis
      unfolding Share run_shared.simps h'(1) by (simp only: h'(4,5) zero_less_Suc)
  next
    case Unshare
    have n: "owners ops (n - 1) = Some m" using Cons.prems(3,4) Unshare by simp
    show ?thesis
    proof (cases "count h = 1")
      case True
      then have "n = 1" using Cons.prems(2) by simp
      moreover from this n have "ops = []" "m = 0" by (cases ops; cases "hd ops"; simp)+
      ultimately show ?thesis using Unshare destroy_last [OF Cons.prems(1) True] by simp
    next
      case False
      obtain h' where h': "\<And>Q w. wp (destroy (Some h)) Q w = Q (Some h') w" "wf h'" "count h' = count h - 1"
        "content h' = content h" "blocks h' = blocks h" using destroy_other [OF Cons.prems(1) False] by blast
      have "unat (count h) \<noteq> 1" using False by (metis unat_1 word_unat_eq_iff)
      then have n1: "0 < n - 1" using Cons.prems(2,3) by simp
      have "count h \<noteq> 0" using Cons.prems(2,3) by auto
      then have "unat (count h') = n - 1" using Cons.prems(2) h'(3) by (simp add: unat_minus_one)
      from Cons.IH [OF h'(2) this n1 n, of w] show ?thesis
        unfolding Unshare run_shared.simps wp_bind h'(1) by (simp only: h'(4,5))
    qed
  qed
qed simp

end

section \<open>Constant buffers are shared objects\<close>

definition cbuf_wf :: "CONSTBUFFER refcounted \<Rightarrow> bool" where
  "cbuf_wf h \<longleftrightarrow> (if cb_size (counted h) = 0 then cb_buffer (counted h) = None
     else length (blk (cb_buffer (counted h))) = cb_size (counted h))"

definition cbuf_bytes :: "CONSTBUFFER refcounted \<Rightarrow> u8 list" where
  "cbuf_bytes h = blk (cb_buffer (counted h))"

definition cbuf_blocks :: "CONSTBUFFER refcounted \<Rightarrow> int" where
  "cbuf_blocks h = (if cb_size (counted h) = 0 then 1 else 2)"

lemmas refcount_defs = INC_REF_def DEC_REF_def DEC_RETURN_ZERO_def

interpretation cb: shared_object CONSTBUFFER_Clone CONSTBUFFER_Destroy refs cbuf_bytes cbuf_wf cbuf_blocks
proof (unfold_locales, goal_cases)
  case (1 h)
  then show ?case by (simp add: CONSTBUFFER_Clone_def refcount_defs cbuf_wf_def cbuf_bytes_def cbuf_blocks_def)
next
  case (2 h Q w)
  then show ?case
    by (cases "cb_buffer (counted h)")
      (auto simp: CONSTBUFFER_Destroy_def refcount_defs cbuf_wf_def cbuf_blocks_def split: if_splits)
next
  case (3 h)
  then show ?case
    by (intro exI [of _ "h\<lparr>refs := refs h - 1\<rparr>"])
      (simp add: CONSTBUFFER_Destroy_def refcount_defs cbuf_wf_def cbuf_bytes_def cbuf_blocks_def)
qed

lemma wp_CONSTBUFFER_Create_Internal:
  assumes "n \<le> length (blk source)"
    and "\<And>w'. \<not> plenty 2 w \<Longrightarrow> live w' = live w \<Longrightarrow> faults w' = faults w \<Longrightarrow> Q None w'"
    and "\<And>h w'. cbuf_wf h \<Longrightarrow> cbuf_bytes h = take n (blk source) \<Longrightarrow> refs h = 1 \<Longrightarrow> live w' = live w + cbuf_blocks h \<Longrightarrow>
      faults w' = faults w \<Longrightarrow> Q (Some h) w'"
  shows "wp (CONSTBUFFER_Create_Internal source n) Q w"
  unfolding CONSTBUFFER_Create_Internal_def REFCOUNT_Create_def wp_bind
proof (rule wp_new, goal_cases)
  case (1 w1)
  then show ?case using assms(2) by (simp add: not_plenty_next)
next
  case (2 w1)
  show ?case
  proof (cases "n = 0")
    case True
    then show ?thesis using 2 by (auto simp: cbuf_wf_def cbuf_bytes_def cbuf_blocks_def intro!: assms(3))
  next
    case False
    have "wp (c_malloc n) (\<lambda>p. wp (case p of None \<Rightarrow> do { c_free (Some ()); ret None }
        | Some t \<Rightarrow> do { t' \<leftarrow> c_memcpy t 0 (blk source) 0 n; ret (Some \<lparr>counted = \<lparr>cb_buffer = Some t', cb_size = n\<rparr>, refs = 1\<rparr>) }) Q) w1"
    proof (rule wp_malloc, goal_cases)
      case (1 w2)
      then show ?case using 2 not_plenty_tl [of w1 w 2] by (auto simp: not_plenty_next intro!: assms(2))
    next
      case (2 bs w2)
      then show ?case using \<open>live w1 = _\<close> \<open>faults w1 = _\<close> False assms(1)
        by (auto simp: put_all cbuf_wf_def cbuf_bytes_def cbuf_blocks_def intro!: assms(3))
    qed
    then show ?thesis using False by (auto elim!: wp_mono split: option.splits)
  qed
qed

lemma content_of_cbuf:
  assumes "cbuf_wf h"
  shows "\<exists>c. CONSTBUFFER_GetContent (Some h) = Some c \<and> blk (cb_buffer c) = cbuf_bytes h \<and> cb_size c = length (cbuf_bytes h)"
  using assms by (auto simp: CONSTBUFFER_GetContent_def cbuf_wf_def cbuf_bytes_def split: if_splits)

section \<open>Constant maps are shared objects\<close>

definition cmap_wf :: "CONSTMAP_HANDLE_DATA refcounted \<Rightarrow> bool" where
  "cmap_wf h \<longleftrightarrow> (\<exists>m. cm_map (counted h) = Some m \<and> map_wf m)"

definition cmap_entries :: "CONSTMAP_HANDLE_DATA refcounted \<Rightarrow> (u8 list \<times> u8 list) list" where
  "cmap_entries h = map_entries (the (cm_map (counted h)))"

definition cmap_blocks :: "CONSTMAP_HANDLE_DATA refcounted \<Rightarrow> int" where
  "cmap_blocks h = 1 + map_blocks (cm_map (counted h))"

interpretation cmap: shared_object ConstMap_Clone ConstMap_Destroy refs cmap_entries cmap_wf cmap_blocks
proof (unfold_locales, goal_cases)
  case (1 h)
  then show ?case by (simp add: ConstMap_Clone_def refcount_defs cmap_wf_def cmap_entries_def cmap_blocks_def)
next
  case (2 h Q w)
  then show ?case
    by (auto simp: ConstMap_Destroy_def refcount_defs cmap_wf_def cmap_blocks_def wp_Map_Destroy algebra_simps)
next
  case (3 h)
  then show ?case
    by (intro exI [of _ "h\<lparr>refs := refs h - 1\<rparr>"])
      (simp add: ConstMap_Destroy_def refcount_defs cmap_wf_def cmap_entries_def cmap_blocks_def)
qed

lemma wp_ConstMap_Create:
  assumes "map_wf m"
    and failed: "\<And>w'. \<not> plenty (2 * mcount m + 4) w \<Longrightarrow> live w' = live w \<Longrightarrow> faults w' = faults w \<Longrightarrow> Q None w'"
    and made: "\<And>h w'. cmap_wf h \<Longrightarrow> cmap_entries h = map_entries m \<Longrightarrow> refs h = 1 \<Longrightarrow> live w' = live w + cmap_blocks h \<Longrightarrow>
      faults w' = faults w \<Longrightarrow> Q (Some h) w'"
  shows "wp (ConstMap_Create (Some m)) Q w"
  unfolding ConstMap_Create_def REFCOUNT_Create_def wp_bind
proof (rule wp_new, goal_cases)
  case (1 w1)
  then show ?case using failed by (simp add: not_plenty_next)
next
  case (2 w1)
  show ?case
  proof (simp, rule wp_mono [OF Map_Clone_copies [OF assms(1)]], goal_cases)
    case (1 c w2)
    then show ?case
      using 2 used_starved [OF used_tl [OF 2(2), of 1], of "2 * mcount m + 3" "2 * mcount m + 4"]
      by (cases c) (auto simp: cmap_wf_def cmap_entries_def cmap_blocks_def intro!: failed made)
  qed
qed

text \<open>What the readers of a constant map find.\<close>

lemma cmap_read:
  assumes "cmap_wf h" "is_cstr k"
  shows "wp (ConstMap_GetValue (Some h) (Some k)) (\<lambda>p w'. w' = w \<and> map_option c_str p = map_of (cmap_entries h) (c_str k)) w"
    and "wp (ConstMap_ContainsKey (Some h) (Some k)) (\<lambda>b w'. w' = w \<and> b = (c_str k \<in> fst ` set (cmap_entries h))) w"
    and "wp (ConstMap_ContainsValue (Some h) (Some k)) (\<lambda>b w'. w' = w \<and> b = (c_str k \<in> snd ` set (cmap_entries h))) w"
    and "\<exists>ks vs. ConstMap_GetInternals (Some h) True True True = (CONSTMAP_OK, Some (ks, vs, length (cmap_entries h)))"
proof -
  obtain m where m: "cm_map (counted h) = Some m" "map_wf m" "cmap_entries h = map_entries m"
    using assms(1) by (auto simp: cmap_wf_def cmap_entries_def)
  show "wp (ConstMap_GetValue (Some h) (Some k)) (\<lambda>p w'. w' = w \<and> map_option c_str p = map_of (cmap_entries h) (c_str k)) w"
    using wp_Map_GetValueFromKey [OF m(2) assms(2)] m by (simp add: ConstMap_GetValue_def)
  show "wp (ConstMap_ContainsKey (Some h) (Some k)) (\<lambda>b w'. w' = w \<and> b = (c_str k \<in> fst ` set (cmap_entries h))) w"
    using m by (auto simp: ConstMap_ContainsKey_def intro!: wp_mono [OF wp_Map_ContainsKey [OF m(2) assms(2)]])
  show "wp (ConstMap_ContainsValue (Some h) (Some k)) (\<lambda>b w'. w' = w \<and> b = (c_str k \<in> snd ` set (cmap_entries h))) w"
    using m by (auto simp: ConstMap_ContainsValue_def intro!: wp_mono [OF wp_Map_ContainsValue [OF m(2) assms(2)]])
  obtain ks vs where "map_rep m ks vs" using m(2) map_wf_rep by blast
  then have "mcount m = length (map_entries m)" by (simp add: map_rep_entries) (simp add: map_rep_def)
  then show "\<exists>ks vs. ConstMap_GetInternals (Some h) True True True = (CONSTMAP_OK, Some (ks, vs, length (cmap_entries h)))"
    using m by (simp add: ConstMap_GetInternals_def Map_GetInternals_def)
qed

section \<open>Properties\<close>

text \<open>C25. A constant buffer in the hands of several owners: after \<open>CONSTBUFFER_Create\<close> and any sequence of \<open>CONSTBUFFER_Clone\<close> and
  \<open>CONSTBUFFER_Destroy\<close> in which only owners call, each destroying once what it was given, the object is there with
  the very bytes it was created from as long as one owner is left, and the last one releases all of it; no access is out of bounds.\<close>

theorem constbuffer_shared:
  assumes "n \<le> length src" "owners ops 1 = Some m"
  shows "wp (do { h \<leftarrow> CONSTBUFFER_Create (Some src) n; if h = None then ret (False, None)
                  else do { h' \<leftarrow> run_shared CONSTBUFFER_Clone CONSTBUFFER_Destroy ops h; ret (True, CONSTBUFFER_GetContent h') } })
     (\<lambda>(created, c) w'. faults w' = faults w \<and>
        (if \<not> created then live w' = live w \<and> \<not> plenty 2 w
         else if m = 0 then c = None \<and> live w' = live w
         else live w' = live w + (if n = 0 then 1 else 2) \<and>
           (\<exists>x. c = Some x \<and> blk (cb_buffer x) = take n src \<and> cb_size x = n))) w"
proof -
  have "wp (CONSTBUFFER_Create_Internal (Some src) n) (\<lambda>h. wp (if h = None then ret (False, None)
      else do { h' \<leftarrow> run_shared CONSTBUFFER_Clone CONSTBUFFER_Destroy ops h; ret (True, CONSTBUFFER_GetContent h') })
     (\<lambda>(created, c) w'. faults w' = faults w \<and>
        (if \<not> created then live w' = live w \<and> \<not> plenty 2 w
         else if m = 0 then c = None \<and> live w' = live w
         else live w' = live w + (if n = 0 then 1 else 2) \<and>
           (\<exists>x. c = Some x \<and> blk (cb_buffer x) = take n src \<and> cb_size x = n)))) w"
  proof (rule wp_CONSTBUFFER_Create_Internal, goal_cases)
    case (3 h w1)
    have size: "cbuf_blocks h = (if n = 0 then 1 else 2)"
      using 3(1,2) assms(1) by (auto simp: cbuf_blocks_def cbuf_wf_def cbuf_bytes_def split: if_splits)
    show ?case
    proof (simp only: option.simps if_False wp_bind, rule wp_mono [OF cb.run [OF 3(1) _ _ assms(2)]], goal_cases)
      case (3 h1 w2)
      then show ?case
        using \<open>live w1 = _\<close> \<open>faults w1 = _\<close> \<open>cbuf_bytes h = _\<close> size assms(1) content_of_cbuf
        by (auto simp: CONSTBUFFER_GetContent_def split: if_splits)
    qed (use 3 in simp_all)
  qed (use assms in simp_all)
  then show ?thesis by (simp add: CONSTBUFFER_Create_def)
qed

theorem constbuffer_shared_witness:
  "wp (do { h \<leftarrow> CONSTBUFFER_Create (Some [1, 2, 3]) 2; if h = None then ret (False, None)
            else do { h' \<leftarrow> run_shared CONSTBUFFER_Clone CONSTBUFFER_Destroy [Share, Unshare, Share, Unshare, Unshare] h;
                      ret (True, CONSTBUFFER_GetContent h') } })
     (\<lambda>(created, c) w'. created \<and> c = None \<and> live w' = 0 \<and> faults w' = 0)
     \<lparr>avail = [Some (\<lambda>_. 0), Some (\<lambda>_. 7)], live = 0, faults = 0\<rparr>"
  by (rule wp_mono [OF constbuffer_shared [where m = 0]])
    (auto simp: plenty_eval split: if_splits)

text \<open>The same of a constant map, with the entries of the map it was created from.\<close>

lemma constmap_shared:
  assumes "map_wf s" "owners ops 1 = Some m"
  shows "wp (do { h \<leftarrow> ConstMap_Create (Some s); if h = None then ret (False, None)
                  else do { h' \<leftarrow> run_shared ConstMap_Clone ConstMap_Destroy ops h; ret (True, h') } })
     (\<lambda>(created, h) w'. faults w' = faults w \<and>
        (if \<not> created then live w' = live w \<and> \<not> plenty (2 * mcount s + 4) w
         else if m = 0 then h = None \<and> live w' = live w
         else \<exists>x. h = Some x \<and> cmap_wf x \<and> cmap_entries x = map_entries s \<and> unat (refs x) = m)) w"
  unfolding wp_bind
proof (rule wp_ConstMap_Create [OF assms(1)], goal_cases)
  case (2 h w1)
  show ?case
  proof (simp only: option.simps if_False wp_bind, rule wp_mono [OF cmap.run [OF 2(1) _ _ assms(2)]], goal_cases)
    case (3 h1 w2)
    then show ?case using 2 by (auto split: if_splits)
  qed (use 2 in simp_all)
qed simp

end
