(* ===== verification/Spec2Isabelle.thy ===== *)
theory Spec2Isabelle
  imports Buffer Strings MapTable Crt Base64 UrlEncode SdCrc LibB64 MqttLifecycle Hmac ShaConstants DList SList Vector Tokenizer SasValidate HttpSas ConstData
begin

text \<open>
  Verification of the data-handling core of the ESP32 Arduino component: the C libraries that every
  message of a device to its cloud service passes through, and the checksums of its SD card driver.

  \<^bold>\<open>The program.\<close> The repository carries the Arduino core for the ESP32 (\<open>cores/esp32\<close>: hardware
  abstraction, libb64, number printing), its libraries (among them \<open>libraries/SD\<close>) and the Azure IoT
  client (\<open>libraries/AzureIoT/src/az_iot\<close>): a C utility library (\<open>c-utility\<close>), an MQTT
  library (\<open>umqtt\<close>) and the hub client (\<open>iothub_client\<close>). Below, \<open>c-utility\<close> and \<open>umqtt\<close> name those directories.
  The hub client sends a message by URL-encoding its properties, printing a JSON map, building an MQTT
  packet in a byte buffer and handing its bytes to the transport; what the transport receives goes to
  the MQTT decoder, which reassembles packets and calls the client back. Tokens are base64 text of message authentication codes. All
  of these objects live on a heap of a few hundred kilobytes, where any allocation can fail: the
  question throughout is not only what the functions compute but that no path reads or writes outside
  a block, uses a failed allocation, or loses a block.

  \<^bold>\<open>The model of C.\<close> \<open>Prelude\<close>: a function of the source is a computation in HOL-Library's state monad over
  a \<open>world\<close> with the outcomes of the coming allocations (any pattern of failures), the number of live
  blocks and the number of undefined accesses made so far. Blocks are lists of bytes, handles are
  options, indeterminate bytes are whatever the allocator left there. \<open>size_t\<close> is 32 bits wide
  (\<open>SIZE_MOD\<close>), and sums of sizes wrap. \<open>wp\<close> is the weakest precondition: since the monad is total, \<open>wp m Q w\<close> says that
  the run returns and \<open>Q\<close> holds. \<open>plenty k\<close> says that the next \<open>k\<close> requests succeed. The loops of the sources run over
  a counter or a list and are structural recursions, \<open>remainSize_loop\<close> and the digit loops
  \<open>function\<close>s with a measure. Three loops end only because of what they read, the ones over the pairs of a connection
  string, over a host name and over the digits of an expiry time: they take a bound on their rounds, the length of the block, and reaching it
  counts as an undefined access, so that the theorems on them show that it is never reached. The loops over a singly linked list are bounded
  in the same way by the number of nodes in the store.

  \<^bold>\<open>Theories.\<close>
  \<^item> \<open>Component\<close>: the contract of a heap object as locales (\<open>c_component\<close>: every operation refines an
    abstract step, is safe and accounts for blocks; \<open>c_owned\<close>: creation and destruction) with the
    theorems on sequences of calls and on whole lifecycles. Interpreted by the next three, by singly linked lists, by vectors, by HTTP headers, by messages and
    by the client.
  \<^item> \<open>Buffer\<close> (\<open>c-utility/src/buffer.c\<close>, every function): a buffer refines a byte list. \<open>BUFFER_clone\<close> is
    the function that breaks the contract.
  \<^item> \<open>Strings\<close> (\<open>c-utility/src/strings.c\<close>, every function): a string refines a list of characters; the JSON
    literal \<open>STRING_new_JSON\<close> writes is read back by a reader of RFC 8259 strings.
  \<^item> \<open>MapTable\<close> (\<open>c-utility/src/map.c\<close>, every function): two parallel arrays refine an association list with
    distinct keys and a filter; the JSON object it prints is read back.
  \<^item> \<open>Crt\<close> (\<open>c-utility/src/crt_abstractions.c\<close>, \<open>cores/esp32/stdlib_noniso.c\<close>): bounded copies, number printing.
  \<^item> \<open>Base64_Spec\<close>, \<open>Base64\<close>, \<open>LibB64\<close>: RFC 4648 over an alphabet (locale \<open>b64_alphabet\<close>), the coder of
    \<open>c-utility/src/base64.c\<close> and the streaming coder of \<open>cores/esp32/libb64\<close>, both interpretations of it.
  \<^item> \<open>UrlEncode\<close> (\<open>c-utility/src/urlencode.c\<close>): the result is the percent encoding of the UTF-8 text, in a
    block of just its size.
  \<^item> \<open>SdCrc\<close> (\<open>libraries/SD/src/sd_diskio_crc.c\<close>): the tables compute polynomial division (locale \<open>crc\<close>).
  \<^item> \<open>MqttEncode\<close> (\<open>umqtt/src/mqtt_codec.c\<close>, sending): every packet has the layout of MQTT 3.1.1, except for a
    CONNECT whose will has quality of service 1 or 2: \<open>connect_packet\<close> is the protocol's packet, \<open>written_flags\<close> the flags that are written.
  \<^item> \<open>MqttDecode\<close> (\<open>umqtt/src/mqtt_codec.c\<close>, receiving): the state machine reassembles any stream of packets it
    can represent, cut in any way; input it cannot read is handled safely up to the bound the last theorem of the theory shows.
  \<^item> \<open>MqttMessage\<close> (\<open>umqtt/src/mqtt_message.c\<close>, every function): a message keeps its value and owns its blocks.
  \<^item> \<open>MqttClient\<close> (\<open>umqtt/src/mqtt_client.c\<close>, definitions): the client over a transport whose answers and reports are parameters
    (\<open>io_env\<close>, \<open>io_event\<close>); what it does to the outside is a list of actions. The clock is the tick counter of
    \<open>c-utility/pal/freertos/tickcounter.c\<close>, over the ticks of FreeRTOS as a parameter and the rate of \<open>sdkconfig\<close>; its readings fit
    32 bits for 49.7 days, and the theorems on times are about clients not older than that.
  \<^item> \<open>MqttSession\<close>: what the client does for its application - packets of the peer reported once each and in order,
    messages delivered from one client to another, the connection kept alive and closed - and where it goes wrong.
  \<^item> \<open>MqttLifecycle\<close>: the client as an instance of \<open>Component\<close>, from creation to destruction, the packets it receives included, and the
    opening of a session.
  \<^item> \<open>Sha\<close> (\<open>c-utility/src/sha1.c\<close>, \<open>sha224.c\<close>, \<open>sha384-512.c\<close>, \<open>usha.c\<close>, every function; definitions), \<open>ShaSpec\<close> (FIPS 180-4 and RFC 2104
    as functions on bytes), \<open>ShaStream\<close> (locale \<open>md_hash\<close>: taking in bytes, padding and finishing, proved once from the law of one block),
    \<open>ShaCompress\<close> (processing a block is the compression function), \<open>ShaConstants\<close> (the tables compared with the roots they come from), \<open>Usha\<close> (the
    interpretations for the three hashes; digests through the unified interface, and its misuse).
  \<^item> \<open>Hmac\<close> (\<open>c-utility/src/hmac.c\<close>, \<open>hmacsha256.c\<close>, every function): message authentication codes over the hashes and the buffer.
  \<^item> \<open>DList\<close> (\<open>c-utility/src/doublylinkedlist.c\<close>, every function): the links of a store of entries form a ring that stands for a sequence.
  \<^item> \<open>SList\<close> (\<open>c-utility/src/singlylinkedlist.c\<close>, every function): nodes on the heap refine a sequence, as an interpretation of \<open>Component\<close>, and the
    rest of the store does not change.
  \<^item> \<open>Vector\<close> (\<open>c-utility/src/vector.c\<close>, every function): a block refines a list of elements, as a further interpretation of \<open>Component\<close>.
  \<^item> \<open>Tokenizer\<close> (\<open>c-utility/src/string_tokenizer.c\<close>, \<open>connection_string_parser.c\<close>, every function): connection strings into maps and back, on
    top of strings and maps, and host names into their parts.
  \<^item> \<open>SasToken\<close>, \<open>SasValidate\<close> (\<open>c-utility/src/sastoken.c\<close>, every function): shared access signatures, made from base64, HMAC, URL
    encoding, strings and buffers, and checked; what becomes of the tokens the code itself makes, and of others.
  \<^item> \<open>HttpHeaders\<close> (\<open>c-utility/src/httpheaders.c\<close>, every function): the headers of a request on top of maps, as an interpretation of
    \<open>Component\<close>; each header is read back from its line. \<open>HttpSas\<close> (\<open>c-utility/src/httpapiexsas.c\<close>, every function): requests whose
    authorization is a shared access signature.
  \<^item> \<open>ConstData\<close> (\<open>c-utility/src/constbuffer.c\<close>, \<open>constmap.c\<close>, every function): objects with several owners, over reference counts
    (locale \<open>shared_object\<close>, interpreted by both).
  \<^item> This theory: the two base64 coders agree.

  \<^bold>\<open>What is left out.\<close> Logging (\<open>LogError\<close>) has no effect on the state. What \<open>vsnprintf\<close> formats for
  \<open>STRING_sprintf\<close> is an argument. Pointers that alias (\<open>handle1 == handle2\<close>) are explicit flags where the code
  tests for them. Floating-point conversions and the wide-range number readers of \<open>crt_abstractions.c\<close>, and
  \<open>dtostrf\<close>, are not modelled. The trace log of the MQTT client is modelled, but the theorems on the client are for
  tracing off; its transport and the callbacks of the application are parameters, and a callback does not call the client back. Executing
  an HTTP request (\<open>HTTPAPIEX_ExecuteRequest\<close>) is a parameter of \<open>HttpSas\<close>. The hub client (\<open>iothub_client\<close>), the option handler and
  the proxy of \<open>c-utility\<close> are not modelled. The platform layer (\<open>pal\<close>), the
  hardware abstraction of the core and the C++ libraries are access to registers, sockets and tasks.
\<close>

section \<open>Two base64 implementations\<close>

lemma alphabet_table: "take 64 encoding = map (\<lambda>i. base64char (of_nat i)) [0..<64]"
  unfolding encoding_bytes by code_simp

lemma alphabets_agree:
  assumes "v AND 63 = v"
  shows "base64_encode_value v = base64char v"
  using encode_value_nth [OF assms] by (simp add: alphabet_table)

lemma texts_agree: "b64_text base64_encode_value s = b64_text base64char s"
proof -
  have "b64_chars base64_encode_value s = b64_chars base64char s"
    by (induction s rule: triple_induct) (simp_all add: alphabets_agree)
  then show ?thesis by (simp add: b64_text_def)
qed

section \<open>Properties\<close>

text \<open>C31. The two base64 implementations understand each other: the Azure decoder reads what the encoder of the core
  wrote and returns the data; only lack of memory makes it fail.\<close>

theorem Base64_Decoder_reads_libb64:
  assumes "base64_encode_expected_len (int (length plain)) + 1 \<le> int (length code)" "(length plain + 2) div 3 * 4 < SIZE_MOD"
  shows "wp (do { (n, code') \<leftarrow> base64_encode_chars plain (int (length plain)) code fresh; Base64_Decoder (Some code') })
    (\<lambda>h w'. faults w' = faults w \<and> live w' = live w + buf_blocks h \<and>
       (case h of None \<Rightarrow> \<not> plenty 2 w | Some b \<Rightarrow> buf_wf b \<and> buf_bytes b = plain)) w"
proof -
  let ?t = "b64_text base64char plain"
  have enc: "base64_encode_chars plain (int (length plain)) code fresh = encode_chunks [plain] code 0 (base64_init_encodestate fresh)"
    by (simp add: base64_encode_chars_def split_def)
  have c: "c_str (put code 0 (?t @ [0])) = ?t" "is_cstr (put code 0 (?t @ [0]))" using az64.text_nozero [of plain] by (simp_all add: put_0)
  show ?thesis
    unfolding wp_bind enc
  proof (rule wp_mono [OF wp_encode_text], goal_cases)
    case (2 out w')
    then obtain m where "out = (m, put code 0 (?t @ [0]))" "w' = w" by (auto simp: texts_agree)
    then show ?case unfolding \<open>out = _\<close> prod.case \<open>w' = w\<close> by (intro wp_Base64_Decoder_text [OF c assms(2)]) simp_all
  qed (use assms in simp)
qed

theorem Base64_Decoder_reads_libb64_witness:
  "wp (do { (n, code') \<leftarrow> base64_encode_chars [1, 2, 255, 0] (int (length [1, 2, 255, 0 :: u8])) (replicate 9 0)
              \<lparr>enc_step = step_C, enc_result = 7, enc_stepcount = 3\<rparr>;
            Base64_Decoder (Some code') })
    (\<lambda>h w'. faults w' = 0 \<and> (case h of None \<Rightarrow> False | Some b \<Rightarrow> buf_bytes b = [1, 2, 255, 0]))
    \<lparr>avail = [Some (\<lambda>_. 1), Some (\<lambda>_. 2)], live = 0, faults = 0\<rparr>"
  by (rule wp_mono [OF Base64_Decoder_reads_libb64])
    (auto simp: expected_len [of 4, simplified] SIZE_MOD_def plenty_eval split: option.splits)

end
